(* ===== verification/Senpi_Prelude.thy ===== *)
theory Senpi_Prelude
  imports Complex_Main "HOL-Library.Char_ord" "HOL-Library.List_Lexorder"
begin

text \<open>
  Shared vocabulary of the development: results of operations that may throw, JavaScript
  numbers with their non-finite values, JavaScript objects as association lists in insertion
  order, and the generic lemmas the component theories rely on.
\<close>

named_theorems num_simps \<open>comparisons and arithmetic of JavaScript numbers\<close>
named_theorems obj_simps \<open>lookup and update in JavaScript objects\<close>

section \<open>Operations that may throw\<close>

text \<open>
  A function that may throw returns \<open>Inl\<close> the error or \<open>Inr\<close> its value. \<open>rbind\<close> runs the
  rest of a body only when the step before it did not throw.
\<close>

type_synonym ('e, 'a) result = "'e + 'a"

definition rbind :: "('e, 'a) result \<Rightarrow> ('a \<Rightarrow> ('e, 'b) result) \<Rightarrow> ('e, 'b) result" where
  "rbind m f = (case m of Inl e \<Rightarrow> Inl e | Inr x \<Rightarrow> f x)"

lemma rbind_Inl [simp]: "rbind (Inl e) f = Inl e"
  by (simp add: rbind_def)

lemma rbind_Inr [simp]: "rbind (Inr x) f = f x"
  by (simp add: rbind_def)

lemma rbind_eq_Inr: "rbind m f = Inr y \<longleftrightarrow> (\<exists>x. m = Inr x \<and> f x = Inr y)"
  by (cases m) auto

lemma rbind_eq_Inl: "rbind m f = Inl e \<longleftrightarrow> m = Inl e \<or> (\<exists>x. m = Inr x \<and> f x = Inl e)"
  by (cases m) auto

lemma rbind_cong [fundef_cong]: "m = m' \<Longrightarrow> (\<And>x. m' = Inr x \<Longrightarrow> f x = g x) \<Longrightarrow> rbind m f = rbind m' g"
  by (cases m') simp_all

section \<open>JavaScript numbers\<close>

text \<open>
  A number is a finite value, one of the infinities, or NaN. Finite values are exact
  rationals: the code only adds and compares millisecond clocks, counters and budgets, for
  which double arithmetic is exact below two to the 53. Every comparison with NaN is false.
\<close>

datatype number = Fin rat | PosInf | NegInf | NaN

fun is_finite :: "number \<Rightarrow> bool" where
  "is_finite (Fin _) = True"
| "is_finite _ = False"

definition max_safe_integer :: rat where
  "max_safe_integer = 9007199254740991"

fun is_safe_integer :: "number \<Rightarrow> bool" where
  "is_safe_integer (Fin r) \<longleftrightarrow>
     of_int \<lfloor>r\<rfloor> = r \<and> - max_safe_integer \<le> r \<and> r \<le> max_safe_integer"
| "is_safe_integer _ = False"

fun num_lt :: "number \<Rightarrow> number \<Rightarrow> bool" where
  "num_lt (Fin a) (Fin b) = (a < b)"
| "num_lt (Fin _) PosInf = True"
| "num_lt NegInf (Fin _) = True"
| "num_lt NegInf PosInf = True"
| "num_lt _ _ = False"

fun num_eq :: "number \<Rightarrow> number \<Rightarrow> bool" where
  "num_eq (Fin a) (Fin b) = (a = b)"
| "num_eq PosInf PosInf = True"
| "num_eq NegInf NegInf = True"
| "num_eq _ _ = False"

definition num_le :: "number \<Rightarrow> number \<Rightarrow> bool" where
  "num_le a b = (num_lt a b \<or> num_eq a b)"

fun num_add :: "number \<Rightarrow> number \<Rightarrow> number" where
  "num_add (Fin a) (Fin b) = Fin (a + b)"
| "num_add NaN _ = NaN"
| "num_add _ NaN = NaN"
| "num_add PosInf NegInf = NaN"
| "num_add NegInf PosInf = NaN"
| "num_add PosInf _ = PosInf"
| "num_add _ PosInf = PosInf"
| "num_add NegInf _ = NegInf"
| "num_add _ NegInf = NegInf"

fun num_neg :: "number \<Rightarrow> number" where
  "num_neg (Fin a) = Fin (- a)"
| "num_neg PosInf = NegInf"
| "num_neg NegInf = PosInf"
| "num_neg NaN = NaN"

definition num_sub :: "number \<Rightarrow> number \<Rightarrow> number" where
  "num_sub a b = num_add a (num_neg b)"

text \<open>\<open>Math.min\<close> and \<open>Math.max\<close> answer NaN when an argument is NaN.\<close>

definition num_min :: "number \<Rightarrow> number \<Rightarrow> number" where
  "num_min a b = (if a = NaN \<or> b = NaN then NaN else if num_lt b a then b else a)"

definition num_max :: "number \<Rightarrow> number \<Rightarrow> number" where
  "num_max a b = (if a = NaN \<or> b = NaN then NaN else if num_lt a b then b else a)"

lemma num_le_Fin [simp, num_simps]: "num_le (Fin a) (Fin b) = (a \<le> b)"
  by (auto simp: num_le_def)

lemma num_min_Fin [simp, num_simps]: "num_min (Fin a) (Fin b) = Fin (min a b)"
  by (simp add: num_min_def min_def)

lemma num_max_Fin [simp, num_simps]: "num_max (Fin a) (Fin b) = Fin (max a b)"
  by (simp add: num_max_def max_def)

lemma num_sub_Fin [simp, num_simps]: "num_sub (Fin a) (Fin b) = Fin (a - b)"
  by (simp add: num_sub_def)

lemma is_finite_iff: "is_finite n \<longleftrightarrow> (\<exists>r. n = Fin r)"
  by (cases n) auto

lemma is_finiteE [elim]:
  assumes "is_finite n"
  obtains r where "n = Fin r"
  using assms by (cases n) auto

lemma number_eq_iff: "num_eq a b \<longleftrightarrow> a = b \<and> a \<noteq> NaN"
  by (cases a; cases b) auto

lemma num_eq_refl: "is_finite a \<Longrightarrow> num_eq a a"
  by (auto simp: number_eq_iff)

lemma is_safe_integer_finite: "is_safe_integer n \<Longrightarrow> is_finite n"
  by (cases n) auto

lemma num_le_trans: "num_le a b \<Longrightarrow> num_le b c \<Longrightarrow> num_le a c"
  by (cases a; cases b; cases c) (auto simp: num_le_def)

lemma num_lt_le_trans: "num_lt a b \<Longrightarrow> num_le b c \<Longrightarrow> num_lt a c"
  by (cases a; cases b; cases c) (auto simp: num_le_def)

lemma num_lt_asym: "num_lt a b \<Longrightarrow> \<not> num_lt b a"
  by (cases a; cases b) auto

lemma num_lt_irrefl [simp]: "\<not> num_lt a a"
  by (cases a) auto

text \<open>A counter or sequence number as a JavaScript number.\<close>

abbreviation num_of_nat :: "nat \<Rightarrow> number" where
  "num_of_nat n \<equiv> Fin (of_nat n)"

text \<open>\<open>ExecutionRef\<close>: how every component above the ledger names an execution.\<close>

record execution_ref =
  xr_issuer :: string
  xr_executionId :: string
  xr_generation :: number

section \<open>JavaScript objects\<close>

text \<open>
  The own enumerable properties of an object (and the entries of a \<open>Map\<close>) in insertion
  order. \<open>map_of\<close> reads a property, \<open>obj_put\<close> is the spread \<open>{...o, [k]: v}\<close> (and
  \<open>Map.set\<close>), which keeps the position of a key that is already there, and \<open>obj_del\<close> drops
  a key. JavaScript's rule that integer-like keys come first is not modelled.
\<close>

type_synonym 'v obj = "(string \<times> 'v) list"

fun obj_put :: "'k \<Rightarrow> 'v \<Rightarrow> ('k \<times> 'v) list \<Rightarrow> ('k \<times> 'v) list" where
  "obj_put k v [] = [(k, v)]"
| "obj_put k v ((k', v') # o') = (if k' = k then (k, v) # o' else (k', v') # obj_put k v o')"

definition obj_del :: "'k \<Rightarrow> ('k \<times> 'v) list \<Rightarrow> ('k \<times> 'v) list" where
  "obj_del k o' = filter (\<lambda>(k', _). k' \<noteq> k) o'"

definition obj_keys :: "('k \<times> 'v) list \<Rightarrow> 'k list" where
  "obj_keys o' = map fst o'"

text \<open>An object has each key once.\<close>

abbreviation obj_wf :: "('k \<times> 'v) list \<Rightarrow> bool" where
  "obj_wf o' \<equiv> distinct (map fst o')"

lemma map_of_obj_put [simp, obj_simps]: "map_of (obj_put k v o') = (map_of o')(k \<mapsto> v)"
  by (induction k v o' rule: obj_put.induct) (auto simp: fun_eq_iff)

lemma set_fst_obj_put [simp]: "fst ` set (obj_put k v o') = insert k (fst ` set o')"
  by (induction k v o' rule: obj_put.induct) auto

lemma obj_wf_put [simp]: "obj_wf o' \<Longrightarrow> obj_wf (obj_put k v o')"
  by (induction k v o' rule: obj_put.induct) auto

lemma obj_put_fresh: "k \<notin> fst ` set o' \<Longrightarrow> obj_put k v o' = o' @ [(k, v)]"
  by (induction k v o' rule: obj_put.induct) auto

lemma set_obj_put_subset: "set (obj_put k v o') \<subseteq> insert (k, v) (set o')"
  by (induction k v o' rule: obj_put.induct) auto

lemma map_of_obj_del [simp, obj_simps]: "map_of (obj_del k o') = (map_of o')(k := None)"
  by (induction o') (auto simp: obj_del_def fun_eq_iff)

lemma set_fst_obj_del [simp]: "fst ` set (obj_del k o') = fst ` set o' - {k}"
  by (auto simp: obj_del_def image_iff)

lemma obj_wf_filter: "obj_wf o' \<Longrightarrow> obj_wf (filter P o')"
  by (induction o') auto

lemma obj_wf_del [simp]: "obj_wf o' \<Longrightarrow> obj_wf (obj_del k o')"
  unfolding obj_del_def by (rule obj_wf_filter)

lemma obj_put_same: "obj_wf o' \<Longrightarrow> map_of o' k = Some v \<Longrightarrow> obj_put k v o' = o'"
  by (induction k v o' rule: obj_put.induct) (auto split: if_splits)

lemma map_of_filter_key:
  "map_of (filter (\<lambda>(k, _). P k) o') k = (if P k then map_of o' k else None)"
  by (induction o') auto

lemma map_of_map_snd: "map_of (map (\<lambda>(k, v). (k, f v)) o') k = map_option f (map_of o' k)"
  by (induction o') auto

section \<open>Decimal numerals\<close>

text \<open>A non-negative integer as JavaScript prints it in a template string.\<close>

fun nat_to_string :: "nat \<Rightarrow> string" where
  "nat_to_string n =
     (if n < 10 then [char_of (48 + n)] else nat_to_string (n div 10) @ [char_of (48 + n mod 10)])"

declare nat_to_string.simps [simp del]

section \<open>Lists\<close>

lemma nth_map_upt_eq: "xs = map f [0..<n] \<Longrightarrow> i < n \<Longrightarrow> xs ! i = f i"
  by simp

lemma upt_Suc_Cons: "[n..<Suc (n + k)] = n # [Suc n..<Suc (n + k)]"
  by (simp add: upt_conv_Cons)

lemma filter_neq_map:
  "map f (filter (\<lambda>x. f x \<noteq> a) xs) = filter (\<lambda>y. y \<noteq> a) (map f xs)"
  by (induction xs) auto

text \<open>\<open>items.map((item, at) => (at === index ? value : item))\<close>: an index out of range changes nothing.\<close>

lemma list_update_map_idx:
  "map (\<lambda>(j, item). if j = i then v else item) (zip [0..<length xs] xs) = xs[i := v]"
  by (rule nth_equalityI) (auto simp: nth_list_update)

end
