(* ===== verification/Json_Value.thy ===== *)
theory Json_Value
  imports Senpi_Prelude
begin

text \<open>
  The JSON values the durable store holds (\<open>StoreValue\<close> of durable/store.ts), the
  comparison of durable/store-memory.ts, the key order of execution/canonical-json.ts and
  execution/canonical-digest.ts, and the text \<open>JSON.stringify\<close> gives for strings and lists
  of strings, which every document key is built from. Strings are sequences of code units
  below 256.
\<close>

datatype store_value =
    SNull
  | SBool bool
  | SNum number
  | SStr string
  | SList "store_value list"
  | SObj "(string \<times> store_value) list"

section \<open>Type tests on stored values\<close>

text \<open>\<open>value !== null && typeof value === "object" && !Array.isArray(value)\<close> on a value or undefined.\<close>

fun is_store_object :: "store_value option \<Rightarrow> bool" where
  "is_store_object (Some (SObj _)) = True"
| "is_store_object _ = False"

fun obj_fields :: "store_value option \<Rightarrow> store_value obj" where
  "obj_fields (Some (SObj o')) = o'"
| "obj_fields _ = []"

text \<open>\<open>value.name\<close> on a value that may be anything.\<close>

abbreviation fld :: "store_value option \<Rightarrow> string \<Rightarrow> store_value option" where
  "fld v name \<equiv> map_of (obj_fields v) name"

fun is_str :: "store_value option \<Rightarrow> bool" where
  "is_str (Some (SStr _)) = True"
| "is_str _ = False"

fun is_bool :: "store_value option \<Rightarrow> bool" where
  "is_bool (Some (SBool _)) = True"
| "is_bool _ = False"

fun is_num :: "store_value option \<Rightarrow> bool" where
  "is_num (Some (SNum _)) = True"
| "is_num _ = False"

fun is_fin_num :: "store_value option \<Rightarrow> bool" where
  "is_fin_num (Some (SNum n)) = is_finite n"
| "is_fin_num _ = False"

fun is_list :: "store_value option \<Rightarrow> bool" where
  "is_list (Some (SList _)) = True"
| "is_list _ = False"

text \<open>Reading a field whose type has been tested; the other cases are never reached.\<close>

fun get_str :: "store_value option \<Rightarrow> string" where
  "get_str (Some (SStr s)) = s"
| "get_str _ = []"

fun get_bool :: "store_value option \<Rightarrow> bool" where
  "get_bool (Some (SBool b)) = b"
| "get_bool _ = False"

fun get_num :: "store_value option \<Rightarrow> number" where
  "get_num (Some (SNum n)) = n"
| "get_num _ = NaN"

fun get_list :: "store_value option \<Rightarrow> store_value list" where
  "get_list (Some (SList xs)) = xs"
| "get_list _ = []"

lemma is_store_object_iff: "is_store_object v \<longleftrightarrow> (\<exists>o'. v = Some (SObj o'))"
  by (cases v rule: is_store_object.cases) auto

lemma is_str_iff: "is_str v \<longleftrightarrow> (\<exists>s. v = Some (SStr s))"
  by (cases v rule: is_str.cases) auto

lemma is_bool_iff: "is_bool v \<longleftrightarrow> (\<exists>b. v = Some (SBool b))"
  by (cases v rule: is_bool.cases) auto

lemma is_fin_num_iff: "is_fin_num v \<longleftrightarrow> (\<exists>r. v = Some (SNum (Fin r)))"
  by (cases v rule: is_fin_num.cases) (auto simp: is_finite_iff)

lemma is_list_iff: "is_list v \<longleftrightarrow> (\<exists>xs. v = Some (SList xs))"
  by (cases v rule: is_list.cases) auto

section \<open>sameValue\<close>

text \<open>
  Structural equality up to the order of object keys; \<open>===\<close> on numbers, so NaN differs from
  itself.
\<close>

fun same_value :: "store_value \<Rightarrow> store_value \<Rightarrow> bool"
and same_list :: "store_value list \<Rightarrow> store_value list \<Rightarrow> bool"
and same_obj :: "(string \<times> store_value) list \<Rightarrow> (string \<times> store_value) list \<Rightarrow> bool" where
  "same_value SNull b = (b = SNull)"
| "same_value (SBool x) b = (b = SBool x)"
| "same_value (SNum x) b = (case b of SNum y \<Rightarrow> num_eq x y | _ \<Rightarrow> False)"
| "same_value (SStr x) b = (b = SStr x)"
| "same_value (SList xs) b = (case b of SList ys \<Rightarrow> length xs = length ys \<and> same_list xs ys | _ \<Rightarrow> False)"
| "same_value (SObj xs) b = (case b of SObj ys \<Rightarrow> length xs = length ys \<and> same_obj xs ys | _ \<Rightarrow> False)"
| "same_list [] ys = True"
| "same_list (x # xs) [] = False"
| "same_list (x # xs) (y # ys) = (same_value x y \<and> same_list xs ys)"
| "same_obj [] ys = True"
| "same_obj ((k, v) # xs) ys =
     ((case map_of ys k of None \<Rightarrow> False | Some w \<Rightarrow> same_value v w) \<and> same_obj xs ys)"

text \<open>Values as JSON carries them: finite numbers only and no repeated key.\<close>

fun json_wf :: "store_value \<Rightarrow> bool" where
  "json_wf (SNum n) = is_finite n"
| "json_wf (SList xs) = (\<forall>x \<in> set xs. json_wf x)"
| "json_wf (SObj o') = (obj_wf o' \<and> (\<forall>(k, v) \<in> set o'. json_wf v))"
| "json_wf _ = True"

lemma same_list_refl: "(\<And>x. x \<in> set xs \<Longrightarrow> same_value x x) \<Longrightarrow> same_list xs xs"
  by (induction xs) auto

lemma same_obj_self:
  "(\<And>k v. (k, v) \<in> set xs \<Longrightarrow> map_of ys k = Some v \<and> same_value v v) \<Longrightarrow> same_obj xs ys"
proof (induction xs)
  case (Cons p xs)
  obtain k v where p: "p = (k, v)" by (cases p)
  have "map_of ys k = Some v \<and> same_value v v" by (rule Cons.prems) (simp add: p)
  moreover have "same_obj xs ys" by (rule Cons.IH, rule Cons.prems) simp
  ultimately show ?case by (simp add: p)
qed simp

lemma same_value_refl: "json_wf v \<Longrightarrow> same_value v v"
proof (induction v)
  case (SNum n)
  then show ?case by (simp add: num_eq_refl)
next
  case (SList xs)
  then show ?case by (auto intro: same_list_refl)
next
  case (SObj o')
  have "same_value v v" if "(k, v) \<in> set o'" for k v
    using SObj that by fastforce
  moreover have "map_of o' k = Some v" if "(k, v) \<in> set o'" for k v
    using SObj.prems that by simp
  ultimately show ?case by (auto intro: same_obj_self)
qed auto

section \<open>JSON text of strings\<close>

text \<open>
  \<open>JSON.stringify\<close> of a string: the quote and the backslash are escaped, the five short
  control escapes are used, every other control character becomes a four-digit hexadecimal
  escape, anything else stands for itself.
\<close>

definition hex_digit :: "nat \<Rightarrow> char" where
  "hex_digit n = char_of (if n < 10 then 48 + n else 87 + n)"

definition json_escape_char :: "char \<Rightarrow> string" where
  "json_escape_char c =
     (let n = of_char c :: nat in
      if n = 34 then [CHR 0x5C, CHR 0x22]
      else if n = 92 then [CHR 0x5C, CHR 0x5C]
      else if n = 8 then [CHR 0x5C, CHR ''b'']
      else if n = 9 then [CHR 0x5C, CHR ''t'']
      else if n = 10 then [CHR 0x5C, CHR ''n'']
      else if n = 12 then [CHR 0x5C, CHR ''f'']
      else if n = 13 then [CHR 0x5C, CHR ''r'']
      else if n < 32 then [CHR 0x5C, CHR ''u'', CHR ''0'', CHR ''0'', hex_digit (n div 16), hex_digit (n mod 16)]
      else [c])"

definition json_quote :: "string \<Rightarrow> string" where
  "json_quote s = CHR 0x22 # concat (map json_escape_char s) @ [CHR 0x22]"

fun join_with :: "string \<Rightarrow> string list \<Rightarrow> string" where
  "join_with sep [] = []"
| "join_with sep [x] = x"
| "join_with sep (x # xs) = x @ sep @ join_with sep xs"

text \<open>\<open>JSON.stringify\<close> of a list of strings.\<close>

definition json_string_list :: "string list \<Rightarrow> string" where
  "json_string_list xs = ''['' @ join_with '','' (map json_quote xs) @ '']''"

text \<open>
  \<open>canonicalJson\<close>: object keys sorted by code unit, no whitespace. \<open>num_text\<close> is the
  language's own text of a finite number; \<open>JSON.stringify\<close> prints the other numbers as null.
\<close>

primrec canonical_json :: "(number \<Rightarrow> string) \<Rightarrow> store_value \<Rightarrow> string" where
  "canonical_json num_text SNull = ''null''"
| "canonical_json num_text (SBool b) = (if b then ''true'' else ''false'')"
| "canonical_json num_text (SNum n) = (if is_finite n then num_text n else ''null'')"
| "canonical_json num_text (SStr s) = json_quote s"
| "canonical_json num_text (SList xs) = ''['' @ join_with '','' (map (canonical_json num_text) xs) @ '']''"
| "canonical_json num_text (SObj o') =
     CHR 0x7B # join_with '',''
       (map (\<lambda>(k, t). json_quote k @ '':'' @ t)
         (sort_key fst (map (map_prod id (canonical_json num_text)) o'))) @ [CHR 0x7D]"

subsection \<open>The quoting is self-delimiting\<close>

lemma json_escape_char_ne [simp]: "json_escape_char c \<noteq> []"
  by (simp add: json_escape_char_def Let_def)

lemma json_escape_char_hd: "hd (json_escape_char c) \<noteq> CHR 0x22"
  by (auto simp: json_escape_char_def Let_def)

text \<open>Reading one escaped character back; only used to show that no two texts coincide.\<close>

fun unescape1 :: "string \<Rightarrow> nat \<times> string" where
  "unescape1 (b # e # r) =
     (if b \<noteq> CHR 0x5C then (of_char b, e # r)
      else if e = CHR ''u'' then (16 * (of_char (r ! 2) - 48) +
         (if of_char (r ! 3) < (58 :: nat) then of_char (r ! 3) - 48 else of_char (r ! 3) - 87), drop 4 r)
      else if e = CHR ''b'' then (8, r) else if e = CHR ''t'' then (9, r)
      else if e = CHR ''n'' then (10, r) else if e = CHR ''f'' then (12, r)
      else if e = CHR ''r'' then (13, r) else (of_char e, r))"
| "unescape1 [b] = (of_char b, [])"
| "unescape1 [] = (0, [])"

lemma of_char_hex_digit: "k < 16 \<Longrightarrow> (of_char (hex_digit k) :: nat) = (if k < 10 then 48 + k else 87 + k)"
  by (simp add: hex_digit_def take_bit_eq_mod)

lemma unescape1_escape: "unescape1 (json_escape_char c @ x) = (of_char c, x)"
proof -
  have bs: "c = CHR 0x5C \<longleftrightarrow> (of_char c :: nat) = 92"
    using of_char_eq_iff [of c "CHR 0x5C", where 'a = nat] by simp
  have plain: "unescape1 (c # x) = (of_char c, x)" if "(of_char c :: nat) \<noteq> 92"
    using that bs by (cases x) auto
  have hex: "16 * (n div 16) + n mod 16 = n" for n :: nat by simp
  have small: "n < 32 \<Longrightarrow> n div 16 < 10" for n :: nat by simp
  show ?thesis
    unfolding json_escape_char_def Let_def
    by (simp add: plain of_char_hex_digit small hex)
qed

lemma json_escape_char_inj:
  assumes "json_escape_char c @ x = json_escape_char d @ y"
  shows "c = d \<and> x = y"
  using arg_cong [OF assms, of unescape1] by (simp add: unescape1_escape)

lemma json_escape_not_quote: "json_escape_char c @ x \<noteq> CHR 0x22 # y"
proof
  assume eq: "json_escape_char c @ x = CHR 0x22 # y"
  obtain e es where e: "json_escape_char c = e # es"
    using json_escape_char_ne [of c] by (cases "json_escape_char c") auto
  with json_escape_char_hd [of c] eq show False by simp
qed

lemma json_body_inj:
  "concat (map json_escape_char s) @ CHR 0x22 # x = concat (map json_escape_char t) @ CHR 0x22 # y
    \<Longrightarrow> s = t \<and> x = y"
proof (induction s arbitrary: t)
  case Nil
  then show ?case
    by (cases t) (auto simp: json_escape_not_quote [symmetric] dest: sym)
next
  case (Cons c s)
  show ?case
  proof (cases t)
    case Nil
    with Cons.prems show ?thesis by (simp add: json_escape_not_quote)
  next
    case t: (Cons d ds)
    have "json_escape_char c @ (concat (map json_escape_char s) @ CHR 0x22 # x)
        = json_escape_char d @ (concat (map json_escape_char ds) @ CHR 0x22 # y)"
      using Cons.prems by (simp add: t)
    from json_escape_char_inj [OF this] Cons.IH [of ds] show ?thesis by (simp add: t)
  qed
qed

lemma json_quote_inj: "json_quote s @ x = json_quote t @ y \<Longrightarrow> s = t \<and> x = y"
  using json_body_inj [of s x t y] by (simp add: json_quote_def)

lemma json_string_list1_inj: "json_string_list [a] = json_string_list [b] \<longleftrightarrow> a = b"
  using json_quote_inj [of a "[]" b "[]"] by (auto simp: json_string_list_def)

lemma json_string_list2_inj:
  "json_string_list [a, b] = json_string_list [c, d] \<longleftrightarrow> a = c \<and> b = d"
proof
  assume "json_string_list [a, b] = json_string_list [c, d]"
  then have eq: "json_quote a @ ('','' @ json_quote b @ '']'') = json_quote c @ ('','' @ json_quote d @ '']'')"
    by (simp add: json_string_list_def)
  from json_quote_inj [OF this] have "a = c" and "json_quote b @ '']'' = json_quote d @ '']''" by simp_all
  with json_quote_inj [of b _ d] show "a = c \<and> b = d" by blast
qed simp

section \<open>Lists of strings, objects of records, nullable strings\<close>

text \<open>\<open>Array.isArray(value) && value.every((entry) => typeof entry === "string")\<close>.\<close>

definition is_str_list :: "store_value option \<Rightarrow> bool" where
  "is_str_list v \<longleftrightarrow> is_list v \<and> list_all (\<lambda>x. is_str (Some x)) (get_list v)"

definition get_str_list :: "store_value option \<Rightarrow> string list" where
  "get_str_list v = map (\<lambda>x. get_str (Some x)) (get_list v)"

abbreviation str_list_value :: "string list \<Rightarrow> store_value" where
  "str_list_value xs \<equiv> SList (map SStr xs)"

lemma str_list_roundtrip [simp]:
  "is_str_list (Some (str_list_value xs))" "get_str_list (Some (str_list_value xs)) = xs"
  by (simp_all add: is_str_list_def get_str_list_def list_all_iff comp_def)

text \<open>\<open>object(value) && Object.values(value).every(check)\<close>.\<close>

definition each_field :: "(store_value \<Rightarrow> bool) \<Rightarrow> store_value option \<Rightarrow> bool" where
  "each_field check v \<longleftrightarrow> is_store_object v \<and> list_all (\<lambda>(k, x). check x) (obj_fields v)"

definition get_fields :: "(store_value \<Rightarrow> 'a) \<Rightarrow> store_value option \<Rightarrow> 'a obj" where
  "get_fields view v = map (\<lambda>(k, x). (k, view x)) (obj_fields v)"

abbreviation fields_value :: "('a \<Rightarrow> store_value) \<Rightarrow> 'a obj \<Rightarrow> store_value" where
  "fields_value f o' \<equiv> SObj (map (\<lambda>(k, x). (k, f x)) o')"

lemma each_field_value:
  "(\<And>k x. (k, x) \<in> set o' \<Longrightarrow> check (f x)) \<Longrightarrow> each_field check (Some (fields_value f o'))"
  by (auto simp: each_field_def list_all_iff)

lemma get_fields_value:
  "(\<And>k x. (k, x) \<in> set o' \<Longrightarrow> view (f x) = x) \<Longrightarrow> get_fields view (Some (fields_value f o')) = o'"
  by (induction o') (auto simp: get_fields_def)

fun nullable_value :: "string option \<Rightarrow> store_value" where
  "nullable_value None = SNull"
| "nullable_value (Some s) = SStr s"

fun get_nullable :: "store_value option \<Rightarrow> string option" where
  "get_nullable (Some (SStr s)) = Some s"
| "get_nullable _ = None"

definition is_nullable :: "store_value option \<Rightarrow> bool" where
  "is_nullable v \<longleftrightarrow> v = Some SNull \<or> is_str v"

lemma nullable_roundtrip [simp]: "is_nullable (Some (nullable_value x))" "get_nullable (Some (nullable_value x)) = x"
  by (cases x; simp add: is_nullable_def)+

end
