(* ===== verification/Durable_Store.thy ===== *)
theory Durable_Store
  imports Json_Value
begin

text \<open>
  The DurableStore contract (durable/store.ts) and its memory backend
  (durable/store-memory.ts): an append-only record log with gapless sequence numbers, a
  document map, an owner epoch that fences stale writers, atomic commits under injected
  write-point failures, and snapshot import. The locales \<open>commit_store\<close> and
  \<open>document_cell\<close> state what the components above the store rely on; the memory backend
  interprets the first.
\<close>

section \<open>Data\<close>

record store_record =
  sr_seq :: nat
  sr_id :: string
  sr_kind :: string
  sr_data :: store_value

record store_document =
  sd_key :: string
  sd_data :: store_value

datatype store_write =
    Append string string store_value
  | Put string store_value
  | Delete string

record commit_result =
  cr_seqs :: "nat list"
  cr_head :: nat

record store_snapshot =
  sn_epoch :: number
  sn_head :: nat
  sn_records :: "store_record list"
  sn_documents :: "store_document list"

datatype scan_order = Asc | Desc

record record_scan =
  q_from :: "nat option"
  q_to :: "nat option"
  q_kind :: "string option"
  q_order :: "scan_order option"
  q_limit :: "nat option"

datatype store_operation = OpCommit | OpClaim | OpImport

datatype write_point = PointBefore store_operation | PointWrite store_operation nat | PointDurable store_operation

datatype store_error_code = Unclaimed | StaleEpoch | InvalidClaim | DuplicateRecordId | ImportConflict

text \<open>
  What an operation may throw: a store error, a throw of the write-point seam, or an error of
  a component above the store with its message.
\<close>

datatype failure = DurableStoreError store_error_code | SeamThrow | ErrorMessage string

record medium_state =
  ms_epoch :: number
  ms_records :: "store_record list"
  ms_documents :: "store_value obj"

definition createMemoryStoreMedium :: medium_state where
  "createMemoryStoreMedium = \<lparr>ms_epoch = Fin 0, ms_records = [], ms_documents = []\<rparr>"

section \<open>Operations\<close>

fun sameRecord :: "store_record \<Rightarrow> store_record option \<Rightarrow> bool" where
  "sameRecord a None = False"
| "sameRecord a (Some b) \<longleftrightarrow>
     sr_seq a = sr_seq b \<and> sr_id a = sr_id b \<and> sr_kind a = sr_kind b \<and> same_value (sr_data a) (sr_data b)"

definition requireOwner :: "medium_state \<Rightarrow> number \<Rightarrow> (failure, unit) result" where
  "requireOwner st ep =
     (if num_eq (ms_epoch st) (Fin 0) then Inl (DurableStoreError Unclaimed)
      else if \<not> num_eq ep (ms_epoch st) then Inl (DurableStoreError StaleEpoch)
      else Inr ())"

text \<open>\<open>xs[i]\<close>, undefined out of range.\<close>

definition nth_opt :: "'a list \<Rightarrow> nat \<Rightarrow> 'a option" where
  "nth_opt xs i = (if i < length xs then Some (xs ! i) else None)"

fun gapless_from :: "nat \<Rightarrow> string list \<Rightarrow> store_record list \<Rightarrow> bool" where
  "gapless_from i ids [] = True"
| "gapless_from i ids (r # rs) =
     (sr_seq r = i + 1 \<and> sr_id r \<notin> set ids \<and> gapless_from (i + 1) (sr_id r # ids) rs)"

definition importedTail :: "medium_state \<Rightarrow> store_snapshot \<Rightarrow> (failure, store_record list) result" where
  "importedTail st snap =
     (let wellFormed = (sn_head snap = length (sn_records snap) \<and> gapless_from 0 [] (sn_records snap));
          extendsLog = (length (ms_records st) \<le> length (sn_records snap) \<and>
            list_all (\<lambda>i. sameRecord (ms_records st ! i) (nth_opt (sn_records snap) i))
              [0..<length (ms_records st)])
      in if \<not> wellFormed \<or> \<not> extendsLog then Inl (DurableStoreError ImportConflict)
         else Inr (drop (length (ms_records st)) (sn_records snap)))"

definition scan :: "store_record list \<Rightarrow> record_scan \<Rightarrow> store_record list" where
  "scan records q =
     (let matching = filter (\<lambda>r.
            (case q_from q of None \<Rightarrow> True | Some n \<Rightarrow> n \<le> sr_seq r) \<and>
            (case q_to q of None \<Rightarrow> True | Some n \<Rightarrow> sr_seq r \<le> n) \<and>
            (case q_kind q of None \<Rightarrow> True | Some k \<Rightarrow> sr_kind r = k)) records;
          ordered = (if q_order q = Some Desc then rev matching else matching)
      in case q_limit q of None \<Rightarrow> ordered | Some n \<Rightarrow> take n ordered)"

definition starts_with :: "string \<Rightarrow> string \<Rightarrow> bool" where
  "starts_with prefix s \<longleftrightarrow> take (length prefix) s = prefix"

definition documentsOf :: "medium_state \<Rightarrow> string \<Rightarrow> store_document list" where
  "documentsOf st prefix =
     map (\<lambda>(k, d). \<lparr>sd_key = k, sd_data = d\<rparr>)
       (sort_key fst (filter (\<lambda>(k, _). starts_with prefix k) (ms_documents st)))"

text \<open>
  The staging loop of \<open>commitSync\<close>: writes are applied to copies; the write point before each
  write may throw, and so may an append whose record id is taken.
\<close>

fun stage_writes :: "(write_point \<Rightarrow> bool) \<Rightarrow> nat \<Rightarrow> store_write list \<Rightarrow>
    store_record list \<Rightarrow> store_value obj \<Rightarrow> nat list \<Rightarrow>
    (failure, store_record list \<times> store_value obj \<times> nat list) result" where
  "stage_writes seam i [] records documents seqs = Inr (records, documents, seqs)"
| "stage_writes seam i (w # ws) records documents seqs =
     (if seam (PointWrite OpCommit i) then Inl SeamThrow
      else case w of
        Append rid kind data \<Rightarrow>
          if rid \<in> set (map sr_id records) then Inl (DurableStoreError DuplicateRecordId)
          else let n = length records + 1 in
            stage_writes seam (i + 1) ws
              (records @ [\<lparr>sr_seq = n, sr_id = rid, sr_kind = kind, sr_data = data\<rparr>]) documents (seqs @ [n])
      | Put key data \<Rightarrow> stage_writes seam (i + 1) ws records (obj_put key data documents) seqs
      | Delete key \<Rightarrow> stage_writes seam (i + 1) ws records (obj_del key documents) seqs)"

text \<open>
  \<open>commitSync\<close>: the reply, the medium afterwards, and the argument \<open>adopt\<close> was called with
  (\<open>None\<close> when it was not called).
\<close>

definition commitSync :: "(write_point \<Rightarrow> bool) \<Rightarrow> medium_state \<Rightarrow> number \<Rightarrow> store_write list \<Rightarrow>
    (failure, commit_result) result \<times> medium_state \<times> commit_result option" where
  "commitSync seam st ep ws =
     (if seam (PointBefore OpCommit) then (Inl SeamThrow, st, None)
      else case requireOwner st ep of Inl e \<Rightarrow> (Inl e, st, None)
      | Inr _ \<Rightarrow>
        (case stage_writes seam 0 ws (ms_records st) (ms_documents st) [] of Inl e \<Rightarrow> (Inl e, st, None)
         | Inr (records, documents, seqs) \<Rightarrow>
           let st' = \<lparr>ms_epoch = ms_epoch st, ms_records = records, ms_documents = documents\<rparr>;
               res = \<lparr>cr_seqs = seqs, cr_head = length records\<rparr>
           in if seam (PointDurable OpCommit) then (Inl SeamThrow, st', None)
              else (Inr res, st', Some res)))"

definition store_claim :: "(write_point \<Rightarrow> bool) \<Rightarrow> medium_state \<Rightarrow> number \<Rightarrow> number \<Rightarrow>
    (failure, unit) result \<times> medium_state" where
  "store_claim seam st expectedEpoch nextEpoch =
     (if seam (PointBefore OpClaim) then (Inl SeamThrow, st)
      else if \<not> is_safe_integer nextEpoch \<or> \<not> num_eq nextEpoch (num_add expectedEpoch (Fin 1))
      then (Inl (DurableStoreError InvalidClaim), st)
      else if \<not> num_eq (ms_epoch st) expectedEpoch then (Inl (DurableStoreError StaleEpoch), st)
      else let st' = st\<lparr>ms_epoch := nextEpoch\<rparr> in
        if seam (PointDurable OpClaim) then (Inl SeamThrow, st') else (Inr (), st'))"

definition exportSnapshot :: "medium_state \<Rightarrow> store_snapshot" where
  "exportSnapshot st = \<lparr>sn_epoch = ms_epoch st, sn_head = length (ms_records st),
     sn_records = ms_records st, sn_documents = documentsOf st []\<rparr>"

definition importSnapshot :: "(write_point \<Rightarrow> bool) \<Rightarrow> medium_state \<Rightarrow> number \<Rightarrow> store_snapshot \<Rightarrow>
    (failure, unit) result \<times> medium_state" where
  "importSnapshot seam st ep snap =
     (if seam (PointBefore OpImport) then (Inl SeamThrow, st)
      else case requireOwner st ep of Inl e \<Rightarrow> (Inl e, st)
      | Inr _ \<Rightarrow>
        if num_le ep (sn_epoch snap) then (Inl (DurableStoreError InvalidClaim), st)
        else case importedTail st snap of Inl e \<Rightarrow> (Inl e, st)
        | Inr tail \<Rightarrow>
          if list_ex (\<lambda>i. seam (PointWrite OpImport i)) [0..<length tail + length (sn_documents snap)]
          then (Inl SeamThrow, st)
          else let st' = \<lparr>ms_epoch = ms_epoch st, ms_records = ms_records st @ tail,
                 ms_documents = fold (\<lambda>d. obj_put (sd_key d) (sd_data d)) (sn_documents snap) []\<rparr>
            in if seam (PointDurable OpImport) then (Inl SeamThrow, st') else (Inr (), st'))"

definition getDocument :: "medium_state \<Rightarrow> string \<Rightarrow> store_value option" where
  "getDocument st key = map_of (ms_documents st) key"

definition readEpoch :: "medium_state \<Rightarrow> number" where
  "readEpoch st = ms_epoch st"

definition readHead :: "medium_state \<Rightarrow> nat" where
  "readHead st = length (ms_records st)"

text \<open>The store as its clients call it, with no write-point seam installed.\<close>

definition store_commit :: "medium_state \<Rightarrow> number \<Rightarrow> store_write list \<Rightarrow>
    (failure, commit_result \<times> medium_state) result" where
  "store_commit st ep ws =
     (case commitSync (\<lambda>_. False) st ep ws of (Inl e, _, _) \<Rightarrow> Inl e | (Inr r, st', _) \<Rightarrow> Inr (r, st'))"

section \<open>What a batch of writes means\<close>

text \<open>The specification of a batch: the records it appends, and the documents it leaves.\<close>

fun appended :: "store_write list \<Rightarrow> (string \<times> string \<times> store_value) list" where
  "appended [] = []"
| "appended (Append rid kind data # ws) = (rid, kind, data) # appended ws"
| "appended (_ # ws) = appended ws"

fun written :: "store_write list \<Rightarrow> (string \<rightharpoonup> store_value) \<Rightarrow> (string \<rightharpoonup> store_value)" where
  "written [] m = m"
| "written (Put k d # ws) m = written ws (m(k \<mapsto> d))"
| "written (Delete k # ws) m = written ws (m(k := None))"
| "written (Append _ _ _ # ws) m = written ws m"

fun number_from :: "nat \<Rightarrow> (string \<times> string \<times> store_value) list \<Rightarrow> store_record list" where
  "number_from n [] = []"
| "number_from n ((i, k, d) # xs) =
     \<lparr>sr_seq = n + 1, sr_id = i, sr_kind = k, sr_data = d\<rparr> # number_from (n + 1) xs"

lemma length_number_from [simp]: "length (number_from n xs) = length xs"
  by (induction n xs rule: number_from.induct) auto

lemma sr_id_number_from: "map sr_id (number_from n xs) = map fst xs"
  by (induction n xs rule: number_from.induct) auto

lemma sr_seq_number_from: "map sr_seq (number_from n xs) = map Suc [n..<n + length xs]"
  by (induction n xs rule: number_from.induct) (auto simp: upt_Suc_Cons simp del: upt_Suc)

lemma stage_writes_Inr:
  assumes "stage_writes seam i ws records documents seqs = Inr (records', documents', seqs')"
  shows "records' = records @ number_from (length records) (appended ws)"
    and "map_of documents' = written ws (map_of documents)"
    and "seqs' = seqs @ map Suc [length records..<length records + length (appended ws)]"
    and "obj_wf documents \<Longrightarrow> obj_wf documents'"
    and "distinct (map sr_id records) \<Longrightarrow> distinct (map sr_id records')"
  using assms
proof (induction seam i ws records documents seqs rule: stage_writes.induct)
  case (2 seam i w ws records documents seqs)
  { case 1 with "2.IH" show ?case by (cases w) (auto simp: Let_def split: if_splits) }
  { case 2 with "2.IH" show ?case by (cases w) (auto simp: Let_def fun_upd_def split: if_splits) }
  { case 3 with "2.IH" show ?case by (cases w) (auto simp: Let_def upt_Suc_Cons simp del: upt_Suc split: if_splits) }
  { case 4 with "2.IH" show ?case by (cases w) (auto simp: Let_def split: if_splits) }
  { case 5 with "2.IH" show ?case by (cases w) (auto simp: Let_def split: if_splits) }
qed auto

section \<open>Commits\<close>

text \<open>The medium a batch leaves when all of it is durable.\<close>

lemma commitSync_cases:
  obtains (refused) e where "commitSync seam st ep ws = (Inl e, st, None)"
  | (durable) st' res where
      "commitSync seam st ep ws = (if seam (PointDurable OpCommit) then (Inl SeamThrow, st', None) else (Inr res, st', Some res))"
      "num_eq ep (ms_epoch st)" "\<not> num_eq (ms_epoch st) (Fin 0)"
      "ms_epoch st' = ms_epoch st"
      "ms_records st' = ms_records st @ number_from (length (ms_records st)) (appended ws)"
      "map_of (ms_documents st') = written ws (map_of (ms_documents st))"
      "cr_seqs res = map Suc [length (ms_records st)..<length (ms_records st')]"
      "cr_head res = length (ms_records st')"
      "obj_wf (ms_documents st) \<Longrightarrow> obj_wf (ms_documents st')"
      "distinct (map sr_id (ms_records st)) \<Longrightarrow> distinct (map sr_id (ms_records st'))"
proof (cases "seam (PointBefore OpCommit)")
  case True
  then show ?thesis by (auto simp: commitSync_def intro!: refused)
next
  case nb: False
  show ?thesis
  proof (cases "requireOwner st ep")
    case (Inl e)
    with nb show ?thesis by (auto simp: commitSync_def intro!: refused)
  next
    case (Inr u)
    then have own: "num_eq ep (ms_epoch st)" "\<not> num_eq (ms_epoch st) (Fin 0)"
      by (auto simp: requireOwner_def split: if_splits)
    show ?thesis
    proof (cases "stage_writes seam 0 ws (ms_records st) (ms_documents st) []")
      case (Inl e)
      with nb Inr show ?thesis by (auto simp: commitSync_def intro!: refused)
    next
      case st: (Inr r)
      obtain rs ds sq where r: "r = (rs, ds, sq)" by (cases r)
      note spec = stage_writes_Inr [OF st [unfolded r]]
      show ?thesis
        by (rule durable [of "\<lparr>ms_epoch = ms_epoch st, ms_records = rs, ms_documents = ds\<rparr>"
              "\<lparr>cr_seqs = sq, cr_head = length rs\<rparr>"])
          (use nb Inr own st r spec in \<open>simp_all add: commitSync_def Let_def\<close>)
    qed
  qed
qed

lemma store_commit_Inr:
  assumes "store_commit st ep ws = Inr (r, st')"
  shows "num_eq ep (ms_epoch st)" "\<not> num_eq (ms_epoch st) (Fin 0)"
    "ms_epoch st' = ms_epoch st"
    "ms_records st' = ms_records st @ number_from (length (ms_records st)) (appended ws)"
    "map_of (ms_documents st') = written ws (map_of (ms_documents st))"
    "obj_wf (ms_documents st) \<Longrightarrow> obj_wf (ms_documents st')"
    "distinct (map sr_id (ms_records st)) \<Longrightarrow> distinct (map sr_id (ms_records st'))"
  by (cases rule: commitSync_cases [of "\<lambda>_. False" st ep ws];
      use assms in \<open>auto simp: store_commit_def\<close>)+

lemma store_commit_ok:
  assumes "num_eq ep (ms_epoch st)" "\<not> num_eq (ms_epoch st) (Fin 0)"
    and "distinct (map fst (appended ws))" "fst ` set (appended ws) \<inter> sr_id ` set (ms_records st) = {}"
  shows "\<exists>r st'. store_commit st ep ws = Inr (r, st')"
proof -
  have "\<exists>out. stage_writes (\<lambda>_. False) i ws rs ds sq = Inr out"
    if "distinct (map fst (appended ws))" "fst ` set (appended ws) \<inter> sr_id ` set rs = {}" for i rs ds sq
    using that
  proof (induction "(\<lambda>_. False) :: write_point \<Rightarrow> bool" i ws rs ds sq rule: stage_writes.induct)
    case (2 i w ws rs ds sq)
    then show ?case by (cases w) (auto simp: Let_def)
  qed auto
  from this [OF assms(3,4), of 0 "ms_documents st" "[]"] show ?thesis
    using assms(1,2) by (auto simp: store_commit_def commitSync_def requireOwner_def Let_def)
qed

section \<open>The store invariant\<close>

text \<open>
  The log is gapless from 1 in commit order with unique ids, each document key is held once,
  and the epoch is a natural number.
\<close>

definition store_wf :: "medium_state \<Rightarrow> bool" where
  "store_wf st \<longleftrightarrow>
     map sr_seq (ms_records st) = map Suc [0..<length (ms_records st)] \<and>
     distinct (map sr_id (ms_records st)) \<and>
     obj_wf (ms_documents st) \<and>
     (\<exists>n. ms_epoch st = num_of_nat n)"

lemma gapless_from_iff:
  "gapless_from i ids rs \<longleftrightarrow>
     map sr_seq rs = map Suc [i..<i + length rs] \<and> distinct (map sr_id rs) \<and> set ids \<inter> sr_id ` set rs = {}"
  by (induction i ids rs rule: gapless_from.induct) (auto simp: upt_Suc_Cons simp del: upt_Suc)

lemma obj_wf_fold_put: "obj_wf o' \<Longrightarrow> obj_wf (fold (\<lambda>d. obj_put (sd_key d) (sd_data d)) ds o')"
  by (induction ds arbitrary: o') auto

lemma store_wf_init: "store_wf createMemoryStoreMedium"
  by (auto simp: store_wf_def createMemoryStoreMedium_def intro: exI [of _ 0])

lemma store_wf_commit:
  assumes "store_wf st"
  shows "store_wf (fst (snd (commitSync seam st ep ws)))"
proof (cases rule: commitSync_cases [of seam st ep ws])
  case refused
  with assms show ?thesis by simp
next
  case (durable st' res)
  let ?n = "length (ms_records st)" and ?m = "length (appended ws)"
  have "[0..<?n + ?m] = [0..<?n] @ [?n..<?n + ?m]" by (metis upt_add_eq_append le0)
  then have "map sr_seq (ms_records st') = map Suc [0..<length (ms_records st')]"
    using assms durable by (simp add: store_wf_def sr_seq_number_from)
  with assms durable show ?thesis by (auto simp: store_wf_def)
qed

lemma store_wf_claim:
  assumes "store_wf st"
  shows "store_wf (snd (store_claim seam st e n))"
proof -
  obtain k where k: "ms_epoch st = num_of_nat k" using assms by (auto simp: store_wf_def)
  have "\<exists>m. n = num_of_nat m" if "num_eq n (num_add e (Fin 1))" "num_eq (ms_epoch st) e"
  proof -
    from that(2) k have "e = num_of_nat k" by (simp add: number_eq_iff)
    with that(1) have "n = num_of_nat (Suc k)" by (auto simp: number_eq_iff)
    then show ?thesis by blast
  qed
  with assms show ?thesis by (auto simp: store_claim_def store_wf_def Let_def)
qed

lemma importedTail_Inr:
  assumes "importedTail st snap = Inr tail"
  shows "sn_records snap = take (length (ms_records st)) (sn_records snap) @ tail"
    and "length (ms_records st) \<le> length (sn_records snap)"
    and "gapless_from 0 [] (sn_records snap)"
    and "\<And>i. i < length (ms_records st) \<Longrightarrow> sameRecord (ms_records st ! i) (Some (sn_records snap ! i))"
  using assms
  by (auto simp: importedTail_def Let_def nth_opt_def list_all_iff split: if_splits)

lemma imported_log:
  assumes "importedTail st snap = Inr tail"
  shows "map sr_seq (ms_records st @ tail) = map sr_seq (sn_records snap)"
    and "map sr_id (ms_records st @ tail) = map sr_id (sn_records snap)"
proof -
  let ?n = "length (ms_records st)"
  note imp = importedTail_Inr [OF assms]
  have "map sr_seq (ms_records st) = map sr_seq (take ?n (sn_records snap))"
    and "map sr_id (ms_records st) = map sr_id (take ?n (sn_records snap))"
    using imp(2,4) by (auto intro!: nth_equalityI)
  then show "map sr_seq (ms_records st @ tail) = map sr_seq (sn_records snap)"
    and "map sr_id (ms_records st @ tail) = map sr_id (sn_records snap)"
    by (metis imp(1) map_append)+
qed

lemma importSnapshot_cases:
  obtains (refused) e where "importSnapshot seam st ep snap = (Inl e, st)"
  | (durable) tail st' where
      "importSnapshot seam st ep snap = (if seam (PointDurable OpImport) then Inl SeamThrow else Inr (), st')"
      "importedTail st snap = Inr tail"
      "requireOwner st ep = Inr ()" "\<not> num_le ep (sn_epoch snap)"
      "st' = \<lparr>ms_epoch = ms_epoch st, ms_records = ms_records st @ tail,
         ms_documents = fold (\<lambda>d. obj_put (sd_key d) (sd_data d)) (sn_documents snap) []\<rparr>"
proof (cases "seam (PointBefore OpImport) \<or> (\<exists>e. requireOwner st ep = Inl e) \<or> num_le ep (sn_epoch snap) \<or>
    (\<exists>e. importedTail st snap = Inl e) \<or>
    (\<exists>tail. importedTail st snap = Inr tail \<and>
      list_ex (\<lambda>i. seam (PointWrite OpImport i)) [0..<length tail + length (sn_documents snap)])")
  case True
  then have "\<exists>e. importSnapshot seam st ep snap = (Inl e, st)"
    by (auto simp: importSnapshot_def split: sum.splits)
  with refused show ?thesis by blast
next
  case False
  then obtain tail where "importedTail st snap = Inr tail" "requireOwner st ep = Inr ()"
    by (cases "importedTail st snap"; cases "requireOwner st ep") auto
  with False show ?thesis by (auto simp: importSnapshot_def Let_def intro!: durable)
qed

lemma store_wf_import:
  assumes "store_wf st"
  shows "store_wf (snd (importSnapshot seam st ep snap))"
proof (cases rule: importSnapshot_cases [of seam st ep snap])
  case refused
  with assms show ?thesis by simp
next
  case (durable tail st')
  note log = imported_log [OF durable(2)] and imp = importedTail_Inr [OF durable(2)]
  have len: "length (ms_records st @ tail) = length (sn_records snap)"
    using log(1) by (metis length_map)
  show ?thesis
    using assms durable log len imp(3)
    by (simp add: store_wf_def gapless_from_iff obj_wf_fold_put del: map_append)
qed

section \<open>Runs\<close>

text \<open>
  Any sequence of calls by any owners, each under its own write-point seam (a crash or kill
  is a seam that throws).
\<close>

datatype store_call =
    CallCommit number "store_write list"
  | CallClaim number number
  | CallImport number store_snapshot

fun store_step :: "(write_point \<Rightarrow> bool) \<times> store_call \<Rightarrow> medium_state \<Rightarrow> medium_state" where
  "store_step (seam, CallCommit ep ws) st = fst (snd (commitSync seam st ep ws))"
| "store_step (seam, CallClaim e n) st = snd (store_claim seam st e n)"
| "store_step (seam, CallImport ep snap) st = snd (importSnapshot seam st ep snap)"

definition store_run :: "((write_point \<Rightarrow> bool) \<times> store_call) list \<Rightarrow> medium_state \<Rightarrow> medium_state" where
  "store_run calls st = fold store_step calls st"

lemma store_step_log_prefix: "\<exists>new. ms_records (store_step call st) = ms_records st @ new"
proof (cases call)
  case (Pair seam c)
  show ?thesis
  proof (cases c)
    case (CallCommit ep ws)
    then show ?thesis using Pair by (cases rule: commitSync_cases [of seam st ep ws]) auto
  next
    case (CallClaim e n)
    then show ?thesis using Pair by (auto simp: store_claim_def Let_def)
  next
    case (CallImport ep snap)
    then show ?thesis using Pair by (cases rule: importSnapshot_cases [of seam st ep snap]) auto
  qed
qed

lemma store_step_wf: "store_wf st \<Longrightarrow> store_wf (store_step call st)"
  by (cases "(call, st)" rule: store_step.cases) (auto simp: store_wf_commit store_wf_claim store_wf_import)

lemma store_step_epoch: "store_wf st \<Longrightarrow> num_le (ms_epoch st) (ms_epoch (store_step call st))"
proof (cases call)
  case (Pair seam c)
  assume wf: "store_wf st"
  then obtain k where k: "ms_epoch st = num_of_nat k" by (auto simp: store_wf_def)
  show ?thesis
  proof (cases c)
    case (CallCommit ep ws)
    then show ?thesis using Pair k by (cases rule: commitSync_cases [of seam st ep ws]) auto
  next
    case (CallClaim e n)
    then show ?thesis using Pair k by (auto simp: store_claim_def Let_def number_eq_iff)
  next
    case (CallImport ep snap)
    then show ?thesis using Pair k by (cases rule: importSnapshot_cases [of seam st ep snap]) auto
  qed
qed

lemma store_run_wf_epoch:
  "store_wf st \<Longrightarrow> store_wf (store_run calls st) \<and> num_le (ms_epoch st) (ms_epoch (store_run calls st))"
proof (induction calls arbitrary: st)
  case Nil
  then show ?case by (auto simp: store_run_def store_wf_def)
next
  case (Cons c calls)
  from Cons.prems have "store_wf (store_step c st)" and le: "num_le (ms_epoch st) (ms_epoch (store_step c st))"
    by (simp_all add: store_step_wf store_step_epoch)
  from Cons.IH [OF this(1)] le show ?case
    by (auto simp: store_run_def intro: num_le_trans)
qed

lemma store_run_log_prefix: "\<exists>new. ms_records (store_run calls st) = ms_records st @ new"
proof (induction calls arbitrary: st)
  case Nil
  then show ?case by (simp add: store_run_def)
next
  case (Cons c calls)
  obtain a where a: "ms_records (store_step c st) = ms_records st @ a" using store_step_log_prefix by blast
  obtain b where "ms_records (store_run calls (store_step c st)) = ms_records (store_step c st) @ b"
    using Cons.IH by blast
  with a show ?case by (simp add: store_run_def)
qed


section \<open>The interface the components above the store use\<close>

text \<open>
  What store.ts promises of a successful commit: the documents are those the batch writes and
  the log grows by exactly the records the batch appends, in order.
\<close>

locale commit_store =
  fixes commit :: "'s \<Rightarrow> number \<Rightarrow> store_write list \<Rightarrow> (failure, commit_result \<times> 's) result"
    and document :: "'s \<Rightarrow> string \<Rightarrow> store_value option"
    and log :: "'s \<Rightarrow> store_record list"
  assumes commit_documents: "commit s ep ws = Inr (r, s') \<Longrightarrow> document s' = written ws (document s)"
    and commit_log: "commit s ep ws = Inr (r, s') \<Longrightarrow>
      log s' = log s @ number_from (length (log s)) (appended ws)"
begin

lemma commit_put:
  assumes "commit s ep ws = Inr (r, s')" and "\<And>m. written ws m = m(key \<mapsto> v)"
  shows "document s' key = Some v" and "key' \<noteq> key \<Longrightarrow> document s' key' = document s key'"
  using commit_documents [OF assms(1)] assms(2) by simp_all

end

text \<open>
  A record kept in one document per key and encoded as JSON: the batch, nested, scope, wake
  and execution records are all kept this way. \<open>wf\<close> says which records the decoder takes
  back unchanged.
\<close>

locale document_cell = commit_store commit document log
  for commit :: "'s \<Rightarrow> number \<Rightarrow> store_write list \<Rightarrow> (failure, commit_result \<times> 's) result"
    and document :: "'s \<Rightarrow> string \<Rightarrow> store_value option"
    and log :: "'s \<Rightarrow> store_record list" +
  fixes key :: "'k \<Rightarrow> string"
    and enc :: "'r \<Rightarrow> store_value"
    and dec :: "store_value \<Rightarrow> (failure, 'r) result"
    and wf :: "'r \<Rightarrow> bool"
    and read :: "'s \<Rightarrow> 'k \<Rightarrow> (failure, 'r option) result"
  assumes key_inj: "key k = key k' \<Longrightarrow> k = k'"
    and dec_enc: "wf r \<Longrightarrow> dec (enc r) = Inr r"
    and read_eq: "read s k =
      (case document s (key k) of None \<Rightarrow> Inr None | Some v \<Rightarrow> rbind (dec v) (\<lambda>r. Inr (Some r)))"
begin

lemma read_back:
  assumes "commit s ep ws = Inr (x, s')" and "\<And>m. written ws m = m(key k \<mapsto> enc r)" and "wf r"
  shows "read s' k = Inr (Some r)"
  using commit_put(1) [OF assms(1,2)] assms(3) by (simp add: read_eq dec_enc)

lemma read_other:
  assumes "commit s ep ws = Inr (x, s')" and "\<And>m. written ws m = m(key k \<mapsto> v)" and "k' \<noteq> k"
  shows "read s' k' = read s k'"
proof -
  have "key k' \<noteq> key k" using assms(3) key_inj by blast
  then have "document s' (key k') = document s (key k')" by (rule commit_put(2) [OF assms(1,2)])
  then show ?thesis by (simp add: read_eq)
qed

end

lemma getDocument_eq: "getDocument st = map_of (ms_documents st)"
  by (simp add: getDocument_def fun_eq_iff)

interpretation memory: commit_store store_commit getDocument ms_records
  by unfold_locales (auto simp: getDocument_eq dest: store_commit_Inr)

section \<open>Operations above the store\<close>

text \<open>An awaited commit followed by a reply: the reply is given only when the commit did not throw.\<close>

definition commit_then :: "(write_point \<Rightarrow> bool) \<Rightarrow> medium_state \<Rightarrow> number \<Rightarrow> store_write list \<Rightarrow> 'r \<Rightarrow>
    (failure, 'r) result \<times> medium_state" where
  "commit_then seam st ep ws reply =
     (case commitSync seam st ep ws of (Inl e, st', _) \<Rightarrow> (Inl e, st') | (Inr _, st', _) \<Rightarrow> (Inr reply, st'))"

lemma commit_then_cases:
  assumes "commit_then seam st ep ws r = (x, st')"
  shows "(st' = st \<and> (\<exists>e. x = Inl e)) \<or>
    (getDocument st' = written ws (getDocument st) \<and> (x = Inr r \<or> x = Inl SeamThrow))"
  by (cases rule: commitSync_cases [of seam st ep ws];
      use assms in \<open>auto simp: commit_then_def getDocument_eq split: if_splits\<close>)

text \<open>A commit of the current owner with one fresh record id goes through.\<close>

definition owned :: "medium_state \<Rightarrow> number \<Rightarrow> bool" where
  "owned st ep \<longleftrightarrow> num_eq ep (ms_epoch st) \<and> \<not> num_eq (ms_epoch st) (Fin 0)"

abbreviation log_ids :: "medium_state \<Rightarrow> string set" where
  "log_ids st \<equiv> sr_id ` set (ms_records st)"

lemma commit_one_ok:
  assumes "owned st ep" "mid \<notin> log_ids st" "appended ws = [(mid, kd)]"
  obtains st' where "commit_then (\<lambda>_. False) st ep ws a = (Inr a, st')" "getDocument st' = written ws (getDocument st)"
    "owned st' ep" "log_ids st' = insert mid (log_ids st)"
proof -
  obtain r st' where "store_commit st ep ws = Inr (r, st')"
    using store_commit_ok [of ep st ws] assms by (auto simp: owned_def)
  then have ok: "commitSync (\<lambda>_. False) st ep ws = (Inr r, st', Some r)"
    by (cases rule: commitSync_cases [of "\<lambda>_. False" st ep ws]) (auto simp: store_commit_def)
  show ?thesis
  proof (rule commitSync_cases [of "\<lambda>_. False" st ep ws])
    fix st1 res
    assume c: "commitSync (\<lambda>_. False) st ep ws = (if False then (Inl SeamThrow, st1, None) else (Inr res, st1, Some res))"
      and e: "ms_epoch st1 = ms_epoch st"
      and r: "ms_records st1 = ms_records st @ number_from (length (ms_records st)) (appended ws)"
      and d: "map_of (ms_documents st1) = written ws (map_of (ms_documents st))"
    have "log_ids st1 = insert mid (log_ids st)" by (cases kd) (simp add: r assms(3))
    moreover have "commit_then (\<lambda>_. False) st ep ws a = (Inr a, st1)" using c by (simp add: commit_then_def)
    moreover have "owned st1 ep" using assms(1) e by (simp add: owned_def)
    moreover have "getDocument st1 = written ws (getDocument st)" using d by (simp add: getDocument_eq)
    ultimately show thesis using that by blast
  qed (use ok in auto)
qed

text \<open>
  The shape every durable record above the store is changed in: read it, decide, and commit the
  batch the decision asks for before the reply is given. \<open>decide\<close> may throw, answer without a
  write, or answer after the write of a new state.
\<close>

definition cell_update :: "(medium_state \<Rightarrow> (failure, 'r option) result) \<Rightarrow> ('w \<Rightarrow> store_write list) \<Rightarrow>
    (write_point \<Rightarrow> bool) \<Rightarrow> number \<Rightarrow> medium_state \<Rightarrow> ('r option \<Rightarrow> (failure, 'a \<times> 'w option) result) \<Rightarrow>
    (failure, 'a) result \<times> medium_state" where
  "cell_update read writes seam ep st decide =
     (case read st of
        Inl e \<Rightarrow> (Inl e, st)
      | Inr r \<Rightarrow>
        (case decide r of
           Inl e \<Rightarrow> (Inl e, st)
         | Inr (a, None) \<Rightarrow> (Inr a, st)
         | Inr (a, Some w) \<Rightarrow> commit_then seam st ep (writes w) a))"

lemma cell_update_cases:
  assumes "cell_update read writes seam ep st decide = (x, st')"
  obtains (same) "st' = st" "\<And>a. x = Inr a \<Longrightarrow> \<exists>r. read st = Inr r \<and> decide r = Inr (a, None)"
  | (stored) r a w where "read st = Inr r" "decide r = Inr (a, Some w)"
      "getDocument st' = written (writes w) (getDocument st)" "x = Inr a \<or> x = Inl SeamThrow"
proof (cases "\<exists>r a w. read st = Inr r \<and> decide r = Inr (a, Some w)")
  case True
  then obtain r a w where d: "read st = Inr r" "decide r = Inr (a, Some w)" by blast
  then have "commit_then seam st ep (writes w) a = (x, st')" using assms by (simp add: cell_update_def)
  from commit_then_cases [OF this] stored [OF d] same show ?thesis by auto
next
  case False
  then show ?thesis using assms by (intro same) (auto simp: cell_update_def split: sum.splits option.splits)
qed

text \<open>Writes of other components: none of them touches a document under the prefix.\<close>

fun foreign_write :: "string \<Rightarrow> store_write \<Rightarrow> bool" where
  "foreign_write prefix (Put k _) = (\<not> starts_with prefix k)"
| "foreign_write prefix (Delete k) = (\<not> starts_with prefix k)"
| "foreign_write prefix (Append _ _ _) = True"

lemma written_foreign:
  "list_all (foreign_write prefix) ws \<Longrightarrow> starts_with prefix key \<Longrightarrow> written ws m key = m key"
proof (induction ws arbitrary: m)
  case (Cons w ws)
  then show ?case by (cases w) auto
qed simp

lemma commit_foreign:
  assumes "list_all (foreign_write prefix) ws" "starts_with prefix key"
  shows "getDocument (fst (snd (commitSync seam st ep ws))) key = getDocument st key"
  by (cases rule: commitSync_cases [of seam st ep ws])
    (auto simp: getDocument_eq written_foreign [OF assms] split: if_splits)

lemma starts_with_append [simp]: "starts_with p (p @ s)"
  by (simp add: starts_with_def)

section \<open>Exported documents\<close>

lemma map_of_fold_put:
  "distinct (map sd_key ds) \<Longrightarrow>
   map_of (fold (\<lambda>d. obj_put (sd_key d) (sd_data d)) ds o') =
   map_of o' ++ map_of (map (\<lambda>d. (sd_key d, sd_data d)) ds)"
proof (induction ds arbitrary: o')
  case (Cons d ds)
  have "map_of (map (\<lambda>d. (sd_key d, sd_data d)) ds) (sd_key d) = None"
    using Cons.prems by (auto simp: map_of_eq_None_iff)
  with Cons show ?case by (auto simp: fun_eq_iff map_add_def split: option.splits)
qed simp

lemma distinct_sort_key_fst: "obj_wf xs \<Longrightarrow> obj_wf (sort_key fst xs)"
  by (simp add: distinct_map)

lemma map_of_exported:
  assumes "obj_wf (ms_documents src)"
  shows "map_of (fold (\<lambda>d. obj_put (sd_key d) (sd_data d)) (sn_documents (exportSnapshot src)) []) =
    map_of (ms_documents src)"
proof -
  let ?sorted = "sort_key fst (ms_documents src)"
  have docs: "sn_documents (exportSnapshot src) = map (\<lambda>(k, d). \<lparr>sd_key = k, sd_data = d\<rparr>) ?sorted"
    by (simp add: exportSnapshot_def documentsOf_def starts_with_def)
  have wf: "obj_wf ?sorted" using assms by (rule distinct_sort_key_fst)
  have keys: "map sd_key (sn_documents (exportSnapshot src)) = map fst ?sorted"
    and pairs: "map (\<lambda>d. (sd_key d, sd_data d)) (sn_documents (exportSnapshot src)) = ?sorted"
    by (auto simp: docs intro: map_idI)
  have "map_of ?sorted = map_of (ms_documents src)"
    using wf assms by (simp add: map_of_inject_set)
  with wf show ?thesis by (subst map_of_fold_put) (simp_all only: keys pairs, simp_all)
qed

section \<open>Properties\<close>





text \<open>Whatever sequence of commits, claims and imports runs, under any write-point failures,
  the log stays gapless from 1 with unique ids and is only ever extended, each document key is
  held once, and the epoch never decreases.\<close>

theorem store_run_invariant:
  assumes "store_wf st"
  shows "store_wf (store_run calls st) \<and>
    (\<exists>new. ms_records (store_run calls st) = ms_records st @ new) \<and>
    num_le (readEpoch st) (readEpoch (store_run calls st))"
  using store_run_wf_epoch [OF assms] store_run_log_prefix [of calls st] by (simp add: readEpoch_def)

theorem store_run_invariant_witness:
  "store_wf createMemoryStoreMedium \<and>
   store_wf (store_run [(\<lambda>_. False, CallClaim (Fin 0) (Fin 1)),
     (\<lambda>p. p = PointDurable OpCommit, CallCommit (Fin 1) [Append ''a'' ''k'' SNull])] createMemoryStoreMedium) \<and>
   readHead (store_run [(\<lambda>_. False, CallClaim (Fin 0) (Fin 1)),
     (\<lambda>p. p = PointDurable OpCommit, CallCommit (Fin 1) [Append ''a'' ''k'' SNull])] createMemoryStoreMedium) = 1"
  using store_wf_init store_run_invariant [OF store_wf_init, of "[(\<lambda>_. False, CallClaim (Fin 0) (Fin 1)),
     (\<lambda>p. p = PointDurable OpCommit, CallCommit (Fin 1) [Append ''a'' ''k'' SNull])]"]
  by (simp add: store_run_def store_claim_def createMemoryStoreMedium_def max_safe_integer_def
      commitSync_def requireOwner_def readHead_def Let_def)

text \<open>Moving a store: importing another host's snapshot under a higher owner epoch into a
  store that holds no records leaves exactly the source's records and documents, and importing
  the same snapshot again changes nothing.\<close>

theorem import_export_roundtrip:
  assumes "store_wf src" and "\<forall>r \<in> set (ms_records src). json_wf (sr_data r)"
    and "ms_records st = []" and "requireOwner st ep = Inr ()" and "num_lt (readEpoch src) ep"
    and "importSnapshot (\<lambda>_. False) st ep (exportSnapshot src) = (reply, st')"
  shows "reply = Inr () \<and> ms_records st' = ms_records src \<and> getDocument st' = getDocument src \<and>
    importSnapshot (\<lambda>_. False) st' ep (exportSnapshot src) = (Inr (), st')"
proof -
  let ?snap = "exportSnapshot src" and ?rs = "ms_records src"
  let ?docs = "fold (\<lambda>d. obj_put (sd_key d) (sd_data d)) (sn_documents ?snap) []"
  have gap: "gapless_from 0 [] ?rs" using assms(1) by (simp add: gapless_from_iff store_wf_def)
  have ep: "\<not> num_le ep (sn_epoch ?snap)" "num_eq ep (ms_epoch st)" "\<not> num_eq (ms_epoch st) (Fin 0)"
    using assms(4,5) by (auto simp: exportSnapshot_def readEpoch_def requireOwner_def num_le_def number_eq_iff
        dest: num_lt_asym split: if_splits)
  have "importedTail st ?snap = Inr ?rs"
    using gap assms(3) by (simp add: importedTail_def exportSnapshot_def)
  with assms(3,4,6) ep have st': "reply = Inr ()"
      "st' = \<lparr>ms_epoch = ms_epoch st, ms_records = ?rs, ms_documents = ?docs\<rparr>"
    by (auto simp: importSnapshot_def list_ex_iff Let_def)
  have "importedTail st' ?snap = Inr []"
    using gap assms(2) by (auto simp: st' importedTail_def exportSnapshot_def nth_opt_def list_all_iff
        intro: same_value_refl)
  moreover have "requireOwner st' ep = Inr ()" using ep by (simp add: st' requireOwner_def)
  ultimately have "importSnapshot (\<lambda>_. False) st' ep ?snap = (Inr (), st')"
    using ep by (auto simp: importSnapshot_def list_ex_iff Let_def) (simp add: st')
  moreover have "getDocument st' = getDocument src"
    using assms(1) by (simp add: st' getDocument_eq map_of_exported store_wf_def)
  ultimately show ?thesis by (simp add: st')
qed

theorem import_export_roundtrip_witness:
  "let src = \<lparr>ms_epoch = Fin 1, ms_records = [\<lparr>sr_seq = 1, sr_id = ''a'', sr_kind = ''k'', sr_data = SNull\<rparr>],
         ms_documents = [(''d'', SBool True)]\<rparr>;
       st = \<lparr>ms_epoch = Fin 2, ms_records = [], ms_documents = []\<rparr>;
       st' = snd (importSnapshot (\<lambda>_. False) st (Fin 2) (exportSnapshot src))
   in ms_records st' = ms_records src \<and> getDocument st' = getDocument src"
proof -
  let ?src = "\<lparr>ms_epoch = Fin 1, ms_records = [\<lparr>sr_seq = 1, sr_id = ''a'', sr_kind = ''k'', sr_data = SNull\<rparr>],
     ms_documents = [(''d'', SBool True)]\<rparr>"
  let ?st = "\<lparr>ms_epoch = Fin 2, ms_records = [], ms_documents = []\<rparr> :: medium_state"
  have wf: "store_wf ?src" by (auto simp: store_wf_def intro: exI [of _ 1])
  have h: "\<forall>r \<in> set (ms_records ?src). json_wf (sr_data r)" "ms_records ?st = []"
    "requireOwner ?st (Fin 2) = Inr ()" "num_lt (readEpoch ?src) (Fin 2)"
    by (simp_all add: requireOwner_def readEpoch_def)
  show ?thesis
    using import_export_roundtrip [OF wf h surjective_pairing] by (simp add: Let_def)
qed

end
