(* ===== verification/Ledger.thy ===== *)
theory Ledger
  imports Durable_Store
begin

text \<open>
  The execution ledger's state machine: the types of execution/ledger-types.ts and the
  transition function of execution/ledger-transition.ts. A call is admitted, prepared (its
  hooks may have effects from then on), frozen, possibly consented to, released, dispatched
  once, and settled; leases, renewals, cancellation and restart recovery cut across that path.
\<close>

section \<open>Types\<close>

record execution_admission =
  e_issuer :: string
  e_commandId :: string
  e_executor :: string
  e_workspace :: string
  e_scope :: string
  e_generation :: number
  e_requestDigest :: string
  e_admittedAt :: number
  e_leaseUntil :: number
  e_reconcilable :: bool

record frozen_call =
  fc_name :: string
  fc_args :: store_value
  fc_digest :: string

datatype end_reason = Cancelled | LeaseExpired | HandRestarted | UncertainEnd

text \<open>\<open>uncertain\<close> is the literal false in the first two forms, so they do not carry it.\<close>

datatype execution_outcome =
    OutResult store_value bool
  | OutBlocked store_value bool
  | OutEnded end_reason bool bool

datatype execution_progress =
    Admitted
  | Preparing
  | Prepared frozen_call
  | PreparedAwaitingConsent frozen_call
  | Released frozen_call
  | Dispatched frozen_call
  | Reconciling frozen_call number
  | Settled execution_outcome
  | Acked

record execution_entry = execution_admission +
  e_initialLeaseUntil :: number
  e_renewSeq :: number
  e_effectPossible :: bool
  e_bodyDispatched :: bool
  e_progress :: execution_progress

datatype execution_event =
    EvPrepare | EvEffect | EvConsent | EvRelease | EvDispatch | EvCancel | EvAbort | EvAck | EvExpire | EvRestart
  | EvFreeze frozen_call bool
  | EvResult store_value
  | EvBlock store_value
  | EvRenew number number

record execution_actor =
  actor_id :: string
  approvedWorkspace :: "string option"

record execution_command =
  cmd_issuer :: string
  cmd_commandId :: string
  cmd_generation :: number
  cmd_actor :: execution_actor
  cmd_now :: number
  cmd_event :: execution_event

datatype ledger_refusal =
    NotFound | IdentityConflict | InvalidAdmission | StaleGeneration | Unauthorized | InvalidTransition
  | InvalidRenewal | InvalidTime | Terminal | EpochFenced

datatype ledger_reply =
    Applied execution_entry
  | Replayed execution_entry
  | Refused ledger_refusal
  | ResultExpired

definition MAX_EXECUTION_LIFETIME_MS :: number where
  "MAX_EXECUTION_LIFETIME_MS = Fin 86400000"

definition RECONCILIATION_GRACE_MS :: number where
  "RECONCILIATION_GRACE_MS = Fin 30000"

definition replayed_reply :: "execution_entry \<Rightarrow> ledger_reply" where
  "replayed_reply entry = (if e_progress entry = Acked then ResultExpired else Replayed entry)"

section \<open>The transition function\<close>

definition advance_entry :: "execution_entry \<Rightarrow> execution_progress \<Rightarrow> ledger_reply" where
  "advance_entry entry p = Applied (entry\<lparr>e_progress := p\<rparr>)"

definition settle_entry :: "execution_entry \<Rightarrow> end_reason \<Rightarrow> ledger_reply" where
  "settle_entry entry reason =
     advance_entry entry (Settled (OutEnded reason (e_effectPossible entry) (e_effectPossible entry \<or> e_bodyDispatched entry)))"

fun authorized :: "execution_entry \<Rightarrow> execution_actor \<Rightarrow> execution_event \<Rightarrow> bool" where
  "authorized entry actor EvCancel \<longleftrightarrow>
     actor_id actor = e_issuer entry \<or> approvedWorkspace actor = Some (e_workspace entry)"
| "authorized entry actor EvConsent \<longleftrightarrow> actor_id actor = e_issuer entry"
| "authorized entry actor EvRelease \<longleftrightarrow> actor_id actor = e_issuer entry"
| "authorized entry actor EvAbort \<longleftrightarrow> actor_id actor = e_issuer entry"
| "authorized entry actor EvAck \<longleftrightarrow> actor_id actor = e_issuer entry"
| "authorized entry actor (EvRenew _ _) \<longleftrightarrow> actor_id actor = e_issuer entry"
| "authorized entry actor _ \<longleftrightarrow> actor_id actor = e_executor entry"

definition recover_entry :: "execution_entry \<Rightarrow> number \<Rightarrow> ledger_reply" where
  "recover_entry entry now =
     (case e_progress entry of
        Admitted \<Rightarrow> settle_entry entry HandRestarted
      | Preparing \<Rightarrow> settle_entry entry HandRestarted
      | Dispatched call \<Rightarrow>
          if e_reconcilable entry
          then advance_entry entry (Reconciling call (num_min (e_leaseUntil entry) (num_add now RECONCILIATION_GRACE_MS)))
          else settle_entry entry HandRestarted
      | Reconciling call until \<Rightarrow> if num_le until now then settle_entry entry HandRestarted else replayed_reply entry
      | _ \<Rightarrow> replayed_reply entry)"

text \<open>\<open>"call" in progress\<close>: the frozen call of a progress that has one.\<close>

fun progress_call :: "execution_progress \<Rightarrow> frozen_call option" where
  "progress_call (Prepared c) = Some c"
| "progress_call (PreparedAwaitingConsent c) = Some c"
| "progress_call (Released c) = Some c"
| "progress_call (Dispatched c) = Some c"
| "progress_call (Reconciling c _) = Some c"
| "progress_call _ = None"

text \<open>The switch on the event of a call that is neither settled nor past its lease.\<close>

fun transition_live :: "execution_entry \<Rightarrow> number \<Rightarrow> execution_event \<Rightarrow> ledger_reply" where
  "transition_live entry now EvPrepare =
     (if e_progress entry = Admitted then advance_entry entry Preparing else replayed_reply entry)"
| "transition_live entry now EvEffect =
     (if e_effectPossible entry then replayed_reply entry
      else if e_progress entry = Preparing then Applied (entry\<lparr>e_effectPossible := True\<rparr>)
      else Refused InvalidTransition)"
| "transition_live entry now (EvFreeze call awaitingConsent) =
     (if e_progress entry = Preparing \<and> e_effectPossible entry
      then advance_entry entry (if awaitingConsent then PreparedAwaitingConsent call else Prepared call)
      else case progress_call (e_progress entry) of
        Some c \<Rightarrow> if fc_digest c = fc_digest call then replayed_reply entry else Refused InvalidTransition
      | None \<Rightarrow> Refused InvalidTransition)"
| "transition_live entry now (EvBlock value) =
     (if e_progress entry = Preparing
      then advance_entry entry (Settled (OutBlocked value (e_effectPossible entry)))
      else Refused InvalidTransition)"
| "transition_live entry now EvConsent =
     (case e_progress entry of
        PreparedAwaitingConsent call \<Rightarrow> advance_entry entry (Prepared call)
      | _ \<Rightarrow> Refused InvalidTransition)"
| "transition_live entry now EvRelease =
     (case e_progress entry of
        Prepared call \<Rightarrow> advance_entry entry (Released call)
      | Released _ \<Rightarrow> replayed_reply entry
      | _ \<Rightarrow> if e_bodyDispatched entry then replayed_reply entry else Refused InvalidTransition)"
| "transition_live entry now EvDispatch =
     (if e_bodyDispatched entry then replayed_reply entry
      else case e_progress entry of
        Released call \<Rightarrow> Applied (entry\<lparr>e_bodyDispatched := True, e_progress := Dispatched call\<rparr>)
      | _ \<Rightarrow> Refused InvalidTransition)"
| "transition_live entry now (EvResult value) =
     (case e_progress entry of
        Dispatched _ \<Rightarrow> advance_entry entry (Settled (OutResult value (e_effectPossible entry)))
      | Reconciling _ _ \<Rightarrow> advance_entry entry (Settled (OutResult value (e_effectPossible entry)))
      | _ \<Rightarrow> Refused InvalidTransition)"
| "transition_live entry now EvCancel = settle_entry entry Cancelled"
| "transition_live entry now EvAbort =
     (if e_bodyDispatched entry then Refused InvalidTransition else settle_entry entry Cancelled)"
| "transition_live entry now EvAck = Refused InvalidTransition"
| "transition_live entry now (EvRenew seq lease) =
     (if num_le seq (e_renewSeq entry) then replayed_reply entry
      else if \<not> is_safe_integer seq \<or> \<not> is_finite lease \<or> num_le lease (e_leaseUntil entry) \<or>
        num_lt (num_add (e_admittedAt entry) MAX_EXECUTION_LIFETIME_MS) lease
      then Refused InvalidRenewal
      else Applied (entry\<lparr>e_renewSeq := seq, e_leaseUntil := lease\<rparr>))"
| "transition_live entry now EvExpire = replayed_reply entry"
| "transition_live entry now EvRestart = recover_entry entry now"

definition transitionExecution :: "execution_entry \<Rightarrow> execution_command \<Rightarrow> ledger_reply" where
  "transitionExecution entry command =
     (let event = cmd_event command; now = cmd_now command in
      if \<not> num_eq (cmd_generation command) (e_generation entry) then Refused StaleGeneration
      else if \<not> authorized entry (cmd_actor command) event then Refused Unauthorized
      else if \<not> is_finite now \<or> num_lt now (e_admittedAt entry) then Refused InvalidTime
      else case e_progress entry of
        Acked \<Rightarrow> if event = EvAck then Replayed entry else ResultExpired
      | Settled _ \<Rightarrow>
          (case event of
             EvAck \<Rightarrow> advance_entry entry Acked
           | EvRelease \<Rightarrow> Refused Terminal
           | EvAbort \<Rightarrow> Refused Terminal
           | EvConsent \<Rightarrow> Refused Terminal
           | _ \<Rightarrow> replayed_reply entry)
      | Reconciling _ until \<Rightarrow>
          if num_le (e_leaseUntil entry) now then settle_entry entry LeaseExpired
          else if num_le until now then settle_entry entry HandRestarted
          else transition_live entry now event
      | _ \<Rightarrow>
          if num_le (e_leaseUntil entry) now then settle_entry entry LeaseExpired
          else transition_live entry now event)"

lemmas transition_defs = advance_entry_def settle_entry_def replayed_reply_def recover_entry_def

section \<open>The entry invariant\<close>

text \<open>
  What the transition function keeps true of an entry: finite times in order, the lease inside
  the execution's lifetime, and flags that agree with the progress and with the outcome.
\<close>

fun progress_ok :: "bool \<Rightarrow> bool \<Rightarrow> number \<Rightarrow> execution_progress \<Rightarrow> bool" where
  "progress_ok effect body lease Admitted \<longleftrightarrow> \<not> effect \<and> \<not> body"
| "progress_ok effect body lease Preparing \<longleftrightarrow> \<not> body"
| "progress_ok effect body lease (Prepared _) \<longleftrightarrow> effect \<and> \<not> body"
| "progress_ok effect body lease (PreparedAwaitingConsent _) \<longleftrightarrow> effect \<and> \<not> body"
| "progress_ok effect body lease (Released _) \<longleftrightarrow> effect \<and> \<not> body"
| "progress_ok effect body lease (Dispatched _) \<longleftrightarrow> effect \<and> body"
| "progress_ok effect body lease (Reconciling _ until) \<longleftrightarrow> effect \<and> body \<and> is_finite until \<and> num_le until lease"
| "progress_ok effect body lease (Settled (OutResult _ h)) \<longleftrightarrow> effect \<and> body \<and> h"
| "progress_ok effect body lease (Settled (OutBlocked _ h)) \<longleftrightarrow> \<not> body \<and> h = effect"
| "progress_ok effect body lease (Settled (OutEnded _ h u)) \<longleftrightarrow> h = effect \<and> u = (effect \<or> body)"
| "progress_ok effect body lease Acked \<longleftrightarrow> True"

definition entry_wf :: "execution_entry \<Rightarrow> bool" where
  "entry_wf entry \<longleftrightarrow>
     is_safe_integer (e_generation entry) \<and> num_le (Fin 1) (e_generation entry) \<and>
     is_finite (e_admittedAt entry) \<and> is_finite (e_leaseUntil entry) \<and>
     is_finite (e_initialLeaseUntil entry) \<and> is_finite (e_renewSeq entry) \<and>
     num_lt (e_admittedAt entry) (e_initialLeaseUntil entry) \<and>
     num_le (e_initialLeaseUntil entry) (e_leaseUntil entry) \<and>
     num_le (e_leaseUntil entry) (num_add (e_admittedAt entry) MAX_EXECUTION_LIFETIME_MS) \<and>
     progress_ok (e_effectPossible entry) (e_bodyDispatched entry) (e_leaseUntil entry) (e_progress entry)"

text \<open>The fields no transition changes.\<close>

definition same_admission :: "execution_entry \<Rightarrow> execution_entry \<Rightarrow> bool" where
  "same_admission a b \<longleftrightarrow>
     e_issuer a = e_issuer b \<and> e_commandId a = e_commandId b \<and> e_executor a = e_executor b \<and>
     e_workspace a = e_workspace b \<and> e_scope a = e_scope b \<and> e_generation a = e_generation b \<and>
     e_requestDigest a = e_requestDigest b \<and> e_admittedAt a = e_admittedAt b \<and>
     e_reconcilable a = e_reconcilable b \<and> e_initialLeaseUntil a = e_initialLeaseUntil b"

text \<open>One lemma per shape of step; every later fact about an applied transition goes through it.\<close>

lemma transition_Applied_cases:
  assumes "transitionExecution entry command = Applied entry'"
  obtains
    (acked) out where "e_progress entry = Settled out" "cmd_event command = EvAck" "entry' = entry\<lparr>e_progress := Acked\<rparr>"
  | (ended) reason where "\<And>out. e_progress entry \<noteq> Settled out" "e_progress entry \<noteq> Acked"
      "settle_entry entry reason = Applied entry'"
  | (live) "\<And>out. e_progress entry \<noteq> Settled out" "e_progress entry \<noteq> Acked"
      "\<not> num_le (e_leaseUntil entry) (cmd_now command)" "is_finite (cmd_now command)"
      "authorized entry (cmd_actor command) (cmd_event command)"
      "transition_live entry (cmd_now command) (cmd_event command) = Applied entry'"
proof (cases "e_progress entry")
  case (Settled out)
  with assms acked show ?thesis
    by (auto simp: transitionExecution_def transition_defs Let_def split: if_splits execution_event.splits)
next
  case Acked
  with assms show ?thesis
    by (auto simp: transitionExecution_def Let_def split: if_splits)
next
  case (Reconciling call until)
  with assms live show ?thesis
    by (auto simp: transitionExecution_def Let_def split: if_splits intro: ended)
qed (use assms live in \<open>auto simp: transitionExecution_def Let_def split: if_splits intro: ended\<close>)

lemma transition_same_admission:
  assumes "transitionExecution entry command = Applied entry'"
  shows "same_admission entry entry'"
  using assms
proof (cases rule: transition_Applied_cases)
  case acked
  then show ?thesis by (simp add: same_admission_def)
next
  case ended
  then show ?thesis by (auto simp: transition_defs same_admission_def)
next
  case live
  then show ?thesis
    by (cases "cmd_event command")
      (auto simp: transition_defs same_admission_def split: if_splits execution_progress.splits option.splits)
qed

lemma progress_ok_lease_mono:
  "progress_ok eff body lease p \<Longrightarrow> num_le lease lease' \<Longrightarrow> progress_ok eff body lease' p"
  by (induction eff body lease p rule: progress_ok.induct) (auto intro: num_le_trans)

lemma transition_live_progress_ok:
  assumes "transition_live entry now event = Applied entry'"
    and "progress_ok (e_effectPossible entry) (e_bodyDispatched entry) (e_leaseUntil entry) (e_progress entry)"
    and "is_finite (e_leaseUntil entry)" and "is_finite now"
  shows "progress_ok (e_effectPossible entry') (e_bodyDispatched entry') (e_leaseUntil entry') (e_progress entry')"
proof (cases event)
  case (EvRenew seq lease)
  have "num_le (e_leaseUntil entry) lease" if "\<not> num_le lease (e_leaseUntil entry)" "is_finite lease"
    using that assms(3) by (auto elim!: is_finiteE)
  with EvRenew assms(1,2) show ?thesis
    by (auto simp: transition_defs split: if_splits intro: progress_ok_lease_mono)
next
  case EvRestart
  with assms show ?thesis
    by (auto simp: transition_defs RECONCILIATION_GRACE_MS_def elim!: is_finiteE
        split: if_splits execution_progress.splits)
qed (use assms in \<open>auto simp: transition_defs split: if_splits execution_progress.splits option.splits\<close>)

lemma transition_wf:
  assumes "transitionExecution entry command = Applied entry'" and "entry_wf entry"
  shows "entry_wf entry'"
  using assms(1)
proof (cases rule: transition_Applied_cases)
  case acked
  then show ?thesis using assms(2) by (simp add: entry_wf_def)
next
  case ended
  then show ?thesis using assms(2) by (auto simp: transition_defs entry_wf_def)
next
  case live
  have "progress_ok (e_effectPossible entry') (e_bodyDispatched entry') (e_leaseUntil entry') (e_progress entry')"
    by (rule transition_live_progress_ok [OF live(6)]) (use assms(2) live in \<open>auto simp: entry_wf_def\<close>)
  moreover have "is_finite (e_leaseUntil entry') \<and> is_finite (e_renewSeq entry') \<and>
      num_le (e_initialLeaseUntil entry') (e_leaseUntil entry') \<and>
      num_le (e_leaseUntil entry') (num_add (e_admittedAt entry') MAX_EXECUTION_LIFETIME_MS)"
  proof (cases "cmd_event command")
    case (EvRenew seq lease)
    with live(6) assms(2) show ?thesis
      by (auto simp: transition_defs entry_wf_def MAX_EXECUTION_LIFETIME_MS_def elim!: is_finiteE
          dest!: is_safe_integer_finite split: if_splits)
  qed (use live(6) assms(2) in \<open>auto simp: transition_defs entry_wf_def
      split: if_splits execution_progress.splits option.splits\<close>)
  moreover have "same_admission entry entry'" using assms(1) by (rule transition_same_admission)
  ultimately show ?thesis using assms(2) by (auto simp: entry_wf_def same_admission_def)
qed

section \<open>Runs of one entry\<close>

text \<open>An applied reply replaces the entry; every other reply leaves it.\<close>

definition entry_after :: "execution_entry \<Rightarrow> execution_command \<Rightarrow> execution_entry" where
  "entry_after entry command =
     (case transitionExecution entry command of Applied entry' \<Rightarrow> entry' | _ \<Rightarrow> entry)"

fun entry_run :: "execution_entry \<Rightarrow> execution_command list \<Rightarrow> execution_entry" where
  "entry_run entry [] = entry"
| "entry_run entry (c # cs) = entry_run (entry_after entry c) cs"

fun entry_replies :: "execution_entry \<Rightarrow> execution_command list \<Rightarrow> (execution_event \<times> ledger_reply) list" where
  "entry_replies entry [] = []"
| "entry_replies entry (c # cs) =
     (cmd_event c, transitionExecution entry c) # entry_replies (entry_after entry c) cs"

text \<open>The executor runs a body exactly for such an answer: an applied reply to \<open>dispatch\<close> in state dispatched.\<close>

fun starts_body :: "execution_event \<times> ledger_reply \<Rightarrow> bool" where
  "starts_body (EvDispatch, Applied entry) = (case e_progress entry of Dispatched _ \<Rightarrow> True | _ \<Rightarrow> False)"
| "starts_body _ = False"

lemma starts_body_iff:
  "starts_body (ev, reply) \<longleftrightarrow> ev = EvDispatch \<and> (\<exists>e c. reply = Applied e \<and> e_progress e = Dispatched c)"
  by (cases "(ev, reply)" rule: starts_body.cases) (auto split: execution_progress.splits)

lemma starts_body_step:
  assumes "starts_body (cmd_event c, transitionExecution entry c)"
  obtains call where "e_progress entry = Released call" "\<not> e_bodyDispatched entry"
    "entry_after entry c = entry\<lparr>e_bodyDispatched := True, e_progress := Dispatched call\<rparr>"
    "\<not> num_le (e_leaseUntil entry) (cmd_now c)"
proof -
  from assms obtain entry' call where ev: "cmd_event c = EvDispatch"
    and ap: "transitionExecution entry c = Applied entry'" and d: "e_progress entry' = Dispatched call"
    by (auto simp: starts_body_iff)
  from ap show ?thesis
  proof (cases rule: transition_Applied_cases)
    case acked
    with d show ?thesis by simp
  next
    case ended
    with d show ?thesis by (auto simp: transition_defs)
  next
    case live
    with ev that ap show ?thesis
      by (auto simp: entry_after_def transition_defs split: if_splits execution_progress.splits)
  qed
qed

lemma transition_body_mono:
  "transitionExecution entry c = Applied entry' \<Longrightarrow> e_bodyDispatched entry \<Longrightarrow> e_bodyDispatched entry'"
proof (erule transition_Applied_cases)
  assume "transition_live entry (cmd_now c) (cmd_event c) = Applied entry'" "e_bodyDispatched entry"
  then show "e_bodyDispatched entry'"
    by (cases "cmd_event c")
      (auto simp: transition_defs split: if_splits execution_progress.splits option.splits)
qed (auto simp: transition_defs)

lemma entry_after_body_mono: "e_bodyDispatched entry \<Longrightarrow> e_bodyDispatched (entry_after entry c)"
  by (auto simp: entry_after_def dest: transition_body_mono split: ledger_reply.splits)

lemma entry_after_wf: "entry_wf entry \<Longrightarrow> entry_wf (entry_after entry c)"
  by (auto simp: entry_after_def dest: transition_wf split: ledger_reply.splits)

lemma entry_run_wf: "entry_wf entry \<Longrightarrow> entry_wf (entry_run entry cs)"
  by (induction entry cs rule: entry_run.induct) (auto intro: entry_after_wf)

lemma no_body_after_dispatch:
  "e_bodyDispatched entry \<Longrightarrow> filter starts_body (entry_replies entry cs) = []"
proof (induction entry cs rule: entry_replies.induct)
  case (2 entry c cs)
  have "\<not> starts_body (cmd_event c, transitionExecution entry c)"
    using "2.prems" by (auto elim: starts_body_step)
  with 2 show ?case by (simp add: entry_after_body_mono)
qed simp

lemma entry_body_once: "length (filter starts_body (entry_replies entry cs)) \<le> 1"
proof (induction entry cs rule: entry_replies.induct)
  case (2 entry c cs)
  show ?case
  proof (cases "starts_body (cmd_event c, transitionExecution entry c)")
    case True
    then have "e_bodyDispatched (entry_after entry c)" by (auto elim: starts_body_step)
    with True show ?thesis by (simp add: no_body_after_dispatch)
  next
    case False
    with 2 show ?thesis by simp
  qed
qed simp

text \<open>Once settled or acknowledged, an entry keeps its outcome or forgets it.\<close>

lemma settled_step:
  "e_progress entry = Settled out \<Longrightarrow>
   entry_after entry c = entry \<or> (cmd_event c = EvAck \<and> entry_after entry c = entry\<lparr>e_progress := Acked\<rparr>)"
  by (auto simp: entry_after_def transitionExecution_def transition_defs Let_def
      split: if_splits execution_event.splits)

lemma acked_step: "e_progress entry = Acked \<Longrightarrow> entry_after entry c = entry"
  by (auto simp: entry_after_def transitionExecution_def Let_def)

lemma acked_run: "e_progress entry = Acked \<Longrightarrow> entry_run entry cs = entry"
  by (induction entry cs rule: entry_run.induct) (auto simp: acked_step)

lemma settled_run:
  "e_progress entry = Settled out \<Longrightarrow>
   entry_run entry cs = entry \<or> entry_run entry cs = entry\<lparr>e_progress := Acked\<rparr>"
proof (induction entry cs rule: entry_run.induct)
  case (2 entry c cs)
  from settled_step [OF "2.prems", of c] 2 show ?case by (auto simp: acked_run)
qed simp

text \<open>The frozen call never changes.\<close>

lemma transition_keeps_call:
  assumes "transitionExecution entry c = Applied entry'" and "progress_call (e_progress entry) = Some call"
  shows "progress_call (e_progress entry') = Some call \<or> (\<exists>out. e_progress entry' = Settled out)"
  using assms(1)
proof (cases rule: transition_Applied_cases)
  case acked
  with assms(2) show ?thesis by simp
next
  case ended
  then show ?thesis by (auto simp: transition_defs)
next
  case live
  then show ?thesis using assms(2)
    by (cases "cmd_event c")
      (auto simp: transition_defs split: if_splits execution_progress.splits option.splits)
qed

lemma entry_after_same_admission: "same_admission entry (entry_after entry c)"
  by (auto simp: entry_after_def same_admission_def dest: transition_same_admission split: ledger_reply.splits)

lemma entry_run_same_admission: "same_admission entry (entry_run entry cs)"
proof (induction entry cs rule: entry_run.induct)
  case (2 entry c cs)
  with entry_after_same_admission [of entry c] show ?case by (auto simp: same_admission_def)
qed (simp add: same_admission_def)

text \<open>
  A body needs the issuer's release, and a call frozen awaiting consent also needs the issuer's
  consent: the commands that move an entry into those states.
\<close>

fun may_dispatch :: "execution_progress \<Rightarrow> bool" where
  "may_dispatch (Released _) = True"
| "may_dispatch (Dispatched _) = True"
| "may_dispatch (Reconciling _ _) = True"
| "may_dispatch _ = False"

lemma to_released_step:
  assumes "\<not> may_dispatch (e_progress entry)" and "may_dispatch (e_progress (entry_after entry c))"
  shows "cmd_event c = EvRelease \<and> actor_id (cmd_actor c) = e_issuer entry \<and> (\<exists>call. e_progress entry = Prepared call)"
proof -
  from assms obtain entry' where ap: "transitionExecution entry c = Applied entry'"
    and m: "may_dispatch (e_progress entry')"
    by (auto simp: entry_after_def split: ledger_reply.splits)
  from ap show ?thesis
  proof (cases rule: transition_Applied_cases)
    case acked
    with m show ?thesis by simp
  next
    case ended
    with m show ?thesis by (auto simp: transition_defs)
  next
    case live
    with m assms(1) show ?thesis
      by (cases "cmd_event c")
        (auto simp: transition_defs split: if_splits execution_progress.splits option.splits)
  qed
qed

lemma from_awaiting_step:
  assumes "e_progress entry = PreparedAwaitingConsent call"
  shows "e_progress (entry_after entry c) = PreparedAwaitingConsent call
    \<or> (\<exists>out. e_progress (entry_after entry c) = Settled out)
    \<or> (cmd_event c = EvConsent \<and> actor_id (cmd_actor c) = e_issuer entry)"
proof (cases "transitionExecution entry c")
  case (Applied entry')
  then show ?thesis
  proof (cases rule: transition_Applied_cases)
    case live
    with assms Applied show ?thesis
      by (cases "cmd_event c") (auto simp: entry_after_def transition_defs split: if_splits)
  qed (use assms Applied in \<open>auto simp: entry_after_def transition_defs\<close>)
qed (use assms in \<open>auto simp: entry_after_def\<close>)

lemma no_body_if_settled:
  "e_progress entry = Settled out \<or> e_progress entry = Acked \<Longrightarrow> \<not> starts_body r \<or> r \<notin> set (entry_replies entry cs)"
proof (induction entry cs rule: entry_replies.induct)
  case (2 entry c cs)
  have "\<not> starts_body (cmd_event c, transitionExecution entry c)"
    using "2.prems" by (auto elim!: starts_body_step)
  moreover have "e_progress (entry_after entry c) = Settled out \<or> e_progress (entry_after entry c) = Acked"
    using "2.prems" settled_step [of entry out c] acked_step [of entry c] by auto
  ultimately show ?case using "2.IH" by auto
qed simp

lemma release_before_body:
  "\<not> may_dispatch (e_progress entry) \<Longrightarrow> r \<in> set (entry_replies entry cs) \<Longrightarrow> starts_body r \<Longrightarrow>
   \<exists>c \<in> set cs. cmd_event c = EvRelease \<and> actor_id (cmd_actor c) = e_issuer entry"
proof (induction entry cs rule: entry_replies.induct)
  case (2 entry c cs)
  have "\<not> starts_body (cmd_event c, transitionExecution entry c)"
    using "2.prems"(1) by (auto elim!: starts_body_step)
  with "2.prems" have r: "r \<in> set (entry_replies (entry_after entry c) cs)" by auto
  show ?case
  proof (cases "may_dispatch (e_progress (entry_after entry c))")
    case True
    with to_released_step [OF "2.prems"(1)] show ?thesis by auto
  next
    case False
    with "2.IH" r "2.prems"(3) entry_after_same_admission [of entry c] show ?thesis
      by (auto simp: same_admission_def)
  qed
qed simp

lemma consent_before_body:
  "e_progress entry = PreparedAwaitingConsent call \<Longrightarrow> r \<in> set (entry_replies entry cs) \<Longrightarrow> starts_body r \<Longrightarrow>
   \<exists>c \<in> set cs. cmd_event c = EvConsent \<and> actor_id (cmd_actor c) = e_issuer entry"
proof (induction entry cs rule: entry_replies.induct)
  case (2 entry c cs)
  have "\<not> starts_body (cmd_event c, transitionExecution entry c)"
    using "2.prems"(1) by (auto elim!: starts_body_step)
  with "2.prems" have r: "r \<in> set (entry_replies (entry_after entry c) cs)" by auto
  consider (stay) "e_progress (entry_after entry c) = PreparedAwaitingConsent call"
    | (over) out where "e_progress (entry_after entry c) = Settled out"
    | (yes) "cmd_event c = EvConsent" "actor_id (cmd_actor c) = e_issuer entry"
    using from_awaiting_step [OF "2.prems"(1), of c] by blast
  then show ?case
  proof cases
    case stay
    with "2.IH" r "2.prems"(3) entry_after_same_admission [of entry c] show ?thesis
      by (auto simp: same_admission_def)
  next
    case over
    with no_body_if_settled r "2.prems"(3) show ?thesis by blast
  qed auto
qed simp

text \<open>What an outcome may say, along a run from admission.\<close>

lemma body_flag_iff_started:
  "e_bodyDispatched (entry_run entry cs) \<longleftrightarrow>
   e_bodyDispatched entry \<or> (\<exists>r \<in> set (entry_replies entry cs). starts_body r)"
proof (induction entry cs rule: entry_run.induct)
  case (2 entry c cs)
  have "e_bodyDispatched (entry_after entry c) \<longleftrightarrow>
      e_bodyDispatched entry \<or> starts_body (cmd_event c, transitionExecution entry c)"
  proof (cases "transitionExecution entry c")
    case (Applied entry')
    then show ?thesis
    proof (cases rule: transition_Applied_cases)
      case live
      with Applied show ?thesis
        by (cases "cmd_event c")
          (auto simp: entry_after_def starts_body_iff transition_defs
            split: if_splits execution_progress.splits option.splits)
    qed (use Applied in \<open>auto simp: entry_after_def starts_body_iff transition_defs\<close>)
  qed (auto simp: entry_after_def starts_body_iff)
  with 2 show ?case by auto
qed simp

section \<open>Properties of the state machine\<close>

text \<open>The entry a fresh admission writes, for the witnesses below.\<close>

definition sample_entry :: execution_entry where
  "sample_entry = \<lparr>e_issuer = ''brain'', e_commandId = ''c1'', e_executor = ''hand'', e_workspace = ''w'',
     e_scope = ''s'', e_generation = Fin 1, e_requestDigest = ''d'', e_admittedAt = Fin 0, e_leaseUntil = Fin 1000,
     e_reconcilable = False, e_initialLeaseUntil = Fin 1000, e_renewSeq = Fin 0, e_effectPossible = False,
     e_bodyDispatched = False, e_progress = Admitted\<rparr>"

definition sample_command :: "string \<Rightarrow> execution_event \<Rightarrow> execution_command" where
  "sample_command who event = \<lparr>cmd_issuer = ''brain'', cmd_commandId = ''c1'', cmd_generation = Fin 1,
     cmd_actor = \<lparr>actor_id = who, approvedWorkspace = None\<rparr>, cmd_now = Fin 5, cmd_event = event\<rparr>"

definition sample_call :: frozen_call where
  "sample_call = \<lparr>fc_name = ''bash'', fc_args = SNull, fc_digest = ''d''\<rparr>"

definition sample_walk :: "execution_command list" where
  "sample_walk = [sample_command ''hand'' EvPrepare, sample_command ''hand'' EvEffect,
     sample_command ''hand'' (EvFreeze sample_call False), sample_command ''brain'' EvRelease,
     sample_command ''hand'' EvDispatch]"

lemmas sample_defs = sample_entry_def sample_command_def sample_call_def sample_walk_def

lemma sample_entry_wf: "entry_wf sample_entry"
  by (simp add: entry_wf_def sample_entry_def max_safe_integer_def MAX_EXECUTION_LIFETIME_MS_def)

lemma sample_walk_starts: "(EvDispatch, Applied (entry_run sample_entry sample_walk)) \<in> set (entry_replies sample_entry sample_walk)"
  and sample_walk_body: "starts_body (EvDispatch, Applied (entry_run sample_entry sample_walk))"
  by (simp_all add: sample_defs entry_after_def transitionExecution_def transition_defs)

text \<open>A body runs only after the issuer released the call, and a call frozen awaiting consent
  runs only after the issuer consented: in every run of commands from an entry that is not yet
  released, an answer that starts the body comes with such commands of the issuer among those
  given.\<close>

theorem body_needs_issuer:
  assumes "r \<in> set (entry_replies entry cs)" and "starts_body r" and "\<not> may_dispatch (e_progress entry)"
  shows "(\<exists>c \<in> set cs. cmd_event c = EvRelease \<and> actor_id (cmd_actor c) = e_issuer entry) \<and>
    (e_progress entry = PreparedAwaitingConsent call \<longrightarrow>
      (\<exists>c \<in> set cs. cmd_event c = EvConsent \<and> actor_id (cmd_actor c) = e_issuer entry))"
  using release_before_body [OF assms(3,1,2)] consent_before_body [OF _ assms(1,2)] by blast

theorem body_needs_issuer_witness:
  "\<not> may_dispatch (e_progress sample_entry) \<and>
   (\<exists>c \<in> set sample_walk. cmd_event c = EvRelease \<and> actor_id (cmd_actor c) = ''brain'')"
proof -
  have n: "\<not> may_dispatch (e_progress sample_entry)" by (simp add: sample_entry_def)
  with body_needs_issuer [OF sample_walk_starts sample_walk_body n] show ?thesis
    by (simp add: sample_entry_def)
qed

text \<open>C27. A settled call is final: whatever commands arrive later, its entry keeps its outcome
  until the issuer acknowledges it, and then only forgets it.\<close>

theorem settled_is_final:
  assumes "e_progress entry = Settled out"
  shows "entry_run entry cs = entry \<or>
    (entry_run entry cs = entry\<lparr>e_progress := Acked\<rparr> \<and>
      (\<exists>c \<in> set cs. cmd_event c = EvAck \<and> actor_id (cmd_actor c) = e_issuer entry))"
  using assms
proof (induction entry cs rule: entry_run.induct)
  case (2 entry c cs)
  show ?case
  proof (cases "entry_after entry c = entry")
    case True
    with 2 show ?thesis by auto
  next
    case False
    with settled_step [OF "2.prems", of c] have ack: "cmd_event c = EvAck"
      "entry_after entry c = entry\<lparr>e_progress := Acked\<rparr>" by auto
    with False have "authorized entry (cmd_actor c) EvAck"
      by (auto simp: entry_after_def transitionExecution_def Let_def split: if_splits)
    with ack show ?thesis by (auto simp: acked_run)
  qed
qed simp

theorem settled_is_final_witness:
  "let entry = sample_entry\<lparr>e_progress := Settled (OutEnded Cancelled False False)\<rparr>
   in e_progress (entry_run entry [sample_command ''hand'' EvPrepare, sample_command ''hand'' EvDispatch])
     \<in> {Settled (OutEnded Cancelled False False), Acked}"
  using settled_is_final [of "sample_entry\<lparr>e_progress := Settled (OutEnded Cancelled False False)\<rparr>"
      "OutEnded Cancelled False False" "[sample_command ''hand'' EvPrepare, sample_command ''hand'' EvDispatch]"]
  by (auto simp: Let_def)

text \<open>C28. Leases: an accepted command at or after the lease settles an unsettled call as
  \<open>lease_expired\<close>, whatever the command asks for; and no run of commands extends the lease past the
  24 hour lifetime or makes a well-formed entry ill-formed.\<close>

theorem lease_is_enforced:
  assumes "entry_wf entry"
  shows "entry_wf (entry_run entry cs) \<and>
    num_le (e_leaseUntil (entry_run entry cs)) (num_add (e_admittedAt entry) MAX_EXECUTION_LIFETIME_MS) \<and>
    (num_eq (cmd_generation c) (e_generation entry) \<and> authorized entry (cmd_actor c) (cmd_event c) \<and>
      is_finite (cmd_now c) \<and> num_le (e_leaseUntil entry) (cmd_now c) \<and>
      (\<forall>out. e_progress entry \<noteq> Settled out) \<and> e_progress entry \<noteq> Acked \<longrightarrow>
      transitionExecution entry c = settle_entry entry LeaseExpired)"
proof (intro conjI impI; (elim conjE)?)
  show wf: "entry_wf (entry_run entry cs)" using assms by (rule entry_run_wf)
  show "num_le (e_leaseUntil (entry_run entry cs)) (num_add (e_admittedAt entry) MAX_EXECUTION_LIFETIME_MS)"
    using wf entry_run_same_admission [of entry cs] by (auto simp: entry_wf_def same_admission_def)
  assume h: "num_eq (cmd_generation c) (e_generation entry)" "authorized entry (cmd_actor c) (cmd_event c)"
    "is_finite (cmd_now c)" "num_le (e_leaseUntil entry) (cmd_now c)"
    "\<forall>out. e_progress entry \<noteq> Settled out" "e_progress entry \<noteq> Acked"
  from assms obtain a b d where "e_admittedAt entry = Fin a" "e_leaseUntil entry = Fin b"
      "e_initialLeaseUntil entry = Fin d" "a < d" "d \<le> b"
    by (auto simp: entry_wf_def elim!: is_finiteE)
  with h(3,4) have "\<not> num_lt (cmd_now c) (e_admittedAt entry)" by (auto elim!: is_finiteE)
  with h show "transitionExecution entry c = settle_entry entry LeaseExpired"
    by (cases "e_progress entry") (auto simp: transitionExecution_def Let_def)
qed

theorem lease_is_enforced_witness:
  "let late = (sample_command ''hand'' EvPrepare)\<lparr>cmd_now := Fin 1000\<rparr>
   in transitionExecution sample_entry late = settle_entry sample_entry LeaseExpired \<and>
      entry_wf (entry_run sample_entry sample_walk)"
  using lease_is_enforced [OF sample_entry_wf, of sample_walk "(sample_command ''hand'' EvPrepare)\<lparr>cmd_now := Fin 1000\<rparr>"]
  by (simp add: Let_def sample_defs)

text \<open>Outcomes are honest: along any run from a well-formed entry, an outcome that carries a
  result comes from a body that was started, a blocked call never had a body, and an ended call is
  reported uncertain whenever its body was started or its hooks may have had effects.\<close>

theorem outcome_is_honest:
  assumes "entry_wf entry" and "\<not> e_bodyDispatched entry" and "e_progress (entry_run entry cs) = Settled out"
  shows "case out of
      OutResult _ hooks \<Rightarrow> (\<exists>r \<in> set (entry_replies entry cs). starts_body r) \<and> hooks
    | OutBlocked _ hooks \<Rightarrow> \<not> (\<exists>r \<in> set (entry_replies entry cs). starts_body r)
    | OutEnded _ hooks uncertain \<Rightarrow>
        uncertain = (hooks \<or> (\<exists>r \<in> set (entry_replies entry cs). starts_body r)) \<and>
        hooks = e_effectPossible (entry_run entry cs)"
proof -
  have "entry_wf (entry_run entry cs)" using assms(1) by (rule entry_run_wf)
  moreover have "e_bodyDispatched (entry_run entry cs) \<longleftrightarrow> (\<exists>r \<in> set (entry_replies entry cs). starts_body r)"
    using body_flag_iff_started [of entry cs] assms(2) by simp
  ultimately show ?thesis using assms(3) by (cases out) (auto simp: entry_wf_def)
qed

theorem outcome_is_honest_witness:
  "let cs = sample_walk @ [sample_command ''hand'' EvRestart]
   in e_progress (entry_run sample_entry cs) = Settled (OutEnded HandRestarted True True) \<and>
      (\<exists>r \<in> set (entry_replies sample_entry cs). starts_body r) = True"
proof -
  let ?cs = "sample_walk @ [sample_command ''hand'' EvRestart]"
  have out: "e_progress (entry_run sample_entry ?cs) = Settled (OutEnded HandRestarted True True)"
    by (simp add: sample_defs entry_after_def transitionExecution_def transition_defs)
  have "\<exists>r \<in> set (entry_replies sample_entry ?cs). starts_body r"
    by (simp add: sample_defs entry_after_def transitionExecution_def transition_defs)
  with out outcome_is_honest [OF sample_entry_wf _ out] show ?thesis
    by (simp add: sample_entry_def)
qed

end
