(* ===== verification/Step_Trace.thy ===== *)
theory Step_Trace
  imports Senpi_Prelude
begin

text \<open>
  Runs of a component as sequences of steps, each of which may answer something, and the interface of a component that
  does something at most once for every key: its answers that start the thing for a key only come while the state does not
  record it as started, and leave it recorded.
\<close>

fun run_steps :: "('e \<Rightarrow> 's \<Rightarrow> 'o list \<times> 's) \<Rightarrow> 'e list \<Rightarrow> 's \<Rightarrow> 'o list \<times> 's" where
  "run_steps step [] s = ([], s)"
| "run_steps step (e # es) s = (let (out, s') = step e s; (outs, s'') = run_steps step es s' in (out @ outs, s''))"

lemma run_steps_Cons:
  assumes "run_steps step (e # es) s = (outs, s'')"
  obtains out s' outs' where "step e s = (out, s')" "run_steps step es s' = (outs', s'')" "outs = out @ outs'"
  using assms by (auto split: prod.splits)

lemma run_steps_append:
  "run_steps step (es @ fs) s = (let (outs, s') = run_steps step es s; (outs', s'') = run_steps step fs s' in (outs @ outs', s''))"
  by (induction es arbitrary: s) (auto split: prod.splits)

locale kept_invariant =
  fixes step :: "'e \<Rightarrow> 's \<Rightarrow> 'o list \<times> 's" and inv :: "'s \<Rightarrow> bool"
  assumes inv_step: "inv s \<Longrightarrow> step e s = (out, s') \<Longrightarrow> inv s'"
begin

lemma inv_run: "inv s \<Longrightarrow> run_steps step es s = (outs, s') \<Longrightarrow> inv s'"
proof (induction es arbitrary: s outs)
  case (Cons e es)
  obtain out s1 outs' where c: "step e s = (out, s1)" "run_steps step es s1 = (outs', s')" "outs = out @ outs'"
    by (rule run_steps_Cons [OF Cons.prems(2)])
  from Cons.IH [OF inv_step [OF Cons.prems(1) c(1)] c(2)] show ?case .
qed simp

text \<open>Every answer of a run was given by one of its steps, from a state that keeps the invariant.\<close>

lemma run_out:
  assumes "inv s" "run_steps step es s = (outs, s'')" "o' \<in> set outs"
  obtains fs e gs s1 out s2 outs1 outs2 where "es = fs @ e # gs" "run_steps step fs s = (outs1, s1)" "step e s1 = (out, s2)" "o' \<in> set out"
    "inv s1" "run_steps step gs s2 = (outs2, s'')"
  using assms
proof (induction es arbitrary: s outs thesis)
  case (Cons e es)
  obtain out s1 outs' where c: "step e s = (out, s1)" "run_steps step es s1 = (outs', s'')" "outs = out @ outs'"
    by (rule run_steps_Cons [OF Cons.prems(3)])
  show ?case
  proof (cases "o' \<in> set out")
    case True
    then show ?thesis using Cons.prems(1) [of "[]" e es "[]" s out s1 outs'] Cons.prems(2) c by simp
  next
    case False
    then have "o' \<in> set outs'" using Cons.prems(4) c(3) by simp
    from Cons.IH [OF _ inv_step [OF Cons.prems(2) c(1)] c(2) this] obtain fs e' gs s2 out' s3 outs1 outs2 where
      f: "es = fs @ e' # gs" "run_steps step fs s1 = (outs1, s2)" "step e' s2 = (out', s3)" "o' \<in> set out'" "inv s2"
        "run_steps step gs s3 = (outs2, s'')" by blast
    show ?thesis by (rule Cons.prems(1) [of "e # fs" e' gs "out @ outs1" s2 out' s3 outs2]) (use c(1) f in auto)
  qed
qed simp

end

text \<open>Without an invariant: an answer of a run was given by one of its steps.\<close>

interpretation any_run: kept_invariant step "\<lambda>_. True" for step
  by unfold_locales simp

locale once_per_key = kept_invariant step inv
  for step :: "'e \<Rightarrow> 's \<Rightarrow> 'o list \<times> 's" and inv :: "'s \<Rightarrow> bool" +
  fixes started :: "'s \<Rightarrow> 'k \<Rightarrow> bool" and starts :: "'k \<Rightarrow> 'o \<Rightarrow> bool"
  assumes started_step: "inv s \<Longrightarrow> step e s = (out, s') \<Longrightarrow> started s k \<Longrightarrow> started s' k"
    and starts_one: "inv s \<Longrightarrow> step e s = (out, s') \<Longrightarrow> length (filter (starts k) out) \<le> 1"
    and starts_fresh: "inv s \<Longrightarrow> step e s = (out, s') \<Longrightarrow> filter (starts k) out \<noteq> [] \<Longrightarrow> \<not> started s k \<and> started s' k"
begin

lemma started_run: "inv s \<Longrightarrow> run_steps step es s = (outs, s') \<Longrightarrow> started s k \<Longrightarrow> started s' k"
proof (induction es arbitrary: s outs)
  case (Cons e es)
  obtain out s1 outs' where c: "step e s = (out, s1)" "run_steps step es s1 = (outs', s')" "outs = out @ outs'"
    by (rule run_steps_Cons [OF Cons.prems(2)])
  from Cons.IH [OF inv_step [OF Cons.prems(1) c(1)] c(2) started_step [OF Cons.prems(1) c(1) Cons.prems(3)]] show ?case .
qed simp

lemma at_most_once:
  "inv s \<Longrightarrow> run_steps step es s = (outs, s') \<Longrightarrow> length (filter (starts k) outs) \<le> (if started s k then 0 else 1)"
proof (induction es arbitrary: s outs)
  case (Cons e es)
  obtain out s1 outs' where c: "step e s = (out, s1)" "run_steps step es s1 = (outs', s')" "outs = out @ outs'"
    by (rule run_steps_Cons [OF Cons.prems(2)])
  note ih = Cons.IH [OF inv_step [OF Cons.prems(1) c(1)] c(2)]
  show ?case
  proof (cases "filter (starts k) out = []")
    case True
    then show ?thesis using ih started_step [OF Cons.prems(1) c(1), of k] c(3) by (auto split: if_splits)
  next
    case False
    then show ?thesis using ih starts_fresh [OF Cons.prems(1) c(1) False] starts_one [OF Cons.prems(1) c(1), of k] c(3) by (auto split: if_splits)
  qed
qed simp

lemma started_after:
  assumes "inv s" "run_steps step es s = (outs, s')" "filter (starts k) outs \<noteq> []"
  shows "\<not> started s k \<and> started s' k"
proof -
  have "\<not> started s k" using at_most_once [OF assms(1,2), of k] assms(3) by (auto split: if_splits)
  obtain o' where o: "o' \<in> set outs" "starts k o'" using assms(3) by (auto simp: filter_empty_conv)
  obtain fs e gs s1 out s2 outs1 outs2 where e: "step e s1 = (out, s2)" "o' \<in> set out" "inv s1" "run_steps step gs s2 = (outs2, s')"
    using run_out [OF assms(1,2) o(1)] .
  have "filter (starts k) out \<noteq> []" using e(2) o(2) by (auto simp: filter_empty_conv)
  then have "started s2 k" using starts_fresh [OF e(3,1)] by blast
  then have "started s' k" using started_run [OF inv_step [OF e(3,1)] e(4)] by blast
  with \<open>\<not> started s k\<close> show ?thesis ..
qed

end

text \<open>The same for runs of which every step meets a condition, and counting: answers that use up something a state holds or a step brings.\<close>

locale kept_under =
  fixes step :: "'e \<Rightarrow> 's \<Rightarrow> 'o list \<times> 's" and inv :: "'s \<Rightarrow> bool" and allowed :: "'e \<Rightarrow> bool"
  assumes kept_step: "inv s \<Longrightarrow> allowed e \<Longrightarrow> step e s = (out, s') \<Longrightarrow> inv s'"
begin

lemma kept_run: "inv s \<Longrightarrow> list_all allowed es \<Longrightarrow> run_steps step es s = (outs, s') \<Longrightarrow> inv s'"
proof (induction es arbitrary: s outs)
  case (Cons e es)
  obtain out s1 outs' where c: "step e s = (out, s1)" "run_steps step es s1 = (outs', s')" "outs = out @ outs'"
    by (rule run_steps_Cons [OF Cons.prems(3)])
  have a: "allowed e" "list_all allowed es" using Cons.prems(2) by simp_all
  from Cons.IH [OF kept_step [OF Cons.prems(1) a(1) c(1)] a(2) c(2)] show ?case .
qed simp

end

locale counted = kept_under step inv allowed
  for step :: "'e \<Rightarrow> 's \<Rightarrow> 'o list \<times> 's" and inv :: "'s \<Rightarrow> bool" and allowed :: "'e \<Rightarrow> bool" +
  fixes counts :: "'o \<Rightarrow> bool" and held :: "'s \<Rightarrow> nat" and brings :: "'e \<Rightarrow> nat"
  assumes count_step: "inv s \<Longrightarrow> allowed e \<Longrightarrow> step e s = (out, s') \<Longrightarrow> length (filter counts out) + held s' \<le> held s + brings e"
begin

lemma count_run:
  "inv s \<Longrightarrow> list_all allowed es \<Longrightarrow> run_steps step es s = (outs, s') \<Longrightarrow>
   length (filter counts outs) + held s' \<le> held s + sum_list (map brings es)"
proof (induction es arbitrary: s outs)
  case (Cons e es)
  obtain out s1 outs' where c: "step e s = (out, s1)" "run_steps step es s1 = (outs', s')" "outs = out @ outs'"
    by (rule run_steps_Cons [OF Cons.prems(3)])
  have a: "allowed e" "list_all allowed es" using Cons.prems(2) by simp_all
  from Cons.IH [OF kept_step [OF Cons.prems(1) a(1) c(1)] a(2) c(2)] count_step [OF Cons.prems(1) a(1) c(1)] c(3) show ?case by simp
qed simp

end

text \<open>Invariants that speak about the steps and the answers so far.\<close>

locale history_invariant =
  fixes step :: "'e \<Rightarrow> 's \<Rightarrow> 'o list \<times> 's" and hist :: "'e set \<Rightarrow> 'o set \<Rightarrow> 's \<Rightarrow> bool"
  assumes hist_step: "hist E H s \<Longrightarrow> step e s = (out, s') \<Longrightarrow> hist (insert e E) (H \<union> set out) s'"
begin

lemma hist_run: "hist E H s \<Longrightarrow> run_steps step es s = (outs, s') \<Longrightarrow> hist (E \<union> set es) (H \<union> set outs) s'"
proof (induction es arbitrary: s outs E H)
  case (Cons e es)
  obtain out s1 outs' where c: "step e s = (out, s1)" "run_steps step es s1 = (outs', s')" "outs = out @ outs'"
    by (rule run_steps_Cons [OF Cons.prems(2)])
  from Cons.IH [OF hist_step [OF Cons.prems(1) c(1)] c(2)] show ?case by (simp add: c(3) Un_assoc)
qed simp

end

text \<open>Steps that bring keys, of which no two in a run are the same; the invariant knows the keys so far.\<close>

locale fresh_keys =
  fixes step :: "'e \<Rightarrow> 's \<Rightarrow> 'o list \<times> 's" and keys :: "'e \<Rightarrow> 'k list" and inv :: "'k list \<Rightarrow> 's \<Rightarrow> bool"
  assumes fresh_step: "inv D s \<Longrightarrow> distinct (D @ keys e) \<Longrightarrow> step e s = (out, s') \<Longrightarrow> inv (D @ keys e) s'"
begin

lemma fresh_run:
  "inv D s \<Longrightarrow> distinct (D @ concat (map keys es)) \<Longrightarrow> run_steps step es s = (outs, s') \<Longrightarrow> inv (D @ concat (map keys es)) s'"
proof (induction es arbitrary: s outs D)
  case (Cons e es)
  obtain out s1 outs' where c: "step e s = (out, s1)" "run_steps step es s1 = (outs', s')" "outs = out @ outs'"
    by (rule run_steps_Cons [OF Cons.prems(3)])
  have d: "distinct (D @ keys e)" "distinct ((D @ keys e) @ concat (map keys es))" using Cons.prems(2) by auto
  from Cons.IH [OF fresh_step [OF Cons.prems(1) d(1) c(1)] d(2) c(2)] show ?case by simp
qed simp

end

text \<open>What a run adds to a list that is part of the state.\<close>

lemma run_steps_log:
  assumes step: "\<And>e s out s'. step e s = (out, s') \<Longrightarrow> noted s' = noted s @ concat (map said out)"
  shows "run_steps step es s = (outs, s') \<Longrightarrow> noted s' = noted s @ concat (map said outs)"
proof (induction es arbitrary: s outs)
  case (Cons e es)
  obtain out s1 outs' where c: "step e s = (out, s1)" "run_steps step es s1 = (outs', s')" "outs = out @ outs'"
    by (rule run_steps_Cons [OF Cons.prems])
  from Cons.IH [OF c(2)] step [OF c(1)] c(3) show ?case by simp
qed simp

end
