(* ===== verification/Ledger_Store.thy ===== *)
theory Ledger_Store
  imports Ledger Step_Trace
begin

text \<open>
  The execution ledger on the durable store: the row codec of execution/ledger-codec.ts and the
  operations \<open>admit\<close>, \<open>apply\<close>, \<open>read\<close>, \<open>scan\<close> and \<open>recover\<close> of execution/ledger.ts. Each
  operation runs inside the store's single admission line, so it is one step on the medium; the
  write-point seam of its commit is a parameter, so a kill before, during or after the durable
  write is a possible step.
\<close>

section \<open>The row codec\<close>

definition frozen_ok :: "store_value option \<Rightarrow> bool" where
  "frozen_ok v \<longleftrightarrow> is_store_object v \<and> is_str (fld v ''name'') \<and> is_str (fld v ''digest'') \<and>
     fld v ''args'' \<noteq> None"

definition outcome_ok :: "store_value option \<Rightarrow> bool" where
  "outcome_ok v \<longleftrightarrow>
     is_store_object v \<and> is_bool (fld v ''hooksRan'') \<and> is_bool (fld v ''uncertain'') \<and>
     (let reason = fld v ''reason'' in
      if reason = Some (SStr ''result'') \<or> reason = Some (SStr ''blocked'')
      then fld v ''value'' \<noteq> None \<and> fld v ''uncertain'' = Some (SBool False)
      else reason = Some (SStr ''cancelled'') \<or> reason = Some (SStr ''lease_expired'') \<or>
        reason = Some (SStr ''hand_restarted'') \<or> reason = Some (SStr ''uncertain''))"

definition progress_value_ok :: "store_value option \<Rightarrow> bool" where
  "progress_value_ok v \<longleftrightarrow>
     is_store_object v \<and>
     (let state = fld v ''state'' in
      if state = Some (SStr ''admitted'') \<or> state = Some (SStr ''preparing'') \<or> state = Some (SStr ''acked'') then True
      else if state = Some (SStr ''prepared'') \<or> state = Some (SStr ''prepared_awaiting_consent'') \<or>
        state = Some (SStr ''released'') \<or> state = Some (SStr ''dispatched'') then frozen_ok (fld v ''call'')
      else if state = Some (SStr ''reconciling'') then frozen_ok (fld v ''call'') \<and> is_fin_num (fld v ''until'')
      else if state = Some (SStr ''settled'') then outcome_ok (fld v ''outcome'')
      else False)"

definition entry_ok :: "store_value \<Rightarrow> bool" where
  "entry_ok value \<longleftrightarrow>
     (let v = Some value in
      is_store_object v \<and>
      list_all (\<lambda>k. is_str (fld v k))
        [''issuer'', ''commandId'', ''executor'', ''workspace'', ''scope'', ''requestDigest''] \<and>
      list_all (\<lambda>k. is_fin_num (fld v k))
        [''generation'', ''admittedAt'', ''leaseUntil'', ''initialLeaseUntil'', ''renewSeq''] \<and>
      is_bool (fld v ''reconcilable'') \<and> is_bool (fld v ''effectPossible'') \<and>
      is_bool (fld v ''bodyDispatched'') \<and> progress_value_ok (fld v ''progress''))"

text \<open>The typed view of a value that passed the checks.\<close>

definition the_frozen :: "store_value option \<Rightarrow> frozen_call" where
  "the_frozen v = \<lparr>fc_name = get_str (fld v ''name''),
     fc_args = (case fld v ''args'' of Some a \<Rightarrow> a | None \<Rightarrow> SNull), fc_digest = get_str (fld v ''digest'')\<rparr>"

definition the_outcome :: "store_value option \<Rightarrow> execution_outcome" where
  "the_outcome v =
     (let hooks = get_bool (fld v ''hooksRan''); uncertain = get_bool (fld v ''uncertain'');
          value = (case fld v ''value'' of Some a \<Rightarrow> a | None \<Rightarrow> SNull); reason = get_str (fld v ''reason'')
      in if reason = ''result'' then OutResult value hooks
         else if reason = ''blocked'' then OutBlocked value hooks
         else OutEnded (if reason = ''cancelled'' then Cancelled else if reason = ''lease_expired'' then LeaseExpired
           else if reason = ''hand_restarted'' then HandRestarted else UncertainEnd) hooks uncertain)"

definition the_progress :: "store_value option \<Rightarrow> execution_progress" where
  "the_progress v =
     (let state = get_str (fld v ''state''); call = the_frozen (fld v ''call'')
      in if state = ''admitted'' then Admitted
         else if state = ''preparing'' then Preparing
         else if state = ''prepared'' then Prepared call
         else if state = ''prepared_awaiting_consent'' then PreparedAwaitingConsent call
         else if state = ''released'' then Released call
         else if state = ''dispatched'' then Dispatched call
         else if state = ''reconciling'' then Reconciling call (get_num (fld v ''until''))
         else if state = ''settled'' then Settled (the_outcome (fld v ''outcome''))
         else Acked)"

definition the_entry :: "store_value \<Rightarrow> execution_entry" where
  "the_entry value =
     (let v = Some value in
      \<lparr>e_issuer = get_str (fld v ''issuer''), e_commandId = get_str (fld v ''commandId''),
       e_executor = get_str (fld v ''executor''), e_workspace = get_str (fld v ''workspace''),
       e_scope = get_str (fld v ''scope''), e_generation = get_num (fld v ''generation''),
       e_requestDigest = get_str (fld v ''requestDigest''), e_admittedAt = get_num (fld v ''admittedAt''),
       e_leaseUntil = get_num (fld v ''leaseUntil''), e_reconcilable = get_bool (fld v ''reconcilable''),
       e_initialLeaseUntil = get_num (fld v ''initialLeaseUntil''), e_renewSeq = get_num (fld v ''renewSeq''),
       e_effectPossible = get_bool (fld v ''effectPossible''), e_bodyDispatched = get_bool (fld v ''bodyDispatched''),
       e_progress = the_progress (fld v ''progress'')\<rparr>)"

definition decodeExecution :: "store_value \<Rightarrow> (failure, execution_entry) result" where
  "decodeExecution value =
     (if entry_ok value then Inr (the_entry value) else Inl (ErrorMessage ''invalid durable execution ledger row''))"

text \<open>The JSON value an entry is: what \<open>put\<close> stores for it.\<close>

definition frozen_value :: "frozen_call \<Rightarrow> store_value" where
  "frozen_value c = SObj [(''name'', SStr (fc_name c)), (''args'', fc_args c), (''digest'', SStr (fc_digest c))]"

fun reason_name :: "end_reason \<Rightarrow> string" where
  "reason_name Cancelled = ''cancelled''"
| "reason_name LeaseExpired = ''lease_expired''"
| "reason_name HandRestarted = ''hand_restarted''"
| "reason_name UncertainEnd = ''uncertain''"

fun outcome_value :: "execution_outcome \<Rightarrow> store_value" where
  "outcome_value (OutResult v h) =
     SObj [(''reason'', SStr ''result''), (''value'', v), (''hooksRan'', SBool h), (''uncertain'', SBool False)]"
| "outcome_value (OutBlocked v h) =
     SObj [(''reason'', SStr ''blocked''), (''value'', v), (''hooksRan'', SBool h), (''uncertain'', SBool False)]"
| "outcome_value (OutEnded r h u) =
     SObj [(''reason'', SStr (reason_name r)), (''hooksRan'', SBool h), (''uncertain'', SBool u)]"

fun state_name :: "execution_progress \<Rightarrow> string" where
  "state_name Admitted = ''admitted''"
| "state_name Preparing = ''preparing''"
| "state_name (Prepared _) = ''prepared''"
| "state_name (PreparedAwaitingConsent _) = ''prepared_awaiting_consent''"
| "state_name (Released _) = ''released''"
| "state_name (Dispatched _) = ''dispatched''"
| "state_name (Reconciling _ _) = ''reconciling''"
| "state_name (Settled _) = ''settled''"
| "state_name Acked = ''acked''"

fun progress_extra :: "execution_progress \<Rightarrow> store_value obj" where
  "progress_extra (Prepared c) = [(''call'', frozen_value c)]"
| "progress_extra (PreparedAwaitingConsent c) = [(''call'', frozen_value c)]"
| "progress_extra (Released c) = [(''call'', frozen_value c)]"
| "progress_extra (Dispatched c) = [(''call'', frozen_value c)]"
| "progress_extra (Reconciling c until) = [(''call'', frozen_value c), (''until'', SNum until)]"
| "progress_extra (Settled out) = [(''outcome'', outcome_value out)]"
| "progress_extra _ = []"

definition progress_value :: "execution_progress \<Rightarrow> store_value" where
  "progress_value p = SObj ((''state'', SStr (state_name p)) # progress_extra p)"

definition entry_value :: "execution_entry \<Rightarrow> store_value" where
  "entry_value e = SObj
     [(''issuer'', SStr (e_issuer e)), (''commandId'', SStr (e_commandId e)), (''executor'', SStr (e_executor e)),
      (''workspace'', SStr (e_workspace e)), (''scope'', SStr (e_scope e)), (''generation'', SNum (e_generation e)),
      (''requestDigest'', SStr (e_requestDigest e)), (''admittedAt'', SNum (e_admittedAt e)),
      (''leaseUntil'', SNum (e_leaseUntil e)), (''reconcilable'', SBool (e_reconcilable e)),
      (''initialLeaseUntil'', SNum (e_initialLeaseUntil e)), (''renewSeq'', SNum (e_renewSeq e)),
      (''effectPossible'', SBool (e_effectPossible e)), (''bodyDispatched'', SBool (e_bodyDispatched e)),
      (''progress'', progress_value (e_progress e))]"

section \<open>Round trip of the row codec\<close>

lemma frozen_roundtrip [simp]: "frozen_ok (Some (frozen_value c))" "the_frozen (Some (frozen_value c)) = c"
  by (simp_all add: frozen_ok_def the_frozen_def frozen_value_def)

lemma outcome_roundtrip [simp]: "outcome_ok (Some (outcome_value out))" "the_outcome (Some (outcome_value out)) = out"
proof -
  show "outcome_ok (Some (outcome_value out))"
    by (cases out; cases "case out of OutEnded r _ _ \<Rightarrow> r | _ \<Rightarrow> Cancelled") (auto simp: outcome_ok_def)
  show "the_outcome (Some (outcome_value out)) = out"
    by (cases out; cases "case out of OutEnded r _ _ \<Rightarrow> r | _ \<Rightarrow> Cancelled") (auto simp: the_outcome_def)
qed

fun progress_fin :: "execution_progress \<Rightarrow> bool" where
  "progress_fin (Reconciling _ until) = is_finite until"
| "progress_fin _ = True"

lemma progress_roundtrip:
  "progress_fin p \<Longrightarrow> progress_value_ok (Some (progress_value p))"
  "the_progress (Some (progress_value p)) = p"
  by (cases p; simp add: progress_value_ok_def the_progress_def progress_value_def)+

definition entry_fin :: "execution_entry \<Rightarrow> bool" where
  "entry_fin e \<longleftrightarrow> is_finite (e_generation e) \<and> is_finite (e_admittedAt e) \<and> is_finite (e_leaseUntil e) \<and>
     is_finite (e_initialLeaseUntil e) \<and> is_finite (e_renewSeq e) \<and> progress_fin (e_progress e)"

lemma entry_wf_fin: "entry_wf e \<Longrightarrow> entry_fin e"
  by (cases "e_progress e") (auto simp: entry_wf_def entry_fin_def dest: is_safe_integer_finite)

lemma decode_entry_value: "entry_fin e \<Longrightarrow> decodeExecution (entry_value e) = Inr e"
  by (simp add: decodeExecution_def entry_ok_def the_entry_def entry_value_def entry_fin_def progress_roundtrip)

section \<open>Ledger operations\<close>

definition ledger_PREFIX :: string where
  "ledger_PREFIX = ''execution.ledger:''"

definition ledger_keyOf :: "string \<times> string \<Rightarrow> string" where
  "ledger_keyOf k = ledger_PREFIX @ json_string_list [fst k, snd k]"

definition ledger_read :: "medium_state \<Rightarrow> string \<times> string \<Rightarrow> (failure, execution_entry option) result" where
  "ledger_read st k =
     (case getDocument st (ledger_keyOf k) of
        None \<Rightarrow> Inr None
      | Some value \<Rightarrow> rbind (decodeExecution value) (\<lambda>e. Inr (Some e)))"

fun event_kind :: "execution_event \<Rightarrow> string" where
  "event_kind EvPrepare = ''prepare''"
| "event_kind EvEffect = ''effect''"
| "event_kind EvConsent = ''consent''"
| "event_kind EvRelease = ''release''"
| "event_kind EvDispatch = ''dispatch''"
| "event_kind EvCancel = ''cancel''"
| "event_kind EvAbort = ''abort''"
| "event_kind EvAck = ''ack''"
| "event_kind EvExpire = ''expire''"
| "event_kind EvRestart = ''restart''"
| "event_kind (EvFreeze _ _) = ''freeze''"
| "event_kind (EvResult _) = ''result''"
| "event_kind (EvBlock _) = ''block''"
| "event_kind (EvRenew _ _) = ''renew''"

text \<open>
  \<open>persist\<close>: one commit that appends a transition record and stores the row, or only appends an
  audit record. \<open>mid\<close> is the id the store minted.
\<close>

definition persist_writes :: "string \<Rightarrow> execution_entry \<Rightarrow> string \<Rightarrow> bool \<Rightarrow> store_write list" where
  "persist_writes mid entry event audit =
     Append mid (if audit then ''execution.audit'' else ''execution.transition'')
       (SObj [(''issuer'', SStr (e_issuer entry)), (''commandId'', SStr (e_commandId entry)),
          (''generation'', SNum (e_generation entry)), (''event'', SStr event),
          (''state'', SStr (state_name (e_progress entry)))])
     # (if audit then [] else [Put (ledger_keyOf (e_issuer entry, e_commandId entry)) (entry_value entry)])"

fun is_settled :: "execution_progress \<Rightarrow> bool" where
  "is_settled (Settled _) = True"
| "is_settled _ = False"

definition ledger_apply :: "(write_point \<Rightarrow> bool) \<Rightarrow> number \<Rightarrow> string \<Rightarrow> medium_state \<Rightarrow> execution_command \<Rightarrow>
    ledger_refusal option \<Rightarrow> (failure, ledger_reply) result \<times> medium_state" where
  "ledger_apply seam ep mid st command guard =
     (case guard of Some refusal \<Rightarrow> (Inr (Refused refusal), st)
      | None \<Rightarrow>
        (case ledger_read st (cmd_issuer command, cmd_commandId command) of
           Inl e \<Rightarrow> (Inl e, st)
         | Inr None \<Rightarrow> (Inr (Refused NotFound), st)
         | Inr (Some entry) \<Rightarrow>
           let reply = transitionExecution entry command; event = cmd_event command in
           case reply of
             Applied entry' \<Rightarrow> commit_then seam st ep (persist_writes mid entry' (event_kind event) False) reply
           | Replayed _ \<Rightarrow>
               if is_settled (e_progress entry) \<and> event_kind event \<in> {''result'', ''cancel''}
               then commit_then seam st ep (persist_writes mid entry (event_kind event) True) reply
               else (Inr reply, st)
           | _ \<Rightarrow> (Inr reply, st)))"

definition sameAdmission :: "execution_entry \<Rightarrow> execution_admission \<Rightarrow> bool" where
  "sameAdmission prior input \<longleftrightarrow>
     e_executor prior = e_executor input \<and> e_workspace prior = e_workspace input \<and>
     e_scope prior = e_scope input \<and> num_eq (e_generation prior) (e_generation input) \<and>
     e_requestDigest prior = e_requestDigest input \<and> num_eq (e_admittedAt prior) (e_admittedAt input) \<and>
     num_eq (e_initialLeaseUntil prior) (e_leaseUntil input) \<and> e_reconcilable prior = e_reconcilable input"

definition admissionInvalid :: "execution_admission \<Rightarrow> bool" where
  "admissionInvalid input \<longleftrightarrow>
     \<not> list_all (\<lambda>s. s \<noteq> [])
        [e_issuer input, e_commandId input, e_executor input, e_workspace input, e_scope input, e_requestDigest input] \<or>
     \<not> is_safe_integer (e_generation input) \<or> num_lt (e_generation input) (Fin 1) \<or>
     \<not> is_finite (e_admittedAt input) \<or> \<not> is_finite (e_leaseUntil input) \<or>
     num_le (e_leaseUntil input) (e_admittedAt input) \<or>
     num_lt (num_add (e_admittedAt input) MAX_EXECUTION_LIFETIME_MS) (e_leaseUntil input)"

definition admittedEntry :: "execution_admission \<Rightarrow> execution_entry" where
  "admittedEntry input = execution_admission.extend input
     (execution_entry.fields (e_leaseUntil input) (Fin 0) False False Admitted)"

definition ledger_admit :: "(write_point \<Rightarrow> bool) \<Rightarrow> number \<Rightarrow> string \<Rightarrow> medium_state \<Rightarrow> execution_admission \<Rightarrow>
    ledger_refusal option \<Rightarrow> (failure, ledger_reply) result \<times> medium_state" where
  "ledger_admit seam ep mid st input guard =
     (case guard of Some refusal \<Rightarrow> (Inr (Refused refusal), st)
      | None \<Rightarrow>
        (case ledger_read st (e_issuer input, e_commandId input) of
           Inl e \<Rightarrow> (Inl e, st)
         | Inr (Some prior) \<Rightarrow>
             (Inr (if sameAdmission prior input then replayed_reply prior else Refused IdentityConflict), st)
         | Inr None \<Rightarrow>
             if admissionInvalid input then (Inr (Refused InvalidAdmission), st)
             else let entry = admittedEntry input
               in commit_then seam st ep (persist_writes mid entry ''admit'' False) (Applied entry)))"

definition ledger_scan :: "medium_state \<Rightarrow> (failure, execution_entry list) result" where
  "ledger_scan st = fold (\<lambda>d acc. rbind acc (\<lambda>es. rbind (decodeExecution (sd_data d)) (\<lambda>e. Inr (es @ [e]))))
     (documentsOf st ledger_PREFIX) (Inr [])"

text \<open>
  \<open>recover\<close>: a restart command of its own executor for every row, each in its own admission. A
  throw ends the loop. \<open>mids\<close> are the ids the store mints for the steps.
\<close>

definition restart_command :: "execution_entry \<Rightarrow> number \<Rightarrow> execution_command" where
  "restart_command entry now =
     \<lparr>cmd_issuer = e_issuer entry, cmd_commandId = e_commandId entry, cmd_generation = e_generation entry,
      cmd_actor = \<lparr>actor_id = e_executor entry, approvedWorkspace = None\<rparr>, cmd_now = now, cmd_event = EvRestart\<rparr>"

fun recover_rows :: "number \<Rightarrow> number \<Rightarrow> (nat \<Rightarrow> string) \<Rightarrow> nat \<Rightarrow> store_document list \<Rightarrow> medium_state \<Rightarrow>
    (failure, unit) result \<times> medium_state" where
  "recover_rows ep now mids i [] st = (Inr (), st)"
| "recover_rows ep now mids i (d # ds) st =
     (case decodeExecution (sd_data d) of Inl e \<Rightarrow> (Inl e, st)
      | Inr entry \<Rightarrow>
        (case ledger_apply (\<lambda>_. False) ep (mids i) st (restart_command entry now) None of
           (Inl e, st') \<Rightarrow> (Inl e, st')
         | (Inr _, st') \<Rightarrow> recover_rows ep now mids (i + 1) ds st'))"

definition ledger_recover :: "number \<Rightarrow> number \<Rightarrow> (nat \<Rightarrow> string) \<Rightarrow> medium_state \<Rightarrow>
    (failure, unit) result \<times> medium_state" where
  "ledger_recover ep now mids st = recover_rows ep now mids 0 (documentsOf st ledger_PREFIX) st"

section \<open>Rows are kept under their own key\<close>

lemma ledger_keyOf_inj: "ledger_keyOf k = ledger_keyOf k' \<longleftrightarrow> k = k'"
  by (auto simp: ledger_keyOf_def json_string_list2_inj prod_eq_iff)

text \<open>The ledger's document cell: the codec's round trip and the keys discharge the interface's laws.\<close>

interpretation ledger_cell: document_cell store_commit getDocument ms_records
  ledger_keyOf entry_value decodeExecution entry_fin ledger_read
  by unfold_locales (simp_all add: ledger_keyOf_inj decode_entry_value ledger_read_def)

definition ledger_inv :: "medium_state \<Rightarrow> bool" where
  "ledger_inv st \<longleftrightarrow>
     (\<forall>k v. getDocument st (ledger_keyOf k) = Some v \<longrightarrow>
        (\<exists>e. v = entry_value e \<and> entry_wf e \<and> (e_issuer e, e_commandId e) = k))"

lemma ledger_read_inv:
  assumes "ledger_inv st"
  shows "ledger_read st k = Inr None \<and> getDocument st (ledger_keyOf k) = None \<or>
    (\<exists>e. ledger_read st k = Inr (Some e) \<and> getDocument st (ledger_keyOf k) = Some (entry_value e) \<and>
       entry_wf e \<and> (e_issuer e, e_commandId e) = k)"
proof (cases "getDocument st (ledger_keyOf k)")
  case (Some v)
  with assms obtain e where "v = entry_value e" "entry_wf e" "(e_issuer e, e_commandId e) = k"
    unfolding ledger_inv_def by blast
  with Some show ?thesis by (auto simp: ledger_read_def decode_entry_value entry_wf_fin)
qed (simp add: ledger_read_def)

lemma commit_row_cases:
  assumes "commit_then seam st ep (persist_writes mid e ev False) r = (x, st')"
  shows "(st' = st \<and> (\<exists>err. x = Inl err)) \<or>
    (getDocument st' = (getDocument st)(ledger_keyOf (e_issuer e, e_commandId e) \<mapsto> entry_value e) \<and>
     (x = Inr r \<or> x = Inl SeamThrow))"
  using commit_then_cases [OF assms] by (auto simp: persist_writes_def)

lemma commit_audit_cases:
  assumes "commit_then seam st ep (persist_writes mid e ev True) r = (x, st')"
  shows "getDocument st' = getDocument st \<and> (x = Inr r \<or> (\<exists>err. x = Inl err))"
  using commit_then_cases [OF assms] by (auto simp: persist_writes_def)

lemma admitted_wf: "\<not> admissionInvalid input \<Longrightarrow> entry_wf (admittedEntry input)"
  by (auto simp: admissionInvalid_def admittedEntry_def entry_wf_def execution_admission.defs execution_entry.defs
      MAX_EXECUTION_LIFETIME_MS_def elim!: is_finiteE)
    (auto dest!: is_safe_integer_finite elim!: is_finiteE)

text \<open>
  Every \<open>apply\<close> either leaves the documents alone or stores exactly the entry the transition
  function gives; an applied reply is only given when the row is stored.
\<close>

lemma ledger_apply_cases:
  assumes "ledger_apply seam ep mid st c guard = (x, st')"
  obtains (same) "getDocument st' = getDocument st" "\<And>e. x \<noteq> Inr (Applied e)"
  | (stored) e e' where "ledger_read st (cmd_issuer c, cmd_commandId c) = Inr (Some e)"
      "transitionExecution e c = Applied e'"
      "getDocument st' = (getDocument st)(ledger_keyOf (e_issuer e', e_commandId e') \<mapsto> entry_value e')"
      "x = Inr (Applied e') \<or> x = Inl SeamThrow"
proof (cases "guard = None \<and> (\<exists>e e'. ledger_read st (cmd_issuer c, cmd_commandId c) = Inr (Some e) \<and>
    transitionExecution e c = Applied e')")
  case False
  then have "getDocument st' = getDocument st \<and> (\<forall>e. x \<noteq> Inr (Applied e))"
    using assms
    by (auto simp: ledger_apply_def Let_def split: option.splits sum.splits ledger_reply.splits if_splits
        dest: commit_audit_cases)
  with same show ?thesis by blast
next
  case True
  then obtain e e' where r: "ledger_read st (cmd_issuer c, cmd_commandId c) = Inr (Some e)"
    and t: "transitionExecution e c = Applied e'" and g: "guard = None" by blast
  then have "commit_then seam st ep (persist_writes mid e' (event_kind (cmd_event c)) False) (Applied e') = (x, st')"
    using assms by (simp add: ledger_apply_def)
  from commit_row_cases [OF this] show ?thesis
  proof (elim disjE conjE exE)
    fix err assume "st' = st" "x = Inl err"
    with same show ?thesis by auto
  qed (use stored r t in auto)
qed

section \<open>Interleavings\<close>

text \<open>
  Calls as they reach the store's admission line, in admission order, from any number of
  executors, issuers and restarts; \<open>LOther\<close> is a batch of another component on the same store.
\<close>

datatype ledger_call =
    LAdmit execution_admission "ledger_refusal option"
  | LApply execution_command "ledger_refusal option"
  | LOther "store_write list"

type_synonym ledger_step_input = "(write_point \<Rightarrow> bool) \<times> number \<times> string \<times> ledger_call"
type_synonym ledger_event = "(string \<times> string) \<times> execution_event \<times> ledger_reply"

fun ledger_step :: "ledger_step_input \<Rightarrow> medium_state \<Rightarrow> ledger_event list \<times> medium_state" where
  "ledger_step (seam, ep, mid, LAdmit input guard) st = ([], snd (ledger_admit seam ep mid st input guard))"
| "ledger_step (seam, ep, mid, LApply c guard) st =
     (case ledger_apply seam ep mid st c guard of
        (Inr reply, st') \<Rightarrow> ([((cmd_issuer c, cmd_commandId c), cmd_event c, reply)], st')
      | (Inl _, st') \<Rightarrow> ([], st'))"
| "ledger_step (seam, ep, mid, LOther ws) st =
     ([], if list_all (foreign_write ledger_PREFIX) ws then fst (snd (commitSync seam st ep ws)) else st)"

abbreviation ledger_trace :: "ledger_step_input list \<Rightarrow> medium_state \<Rightarrow> ledger_event list \<times> medium_state" where
  "ledger_trace \<equiv> run_steps ledger_step"

lemma starts_with_keyOf: "starts_with ledger_PREFIX (ledger_keyOf k)"
  by (simp add: starts_with_def ledger_keyOf_def)

lemma commit_foreign_rows:
  assumes "list_all (foreign_write ledger_PREFIX) ws"
  shows "getDocument (fst (snd (commitSync seam st ep ws))) (ledger_keyOf k) = getDocument st (ledger_keyOf k)"
  by (rule commit_foreign [OF assms starts_with_keyOf])

lemma rows_unchanged:
  assumes "\<And>k. getDocument st' (ledger_keyOf k) = getDocument st (ledger_keyOf k)"
  shows "ledger_inv st' = ledger_inv st" and "ledger_read st' k = ledger_read st k"
  using assms by (simp_all add: ledger_inv_def ledger_read_def)

lemma row_stored:
  assumes "getDocument st' = (getDocument st)(ledger_keyOf (e_issuer e, e_commandId e) \<mapsto> entry_value e)"
    and "entry_wf e"
  shows "ledger_inv st \<Longrightarrow> ledger_inv st'"
    and "ledger_read st' k = (if k = (e_issuer e, e_commandId e) then Inr (Some e) else ledger_read st k)"
proof -
  show "ledger_inv st \<Longrightarrow> ledger_inv st'"
    using assms unfolding ledger_inv_def by (auto simp: ledger_keyOf_inj)
  show "ledger_read st' k = (if k = (e_issuer e, e_commandId e) then Inr (Some e) else ledger_read st k)"
    using assms by (auto simp: ledger_read_def ledger_keyOf_inj decode_entry_value entry_wf_fin)
qed

text \<open>
  What one step does: it leaves every row alone, or it admits a new row, or it stores the entry
  that the transition function gives for the row of the command's key.
\<close>

lemma ledger_step_cases:
  assumes inv: "ledger_inv st" and step: "ledger_step x st = (out, st')"
  obtains (same) "\<And>k. getDocument st' (ledger_keyOf k) = getDocument st (ledger_keyOf k)"
      "\<And>k ev e. (k, ev, Applied e) \<notin> set out"
  | (fresh) e where "entry_wf e" "out = []" "ledger_read st (e_issuer e, e_commandId e) = Inr None"
      "\<not> e_bodyDispatched e"
      "getDocument st' = (getDocument st)(ledger_keyOf (e_issuer e, e_commandId e) \<mapsto> entry_value e)" "e_progress e = Admitted"
  | (moved) c e e' seam ep mid guard where "ledger_read st (e_issuer e', e_commandId e') = Inr (Some e)"
      "entry_wf e" "entry_wf e'" "transitionExecution e c = Applied e'"
      "getDocument st' = (getDocument st)(ledger_keyOf (e_issuer e', e_commandId e') \<mapsto> entry_value e')"
      "out = [] \<or> out = [((e_issuer e', e_commandId e'), cmd_event c, Applied e')]"
      "x = (seam, ep, mid, LApply c guard)" "(cmd_issuer c, cmd_commandId c) = (e_issuer e', e_commandId e')"
proof (cases "(x, st)" rule: ledger_step.cases)
  case (1 seam ep mid input guard st0)
  obtain r st'' where ad: "ledger_admit seam ep mid st input guard = (r, st'')" by fastforce
  with 1 step have st': "st' = st''" "out = []" by auto
  show ?thesis
  proof (cases "guard = None \<and> ledger_read st (e_issuer input, e_commandId input) = Inr None \<and> \<not> admissionInvalid input")
    case True
    let ?e = "admittedEntry input"
    have k: "(e_issuer ?e, e_commandId ?e) = (e_issuer input, e_commandId input)" "\<not> e_bodyDispatched ?e" "e_progress ?e = Admitted"
      by (simp_all add: admittedEntry_def execution_admission.defs execution_entry.defs)
    have "commit_then seam st ep (persist_writes mid ?e ''admit'' False) (Applied ?e) = (r, st'')"
      using True ad by (simp add: ledger_admit_def Let_def)
    from commit_row_cases [OF this] same fresh [of ?e] True k admitted_wf st' show ?thesis by auto
  next
    case False
    then have "st'' = st"
      using ad by (auto simp: ledger_admit_def Let_def split: option.splits sum.splits if_splits)
    with same st' show ?thesis by simp
  qed
next
  case (2 seam ep mid c guard st0)
  obtain r st'' where ap: "ledger_apply seam ep mid st c guard = (r, st'')" by fastforce
  with 2 step have st': "st' = st''"
    and out: "out = (case r of Inr reply \<Rightarrow> [((cmd_issuer c, cmd_commandId c), cmd_event c, reply)] | Inl _ \<Rightarrow> [])"
    by (auto split: sum.splits)
  from ap show ?thesis
  proof (cases rule: ledger_apply_cases)
    case same0: same
    then show ?thesis using st' out by (intro same) (auto split: sum.splits)
  next
    case (stored e e')
    with ledger_read_inv [OF inv, of "(cmd_issuer c, cmd_commandId c)"]
    have e: "entry_wf e" "(e_issuer e, e_commandId e) = (cmd_issuer c, cmd_commandId c)" by auto
    have "same_admission e e'" using stored(2) by (rule transition_same_admission)
    then have k: "(e_issuer e', e_commandId e') = (cmd_issuer c, cmd_commandId c)"
      using e by (simp add: same_admission_def)
    show ?thesis
      by (rule moved [of e' e c seam ep mid guard]) (use stored st' out e k 2 in \<open>auto intro: transition_wf\<close>)
  qed
next
  case (3 seam ep mid ws st0)
  with step have "out = []" and "getDocument st' (ledger_keyOf k) = getDocument st (ledger_keyOf k)" for k
    by (auto simp: commit_foreign_rows split: if_splits)
  then show ?thesis by (intro same) simp_all
qed

lemma ledger_step_inv:
  assumes "ledger_inv st" and "ledger_step x st = (out, st')"
  shows "ledger_inv st'"
  using assms
proof (cases rule: ledger_step_cases)
  case same
  then have "ledger_inv st' = ledger_inv st" by (intro rows_unchanged(1))
  with assms(1) show ?thesis by simp
next
  case (fresh e)
  from row_stored(1) [OF fresh(5,1) assms(1)] show ?thesis .
next
  case (moved c e e' seam ep mid guard)
  from row_stored(1) [OF moved(5,3) assms(1)] show ?thesis .
qed

text \<open>The body of the call with this key has been started.\<close>

definition body_started :: "medium_state \<Rightarrow> string \<times> string \<Rightarrow> bool" where
  "body_started st k \<longleftrightarrow> (\<exists>e. ledger_read st k = Inr (Some e) \<and> e_bodyDispatched e)"

lemma body_started_step:
  assumes "ledger_inv st" "ledger_step x st = (out, st')" "body_started st k"
  shows "body_started st' k"
  using assms(1,2)
proof (cases rule: ledger_step_cases)
  case same
  then have "ledger_read st' k = ledger_read st k" by (intro rows_unchanged(2))
  then show ?thesis using assms(3) by (simp add: body_started_def)
next
  case (fresh e)
  then show ?thesis using assms(3) by (auto simp: body_started_def row_stored(2) [OF fresh(5,1)])
next
  case (moved c e e' seam ep mid guard)
  then show ?thesis using assms(3)
    by (auto simp: body_started_def row_stored(2) [OF moved(5,3)] dest: transition_body_mono)
qed

lemma starts_body_trace_step:
  assumes "ledger_inv st" "ledger_step x st = (out, st')" "(k, ev, reply) \<in> set out" "starts_body (ev, reply)"
  shows "\<not> body_started st k" and "body_started st' k" and "out = [(k, ev, reply)]"
proof -
  obtain e0 where ap: "reply = Applied e0" using assms(4) by (auto simp: starts_body_iff)
  from assms(1,2) have "\<not> body_started st k \<and> body_started st' k \<and> out = [(k, ev, reply)]"
  proof (cases rule: ledger_step_cases)
    case same
    then show ?thesis using assms(3) ap by blast
  next
    case (fresh e)
    then show ?thesis using assms(3) by simp
  next
    case (moved c e e' seam ep mid guard)
    then have k: "k = (e_issuer e', e_commandId e')" "ev = cmd_event c" "reply = Applied e'" "out = [(k, ev, reply)]"
      using assms(3) by auto
    with moved(4) assms(4) have "starts_body (cmd_event c, transitionExecution e c)" by simp
    then have "\<not> e_bodyDispatched e \<and> e_bodyDispatched (entry_after e c)" by (elim starts_body_step) simp
    then have "\<not> e_bodyDispatched e \<and> e_bodyDispatched e'" using moved(4) by (simp add: entry_after_def)
    with k moved(1) show ?thesis by (auto simp: body_started_def row_stored(2) [OF moved(5,3)])
  qed
  then show "\<not> body_started st k" and "body_started st' k" and "out = [(k, ev, reply)]" by auto
qed

abbreviation starts_of :: "string \<times> string \<Rightarrow> ledger_event list \<Rightarrow> ledger_event list" where
  "starts_of k outs \<equiv> filter (\<lambda>(k', ev, reply). k' = k \<and> starts_body (ev, reply)) outs"

lemma starts_of_step:
  assumes "ledger_inv st" "ledger_step x st = (out, st')"
  shows "length (starts_of k out) \<le> 1" and "starts_of k out \<noteq> [] \<Longrightarrow> \<not> body_started st k \<and> body_started st' k"
proof -
  have "length (starts_of k out) \<le> 1 \<and> (starts_of k out \<noteq> [] \<longrightarrow> \<not> body_started st k \<and> body_started st' k)"
  proof (cases "starts_of k out")
    case (Cons o' os)
    then have "o' \<in> set (starts_of k out)" by simp
    then obtain ev reply where "(k, ev, reply) \<in> set out" "starts_body (ev, reply)" by (auto split: prod.splits)
    from starts_body_trace_step [OF assms this] show ?thesis by simp
  qed simp
  then show "length (starts_of k out) \<le> 1" and "starts_of k out \<noteq> [] \<Longrightarrow> \<not> body_started st k \<and> body_started st' k"
    by auto
qed

text \<open>The ledger starts the body of a call at most once.\<close>

interpretation ledger_once: once_per_key ledger_step ledger_inv body_started "\<lambda>k (k', ev, reply). k' = k \<and> starts_body (ev, reply)"
  by unfold_locales (blast intro: ledger_step_inv body_started_step, (use starts_of_step body_started_step in blast)+)

lemma ledger_trace_invariant:
  assumes "ledger_inv st" "ledger_trace xs st = (outs, st')"
  shows "ledger_inv st' \<and> length (starts_of k outs) \<le> (if body_started st k then 0 else 1)"
  using ledger_once.inv_run [OF assms] ledger_once.at_most_once [OF assms] by blast

section \<open>Properties of the ledger\<close>

text \<open>C1. A call's body is started at most once: over any interleaving of admissions and commands
  from any actors, restarts included, with other components writing to the same store and with a
  crash at any write point of any step, at most one answer for a given issuer and command id tells
  an executor to run the body, and none once the row records a started body.\<close>

theorem body_at_most_once:
  assumes "ledger_inv st" and "ledger_trace xs st = (outs, st')"
  shows "ledger_inv st' \<and> length (starts_of k outs) \<le> 1 \<and> (body_started st k \<longrightarrow> starts_of k outs = [])"
  using ledger_trace_invariant [OF assms, of k] by (auto split: if_splits)

text \<open>A walk of one call through the store, with a crash after the dispatch became durable.\<close>

definition sample_store :: medium_state where
  "sample_store = \<lparr>ms_epoch = Fin 1, ms_records = [], ms_documents = []\<rparr>"

definition sample_calls :: "(write_point \<Rightarrow> bool) \<Rightarrow> ledger_step_input list" where
  "sample_calls seam =
     [(\<lambda>_. False, Fin 1, ''i1'', LAdmit \<lparr>e_issuer = ''brain'', e_commandId = ''c1'', e_executor = ''hand'',
         e_workspace = ''w'', e_scope = ''s'', e_generation = Fin 1, e_requestDigest = ''d'', e_admittedAt = Fin 0,
         e_leaseUntil = Fin 1000, e_reconcilable = False\<rparr> None),
      (\<lambda>_. False, Fin 1, ''i2'', LApply (sample_command ''hand'' EvPrepare) None),
      (\<lambda>_. False, Fin 1, ''i3'', LApply (sample_command ''hand'' EvEffect) None),
      (\<lambda>_. False, Fin 1, ''i4'', LApply (sample_command ''hand'' (EvFreeze sample_call False)) None),
      (\<lambda>_. False, Fin 1, ''i5'', LApply (sample_command ''brain'' EvRelease) None),
      (seam, Fin 1, ''i6'', LApply (sample_command ''hand'' EvDispatch) None),
      (\<lambda>_. False, Fin 1, ''i7'', LApply (sample_command ''hand'' EvDispatch) None)]"

lemma sample_store_inv: "ledger_inv sample_store"
  by (simp add: ledger_inv_def sample_store_def getDocument_def)

theorem body_at_most_once_witness:
  "length (starts_of (''brain'', ''c1'') (fst (ledger_trace (sample_calls (\<lambda>_. False)) sample_store))) \<le> 1 \<and>
   ledger_inv (snd (ledger_trace (sample_calls (\<lambda>p. p = PointDurable OpCommit)) sample_store))"
  using body_at_most_once [OF sample_store_inv surjective_pairing, where k = "(''brain'', ''c1'')" and xs = "sample_calls (\<lambda>_. False)"]
    body_at_most_once [OF sample_store_inv surjective_pairing, where xs = "sample_calls (\<lambda>p. p = PointDurable OpCommit)"]
  by blast

text \<open>Stored rows round-trip: a row the ledger stores is read back as the same entry, a value
  that is no row is reported corrupt and never taken for a missing call, and rows of different
  issuers or command ids are stored under different keys.\<close>

theorem ledger_row_roundtrip:
  assumes "entry_wf e" and "commitSync (\<lambda>_. False) st ep (persist_writes mid e ev False) = (Inr r, st', ad)"
  shows "ledger_read st' (e_issuer e, e_commandId e) = Inr (Some e) \<and>
    (k \<noteq> (e_issuer e, e_commandId e) \<longrightarrow> ledger_read st' k = ledger_read st k) \<and>
    (getDocument st (ledger_keyOf k) = Some v \<and> \<not> entry_ok v \<longrightarrow>
      ledger_read st k = Inl (ErrorMessage ''invalid durable execution ledger row''))"
proof (intro conjI impI)
  have c: "store_commit st ep (persist_writes mid e ev False) = Inr (r, st')"
    using assms(2) by (simp add: store_commit_def)
  have w: "written (persist_writes mid e ev False) m = m(ledger_keyOf (e_issuer e, e_commandId e) \<mapsto> entry_value e)" for m
    by (simp add: persist_writes_def)
  show "ledger_read st' (e_issuer e, e_commandId e) = Inr (Some e)"
    by (rule ledger_cell.read_back [OF c w]) (rule entry_wf_fin [OF assms(1)])
  show "ledger_read st' k = ledger_read st k" if "k \<noteq> (e_issuer e, e_commandId e)"
    using that by (rule ledger_cell.read_other [OF c w])
  show "ledger_read st k = Inl (ErrorMessage ''invalid durable execution ledger row'')"
    if "getDocument st (ledger_keyOf k) = Some v \<and> \<not> entry_ok v"
    using that by (simp add: ledger_read_def decodeExecution_def)
qed

theorem ledger_row_roundtrip_witness:
  "\<exists>r st' ad. commitSync (\<lambda>_. False) sample_store (Fin 1) (persist_writes ''i'' sample_entry ''admit'' False) = (Inr r, st', ad)
     \<and> ledger_read st' (''brain'', ''c1'') = Inr (Some sample_entry)"
proof -
  obtain r st' ad where c: "commitSync (\<lambda>_. False) sample_store (Fin 1)
      (persist_writes ''i'' sample_entry ''admit'' False) = (Inr r, st', ad)"
    by (simp add: commitSync_def requireOwner_def sample_store_def persist_writes_def Let_def)
  from ledger_row_roundtrip [OF sample_entry_wf c] c show ?thesis by (auto simp: sample_entry_def)
qed

text \<open>Rows are never dropped and never change identity.\<close>

lemma admission_kept_step:
  assumes "ledger_inv st" "ledger_step x st = (out, st')" "ledger_read st k = Inr (Some e)"
  shows "\<exists>e'. ledger_read st' k = Inr (Some e') \<and> same_admission e e'"
  using assms(1,2)
proof (cases rule: ledger_step_cases)
  case same
  then have "ledger_read st' k = ledger_read st k" by (intro rows_unchanged(2))
  then show ?thesis using assms(3) by (simp add: same_admission_def)
next
  case (fresh e1)
  then show ?thesis using assms(3) by (auto simp: row_stored(2) [OF fresh(5,1)] same_admission_def)
next
  case (moved c e1 e' seam ep mid guard)
  then show ?thesis using assms(3) transition_same_admission [OF moved(4)]
    by (auto simp: row_stored(2) [OF moved(5,3)] same_admission_def)
qed

lemma admission_kept:
  assumes "ledger_inv st" "ledger_trace xs st = (outs, st')" "ledger_read st k = Inr (Some e)"
  shows "\<exists>e'. ledger_read st' k = Inr (Some e') \<and> same_admission e e'"
  using assms
proof (induction xs arbitrary: st outs e)
  case Nil
  then show ?case by (auto simp: same_admission_def)
next
  case (Cons x xs)
  obtain out st1 where s: "ledger_step x st = (out, st1)" by fastforce
  obtain outs1 where t: "ledger_trace xs st1 = (outs1, st')"
    using Cons.prems(2) s by (auto simp: Let_def split: prod.splits)
  obtain e1 where e1: "ledger_read st1 k = Inr (Some e1)" "same_admission e e1"
    using admission_kept_step [OF Cons.prems(1) s Cons.prems(3)] by blast
  from Cons.IH [OF ledger_step_inv [OF Cons.prems(1) s] t e1(1)] e1(2) show ?case
    by (auto simp: same_admission_def)
qed

lemma sameAdmission_admitted:
  assumes "\<not> admissionInvalid input" "same_admission (admittedEntry input) prior"
  shows "sameAdmission prior input"
  using assms
  by (auto simp: sameAdmission_def same_admission_def admittedEntry_def admissionInvalid_def number_eq_iff
      execution_admission.defs execution_entry.defs elim!: is_finiteE dest!: is_safe_integer_finite)

text \<open>Admission is idempotent: once a call is admitted, admitting it again at any later time,
  however the row has moved on and whatever crashed in between, changes nothing and replays its row
  (or says that its result expired), and a different request under the same key is refused without
  touching the store.\<close>

theorem admission_idempotent:
  assumes "ledger_inv st"
    and "ledger_read st (e_issuer input, e_commandId input) = Inr None"
    and "ledger_admit (\<lambda>_. False) ep mid st input None = (Inr (Applied e), st1)"
    and "ledger_trace xs st1 = (outs, st2)"
  shows "\<exists>row. ledger_read st2 (e_issuer input, e_commandId input) = Inr (Some row) \<and>
      ledger_admit seam ep' mid' st2 input None = (Inr (replayed_reply row), st2) \<and>
      (\<forall>other. e_issuer other = e_issuer input \<and> e_commandId other = e_commandId input \<and>
         e_requestDigest other \<noteq> e_requestDigest input \<longrightarrow>
         ledger_admit seam ep' mid' st2 other None = (Inr (Refused IdentityConflict), st2))"
proof -
  have valid: "\<not> admissionInvalid input" and e: "e = admittedEntry input"
    using assms(2,3) by (auto simp: ledger_admit_def commit_then_def Let_def split: if_splits prod.splits sum.splits)
  have "ledger_step (\<lambda>_. False, ep, mid, LAdmit input None) st = ([], st1)" using assms(3) by simp
  from ledger_step_inv [OF assms(1) this] have inv1: "ledger_inv st1" .
  have "commit_then (\<lambda>_. False) st ep (persist_writes mid e ''admit'' False) (Applied e) = (Inr (Applied e), st1)"
    using assms(2,3) valid e by (simp add: ledger_admit_def Let_def)
  from commit_row_cases [OF this]
  have "getDocument st1 = (getDocument st)(ledger_keyOf (e_issuer e, e_commandId e) \<mapsto> entry_value e)" by auto
  moreover have k: "(e_issuer e, e_commandId e) = (e_issuer input, e_commandId input)" "entry_wf e"
    using admitted_wf [OF valid] e by (simp_all add: admittedEntry_def execution_admission.defs execution_entry.defs)
  ultimately have "ledger_read st1 (e_issuer input, e_commandId input) = Inr (Some e)"
    using row_stored(2) [of st1 st e "(e_issuer input, e_commandId input)"] by simp
  from admission_kept [OF inv1 assms(4) this] obtain row where
    row: "ledger_read st2 (e_issuer input, e_commandId input) = Inr (Some row)" "same_admission e row" by blast
  have "sameAdmission row input" using sameAdmission_admitted [OF valid] row(2) e by simp
  with row(1) show ?thesis
    by (auto simp: ledger_admit_def sameAdmission_def)
qed

theorem admission_idempotent_witness:
  "\<exists>input e st1 row. ledger_admit (\<lambda>_. False) (Fin 1) ''i1'' sample_store input None = (Inr (Applied e), st1) \<and>
     ledger_admit (\<lambda>_. False) (Fin 1) ''i9'' (snd (ledger_trace [] st1)) input None =
       (Inr (replayed_reply row), snd (ledger_trace [] st1))"
proof -
  let ?in = "\<lparr>e_issuer = ''brain'', e_commandId = ''c1'', e_executor = ''hand'',
         e_workspace = ''w'', e_scope = ''s'', e_generation = Fin 1, e_requestDigest = ''d'', e_admittedAt = Fin 0,
         e_leaseUntil = Fin 1000, e_reconcilable = False\<rparr>"
  have empty: "ledger_read sample_store (e_issuer ?in, e_commandId ?in) = Inr None"
    by (simp add: ledger_read_def getDocument_def sample_store_def)
  have "\<exists>e st1. ledger_admit (\<lambda>_. False) (Fin 1) ''i1'' sample_store ?in None = (Inr (Applied e), st1)"
    using empty by (simp add: ledger_admit_def admissionInvalid_def max_safe_integer_def
        MAX_EXECUTION_LIFETIME_MS_def Let_def commit_then_def commitSync_def requireOwner_def sample_store_def
        persist_writes_def)
  then obtain e st1 where ad: "ledger_admit (\<lambda>_. False) (Fin 1) ''i1'' sample_store ?in None = (Inr (Applied e), st1)"
    by blast
  obtain outs st2 where tr: "ledger_trace [] st1 = (outs, st2)" by fastforce
  from admission_idempotent [OF sample_store_inv empty ad tr, of "\<lambda>_. False" "Fin 1" "''i9''"] ad tr
  show ?thesis by auto
qed

end
