(* ===== verification/Reliable_Transport.thy ===== *)
theory Reliable_Transport
  imports Senpi_Prelude "HOL-Library.Sublist"
begin

text \<open>
  The reference transport of transport/reliable-transport.ts under the contract of
  transport/transport.ts: named lanes with send windows, round-robin transmission, cumulative
  acknowledgements after the handler settles, and go-back-N on re-attach or timeout. One
  endpoint is a \<open>side\<close>; every entry point of the source is an operation on it that returns
  its effects in order. A link is two sides and a carrier that may lose, delay, repeat and
  reorder every message ever handed to it.

  A connection is modelled by the number of messages it takes before it refuses one; a
  refusal stops all sending until \<open>writable()\<close> or a new connection, which choose that number
  anew, so every pattern of refusals is covered. Timers may fire at any moment while armed.
  The carrier and the handlers call back in later turns.
\<close>

section \<open>State\<close>

datatype 'p packet = PData string nat 'p | PAck string nat

text \<open>A message as it arrives, before \<open>isReferencePacket\<close>: no object, or an object's four fields.\<close>

datatype 'p raw_message =
    RawOther
  | RawObject (raw_kind: "string option") (raw_lane: "string option") (raw_seq: "number option") (raw_payload: "'p option")

record 'p out_lane =
  ol_nextSeq :: nat
  ol_acked :: nat
  ol_transmitted :: nat
  ol_outbox :: "(nat \<times> 'p) list"
  ol_waiters :: "(nat \<times> 'p) list"
  ol_armed :: bool

record 'p in_lane =
  il_received :: nat
  il_delivered :: nat
  il_busy :: bool
  il_inbox :: "'p list"

text \<open>
  \<open>order\<close> lists the out lanes by creation, as the insertion order of the \<open>outLanes\<close> map does, so
  it is read off that map. A waiter is the id of its promise and its payload.
\<close>

record 'p side =
  outLanes :: "(string \<times> 'p out_lane) list"
  inLanes :: "(string \<times> 'p in_lane) list"
  ackDue :: "string list"
  nextLane :: nat
  connection :: "nat option"
  writable :: bool
  closed :: bool
  handlerSet :: bool

datatype 'p effect = Sent "'p packet" | Handle string 'p | Resolve nat | Reject nat | CloseConnection

definition createReliableTransport :: "'p side" where
  "createReliableTransport = \<lparr>outLanes = [], inLanes = [], ackDue = [], nextLane = 0, connection = None,
     writable = False, closed = False, handlerSet = False\<rparr>"

definition fresh_out :: "'p out_lane" where
  "fresh_out = \<lparr>ol_nextSeq = 1, ol_acked = 0, ol_transmitted = 0, ol_outbox = [], ol_waiters = [], ol_armed = False\<rparr>"

definition fresh_in :: "'p in_lane" where
  "fresh_in = \<lparr>il_received = 0, il_delivered = 0, il_busy = False, il_inbox = []\<rparr>"

definition out_of :: "'p side \<Rightarrow> string \<Rightarrow> 'p out_lane" where
  "out_of s lane = (case map_of (outLanes s) lane of Some st \<Rightarrow> st | None \<Rightarrow> fresh_out)"

definition in_of :: "'p side \<Rightarrow> string \<Rightarrow> 'p in_lane" where
  "in_of s lane = (case map_of (inLanes s) lane of Some st \<Rightarrow> st | None \<Rightarrow> fresh_in)"

definition put_out :: "string \<Rightarrow> 'p out_lane \<Rightarrow> 'p side \<Rightarrow> 'p side" where
  "put_out lane st s = s\<lparr>outLanes := obj_put lane st (outLanes s)\<rparr>"

definition put_in :: "string \<Rightarrow> 'p in_lane \<Rightarrow> 'p side \<Rightarrow> 'p side" where
  "put_in lane st s = s\<lparr>inLanes := obj_put lane st (inLanes s)\<rparr>"

section \<open>Operations\<close>

text \<open>\<open>isReferencePacket\<close>, with the packet it admits.\<close>

definition isReferencePacket :: "'p raw_message \<Rightarrow> 'p packet option" where
  "isReferencePacket m =
     (case m of RawOther \<Rightarrow> None
      | RawObject kind lane seq payload \<Rightarrow>
        (case (lane, seq) of
           (Some l, Some n) \<Rightarrow>
             if \<not> is_safe_integer n \<or> num_lt n (Fin 0) then None
             else let k = (case n of Fin q \<Rightarrow> nat \<lfloor>q\<rfloor> | _ \<Rightarrow> 0)
               in if kind = Some ''ack'' then Some (PAck l k)
                  else if kind = Some ''data'' then map_option (PData l k) payload
                  else None
         | _ \<Rightarrow> None))"

definition ensure_out :: "string \<Rightarrow> 'p side \<Rightarrow> 'p side" where
  "ensure_out lane s = put_out lane (out_of s lane) s"

definition ensure_in :: "string \<Rightarrow> 'p side \<Rightarrow> 'p side" where
  "ensure_in lane s = put_in lane (in_of s lane) s"

definition ack_add :: "string \<Rightarrow> 'p side \<Rightarrow> 'p side" where
  "ack_add lane s = (if lane \<in> set (ackDue s) then s else s\<lparr>ackDue := ackDue s @ [lane]\<rparr>)"

text \<open>\<open>admit\<close>: the loop over the waiting senders; \<open>nextSeq - 1 - acked < window\<close> without the subtraction.\<close>

fun admit_waiters :: "nat \<Rightarrow> (nat \<times> 'p) list \<Rightarrow> 'p out_lane \<Rightarrow> 'p effect list \<times> 'p out_lane" where
  "admit_waiters window [] st = ([], st\<lparr>ol_waiters := []\<rparr>)"
| "admit_waiters window ((w, payload) # ws) st =
     (if ol_nextSeq st < window + 1 + ol_acked st
      then let (es, st') = admit_waiters window ws
                 (st\<lparr>ol_outbox := obj_put (ol_nextSeq st) payload (ol_outbox st), ol_nextSeq := ol_nextSeq st + 1\<rparr>)
        in (Resolve w # es, st')
      else ([], st\<lparr>ol_waiters := (w, payload) # ws\<rparr>))"

definition admit_lane :: "nat \<Rightarrow> 'p out_lane \<Rightarrow> 'p effect list \<times> 'p out_lane" where
  "admit_lane window st = admit_waiters window (ol_waiters st) st"

definition emit :: "'p packet \<Rightarrow> 'p side \<Rightarrow> bool \<times> 'p effect list \<times> 'p side" where
  "emit packet s =
     (case connection s of None \<Rightarrow> (False, [], s)
      | Some room \<Rightarrow>
        if \<not> writable s then (False, [], s)
        else if 0 < room then (True, [Sent packet], s\<lparr>connection := Some (room - 1)\<rparr>)
        else (False, [], s\<lparr>writable := False\<rparr>))"

definition disarmAll :: "'p side \<Rightarrow> 'p side" where
  "disarmAll s = s\<lparr>outLanes := map (\<lambda>(l, st). (l, st\<lparr>ol_armed := False\<rparr>)) (outLanes s)\<rparr>"

definition arm :: "'p side \<Rightarrow> 'p side" where
  "arm s = (if connection s = None then s
     else s\<lparr>outLanes := map (\<lambda>(l, st). (l, if ol_armed st \<or> ol_outbox st = [] then st else st\<lparr>ol_armed := True\<rparr>))
       (outLanes s)\<rparr>)"

fun pump_acks :: "string list \<Rightarrow> 'p side \<Rightarrow> bool \<times> 'p effect list \<times> 'p side" where
  "pump_acks [] s = (True, [], s)"
| "pump_acks (lane # lanes) s =
     (case emit (PAck lane (il_delivered (in_of s lane))) (ensure_in lane s) of
        (False, es, s') \<Rightarrow> (False, es, s')
      | (True, es, s') \<Rightarrow>
        (case pump_acks lanes (s'\<lparr>ackDue := filter (\<lambda>l. l \<noteq> lane) (ackDue s')\<rparr>) of
           (ok, es', s'') \<Rightarrow> (ok, es @ es', s'')))"

text \<open>The transmission loop ends: every round sends a frame it had not sent or comes closer to a full idle turn.\<close>

definition unsent :: "'p side \<Rightarrow> nat" where
  "unsent s = sum_list (map (\<lambda>(l, st). length (filter (\<lambda>(k, _). ol_transmitted st < k) (ol_outbox st))) (outLanes s))"

lemma unsent_lane_less:
  assumes "map_of outbox (Suc t) = Some p"
  shows "length (filter (\<lambda>(k, _). Suc t < k) outbox) < length (filter (\<lambda>(k, _). t < k) outbox)"
proof -
  have "filter (\<lambda>(k, _). Suc t < k) outbox = filter (\<lambda>(k, _). Suc t < k) (filter (\<lambda>(k, _). t < k) outbox)"
    by (auto intro!: filter_cong)
  moreover have "(Suc t, p) \<in> set (filter (\<lambda>(k, _). t < k) outbox)" using map_of_SomeD [OF assms] by simp
  ultimately show ?thesis using length_filter_less [of "(Suc t, p)" "filter (\<lambda>(k, _). t < k) outbox" "\<lambda>(k, _). Suc t < k"]
    by simp
qed

lemma sum_list_obj_put:
  fixes f :: "'a \<Rightarrow> nat"
  shows "map_of xs k = Some old \<Longrightarrow> f new < f old \<Longrightarrow>
    sum_list (map (\<lambda>(l, st). f st) (obj_put k new xs)) < sum_list (map (\<lambda>(l, st). f st) xs)"
  by (induction k new xs rule: obj_put.induct) (auto split: if_splits)

lemma unsent_sent:
  assumes "map_of (outLanes s) lane = Some st" "map_of (ol_outbox st) (ol_transmitted st + 1) = Some p"
  shows "unsent (put_out lane (st\<lparr>ol_transmitted := ol_transmitted st + 1\<rparr>) s) < unsent s"
  unfolding unsent_def put_out_def using assms(1)
  by (simp, intro sum_list_obj_put [where f = "\<lambda>st. length (filter (\<lambda>(k, _). ol_transmitted st < k) (ol_outbox st))"])
    (use assms(2) in \<open>auto intro: unsent_lane_less\<close>)

lemma emit_unsent [simp]: "emit packet s = (ok, es, s') \<Longrightarrow> unsent s' = unsent s \<and> outLanes s' = outLanes s \<and> nextLane s' = nextLane s"
  by (auto simp: emit_def unsent_def split: option.splits if_splits)

lemma map_of_key_nth: "xs \<noteq> [] \<Longrightarrow> \<exists>v. map_of xs (fst (xs ! (n mod length xs))) = Some v"
  by (metis length_greater_0_conv map_of_eq_None_iff mod_less_divisor not_None_eq nth_mem image_eqI list.set_map)

lemma order_lane:
  assumes "outLanes s \<noteq> []"
  shows "map_of (outLanes s) (fst (outLanes s ! (nextLane s mod length (outLanes s)))) =
    Some (out_of s (fst (outLanes s ! (nextLane s mod length (outLanes s)))))"
  using map_of_key_nth [OF assms, of "nextLane s"] by (auto simp: out_of_def)

lemma unsent_next [simp]: "unsent (s\<lparr>nextLane := n\<rparr>) = unsent s"
  by (simp add: unsent_def)

function pump_lanes :: "nat \<Rightarrow> 'p side \<Rightarrow> 'p effect list \<times> 'p side" where
  "pump_lanes idle s =
     (if idle < length (outLanes s)
      then let lane = fst (outLanes s ! (nextLane s mod length (outLanes s)));
             st = out_of s lane; seq = ol_transmitted st + 1
        in case map_of (ol_outbox st) seq of
             None \<Rightarrow> pump_lanes (idle + 1) (s\<lparr>nextLane := nextLane s + 1\<rparr>)
           | Some payload \<Rightarrow>
             (case emit (PData lane seq payload) s of
                (False, es, s') \<Rightarrow> (es, s')
              | (True, es, s') \<Rightarrow>
                (case pump_lanes 0 ((put_out lane (st\<lparr>ol_transmitted := seq\<rparr>) s')\<lparr>nextLane := nextLane s + 1\<rparr>) of
                   (es', s'') \<Rightarrow> (es @ es', s'')))
      else ([], arm s))"
  by pat_completeness auto

termination pump_lanes
proof (relation "inv_image (less_than <*lex*> less_than) (\<lambda>(idle, s). (unsent s, length (outLanes s) - idle))", goal_cases)
  case (3 idle s lane st seq payload ok y es s')
  then have "outLanes s \<noteq> []" by auto
  note order_lane [OF this]
  moreover have "unsent s' = unsent s \<and> outLanes s' = outLanes s" using 3 emit_unsent by metis
  ultimately have "unsent (put_out lane (st\<lparr>ol_transmitted := ol_transmitted st + 1\<rparr>) s') < unsent s"
    using unsent_sent [of s' lane st payload] 3 by simp
  with 3 show ?case by simp
qed auto

declare pump_lanes.simps [simp del]

definition pump :: "'p side \<Rightarrow> 'p effect list \<times> 'p side" where
  "pump s =
     (if connection s = None \<or> \<not> writable s then ([], s)
      else case pump_acks (ackDue s) s of
        (False, es, s') \<Rightarrow> (es, s')
      | (True, es, s') \<Rightarrow> (case pump_lanes 0 s' of (es', s'') \<Rightarrow> (es @ es', s'')))"

text \<open>
  \<open>deliver\<close> runs up to the \<open>await\<close> of the handler's promise: \<open>next_frame\<close> is the head of its loop
  and \<open>handler_settled\<close> what follows when the promise settles, by a value or by a caught error.
\<close>

definition next_frame :: "string \<Rightarrow> 'p side \<Rightarrow> 'p effect list \<times> 'p side" where
  "next_frame lane s =
     (let st = in_of s lane in
      case il_inbox st of
        [] \<Rightarrow> ([], put_in lane (st\<lparr>il_busy := False\<rparr>) s)
      | payload # rest \<Rightarrow>
          if closed s then ([], put_in lane (st\<lparr>il_inbox := rest, il_busy := False\<rparr>) s)
          else ([Handle lane payload], put_in lane (st\<lparr>il_inbox := rest, il_busy := True\<rparr>) s))"

definition deliver :: "string \<Rightarrow> 'p side \<Rightarrow> 'p effect list \<times> 'p side" where
  "deliver lane s = (if il_busy (in_of s lane) \<or> \<not> handlerSet s then ([], s) else next_frame lane s)"

definition handler_settled :: "string \<Rightarrow> 'p side \<Rightarrow> 'p effect list \<times> 'p side" where
  "handler_settled lane s =
     (let st = in_of s lane in
      if \<not> il_busy st then ([], s)
      else let (es, s1) = pump (ack_add lane (put_in lane (st\<lparr>il_delivered := il_delivered st + 1\<rparr>) s));
               (es', s2) = next_frame lane s1
        in (es @ es', s2))"

definition onData :: "string \<Rightarrow> nat \<Rightarrow> 'p \<Rightarrow> 'p side \<Rightarrow> 'p effect list \<times> 'p side" where
  "onData lane seq payload s =
     (let st = in_of s lane;
          (es, s1) = (if seq = il_received st + 1
            then deliver lane (put_in lane (st\<lparr>il_received := seq, il_inbox := il_inbox st @ [payload]\<rparr>) s)
            else ([], ack_add lane (ensure_in lane s)));
          (es', s2) = pump s1
      in (es @ es', s2))"

definition onAck :: "nat \<Rightarrow> string \<Rightarrow> nat \<Rightarrow> 'p side \<Rightarrow> 'p effect list \<times> 'p side" where
  "onAck window lane seq s =
     (case map_of (outLanes s) lane of
        None \<Rightarrow> ([], s)
      | Some st \<Rightarrow>
        if seq \<le> ol_acked st \<or> ol_nextSeq st \<le> seq then ([], s)
        else let (es, st') = admit_lane window
                   (st\<lparr>ol_outbox := filter (\<lambda>(k, _). \<not> (ol_acked st < k \<and> k \<le> seq)) (ol_outbox st), ol_acked := seq,
                       ol_transmitted := max (ol_transmitted st) seq, ol_armed := False\<rparr>);
                 (es', s') = pump (put_out lane st' s)
          in (es @ es', s'))"

definition rt_send :: "nat \<Rightarrow> nat \<Rightarrow> string \<Rightarrow> 'p \<Rightarrow> 'p side \<Rightarrow> 'p effect list \<times> 'p side" where
  "rt_send window w lane payload s =
     (if closed s then ([Reject w], s)
      else let st = out_of s lane;
               (es, st') = admit_lane window (st\<lparr>ol_waiters := ol_waiters st @ [(w, payload)]\<rparr>);
               (es', s') = pump (put_out lane st' s)
        in (es @ es', s'))"

fun deliver_all :: "string list \<Rightarrow> 'p side \<Rightarrow> 'p effect list \<times> 'p side" where
  "deliver_all [] s = ([], s)"
| "deliver_all (lane # lanes) s =
     (let (es, s1) = deliver lane s; (es', s2) = deliver_all lanes s1 in (es @ es', s2))"

definition onFrame :: "'p side \<Rightarrow> 'p effect list \<times> 'p side" where
  "onFrame s = deliver_all (obj_keys (inLanes s)) (s\<lparr>handlerSet := True\<rparr>)"

definition inFlight :: "string \<Rightarrow> 'p side \<Rightarrow> nat" where
  "inFlight lane s = (case map_of (outLanes s) lane of None \<Rightarrow> 0 | Some st \<Rightarrow> ol_nextSeq st - 1 - ol_acked st)"

definition rt_close :: "'p side \<Rightarrow> 'p effect list \<times> 'p side" where
  "rt_close s =
     (if closed s then ([], s)
      else let s1 = disarmAll (s\<lparr>closed := True\<rparr>)
        in (concat (map (\<lambda>(l, st). map (\<lambda>(w, _). Reject w) (ol_waiters st)) (outLanes s1)) @
              (if connection s = None then [] else [CloseConnection]),
            s1\<lparr>outLanes := map (\<lambda>(l, st). (l, st\<lparr>ol_waiters := []\<rparr>)) (outLanes s1), connection := None\<rparr>))"

definition rt_attached :: "nat \<Rightarrow> 'p side \<Rightarrow> 'p effect list \<times> 'p side" where
  "rt_attached room s =
     (if closed s then ([CloseConnection], s)
      else let s1 = s\<lparr>connection := Some room, writable := True,
                      outLanes := map (\<lambda>(l, st). (l, st\<lparr>ol_transmitted := ol_acked st\<rparr>)) (outLanes s)\<rparr>;
               s2 = fold (\<lambda>(l, st) t. if 0 < il_delivered st then ack_add l t else t) (inLanes s1) s1
        in pump (disarmAll s2))"

definition rt_message :: "nat \<Rightarrow> 'p raw_message \<Rightarrow> 'p side \<Rightarrow> 'p effect list \<times> 'p side" where
  "rt_message window m s =
     (case isReferencePacket m of
        None \<Rightarrow> ([], s)
      | Some (PData lane seq payload) \<Rightarrow> onData lane seq payload s
      | Some (PAck lane seq) \<Rightarrow> onAck window lane seq s)"

definition rt_writable :: "nat \<Rightarrow> 'p side \<Rightarrow> 'p effect list \<times> 'p side" where
  "rt_writable room s =
     (if connection s = None then ([], s) else pump (s\<lparr>connection := Some room, writable := True\<rparr>))"

definition rt_detached :: "'p side \<Rightarrow> 'p effect list \<times> 'p side" where
  "rt_detached s = ([], disarmAll (s\<lparr>connection := None, writable := False\<rparr>))"

text \<open>The callback of a lane's retransmit timer.\<close>

definition retransmit_fired :: "string \<Rightarrow> 'p side \<Rightarrow> 'p effect list \<times> 'p side" where
  "retransmit_fired lane s =
     (case map_of (outLanes s) lane of
        None \<Rightarrow> ([], s)
      | Some st \<Rightarrow> if \<not> ol_armed st then ([], s)
          else pump (put_out lane (st\<lparr>ol_armed := False, ol_transmitted := ol_acked st\<rparr>) s))"

datatype 'p transport_op =
    TSend nat string 'p | TOnFrame | TSettled string | TTimer string | TClose | TAttached nat
  | TMessage "'p raw_message" | TWritable nat | TDetached

fun transport_run :: "nat \<Rightarrow> 'p transport_op \<Rightarrow> 'p side \<Rightarrow> 'p effect list \<times> 'p side" where
  "transport_run window (TSend w lane payload) s = rt_send window w lane payload s"
| "transport_run window TOnFrame s = onFrame s"
| "transport_run window (TSettled lane) s = handler_settled lane s"
| "transport_run window (TTimer lane) s = retransmit_fired lane s"
| "transport_run window TClose s = rt_close s"
| "transport_run window (TAttached room) s = rt_attached room s"
| "transport_run window (TMessage m) s = rt_message window m s"
| "transport_run window (TWritable room) s = rt_writable room s"
| "transport_run window TDetached s = rt_detached s"

section \<open>What the pump does\<close>

text \<open>
  The part of a side the protocol's correctness rests on: everything but what was transmitted,
  the timers, the connection and the acknowledgements that are due. The pump leaves it alone.
\<close>

definition lane_core :: "'p out_lane \<Rightarrow> nat \<times> nat \<times> (nat \<times> 'p) list \<times> (nat \<times> 'p) list" where
  "lane_core st = (ol_nextSeq st, ol_acked st, ol_outbox st, ol_waiters st)"

definition core :: "'p side \<Rightarrow> (string \<Rightarrow> (nat \<times> nat \<times> (nat \<times> 'p) list \<times> (nat \<times> 'p) list) \<times> 'p in_lane) \<times> bool \<times> bool" where
  "core s = ((\<lambda>l. (lane_core (out_of s l), in_of s l)), closed s, handlerSet s)"

definition same_core :: "'p side \<Rightarrow> 'p side \<Rightarrow> bool" where
  "same_core s s' \<longleftrightarrow> core s' = core s"

lemma same_coreI:
  "(\<And>l. lane_core (out_of s' l) = lane_core (out_of s l)) \<Longrightarrow> (\<And>l. in_of s' l = in_of s l) \<Longrightarrow>
   closed s' = closed s \<Longrightarrow> handlerSet s' = handlerSet s \<Longrightarrow> same_core s s'"
  by (simp add: same_core_def core_def fun_eq_iff)

lemma same_coreD:
  assumes "same_core s s'"
  shows "ol_nextSeq (out_of s' l) = ol_nextSeq (out_of s l)" "ol_acked (out_of s' l) = ol_acked (out_of s l)"
    "ol_outbox (out_of s' l) = ol_outbox (out_of s l)" "ol_waiters (out_of s' l) = ol_waiters (out_of s l)"
    "in_of s' l = in_of s l" "closed s' = closed s" "handlerSet s' = handlerSet s"
  using assms by (auto simp: same_core_def core_def fun_eq_iff lane_core_def)

fun sound_packet :: "'p side \<Rightarrow> 'p packet \<Rightarrow> bool" where
  "sound_packet s (PData l k p) = (map_of (ol_outbox (out_of s l)) k = Some p)"
| "sound_packet s (PAck l k) = (k = il_delivered (in_of s l))"

abbreviation pump_only :: "'p side \<Rightarrow> 'p effect list \<Rightarrow> 'p side \<Rightarrow> bool" where
  "pump_only s es s' \<equiv> same_core s s' \<and> (\<forall>e \<in> set es. \<exists>p. e = Sent p \<and> sound_packet s p)"

lemma same_core_refl [simp]: "same_core s s"
  by (simp add: same_core_def)

lemma same_core_trans [trans]: "same_core s s1 \<Longrightarrow> same_core s1 s2 \<Longrightarrow> same_core s s2"
  by (simp add: same_core_def)

lemma same_core_packet: "same_core s s' \<Longrightarrow> sound_packet s' p = sound_packet s p"
  by (cases p) (simp_all add: same_coreD)

lemma out_of_put [simp]: "out_of (put_out lane st s) l = (if l = lane then st else out_of s l)"
  "in_of (put_out lane st s) l = in_of s l"
  by (simp_all add: out_of_def in_of_def put_out_def)

lemma in_of_put [simp]: "in_of (put_in lane st s) l = (if l = lane then st else in_of s l)"
  "out_of (put_in lane st s) l = out_of s l"
  by (simp_all add: out_of_def in_of_def put_in_def)

lemma put_fields [simp]:
  "closed (put_out lane st s) = closed s" "handlerSet (put_out lane st s) = handlerSet s"
  "closed (put_in lane sti s) = closed s" "handlerSet (put_in lane sti s) = handlerSet s"
  by (simp_all add: put_out_def put_in_def)

lemma lanes_of_update [simp]:
  "out_of (s\<lparr>ackDue := a\<rparr>) l = out_of s l" "in_of (s\<lparr>ackDue := a\<rparr>) l = in_of s l"
  "out_of (s\<lparr>nextLane := n\<rparr>) l = out_of s l" "in_of (s\<lparr>nextLane := n\<rparr>) l = in_of s l"
  "out_of (s\<lparr>connection := c\<rparr>) l = out_of s l" "in_of (s\<lparr>connection := c\<rparr>) l = in_of s l"
  "out_of (s\<lparr>writable := w\<rparr>) l = out_of s l" "in_of (s\<lparr>writable := w\<rparr>) l = in_of s l"
  "out_of (s\<lparr>closed := b\<rparr>) l = out_of s l" "in_of (s\<lparr>closed := b\<rparr>) l = in_of s l"
  "out_of (s\<lparr>handlerSet := b\<rparr>) l = out_of s l" "in_of (s\<lparr>handlerSet := b\<rparr>) l = in_of s l"
  "in_of (s\<lparr>outLanes := os\<rparr>) l = in_of s l"
  by (simp_all add: out_of_def in_of_def)

lemma out_of_map:
  "out_of (s\<lparr>outLanes := map (\<lambda>(l, st). (l, f st)) (outLanes s)\<rparr>) l =
   (case map_of (outLanes s) l of Some st \<Rightarrow> f st | None \<Rightarrow> fresh_out)"
  by (simp add: out_of_def map_of_map_snd split: option.splits)

lemma same_core_map:
  assumes "\<And>st. lane_core (f st) = lane_core st"
  shows "same_core s (s\<lparr>outLanes := map (\<lambda>(l, st). (l, f st)) (outLanes s)\<rparr>)"
  using assms by (intro same_coreI) (auto simp: out_of_map, simp add: out_of_def split: option.splits)

lemma same_core_disarmAll: "same_core s (disarmAll s)"
  unfolding disarmAll_def by (rule same_core_map) (simp add: lane_core_def)

lemma same_core_arm: "same_core s (arm s)"
  unfolding arm_def by (auto intro!: same_core_map simp: lane_core_def)

lemma same_core_fields [simp]:
  "same_core s (s\<lparr>ackDue := a\<rparr>)" "same_core s (s\<lparr>nextLane := n\<rparr>)" "same_core s (s\<lparr>connection := c\<rparr>)"
  "same_core s (s\<lparr>writable := w\<rparr>)"
  by (auto intro!: same_coreI)

lemma same_core_ack_add: "same_core s (ack_add lane s)"
  by (simp add: ack_add_def)

lemma same_core_ensure_in: "same_core s (ensure_in lane s)"
  by (auto intro!: same_coreI simp: ensure_in_def)

lemma same_core_emit: "emit packet s = (ok, es, s') \<Longrightarrow> same_core s s' \<and> set es \<subseteq> {Sent packet}"
  by (cases "connection s"; cases "writable s"; cases "the (connection s)") (simp_all add: emit_def, auto)

lemma pump_acks_only: "pump_acks lanes s = (ok, es, s') \<Longrightarrow> pump_only s es s'"
proof (induction lanes s arbitrary: ok es s' rule: pump_acks.induct)
  case (2 lane lanes s)
  obtain ok1 es1 s1 where e: "emit (PAck lane (il_delivered (in_of s lane))) (ensure_in lane s) = (ok1, es1, s1)"
    by (metis prod_cases3)
  have c1: "same_core s s1" using same_core_ensure_in same_core_emit [OF e] by (blast intro: same_core_trans)
  have es1: "\<forall>e \<in> set es1. \<exists>p. e = Sent p \<and> sound_packet s p" using same_core_emit [OF e] by auto
  show ?case
  proof (cases ok1)
    case False
    with "2.prems" e c1 es1 show ?thesis by auto
  next
    case True
    let ?s1 = "s1\<lparr>ackDue := filter (\<lambda>l. l \<noteq> lane) (ackDue s1)\<rparr>"
    obtain ok2 es2 s2 where r: "pump_acks lanes ?s1 = (ok2, es2, s2)" by (metis prod_cases3)
    have "pump_only ?s1 es2 s2" using "2.IH" e True r by simp
    moreover have "same_core s ?s1" using c1 by (rule same_core_trans) simp
    ultimately show ?thesis using "2.prems" e r True es1
      by (auto simp: same_core_packet intro: same_core_trans)
  qed
qed simp

lemma pump_lanes_only: "pump_lanes idle s = (es, s') \<Longrightarrow> pump_only s es s'"
proof (induction idle s arbitrary: es s' rule: pump_lanes.induct)
  case (1 idle s)
  let ?lane = "fst (outLanes s ! (nextLane s mod length (outLanes s)))"
  let ?st = "out_of s ?lane"
  let ?seq = "ol_transmitted ?st + 1"
  show ?case
  proof (cases "idle < length (outLanes s)")
    case False
    with "1.prems" same_core_arm show ?thesis by (auto simp: pump_lanes.simps [of idle s])
  next
    case True
    show ?thesis
    proof (cases "map_of (ol_outbox ?st) ?seq")
      case None
      then have "pump_lanes (idle + 1) (s\<lparr>nextLane := nextLane s + 1\<rparr>) = (es, s')"
        using "1.prems" True by (simp add: pump_lanes.simps [of idle s] Let_def)
      from "1.IH"(1) [OF True refl refl refl None this] show ?thesis
        using same_core_fields(2) [of s "nextLane s + 1"] same_core_packet by (blast intro: same_core_trans)
    next
      case (Some payload)
      obtain ok es1 s1 where e: "emit (PData ?lane ?seq payload) s = (ok, es1, s1)" by (metis prod_cases3)
      have c1: "same_core s s1" and es1: "\<forall>e \<in> set es1. \<exists>p. e = Sent p \<and> sound_packet s p"
        using same_core_emit [OF e] Some by auto
      show ?thesis
      proof (cases ok)
        case False
        with "1.prems" True Some e c1 es1 show ?thesis by (simp add: pump_lanes.simps [of idle s] Let_def)
      next
        case ok: True
        let ?s2 = "(put_out ?lane (?st\<lparr>ol_transmitted := ?seq\<rparr>) s1)\<lparr>nextLane := nextLane s + 1\<rparr>"
        obtain es2 where r: "pump_lanes 0 ?s2 = (es2, s')" and es: "es = es1 @ es2"
          using "1.prems" True Some e ok by (auto simp: pump_lanes.simps [of idle s] Let_def split: prod.splits)
        have "same_core s1 ?s2" using same_coreD [OF c1]
          by (intro same_coreI) (auto simp: lane_core_def)
        then have c2: "same_core s ?s2" using c1 by (rule same_core_trans [rotated])
        have "pump_only ?s2 es2 s'"
          using "1.IH"(2) [OF True refl refl refl Some, of ok "(es1, s1)" es1 s1 es2 s'] e ok r by simp
        with c2 es es1 show ?thesis by (auto simp: same_core_packet intro: same_core_trans)
      qed
    qed
  qed
qed

lemma pump_sound: "pump s = (es, s') \<Longrightarrow> pump_only s es s'"
proof -
  assume p: "pump s = (es, s')"
  show ?thesis
  proof (cases "connection s = None \<or> \<not> writable s")
    case True
    with p show ?thesis by (auto simp: pump_def)
  next
    case False
    obtain ok es1 s1 where a: "pump_acks (ackDue s) s = (ok, es1, s1)" by (metis prod_cases3)
    obtain es2 s2 where l: "pump_lanes 0 s1 = (es2, s2)" by fastforce
    from False p a l pump_acks_only [OF a] pump_lanes_only [OF l] show ?thesis
      by (cases ok) (auto simp: pump_def same_core_packet intro: same_core_trans)
  qed
qed

section \<open>The invariant of one lane\<close>

text \<open>
  What holds between the sending end of a lane (next sequence number, last acknowledged, outbox,
  waiters, and whether it is closed), everything sent on it so far (\<open>S\<close>), the data packets on the
  wire (\<open>W\<close>), the receiving end, everything handed to its handler so far (\<open>H\<close>), and the
  acknowledgements on the wire (\<open>V\<close>).
\<close>

fun lane_inv :: "nat \<Rightarrow> nat \<times> nat \<times> (nat \<times> 'p) list \<times> (nat \<times> 'p) list \<Rightarrow> bool \<Rightarrow> 'p list \<Rightarrow> (nat \<times> 'p) set \<Rightarrow>
    'p in_lane \<Rightarrow> bool \<Rightarrow> 'p list \<Rightarrow> nat set \<Rightarrow> bool" where
  "lane_inv window (nx, ak, ob, ws) cs S W n cr H V \<longleftrightarrow>
     ak < nx \<and> nx \<le> length S + 1 \<and> nx \<le> window + 1 + ak \<and>
     (\<forall>k. map_of ob k = (if ak < k \<and> k < nx then Some (S ! (k - 1)) else None)) \<and>
     map snd ws = (if cs then [] else drop (nx - 1) S) \<and>
     (\<forall>(k, p) \<in> W. 1 \<le> k \<and> k < nx \<and> p = S ! (k - 1)) \<and>
     il_received n < nx \<and>
     (if cr then prefix H (take (il_received n) S) else H @ il_inbox n = take (il_received n) S) \<and>
     il_delivered n + (if il_busy n then 1 else 0) = length H \<and>
     (\<forall>k \<in> V. k \<le> il_delivered n) \<and> ak \<le> il_delivered n"

definition datas :: "string \<Rightarrow> 'p effect list \<Rightarrow> (nat \<times> 'p) set" where
  "datas l es = {(k, p). Sent (PData l k p) \<in> set es}"

definition acks :: "string \<Rightarrow> 'p effect list \<Rightarrow> nat set" where
  "acks l es = {k. Sent (PAck l k) \<in> set es}"

fun handled :: "string \<Rightarrow> 'p effect list \<Rightarrow> 'p list" where
  "handled l [] = []"
| "handled l (Handle l' p # es) = (if l' = l then p # handled l es else handled l es)"
| "handled l (_ # es) = handled l es"

lemma effects_append [simp]:
  "datas l (es @ es') = datas l es \<union> datas l es'" "acks l (es @ es') = acks l es \<union> acks l es'"
  "handled l (es @ es') = handled l es @ handled l es'" "datas l [] = {}" "acks l [] = {}"
  by (auto simp: datas_def acks_def) (induction l es rule: handled.induct; simp)

lemma handled_sent: "\<forall>e \<in> set es. \<exists>p. e = Sent p \<and> Q p \<Longrightarrow> handled l es = []"
  by (induction l es rule: handled.induct) auto

abbreviation sender_inv where
  "sender_inv window s l S W n cr H V \<equiv> lane_inv window (lane_core (out_of s l)) (closed s) S W n cr H V"

abbreviation receiver_inv where
  "receiver_inv window c cs S W s l H V \<equiv> lane_inv window c cs S W (in_of s l) (closed s) H V"

lemma same_core_lane: "same_core s s' \<Longrightarrow> lane_core (out_of s' l) = lane_core (out_of s l)"
  by (simp add: lane_core_def same_coreD)

lemma lane_inv_outbox:
  assumes "lane_inv window c cs S W n cr H V" "map_of (fst (snd (snd c))) k = Some p"
  shows "1 \<le> k \<and> k < fst c \<and> p = S ! (k - 1)"
proof -
  obtain nx ak ob ws where c: "c = (nx, ak, ob, ws)" by (metis prod_cases4)
  with assms(1) have "map_of ob k = (if ak < k \<and> k < nx then Some (S ! (k - 1)) else None)" by simp
  with assms(2) c show ?thesis by (auto split: if_splits)
qed

lemma lane_inv_more_data:
  assumes "lane_inv window c cs S W n cr H V" "\<And>k p. (k, p) \<in> W' \<Longrightarrow> map_of (fst (snd (snd c))) k = Some p"
  shows "lane_inv window c cs S (W \<union> W') n cr H V"
proof -
  have "\<forall>(k, p) \<in> W'. 1 \<le> k \<and> k < fst c \<and> p = S ! (k - 1)" using lane_inv_outbox [OF assms(1)] assms(2) by blast
  with assms(1) show ?thesis by (cases c) (simp only: lane_inv.simps ball_Un fst_conv; simp)
qed

lemma pump_sender:
  assumes "pump_only s es s'" "sender_inv window s l S W n cr H V"
  shows "sender_inv window s' l S (W \<union> datas l es) n cr H V"
proof -
  have "map_of (fst (snd (snd (lane_core (out_of s l))))) k = Some p" if "(k, p) \<in> datas l es" for k p
    using assms(1) that by (auto simp: datas_def lane_core_def)
  then have "sender_inv window s l S (W \<union> datas l es) n cr H V"
    by (intro lane_inv_more_data [OF assms(2)]) blast
  moreover have "lane_core (out_of s' l) = lane_core (out_of s l)" "closed s' = closed s"
    using assms(1) same_core_lane [of s s' l] same_coreD(6) [of s s'] by auto
  ultimately show ?thesis by simp
qed

lemma pump_receiver:
  assumes "pump_only s es s'" "receiver_inv window c cs S W s l H V"
  shows "receiver_inv window c cs S W s' l H (V \<union> acks l es)" and "handled l es = []"
proof -
  have "sound_packet s (PAck l k)" if "k \<in> acks l es" for k
    using assms(1) that by (auto simp: acks_def)
  then have "k = il_delivered (in_of s l)" if "k \<in> acks l es" for k using that by simp
  with assms show "receiver_inv window c cs S W s' l H (V \<union> acks l es)"
    by (cases c) (auto simp: same_coreD)
  show "handled l es = []" using assms(1) by (intro handled_sent [of es "sound_packet s"]) simp
qed

lemma drop_Cons_nth:
  assumes "x # xs = drop n ys"
  shows "n < length ys" "ys ! n = x" "xs = drop (Suc n) ys"
proof -
  show n: "n < length ys" using assms by (metis drop_eq_Nil leI list.distinct(1))
  then show "ys ! n = x" "xs = drop (Suc n) ys" using assms by (auto simp: Cons_nth_drop_Suc [symmetric])
qed

lemma admit_inv:
  "admit_waiters window ws st = (es, st') \<Longrightarrow> lane_inv window (lane_core (st\<lparr>ol_waiters := ws\<rparr>)) cs S W n cr H V \<Longrightarrow>
   lane_inv window (lane_core st') cs S W n cr H V \<and> (\<forall>e \<in> set es. \<exists>w. e = Resolve w)"
proof (induction window ws st arbitrary: es st' rule: admit_waiters.induct)
  case (2 window w payload ws st)
  show ?case
  proof (cases "ol_nextSeq st < window + 1 + ol_acked st")
    case True
    let ?st = "st\<lparr>ol_outbox := obj_put (ol_nextSeq st) payload (ol_outbox st), ol_nextSeq := ol_nextSeq st + 1\<rparr>"
    from "2.prems"(2) have cs: "\<not> cs" and d: "payload # map snd ws = drop (ol_nextSeq st - 1) S" "0 < ol_nextSeq st"
      by (auto simp: lane_core_def split: if_splits)
    then have nth: "ol_nextSeq st - 1 < length S" "S ! (ol_nextSeq st - 1) = payload" "map snd ws = drop (ol_nextSeq st) S"
      using d by (auto dest: drop_Cons_nth)
    have "lane_inv window (lane_core (?st\<lparr>ol_waiters := ws\<rparr>)) cs S W n cr H V"
      using "2.prems"(2) True cs nth by (auto simp: lane_core_def less_Suc_eq simp del: One_nat_def)
    with "2.IH" [OF True] "2.prems"(1) True show ?thesis by (auto split: prod.splits)
  next
    case False
    with "2.prems" show ?thesis by auto
  qed
qed simp

lemma lane_inv_ack:
  assumes "lane_inv window (nx, ak, ob, ws) cs S W n cr H V" "k \<in> V" "ak < k" "k < nx"
  shows "lane_inv window (nx, k, filter (\<lambda>(j, _). \<not> (ak < j \<and> j \<le> k)) ob, ws) cs S W n cr H V"
proof -
  have "map_of (filter (\<lambda>(j, _). \<not> (ak < j \<and> j \<le> k)) ob) j = (if k < j \<and> j < nx then Some (S ! (j - 1)) else None)" for j
    using assms unfolding map_of_filter_key [where P = "\<lambda>j. \<not> (ak < j \<and> j \<le> k)"] by auto
  with assms show ?thesis by auto
qed

lemma lane_inv_more_sent:
  assumes "lane_inv window (nx, ak, ob, ws) False S W n cr H V"
  shows "lane_inv window (nx, ak, ob, ws @ [(w, p)]) False (S @ [p]) W n cr H V"
proof -
  have le: "nx - 1 \<le> length S" "il_received n \<le> length S" using assms by auto
  have "(S @ [p]) ! (k - 1) = S ! (k - 1)" if "k < nx" "1 \<le> k" for k using assms that by (auto simp: nth_append)
  then have W: "\<forall>(k, q) \<in> W. 1 \<le> k \<and> k < nx \<and> q = (S @ [p]) ! (k - 1)"
    and ob: "\<forall>k. map_of ob k = (if ak < k \<and> k < nx then Some ((S @ [p]) ! (k - 1)) else None)"
    using assms by (fastforce split: if_splits)+
  show ?thesis using assms W ob le by simp
qed

lemma receive_inv:
  assumes "lane_inv window c cs S W n cr H V" "(il_received n + 1, p) \<in> W"
  shows "lane_inv window c cs S W (n\<lparr>il_received := il_received n + 1, il_inbox := il_inbox n @ [p]\<rparr>) cr H V"
proof -
  obtain nx ak ob ws where c: "c = (nx, ak, ob, ws)" by (metis prod_cases4)
  have k: "il_received n + 1 < nx" "p = S ! il_received n" "nx \<le> length S + 1" using assms c by auto
  then have "take (Suc (il_received n)) S = take (il_received n) S @ [p]" by (simp add: take_Suc_conv_app_nth)
  with assms(1) k c show ?thesis by (auto simp: prefix_def)
qed

lemma handle_inv:
  assumes "lane_inv window c cs S W n cr H V" "\<not> il_busy n"
  shows "lane_inv window c cs S W (n\<lparr>il_busy := False\<rparr>) cr H V"
    and "il_inbox n = p # rest \<Longrightarrow> \<not> cr \<Longrightarrow>
      lane_inv window c cs S W (n\<lparr>il_inbox := rest, il_busy := True\<rparr>) cr (H @ [p]) V"
    and "cr \<Longrightarrow> lane_inv window c cs S W (n\<lparr>il_inbox := rest, il_busy := False\<rparr>) cr H V"
  using assms by (cases c; simp)+

lemma next_frame_frame:
  assumes "next_frame lane s = (es, s')"
  shows "set es \<subseteq> range (Handle lane)" "\<And>l. out_of s' l = out_of s l" "closed s' = closed s"
    "\<And>l. l \<noteq> lane \<Longrightarrow> in_of s' l = in_of s l \<and> handled l es = []"
  using assms by (auto simp: next_frame_def Let_def split: if_splits list.splits)

lemma next_frame_inv:
  assumes "next_frame lane s = (es, s')"
    "lane_inv window c cs S W (if l = lane then (in_of s l)\<lparr>il_busy := False\<rparr> else in_of s l) (closed s) H V"
  shows "receiver_inv window c cs S W s' l (H @ handled l es) V"
proof (cases "l = lane")
  case False
  with next_frame_frame [OF assms(1)] assms(2) show ?thesis by simp
next
  case True
  have "lane_inv window c cs S W ((in_of s lane)\<lparr>il_busy := False\<rparr>) (closed s) H V" using assms(2) True by simp
  note h = this handle_inv(2,3) [OF this]
  show ?thesis
  proof (cases "il_inbox (in_of s lane)")
    case Nil
    with h(1) assms(1) True show ?thesis by (auto simp: next_frame_def Let_def)
  next
    case (Cons p rest)
    with h(2) [of p rest] h(3) [of rest] assms(1) True show ?thesis
      by (auto simp: next_frame_def Let_def split: if_splits)
  qed
qed

lemma deliver_frame:
  assumes "deliver lane s = (es, s')"
  shows "set es \<subseteq> range (Handle lane)" "\<And>l. out_of s' l = out_of s l" "closed s' = closed s"
  using assms next_frame_frame [of lane s es s'] by (auto simp: deliver_def split: if_splits)

lemma deliver_inv:
  assumes "deliver lane s = (es, s')" "receiver_inv window c cs S W s l H V"
  shows "receiver_inv window c cs S W s' l (H @ handled l es) V"
proof (cases "il_busy (in_of s lane) \<or> \<not> handlerSet s")
  case True
  with assms show ?thesis by (auto simp: deliver_def)
next
  case False
  then have nf: "next_frame lane s = (es, s')" using assms(1) by (simp add: deliver_def)
  have "(if l = lane then (in_of s l)\<lparr>il_busy := False\<rparr> else in_of s l) = in_of s l" using False by simp
  with assms(2) show ?thesis by (intro next_frame_inv [OF nf]) simp
qed

declare lane_inv.simps [simp del]

section \<open>Every operation keeps the invariant of every lane\<close>

lemma admit_resolves: "admit_waiters window ws st = (es, st') \<Longrightarrow> \<forall>e \<in> set es. \<exists>w. e = Resolve w"
  by (induction window ws st arbitrary: es st' rule: admit_waiters.induct) (auto simp: Let_def split: if_splits prod.splits)

definition sent_by :: "'p transport_op \<Rightarrow> 'p side \<Rightarrow> string \<Rightarrow> 'p list" where
  "sent_by op s l = (case op of TSend w lane p \<Rightarrow> if lane = l \<and> \<not> closed s then [p] else [] | _ \<Rightarrow> [])"

lemma datas_none: "set es \<subseteq> range (Handle lane) \<Longrightarrow> datas l es = {} \<and> acks l es = {}"
  "\<forall>e \<in> set es. \<exists>w. e = Resolve w \<Longrightarrow> datas l es = {} \<and> acks l es = {} \<and> handled l es = []"
  by (auto simp: datas_def acks_def) (induction l es rule: handled.induct; auto)

lemma then_pump_sender:
  assumes "sender_inv window t l S W n cr H V" "pump t = (es', s')" "datas l es = {}"
  shows "sender_inv window s' l S (W \<union> datas l (es @ es')) n cr H V"
  using pump_sender [OF pump_sound [OF assms(2)] assms(1)] assms(3) by simp

lemma same_core_sender:
  "same_core s t \<Longrightarrow> sender_inv window s l S W n cr H V \<Longrightarrow> sender_inv window t l S W n cr H V"
  using same_core_lane [of s t l] same_coreD(6) [of s t] by simp

lemma send_sender:
  assumes "rt_send window w lane p s = (es, s')" "sender_inv window s l S W n cr H V"
  shows "sender_inv window s' l (S @ sent_by (TSend w lane p) s l) (W \<union> datas l es) n cr H V"
proof (cases "closed s")
  case True
  with assms show ?thesis by (auto simp: rt_send_def sent_by_def datas_def)
next
  case False
  let ?st = "(out_of s lane)\<lparr>ol_waiters := ol_waiters (out_of s lane) @ [(w, p)]\<rparr>"
  obtain es1 st' where a: "admit_lane window ?st = (es1, st')" by fastforce
  obtain es2 where u: "pump (put_out lane st' s) = (es2, s')" and es: "es = es1 @ es2"
    using assms(1) False a by (auto simp: rt_send_def Let_def split: prod.splits)
  have r: "\<forall>e \<in> set es1. \<exists>w. e = Resolve w" and st': "l = lane \<Longrightarrow> lane_inv window (lane_core st') False (S @ [p]) W n cr H V"
  proof -
    have "lane_inv window (lane_core (?st\<lparr>ol_waiters := ol_waiters ?st\<rparr>)) False (S @ [p]) W n cr H V" if "l = lane"
      using lane_inv_more_sent [of window "ol_nextSeq (out_of s l)" "ol_acked (out_of s l)" "ol_outbox (out_of s l)"
          "ol_waiters (out_of s l)" S W n cr H V w p] assms(2) that False by (simp add: lane_core_def)
    then show "l = lane \<Longrightarrow> lane_inv window (lane_core st') False (S @ [p]) W n cr H V"
      using admit_inv a unfolding admit_lane_def by blast
    show "\<forall>e \<in> set es1. \<exists>w. e = Resolve w" using a unfolding admit_lane_def by (rule admit_resolves)
  qed
  have "sender_inv window (put_out lane st' s) l (S @ sent_by (TSend w lane p) s l) W n cr H V"
    using st' assms(2) False by (auto simp: sent_by_def)
  from then_pump_sender [OF this u] datas_none(2) [OF r] es show ?thesis by blast
qed

lemma ack_sender:
  assumes "onAck window lane k s = (es, s')" "sender_inv window s l S W n cr H V" "l = lane \<Longrightarrow> k \<in> V"
  shows "sender_inv window s' l S (W \<union> datas l es) n cr H V"
proof (cases "map_of (outLanes s) lane")
  case None
  with assms show ?thesis by (auto simp: onAck_def)
next
  case (Some st)
  then have st: "out_of s lane = st" by (simp add: out_of_def)
  show ?thesis
  proof (cases "k \<le> ol_acked st \<or> ol_nextSeq st \<le> k")
    case True
    with Some assms show ?thesis by (auto simp: onAck_def)
  next
    case False
    let ?st = "st\<lparr>ol_outbox := filter (\<lambda>(j, _). \<not> (ol_acked st < j \<and> j \<le> k)) (ol_outbox st), ol_acked := k,
      ol_transmitted := max (ol_transmitted st) k, ol_armed := False\<rparr>"
    obtain es1 st' where a: "admit_lane window ?st = (es1, st')" by fastforce
    obtain es2 where u: "pump (put_out lane st' s) = (es2, s')" and es: "es = es1 @ es2"
      using assms(1) Some False a by (auto simp: onAck_def Let_def split: prod.splits)
    have "lane_inv window (lane_core (?st\<lparr>ol_waiters := ol_waiters ?st\<rparr>)) (closed s) S W n cr H V" if "l = lane"
      using lane_inv_ack [of window "ol_nextSeq st" "ol_acked st" "ol_outbox st" "ol_waiters st" "closed s" S W n cr H V k]
        assms(2,3) that False st by (simp add: lane_core_def)
    then have "l = lane \<Longrightarrow> lane_inv window (lane_core st') (closed s) S W n cr H V"
      using admit_inv a unfolding admit_lane_def by blast
    then have "sender_inv window (put_out lane st' s) l S W n cr H V" using assms(2) by auto
    from then_pump_sender [OF this u] datas_none(2) [OF admit_resolves [OF a [unfolded admit_lane_def]]] es
    show ?thesis by blast
  qed
qed

lemma close_sender:
  assumes "rt_close s = (es, s')" "sender_inv window s l S W n cr H V"
  shows "sender_inv window s' l S (W \<union> datas l es) n cr H V"
proof (cases "closed s")
  case True
  with assms show ?thesis by (auto simp: rt_close_def)
next
  case False
  have d: "datas l es = {}" using assms(1) False by (auto simp: rt_close_def datas_def Let_def split: if_splits)
  have o: "lane_core (out_of s' l) = (ol_nextSeq (out_of s l), ol_acked (out_of s l), ol_outbox (out_of s l), [])" "closed s'"
    using assms(1) False
    by (auto simp: rt_close_def disarmAll_def out_of_def lane_core_def map_of_map_snd fresh_out_def Let_def simp del: map_map
        split: option.splits)
  show ?thesis using assms(2) unfolding o d by (simp add: o lane_core_def lane_inv.simps)
qed

lemma deliver_all_frame:
  "deliver_all lanes s = (es, s') \<Longrightarrow> (\<forall>l. out_of s' l = out_of s l) \<and> closed s' = closed s \<and> datas l es = {} \<and> acks l es = {}"
proof (induction lanes s arbitrary: es s' rule: deliver_all.induct)
  case (2 lane lanes s)
  obtain es1 s1 where d: "deliver lane s = (es1, s1)" by fastforce
  with "2.prems" "2.IH" [OF d [symmetric] refl] deliver_frame [OF d] datas_none(1) [of es1 lane l] show ?case
    by (auto split: prod.splits)
qed simp

lemma deliver_all_inv:
  "deliver_all lanes s = (es, s') \<Longrightarrow> receiver_inv window c cs S W s l H V \<Longrightarrow>
   receiver_inv window c cs S W s' l (H @ handled l es) V"
proof (induction lanes s arbitrary: es s' H rule: deliver_all.induct)
  case (2 lane lanes s)
  obtain es1 s1 where d: "deliver lane s = (es1, s1)" by fastforce
  obtain es2 where r: "deliver_all lanes s1 = (es2, s')" and es: "es = es1 @ es2"
    using "2.prems"(1) d by (auto split: prod.splits)
  from "2.IH" [OF d [symmetric] refl r deliver_inv [OF d "2.prems"(2)]] es show ?case by simp
qed simp

text \<open>Operations that only change what the pump may change, and then pump.\<close>

lemma then_pump:
  assumes "same_core s t" "pump t = (es, s')"
  shows "sender_inv window s l S W n cr H V \<Longrightarrow> sender_inv window s' l S (W \<union> datas l es) n cr H V"
    and "receiver_inv window c cs S W s l H V \<Longrightarrow> receiver_inv window c cs S W s' l (H @ handled l es) (V \<union> acks l es)"
  using then_pump_sender [OF same_core_sender [OF assms(1)] assms(2), where es = "[]"]
    pump_receiver [OF pump_sound [OF assms(2)], of window c cs S W l H V] same_coreD(5,6) [OF assms(1)] by simp_all

lemma same_core_timer:
  "map_of (outLanes s) lane = Some st \<Longrightarrow>
   same_core s (put_out lane (st\<lparr>ol_armed := False, ol_transmitted := ol_acked st\<rparr>) s)"
  by (intro same_coreI) (simp_all add: lane_core_def, auto simp: out_of_def)

lemma same_core_fold_ack: "same_core s t \<Longrightarrow> same_core s (fold (\<lambda>(l, st) t. if P st then ack_add l t else t) ls t)"
proof (induction ls arbitrary: t)
  case (Cons x ls)
  from Cons.IH [OF same_core_trans [OF Cons.prems same_core_ack_add]] Cons.IH [OF Cons.prems] show ?case
    by (auto split: prod.splits)
qed simp

lemma same_core_attach:
  "same_core s (disarmAll (fold (\<lambda>(l, st) t. if 0 < il_delivered st then ack_add l t else t) ls
     (s\<lparr>connection := Some room, writable := True,
        outLanes := map (\<lambda>(l, st). (l, st\<lparr>ol_transmitted := ol_acked st\<rparr>)) (outLanes s)\<rparr>)))"
proof -
  let ?s = "s\<lparr>connection := Some room, writable := True\<rparr>"
  have "same_core s ?s" using same_core_fields(3,4) by (blast intro: same_core_trans)
  also have "same_core ?s (?s\<lparr>outLanes := map (\<lambda>(l, st). (l, st\<lparr>ol_transmitted := ol_acked st\<rparr>)) (outLanes ?s)\<rparr>)"
    by (rule same_core_map) (simp add: lane_core_def)
  finally show ?thesis
    by (intro same_core_trans [OF same_core_fold_ack same_core_disarmAll]) (simp add: fold_commute)
qed

inductive pumps :: "'p side \<Rightarrow> 'p effect list \<Rightarrow> 'p side \<Rightarrow> bool" where
  pumps_pump: "same_core s t \<Longrightarrow> pump t = (es, s') \<Longrightarrow> pumps s es s'"
| pumps_quiet: "same_core s s' \<Longrightarrow> set es \<subseteq> {CloseConnection} \<Longrightarrow> pumps s es s'"

lemma pumps_inv:
  assumes "pumps s es s'"
  shows "sender_inv window s l S W n cr H V \<Longrightarrow> sender_inv window s' l S (W \<union> datas l es) n cr H V"
    and "receiver_inv window c cs S W s l H V \<Longrightarrow> receiver_inv window c cs S W s' l (H @ handled l es) (V \<union> acks l es)"
proof -
  have quiet: "datas l es = {}" "acks l es = {}" "handled l es = []" if "set es \<subseteq> {CloseConnection}"
    using that by (auto simp: datas_def acks_def) (induction l es rule: handled.induct; auto)
  show "sender_inv window s l S W n cr H V \<Longrightarrow> sender_inv window s' l S (W \<union> datas l es) n cr H V"
    using assms by cases (auto intro: then_pump(1) simp: quiet same_core_lane same_coreD)
  show "receiver_inv window c cs S W s l H V \<Longrightarrow> receiver_inv window c cs S W s' l (H @ handled l es) (V \<union> acks l es)"
    using assms by cases (auto intro: then_pump(2) simp: quiet same_coreD)
qed

lemma quiet_ops:
  "retransmit_fired lane s = (es, s') \<Longrightarrow> pumps s es s'"
  "rt_attached room s = (es, s') \<Longrightarrow> pumps s es s'"
  "rt_writable room s = (es, s') \<Longrightarrow> pumps s es s'"
  "rt_detached s = (es, s') \<Longrightarrow> pumps s es s'"
proof -
  show "retransmit_fired lane s = (es, s') \<Longrightarrow> pumps s es s'"
    by (auto simp: retransmit_fired_def split: option.splits if_splits
        intro: pumps_quiet pumps_pump [OF same_core_timer])
  show "rt_attached room s = (es, s') \<Longrightarrow> pumps s es s'"
    by (auto simp: rt_attached_def Let_def split: if_splits intro: pumps_quiet pumps_pump [OF same_core_attach])
  show "rt_writable room s = (es, s') \<Longrightarrow> pumps s es s'"
    using same_core_trans [OF same_core_fields(3) same_core_fields(4)]
    by (auto simp: rt_writable_def split: if_splits intro: pumps_quiet pumps_pump)
  show "rt_detached s = (es, s') \<Longrightarrow> pumps s es s'"
    using same_core_trans [OF same_core_trans [OF same_core_fields(3) same_core_fields(4)] same_core_disarmAll]
    by (auto simp: rt_detached_def intro!: pumps_quiet)
qed

lemma ack_add_lanes [simp]: "out_of (ack_add a s) l = out_of s l" "in_of (ack_add a s) l = in_of s l"
  "closed (ack_add a s) = closed s"
  by (simp_all add: ack_add_def)

lemma settled_frame:
  assumes "handler_settled lane s = (es, s')" "il_busy (in_of s lane)"
  obtains es1 s1 es2 where "pump (ack_add lane (put_in lane ((in_of s lane)\<lparr>il_delivered := il_delivered (in_of s lane) + 1\<rparr>) s)) = (es1, s1)"
    "next_frame lane s1 = (es2, s')" "es = es1 @ es2"
  using assms by (auto simp: handler_settled_def Let_def split: prod.splits)

lemma settled_sender:
  assumes "handler_settled lane s = (es, s')" "sender_inv window s l S W n cr H V"
  shows "sender_inv window s' l S (W \<union> datas l es) n cr H V"
proof (cases "il_busy (in_of s lane)")
  case False
  with assms show ?thesis by (auto simp: handler_settled_def Let_def)
next
  case True
  from assms(1) this show ?thesis
  proof (rule settled_frame)
    fix es1 s1 es2
    assume p: "pump (ack_add lane (put_in lane ((in_of s lane)\<lparr>il_delivered := il_delivered (in_of s lane) + 1\<rparr>) s)) = (es1, s1)"
      and f: "next_frame lane s1 = (es2, s')" and es: "es = es1 @ es2"
    have "sender_inv window s1 l S (W \<union> datas l es1) n cr H V"
      using pump_sender [OF pump_sound [OF p]] assms(2) by simp
    with next_frame_frame [OF f] datas_none(1) [of es2 lane l] es show ?thesis by simp
  qed
qed

lemma settled_receiver:
  assumes "handler_settled lane s = (es, s')" "receiver_inv window c cs S W s l H V"
  shows "receiver_inv window c cs S W s' l (H @ handled l es) (V \<union> acks l es)"
proof (cases "il_busy (in_of s lane)")
  case False
  with assms show ?thesis by (auto simp: handler_settled_def Let_def)
next
  case True
  let ?n = "(in_of s lane)\<lparr>il_delivered := il_delivered (in_of s lane) + 1\<rparr>"
  let ?t = "ack_add lane (put_in lane ?n s)"
  from assms(1) True show ?thesis
  proof (rule settled_frame)
    fix es1 s1 es2
    assume p: "pump ?t = (es1, s1)" and f: "next_frame lane s1 = (es2, s')" and es: "es = es1 @ es2"
    note po = pump_sound [OF p]
    have acks: "acks l es1 \<subseteq> {il_delivered (in_of ?t l)}" using po by (force simp: acks_def)
    have in1: "in_of s1 l = in_of ?t l" "closed s1 = closed s" using po by (auto simp: same_coreD)
    have h1: "handled l es1 = []" using po by (intro handled_sent [of es1 "sound_packet ?t"]) simp
    have "lane_inv window c cs S W (if l = lane then (in_of s1 l)\<lparr>il_busy := False\<rparr> else in_of s1 l) (closed s1) H (V \<union> acks l es1)"
      using assms(2) acks True unfolding in1 by (cases c) (auto simp: lane_inv.simps split: if_splits)
    from next_frame_inv [OF f this] h1 es datas_none(1) [OF next_frame_frame(1) [OF f], of l] show ?thesis by simp
  qed
qed

lemma data_frame:
  assumes "onData lane k p s = (es, s')"
  obtains es1 s1 es2 where "(if k = il_received (in_of s lane) + 1
      then deliver lane (put_in lane ((in_of s lane)\<lparr>il_received := k, il_inbox := il_inbox (in_of s lane) @ [p]\<rparr>) s)
      else ([], ack_add lane (ensure_in lane s))) = (es1, s1)" "pump s1 = (es2, s')" "es = es1 @ es2"
  using assms by (auto simp: onData_def Let_def split: prod.splits)

lemma data_sender:
  assumes "onData lane k p s = (es, s')" "sender_inv window s l S W n cr H V"
  shows "sender_inv window s' l S (W \<union> datas l es) n cr H V"
proof (rule data_frame [OF assms(1)])
  let ?t = "put_in lane ((in_of s lane)\<lparr>il_received := k, il_inbox := il_inbox (in_of s lane) @ [p]\<rparr>) s"
  fix es1 s1 es2
  assume d: "(if k = il_received (in_of s lane) + 1 then deliver lane ?t else ([], ack_add lane (ensure_in lane s))) = (es1, s1)"
    and u: "pump s1 = (es2, s')" and es: "es = es1 @ es2"
  have "out_of s1 l = out_of s l \<and> closed s1 = closed s \<and> datas l es1 = {}"
    using d deliver_frame [of lane ?t es1 s1] datas_none(1) [of es1 lane l]
    by (auto simp: ensure_in_def split: if_splits)
  with then_pump_sender [OF _ u, of window l S W n cr H V es1] assms(2) es show ?thesis by simp
qed

lemma data_receiver:
  assumes "onData lane k p s = (es, s')" "receiver_inv window c cs S W s l H V" "l = lane \<Longrightarrow> (k, p) \<in> W"
  shows "receiver_inv window c cs S W s' l (H @ handled l es) (V \<union> acks l es)"
proof (rule data_frame [OF assms(1)])
  let ?t = "put_in lane ((in_of s lane)\<lparr>il_received := k, il_inbox := il_inbox (in_of s lane) @ [p]\<rparr>) s"
  fix es1 s1 es2
  assume d: "(if k = il_received (in_of s lane) + 1 then deliver lane ?t else ([], ack_add lane (ensure_in lane s))) = (es1, s1)"
    and u: "pump s1 = (es2, s')" and es: "es = es1 @ es2"
  have "receiver_inv window c cs S W s1 l (H @ handled l es1) V \<and> acks l es1 = {}"
  proof (cases "k = il_received (in_of s lane) + 1")
    case True
    then have dl: "deliver lane ?t = (es1, s1)" using d by simp
    have "receiver_inv window c cs S W ?t l H V"
      using assms(2,3) True receive_inv [of window c cs S W "in_of s lane" "closed s" H V p] by auto
    from deliver_inv [OF dl this] datas_none(1) [OF deliver_frame(1) [OF dl], of l] show ?thesis by simp
  next
    case False
    with d assms(2) show ?thesis by (auto simp: ensure_in_def)
  qed
  with pump_receiver [OF pump_sound [OF u], of window c cs S W l "H @ handled l es1" V] es show ?thesis by simp
qed

lemma send_receiver:
  assumes "rt_send window w lane p s = (es, s')" "receiver_inv window' c cs S W s l H V"
  shows "receiver_inv window' c cs S W s' l (H @ handled l es) (V \<union> acks l es)"
proof (cases "closed s")
  case True
  with assms show ?thesis by (auto simp: rt_send_def acks_def)
next
  case False
  then obtain es1 st' es2 where a: "admit_waiters window (ol_waiters (out_of s lane) @ [(w, p)])
      ((out_of s lane)\<lparr>ol_waiters := ol_waiters (out_of s lane) @ [(w, p)]\<rparr>) = (es1, st')"
    and u: "pump (put_out lane st' s) = (es2, s')" and es: "es = es1 @ es2"
    using assms(1) by (auto simp: rt_send_def admit_lane_def Let_def split: prod.splits)
  from pump_receiver [OF pump_sound [OF u], of window' c cs S W l H V] datas_none(2) [OF admit_resolves [OF a], of l] es assms(2)
  show ?thesis by simp
qed

lemma ack_receiver:
  assumes "onAck window lane k s = (es, s')" "receiver_inv window' c cs S W s l H V"
  shows "receiver_inv window' c cs S W s' l (H @ handled l es) (V \<union> acks l es)"
proof (cases "map_of (outLanes s) lane")
  case None
  with assms show ?thesis by (auto simp: onAck_def)
next
  case (Some st)
  show ?thesis
  proof (cases "k \<le> ol_acked st \<or> ol_nextSeq st \<le> k")
    case True
    with Some assms show ?thesis by (auto simp: onAck_def)
  next
    case False
    then obtain es1 st' es2 where a: "admit_lane window (st\<lparr>ol_outbox := filter (\<lambda>(j, _). \<not> (ol_acked st < j \<and> j \<le> k)) (ol_outbox st),
        ol_acked := k, ol_transmitted := max (ol_transmitted st) k, ol_armed := False\<rparr>) = (es1, st')"
      and u: "pump (put_out lane st' s) = (es2, s')" and es: "es = es1 @ es2"
      using assms(1) Some by (auto simp: onAck_def Let_def split: prod.splits)
    from pump_receiver [OF pump_sound [OF u], of window' c cs S W l H V]
      datas_none(2) [OF admit_resolves [OF a [unfolded admit_lane_def]], of l] es assms(2)
    show ?thesis by simp
  qed
qed

lemma close_receiver:
  assumes "rt_close s = (es, s')" "receiver_inv window c cs S W s l H V"
  shows "receiver_inv window c cs S W s' l (H @ handled l es) (V \<union> acks l es)"
proof (cases "closed s")
  case True
  with assms show ?thesis by (auto simp: rt_close_def)
next
  case False
  have "set es \<subseteq> range Reject \<union> {CloseConnection}" using assms(1) False by (auto simp: rt_close_def Let_def split: if_splits)
  then have e: "acks l es = {}" "handled l es = []"
    by (auto simp: acks_def) (induction l es rule: handled.induct; auto)
  have "in_of s' l = in_of s l" "closed s'" using assms(1) False by (auto simp: rt_close_def disarmAll_def Let_def)
  with assms(2) False e show ?thesis by (cases c) (auto simp: lane_inv.simps prefix_def dest: sym)
qed

lemma op_sender:
  assumes "transport_run window op s = (es, s')" "sender_inv window s l S W n cr H V"
    and "\<And>m k. op = TMessage m \<Longrightarrow> isReferencePacket m = Some (PAck l k) \<Longrightarrow> k \<in> V"
  shows "sender_inv window s' l (S @ sent_by op s l) (W \<union> datas l es) n cr H V"
proof (cases op)
  case (TSend w lane p)
  with assms send_sender show ?thesis by simp
next
  case TOnFrame
  with assms deliver_all_frame [of "obj_keys (inLanes s)" "s\<lparr>handlerSet := True\<rparr>" es s' l] show ?thesis
    by (simp add: onFrame_def sent_by_def)
next
  case (TMessage m)
  show ?thesis
  proof (cases "isReferencePacket m")
    case None
    with TMessage assms show ?thesis by (auto simp: rt_message_def sent_by_def)
  next
    case (Some pk)
    show ?thesis
    proof (cases pk)
      case (PData lane k p)
      with TMessage Some assms show ?thesis by (simp add: rt_message_def sent_by_def data_sender)
    next
      case (PAck lane k)
      with TMessage Some assms show ?thesis by (simp add: rt_message_def sent_by_def ack_sender)
    qed
  qed
qed (use assms settled_sender close_sender pumps_inv(1) [OF quiet_ops(1)] pumps_inv(1) [OF quiet_ops(2)]
      pumps_inv(1) [OF quiet_ops(3)] pumps_inv(1) [OF quiet_ops(4)] in \<open>simp_all add: sent_by_def\<close>)

lemma op_receiver:
  assumes "transport_run window op s = (es, s')" "receiver_inv window c cs S W s l H V"
    and "\<And>m k p. op = TMessage m \<Longrightarrow> isReferencePacket m = Some (PData l k p) \<Longrightarrow> (k, p) \<in> W"
  shows "receiver_inv window c cs S W s' l (H @ handled l es) (V \<union> acks l es)"
proof (cases op)
  case TOnFrame
  with assms deliver_all_frame [of "obj_keys (inLanes s)" "s\<lparr>handlerSet := True\<rparr>" es s' l]
    deliver_all_inv [of "obj_keys (inLanes s)" "s\<lparr>handlerSet := True\<rparr>" es s' window c cs S W l H V] show ?thesis
    by (simp add: onFrame_def)
next
  case (TMessage m)
  show ?thesis
  proof (cases "isReferencePacket m")
    case None
    with TMessage assms show ?thesis by (auto simp: rt_message_def)
  next
    case (Some pk)
    show ?thesis
    proof (cases pk)
      case (PData lane k p)
      with TMessage Some assms show ?thesis by (simp add: rt_message_def data_receiver)
    next
      case (PAck lane k)
      with TMessage Some assms show ?thesis by (simp add: rt_message_def ack_receiver)
    qed
  qed
qed (use assms send_receiver settled_receiver close_receiver pumps_inv(2) [OF quiet_ops(1)] pumps_inv(2) [OF quiet_ops(2)]
      pumps_inv(2) [OF quiet_ops(3)] pumps_inv(2) [OF quiet_ops(4)] in simp_all)

section \<open>Two endpoints over an unreliable carrier\<close>

text \<open>
  Both endpoints, every packet either of them ever handed to the carrier, and what was sent and
  handled on each lane. A step is one operation of one endpoint. A packet may arrive whenever the
  peer has sent it, any number of times and in any order; messages that are no packet may arrive at
  any time.
\<close>

record 'p link =
  nodes :: "bool \<Rightarrow> 'p side"
  wire :: "bool \<Rightarrow> 'p packet set"
  sentLog :: "bool \<Rightarrow> string \<Rightarrow> 'p list"
  handledLog :: "bool \<Rightarrow> string \<Rightarrow> 'p list"

definition link_init :: "'p link" where
  "link_init = \<lparr>nodes = (\<lambda>_. createReliableTransport), wire = (\<lambda>_. {}), sentLog = (\<lambda>_ _. []), handledLog = (\<lambda>_ _. [])\<rparr>"

definition link_step :: "nat \<Rightarrow> bool \<Rightarrow> 'p transport_op \<Rightarrow> 'p link \<Rightarrow> 'p link" where
  "link_step window i op N =
     (let s = nodes N i; (es, s') = transport_run window op s in
      \<lparr>nodes = (nodes N)(i := s'), wire = (wire N)(i := wire N i \<union> {p. Sent p \<in> set es}),
       sentLog = (sentLog N)(i := \<lambda>l. sentLog N i l @ sent_by op s l),
       handledLog = (handledLog N)(i := \<lambda>l. handledLog N i l @ handled l es)\<rparr>)"

definition deliverable :: "'p packet set \<Rightarrow> 'p transport_op \<Rightarrow> bool" where
  "deliverable W op = (case op of TMessage m \<Rightarrow>
     (case isReferencePacket m of Some pk \<Rightarrow> pk \<in> W | None \<Rightarrow> True) | _ \<Rightarrow> True)"

inductive link_reach :: "nat \<Rightarrow> 'p link \<Rightarrow> bool" for window where
  reach_init: "link_reach window link_init"
| reach_step: "link_reach window N \<Longrightarrow> deliverable (wire N (\<not> i)) op \<Longrightarrow> link_reach window (link_step window i op N)"

definition link_inv :: "nat \<Rightarrow> 'p link \<Rightarrow> bool" where
  "link_inv window N \<longleftrightarrow>
     (\<forall>i l. lane_inv window (lane_core (out_of (nodes N i) l)) (closed (nodes N i)) (sentLog N i l)
        {(k, p). PData l k p \<in> wire N i} (in_of (nodes N (\<not> i)) l) (closed (nodes N (\<not> i)))
        (handledLog N (\<not> i) l) {k. PAck l k \<in> wire N (\<not> i)})"

lemma link_inv_init: "link_inv window link_init"
  by (simp add: link_inv_def link_init_def createReliableTransport_def out_of_def in_of_def lane_core_def
      fresh_out_def fresh_in_def lane_inv.simps) auto

lemma wire_effects:
  "{(k, p). PData l k p \<in> W \<union> {p. Sent p \<in> set es}} = {(k, p). PData l k p \<in> W} \<union> datas l es"
  "{k. PAck l k \<in> W \<union> {p. Sent p \<in> set es}} = {k. PAck l k \<in> W} \<union> acks l es"
  by (auto simp: datas_def acks_def)

lemma link_inv_step:
  assumes "link_inv window N" "deliverable (wire N (\<not> i)) op"
  shows "link_inv window (link_step window i op N)"
proof -
  obtain es s' where r: "transport_run window op (nodes N i) = (es, s')" by fastforce
  let ?N = "link_step window i op N"
  have pk: "pk \<in> wire N (\<not> i)" if "op = TMessage m" "isReferencePacket m = Some pk" for m pk
    using assms(2) that by (simp add: deliverable_def)
  have send: "lane_inv window (lane_core (out_of s' l)) (closed s') (sentLog N i l @ sent_by op (nodes N i) l)
      ({(k, p). PData l k p \<in> wire N i} \<union> datas l es) (in_of (nodes N (\<not> i)) l) (closed (nodes N (\<not> i)))
      (handledLog N (\<not> i) l) {k. PAck l k \<in> wire N (\<not> i)}" for l
    by (rule op_sender [OF r]) (use assms(1) pk in \<open>auto simp: link_inv_def\<close>)
  have recv: "lane_inv window (lane_core (out_of (nodes N (\<not> i)) l)) (closed (nodes N (\<not> i))) (sentLog N (\<not> i) l)
      {(k, p). PData l k p \<in> wire N (\<not> i)} (in_of s' l) (closed s')
      (handledLog N i l @ handled l es) ({k. PAck l k \<in> wire N i} \<union> acks l es)" for l
    by (rule op_receiver [OF r]) (use assms(1) [unfolded link_inv_def, THEN spec, of "\<not> i"] pk in auto)
  have N: "nodes ?N i = s'" "nodes ?N (\<not> i) = nodes N (\<not> i)" "wire ?N i = wire N i \<union> {p. Sent p \<in> set es}"
    "wire ?N (\<not> i) = wire N (\<not> i)" "sentLog ?N i = (\<lambda>l. sentLog N i l @ sent_by op (nodes N i) l)"
    "sentLog ?N (\<not> i) = sentLog N (\<not> i)" "handledLog ?N i = (\<lambda>l. handledLog N i l @ handled l es)"
    "handledLog ?N (\<not> i) = handledLog N (\<not> i)"
    using r by (simp_all add: link_step_def Let_def)
  show ?thesis unfolding link_inv_def
  proof (intro allI)
    fix j l
    consider "j = i" | "j = (\<not> i)" by blast
    then show "lane_inv window (lane_core (out_of (nodes ?N j) l)) (closed (nodes ?N j)) (sentLog ?N j l)
        {(k, p). PData l k p \<in> wire ?N j} (in_of (nodes ?N (\<not> j)) l) (closed (nodes ?N (\<not> j)))
        (handledLog ?N (\<not> j) l) {k. PAck l k \<in> wire ?N (\<not> j)}"
    proof cases
      case 1
      show ?thesis unfolding 1 N wire_effects by (rule send)
    next
      case 2
      show ?thesis unfolding 2 not_not N wire_effects by (rule recv)
    qed
  qed
qed

lemma link_reach_inv: "link_reach window N \<Longrightarrow> link_inv window N"
  by (induction rule: link_reach.induct) (auto intro: link_inv_init link_inv_step)

section \<open>The pump leaves nothing behind\<close>

definition lane_idle :: "'p side \<Rightarrow> string \<Rightarrow> bool" where
  "lane_idle s l \<longleftrightarrow> map_of (ol_outbox (out_of s l)) (ol_transmitted (out_of s l) + 1) = None"

text \<open>Between \<open>s\<close> and \<open>s'\<close> only \<open>transmitted\<close> grew, and what it passed over was sent.\<close>

definition transmits :: "'p side \<Rightarrow> 'p effect list \<Rightarrow> 'p side \<Rightarrow> bool" where
  "transmits s es s' \<longleftrightarrow>
     (\<forall>l. ol_transmitted (out_of s l) \<le> ol_transmitted (out_of s' l) \<and>
        (\<forall>k p. ol_transmitted (out_of s l) < k \<longrightarrow> k \<le> ol_transmitted (out_of s' l) \<longrightarrow>
           map_of (ol_outbox (out_of s l)) k = Some p \<longrightarrow> Sent (PData l k p) \<in> set es))"

lemma transmits_step:
  assumes "transmits t es s'" "\<And>l. ol_outbox (out_of t l) = ol_outbox (out_of s l)"
    and "\<And>l. l \<noteq> lane \<Longrightarrow> ol_transmitted (out_of t l) = ol_transmitted (out_of s l)"
    and "ol_transmitted (out_of t lane) = ol_transmitted (out_of s lane) + 1"
    and "map_of (ol_outbox (out_of s lane)) (ol_transmitted (out_of s lane) + 1) = Some p"
    and "Sent (PData lane (ol_transmitted (out_of s lane) + 1) p) \<in> set es1"
  shows "transmits s (es1 @ es) s'"
  unfolding transmits_def
proof (intro allI conjI impI)
  fix l
  show "ol_transmitted (out_of s l) \<le> ol_transmitted (out_of s' l)"
    using assms(1) assms(3) [of l] assms(4) unfolding transmits_def by (cases "l = lane") (metis Suc_eq_plus1 Suc_leD, metis)
  fix k q
  assume k: "ol_transmitted (out_of s l) < k" "k \<le> ol_transmitted (out_of s' l)" "map_of (ol_outbox (out_of s l)) k = Some q"
  show "Sent (PData l k q) \<in> set (es1 @ es)"
  proof (cases "l = lane \<and> k = ol_transmitted (out_of s lane) + 1")
    case True
    with assms(5,6) k(3) show ?thesis by auto
  next
    case False
    then have "ol_transmitted (out_of t l) < k" using assms(3) [of l] assms(4) k(1) by (cases "l = lane") auto
    with assms(1) k(2,3) assms(2) [of l] show ?thesis unfolding transmits_def by auto
  qed
qed

lemma mod_window: "0 < len \<Longrightarrow> len \<le> idle \<Longrightarrow> idle \<le> n \<Longrightarrow> i < len \<Longrightarrow> \<exists>j. n - idle \<le> j \<and> j < n \<and> j mod len = (i::nat)"
proof -
  assume a: "0 < len" "len \<le> idle" "idle \<le> n" "i < len"
  define m where "m = n - len"
  have "\<exists>d < len. (m + d) mod len = i"
  proof (cases "m mod len \<le> i")
    case True
    have "(m + (i - m mod len)) mod len = (m mod len + (i - m mod len)) mod len" by (simp add: mod_add_left_eq)
    with True a show ?thesis by (intro exI [of _ "i - m mod len"]) auto
  next
    case False
    have "(m + (len + i - m mod len)) mod len = (m mod len + (len + i - m mod len)) mod len" by (simp add: mod_add_left_eq)
    also have "m mod len + (len + i - m mod len) = len + i" using mod_less_divisor [OF a(1), of m] by linarith
    also have "(len + i) mod len = i" using a(4) by simp
    finally show ?thesis using False mod_less_divisor [OF a(1), of m]
      by (intro exI [of _ "len + i - m mod len"] conjI) linarith+
  qed
  then obtain d where "d < len" "(m + d) mod len = i" by blast
  with a show ?thesis by (intro exI [of _ "m + d"]) (auto simp: m_def)
qed

definition turn_idle :: "nat \<Rightarrow> 'p side \<Rightarrow> bool" where
  "turn_idle idle s \<longleftrightarrow> idle \<le> nextLane s \<and>
     (\<forall>j. nextLane s - idle \<le> j \<longrightarrow> j < nextLane s \<longrightarrow> lane_idle s (fst (outLanes s ! (j mod length (outLanes s)))))"

lemma full_turn:
  assumes "turn_idle idle s" "length (outLanes s) \<le> idle"
  shows "lane_idle s l"
proof (cases "l \<in> fst ` set (outLanes s)")
  case False
  then have "map_of (outLanes s) l = None" by (simp add: map_of_eq_None_iff)
  then show ?thesis by (simp add: lane_idle_def out_of_def fresh_out_def)
next
  case True
  then obtain i where i: "i < length (outLanes s)" "l = fst (outLanes s ! i)" by (auto simp: in_set_conv_nth)
  have le: "idle \<le> nextLane s" using assms(1) by (simp add: turn_idle_def)
  obtain j where "nextLane s - idle \<le> j" "j < nextLane s" "j mod length (outLanes s) = i"
    using mod_window [OF _ assms(2) le i(1)] i(1) by (metis gr_implies_not0 gr0I)
  with assms(1) i(2) show ?thesis unfolding turn_idle_def by blast
qed

lemma lane_arm [simp]: "ol_outbox (out_of (arm s) l) = ol_outbox (out_of s l)"
  "ol_transmitted (out_of (arm s) l) = ol_transmitted (out_of s l)"
  "writable (arm s) = writable s"
proof -
  show "ol_outbox (out_of (arm s) l) = ol_outbox (out_of s l)" using same_coreD(3) [OF same_core_arm] .
  show "ol_transmitted (out_of (arm s) l) = ol_transmitted (out_of s l)" "writable (arm s) = writable s"
    by (simp_all add: arm_def out_of_map) (auto simp: out_of_def split: option.splits)
qed

lemma pump_lanes_complete:
  "pump_lanes idle s = (es, s') \<Longrightarrow> connection s = Some room \<Longrightarrow> writable s \<Longrightarrow> unsent s \<le> room \<Longrightarrow> turn_idle idle s \<Longrightarrow>
   transmits s es s' \<and> (\<forall>l. lane_idle s' l) \<and> writable s'"
proof (induction idle s arbitrary: es s' room rule: pump_lanes.induct)
  case (1 idle s)
  let ?lane = "fst (outLanes s ! (nextLane s mod length (outLanes s)))"
  let ?st = "out_of s ?lane"
  let ?seq = "ol_transmitted ?st + 1"
  show ?case
  proof (cases "idle < length (outLanes s)")
    case False
    with "1.prems" have "es = []" "s' = arm s" by (simp_all add: pump_lanes.simps [of idle s])
    with full_turn [OF "1.prems"(5)] False "1.prems"(3) show ?thesis by (simp add: transmits_def lane_idle_def)
  next
    case True
    show ?thesis
    proof (cases "map_of (ol_outbox ?st) ?seq")
      case None
      let ?t = "s\<lparr>nextLane := nextLane s + 1\<rparr>"
      have r: "pump_lanes (idle + 1) ?t = (es, s')"
        using "1.prems" True None by (simp add: pump_lanes.simps [of idle s] Let_def)
      have "turn_idle (idle + 1) ?t"
        using "1.prems"(5) None unfolding turn_idle_def lane_idle_def by (auto simp: less_Suc_eq)
      from "1.IH"(1) [OF True refl refl refl None r _ _ _ this] "1.prems" show ?thesis by (simp add: transmits_def)
    next
      case (Some payload)
      have "map_of (outLanes s) ?lane = Some ?st" using True by (intro order_lane) auto
      from unsent_sent [OF this Some] have un: "unsent (put_out ?lane (?st\<lparr>ol_transmitted := ?seq\<rparr>) s) < unsent s" .
      then have "0 < room" using "1.prems"(4) by simp
      define es1 where "es1 = [Sent (PData ?lane ?seq payload)]"
      define s1 where "s1 = s\<lparr>connection := Some (room - 1)\<rparr>"
      have e: "emit (PData ?lane ?seq payload) s = (True, es1, s1)"
        using "1.prems"(2,3) \<open>0 < room\<close> by (simp add: emit_def es1_def s1_def)
      let ?t = "(put_out ?lane (?st\<lparr>ol_transmitted := ?seq\<rparr>) s1)\<lparr>nextLane := nextLane s + 1\<rparr>"
      obtain es2 where r: "pump_lanes 0 ?t = (es2, s')" and es: "es = es1 @ es2"
        using "1.prems"(1) True Some e by (auto simp: pump_lanes.simps [of idle s] Let_def split: prod.splits)
      have "unsent ?t \<le> room - 1" using un "1.prems"(4) by (simp add: unsent_def put_out_def s1_def)
      moreover have "connection ?t = Some (room - 1)" "writable ?t" using "1.prems"(3) by (simp_all add: put_out_def s1_def)
      moreover have "turn_idle 0 ?t" by (simp add: turn_idle_def)
      ultimately have ih: "transmits ?t es2 s' \<and> (\<forall>l. lane_idle s' l) \<and> writable s'"
        using "1.IH"(2) [OF True refl refl refl Some e [symmetric] _ refl r] by blast
      have "transmits s (es1 @ es2) s'"
        by (rule transmits_step [OF conjunct1 [OF ih], where lane = ?lane and p = payload])
          (simp_all add: Some [simplified] es1_def s1_def)
      with ih es show ?thesis by blast
    qed
  qed
qed

lemma pump_acks_complete:
  "connection s = Some room \<Longrightarrow> writable s \<Longrightarrow> length lanes \<le> room \<Longrightarrow>
   \<exists>es s'. pump_acks lanes s = (True, es, s') \<and> connection s' = Some (room - length lanes) \<and> writable s' \<and>
     outLanes s' = outLanes s \<and> (\<forall>l \<in> set lanes. Sent (PAck l (il_delivered (in_of s l))) \<in> set es)"
proof (induction lanes arbitrary: s room)
  case (Cons lane lanes)
  let ?s = "(ensure_in lane s)\<lparr>connection := Some (room - 1)\<rparr>"
  let ?t = "?s\<lparr>ackDue := filter (\<lambda>l. l \<noteq> lane) (ackDue ?s)\<rparr>"
  have e: "emit (PAck lane (il_delivered (in_of s lane))) (ensure_in lane s) =
      (True, [Sent (PAck lane (il_delivered (in_of s lane)))], ?s)"
    using Cons.prems by (auto simp: emit_def ensure_in_def put_in_def)
  have "in_of ?t l = in_of s l" for l by (simp add: ensure_in_def)
  moreover obtain es s' where "pump_acks lanes ?t = (True, es, s') \<and> connection s' = Some (room - 1 - length lanes) \<and>
      writable s' \<and> outLanes s' = outLanes s \<and> (\<forall>l \<in> set lanes. Sent (PAck l (il_delivered (in_of ?t l))) \<in> set es)"
  proof -
    have "connection ?t = Some (room - 1)" "writable ?t" "length lanes \<le> room - 1" "outLanes ?t = outLanes s"
      using Cons.prems by (simp_all add: ensure_in_def put_in_def)
    from Cons.IH [OF this(1-3)] this(4) that show thesis by metis
  qed
  ultimately show ?case using e by simp
qed simp

lemma pump_complete:
  assumes "pump s = (es, s')" "connection s = Some room" "writable s" "length (ackDue s) + unsent s \<le> room"
  shows "transmits s es s' \<and> (\<forall>l. lane_idle s' l) \<and> (\<forall>l \<in> set (ackDue s). Sent (PAck l (il_delivered (in_of s l))) \<in> set es)"
proof -
  obtain es1 s1 where a: "pump_acks (ackDue s) s = (True, es1, s1)" "connection s1 = Some (room - length (ackDue s))"
    "writable s1" "outLanes s1 = outLanes s" "\<forall>l \<in> set (ackDue s). Sent (PAck l (il_delivered (in_of s l))) \<in> set es1"
    using pump_acks_complete [OF assms(2,3), of "ackDue s"] assms(4) by auto
  obtain es2 where l: "pump_lanes 0 s1 = (es2, s')" "es = es1 @ es2"
    using assms a by (auto simp: pump_def split: prod.splits)
  have "unsent s1 \<le> room - length (ackDue s)" using assms(4) a(4) by (simp add: unsent_def)
  moreover have "turn_idle 0 s1" by (simp add: turn_idle_def)
  ultimately have "transmits s1 es2 s' \<and> (\<forall>l. lane_idle s' l)" using pump_lanes_complete [OF l(1) a(2,3)] by blast
  moreover have "out_of s1 l = out_of s l" for l using a(4) by (simp add: out_of_def)
  ultimately show ?thesis using a(5) l(2) by (auto simp: transmits_def)
qed

lemma link_lane:
  "link_reach window N \<Longrightarrow>
   lane_inv window (lane_core (out_of (nodes N i) l)) (closed (nodes N i)) (sentLog N i l)
     {(k, p). PData l k p \<in> wire N i} (in_of (nodes N (\<not> i)) l) (closed (nodes N (\<not> i)))
     (handledLog N (\<not> i) l) {k. PAck l k \<in> wire N (\<not> i)}"
  using link_reach_inv unfolding link_inv_def by blast

text \<open>The side a new connection starts from.\<close>

definition attach_start :: "nat \<Rightarrow> 'p side \<Rightarrow> 'p side" where
  "attach_start room s = disarmAll (fold (\<lambda>(l, st) t. if 0 < il_delivered st then ack_add l t else t) (inLanes s)
     (s\<lparr>connection := Some room, writable := True,
        outLanes := map (\<lambda>(l, st). (l, st\<lparr>ol_transmitted := ol_acked st\<rparr>)) (outLanes s)\<rparr>))"

lemma fold_ack_add:
  "let t = fold (\<lambda>(l, st) t. if 0 < il_delivered st then ack_add l t else t) ls s in
   outLanes t = outLanes s \<and> connection t = connection s \<and> writable t = writable s \<and>
   length (ackDue t) \<le> length (ackDue s) + length ls \<and> set (ackDue s) \<subseteq> set (ackDue t) \<and>
   (\<forall>(l, st) \<in> set ls. 0 < il_delivered st \<longrightarrow> l \<in> set (ackDue t))"
proof (induction ls arbitrary: s)
  case (Cons x ls)
  obtain l st where x: "x = (l, st)" by fastforce
  show ?case
  proof (cases "0 < il_delivered st")
    case True
    have a: "outLanes (ack_add l s) = outLanes s" "connection (ack_add l s) = connection s" "writable (ack_add l s) = writable s"
      "length (ackDue (ack_add l s)) \<le> length (ackDue s) + 1" "insert l (set (ackDue s)) \<subseteq> set (ackDue (ack_add l s))"
      by (auto simp: ack_add_def)
    with Cons.IH [of "ack_add l s"] x True show ?thesis by (fastforce simp: Let_def)
  next
    case False
    with Cons.IH [of s] x show ?thesis by (auto simp: Let_def)
  qed
qed simp

lemma unsent_le: "unsent s \<le> sum_list (map (\<lambda>(l, st). length (ol_outbox st)) (outLanes s))"
  unfolding unsent_def by (rule sum_list_mono) (auto split: prod.splits)

lemma attach_start_facts:
  "connection (attach_start room s) = Some room" "writable (attach_start room s)" "same_core s (attach_start room s)"
  "length (ackDue (attach_start room s)) \<le> length (ackDue s) + length (inLanes s)"
  "unsent (attach_start room s) \<le> sum_list (map (\<lambda>(l, st). length (ol_outbox st)) (outLanes s))"
  "ol_transmitted (out_of (attach_start room s) l) = ol_acked (out_of s l)"
  "(l, st) \<in> set (inLanes s) \<Longrightarrow> 0 < il_delivered st \<Longrightarrow> l \<in> set (ackDue (attach_start room s))"
proof -
  let ?s = "s\<lparr>connection := Some room, writable := True,
        outLanes := map (\<lambda>(l, st). (l, st\<lparr>ol_transmitted := ol_acked st\<rparr>)) (outLanes s)\<rparr>"
  note f = fold_ack_add [of "inLanes s" ?s, unfolded Let_def]
  show "same_core s (attach_start room s)" unfolding attach_start_def by (rule same_core_attach)
  have o: "outLanes (attach_start room s) = map (\<lambda>(l, st). (l, st\<lparr>ol_transmitted := ol_acked st, ol_armed := False\<rparr>)) (outLanes s)"
    using f by (simp add: attach_start_def disarmAll_def case_prod_unfold comp_def)
  then show "ol_transmitted (out_of (attach_start room s) l) = ol_acked (out_of s l)"
    by (auto simp: out_of_def map_of_map_snd fresh_out_def split: option.splits)
  from o show "unsent (attach_start room s) \<le> sum_list (map (\<lambda>(l, st). length (ol_outbox st)) (outLanes s))"
    using unsent_le [of "attach_start room s"] by (simp add: case_prod_unfold comp_def)
  show "connection (attach_start room s) = Some room" "writable (attach_start room s)"
    "length (ackDue (attach_start room s)) \<le> length (ackDue s) + length (inLanes s)"
    "(l, st) \<in> set (inLanes s) \<Longrightarrow> 0 < il_delivered st \<Longrightarrow> l \<in> set (ackDue (attach_start room s))"
    using f by (auto simp: attach_start_def disarmAll_def)
qed

section \<open>Properties of the transport\<close>

text \<open>A link on which one frame was sent, transmitted and handled.\<close>

definition sample_link1 :: "nat link" where
  "sample_link1 = link_step 4 False (TSend 0 ''a'' 7) (link_step 4 False (TAttached 5) link_init)"

definition sample_link2 :: "nat link" where
  "sample_link2 = link_step 4 True (TMessage (RawObject (Some ''data'') (Some ''a'') (Some (Fin 1)) (Some 7)))
     (link_step 4 True TOnFrame sample_link1)"

lemma sample_link1: "link_reach 4 sample_link1" "PData ''a'' 1 7 \<in> wire sample_link1 False"
  "sentLog sample_link1 False ''a'' = [7]" "map_of (ol_outbox (out_of (nodes sample_link1 False) ''a'')) 1 = Some 7"
  "\<not> closed (nodes sample_link1 False)"
proof -
  let ?s = "snd (transport_run 4 (TAttached 5) createReliableTransport) :: nat side"
  let ?r = "transport_run 4 (TSend 0 ''a'' (7 :: nat)) ?s"
  have "PData ''a'' 1 7 \<in> {p. Sent p \<in> set (fst ?r)}" "sent_by (TSend 0 ''a'' (7 :: nat)) ?s ''a'' = [7]"
    "map_of (ol_outbox (out_of (snd ?r) ''a'')) 1 = Some 7" "\<not> closed (snd ?r)"
    unfolding mem_Collect_eq by code_simp+
  then show "PData ''a'' 1 7 \<in> wire sample_link1 False" "sentLog sample_link1 False ''a'' = [7]"
    "map_of (ol_outbox (out_of (nodes sample_link1 False) ''a'')) 1 = Some 7" "\<not> closed (nodes sample_link1 False)"
    by (simp_all add: sample_link1_def link_step_def link_init_def Let_def sent_by_def split_beta del: transport_run.simps)
  show "link_reach 4 sample_link1" unfolding sample_link1_def
    by (intro link_reach.intros) (simp_all add: deliverable_def)
qed

lemma sample_link2: "link_reach 4 sample_link2" "handledLog sample_link2 True ''a'' = [7]"
  "sentLog sample_link2 False ''a'' = [7]"
proof -
  let ?m = "TMessage (RawObject (Some ''data'') (Some ''a'') (Some (Fin 1)) (Some 7)) :: nat transport_op"
  have m: "isReferencePacket (RawObject (Some ''data'') (Some ''a'') (Some (Fin 1)) (Some (7 :: nat))) = Some (PData ''a'' 1 7)"
    by (simp add: isReferencePacket_def max_safe_integer_def)
  have "deliverable (wire (link_step 4 True TOnFrame sample_link1) (\<not> True)) ?m"
    using sample_link1(2) by (simp add: deliverable_def m link_step_def Let_def split_beta del: transport_run.simps)
  moreover have "link_reach 4 (link_step 4 True TOnFrame sample_link1)"
    by (intro link_reach.intros sample_link1) (simp add: deliverable_def)
  ultimately show "link_reach 4 sample_link2" unfolding sample_link2_def by (rule reach_step [rotated])
  have n: "nodes sample_link1 True = createReliableTransport" "handledLog sample_link1 True = (\<lambda>_. [])"
    by (simp_all add: sample_link1_def link_step_def link_init_def Let_def split_beta del: transport_run.simps)
  have "handled ''a'' (fst (onData ''a'' 1 (7 :: nat) (snd (onFrame createReliableTransport)))) = [7]"
    "handled ''a'' (fst (onFrame createReliableTransport :: nat effect list \<times> nat side)) = []"
    by code_simp+
  then show "handledLog sample_link2 True ''a'' = [7]"
    by (simp add: sample_link2_def link_step_def Let_def split_beta n rt_message_def m)
  show "sentLog sample_link2 False ''a'' = [7]"
    by (simp add: sample_link2_def link_step_def Let_def split_beta sample_link1(3) del: transport_run.simps)
qed

text \<open>C4. Exactly once and in order: whatever the carrier loses, repeats, delays or reorders, and
  however often the endpoints are detached and re-attached, closed or timed out, the payloads handed
  to the receiver's handler on a lane are a prefix of the payloads sent on that lane by the peer:
  nothing is delivered twice, out of order, altered or on another lane.\<close>

theorem delivery_exactly_once_in_order:
  assumes "link_reach window N"
  shows "prefix (handledLog N (\<not> i) l) (sentLog N i l)"
proof -
  let ?r = "il_received (in_of (nodes N (\<not> i)) l)"
  have "prefix (handledLog N (\<not> i) l) (take ?r (sentLog N i l))"
    using link_lane [OF assms, of i l] by (auto simp: lane_core_def lane_inv.simps prefix_def split: if_splits dest: sym)
  then show ?thesis using take_is_prefix prefix_order.trans by blast
qed

theorem delivery_exactly_once_in_order_witness:
  "prefix (handledLog sample_link2 (\<not> False) ''a'') (sentLog sample_link2 False ''a'') \<and>
   handledLog sample_link2 True ''a'' = [7]"
  using delivery_exactly_once_in_order [OF sample_link2(1), of False "''a''"] sample_link2(2) by simp

text \<open>C29. Acknowledgement means delivery, and the window holds: the frames a sender drops from its
  outbox as acknowledged were handed to the peer's handler, which settled; the frames still owed
  are all in the outbox with their payloads; and no lane ever has more than a window of frames in
  flight.\<close>

theorem ack_means_delivered_within_window:
  assumes "link_reach window N"
  shows "inFlight l (nodes N i) \<le> window \<and>
    ol_acked (out_of (nodes N i) l) \<le> il_delivered (in_of (nodes N (\<not> i)) l) \<and>
    il_delivered (in_of (nodes N (\<not> i)) l) \<le> length (handledLog N (\<not> i) l) \<and>
    (\<forall>k. ol_acked (out_of (nodes N i) l) < k \<and> k < ol_nextSeq (out_of (nodes N i) l) \<longrightarrow>
       map_of (ol_outbox (out_of (nodes N i) l)) k = Some (sentLog N i l ! (k - 1)))"
  using link_lane [OF assms, of i l]
  by (auto simp: lane_core_def lane_inv.simps inFlight_def out_of_def split: option.splits if_splits)

theorem ack_means_delivered_within_window_witness:
  "inFlight ''a'' (nodes sample_link1 False) \<le> 4 \<and>
   ol_acked (out_of (nodes sample_link2 False) ''a'') \<le> il_delivered (in_of (nodes sample_link2 (\<not> False)) ''a'')"
  using ack_means_delivered_within_window [OF sample_link1(1), of "''a''" False]
    ack_means_delivered_within_window [OF sample_link2(1), of "''a''" False] by blast

text \<open>C30. Resume: when a reachable endpoint that is not closed is re-attached to a carrier that takes
  enough messages, it puts every unacknowledged frame of every lane on the wire, and acknowledges
  every lane it has delivered on: nothing stays stuck behind a dropped connection.\<close>

theorem reattach_sends_all_owed:
  assumes "link_reach window N" and "\<not> closed (nodes N i)"
    and "rt_attached room (nodes N i) = (es, s')"
    and "length (ackDue (nodes N i)) + length (inLanes (nodes N i)) +
      sum_list (map (\<lambda>(l, st). length (ol_outbox st)) (outLanes (nodes N i))) \<le> room"
  shows "(\<forall>l k p. map_of (ol_outbox (out_of (nodes N i) l)) k = Some p \<longrightarrow> Sent (PData l k p) \<in> set es) \<and>
    (\<forall>(l, st) \<in> set (inLanes (nodes N i)). 0 < il_delivered st \<longrightarrow> Sent (PAck l (il_delivered (in_of (nodes N i) l))) \<in> set es)"
proof (intro conjI allI impI ballI)
  let ?s = "nodes N i"
  let ?t = "attach_start room ?s"
  note t = attach_start_facts [where room = room and s = ?s]
  have p: "pump ?t = (es, s')" using assms(2,3) by (simp add: rt_attached_def attach_start_def Let_def)
  have c: "transmits ?t es s' \<and> (\<forall>l. lane_idle s' l) \<and> (\<forall>l \<in> set (ackDue ?t). Sent (PAck l (il_delivered (in_of ?t l))) \<in> set es)"
    by (rule pump_complete [OF p t(1,2)]) (use t(4,5) assms(4) in linarith)
  fix l k p
  assume ob: "map_of (ol_outbox (out_of ?s l)) k = Some p"
  have same: "ol_outbox (out_of ?t l) = ol_outbox (out_of ?s l)" "ol_outbox (out_of s' l) = ol_outbox (out_of ?s l)"
    using same_coreD(3) [OF t(3)] same_coreD(3) [OF conjunct1 [OF pump_sound [OF p]]] by simp_all
  let ?tr = "ol_transmitted (out_of s' l)"
  have le: "ol_acked (out_of ?s l) \<le> ?tr" using c t(6) [of l] by (metis transmits_def)
  have "map_of (ol_outbox (out_of ?s l)) j = (if ol_acked (out_of ?s l) < j \<and> j < ol_nextSeq (out_of ?s l)
      then Some (sentLog N i l ! (j - 1)) else None)" for j
    using link_lane [OF assms(1), of i l] by (simp add: lane_core_def lane_inv.simps)
  note this [of k] this [of "?tr + 1"]
  moreover have "map_of (ol_outbox (out_of ?s l)) (?tr + 1) = None"
    using c [THEN conjunct2, THEN conjunct1, THEN spec, of l] same(2) by (simp add: lane_idle_def)
  ultimately have "ol_acked (out_of ?s l) < k" "k \<le> ?tr" using ob le by (auto split: if_splits)
  with c ob t(6) [of l] same(1) show "Sent (PData l k p) \<in> set es" unfolding transmits_def by metis
next
  let ?t = "attach_start room (nodes N i)"
  note t = attach_start_facts [where room = room and s = "nodes N i"]
  have p: "pump ?t = (es, s')" using assms(2,3) by (simp add: rt_attached_def attach_start_def Let_def)
  have c: "\<forall>l \<in> set (ackDue ?t). Sent (PAck l (il_delivered (in_of ?t l))) \<in> set es"
    using pump_complete [OF p t(1,2)] t(4,5) assms(4) by force
  fix x
  assume "x \<in> set (inLanes (nodes N i))"
  with c t(7) same_coreD(5) [OF t(3)] show "case x of (l, st) \<Rightarrow> 0 < il_delivered st \<longrightarrow>
      Sent (PAck l (il_delivered (in_of (nodes N i) l))) \<in> set es" by (cases x) force
qed

theorem reattach_sends_all_owed_witness:
  "\<exists>room es s'. rt_attached room (nodes sample_link1 False) = (es, s') \<and> Sent (PData ''a'' 1 7) \<in> set es"
proof -
  let ?s = "nodes sample_link1 False"
  define room where "room = length (ackDue ?s) + length (inLanes ?s) +
    sum_list (map (\<lambda>(l, st). length (ol_outbox st)) (outLanes ?s))"
  obtain es s' where r: "rt_attached room ?s = (es, s')" by fastforce
  have "Sent (PData ''a'' 1 7) \<in> set es"
    using reattach_sends_all_owed [OF sample_link1(1,5) r eq_refl [OF room_def [symmetric]]] sample_link1(4) by blast
  with r show ?thesis by blast
qed

end
