(* ===== verification/Nested_Admission.thy ===== *)
theory Nested_Admission
  imports Durable_Store
begin

text \<open>
  Nested admission (execution/nested.ts, nested-types.ts, nested-codec.ts): the requests a running
  execution makes for children of its own, admitted on the brain that owns the parent, debited from
  the parent's budget, and cancelled with it. Every operation is a decision on the parent's durable
  record inside one admission; \<open>nested_update\<close> reads the record, decides and commits. The clock is
  an argument, the text of numbers in canonical JSON is a parameter. Objects hold their own
  properties only: request and activity ids that name a property of \<open>Object.prototype\<close> are outside
  the model.
\<close>

section \<open>Data\<close>

record nested_parent =
  np_executionId :: string
  np_generation :: number
  np_executor :: string
  np_scope :: string
  np_admittedAt :: number
  np_leaseUntil :: number
  np_budget :: number
  np_preparation :: "string list"
  np_body :: "string list"

record nested_activity =
  na_activityId :: string
  na_parent :: string
  na_executor :: string
  na_scope :: string
  na_targets :: "string list"
  na_budget :: number
  na_expiresAt :: number

record activity_record = nested_activity +
  ar_debited :: number
  ar_ended :: bool

record nested_request =
  nq_sender :: string
  nq_parent :: string
  nq_parentGeneration :: number
  nq_scope :: string
  nq_childRequestId :: string
  nq_target :: string
  nq_cost :: number
  nq_activityId :: "string option"

datatype nested_refusal =
    UnknownParent | NotParentExecutor | NestedStaleGeneration | ScopeMismatch | ParentTerminal | NestedExpired
  | NotInNestedSet | BudgetExhausted | InvalidCost | UnknownActivity | ActivityEnded | ConflictingRequest

record nested_child =
  nc_executionId :: string
  nc_target :: string
  nc_cost :: number
  nc_activityId :: "string option"

datatype nested_admission = NAdmitted execution_ref string bool | NRefused nested_refusal

datatype activity_refusal = ActParentTerminal | ActUnknownParent | ExceedsParent | ConflictingActivity

datatype nested_phase = PhasePreparation | PhaseBody | PhaseSettled
datatype cancel_state = CancelQueued | CancelDelivered

record nested_record =
  nr_parent :: nested_parent
  nr_phase :: nested_phase
  nr_cancelled :: bool
  nr_expiresAt :: number
  nr_debited :: number
  nr_children :: "nested_child obj"
  nr_activities :: "activity_record obj"
  nr_cancels :: "cancel_state obj"

record nested_cancel_target =
  ct_ref :: execution_ref
  ct_executor :: string

definition NESTED_LIFETIME_MS :: number where
  "NESTED_LIFETIME_MS = Fin (24 * 60 * 60 * 1000)"

section \<open>The record codec\<close>

definition parent_value :: "nested_parent \<Rightarrow> store_value" where
  "parent_value p = SObj
     [(''executionId'', SStr (np_executionId p)), (''generation'', SNum (np_generation p)),
      (''executor'', SStr (np_executor p)), (''scope'', SStr (np_scope p)), (''admittedAt'', SNum (np_admittedAt p)),
      (''leaseUntil'', SNum (np_leaseUntil p)), (''budget'', SNum (np_budget p)),
      (''capabilities'', SObj [(''preparation'', str_list_value (np_preparation p)), (''body'', str_list_value (np_body p))])]"

definition activity_value :: "activity_record \<Rightarrow> store_value" where
  "activity_value a = SObj
     [(''activityId'', SStr (na_activityId a)), (''parent'', SStr (na_parent a)), (''executor'', SStr (na_executor a)),
      (''scope'', SStr (na_scope a)), (''targets'', str_list_value (na_targets a)), (''budget'', SNum (na_budget a)),
      (''expiresAt'', SNum (na_expiresAt a)), (''debited'', SNum (ar_debited a)), (''ended'', SBool (ar_ended a))]"

definition child_value :: "nested_child \<Rightarrow> store_value" where
  "child_value c = SObj
     [(''executionId'', SStr (nc_executionId c)), (''target'', SStr (nc_target c)), (''cost'', SNum (nc_cost c)),
      (''origin'', SStr ''tool''), (''activityId'', nullable_value (nc_activityId c))]"

fun phase_name :: "nested_phase \<Rightarrow> string" where
  "phase_name PhasePreparation = ''preparation''"
| "phase_name PhaseBody = ''body''"
| "phase_name PhaseSettled = ''settled''"

fun cancel_name :: "cancel_state \<Rightarrow> string" where
  "cancel_name CancelQueued = ''queued''"
| "cancel_name CancelDelivered = ''delivered''"

definition nested_value :: "nested_record \<Rightarrow> store_value" where
  "nested_value r = SObj
     [(''parent'', parent_value (nr_parent r)), (''phase'', SStr (phase_name (nr_phase r))),
      (''cancelled'', SBool (nr_cancelled r)), (''expiresAt'', SNum (nr_expiresAt r)), (''debited'', SNum (nr_debited r)),
      (''children'', fields_value child_value (nr_children r)),
      (''activities'', fields_value activity_value (nr_activities r)),
      (''cancels'', fields_value (\<lambda>c. SStr (cancel_name c)) (nr_cancels r))]"

definition strings_ok :: "store_value option \<Rightarrow> string list \<Rightarrow> bool" where
  "strings_ok v ks \<longleftrightarrow> list_all (\<lambda>k. is_str (fld v k)) ks"

definition numbers_ok :: "store_value option \<Rightarrow> string list \<Rightarrow> bool" where
  "numbers_ok v ks \<longleftrightarrow> list_all (\<lambda>k. is_fin_num (fld v k)) ks"

definition parent_ok :: "store_value option \<Rightarrow> bool" where
  "parent_ok v \<longleftrightarrow> is_store_object v \<and> strings_ok v [''executionId'', ''executor'', ''scope''] \<and>
     numbers_ok v [''generation'', ''admittedAt'', ''leaseUntil'', ''budget''] \<and>
     (let c = fld v ''capabilities'' in
      is_store_object c \<and> is_str_list (fld c ''preparation'') \<and> is_str_list (fld c ''body''))"

definition child_ok :: "store_value \<Rightarrow> bool" where
  "child_ok value \<longleftrightarrow>
     (let v = Some value in
      is_store_object v \<and> strings_ok v [''executionId'', ''target''] \<and> numbers_ok v [''cost''] \<and>
      fld v ''origin'' = Some (SStr ''tool'') \<and> is_nullable (fld v ''activityId''))"

definition activity_ok :: "store_value \<Rightarrow> bool" where
  "activity_ok value \<longleftrightarrow>
     (let v = Some value in
      is_store_object v \<and> strings_ok v [''activityId'', ''parent'', ''executor'', ''scope''] \<and>
      numbers_ok v [''budget'', ''expiresAt'', ''debited''] \<and> is_str_list (fld v ''targets'') \<and> is_bool (fld v ''ended''))"

definition nested_record_ok :: "store_value \<Rightarrow> bool" where
  "nested_record_ok value \<longleftrightarrow>
     (let v = Some value in
      is_store_object v \<and> parent_ok (fld v ''parent'') \<and>
      fld v ''phase'' \<in> {Some (SStr ''preparation''), Some (SStr ''body''), Some (SStr ''settled'')} \<and>
      is_bool (fld v ''cancelled'') \<and> numbers_ok v [''expiresAt'', ''debited''] \<and>
      each_field child_ok (fld v ''children'') \<and> each_field activity_ok (fld v ''activities'') \<and>
      each_field (\<lambda>c. c = SStr ''queued'' \<or> c = SStr ''delivered'') (fld v ''cancels''))"

definition the_parent :: "store_value option \<Rightarrow> nested_parent" where
  "the_parent v = \<lparr>np_executionId = get_str (fld v ''executionId''), np_generation = get_num (fld v ''generation''),
     np_executor = get_str (fld v ''executor''), np_scope = get_str (fld v ''scope''),
     np_admittedAt = get_num (fld v ''admittedAt''), np_leaseUntil = get_num (fld v ''leaseUntil''),
     np_budget = get_num (fld v ''budget''), np_preparation = get_str_list (fld (fld v ''capabilities'') ''preparation''),
     np_body = get_str_list (fld (fld v ''capabilities'') ''body'')\<rparr>"

definition the_child :: "store_value \<Rightarrow> nested_child" where
  "the_child value = (let v = Some value in
     \<lparr>nc_executionId = get_str (fld v ''executionId''), nc_target = get_str (fld v ''target''),
      nc_cost = get_num (fld v ''cost''), nc_activityId = get_nullable (fld v ''activityId'')\<rparr>)"

definition the_activity :: "store_value \<Rightarrow> activity_record" where
  "the_activity value = (let v = Some value in
     \<lparr>na_activityId = get_str (fld v ''activityId''), na_parent = get_str (fld v ''parent''),
      na_executor = get_str (fld v ''executor''), na_scope = get_str (fld v ''scope''),
      na_targets = get_str_list (fld v ''targets''), na_budget = get_num (fld v ''budget''),
      na_expiresAt = get_num (fld v ''expiresAt''), ar_debited = get_num (fld v ''debited''),
      ar_ended = get_bool (fld v ''ended'')\<rparr>)"

definition the_phase :: "string \<Rightarrow> nested_phase" where
  "the_phase s = (if s = ''preparation'' then PhasePreparation else if s = ''body'' then PhaseBody else PhaseSettled)"

definition the_nested :: "store_value \<Rightarrow> nested_record" where
  "the_nested value = (let v = Some value in
     \<lparr>nr_parent = the_parent (fld v ''parent''), nr_phase = the_phase (get_str (fld v ''phase'')),
      nr_cancelled = get_bool (fld v ''cancelled''), nr_expiresAt = get_num (fld v ''expiresAt''),
      nr_debited = get_num (fld v ''debited''), nr_children = get_fields the_child (fld v ''children''),
      nr_activities = get_fields the_activity (fld v ''activities''),
      nr_cancels = get_fields (\<lambda>c. if c = SStr ''queued'' then CancelQueued else CancelDelivered) (fld v ''cancels'')\<rparr>)"

definition decodeNestedRecord :: "store_value \<Rightarrow> (failure, nested_record) result" where
  "decodeNestedRecord value =
     (if nested_record_ok value then Inr (the_nested value) else Inl (ErrorMessage ''corrupt nested admission record''))"

definition parent_fin :: "nested_parent \<Rightarrow> bool" where
  "parent_fin p \<longleftrightarrow> is_finite (np_generation p) \<and> is_finite (np_admittedAt p) \<and> is_finite (np_leaseUntil p) \<and>
     is_finite (np_budget p)"

definition nested_fin :: "nested_record \<Rightarrow> bool" where
  "nested_fin r \<longleftrightarrow> parent_fin (nr_parent r) \<and> is_finite (nr_expiresAt r) \<and> is_finite (nr_debited r) \<and>
     (\<forall>(k, c) \<in> set (nr_children r). is_finite (nc_cost c)) \<and>
     (\<forall>(k, a) \<in> set (nr_activities r). is_finite (na_budget a) \<and> is_finite (na_expiresAt a) \<and> is_finite (ar_debited a))"

lemma parent_roundtrip [simp]:
  "parent_fin p \<Longrightarrow> parent_ok (Some (parent_value p))" "the_parent (Some (parent_value p)) = p"
  by (simp_all add: parent_ok_def the_parent_def parent_value_def parent_fin_def strings_ok_def numbers_ok_def)

lemma child_roundtrip [simp]:
  "is_finite (nc_cost c) \<Longrightarrow> child_ok (child_value c)" "the_child (child_value c) = c"
  by (simp_all add: child_ok_def the_child_def child_value_def strings_ok_def numbers_ok_def)

lemma activity_roundtrip [simp]:
  "is_finite (na_budget a) \<and> is_finite (na_expiresAt a) \<and> is_finite (ar_debited a) \<Longrightarrow> activity_ok (activity_value a)"
  "the_activity (activity_value a) = a"
  by (simp_all add: activity_ok_def the_activity_def activity_value_def strings_ok_def numbers_ok_def)

lemma phase_roundtrip [simp]: "the_phase (phase_name p) = p"
  by (cases p) (simp_all add: the_phase_def)

lemma phase_field_ok: "Some (SStr (phase_name p)) \<in> {Some (SStr ''preparation''), Some (SStr ''body''), Some (SStr ''settled'')}"
  by (cases p) simp_all

lemma cancels_roundtrip [simp]:
  "each_field (\<lambda>c. c = SStr ''queued'' \<or> c = SStr ''delivered'') (Some (fields_value (\<lambda>c. SStr (cancel_name c)) cs))"
  "get_fields (\<lambda>c. if c = SStr ''queued'' then CancelQueued else CancelDelivered)
     (Some (fields_value (\<lambda>c. SStr (cancel_name c)) cs)) = cs"
proof -
  have c: "SStr (cancel_name c) = SStr ''queued'' \<or> SStr (cancel_name c) = SStr ''delivered''"
    "(if SStr (cancel_name c) = SStr ''queued'' then CancelQueued else CancelDelivered) = c" for c
    by (cases c; simp)+
  show "each_field (\<lambda>c. c = SStr ''queued'' \<or> c = SStr ''delivered'') (Some (fields_value (\<lambda>c. SStr (cancel_name c)) cs))"
    by (rule each_field_value) (rule c(1))
  show "get_fields (\<lambda>c. if c = SStr ''queued'' then CancelQueued else CancelDelivered)
     (Some (fields_value (\<lambda>c. SStr (cancel_name c)) cs)) = cs"
    by (rule get_fields_value) (rule c(2))
qed

lemma children_roundtrip [simp]:
  "\<forall>(k, c) \<in> set cs. is_finite (nc_cost c) \<Longrightarrow> each_field child_ok (Some (fields_value child_value cs))"
  "get_fields the_child (Some (fields_value child_value cs)) = cs"
  by (auto intro!: each_field_value get_fields_value)

lemma activities_roundtrip [simp]:
  "\<forall>(k, a) \<in> set as. is_finite (na_budget a) \<and> is_finite (na_expiresAt a) \<and> is_finite (ar_debited a) \<Longrightarrow>
   each_field activity_ok (Some (fields_value activity_value as))"
  "get_fields the_activity (Some (fields_value activity_value as)) = as"
  by (rule each_field_value, fastforce, rule get_fields_value, simp)

lemma nested_value_fields:
  "obj_fields (Some (nested_value r)) =
     [(''parent'', parent_value (nr_parent r)), (''phase'', SStr (phase_name (nr_phase r))),
      (''cancelled'', SBool (nr_cancelled r)), (''expiresAt'', SNum (nr_expiresAt r)), (''debited'', SNum (nr_debited r)),
      (''children'', fields_value child_value (nr_children r)),
      (''activities'', fields_value activity_value (nr_activities r)),
      (''cancels'', fields_value (\<lambda>c. SStr (cancel_name c)) (nr_cancels r))]"
  "is_store_object (Some (nested_value r))"
  by (simp_all add: nested_value_def)

lemma decode_nested_value:
  assumes "nested_fin r"
  shows "decodeNestedRecord (nested_value r) = Inr r"
proof -
  have "nested_record_ok (nested_value r)"
    unfolding nested_record_ok_def Let_def nested_value_fields numbers_ok_def
    using assms phase_field_ok [of "nr_phase r"] children_roundtrip(1) activities_roundtrip(1)
    by (simp add: nested_fin_def nested_value_fields(2) del: insert_iff)
  moreover have "the_nested (nested_value r) = r"
    unfolding the_nested_def Let_def nested_value_fields by simp
  ultimately show ?thesis by (simp add: decodeNestedRecord_def)
qed

section \<open>Operations\<close>

definition nested_PREFIX :: string where
  "nested_PREFIX = ''execution.nested:''"

definition nestedChildId :: "string \<Rightarrow> string \<Rightarrow> string" where
  "nestedChildId parent childRequestId = json_string_list [parent, childRequestId]"

definition validAmount :: "number \<Rightarrow> bool" where
  "validAmount value \<longleftrightarrow> is_finite value \<and> num_le (Fin 0) value"

definition nested_keyOf :: "string \<Rightarrow> string \<Rightarrow> string" where
  "nested_keyOf issuer parent = nested_PREFIX @ json_string_list [issuer, parent]"

definition nested_read :: "string \<Rightarrow> medium_state \<Rightarrow> string \<Rightarrow> (failure, nested_record option) result" where
  "nested_read issuer st parent =
     (case getDocument st (nested_keyOf issuer parent) of
        None \<Rightarrow> Inr None
      | Some value \<Rightarrow> rbind (decodeNestedRecord value) (\<lambda>r. Inr (Some r)))"

text \<open>A write is the new record, the name of the step and the execution id its log record names.\<close>

type_synonym nested_write = "nested_record \<times> string \<times> string option"

definition nested_writes :: "string \<Rightarrow> string \<Rightarrow> nested_write \<Rightarrow> store_write list" where
  "nested_writes issuer mid w =
     (case w of (record, step, executionId) \<Rightarrow>
        [Append mid ''execution.nested''
           (SObj [(''parent'', SStr (np_executionId (nr_parent record))), (''step'', SStr step),
              (''executionId'', nullable_value executionId)]),
         Put (nested_keyOf issuer (np_executionId (nr_parent record))) (nested_value record)])"

definition nested_live :: "nested_record \<Rightarrow> bool" where
  "nested_live record \<longleftrightarrow> \<not> nr_cancelled record \<and> nr_phase record \<noteq> PhaseSettled"

definition nested_set :: "nested_record \<Rightarrow> string list" where
  "nested_set record =
     (if nr_phase record = PhasePreparation then np_preparation (nr_parent record)
      else np_preparation (nr_parent record) @ np_body (nr_parent record))"

datatype nested_reply =
    NOpened | NConflictingParent | NDone | NExpiresAt number | NRegistered | NActivityRefused activity_refusal
  | NAdmission nested_admission | NTargets "nested_cancel_target list"

type_synonym nested_decision = "nested_record option \<Rightarrow> (failure, nested_reply \<times> nested_write option) result"

definition nested_open :: "(number \<Rightarrow> string) \<Rightarrow> nested_parent \<Rightarrow> nested_decision" where
  "nested_open num_text parent record =
     (if \<not> validAmount (np_budget parent) \<or>
         \<not> list_all is_finite [np_generation parent, np_admittedAt parent, np_leaseUntil parent]
      then Inl (ErrorMessage (''nested parent '' @ np_executionId parent @ '' has a non-finite number''))
      else case record of
        Some r \<Rightarrow> Inr (if canonical_json num_text (parent_value (nr_parent r)) = canonical_json num_text (parent_value parent)
            then NOpened else NConflictingParent, None)
      | None \<Rightarrow> Inr (NOpened, Some
          (\<lparr>nr_parent = parent, nr_phase = PhasePreparation, nr_cancelled = False,
            nr_expiresAt = num_min (np_leaseUntil parent) (num_add (np_admittedAt parent) NESTED_LIFETIME_MS),
            nr_debited = Fin 0, nr_children = [], nr_activities = [], nr_cancels = []\<rparr>, ''open'', None)))"

definition nested_release :: nested_decision where
  "nested_release record =
     (case record of None \<Rightarrow> Inr (NDone, None)
      | Some r \<Rightarrow> if nr_phase r \<noteq> PhasePreparation \<or> nr_cancelled r then Inr (NDone, None)
          else Inr (NDone, Some (r\<lparr>nr_phase := PhaseBody\<rparr>, ''release'', None)))"

definition nested_settle :: nested_decision where
  "nested_settle record =
     (case record of None \<Rightarrow> Inr (NDone, None)
      | Some r \<Rightarrow> if \<not> nested_live r then Inr (NDone, None)
          else Inr (NDone, Some (r\<lparr>nr_phase := PhaseSettled\<rparr>, ''settle'', None)))"

definition nested_renew :: "string \<Rightarrow> number \<Rightarrow> nested_decision" where
  "nested_renew parent leaseUntil record =
     (case record of None \<Rightarrow> Inl (ErrorMessage (''no nested set for '' @ parent))
      | Some r \<Rightarrow>
        let cap = num_add (np_admittedAt (nr_parent r)) NESTED_LIFETIME_MS;
            expiresAt = num_max (nr_expiresAt r) (num_min leaseUntil cap)
        in Inr (NExpiresAt expiresAt,
             if num_eq expiresAt (nr_expiresAt r) then None else Some (r\<lparr>nr_expiresAt := expiresAt\<rparr>, ''renew'', None)))"

definition fresh_activity :: "nested_activity \<Rightarrow> activity_record" where
  "fresh_activity activity = nested_activity.extend activity (activity_record.fields (Fin 0) False)"

definition activity_subset :: "nested_record \<Rightarrow> nested_activity \<Rightarrow> bool" where
  "activity_subset r activity \<longleftrightarrow>
     na_executor activity = np_executor (nr_parent r) \<and> na_scope activity = np_scope (nr_parent r) \<and>
     list_all (\<lambda>target. target \<in> set (nested_set r)) (na_targets activity) \<and>
     num_le (na_expiresAt activity) (nr_expiresAt r) \<and> validAmount (na_budget activity) \<and>
     num_le (na_budget activity) (num_sub (np_budget (nr_parent r)) (nr_debited r))"

definition nested_registerActivity :: "(number \<Rightarrow> string) \<Rightarrow> number \<Rightarrow> nested_activity \<Rightarrow> nested_decision" where
  "nested_registerActivity num_text now activity record =
     (case record of None \<Rightarrow> Inr (NActivityRefused ActUnknownParent, None)
      | Some r \<Rightarrow>
        (case map_of (nr_activities r) (na_activityId activity) of
           Some existing \<Rightarrow>
             Inr (if canonical_json num_text (activity_value (existing\<lparr>ar_debited := Fin 0, ar_ended := False\<rparr>)) =
                     canonical_json num_text (activity_value (fresh_activity activity))
                  then NRegistered else NActivityRefused ConflictingActivity, None)
         | None \<Rightarrow>
             if \<not> nested_live r \<or> num_lt (nr_expiresAt r) now then Inr (NActivityRefused ActParentTerminal, None)
             else if \<not> activity_subset r activity then Inr (NActivityRefused ExceedsParent, None)
             else Inr (NRegistered,
               Some (r\<lparr>nr_activities := obj_put (na_activityId activity) (fresh_activity activity) (nr_activities r)\<rparr>,
                 ''activity'', Some (na_activityId activity)))))"

definition nested_endActivity :: "string \<Rightarrow> nested_decision" where
  "nested_endActivity activityId record =
     (case record of None \<Rightarrow> Inr (NDone, None)
      | Some r \<Rightarrow>
        (case map_of (nr_activities r) activityId of
           None \<Rightarrow> Inr (NDone, None)
         | Some activity \<Rightarrow>
             if ar_ended activity then Inr (NDone, None)
             else Inr (NDone, Some (r\<lparr>nr_activities := obj_put activityId (activity\<lparr>ar_ended := True\<rparr>) (nr_activities r)\<rparr>,
               ''activity_end'', Some activityId))))"

definition child_ref :: "string \<Rightarrow> string \<Rightarrow> execution_ref" where
  "child_ref issuer executionId = \<lparr>xr_issuer = issuer, xr_executionId = executionId, xr_generation = Fin 1\<rparr>"

text \<open>The last part of \<open>admit\<close>: the checks of a new request, and the write of its child.\<close>

definition admit_new :: "string \<Rightarrow> number \<Rightarrow> nested_request \<Rightarrow> nested_record \<Rightarrow> activity_record option \<Rightarrow>
    nested_reply \<times> nested_write option" where
  "admit_new issuer now request r activity =
     (let id = nestedChildId (nq_parent request) (nq_childRequestId request);
          refuse = (\<lambda>reason. (NAdmission (NRefused reason), None)) in
      if \<not> validAmount (nq_cost request) then refuse InvalidCost
      else case
        (case activity of
           Some a \<Rightarrow>
             if ar_ended a \<or> nr_cancelled r \<or> num_lt (na_expiresAt a) now then Some ActivityEnded
             else if nq_target request \<notin> set (na_targets a) then Some NotInNestedSet
             else if num_lt (na_budget a) (num_add (ar_debited a) (nq_cost request)) then Some BudgetExhausted
             else None
         | None \<Rightarrow>
             if \<not> nested_live r then Some ParentTerminal
             else if num_lt (nr_expiresAt r) now then Some NestedExpired
             else if nq_target request \<notin> set (nested_set r) then Some NotInNestedSet
             else None) of
        Some reason \<Rightarrow> refuse reason
      | None \<Rightarrow>
        if num_lt (np_budget (nr_parent r)) (num_add (nr_debited r) (nq_cost request)) then refuse BudgetExhausted
        else
          let child = \<lparr>nc_executionId = id, nc_target = nq_target request, nc_cost = nq_cost request,
                       nc_activityId = nq_activityId request\<rparr>;
              activities = (case activity of None \<Rightarrow> nr_activities r
                | Some a \<Rightarrow> obj_put (na_activityId a) (a\<lparr>ar_debited := num_add (ar_debited a) (nq_cost request)\<rparr>)
                    (nr_activities r))
          in (NAdmission (NAdmitted (child_ref issuer id) (nq_target request) False),
              Some (r\<lparr>nr_debited := num_add (nr_debited r) (nq_cost request),
                      nr_children := obj_put (nq_childRequestId request) child (nr_children r),
                      nr_activities := activities\<rparr>, ''admit'', Some id)))"

definition nested_admit :: "string \<Rightarrow> number \<Rightarrow> nested_request \<Rightarrow> nested_decision" where
  "nested_admit issuer now request record =
     (let refuse = (\<lambda>reason. (NAdmission (NRefused reason), None)) in
      Inr (case record of None \<Rightarrow> refuse UnknownParent
        | Some r \<Rightarrow>
          let activity = (case nq_activityId request of None \<Rightarrow> None | Some a \<Rightarrow> map_of (nr_activities r) a) in
          if nq_activityId request \<noteq> None \<and> activity = None then refuse UnknownActivity
          else let (executor, scope) = (case activity of Some a \<Rightarrow> (na_executor a, na_scope a)
                 | None \<Rightarrow> (np_executor (nr_parent r), np_scope (nr_parent r))) in
          if nq_sender request \<noteq> executor then refuse NotParentExecutor
          else if \<not> num_eq (nq_parentGeneration request) (np_generation (nr_parent r)) then refuse NestedStaleGeneration
          else if nq_scope request \<noteq> scope then refuse ScopeMismatch
          else case map_of (nr_children r) (nq_childRequestId request) of
            Some known \<Rightarrow>
              if nc_target known = nq_target request \<and> num_eq (nc_cost known) (nq_cost request) \<and>
                 nc_activityId known = nq_activityId request
              then (NAdmission (NAdmitted (child_ref issuer (nestedChildId (nq_parent request) (nq_childRequestId request)))
                      (nc_target known) True), None)
              else refuse ConflictingRequest
          | None \<Rightarrow> admit_new issuer now request r activity))"

definition cancel_targets :: "string \<Rightarrow> nested_record \<Rightarrow> nested_cancel_target list" where
  "cancel_targets issuer r = map (\<lambda>(k, child). \<lparr>ct_ref = child_ref issuer (nc_executionId child), ct_executor = nc_target child\<rparr>)
     (nr_children r)"

definition nested_cancel :: "string \<Rightarrow> nested_decision" where
  "nested_cancel issuer record =
     (case record of None \<Rightarrow> Inr (NTargets [], None)
      | Some r \<Rightarrow>
        Inr (NTargets (cancel_targets issuer r),
          if nr_cancelled r then None
          else Some (r\<lparr>nr_cancelled := True,
            nr_activities := map (\<lambda>(id, activity). (id, activity\<lparr>ar_ended := True\<rparr>)) (nr_activities r),
            nr_cancels := fold (\<lambda>(k, child). obj_put (nc_executionId child) CancelQueued) (nr_children r) []\<rparr>,
            ''cancel'', None)))"

definition mark_delivered :: "string \<Rightarrow> nested_decision" where
  "mark_delivered executionId record =
     (case record of None \<Rightarrow> Inr (NDone, None)
      | Some latest \<Rightarrow>
        if map_of (nr_cancels latest) executionId \<noteq> Some CancelQueued then Inr (NDone, None)
        else Inr (NDone, Some (latest\<lparr>nr_cancels := obj_put executionId CancelDelivered (nr_cancels latest)\<rparr>,
          ''cancel_delivered'', Some executionId)))"

text \<open>\<open>update\<close>: read, decide and write inside one admission.\<close>

definition nested_update :: "string \<Rightarrow> (write_point \<Rightarrow> bool) \<Rightarrow> number \<Rightarrow> string \<Rightarrow> medium_state \<Rightarrow> string \<Rightarrow> nested_decision \<Rightarrow>
    (failure, nested_reply) result \<times> medium_state" where
  "nested_update issuer seam ep mid st parent decide =
     cell_update (\<lambda>st. nested_read issuer st parent) (nested_writes issuer mid) seam ep st decide"

text \<open>
  \<open>deliverCancels\<close>: the cascade as it was read, one send and one update per queued child. \<open>send\<close> says
  whether the executor took the cancel; a throw ends the loop with what was marked so far.
\<close>

fun deliver_loop :: "string \<Rightarrow> (nested_cancel_target \<Rightarrow> bool) \<Rightarrow> number \<Rightarrow> (nat \<Rightarrow> string) \<Rightarrow> string \<Rightarrow> nat \<Rightarrow>
    cancel_state obj \<Rightarrow> nested_child list \<Rightarrow> medium_state \<Rightarrow> (failure, nat) result \<times> medium_state" where
  "deliver_loop issuer send ep mids parent n cancels [] st = (Inr n, st)"
| "deliver_loop issuer send ep mids parent n cancels (child # rest) st =
     (if map_of cancels (nc_executionId child) \<noteq> Some CancelQueued
      then deliver_loop issuer send ep mids parent n cancels rest st
      else if \<not> send \<lparr>ct_ref = child_ref issuer (nc_executionId child), ct_executor = nc_target child\<rparr>
      then (Inl (ErrorMessage ''send''), st)
      else case nested_update issuer (\<lambda>_. False) ep (mids n) st parent (mark_delivered (nc_executionId child)) of
        (Inl e, st') \<Rightarrow> (Inl e, st')
      | (Inr _, st') \<Rightarrow> deliver_loop issuer send ep mids parent (n + 1) cancels rest st')"

definition deliverCancels :: "string \<Rightarrow> (nested_cancel_target \<Rightarrow> bool) \<Rightarrow> number \<Rightarrow> (nat \<Rightarrow> string) \<Rightarrow> medium_state \<Rightarrow>
    string \<Rightarrow> (failure, nat) result \<times> medium_state" where
  "deliverCancels issuer send ep mids st parent =
     (case nested_read issuer st parent of
        Inl e \<Rightarrow> (Inl e, st)
      | Inr None \<Rightarrow> (Inr 0, st)
      | Inr (Some r) \<Rightarrow> deliver_loop issuer send ep mids parent 0 (nr_cancels r) (map snd (nr_children r)) st)"

section \<open>The invariant of a parent's record\<close>

declare map_of_eq_Some_iff [simp del]

fun num_val :: "number \<Rightarrow> rat" where
  "num_val (Fin r) = r"
| "num_val _ = 0"

definition costs :: "(nested_child \<Rightarrow> bool) \<Rightarrow> nested_child obj \<Rightarrow> rat" where
  "costs P cs = sum_list (map (\<lambda>(k, c). num_val (nc_cost c)) (filter (\<lambda>(k, c). P c) cs))"

lemma costs_put:
  assumes "map_of cs k = None"
  shows "costs P (obj_put k c cs) = costs P cs + (if P c then num_val (nc_cost c) else 0)"
  using assms by (subst obj_put_fresh) (auto simp: costs_def map_of_eq_None_iff)

lemma costs_none: "(\<And>k c. (k, c) \<in> set cs \<Longrightarrow> \<not> P c) \<Longrightarrow> costs P cs = 0"
  by (induction cs) (auto simp: costs_def)

definition parent_targets :: "nested_record \<Rightarrow> string set" where
  "parent_targets r = set (np_preparation (nr_parent r) @ np_body (nr_parent r))"

definition nested_child_ok :: "nested_record \<Rightarrow> string \<Rightarrow> nested_child \<Rightarrow> bool" where
  "nested_child_ok r k c \<longleftrightarrow> validAmount (nc_cost c) \<and> nc_executionId c = nestedChildId (np_executionId (nr_parent r)) k \<and>
     nc_target c \<in> parent_targets r \<and> (\<forall>aid. nc_activityId c = Some aid \<longrightarrow> map_of (nr_activities r) aid \<noteq> None)"

definition nested_activity_ok :: "nested_record \<Rightarrow> string \<Rightarrow> activity_record \<Rightarrow> bool" where
  "nested_activity_ok r aid a \<longleftrightarrow> na_activityId a = aid \<and> is_finite (na_expiresAt a) \<and> is_finite (na_budget a) \<and>
     ar_debited a = Fin (costs (\<lambda>c. nc_activityId c = Some aid) (nr_children r)) \<and>
     num_le (Fin (costs (\<lambda>c. nc_activityId c = Some aid) (nr_children r))) (na_budget a) \<and>
     set (na_targets a) \<subseteq> parent_targets r"

definition nested_ok :: "nested_record \<Rightarrow> bool" where
  "nested_ok r \<longleftrightarrow>
     parent_fin (nr_parent r) \<and> is_finite (nr_expiresAt r) \<and>
     num_le (nr_expiresAt r) (num_add (np_admittedAt (nr_parent r)) NESTED_LIFETIME_MS) \<and>
     obj_wf (nr_children r) \<and> obj_wf (nr_activities r) \<and>
     (\<forall>k c. map_of (nr_children r) k = Some c \<longrightarrow> nested_child_ok r k c) \<and>
     (\<forall>aid a. map_of (nr_activities r) aid = Some a \<longrightarrow> nested_activity_ok r aid a) \<and>
     nr_debited r = Fin (costs (\<lambda>_. True) (nr_children r)) \<and>
     num_le (Fin (costs (\<lambda>_. True) (nr_children r))) (np_budget (nr_parent r)) \<and>
     (nr_cancelled r \<longrightarrow> (\<forall>k c. map_of (nr_children r) k = Some c \<longrightarrow> map_of (nr_cancels r) (nc_executionId c) \<noteq> None))"

lemma nested_ok_fin: "nested_ok r \<Longrightarrow> nested_fin r"
  unfolding nested_ok_def nested_fin_def nested_child_ok_def nested_activity_ok_def validAmount_def
  by (auto simp: is_finite_iff map_of_eq_Some_iff)

text \<open>How records change: the parent stays, children and activities are never dropped or replaced,
  and a cancelled record takes no child.\<close>

definition nested_grows :: "nested_record \<Rightarrow> nested_record \<Rightarrow> bool" where
  "nested_grows r r' \<longleftrightarrow>
     nr_parent r' = nr_parent r \<and> map_of (nr_children r) \<subseteq>\<^sub>m map_of (nr_children r') \<and>
     (\<forall>aid a. map_of (nr_activities r) aid = Some a \<longrightarrow>
        (\<exists>a'. map_of (nr_activities r') aid = Some a' \<and> nested_activity.truncate a' = nested_activity.truncate a)) \<and>
     (nr_cancelled r \<longrightarrow> nr_cancelled r' \<and> nr_children r' = nr_children r)"

lemma nested_grows_refl [simp]: "nested_grows r r"
  by (simp add: nested_grows_def)

lemma nested_grows_trans:
  assumes "nested_grows r r1" "nested_grows r1 r2"
  shows "nested_grows r r2"
proof -
  have "\<exists>a'. map_of (nr_activities r2) aid = Some a' \<and> nested_activity.truncate a' = nested_activity.truncate a"
    if act: "map_of (nr_activities r) aid = Some a" for aid a
  proof -
    obtain a1 where a1: "map_of (nr_activities r1) aid = Some a1" "nested_activity.truncate a1 = nested_activity.truncate a"
      using assms(1) act unfolding nested_grows_def by blast
    obtain a2 where "map_of (nr_activities r2) aid = Some a2" "nested_activity.truncate a2 = nested_activity.truncate a1"
      using assms(2) a1(1) unfolding nested_grows_def by blast
    then show ?thesis using a1(2) by simp
  qed
  moreover have "map_of (nr_children r) \<subseteq>\<^sub>m map_of (nr_children r2)" using assms map_le_trans unfolding nested_grows_def by blast
  ultimately show ?thesis using assms unfolding nested_grows_def by simp
qed

datatype nested_op =
    NOpen nested_parent | NRelease | NSettle | NRenew number | NRegister number nested_activity | NEnd string
  | NAdmit number nested_request | NCancel | NMark string

fun nested_decide :: "string \<Rightarrow> (number \<Rightarrow> string) \<Rightarrow> string \<Rightarrow> nested_op \<Rightarrow> nested_decision" where
  "nested_decide issuer num_text parent (NOpen p) = nested_open num_text p"
| "nested_decide issuer num_text parent NRelease = nested_release"
| "nested_decide issuer num_text parent NSettle = nested_settle"
| "nested_decide issuer num_text parent (NRenew leaseUntil) = nested_renew parent leaseUntil"
| "nested_decide issuer num_text parent (NRegister now a) = nested_registerActivity num_text now a"
| "nested_decide issuer num_text parent (NEnd aid) = nested_endActivity aid"
| "nested_decide issuer num_text parent (NAdmit now q) = nested_admit issuer now q"
| "nested_decide issuer num_text parent NCancel = nested_cancel issuer"
| "nested_decide issuer num_text parent (NMark aid) = mark_delivered aid"

text \<open>What the endpoint hands over: the operation names its own parent, and the two numbers the code
  stores without a check of its own are numbers of a clock.\<close>

fun nested_op_ok :: "string \<Rightarrow> nested_op \<Rightarrow> bool" where
  "nested_op_ok parent (NOpen p) = (np_executionId p = parent)"
| "nested_op_ok parent (NRenew leaseUntil) = (leaseUntil \<noteq> NaN)"
| "nested_op_ok parent (NRegister now a) = (na_parent a = parent \<and> na_expiresAt a \<noteq> NegInf)"
| "nested_op_ok parent (NAdmit now q) = (nq_parent q = parent)"
| "nested_op_ok parent _ = True"

lemma open_ok:
  assumes "nested_open num_text p record = Inr (reply, Some (r', step, ex))"
  shows "record = None \<and> nested_ok r' \<and> nr_parent r' = p"
proof -
  have v: "validAmount (np_budget p)" "parent_fin p"
    "r' = \<lparr>nr_parent = p, nr_phase = PhasePreparation, nr_cancelled = False,
      nr_expiresAt = num_min (np_leaseUntil p) (num_add (np_admittedAt p) NESTED_LIFETIME_MS),
      nr_debited = Fin 0, nr_children = [], nr_activities = [], nr_cancels = []\<rparr>" "record = None"
    using assms by (auto simp: nested_open_def parent_fin_def validAmount_def split: if_splits option.splits)
  then show ?thesis
    by (auto simp: nested_ok_def costs_def validAmount_def parent_fin_def NESTED_LIFETIME_MS_def elim!: is_finiteE)
qed

lemma nested_ok_updates [simp]:
  "nested_child_ok (r\<lparr>nr_phase := ph\<rparr>) = nested_child_ok r" "nested_activity_ok (r\<lparr>nr_phase := ph\<rparr>) = nested_activity_ok r"
  "nested_child_ok (r\<lparr>nr_expiresAt := t\<rparr>) = nested_child_ok r" "nested_activity_ok (r\<lparr>nr_expiresAt := t\<rparr>) = nested_activity_ok r"
  "nested_child_ok (r\<lparr>nr_cancelled := b\<rparr>) = nested_child_ok r" "nested_activity_ok (r\<lparr>nr_cancelled := b\<rparr>) = nested_activity_ok r"
  "nested_child_ok (r\<lparr>nr_debited := n\<rparr>) = nested_child_ok r" "nested_activity_ok (r\<lparr>nr_debited := n\<rparr>) = nested_activity_ok r"
  "nested_child_ok (r\<lparr>nr_cancels := cs\<rparr>) = nested_child_ok r" "nested_activity_ok (r\<lparr>nr_cancels := cs\<rparr>) = nested_activity_ok r"
  "nested_child_ok (r\<lparr>nr_children := cc\<rparr>) = nested_child_ok r"
  "nested_activity_ok (r\<lparr>nr_activities := aa\<rparr>) = nested_activity_ok r"
  by (auto simp: fun_eq_iff nested_child_ok_def nested_activity_ok_def parent_targets_def)

lemma nested_ok_phase: "nested_ok (r\<lparr>nr_phase := ph\<rparr>) = nested_ok r"
  by (simp add: nested_ok_def)

lemma nested_ok_expires:
  assumes "nested_ok r" "leaseUntil \<noteq> NaN"
  shows "nested_ok (r\<lparr>nr_expiresAt := num_max (nr_expiresAt r)
    (num_min leaseUntil (num_add (np_admittedAt (nr_parent r)) NESTED_LIFETIME_MS))\<rparr>)"
proof -
  obtain x y where xy: "nr_expiresAt r = Fin x" "np_admittedAt (nr_parent r) = Fin y" "x \<le> y + 86400000"
    using assms(1) by (auto simp: nested_ok_def parent_fin_def NESTED_LIFETIME_MS_def elim!: is_finiteE)
  have "is_finite (num_max (Fin x) (num_min leaseUntil (Fin (y + 86400000)))) \<and>
      num_le (num_max (Fin x) (num_min leaseUntil (Fin (y + 86400000)))) (Fin (y + 86400000))"
    using assms(2) xy(3) by (cases leaseUntil) (auto simp: num_min_def num_max_def)
  with assms(1) xy show ?thesis by (simp add: nested_ok_def NESTED_LIFETIME_MS_def)
qed

lemma nested_child_ok_activity:
  "nested_child_ok r k c \<Longrightarrow> nested_child_ok (r\<lparr>nr_activities := obj_put aid a (nr_activities r)\<rparr>) k c"
  by (auto simp: nested_child_ok_def parent_targets_def)

lemma nested_ok_activity:
  assumes "nested_ok r" "nested_activity_ok r aid a"
  shows "nested_ok (r\<lparr>nr_activities := obj_put aid a (nr_activities r)\<rparr>)"
  using assms nested_child_ok_activity [of r] by (simp add: nested_ok_def)

lemma nested_set_targets: "set (nested_set r) \<subseteq> parent_targets r"
  by (auto simp: nested_set_def parent_targets_def)

lemma register_ok:
  assumes "nested_ok r" "na_expiresAt a \<noteq> NegInf"
    "nested_registerActivity num_text now a (Some r) = Inr (reply, Some (r', step, ex))"
  shows "nested_ok r' \<and> nested_grows r r'"
proof -
  have new: "map_of (nr_activities r) (na_activityId a) = None" and sub: "activity_subset r a"
    and r': "r' = r\<lparr>nr_activities := obj_put (na_activityId a) (fresh_activity a) (nr_activities r)\<rparr>"
    using assms(3) by (auto simp: nested_registerActivity_def split: option.splits if_splits)
  have "costs (\<lambda>c. nc_activityId c = Some (na_activityId a)) (nr_children r) = 0"
  proof (rule costs_none)
    fix k c
    assume "(k, c) \<in> set (nr_children r)"
    then have "nested_child_ok r k c" using assms(1) by (auto simp: nested_ok_def map_of_eq_Some_iff)
    with new show "nc_activityId c \<noteq> Some (na_activityId a)" by (auto simp: nested_child_ok_def)
  qed
  moreover obtain x where "nr_expiresAt r = Fin x" using assms(1) by (auto simp: nested_ok_def elim!: is_finiteE)
  moreover have "is_finite (na_expiresAt a)"
    using sub assms(2) calculation(2) by (cases "na_expiresAt a") (auto simp: activity_subset_def num_le_def)
  ultimately have "nested_activity_ok r (na_activityId a) (fresh_activity a)"
    using sub nested_set_targets [of r]
    by (auto simp: nested_activity_ok_def activity_subset_def fresh_activity_def nested_activity.defs activity_record.defs
        validAmount_def list_all_iff)
  from nested_ok_activity [OF assms(1) this] new r' show ?thesis by (auto simp: nested_grows_def)
qed

lemma end_ok:
  assumes "nested_ok r" "nested_endActivity aid (Some r) = Inr (reply, Some (r', step, ex))"
  shows "nested_ok r' \<and> nested_grows r r'"
proof -
  obtain a where a: "map_of (nr_activities r) aid = Some a"
    and r': "r' = r\<lparr>nr_activities := obj_put aid (a\<lparr>ar_ended := True\<rparr>) (nr_activities r)\<rparr>"
    using assms(2) by (auto simp: nested_endActivity_def split: option.splits if_splits)
  have "nested_activity_ok r aid (a\<lparr>ar_ended := True\<rparr>)"
    using assms(1) a by (auto simp: nested_ok_def nested_activity_ok_def)
  from nested_ok_activity [OF assms(1) this] a r' show ?thesis
    by (auto simp: nested_grows_def nested_activity.defs)
qed

lemma cancel_ok:
  assumes "nested_ok r" "nested_cancel issuer (Some r) = Inr (reply, Some (r', step, ex))"
  shows "nested_ok r' \<and> nested_grows r r' \<and> nr_cancelled r'"
proof -
  let ?as = "map (\<lambda>(aid, activity). (aid, activity\<lparr>ar_ended := True\<rparr>)) (nr_activities r)"
  let ?cs = "fold (\<lambda>(k, child). obj_put (nc_executionId child) CancelQueued) (nr_children r) []"
  have r': "r' = r\<lparr>nr_cancelled := True, nr_activities := ?as, nr_cancels := ?cs\<rparr>"
    and c: "\<not> nr_cancelled r"
    using assms(2) by (auto simp: nested_cancel_def split: if_splits)
  have queued: "map_of (fold (\<lambda>(k, child). obj_put (nc_executionId child) CancelQueued) cs o') x =
      (if x \<in> nc_executionId ` snd ` set cs then Some CancelQueued else map_of o' x)" for cs o' x
    by (induction cs arbitrary: o') auto
  have as: "map_of ?as x = map_option (\<lambda>a. a\<lparr>ar_ended := True\<rparr>) (map_of (nr_activities r) x)" for x
    by (rule map_of_map_snd)
  have "nested_child_ok r' k c" if "map_of (nr_children r) k = Some c" for k c
    using assms(1) that as unfolding r' nested_ok_def by (auto simp: nested_child_ok_def parent_targets_def)
  moreover have "nested_activity_ok r x (a\<lparr>ar_ended := True\<rparr>)" if "map_of (nr_activities r) x = Some a" for x a
    using assms(1) that by (auto simp: nested_ok_def nested_activity_ok_def)
  moreover have "c \<in> snd ` set (nr_children r)" if "map_of (nr_children r) k = Some c" for k c
    using map_of_SomeD [OF that] by force
  moreover have "obj_wf ?as" using assms(1) by (simp add: nested_ok_def comp_def case_prod_unfold)
  ultimately have "nested_ok r'" using assms(1) as unfolding nested_ok_def
    by (auto simp: r' queued simp del: map_map)
  moreover have "nested_grows r r'"
    using c as by (auto simp: nested_grows_def r' nested_activity.defs simp del: map_map)
  ultimately show ?thesis by (simp add: r')
qed

lemma mark_ok:
  assumes "nested_ok r" "mark_delivered x (Some r) = Inr (reply, Some (r', step, ex))"
  shows "nested_ok r' \<and> nested_grows r r'"
proof -
  have "r' = r\<lparr>nr_cancels := obj_put x CancelDelivered (nr_cancels r)\<rparr>"
    using assms(2) by (auto simp: mark_delivered_def split: if_splits)
  with assms(1) show ?thesis by (auto simp: nested_ok_def nested_grows_def)
qed

lemma admit_new_write:
  assumes "nested_admit issuer now q (Some r) = Inr (reply, Some (r', step, ex))"
  obtains act where "map_of (nr_children r) (nq_childRequestId q) = None"
    "act = (case nq_activityId q of None \<Rightarrow> None | Some a \<Rightarrow> map_of (nr_activities r) a)"
    "nq_activityId q \<noteq> None \<longrightarrow> act \<noteq> None"
    "admit_new issuer now q r act = (reply, Some (r', step, ex))"
  using assms that
  by (auto simp: nested_admit_def Let_def split: if_splits option.splits)

lemma admit_new_facts:
  assumes "admit_new issuer now q r act = (reply, Some (r', step, ex))"
  shows "validAmount (nq_cost q)"
    "case act of Some a \<Rightarrow> \<not> ar_ended a \<and> \<not> nr_cancelled r \<and> \<not> num_lt (na_expiresAt a) now \<and> nq_target q \<in> set (na_targets a) \<and>
        \<not> num_lt (na_budget a) (num_add (ar_debited a) (nq_cost q))
      | None \<Rightarrow> nested_live r \<and> \<not> num_lt (nr_expiresAt r) now \<and> nq_target q \<in> set (nested_set r)"
    "\<not> num_lt (np_budget (nr_parent r)) (num_add (nr_debited r) (nq_cost q))"
    "r' = r\<lparr>nr_debited := num_add (nr_debited r) (nq_cost q),
        nr_children := obj_put (nq_childRequestId q) \<lparr>nc_executionId = nestedChildId (nq_parent q) (nq_childRequestId q),
          nc_target = nq_target q, nc_cost = nq_cost q, nc_activityId = nq_activityId q\<rparr> (nr_children r),
        nr_activities := (case act of None \<Rightarrow> nr_activities r
          | Some a \<Rightarrow> obj_put (na_activityId a) (a\<lparr>ar_debited := num_add (ar_debited a) (nq_cost q)\<rparr>) (nr_activities r))\<rparr>"
    "reply = NAdmission (NAdmitted (child_ref issuer (nestedChildId (nq_parent q) (nq_childRequestId q))) (nq_target q) False)"
  using assms by (auto simp: admit_new_def Let_def split: if_splits option.splits)

lemma not_lt_budget: "is_finite b \<Longrightarrow> validAmount c \<Longrightarrow> \<not> num_lt b (num_add (Fin d) c) \<Longrightarrow> num_le (Fin (d + num_val c)) b"
  by (auto simp: validAmount_def elim!: is_finiteE)

lemma add_amount: "validAmount c \<Longrightarrow> num_add (Fin d) c = Fin (d + num_val c)"
  by (auto simp: validAmount_def elim!: is_finiteE)

lemma admit_activities_ok:
  assumes "nested_ok r" "map_of (nr_children r) k = None" "validAmount (nc_cost c)"
    and "case act of None \<Rightarrow> nc_activityId c = None
      | Some a \<Rightarrow> nc_activityId c = Some (na_activityId a) \<and> map_of (nr_activities r) (na_activityId a) = Some a \<and>
          \<not> num_lt (na_budget a) (num_add (ar_debited a) (nc_cost c))"
    and "map_of (case act of None \<Rightarrow> nr_activities r
      | Some a \<Rightarrow> obj_put (na_activityId a) (a\<lparr>ar_debited := num_add (ar_debited a) (nc_cost c)\<rparr>) (nr_activities r)) y = Some b"
  shows "nested_activity_ok (r\<lparr>nr_children := obj_put k c (nr_children r)\<rparr>) y b"
proof -
  have old: "nested_activity_ok (r\<lparr>nr_children := obj_put k c (nr_children r)\<rparr>) y b"
    if "map_of (nr_activities r) y = Some b" "nc_activityId c \<noteq> Some y"
  proof -
    have "nested_activity_ok r y b" using assms(1) that(1) by (auto simp: nested_ok_def)
    with that(2) show ?thesis by (simp add: nested_activity_ok_def costs_put [OF assms(2)] parent_targets_def)
  qed
  show ?thesis
  proof (cases act)
    case None
    with assms(4,5) old show ?thesis by simp
  next
    case (Some a)
    show ?thesis
    proof (cases "y = na_activityId a")
      case False
      with Some assms(4,5) old show ?thesis by simp
    next
      case True
      with Some assms(5) have b: "b = a\<lparr>ar_debited := num_add (ar_debited a) (nc_cost c)\<rparr>" by simp
      have a: "nested_activity_ok r y a" using assms(1,4) Some True by (auto simp: nested_ok_def)
      then obtain d where d: "ar_debited a = Fin d" "d = costs (\<lambda>c. nc_activityId c = Some y) (nr_children r)"
        by (auto simp: nested_activity_ok_def)
      have "num_le (Fin (d + num_val (nc_cost c))) (na_budget a)"
        by (rule not_lt_budget) (use a assms(3,4) Some d in \<open>auto simp: nested_activity_ok_def\<close>)
      with a b d True assms(4) Some show ?thesis
        by (simp add: nested_activity_ok_def costs_put [OF assms(2)] parent_targets_def add_amount [OF assms(3)])
    qed
  qed
qed

lemma admit_ok:
  assumes "nested_ok r" "nq_parent q = np_executionId (nr_parent r)"
    "nested_admit issuer now q (Some r) = Inr (reply, Some (r', step, ex))"
  shows "nested_ok r' \<and> nested_grows r r'"
proof (rule admit_new_write [OF assms(3)])
  fix act
  assume fresh: "map_of (nr_children r) (nq_childRequestId q) = None"
    and act: "act = (case nq_activityId q of None \<Rightarrow> None | Some a \<Rightarrow> map_of (nr_activities r) a)"
    and known: "nq_activityId q \<noteq> None \<longrightarrow> act \<noteq> None"
    and new: "admit_new issuer now q r act = (reply, Some (r', step, ex))"
  note f = admit_new_facts [OF new]
  let ?c = "\<lparr>nc_executionId = nestedChildId (nq_parent q) (nq_childRequestId q), nc_target = nq_target q, nc_cost = nq_cost q,
    nc_activityId = nq_activityId q\<rparr>"
  let ?cs = "obj_put (nq_childRequestId q) ?c (nr_children r)"
  let ?as = "case act of None \<Rightarrow> nr_activities r
    | Some a \<Rightarrow> obj_put (na_activityId a) (a\<lparr>ar_debited := num_add (ar_debited a) (nq_cost q)\<rparr>) (nr_activities r)"
  have inv: "nested_activity_ok r x a" if "map_of (nr_activities r) x = Some a" for x a
    using assms(1) that by (auto simp: nested_ok_def)
  have own: "nq_activityId q = Some (na_activityId a) \<and> map_of (nr_activities r) (na_activityId a) = Some a" if "act = Some a" for a
    using act that inv by (auto simp: nested_activity_ok_def split: option.splits)
  have none: "nq_activityId q = None" if "act = None" using known that by auto
  have target: "nq_target q \<in> parent_targets r"
    using f(2) own inv nested_set_targets [of r]
    by (auto simp: nested_activity_ok_def split: option.splits)
  have dom: "map_of ?as x \<noteq> None \<longleftrightarrow> map_of (nr_activities r) x \<noteq> None" for x
    using own by (auto split: option.splits)
  have acts: "nested_activity_ok (r\<lparr>nr_children := ?cs\<rparr>) x b" if "map_of ?as x = Some b" for x b
    by (rule admit_activities_ok [OF assms(1) fresh, of ?c act])
      (use f(1,2) own none that in \<open>auto split: option.splits\<close>)
  have r': "r' = r\<lparr>nr_debited := num_add (nr_debited r) (nq_cost q), nr_children := ?cs, nr_activities := ?as\<rparr>"
    by (rule f(4))
  have "nested_child_ok r' k c" if "map_of ?cs k = Some c" for k c
  proof (cases "k = nq_childRequestId q")
    case True
    with that have "c = ?c" by simp
    with f(1) assms(2) target own none dom True show ?thesis
      by (cases act) (auto simp: nested_child_ok_def parent_targets_def r')
  next
    case False
    with that assms(1) have "nested_child_ok r k c" by (auto simp: nested_ok_def)
    with dom show ?thesis by (simp add: nested_child_ok_def parent_targets_def r')
  qed
  moreover have "nested_activity_ok r' x b" if "map_of ?as x = Some b" for x b
    using acts [OF that] by (simp add: r' nested_activity_ok_def parent_targets_def)
  moreover obtain d where d: "nr_debited r = Fin d" "d = costs (\<lambda>_. True) (nr_children r)"
    using assms(1) by (auto simp: nested_ok_def)
  moreover have "num_le (Fin (d + num_val (nq_cost q))) (np_budget (nr_parent r))"
    by (rule not_lt_budget) (use assms(1) f(1,3) d in \<open>auto simp: nested_ok_def parent_fin_def\<close>)
  moreover have "obj_wf ?as" using assms(1) by (cases act) (simp_all add: nested_ok_def)
  moreover have "\<not> nr_cancelled r" using f(2) by (auto simp: nested_live_def split: option.splits)
  ultimately have "nested_ok r'"
    using assms(1) by (simp add: nested_ok_def r' costs_put [OF fresh] add_amount [OF f(1)])
  moreover have "nested_grows r r'"
    using fresh own \<open>\<not> nr_cancelled r\<close>
    by (auto simp: nested_grows_def r' map_le_def nested_activity.defs split: option.splits)
  ultimately show ?thesis by blast
qed

text \<open>Every decision keeps the invariant and only lets the record grow.\<close>

lemma nested_decide_ok:
  assumes "nested_op_ok parent op" "\<And>r. record = Some r \<Longrightarrow> nested_ok r \<and> np_executionId (nr_parent r) = parent"
    "nested_decide issuer num_text parent op record = Inr (reply, Some (r', step, ex))"
  shows "nested_ok r' \<and> np_executionId (nr_parent r') = parent \<and> (\<forall>r. record = Some r \<longrightarrow> nested_grows r r')"
proof (cases "record")
  case None
  then obtain p where "op = NOpen p"
    using assms(3) by (cases op) (auto simp: nested_release_def nested_settle_def nested_renew_def
        nested_registerActivity_def nested_endActivity_def nested_admit_def nested_cancel_def mark_delivered_def Let_def)
  with assms None show ?thesis by (auto dest: open_ok)
next
  case (Some r)
  have ok: "nested_ok r" "np_executionId (nr_parent r) = parent" using assms(2) [OF Some] by auto
  have "nested_ok r' \<and> nested_grows r r'"
  proof (cases op)
    case (NOpen p)
    with assms(3) Some show ?thesis by (auto dest: open_ok)
  next
    case (NRenew l)
    with assms Some ok show ?thesis
      by (auto simp: nested_renew_def Let_def nested_grows_def intro!: nested_ok_expires split: if_splits)
  next
    case NRelease
    with assms Some ok show ?thesis
      by (auto simp: nested_release_def nested_grows_def nested_ok_phase split: if_splits)
  next
    case NSettle
    with assms Some ok show ?thesis
      by (auto simp: nested_settle_def nested_grows_def nested_ok_phase split: if_splits)
  next
    case (NRegister now a)
    with assms(1,3) Some show ?thesis by (intro register_ok [OF ok(1), of a num_text now reply]) simp_all
  next
    case (NEnd x)
    with assms(3) Some show ?thesis by (intro end_ok [OF ok(1), of x reply]) simp
  next
    case (NAdmit now q)
    with assms(1,3) Some ok(2) show ?thesis by (intro admit_ok [OF ok(1), of q issuer now reply]) simp_all
  next
    case NCancel
    with assms(3) Some show ?thesis using cancel_ok [OF ok(1), of issuer reply r' step ex] by simp
  next
    case (NMark x)
    with assms(3) Some show ?thesis by (intro mark_ok [OF ok(1), of x reply]) simp
  qed
  with ok Some show ?thesis by (auto simp: nested_grows_def)
qed

text \<open>A request that was admitted is replayed by every later record.\<close>

lemma admitted_replays:
  assumes "nested_ok r" "nested_admit issuer now q (Some r) = Inr (reply, Some (r1, step, ex))" "nested_grows r1 r2"
  shows "nested_admit issuer now' q (Some r2) =
    Inr (NAdmission (NAdmitted (child_ref issuer (nestedChildId (nq_parent q) (nq_childRequestId q))) (nq_target q) True), None)"
proof (rule admit_new_write [OF assms(2)])
  fix act
  assume fresh: "map_of (nr_children r) (nq_childRequestId q) = None"
    and act: "act = (case nq_activityId q of None \<Rightarrow> None | Some a \<Rightarrow> map_of (nr_activities r) a)"
    and known: "nq_activityId q \<noteq> None \<longrightarrow> act \<noteq> None"
    and new: "admit_new issuer now q r act = (reply, Some (r1, step, ex))"
  note f = admit_new_facts [OF new]
  let ?owner = "case act of Some a \<Rightarrow> (na_executor a, na_scope a) | None \<Rightarrow> (np_executor (nr_parent r), np_scope (nr_parent r))"
  have checks: "nq_sender q = fst ?owner" "nq_scope q = snd ?owner" "num_eq (nq_parentGeneration q) (np_generation (nr_parent r))"
    using assms(2) act known fresh by (auto simp: nested_admit_def Let_def split: if_splits option.splits)
  have r1: "nr_parent r1 = nr_parent r" "map_of (nr_children r1) (nq_childRequestId q) =
      Some \<lparr>nc_executionId = nestedChildId (nq_parent q) (nq_childRequestId q), nc_target = nq_target q, nc_cost = nq_cost q,
        nc_activityId = nq_activityId q\<rparr>"
    by (simp_all add: f(4))
  then have r2: "nr_parent r2 = nr_parent r" "map_of (nr_children r2) (nq_childRequestId q) =
      Some \<lparr>nc_executionId = nestedChildId (nq_parent q) (nq_childRequestId q), nc_target = nq_target q, nc_cost = nq_cost q,
        nc_activityId = nq_activityId q\<rparr>"
    using assms(3) unfolding nested_grows_def by (auto simp: map_le_def dom_def)
  have cost: "num_eq (nq_cost q) (nq_cost q)" using f(1) by (auto simp: validAmount_def num_eq_refl)
  show ?thesis
  proof (cases "nq_activityId q")
    case None
    with act have "act = None" by simp
    with None checks r2 cost show ?thesis by (simp add: nested_admit_def)
  next
    case (Some aid)
    with act known obtain a where a: "act = Some a" "map_of (nr_activities r) aid = Some a" by auto
    then have "na_activityId a = aid" using assms(1) by (auto simp: nested_ok_def nested_activity_ok_def)
    then have "map_of (nr_activities r1) aid = Some (a\<lparr>ar_debited := num_add (ar_debited a) (nq_cost q)\<rparr>)"
      using a(1) by (simp add: f(4))
    then obtain a2 where "map_of (nr_activities r2) aid = Some a2" "na_executor a2 = na_executor a" "na_scope a2 = na_scope a"
      using assms(3) unfolding nested_grows_def by (fastforce simp: nested_activity.defs)
    with Some a(1) checks r2 cost show ?thesis by (simp add: nested_admit_def)
  qed
qed

section \<open>Records on the store\<close>

lemma nested_keyOf_inj: "nested_keyOf issuer p = nested_keyOf issuer p' \<longleftrightarrow> p = p'"
  by (auto simp: nested_keyOf_def json_string_list2_inj)

interpretation nested_cell: document_cell store_commit getDocument ms_records
  "nested_keyOf issuer" nested_value decodeNestedRecord nested_fin "nested_read issuer" for issuer
  by unfold_locales (simp_all add: nested_keyOf_inj decode_nested_value nested_read_def)

definition nested_inv :: "string \<Rightarrow> medium_state \<Rightarrow> bool" where
  "nested_inv issuer st \<longleftrightarrow>
     (\<forall>p v. getDocument st (nested_keyOf issuer p) = Some v \<longrightarrow>
        (\<exists>r. v = nested_value r \<and> nested_ok r \<and> np_executionId (nr_parent r) = p))"

lemma nested_read_inv:
  assumes "nested_inv issuer st" "nested_read issuer st p = Inr rec"
  shows "\<And>r. rec = Some r \<Longrightarrow> nested_ok r \<and> np_executionId (nr_parent r) = p"
proof -
  fix r
  assume r: "rec = Some r"
  then obtain v where v: "getDocument st (nested_keyOf issuer p) = Some v" "decodeNestedRecord v = Inr r"
    using assms(2) by (auto simp: nested_read_def rbind_eq_Inr split: option.splits)
  then obtain r0 where "v = nested_value r0" "nested_ok r0" "np_executionId (nr_parent r0) = p"
    using assms(1) unfolding nested_inv_def by blast
  with v(2) show "nested_ok r \<and> np_executionId (nr_parent r) = p" by (simp add: decode_nested_value nested_ok_fin)
qed

text \<open>Steps as they reach the admission line: an operation on some parent, or a batch of another component.\<close>

datatype nested_call = NCall string nested_op | NForeign "store_write list"

type_synonym nested_input = "(write_point \<Rightarrow> bool) \<times> number \<times> string \<times> nested_call"

fun nested_input_ok :: "nested_input \<Rightarrow> bool" where
  "nested_input_ok (seam, ep, mid, NCall parent op) = nested_op_ok parent op"
| "nested_input_ok (seam, ep, mid, NForeign ws) = list_all (foreign_write nested_PREFIX) ws"

fun nested_step :: "string \<Rightarrow> (number \<Rightarrow> string) \<Rightarrow> nested_input \<Rightarrow> medium_state \<Rightarrow> medium_state" where
  "nested_step issuer num_text (seam, ep, mid, NCall parent op) st =
     snd (nested_update issuer seam ep mid st parent (nested_decide issuer num_text parent op))"
| "nested_step issuer num_text (seam, ep, mid, NForeign ws) st = fst (snd (commitSync seam st ep ws))"

abbreviation nested_run :: "string \<Rightarrow> (number \<Rightarrow> string) \<Rightarrow> nested_input list \<Rightarrow> medium_state \<Rightarrow> medium_state" where
  "nested_run issuer num_text xs st \<equiv> fold (nested_step issuer num_text) xs st"

lemma starts_with_nested [simp]: "starts_with nested_PREFIX (nested_keyOf issuer p)"
  by (simp add: nested_keyOf_def)

text \<open>What the store holds for a parent before and after an update.\<close>

lemma nested_update_read:
  assumes "nested_inv issuer st" "nested_op_ok parent op"
    "nested_update issuer seam ep mid st parent (nested_decide issuer num_text parent op) = (x, st')"
  shows "nested_inv issuer st' \<and>
    (\<forall>p r. nested_read issuer st p = Inr (Some r) \<longrightarrow> (\<exists>r'. nested_read issuer st' p = Inr (Some r') \<and> nested_grows r r'))"
  using assms(3) unfolding nested_update_def
proof (cases rule: cell_update_cases)
  case same
  with assms(1) show ?thesis by auto
next
  case (stored rec a w)
  obtain r' step ex where w: "w = (r', step, ex)" by (cases w)
  have "nested_ok r' \<and> np_executionId (nr_parent r') = parent \<and> (\<forall>r. rec = Some r \<longrightarrow> nested_grows r r')"
    by (rule nested_decide_ok [OF assms(2) nested_read_inv [OF assms(1) stored(1)] stored(2) [unfolded w]])
  then have ok: "nested_ok r'" "np_executionId (nr_parent r') = parent" "\<And>r. rec = Some r \<Longrightarrow> nested_grows r r'"
    by auto
  have doc: "getDocument st' = (getDocument st)(nested_keyOf issuer parent \<mapsto> nested_value r')"
    using stored(3) ok(2) by (simp add: w nested_writes_def)
  then have "nested_inv issuer st'" using assms(1) ok unfolding nested_inv_def by (auto simp: nested_keyOf_inj)
  moreover have "nested_read issuer st' p = (if p = parent then Inr (Some r') else nested_read issuer st p)" for p
    using doc ok(1) by (auto simp: nested_read_def nested_keyOf_inj decode_nested_value nested_ok_fin)
  ultimately show ?thesis using stored(1) ok(3) by auto
qed

lemma nested_step_inv:
  assumes "nested_inv issuer st" "nested_input_ok x"
  shows "nested_inv issuer (nested_step issuer num_text x st) \<and>
    (\<forall>p r. nested_read issuer st p = Inr (Some r) \<longrightarrow>
       (\<exists>r'. nested_read issuer (nested_step issuer num_text x st) p = Inr (Some r') \<and> nested_grows r r'))"
proof (cases x rule: nested_input_ok.cases)
  case (1 seam ep mid parent op)
  obtain y st' where u: "nested_update issuer seam ep mid st parent (nested_decide issuer num_text parent op) = (y, st')"
    by fastforce
  from nested_update_read [OF assms(1) _ u] assms(2) u 1 show ?thesis by simp
next
  case (2 seam ep mid ws)
  have "getDocument (nested_step issuer num_text x st) (nested_keyOf issuer p) = getDocument st (nested_keyOf issuer p)" for p
    using assms(2) 2 by (simp add: commit_foreign [of nested_PREFIX])
  then show ?thesis using assms(1) unfolding nested_inv_def nested_read_def by auto
qed

lemma nested_run_inv:
  "nested_inv issuer st \<Longrightarrow> list_all nested_input_ok xs \<Longrightarrow>
   nested_inv issuer (nested_run issuer num_text xs st) \<and>
   (\<forall>p r. nested_read issuer st p = Inr (Some r) \<longrightarrow>
      (\<exists>r'. nested_read issuer (nested_run issuer num_text xs st) p = Inr (Some r') \<and> nested_grows r r'))"
proof (induction xs arbitrary: st)
  case (Cons x xs)
  note h = nested_step_inv [OF Cons.prems(1), of x num_text]
  from Cons.prems(2) have x: "nested_input_ok x" and xs: "list_all nested_input_ok xs" by simp_all
  note ih = Cons.IH [OF conjunct1 [OF h [OF x]] xs]
  show ?case using ih conjunct2 [OF h [OF x]] by (simp, blast intro: nested_grows_trans)
qed simp

section \<open>Properties of nested admission\<close>

text \<open>A store that opened one parent with a budget of ten and admitted a child of cost four.\<close>

definition sample_parent :: nested_parent where
  "sample_parent = \<lparr>np_executionId = ''p'', np_generation = Fin 1, np_executor = ''hand'', np_scope = ''s'',
     np_admittedAt = Fin 0, np_leaseUntil = Fin 1000, np_budget = Fin 10, np_preparation = [''t''], np_body = []\<rparr>"

definition sample_request :: nested_request where
  "sample_request = \<lparr>nq_sender = ''hand'', nq_parent = ''p'', nq_parentGeneration = Fin 1, nq_scope = ''s'',
     nq_childRequestId = ''c'', nq_target = ''t'', nq_cost = Fin 4, nq_activityId = None\<rparr>"

definition sample_opened :: nested_record where
  "sample_opened = \<lparr>nr_parent = sample_parent, nr_phase = PhasePreparation, nr_cancelled = False, nr_expiresAt = Fin 1000,
     nr_debited = Fin 0, nr_children = [], nr_activities = [], nr_cancels = []\<rparr>"

definition nested_store :: medium_state where
  "nested_store = \<lparr>ms_epoch = Fin 1, ms_records = [],
     ms_documents = [(nested_keyOf ''brain'' ''p'', nested_value sample_opened)]\<rparr>"

lemmas nested_samples = sample_parent_def sample_request_def sample_opened_def

lemma sample_opened_ok: "nested_ok sample_opened"
  by (simp add: nested_ok_def nested_samples parent_fin_def NESTED_LIFETIME_MS_def costs_def)

lemma nested_store_inv: "nested_inv ''brain'' nested_store"
  "nested_read ''brain'' nested_store ''p'' = Inr (Some sample_opened)"
proof -
  have p: "np_executionId (nr_parent sample_opened) = ''p''" by (simp add: nested_samples)
  show "nested_inv ''brain'' nested_store"
    unfolding nested_inv_def nested_store_def
    by (auto simp: getDocument_def nested_keyOf_inj p sample_opened_ok intro!: exI [of _ sample_opened] split: if_splits)
  show "nested_read ''brain'' nested_store ''p'' = Inr (Some sample_opened)"
    by (simp add: nested_store_def nested_read_def getDocument_def decode_nested_value nested_ok_fin sample_opened_ok)
qed

lemma nested_store_commit:
  "\<exists>st1. commit_then (\<lambda>_. False) nested_store (Fin 1) (nested_writes ''brain'' ''m'' w) a = (Inr a, st1)"
  by (cases w) (simp add: commit_then_def commitSync_def requireOwner_def nested_store_def nested_writes_def Let_def)

lemma sample_admit:
  "\<exists>r'. nested_admit ''brain'' (Fin 5) sample_request (Some sample_opened) =
     Inr (NAdmission (NAdmitted (child_ref ''brain'' (nestedChildId ''p'' ''c'')) ''t'' False), Some r')"
  by (simp add: nested_admit_def admit_new_def nested_samples validAmount_def nested_live_def nested_set_def Let_def)



text \<open>A replay is never debited twice: once a request has been admitted, the same request at any
  later time, whatever happened to the parent in between, is answered with the same child and changes
  nothing; and different requests of any parents have different children.\<close>

theorem nested_replay_not_debited:
  assumes "nested_inv issuer st" and "list_all nested_input_ok xs" and "nq_parent q = p"
    and "nested_read issuer st p = Inr (Some r)" and "nested_admit issuer now q (Some r) = Inr (reply, Some (r1, step, ex))"
    and "nested_update issuer (\<lambda>_. False) ep mid st p (nested_admit issuer now q) = (Inr reply, st1)"
  shows "nested_update issuer seam ep' mid' (nested_run issuer num_text xs st1) p (nested_admit issuer now' q) =
      (Inr (NAdmission (NAdmitted (child_ref issuer (nestedChildId p (nq_childRequestId q))) (nq_target q) True)),
       nested_run issuer num_text xs st1) \<and>
    (nestedChildId p' k' = nestedChildId p (nq_childRequestId q) \<longrightarrow> p' = p \<and> k' = nq_childRequestId q)"
proof
  show "nestedChildId p' k' = nestedChildId p (nq_childRequestId q) \<longrightarrow> p' = p \<and> k' = nq_childRequestId q"
    by (simp add: nestedChildId_def json_string_list2_inj)
  have u: "nested_update issuer (\<lambda>_. False) ep mid st p (nested_decide issuer num_text p (NAdmit now q)) = (Inr reply, st1)"
    using assms(6) by simp
  have inv1: "nested_inv issuer st1" using nested_update_read [OF assms(1) _ u] assms(3) by simp
  have ok: "nested_ok r" "np_executionId (nr_parent r) = p" using nested_read_inv [OF assms(1,4)] by auto
  have w: "getDocument st1 = (getDocument st)(nested_keyOf issuer p \<mapsto> nested_value r1)"
    and ok1: "nested_ok r1" "nr_parent r1 = nr_parent r"
  proof -
    show "nested_ok r1" "nr_parent r1 = nr_parent r"
      using admit_ok [OF ok(1) _ assms(5)] assms(3) ok(2) by (auto simp: nested_grows_def)
    then have "written (nested_writes issuer mid (r1, step, ex)) m = m(nested_keyOf issuer p \<mapsto> nested_value r1)" for m
      using ok(2) by (simp add: nested_writes_def)
    moreover have "commit_then (\<lambda>_. False) st ep (nested_writes issuer mid (r1, step, ex)) reply = (Inr reply, st1)"
      using assms(4,5,6) by (simp add: nested_update_def cell_update_def)
    from commit_then_cases [OF this] have "getDocument st1 = written (nested_writes issuer mid (r1, step, ex)) (getDocument st)"
      by auto
    ultimately show "getDocument st1 = (getDocument st)(nested_keyOf issuer p \<mapsto> nested_value r1)" by simp
  qed
  have "nested_read issuer st1 p = Inr (Some r1)"
    using w ok1(1) by (simp add: nested_read_def decode_nested_value nested_ok_fin)
  then obtain r2 where r2: "nested_read issuer (nested_run issuer num_text xs st1) p = Inr (Some r2)" "nested_grows r1 r2"
    using nested_run_inv [OF inv1 assms(2)] by blast
  have "nested_admit issuer now' q (Some r2) =
      Inr (NAdmission (NAdmitted (child_ref issuer (nestedChildId (nq_parent q) (nq_childRequestId q))) (nq_target q) True), None)"
    by (rule admitted_replays [OF ok(1) assms(5) r2(2)])
  with r2(1) assms(3) show "nested_update issuer seam ep' mid' (nested_run issuer num_text xs st1) p (nested_admit issuer now' q) =
      (Inr (NAdmission (NAdmitted (child_ref issuer (nestedChildId p (nq_childRequestId q))) (nq_target q) True)),
       nested_run issuer num_text xs st1)"
    by (simp add: nested_update_def cell_update_def)
qed

theorem nested_replay_not_debited_witness:
  "\<exists>st1. fst (nested_update ''brain'' (\<lambda>_. False) (Fin 1) ''m1'' st1 ''p'' (nested_admit ''brain'' (Fin 6) sample_request)) =
     Inr (NAdmission (NAdmitted (child_ref ''brain'' (nestedChildId ''p'' ''c'')) ''t'' True))"
proof -
  obtain r1 step ex where ad: "nested_admit ''brain'' (Fin 5) sample_request (Some sample_opened) =
      Inr (NAdmission (NAdmitted (child_ref ''brain'' (nestedChildId ''p'' ''c'')) ''t'' False), Some (r1, step, ex))"
    using sample_admit by auto
  have "\<exists>st1. nested_update ''brain'' (\<lambda>_. False) (Fin 1) ''m'' nested_store ''p'' (nested_admit ''brain'' (Fin 5) sample_request) =
      (Inr (NAdmission (NAdmitted (child_ref ''brain'' (nestedChildId ''p'' ''c'')) ''t'' False)), st1)"
    using nested_store_commit by (simp add: nested_update_def cell_update_def nested_store_inv(2) ad)
  then obtain st1 where u: "nested_update ''brain'' (\<lambda>_. False) (Fin 1) ''m'' nested_store ''p'' (nested_admit ''brain'' (Fin 5) sample_request) =
      (Inr (NAdmission (NAdmitted (child_ref ''brain'' (nestedChildId ''p'' ''c'')) ''t'' False)), st1)" by blast
  have q: "nq_parent sample_request = ''p''" "nq_childRequestId sample_request = ''c''" "nq_target sample_request = ''t''"
    by (simp_all add: sample_request_def)
  have "nested_update ''brain'' (\<lambda>_. False) (Fin 1) ''m1'' (nested_run ''brain'' (\<lambda>_. []) [] st1) ''p'' (nested_admit ''brain'' (Fin 6) sample_request) =
      (Inr (NAdmission (NAdmitted (child_ref ''brain'' (nestedChildId ''p'' ''c'')) ''t'' True)), nested_run ''brain'' (\<lambda>_. []) [] st1)"
    using nested_replay_not_debited [OF nested_store_inv(1) _ q(1) nested_store_inv(2) ad u, where xs = "[]"]
    by (simp add: q)
  then show ?thesis by (intro exI [of _ st1]) simp
qed

text \<open>A cancel reaches every child and lets no new one in: the cancel names every child of the
  parent, and at any later time the record is still cancelled, has exactly the same children, and
  holds a queued or delivered cancel for each of them.\<close>

theorem nested_cancel_covers_children:
  assumes "nested_inv issuer st" and "list_all nested_input_ok xs" and "nested_read issuer st p = Inr (Some r)"
    and "nested_update issuer (\<lambda>_. False) ep mid st p (nested_cancel issuer) = (Inr (NTargets ts), st1)"
  shows "ts = cancel_targets issuer r \<and>
    (\<exists>r2. nested_read issuer (nested_run issuer num_text xs st1) p = Inr (Some r2) \<and> nr_cancelled r2 \<and>
       nr_children r2 = nr_children r \<and>
       (\<forall>k c. map_of (nr_children r) k = Some c \<longrightarrow> map_of (nr_cancels r2) (nc_executionId c) \<noteq> None))"
proof -
  have ok: "nested_ok r" "np_executionId (nr_parent r) = p" using nested_read_inv [OF assms(1,3)] by auto
  have u: "nested_update issuer (\<lambda>_. False) ep mid st p (nested_decide issuer num_text p NCancel) = (Inr (NTargets ts), st1)"
    using assms(4) by simp
  have inv1: "nested_inv issuer st1" using nested_update_read [OF assms(1) _ u] by simp
  have "ts = cancel_targets issuer r \<and> (\<exists>r1. nested_read issuer st1 p = Inr (Some r1) \<and> nr_cancelled r1 \<and> nr_children r1 = nr_children r)"
    using assms(4) unfolding nested_update_def
  proof (cases rule: cell_update_cases)
    case same
    then show ?thesis using assms(3) by (auto simp: nested_cancel_def split: if_splits)
  next
    case (stored rec a w)
    then obtain r1 step ex where d: "nested_cancel issuer (Some r) = Inr (NTargets ts, Some (r1, step, ex))"
      and doc: "getDocument st1 = written (nested_writes issuer mid (r1, step, ex)) (getDocument st)"
      using assms(3) by (cases w) auto
    from cancel_ok [OF ok(1) d] have ok1: "nested_ok r1" "nested_grows r r1" "nr_cancelled r1" by auto
    then have "nested_read issuer st1 p = Inr (Some r1)"
      using doc ok(2) by (simp add: nested_writes_def nested_read_def nested_grows_def decode_nested_value nested_ok_fin)
    with d ok1(3) show ?thesis by (auto simp: nested_cancel_def split: if_splits)
  qed
  moreover from this obtain r1 where r1: "nested_read issuer st1 p = Inr (Some r1)" "nr_cancelled r1" "nr_children r1 = nr_children r"
    by blast
  moreover obtain r2 where r2: "nested_read issuer (nested_run issuer num_text xs st1) p = Inr (Some r2)" "nested_grows r1 r2"
    using nested_run_inv [OF inv1 assms(2)] r1(1) by blast
  moreover have "nested_ok r2" using nested_read_inv [OF _ r2(1)] nested_run_inv [OF inv1 assms(2)] by blast
  ultimately show ?thesis by (auto simp: nested_grows_def nested_ok_def)
qed

theorem nested_cancel_covers_children_witness:
  "\<exists>ts st1 r2. nested_update ''brain'' (\<lambda>_. False) (Fin 1) ''m'' nested_store ''p'' (nested_cancel ''brain'') = (Inr (NTargets ts), st1) \<and>
     nested_read ''brain'' (nested_run ''brain'' (\<lambda>_. []) [] st1) ''p'' = Inr (Some r2) \<and> nr_cancelled r2"
proof -
  have "\<exists>ts st1. nested_update ''brain'' (\<lambda>_. False) (Fin 1) ''m'' nested_store ''p'' (nested_cancel ''brain'') = (Inr (NTargets ts), st1)"
    using nested_store_inv(2)
    by (simp add: nested_update_def cell_update_def nested_cancel_def sample_opened_def) (blast intro: nested_store_commit)
  then obtain ts st1 where u: "nested_update ''brain'' (\<lambda>_. False) (Fin 1) ''m'' nested_store ''p'' (nested_cancel ''brain'') = (Inr (NTargets ts), st1)"
    by blast
  from nested_cancel_covers_children [OF nested_store_inv(1) _ nested_store_inv(2) u, of "[]" "\<lambda>_. []"] u
  show ?thesis by auto
qed

text \<open>An unchecked renewal makes the record unreadable: a renewal whose lease is NaN is written (an
  open would have been refused), and from then on every read of that parent, and with it every admission,
  release, settlement and cancel, fails as a corrupt record. An activity that expires at minus infinity
  passes the check against the parent's expiry and does the same.\<close>

theorem renew_nan_corrupts:
  assumes "nested_ok r" and "np_executionId (nr_parent r) = p" and "nested_read issuer st p = Inr (Some r)"
    and "nested_update issuer (\<lambda>_. False) ep mid st p (nested_renew p NaN) = (Inr reply, st')"
  shows "nested_read issuer st' p = Inl (ErrorMessage ''corrupt nested admission record'') \<and>
    nested_update issuer seam ep' mid' st' p decide = (Inl (ErrorMessage ''corrupt nested admission record''), st')"
proof -
  let ?r = "r\<lparr>nr_expiresAt := NaN\<rparr>"
  have d: "nested_renew p NaN (Some r) = Inr (NExpiresAt NaN, Some (?r, ''renew'', None))"
    by (simp add: nested_renew_def num_max_def num_min_def number_eq_iff Let_def)
  then have "commit_then (\<lambda>_. False) st ep (nested_writes issuer mid (?r, ''renew'', None)) (NExpiresAt NaN) = (Inr reply, st')"
    using assms(3,4) by (simp add: nested_update_def cell_update_def)
  from commit_then_cases [OF this] have "getDocument st' (nested_keyOf issuer p) = Some (nested_value ?r)"
    using assms(2) by (auto simp: nested_writes_def)
  moreover have "\<not> nested_record_ok (nested_value ?r)"
    unfolding nested_record_ok_def Let_def nested_value_fields numbers_ok_def by simp
  ultimately have "nested_read issuer st' p = Inl (ErrorMessage ''corrupt nested admission record'')"
    by (simp add: nested_read_def decodeNestedRecord_def)
  then show ?thesis by (simp add: nested_update_def cell_update_def)
qed

theorem renew_nan_corrupts_witness:
  "\<exists>st'. nested_read ''brain'' st' ''p'' = Inl (ErrorMessage ''corrupt nested admission record'') \<and>
     nested_update ''brain'' (\<lambda>_. False) (Fin 1) ''m'' nested_store ''p'' (nested_renew ''p'' NaN) = (Inr (NExpiresAt NaN), st')"
proof -
  have p: "np_executionId (nr_parent sample_opened) = ''p''" by (simp add: nested_samples)
  have d: "nested_renew ''p'' NaN (Some sample_opened) = Inr (NExpiresAt NaN, Some (sample_opened\<lparr>nr_expiresAt := NaN\<rparr>, ''renew'', None))"
    by (simp add: nested_renew_def num_max_def num_min_def number_eq_iff Let_def)
  obtain st' where "nested_update ''brain'' (\<lambda>_. False) (Fin 1) ''m'' nested_store ''p'' (nested_renew ''p'' NaN) = (Inr (NExpiresAt NaN), st')"
    using nested_store_commit [of "(sample_opened\<lparr>nr_expiresAt := NaN\<rparr>, ''renew'', None)" "NExpiresAt NaN"] nested_store_inv(2) d
    by (auto simp: nested_update_def cell_update_def)
  with renew_nan_corrupts [OF sample_opened_ok p nested_store_inv(2) this] show ?thesis by blast
qed

end
