(* ===== verification/Wake_Mail.thy ===== *)
theory Wake_Mail
  imports Durable_Store
begin

text \<open>
  Wakes from a hand to the brain that owns its scope (execution/wake-types.ts, wake-outbox.ts and
  wake-inbox.ts): the hand's durable outbox, the brain's durable inbox, and the link between them. A
  wake leaves the outbox only by an acknowledgement or by a logged expiry, and is committed to the
  inbox once. The clock, the minted ids, the sends and the consumer are arguments. Decoding checks
  only the outer shape, as the code does; the typed view of a value that has that shape but was not
  written by this code is not the code's.
\<close>

section \<open>Data\<close>

definition WAKE_RETENTION_MS :: number where
  "WAKE_RETENTION_MS = Fin (7 * 24 * 60 * 60 * 1000)"

record wake_event =
  we_eventId :: string
  we_scope :: string
  we_source :: string
  we_payload :: store_value

datatype wake_refusal = NotScopeHand | UnknownScope | WakeScopeClosed

datatype wake_receipt = WakeAck string bool | WakeRefused string wake_refusal

fun receipt_id :: "wake_receipt \<Rightarrow> string" where
  "receipt_id (WakeAck e _) = e"
| "receipt_id (WakeRefused e _) = e"

record wake_outbox =
  wo_pending :: "wake_event list"
  wo_refused :: "wake_refusal obj"
  wo_closed :: "number obj"

record wake_inbox =
  wi_seen :: "string list obj"
  wi_pending :: "wake_event list"
  wi_closed :: "number obj"

definition EMPTY_outbox :: wake_outbox where
  "EMPTY_outbox = \<lparr>wo_pending = [], wo_refused = [], wo_closed = []\<rparr>"

definition EMPTY_inbox :: wake_inbox where
  "EMPTY_inbox = \<lparr>wi_seen = [], wi_pending = [], wi_closed = []\<rparr>"

section \<open>Codecs\<close>

definition wake_value :: "wake_event \<Rightarrow> store_value" where
  "wake_value w = SObj [(''eventId'', SStr (we_eventId w)), (''scope'', SStr (we_scope w)), (''source'', SStr (we_source w)),
     (''payload'', we_payload w)]"

definition the_wake :: "store_value \<Rightarrow> wake_event" where
  "the_wake value = (let v = Some value in
     \<lparr>we_eventId = get_str (fld v ''eventId''), we_scope = get_str (fld v ''scope''), we_source = get_str (fld v ''source''),
      we_payload = (case fld v ''payload'' of Some p \<Rightarrow> p | None \<Rightarrow> SNull)\<rparr>)"

fun wake_refusal_name :: "wake_refusal \<Rightarrow> string" where
  "wake_refusal_name NotScopeHand = ''not_scope_hand''"
| "wake_refusal_name UnknownScope = ''unknown_scope''"
| "wake_refusal_name WakeScopeClosed = ''scope_closed''"

definition the_wake_refusal :: "store_value \<Rightarrow> wake_refusal" where
  "the_wake_refusal v = (if v = SStr ''not_scope_hand'' then NotScopeHand
     else if v = SStr ''unknown_scope'' then UnknownScope else WakeScopeClosed)"

definition outbox_value :: "wake_outbox \<Rightarrow> store_value" where
  "outbox_value r = SObj [(''pending'', SList (map wake_value (wo_pending r))),
     (''refused'', fields_value (\<lambda>x. SStr (wake_refusal_name x)) (wo_refused r)), (''closed'', fields_value SNum (wo_closed r))]"

definition inbox_value :: "wake_inbox \<Rightarrow> store_value" where
  "inbox_value r = SObj [(''seen'', fields_value str_list_value (wi_seen r)),
     (''pending'', SList (map wake_value (wi_pending r))), (''closed'', fields_value SNum (wi_closed r))]"

definition the_outbox :: "store_value \<Rightarrow> wake_outbox" where
  "the_outbox value = (let v = Some value in
     \<lparr>wo_pending = map the_wake (get_list (fld v ''pending'')), wo_refused = get_fields the_wake_refusal (fld v ''refused''),
      wo_closed = get_fields (\<lambda>x. get_num (Some x)) (fld v ''closed'')\<rparr>)"

definition the_inbox :: "store_value \<Rightarrow> wake_inbox" where
  "the_inbox value = (let v = Some value in
     \<lparr>wi_seen = get_fields (\<lambda>x. get_str_list (Some x)) (fld v ''seen''), wi_pending = map the_wake (get_list (fld v ''pending'')),
      wi_closed = get_fields (\<lambda>x. get_num (Some x)) (fld v ''closed'')\<rparr>)"

definition decode_outbox :: "store_value \<Rightarrow> (failure, wake_outbox) result" where
  "decode_outbox value =
     (let v = Some value in
      if is_store_object v \<and> is_list (fld v ''pending'') \<and> is_store_object (fld v ''refused'') \<and> is_store_object (fld v ''closed'')
      then Inr (the_outbox value) else Inl (ErrorMessage ''corrupt wake outbox record''))"

definition decode_inbox :: "store_value \<Rightarrow> (failure, wake_inbox) result" where
  "decode_inbox value =
     (let v = Some value in
      if is_store_object v \<and> is_store_object (fld v ''seen'') \<and> is_list (fld v ''pending'') \<and> is_store_object (fld v ''closed'')
      then Inr (the_inbox value) else Inl (ErrorMessage ''corrupt wake inbox record''))"

lemma wake_roundtrip [simp]: "the_wake (wake_value w) = w"
  by (simp add: the_wake_def wake_value_def)

lemma wakes_roundtrip [simp]: "map (the_wake \<circ> wake_value) ws = ws"
  by (rule map_idI) simp

lemma wake_refusal_roundtrip [simp]: "the_wake_refusal (SStr (wake_refusal_name x)) = x"
  by (cases x) (simp_all add: the_wake_refusal_def)

lemma wake_fields_roundtrip [simp]:
  "get_fields the_wake_refusal (Some (fields_value (\<lambda>x. SStr (wake_refusal_name x)) rs)) = rs"
  "get_fields (\<lambda>x. get_num (Some x)) (Some (fields_value SNum ns)) = ns"
  "get_fields (\<lambda>x. get_str_list (Some x)) (Some (fields_value str_list_value ss)) = ss"
  by (rule get_fields_value; simp)+

lemma decode_outbox_value: "decode_outbox (outbox_value r) = Inr r"
  by (simp add: decode_outbox_def the_outbox_def outbox_value_def)

lemma decode_inbox_value: "decode_inbox (inbox_value r) = Inr r"
  by (simp add: decode_inbox_def the_inbox_def inbox_value_def)

section \<open>The hand's outbox\<close>

definition outbox_key :: "string \<Rightarrow> string" where
  "outbox_key hand = ''execution.wake-outbox:'' @ json_string_list [hand]"

definition outbox_read :: "medium_state \<Rightarrow> string \<Rightarrow> (failure, wake_outbox option) result" where
  "outbox_read st hand =
     (case getDocument st (outbox_key hand) of None \<Rightarrow> Inr None
      | Some v \<Rightarrow> rbind (decode_outbox v) (\<lambda>r. Inr (Some r)))"

text \<open>A write: the record, the step, the event it is about, and the expiry records to log with it.\<close>

type_synonym outbox_write = "wake_outbox \<times> string \<times> string option \<times> store_value list"

definition outbox_writes :: "string \<Rightarrow> (nat \<Rightarrow> string) \<Rightarrow> outbox_write \<Rightarrow> store_write list" where
  "outbox_writes hand mids w =
     (case w of (record, step, eventId, extra) \<Rightarrow>
        Append (mids 0) ''execution.wake-outbox'' (SObj [(''step'', SStr step), (''eventId'', nullable_value eventId)]) #
        map (\<lambda>(i, d). Append (mids (i + 1)) ''execution.wake-expired'' d) (zip [0..<length extra] extra) @
        [Put (outbox_key hand) (outbox_value record)])"

datatype wake_reply = WakeUnit | WakeEventReply wake_event | WakeIds "string list" | WakeReceiptReply wake_receipt

definition outbox_offer :: "string \<Rightarrow> string \<Rightarrow> string \<Rightarrow> string \<Rightarrow> store_value \<Rightarrow> wake_outbox \<Rightarrow> wake_reply \<times> outbox_write option" where
  "outbox_offer hand mid scope source payload record =
     (let event = \<lparr>we_eventId = hand @ '':'' @ mid, we_scope = scope, we_source = source, we_payload = payload\<rparr>
      in (WakeEventReply event,
          Some (record\<lparr>wo_pending := wo_pending record @ [event]\<rparr>, ''offer'', Some (we_eventId event), [])))"

definition outbox_receipt :: "wake_receipt \<Rightarrow> wake_outbox \<Rightarrow> wake_reply \<times> outbox_write option" where
  "outbox_receipt answer record =
     (if \<not> list_ex (\<lambda>w. we_eventId w = receipt_id answer) (wo_pending record) then (WakeUnit, None)
      else case answer of
        WakeRefused eventId reason \<Rightarrow>
          if reason = UnknownScope \<or> map_of (wo_refused record) eventId = Some reason then (WakeUnit, None)
          else (WakeUnit, Some (record\<lparr>wo_refused := obj_put eventId reason (wo_refused record)\<rparr>, ''refused'', Some eventId, []))
      | WakeAck eventId _ \<Rightarrow>
          (WakeUnit, Some (record\<lparr>wo_pending := filter (\<lambda>w. we_eventId w \<noteq> eventId) (wo_pending record),
             wo_refused := obj_del eventId (wo_refused record)\<rparr>, ''ack'', Some eventId, [])))"

definition outbox_closeScope :: "number \<Rightarrow> string \<Rightarrow> wake_outbox \<Rightarrow> wake_reply \<times> outbox_write option" where
  "outbox_closeScope now scope record =
     (if map_of (wo_closed record) scope \<noteq> None then (WakeUnit, None)
      else (WakeUnit, Some (record\<lparr>wo_closed := obj_put scope now (wo_closed record)\<rparr>, ''close'', None, [])))"

definition wake_expired :: "number \<Rightarrow> wake_outbox \<Rightarrow> wake_event \<Rightarrow> bool" where
  "wake_expired now record wake =
     (case map_of (wo_closed record) (we_scope wake) of
        None \<Rightarrow> False | Some closedAt \<Rightarrow> num_lt (num_add closedAt WAKE_RETENTION_MS) now)"

definition outbox_sweep :: "number \<Rightarrow> wake_outbox \<Rightarrow> wake_reply \<times> outbox_write option" where
  "outbox_sweep now record =
     (let expired = filter (wake_expired now record) (wo_pending record); gone = map we_eventId expired in
      if expired = [] then (WakeIds [], None)
      else (WakeIds (remdups gone),
        Some (record\<lparr>wo_pending := filter (\<lambda>w. we_eventId w \<notin> set gone) (wo_pending record),
                     wo_refused := filter (\<lambda>(e, _). e \<notin> set gone) (wo_refused record)\<rparr>, ''sweep'', None,
          map (\<lambda>w. SObj [(''reason'', SStr ''wake_expired''), (''eventId'', SStr (we_eventId w)), (''scope'', SStr (we_scope w))])
            expired)))"

text \<open>\<open>update\<close>: an absent document is the empty record.\<close>

definition outbox_update :: "string \<Rightarrow> (write_point \<Rightarrow> bool) \<Rightarrow> number \<Rightarrow> (nat \<Rightarrow> string) \<Rightarrow> medium_state \<Rightarrow>
    (wake_outbox \<Rightarrow> wake_reply \<times> outbox_write option) \<Rightarrow> (failure, wake_reply) result \<times> medium_state" where
  "outbox_update hand seam ep mids st decide =
     cell_update (\<lambda>st. outbox_read st hand) (outbox_writes hand mids) seam ep st
       (\<lambda>r. Inr (decide (case r of None \<Rightarrow> EMPTY_outbox | Some x \<Rightarrow> x)))"

text \<open>\<open>reoffer\<close>: the wakes pending when it started, in offer order; \<open>send\<close> answers None when it throws.\<close>

fun reoffer_loop :: "string \<Rightarrow> (wake_event \<Rightarrow> wake_receipt option) \<Rightarrow> number \<Rightarrow> (nat \<Rightarrow> nat \<Rightarrow> string) \<Rightarrow> wake_refusal obj \<Rightarrow> nat \<Rightarrow>
    wake_event list \<Rightarrow> medium_state \<Rightarrow> (failure, nat) result \<times> medium_state" where
  "reoffer_loop hand send ep mids refused n [] st = (Inr n, st)"
| "reoffer_loop hand send ep mids refused n (w # ws) st =
     (if map_of refused (we_eventId w) \<noteq> None then reoffer_loop hand send ep mids refused n ws st
      else case send w of
        None \<Rightarrow> (Inl (ErrorMessage ''send''), st)
      | Some answer \<Rightarrow>
        (case outbox_update hand (\<lambda>_. False) ep (mids n) st (outbox_receipt answer) of
           (Inl e, st') \<Rightarrow> (Inl e, st')
         | (Inr _, st') \<Rightarrow> reoffer_loop hand send ep mids refused (n + 1) ws st'))"

definition outbox_reoffer :: "string \<Rightarrow> (wake_event \<Rightarrow> wake_receipt option) \<Rightarrow> number \<Rightarrow> (nat \<Rightarrow> nat \<Rightarrow> string) \<Rightarrow>
    medium_state \<Rightarrow> (failure, nat) result \<times> medium_state" where
  "outbox_reoffer hand send ep mids st =
     (case outbox_read st hand of Inl e \<Rightarrow> (Inl e, st)
      | Inr r \<Rightarrow> let record = (case r of None \<Rightarrow> EMPTY_outbox | Some x \<Rightarrow> x)
          in reoffer_loop hand send ep mids (wo_refused record) 0 (wo_pending record) st)"

section \<open>The brain's inbox\<close>

definition inbox_key :: "string \<Rightarrow> string" where
  "inbox_key issuer = ''execution.wake-inbox:'' @ json_string_list [issuer]"

definition inbox_read :: "medium_state \<Rightarrow> string \<Rightarrow> (failure, wake_inbox option) result" where
  "inbox_read st issuer =
     (case getDocument st (inbox_key issuer) of None \<Rightarrow> Inr None
      | Some v \<Rightarrow> rbind (decode_inbox v) (\<lambda>r. Inr (Some r)))"

type_synonym inbox_write = "wake_inbox \<times> string \<times> string option"

definition inbox_writes :: "string \<Rightarrow> string \<Rightarrow> inbox_write \<Rightarrow> store_write list" where
  "inbox_writes issuer mid w =
     (case w of (record, step, eventId) \<Rightarrow>
        [Append mid ''execution.wake-inbox'' (SObj [(''step'', SStr step), (''executionId'', nullable_value eventId)]),
         Put (inbox_key issuer) (inbox_value record)])"

definition seen_of :: "wake_inbox \<Rightarrow> string \<Rightarrow> string list" where
  "seen_of record scope = (case map_of (wi_seen record) scope of Some ids \<Rightarrow> ids | None \<Rightarrow> [])"

lemma seen_of_updates [simp]:
  "seen_of (r\<lparr>wi_pending := p\<rparr>) scope = seen_of r scope" "seen_of (r\<lparr>wi_closed := c\<rparr>) scope = seen_of r scope"
  "seen_of (r\<lparr>wi_seen := obj_put s ids (wi_seen r)\<rparr>) scope = (if scope = s then ids else seen_of r scope)"
  by (simp_all add: seen_of_def)

definition inbox_receive :: "(string \<Rightarrow> string option) \<Rightarrow> string \<Rightarrow> wake_event \<Rightarrow> wake_inbox \<Rightarrow> wake_receipt \<times> inbox_write option" where
  "inbox_receive owner sender wake record =
     (case owner (we_scope wake) of
        None \<Rightarrow> (WakeRefused (we_eventId wake) UnknownScope, None)
      | Some bound \<Rightarrow>
        if bound \<noteq> sender then (WakeRefused (we_eventId wake) NotScopeHand, None)
        else let seen = seen_of record (we_scope wake) in
          if we_eventId wake \<in> set seen then (WakeAck (we_eventId wake) True, None)
          else if map_of (wi_closed record) (we_scope wake) \<noteq> None then (WakeRefused (we_eventId wake) WakeScopeClosed, None)
          else (WakeAck (we_eventId wake) False,
            Some (record\<lparr>wi_seen := obj_put (we_scope wake) (seen @ [we_eventId wake]) (wi_seen record),
                         wi_pending := wi_pending record @ [wake]\<rparr>, ''commit'', Some (we_eventId wake))))"

text \<open>What a drain does after the consumer took a wake.\<close>

definition inbox_take :: "wake_event \<Rightarrow> wake_inbox \<Rightarrow> unit \<times> inbox_write option" where
  "inbox_take wake record =
     (if \<not> list_ex (\<lambda>w. we_eventId w = we_eventId wake) (wi_pending record) then ((), None)
      else ((), Some (record\<lparr>wi_pending := filter (\<lambda>w. we_eventId w \<noteq> we_eventId wake) (wi_pending record)\<rparr>,
        ''take'', Some (we_eventId wake))))"

definition inbox_closeScope :: "number \<Rightarrow> string \<Rightarrow> wake_inbox \<Rightarrow> unit \<times> inbox_write option" where
  "inbox_closeScope now scope record =
     (if map_of (wi_closed record) scope \<noteq> None then ((), None)
      else ((), Some (record\<lparr>wi_closed := obj_put scope now (wi_closed record)\<rparr>, ''close'', None)))"

definition inbox_sweep :: "number \<Rightarrow> wake_inbox \<Rightarrow> string list \<times> inbox_write option" where
  "inbox_sweep now record =
     (let gone = map fst (filter (\<lambda>(scope, closedAt). num_lt (num_add closedAt WAKE_RETENTION_MS) now \<and>
            map_of (wi_seen record) scope \<noteq> None) (wi_closed record)) in
      if gone = [] then ([], None)
      else (gone, Some (record\<lparr>wi_seen := filter (\<lambda>(scope, _). scope \<notin> set gone) (wi_seen record)\<rparr>, ''sweep'', None)))"

definition inbox_update :: "string \<Rightarrow> (write_point \<Rightarrow> bool) \<Rightarrow> number \<Rightarrow> string \<Rightarrow> medium_state \<Rightarrow>
    (wake_inbox \<Rightarrow> 'a \<times> inbox_write option) \<Rightarrow> (failure, 'a) result \<times> medium_state" where
  "inbox_update issuer seam ep mid st decide =
     cell_update (\<lambda>st. inbox_read st issuer) (inbox_writes issuer mid) seam ep st
       (\<lambda>r. Inr (decide (case r of None \<Rightarrow> EMPTY_inbox | Some x \<Rightarrow> x)))"

text \<open>\<open>drainOnce\<close>: the wakes pending when it started; \<open>consume\<close> answers False when it throws.\<close>

fun drain_loop :: "string \<Rightarrow> (wake_event \<Rightarrow> bool) \<Rightarrow> number \<Rightarrow> (nat \<Rightarrow> string) \<Rightarrow> nat \<Rightarrow> wake_event list \<Rightarrow> medium_state \<Rightarrow>
    (failure, nat) result \<times> medium_state" where
  "drain_loop issuer consume ep mids n [] st = (Inr n, st)"
| "drain_loop issuer consume ep mids n (w # ws) st =
     (if \<not> consume w then (Inl (ErrorMessage ''consume''), st)
      else case inbox_update issuer (\<lambda>_. False) ep (mids n) st (inbox_take w) of
        (Inl e, st') \<Rightarrow> (Inl e, st')
      | (Inr _, st') \<Rightarrow> drain_loop issuer consume ep mids (n + 1) ws st')"

definition inbox_drain :: "string \<Rightarrow> (wake_event \<Rightarrow> bool) \<Rightarrow> number \<Rightarrow> (nat \<Rightarrow> string) \<Rightarrow> medium_state \<Rightarrow>
    (failure, nat) result \<times> medium_state" where
  "inbox_drain issuer consume ep mids st =
     (case inbox_read st issuer of Inl e \<Rightarrow> (Inl e, st)
      | Inr r \<Rightarrow> drain_loop issuer consume ep mids 0 (wi_pending (case r of None \<Rightarrow> EMPTY_inbox | Some x \<Rightarrow> x)) st)"

section \<open>The records on their stores\<close>

lemma outbox_key_inj: "outbox_key h = outbox_key h' \<longleftrightarrow> h = h'"
  by (auto simp: outbox_key_def json_string_list1_inj)

lemma inbox_key_inj: "inbox_key h = inbox_key h' \<longleftrightarrow> h = h'"
  by (auto simp: inbox_key_def json_string_list1_inj)

interpretation outbox_cell: document_cell store_commit getDocument ms_records
  outbox_key outbox_value decode_outbox "\<lambda>_. True" outbox_read
  by unfold_locales (simp_all add: outbox_key_inj decode_outbox_value outbox_read_def)

interpretation inbox_cell: document_cell store_commit getDocument ms_records
  inbox_key inbox_value decode_inbox "\<lambda>_. True" inbox_read
  by unfold_locales (simp_all add: inbox_key_inj decode_inbox_value inbox_read_def)






section \<open>A hand, a brain and the link between them\<close>

text \<open>
  The two durable records and what happened so far: wakes offered, committed, handed to the consumer
  and expired, and the receipts the brain gave. Any offered wake may arrive any number of times and
  in any order, and so may any receipt; a crash is a step whose answer is never delivered.
\<close>

record wake_sys =
  ws_out :: wake_outbox
  ws_in :: wake_inbox
  ws_offered :: "wake_event list"
  ws_committed :: "wake_event list"
  ws_consumed :: "wake_event set"
  ws_expired :: "wake_event set"
  ws_receipts :: "wake_receipt set"

definition wake_init :: wake_sys where
  "wake_init = \<lparr>ws_out = EMPTY_outbox, ws_in = EMPTY_inbox, ws_offered = [], ws_committed = [], ws_consumed = {},
     ws_expired = {}, ws_receipts = {}\<rparr>"

inductive wake_step :: "string \<Rightarrow> wake_sys \<Rightarrow> wake_sys \<Rightarrow> bool" for hand where
  ws_offer: "outbox_offer hand mid scope source payload (ws_out y) = (WakeEventReply e, Some (o', step, eid, extra)) \<Longrightarrow>
    we_eventId e \<notin> we_eventId ` set (ws_offered y) \<Longrightarrow>
    wake_step hand y (y\<lparr>ws_out := o', ws_offered := ws_offered y @ [e]\<rparr>)"
| ws_receive: "w \<in> set (ws_offered y) \<Longrightarrow> inbox_receive owner hand w (ws_in y) = (answer, None) \<Longrightarrow>
    wake_step hand y (y\<lparr>ws_receipts := insert answer (ws_receipts y)\<rparr>)"
| ws_commit: "w \<in> set (ws_offered y) \<Longrightarrow> inbox_receive owner hand w (ws_in y) = (answer, Some (i', step, eid)) \<Longrightarrow>
    wake_step hand y (y\<lparr>ws_in := i', ws_committed := ws_committed y @ [w], ws_receipts := insert answer (ws_receipts y)\<rparr>)"
| ws_receipt: "answer \<in> ws_receipts y \<Longrightarrow> outbox_receipt answer (ws_out y) = (reply, Some (o', step, eid, extra)) \<Longrightarrow>
    wake_step hand y (y\<lparr>ws_out := o'\<rparr>)"
| ws_consume: "w \<in> set (wi_pending (ws_in y)) \<Longrightarrow> wake_step hand y (y\<lparr>ws_consumed := insert w (ws_consumed y)\<rparr>)"
| ws_take: "w \<in> ws_consumed y \<Longrightarrow> inbox_take w (ws_in y) = (u, Some (i', step, eid)) \<Longrightarrow> wake_step hand y (y\<lparr>ws_in := i'\<rparr>)"
| ws_close_hand: "outbox_closeScope now scope (ws_out y) = (reply, Some (o', step, eid, extra)) \<Longrightarrow>
    wake_step hand y (y\<lparr>ws_out := o'\<rparr>)"
| ws_close_brain: "inbox_closeScope now scope (ws_in y) = (u, Some (i', step, eid)) \<Longrightarrow> wake_step hand y (y\<lparr>ws_in := i'\<rparr>)"
| ws_sweep_hand: "outbox_sweep now (ws_out y) = (reply, Some (o', step, eid, extra)) \<Longrightarrow>
    wake_step hand y (y\<lparr>ws_out := o', ws_expired := ws_expired y \<union> {w \<in> set (wo_pending (ws_out y)). wake_expired now (ws_out y) w}\<rparr>)"
| ws_sweep_brain: "inbox_sweep now (ws_in y) = (gone, Some (i', step, eid)) \<Longrightarrow> wake_step hand y (y\<lparr>ws_in := i'\<rparr>)"

definition wake_inv :: "wake_sys \<Rightarrow> bool" where
  "wake_inv y \<longleftrightarrow>
     distinct (map we_eventId (ws_offered y)) \<and> distinct (map we_eventId (ws_committed y)) \<and>
     set (ws_committed y) \<subseteq> set (ws_offered y) \<and> set (wo_pending (ws_out y)) \<subseteq> set (ws_offered y) \<and>
     (\<forall>w \<in> set (ws_committed y). we_eventId w \<in> set (seen_of (ws_in y) (we_scope w)) \<or> map_of (wi_closed (ws_in y)) (we_scope w) \<noteq> None) \<and>
     (\<forall>scope. set (seen_of (ws_in y) scope) \<subseteq> we_eventId ` set (ws_committed y)) \<and>
     (\<forall>e d. WakeAck e d \<in> ws_receipts y \<longrightarrow> e \<in> we_eventId ` set (ws_committed y)) \<and>
     set (ws_offered y) \<subseteq> set (wo_pending (ws_out y)) \<union> set (ws_committed y) \<union> ws_expired y \<and>
     set (ws_committed y) \<subseteq> set (wi_pending (ws_in y)) \<union> ws_consumed y \<and>
     set (wi_pending (ws_in y)) \<subseteq> set (ws_committed y) \<and> ws_consumed y \<subseteq> set (ws_committed y) \<and>
     (\<forall>w \<in> ws_expired y. map_of (wo_closed (ws_out y)) (we_scope w) \<noteq> None)"

lemma same_event: "distinct (map we_eventId ws) \<Longrightarrow> w \<in> set ws \<Longrightarrow> w' \<in> set ws \<Longrightarrow> we_eventId w = we_eventId w' \<Longrightarrow> w = w'"
  by (simp add: distinct_map inj_on_def)

lemma receive_commit:
  assumes "inbox_receive owner sender w r = (answer, Some (r', step, eid))"
  shows "answer = WakeAck (we_eventId w) False" "we_eventId w \<notin> set (seen_of r (we_scope w))"
    "map_of (wi_closed r) (we_scope w) = None"
    "r' = r\<lparr>wi_seen := obj_put (we_scope w) (seen_of r (we_scope w) @ [we_eventId w]) (wi_seen r), wi_pending := wi_pending r @ [w]\<rparr>"
  using assms by (auto simp: inbox_receive_def Let_def split: option.splits if_splits)

lemma receive_quiet:
  assumes "inbox_receive owner sender w r = (WakeAck e d, None)"
  shows "e = we_eventId w \<and> e \<in> set (seen_of r (we_scope w))"
  using assms by (auto simp: inbox_receive_def Let_def split: option.splits if_splits)

lemma wake_inv_commit:
  assumes "wake_inv y" "w \<in> set (ws_offered y)" "inbox_receive owner hand w (ws_in y) = (answer, Some (i', step, eid))"
  shows "wake_inv (y\<lparr>ws_in := i', ws_committed := ws_committed y @ [w], ws_receipts := insert answer (ws_receipts y)\<rparr>)"
proof -
  note r = receive_commit [OF assms(3)]
  have new: "we_eventId w \<notin> we_eventId ` set (ws_committed y)"
  proof
    assume "we_eventId w \<in> we_eventId ` set (ws_committed y)"
    then obtain w' where w': "w' \<in> set (ws_committed y)" "we_eventId w' = we_eventId w" by auto
    then have "w' = w" using assms(1,2) same_event [of "ws_offered y" w' w] by (auto simp: wake_inv_def)
    with w'(1) assms(1) r(2,3) show False by (auto simp: wake_inv_def)
  qed
  have seen: "seen_of i' scope = (if scope = we_scope w then seen_of (ws_in y) scope @ [we_eventId w] else seen_of (ws_in y) scope)"
    for scope by (simp add: r(4))
  have closed: "wi_closed i' = wi_closed (ws_in y)" "wi_pending i' = wi_pending (ws_in y) @ [w]" by (simp_all add: r(4))
  note inv = assms(1) [unfolded wake_inv_def]
  show ?thesis unfolding wake_inv_def
  proof (intro conjI)
    show "\<forall>w' \<in> set (ws_committed (y\<lparr>ws_in := i', ws_committed := ws_committed y @ [w], ws_receipts := insert answer (ws_receipts y)\<rparr>)).
        we_eventId w' \<in> set (seen_of (ws_in (y\<lparr>ws_in := i', ws_committed := ws_committed y @ [w], ws_receipts := insert answer (ws_receipts y)\<rparr>)) (we_scope w')) \<or>
        map_of (wi_closed (ws_in (y\<lparr>ws_in := i', ws_committed := ws_committed y @ [w], ws_receipts := insert answer (ws_receipts y)\<rparr>))) (we_scope w') \<noteq> None"
      using inv by (auto simp: seen closed)
    show "\<forall>scope. set (seen_of (ws_in (y\<lparr>ws_in := i', ws_committed := ws_committed y @ [w], ws_receipts := insert answer (ws_receipts y)\<rparr>)) scope) \<subseteq>
        we_eventId ` set (ws_committed (y\<lparr>ws_in := i', ws_committed := ws_committed y @ [w], ws_receipts := insert answer (ws_receipts y)\<rparr>))"
      using inv by (auto simp: seen)
  qed (use inv assms(2) new in \<open>auto simp: r(1) closed\<close>)
qed

lemma wake_inv_sweep_brain:
  assumes "wake_inv y" "inbox_sweep now (ws_in y) = (gone, Some (i', step, eid))"
  shows "wake_inv (y\<lparr>ws_in := i'\<rparr>)"
proof -
  have i': "i' = (ws_in y)\<lparr>wi_seen := filter (\<lambda>(scope, _). scope \<notin> set gone) (wi_seen (ws_in y))\<rparr>"
    and gone: "set gone \<subseteq> fst ` set (wi_closed (ws_in y))"
    using assms(2) by (auto simp: inbox_sweep_def Let_def split: if_splits)
  have seen: "seen_of i' scope = (if scope \<in> set gone then [] else seen_of (ws_in y) scope)" for scope
    by (auto simp: i' seen_of_def map_of_filter_key [where P = "\<lambda>s. s \<notin> set gone"])
  have closed: "map_of (wi_closed (ws_in y)) scope \<noteq> None" if "scope \<in> set gone" for scope
    using gone that by (auto simp: map_of_eq_None_iff)
  have frame: "wi_pending i' = wi_pending (ws_in y)" "wi_closed i' = wi_closed (ws_in y)" by (simp_all add: i')
  show ?thesis using assms(1) closed unfolding wake_inv_def by (auto simp: seen frame split: if_splits)
qed

lemma wake_inv_sweep_hand:
  assumes "wake_inv y" "outbox_sweep now (ws_out y) = (reply, Some (o', step, eid, extra))"
  shows "wake_inv (y\<lparr>ws_out := o', ws_expired := ws_expired y \<union> {w \<in> set (wo_pending (ws_out y)). wake_expired now (ws_out y) w}\<rparr>)"
proof -
  let ?gone = "we_eventId ` {w \<in> set (wo_pending (ws_out y)). wake_expired now (ws_out y) w}"
  have o': "wo_pending o' = filter (\<lambda>w. we_eventId w \<notin> ?gone) (wo_pending (ws_out y))" "wo_closed o' = wo_closed (ws_out y)"
    using assms(2) by (auto simp: outbox_sweep_def Let_def split: if_splits)
  have keep: "w \<in> set (wo_pending o') \<or> wake_expired now (ws_out y) w" if p: "w \<in> set (wo_pending (ws_out y))" for w
  proof (rule ccontr)
    assume "\<not> (w \<in> set (wo_pending o') \<or> wake_expired now (ws_out y) w)"
    then obtain w' where "w' \<in> set (wo_pending (ws_out y))" "wake_expired now (ws_out y) w'" "we_eventId w' = we_eventId w"
      "\<not> wake_expired now (ws_out y) w" using p o'(1) by auto
    with same_event [of "ws_offered y" w' w] assms(1) p show False by (auto simp: wake_inv_def)
  qed
  have closed: "map_of (wo_closed (ws_out y)) (we_scope w) \<noteq> None" if "wake_expired now (ws_out y) w" for w
    using that by (auto simp: wake_expired_def split: option.splits)
  let ?ex = "ws_expired y \<union> {w \<in> set (wo_pending (ws_out y)). wake_expired now (ws_out y) w}"
  have "set (ws_offered y) \<subseteq> set (wo_pending o') \<union> set (ws_committed y) \<union> ?ex"
    using assms(1) keep unfolding wake_inv_def by blast
  moreover have "set (wo_pending o') \<subseteq> set (ws_offered y)"
    using assms(1) unfolding wake_inv_def o'(1) by auto
  moreover have "\<forall>w \<in> ?ex. map_of (wo_closed o') (we_scope w) \<noteq> None"
    using assms(1) closed unfolding wake_inv_def o'(2) by blast
  ultimately show ?thesis using assms(1) unfolding wake_inv_def by simp
qed

lemma wake_inv_receipt:
  assumes "wake_inv y" "answer \<in> ws_receipts y" "outbox_receipt answer (ws_out y) = (reply, Some (o', step, eid, extra))"
  shows "wake_inv (y\<lparr>ws_out := o'\<rparr>)"
proof (cases answer)
  case (WakeRefused e reason)
  then have "wo_pending o' = wo_pending (ws_out y)" "wo_closed o' = wo_closed (ws_out y)"
    using assms(3) by (auto simp: outbox_receipt_def split: if_splits)
  with assms(1) show ?thesis unfolding wake_inv_def by simp
next
  case (WakeAck e d)
  then have o': "wo_pending o' = filter (\<lambda>w. we_eventId w \<noteq> e) (wo_pending (ws_out y))" "wo_closed o' = wo_closed (ws_out y)"
    using assms(3) by (auto simp: outbox_receipt_def split: if_splits)
  obtain c where c: "c \<in> set (ws_committed y)" "we_eventId c = e"
    using assms(1,2) WakeAck unfolding wake_inv_def by blast
  have "w \<in> set (ws_committed y)" if "w \<in> set (wo_pending (ws_out y))" "we_eventId w = e" for w
    using same_event [of "ws_offered y" w c] assms(1) that c by (auto simp: wake_inv_def)
  with assms(1) show ?thesis unfolding wake_inv_def by (auto simp: o')
qed

lemma wake_inv_step: "wake_step hand y y' \<Longrightarrow> wake_inv y \<Longrightarrow> wake_inv y'"
proof (induction rule: wake_step.induct)
  case (ws_offer mid scope source payload y e o' step eid extra)
  then have "o' = (ws_out y)\<lparr>wo_pending := wo_pending (ws_out y) @ [e]\<rparr>" by (auto simp: outbox_offer_def Let_def)
  with ws_offer show ?case unfolding wake_inv_def by auto
next
  case (ws_receive w y owner answer)
  have "e \<in> we_eventId ` set (ws_committed y)" if "answer = WakeAck e d" for e d
    using receive_quiet [of owner hand w "ws_in y" e d] ws_receive that unfolding wake_inv_def by blast
  with ws_receive(3) show ?case unfolding wake_inv_def by auto
next
  case (ws_consume w y)
  then show ?case unfolding wake_inv_def by auto
next
  case (ws_take w y u i' step eid)
  have i': "i' = (ws_in y)\<lparr>wi_pending := filter (\<lambda>x. we_eventId x \<noteq> we_eventId w) (wi_pending (ws_in y))\<rparr>"
    using ws_take(2) by (auto simp: inbox_take_def split: if_splits)
  have "x = w" if "x \<in> set (ws_committed y)" "we_eventId x = we_eventId w" for x
    using same_event [of "ws_committed y" x w] ws_take(1,3) that by (auto simp: wake_inv_def)
  with ws_take(1,3) show ?case unfolding wake_inv_def by (auto simp: i')
next
  case (ws_close_hand now scope y reply o' step eid extra)
  then have "o' = (ws_out y)\<lparr>wo_closed := obj_put scope now (wo_closed (ws_out y))\<rparr>" by (auto simp: outbox_closeScope_def split: if_splits)
  with ws_close_hand(2) show ?case unfolding wake_inv_def by simp
next
  case (ws_close_brain now scope y u i' step eid)
  then have "i' = (ws_in y)\<lparr>wi_closed := obj_put scope now (wi_closed (ws_in y))\<rparr>" by (auto simp: inbox_closeScope_def split: if_splits)
  with ws_close_brain(2) show ?case unfolding wake_inv_def by simp
qed (blast intro: wake_inv_commit wake_inv_receipt wake_inv_sweep_hand wake_inv_sweep_brain)+

section \<open>Properties of wakes\<close>

text \<open>C7. No wake is lost and none is taken twice: in every state a hand, its brain and an unreliable link
  between them can reach, a wake the hand offered is still pending in its outbox, or committed to the
  brain's inbox, or was dropped by the retention sweep after its scope closed; no event is committed
  twice, however often it is re-offered; and a committed wake stays pending until the consumer has had
  it.\<close>

theorem wakes_neither_lost_nor_doubled:
  assumes "(wake_step hand)\<^sup>*\<^sup>* wake_init y"
  shows "distinct (map we_eventId (ws_committed y)) \<and> set (ws_committed y) \<subseteq> set (ws_offered y) \<and>
    set (ws_offered y) \<subseteq> set (wo_pending (ws_out y)) \<union> set (ws_committed y) \<union> ws_expired y \<and>
    (\<forall>w \<in> ws_expired y. map_of (wo_closed (ws_out y)) (we_scope w) \<noteq> None) \<and>
    set (ws_committed y) \<subseteq> set (wi_pending (ws_in y)) \<union> ws_consumed y \<and> ws_consumed y \<subseteq> set (ws_committed y)"
proof -
  have "wake_inv wake_init" by (simp add: wake_inv_def wake_init_def EMPTY_outbox_def EMPTY_inbox_def seen_of_def)
  with assms have "wake_inv y" by (induction rule: rtranclp_induct) (blast intro: wake_inv_step)+
  then show ?thesis unfolding wake_inv_def by blast
qed

text \<open>One wake offered and committed.\<close>

definition sample_wake :: wake_event where
  "sample_wake = \<lparr>we_eventId = ''h:1'', we_scope = ''s'', we_source = ''timer'', we_payload = SNull\<rparr>"

definition sample_wake_sys :: wake_sys where
  "sample_wake_sys = wake_init\<lparr>ws_out := EMPTY_outbox\<lparr>wo_pending := [sample_wake]\<rparr>, ws_offered := [sample_wake],
     ws_in := \<lparr>wi_seen = [(''s'', [''h:1''])], wi_pending = [sample_wake], wi_closed = []\<rparr>,
     ws_committed := [sample_wake], ws_receipts := {WakeAck ''h:1'' False}\<rparr>"

lemma sample_wake_reach: "(wake_step ''h'')\<^sup>*\<^sup>* wake_init sample_wake_sys"
proof -
  let ?y1 = "wake_init\<lparr>ws_out := EMPTY_outbox\<lparr>wo_pending := [sample_wake]\<rparr>, ws_offered := ws_offered wake_init @ [sample_wake]\<rparr>"
  have "outbox_offer ''h'' ''1'' ''s'' ''timer'' SNull (ws_out wake_init) =
      (WakeEventReply sample_wake, Some (EMPTY_outbox\<lparr>wo_pending := [sample_wake]\<rparr>, ''offer'', Some ''h:1'', []))"
    by (simp add: outbox_offer_def wake_init_def sample_wake_def EMPTY_outbox_def Let_def)
  then have "wake_step ''h'' wake_init ?y1" by (rule ws_offer) (simp add: wake_init_def)
  moreover have "wake_step ''h'' ?y1 sample_wake_sys"
  proof -
    let ?in = "\<lparr>wi_seen = [(''s'', [''h:1''])], wi_pending = [sample_wake], wi_closed = []\<rparr>"
    have "inbox_receive (\<lambda>_. Some ''h'') ''h'' sample_wake (ws_in ?y1) = (WakeAck ''h:1'' False, Some (?in, ''commit'', Some ''h:1''))"
      by (simp add: inbox_receive_def wake_init_def EMPTY_inbox_def sample_wake_def seen_of_def)
    then have "wake_step ''h'' ?y1 (?y1\<lparr>ws_in := ?in, ws_committed := ws_committed ?y1 @ [sample_wake],
        ws_receipts := insert (WakeAck ''h:1'' False) (ws_receipts ?y1)\<rparr>)"
      by (intro ws_commit) (simp_all add: wake_init_def)
    then show ?thesis by (simp add: sample_wake_sys_def wake_init_def)
  qed
  ultimately show ?thesis by (meson converse_rtranclp_into_rtranclp rtranclp.rtrancl_refl)
qed

theorem wakes_neither_lost_nor_doubled_witness:
  "ws_committed sample_wake_sys = [sample_wake] \<and> distinct (map we_eventId (ws_committed sample_wake_sys)) \<and>
   set (ws_offered sample_wake_sys) \<subseteq>
     set (wo_pending (ws_out sample_wake_sys)) \<union> set (ws_committed sample_wake_sys) \<union> ws_expired sample_wake_sys"
  using wakes_neither_lost_nor_doubled [OF sample_wake_reach] by (simp add: sample_wake_sys_def)



end
