(* ===== verification/Scope_Lifecycle.thy ===== *)
theory Scope_Lifecycle
  imports Durable_Store
begin

text \<open>
  The scopes of an endpoint (execution/scope-lifecycle.ts): opening, lifecycle events, calls, held
  resources, closing by the issuer, and the sweep of idle scopes. The operations that consist of
  several admissions (a lifecycle event, a close) are given both as the decision of each admission
  and as the whole loop; the queue of steps of one scope is the order the steps are run in. The clock,
  handlers and the terminate port are arguments. Decoding checks only the outer shape, as the code
  does.
\<close>

section \<open>Data\<close>

record scope_binding =
  sb_issuer :: string
  sb_workspace :: string
  sb_scope :: string
  sb_generation :: number
  sb_allowedRoots :: "string list"

datatype scope_state = ScopeOpen | ScopeClosed

record scope_event =
  se_seq :: nat
  se_kind :: string
  se_effect :: store_value

record scope_record =
  sc_binding :: scope_binding
  sc_state :: scope_state
  sc_lastActiveAt :: number
  sc_resources :: "string obj"
  sc_events :: "scope_event list"
  sc_outcomes :: "store_value obj"

datatype scope_refusal = RUnknownScope | RNotIssuer | RClosed | RLiveResources | RConflictingScope

section \<open>The record codec\<close>

definition binding_value :: "scope_binding \<Rightarrow> store_value" where
  "binding_value b = SObj [(''issuer'', SStr (sb_issuer b)), (''workspace'', SStr (sb_workspace b)), (''scope'', SStr (sb_scope b)),
     (''generation'', SNum (sb_generation b)), (''allowedRoots'', str_list_value (sb_allowedRoots b))]"

definition the_binding :: "store_value option \<Rightarrow> scope_binding" where
  "the_binding v = \<lparr>sb_issuer = get_str (fld v ''issuer''), sb_workspace = get_str (fld v ''workspace''),
     sb_scope = get_str (fld v ''scope''), sb_generation = get_num (fld v ''generation''),
     sb_allowedRoots = get_str_list (fld v ''allowedRoots'')\<rparr>"

definition event_value :: "scope_event \<Rightarrow> store_value" where
  "event_value e = SObj [(''seq'', SNum (num_of_nat (se_seq e))), (''kind'', SStr (se_kind e)), (''effect'', se_effect e)]"

definition the_event :: "store_value \<Rightarrow> scope_event" where
  "the_event value = (let v = Some value in
     \<lparr>se_seq = (case get_num (fld v ''seq'') of Fin q \<Rightarrow> nat \<lfloor>q\<rfloor> | _ \<Rightarrow> 0), se_kind = get_str (fld v ''kind''),
      se_effect = (case fld v ''effect'' of Some e \<Rightarrow> e | None \<Rightarrow> SNull)\<rparr>)"

definition scope_value :: "scope_record \<Rightarrow> store_value" where
  "scope_value r = SObj
     [(''binding'', binding_value (sc_binding r)),
      (''state'', SStr (case sc_state r of ScopeOpen \<Rightarrow> ''open'' | ScopeClosed \<Rightarrow> ''closed'')),
      (''lastActiveAt'', SNum (sc_lastActiveAt r)), (''resources'', fields_value SStr (sc_resources r)),
      (''events'', SList (map event_value (sc_events r))), (''outcomes'', SObj (sc_outcomes r))]"

definition the_scope :: "store_value \<Rightarrow> scope_record" where
  "the_scope value = (let v = Some value in
     \<lparr>sc_binding = the_binding (fld v ''binding''),
      sc_state = (if fld v ''state'' = Some (SStr ''open'') then ScopeOpen else ScopeClosed),
      sc_lastActiveAt = get_num (fld v ''lastActiveAt''), sc_resources = get_fields (\<lambda>x. get_str (Some x)) (fld v ''resources''),
      sc_events = map the_event (get_list (fld v ''events'')), sc_outcomes = obj_fields (fld v ''outcomes'')\<rparr>)"

definition scope_decode :: "store_value \<Rightarrow> (failure, scope_record) result" where
  "scope_decode value =
     (let v = Some value in
      if is_store_object v \<and> is_store_object (fld v ''binding'') \<and>
         (fld v ''state'' = Some (SStr ''open'') \<or> fld v ''state'' = Some (SStr ''closed'')) \<and>
         is_num (fld v ''lastActiveAt'') \<and> is_store_object (fld v ''resources'') \<and> is_list (fld v ''events'') \<and>
         is_store_object (fld v ''outcomes'')
      then Inr (the_scope value) else Inl (ErrorMessage ''corrupt scope record''))"

lemma binding_roundtrip [simp]: "the_binding (Some (binding_value b)) = b" "is_store_object (Some (binding_value b))"
  by (simp_all add: the_binding_def binding_value_def)

lemma event_roundtrip [simp]: "the_event (event_value e) = e"
  by (simp add: the_event_def event_value_def)

lemma events_roundtrip [simp]: "map (the_event \<circ> event_value) es = es"
  by (rule map_idI) simp

lemma resources_roundtrip [simp]: "get_fields (\<lambda>x. get_str (Some x)) (Some (fields_value SStr rs)) = rs"
  by (rule get_fields_value) simp

lemma scope_decode_value: "scope_decode (scope_value r) = Inr r"
  by (cases "sc_state r") (simp_all add: scope_decode_def the_scope_def scope_value_def)

section \<open>Operations\<close>

definition scope_PREFIX :: string where
  "scope_PREFIX = ''execution.scope:''"

definition scope_keyOf :: "string \<Rightarrow> string" where
  "scope_keyOf scope = scope_PREFIX @ json_string_list [scope]"

definition scope_read :: "medium_state \<Rightarrow> string \<Rightarrow> (failure, scope_record option) result" where
  "scope_read st scope =
     (case getDocument st (scope_keyOf scope) of None \<Rightarrow> Inr None
      | Some v \<Rightarrow> rbind (scope_decode v) (\<lambda>r. Inr (Some r)))"

type_synonym scope_write = "scope_record \<times> string \<times> string option"

definition scope_writes :: "string \<Rightarrow> scope_write \<Rightarrow> store_write list" where
  "scope_writes mid w =
     (case w of (record, step, executionId) \<Rightarrow>
        [Append mid ''execution.scope'' (SObj [(''scope'', SStr (sb_scope (sc_binding record))), (''step'', SStr step),
           (''executionId'', nullable_value executionId)]),
         Put (scope_keyOf (sb_scope (sc_binding record))) (scope_value record)])"

definition scope_update :: "(write_point \<Rightarrow> bool) \<Rightarrow> number \<Rightarrow> string \<Rightarrow> medium_state \<Rightarrow> string \<Rightarrow>
    (scope_record option \<Rightarrow> (failure, 'a \<times> scope_write option) result) \<Rightarrow> (failure, 'a) result \<times> medium_state" where
  "scope_update seam ep mid st scope decide = cell_update (\<lambda>st. scope_read st scope) (scope_writes mid) seam ep st decide"

datatype scope_reply =
    SOpened | SRefused scope_refusal | SCommitted nat | SState "scope_state option" | SDone | SClosed
  | STerminate "string list" | SSwept bool

type_synonym scope_decision = "scope_record option \<Rightarrow> (failure, scope_reply \<times> scope_write option) result"

definition unavailable :: "string \<Rightarrow> scope_state option \<Rightarrow> failure" where
  "unavailable scope state = ErrorMessage (''scope '' @ scope @ '' is not open: '' @
     (case state of None \<Rightarrow> ''unknown_scope'' | Some _ \<Rightarrow> ''closed''))"

definition scope_touch :: "number \<Rightarrow> scope_decision" where
  "scope_touch now record =
     (case record of
        None \<Rightarrow> Inr (SState None, None)
      | Some r \<Rightarrow> if sc_state r \<noteq> ScopeOpen then Inr (SState (Some (sc_state r)), None)
          else Inr (SState (Some ScopeOpen), Some (r\<lparr>sc_lastActiveAt := now\<rparr>, ''active'', None)))"

definition scope_open :: "(number \<Rightarrow> string) \<Rightarrow> number \<Rightarrow> scope_binding \<Rightarrow> scope_decision" where
  "scope_open num_text now binding record =
     (if \<not> is_finite (sb_generation binding)
      then Inl (ErrorMessage (''scope '' @ sb_scope binding @ '' has a non-finite generation''))
      else case record of
        Some r \<Rightarrow>
          Inr (if canonical_json num_text (binding_value (sc_binding r)) = canonical_json num_text (binding_value binding) \<and>
                  sc_state r = ScopeOpen
               then SOpened else SRefused RConflictingScope, None)
      | None \<Rightarrow> Inr (SOpened, Some (\<lparr>sc_binding = binding, sc_state = ScopeOpen, sc_lastActiveAt = now, sc_resources = [],
            sc_events = [], sc_outcomes = []\<rparr>, ''open'', None)))"

text \<open>A lifecycle event: the checks before its handler, and the commit of the handler's effect.\<close>

definition lifecycle_check :: "string \<Rightarrow> scope_record option \<Rightarrow> scope_refusal option" where
  "lifecycle_check actor record =
     (case record of None \<Rightarrow> Some RUnknownScope
      | Some r \<Rightarrow> if sb_issuer (sc_binding r) \<noteq> actor then Some RNotIssuer
          else if sc_state r = ScopeClosed then Some RClosed else None)"

definition lifecycle_commit :: "number \<Rightarrow> string \<Rightarrow> store_value \<Rightarrow> scope_decision" where
  "lifecycle_commit now kind effect record =
     (case record of None \<Rightarrow> Inr (SRefused RClosed, None)
      | Some latest \<Rightarrow>
        if sc_state latest = ScopeClosed then Inr (SRefused RClosed, None)
        else let seq = length (sc_events latest) + 1 in
          Inr (SCommitted seq,
            Some (latest\<lparr>sc_lastActiveAt := now, sc_events := sc_events latest @ [\<lparr>se_seq = seq, se_kind = kind, se_effect = effect\<rparr>]\<rparr>,
              ''lifecycle'', Some (kind @ ''#'' @ nat_to_string seq))))"

definition scope_lifecycle :: "(write_point \<Rightarrow> bool) \<Rightarrow> number \<Rightarrow> string \<Rightarrow> number \<Rightarrow> string \<Rightarrow> string \<Rightarrow> string \<Rightarrow>
    (failure, store_value) result \<Rightarrow> medium_state \<Rightarrow> (failure, scope_reply) result \<times> medium_state" where
  "scope_lifecycle seam ep mid now actor scope kind handler st =
     (case scope_read st scope of Inl e \<Rightarrow> (Inl e, st)
      | Inr record \<Rightarrow>
        (case lifecycle_check actor record of
           Some reason \<Rightarrow> (Inr (SRefused reason), st)
         | None \<Rightarrow>
           (case handler of Inl e \<Rightarrow> (Inl e, st)
            | Inr effect \<Rightarrow> scope_update seam ep mid st scope (lifecycle_commit now kind effect))))"

text \<open>\<open>call\<close> up to the start of \<open>run\<close>: the answer \<open>Inr ()\<close> means that the body runs.\<close>

definition scope_call :: "(write_point \<Rightarrow> bool) \<Rightarrow> number \<Rightarrow> string \<Rightarrow> number \<Rightarrow> string \<Rightarrow> medium_state \<Rightarrow>
    (failure, unit) result \<times> medium_state" where
  "scope_call seam ep mid now scope st =
     (case scope_update seam ep mid st scope (scope_touch now) of
        (Inl e, st') \<Rightarrow> (Inl e, st')
      | (Inr reply, st') \<Rightarrow>
        (case reply of SState state \<Rightarrow> if state \<noteq> Some ScopeOpen then (Inl (unavailable scope state), st') else (Inr (), st')
         | _ \<Rightarrow> (Inl (unavailable scope None), st')))"

definition scope_hold :: "number \<Rightarrow> string \<Rightarrow> string \<Rightarrow> string \<Rightarrow> scope_decision" where
  "scope_hold now scope resource kind record =
     (case record of None \<Rightarrow> Inl (unavailable scope None)
      | Some r \<Rightarrow> if sc_state r \<noteq> ScopeOpen then Inl (unavailable scope (Some (sc_state r)))
          else Inr (SDone, Some (r\<lparr>sc_lastActiveAt := now, sc_resources := obj_put resource kind (sc_resources r)\<rparr>, ''hold'', Some resource)))"

definition scope_release :: "number \<Rightarrow> string \<Rightarrow> scope_decision" where
  "scope_release now resource record =
     (case record of None \<Rightarrow> Inr (SDone, None)
      | Some r \<Rightarrow> if map_of (sc_resources r) resource = None then Inr (SDone, None)
          else Inr (SDone, Some (r\<lparr>sc_lastActiveAt := now, sc_resources := obj_del resource (sc_resources r)\<rparr>, ''release'', Some resource)))"

definition scope_pending :: "scope_record \<Rightarrow> string list" where
  "scope_pending r = filter (\<lambda>resource. map_of (sc_outcomes r) resource = None) (obj_keys (sc_resources r))"

text \<open>One round of \<open>finishClose\<close>, and the write of one resource's outcome.\<close>

definition close_round :: "bool \<Rightarrow> scope_decision" where
  "close_round force record =
     (case record of None \<Rightarrow> Inr (SRefused RUnknownScope, None)
      | Some latest \<Rightarrow>
        if sc_state latest = ScopeClosed then Inr (SClosed, None)
        else if scope_pending latest \<noteq> [] \<and> \<not> force then Inr (SRefused RLiveResources, None)
        else if scope_pending latest \<noteq> [] then Inr (STerminate (scope_pending latest), None)
        else Inr (SClosed, Some (latest\<lparr>sc_state := ScopeClosed, sc_resources := []\<rparr>, ''close'', None)))"

definition outcome_write :: "string \<Rightarrow> store_value \<Rightarrow> scope_decision" where
  "outcome_write resource outcome record =
     (case record of None \<Rightarrow> Inr (SDone, None)
      | Some latest \<Rightarrow>
        if sc_state latest = ScopeClosed \<or> map_of (sc_outcomes latest) resource \<noteq> None then Inr (SDone, None)
        else Inr (SDone, Some (latest\<lparr>sc_outcomes := obj_put resource outcome (sc_outcomes latest)\<rparr>, ''outcome'', Some resource)))"

text \<open>
  The whole close with nothing in between: \<open>terminate\<close> is the port (\<open>None\<close> when the caller gave
  none), which may throw; \<open>fuel\<close> bounds the rounds of the loop.
\<close>

fun terminate_all :: "number \<Rightarrow> (nat \<Rightarrow> string) \<Rightarrow> nat \<Rightarrow> string \<Rightarrow> (string \<Rightarrow> (failure, store_value) result) \<Rightarrow> string list \<Rightarrow>
    medium_state \<Rightarrow> (failure, nat) result \<times> medium_state" where
  "terminate_all ep mids i scope terminate [] st = (Inr i, st)"
| "terminate_all ep mids i scope terminate (resource # rest) st =
     (case terminate resource of Inl e \<Rightarrow> (Inl e, st)
      | Inr outcome \<Rightarrow>
        (case scope_update (\<lambda>_. False) ep (mids i) st scope (outcome_write resource outcome) of
           (Inl e, st') \<Rightarrow> (Inl e, st')
         | (Inr _, st') \<Rightarrow> terminate_all ep mids (i + 1) scope terminate rest st'))"

fun finishClose :: "nat \<Rightarrow> number \<Rightarrow> (nat \<Rightarrow> string) \<Rightarrow> nat \<Rightarrow> string \<Rightarrow> bool \<Rightarrow> (string \<Rightarrow> (failure, store_value) result) option \<Rightarrow>
    medium_state \<Rightarrow> ((failure, scope_reply) result \<times> medium_state) option" where
  "finishClose 0 ep mids i scope force terminate st = None"
| "finishClose (Suc fuel) ep mids i scope force terminate st =
     (case scope_update (\<lambda>_. False) ep (mids i) st scope (close_round force) of
        (Inl e, st') \<Rightarrow> Some (Inl e, st')
      | (Inr (STerminate pending), st') \<Rightarrow>
        (case terminate of
           None \<Rightarrow> Some (Inl (ErrorMessage (''forced close of '' @ scope @ '' needs a terminate port'')), st')
         | Some port \<Rightarrow>
           (case terminate_all ep mids (i + 1) scope port pending st' of
              (Inl e, st'') \<Rightarrow> Some (Inl e, st'')
            | (Inr j, st'') \<Rightarrow> finishClose fuel ep mids j scope force terminate st''))
      | (Inr reply, st') \<Rightarrow> Some (Inr reply, st'))"

definition scope_close :: "nat \<Rightarrow> number \<Rightarrow> (nat \<Rightarrow> string) \<Rightarrow> string \<Rightarrow> string \<Rightarrow> bool \<Rightarrow> (string \<Rightarrow> (failure, store_value) result) option \<Rightarrow>
    medium_state \<Rightarrow> ((failure, scope_reply) result \<times> medium_state) option" where
  "scope_close fuel ep mids actor scope force terminate st =
     (case scope_read st scope of Inl e \<Rightarrow> Some (Inl e, st)
      | Inr None \<Rightarrow> Some (Inr (SRefused RUnknownScope), st)
      | Inr (Some r) \<Rightarrow>
        if sb_issuer (sc_binding r) \<noteq> actor then Some (Inr (SRefused RNotIssuer), st)
        else finishClose fuel ep mids 0 scope force terminate st)"

text \<open>One scope of \<open>sweepIdle\<close>: the test on the scanned candidate and the decision inside the admission.\<close>

definition scope_idle :: "number \<Rightarrow> number \<Rightarrow> scope_record \<Rightarrow> bool" where
  "scope_idle now idleTtlMs r \<longleftrightarrow> sc_state r = ScopeOpen \<and> sc_resources r = [] \<and>
     \<not> num_le (num_sub now (sc_lastActiveAt r)) idleTtlMs"

definition sweep_decide :: "number \<Rightarrow> number \<Rightarrow> scope_decision" where
  "sweep_decide now idleTtlMs record =
     (case record of None \<Rightarrow> Inr (SSwept False, None)
      | Some latest \<Rightarrow>
        if \<not> scope_idle now idleTtlMs latest then Inr (SSwept False, None)
        else Inr (SSwept True, Some (latest\<lparr>sc_state := ScopeClosed\<rparr>, ''close'', None)))"

fun sweep_loop :: "number \<Rightarrow> (nat \<Rightarrow> string) \<Rightarrow> number \<Rightarrow> number \<Rightarrow> nat \<Rightarrow> store_document list \<Rightarrow> string list \<Rightarrow> medium_state \<Rightarrow>
    (failure, string list) result \<times> medium_state" where
  "sweep_loop ep mids now ttl i [] acc st = (Inr acc, st)"
| "sweep_loop ep mids now ttl i (d # ds) acc st =
     (case scope_decode (sd_data d) of Inl e \<Rightarrow> (Inl e, st)
      | Inr candidate \<Rightarrow>
        let scope = sb_scope (sc_binding candidate) in
        if \<not> scope_idle now ttl candidate then sweep_loop ep mids now ttl i ds acc st
        else case scope_update (\<lambda>_. False) ep (mids i) st scope (sweep_decide now ttl) of
          (Inl e, st') \<Rightarrow> (Inl e, st')
        | (Inr reply, st') \<Rightarrow> sweep_loop ep mids now ttl (i + 1) ds (if reply = SSwept True then acc @ [scope] else acc) st')"

definition sweepIdle :: "number \<Rightarrow> (nat \<Rightarrow> string) \<Rightarrow> number \<Rightarrow> number \<Rightarrow> medium_state \<Rightarrow> (failure, string list) result \<times> medium_state" where
  "sweepIdle ep mids now idleTtlMs st = sweep_loop ep mids now idleTtlMs 0 (documentsOf st scope_PREFIX) [] st"

section \<open>Records on the store\<close>

lemma scope_keyOf_inj: "scope_keyOf s = scope_keyOf s' \<longleftrightarrow> s = s'"
  by (auto simp: scope_keyOf_def json_string_list1_inj)

interpretation scope_cell: document_cell store_commit getDocument ms_records
  scope_keyOf scope_value scope_decode "\<lambda>_. True" scope_read
  by unfold_locales (simp_all add: scope_keyOf_inj scope_decode_value scope_read_def)

text \<open>The admissions of every operation, as they are linearised.\<close>

datatype scope_op =
    OpOpen scope_binding | OpTouch | OpLifecycle string store_value | OpHold string string | OpRelease string
  | OpCloseRound bool | OpOutcome string store_value | OpSweep number

fun scope_decide :: "(number \<Rightarrow> string) \<Rightarrow> string \<Rightarrow> number \<Rightarrow> scope_op \<Rightarrow> scope_decision" where
  "scope_decide num_text scope now (OpOpen b) = scope_open num_text now b"
| "scope_decide num_text scope now OpTouch = scope_touch now"
| "scope_decide num_text scope now (OpLifecycle kind effect) = lifecycle_commit now kind effect"
| "scope_decide num_text scope now (OpHold resource kind) = scope_hold now scope resource kind"
| "scope_decide num_text scope now (OpRelease resource) = scope_release now resource"
| "scope_decide num_text scope now (OpCloseRound force) = close_round force"
| "scope_decide num_text scope now (OpOutcome resource outcome) = outcome_write resource outcome"
| "scope_decide num_text scope now (OpSweep ttl) = sweep_decide now ttl"

fun scope_op_ok :: "string \<Rightarrow> scope_op \<Rightarrow> bool" where
  "scope_op_ok scope (OpOpen b) = (sb_scope b = scope)"
| "scope_op_ok scope _ = True"

definition scope_ok :: "scope_record \<Rightarrow> bool" where
  "scope_ok r \<longleftrightarrow> map se_seq (sc_events r) = [1..<length (sc_events r) + 1] \<and> (sc_state r = ScopeClosed \<longrightarrow> sc_resources r = [])"

text \<open>How a record may change in one admission.\<close>

definition scope_moves :: "scope_record \<Rightarrow> scope_record \<Rightarrow> bool" where
  "scope_moves r r' \<longleftrightarrow> sc_state r = ScopeOpen \<and> sc_binding r' = sc_binding r \<and>
     (\<exists>es. sc_events r' = sc_events r @ es) \<and>
     (\<forall>resource out. map_of (sc_outcomes r) resource = Some out \<longrightarrow> map_of (sc_outcomes r') resource = Some out) \<and>
     (sc_state r' = ScopeClosed \<longrightarrow> scope_pending r = [] \<and> sc_outcomes r' = sc_outcomes r \<and> sc_events r' = sc_events r)"

lemma scope_decide_ok:
  assumes "scope_op_ok scope op" "\<And>r. record = Some r \<Longrightarrow> scope_ok r \<and> sb_scope (sc_binding r) = scope"
    "scope_decide num_text scope now op record = Inr (reply, Some (r', step, ex))"
  shows "scope_ok r' \<and> sb_scope (sc_binding r') = scope \<and> (\<forall>r. record = Some r \<longrightarrow> scope_moves r r')"
proof (cases "record")
  case None
  with assms(1,3) show ?thesis
    by (cases op) (auto simp: scope_open_def scope_touch_def lifecycle_commit_def scope_hold_def scope_release_def
        close_round_def outcome_write_def sweep_decide_def scope_ok_def split: if_splits)
next
  case (Some r)
  have ok: "scope_ok r" "sb_scope (sc_binding r) = scope" using assms(2) [OF Some] by auto
  have st: "sc_state r \<noteq> ScopeClosed \<longleftrightarrow> sc_state r = ScopeOpen" by (cases "sc_state r") auto
  show ?thesis
  proof (cases op)
    case (OpLifecycle kind effect)
    with assms(3) Some ok show ?thesis
      by (auto simp: lifecycle_commit_def scope_ok_def scope_moves_def st Let_def split: if_splits)
  next
    case (OpRelease resource)
    then have "sc_state r = ScopeOpen" using assms(3) Some ok(1)
      by (cases "sc_state r") (auto simp: scope_release_def scope_ok_def split: if_splits)
    with OpRelease assms(3) Some ok show ?thesis
      by (auto simp: scope_release_def scope_ok_def scope_moves_def split: if_splits)
  qed (use assms(3) Some ok in \<open>auto simp: scope_open_def scope_touch_def scope_hold_def close_round_def outcome_write_def
        sweep_decide_def scope_idle_def scope_ok_def scope_moves_def scope_pending_def obj_keys_def st split: if_splits\<close>)
qed

definition scope_inv :: "medium_state \<Rightarrow> bool" where
  "scope_inv st \<longleftrightarrow>
     (\<forall>s v. getDocument st (scope_keyOf s) = Some v \<longrightarrow> (\<exists>r. v = scope_value r \<and> scope_ok r \<and> sb_scope (sc_binding r) = s))"

lemma scope_read_inv:
  assumes "scope_inv st" "scope_read st s = Inr rec"
  shows "\<And>r. rec = Some r \<Longrightarrow> scope_ok r \<and> sb_scope (sc_binding r) = s"
proof -
  fix r
  assume "rec = Some r"
  then obtain v where v: "getDocument st (scope_keyOf s) = Some v" "scope_decode v = Inr r"
    using assms(2) by (auto simp: scope_read_def rbind_eq_Inr split: option.splits)
  then obtain r0 where "v = scope_value r0" "scope_ok r0" "sb_scope (sc_binding r0) = s"
    using assms(1) unfolding scope_inv_def by blast
  with v(2) show "scope_ok r \<and> sb_scope (sc_binding r) = s" by (simp add: scope_decode_value)
qed

datatype scope_call = SCall string number scope_op | SForeign "store_write list"

type_synonym scope_input = "(write_point \<Rightarrow> bool) \<times> number \<times> string \<times> scope_call"

fun scope_input_ok :: "scope_input \<Rightarrow> bool" where
  "scope_input_ok (seam, ep, mid, SCall scope now op) = scope_op_ok scope op"
| "scope_input_ok (seam, ep, mid, SForeign ws) = list_all (foreign_write scope_PREFIX) ws"

fun scope_step :: "(number \<Rightarrow> string) \<Rightarrow> scope_input \<Rightarrow> medium_state \<Rightarrow> medium_state" where
  "scope_step num_text (seam, ep, mid, SCall scope now op) st =
     snd (scope_update seam ep mid st scope (scope_decide num_text scope now op))"
| "scope_step num_text (seam, ep, mid, SForeign ws) st = fst (snd (commitSync seam st ep ws))"

lemma starts_with_scope [simp]: "starts_with scope_PREFIX (scope_keyOf s)"
  by (simp add: scope_keyOf_def)

text \<open>What the store holds for a scope after a step: what it held, or a record its own record moves to.\<close>

lemma scope_step_inv:
  assumes "scope_inv st" "scope_input_ok x"
  shows "scope_inv (scope_step num_text x st) \<and>
    (\<forall>s r. scope_read st s = Inr (Some r) \<longrightarrow>
       (\<exists>r'. scope_read (scope_step num_text x st) s = Inr (Some r') \<and> (r' = r \<or> scope_moves r r')))"
proof (cases x rule: scope_input_ok.cases)
  case (1 seam ep mid scope now op)
  obtain y st' where u: "scope_update seam ep mid st scope (scope_decide num_text scope now op) = (y, st')" by fastforce
  then have st': "scope_step num_text x st = st'" using 1 by simp
  from u [unfolded scope_update_def] have "scope_inv st' \<and> (\<forall>s r. scope_read st s = Inr (Some r) \<longrightarrow>
      (\<exists>r'. scope_read st' s = Inr (Some r') \<and> (r' = r \<or> scope_moves r r')))"
  proof (cases rule: cell_update_cases)
    case same
    with assms(1) show ?thesis by auto
  next
    case (stored rec a w)
    obtain r' step ex where w: "w = (r', step, ex)" by (cases w)
    have "scope_ok r' \<and> sb_scope (sc_binding r') = scope \<and> (\<forall>r. rec = Some r \<longrightarrow> scope_moves r r')"
      by (rule scope_decide_ok [OF _ scope_read_inv [OF assms(1) stored(1)] stored(2) [unfolded w]]) (use assms(2) 1 in simp)
    then have ok: "scope_ok r'" "sb_scope (sc_binding r') = scope" "\<And>r. rec = Some r \<Longrightarrow> scope_moves r r'" by auto
    have doc: "getDocument st' = (getDocument st)(scope_keyOf scope \<mapsto> scope_value r')"
      using stored(3) ok(2) by (simp add: w scope_writes_def)
    then have "scope_inv st'" using assms(1) ok unfolding scope_inv_def by (auto simp: scope_keyOf_inj)
    moreover have "scope_read st' s = (if s = scope then Inr (Some r') else scope_read st s)" for s
      using doc by (auto simp: scope_read_def scope_keyOf_inj scope_decode_value)
    ultimately show ?thesis using stored(1) ok(3) by auto
  qed
  then show ?thesis unfolding st' .
next
  case (2 seam ep mid ws)
  have "getDocument (scope_step num_text x st) (scope_keyOf s) = getDocument st (scope_keyOf s)" for s
    using assms(2) 2 by (simp add: commit_foreign [of scope_PREFIX])
  then show ?thesis using assms(1) unfolding scope_inv_def scope_read_def by auto
qed

lemma scope_run_closed:
  assumes "scope_inv st" "list_all scope_input_ok xs" "scope_read st s = Inr (Some r)" "sc_state r = ScopeClosed"
  shows "scope_read (fold (scope_step num_text) xs st) s = Inr (Some r)"
  using assms
proof (induction xs arbitrary: st)
  case (Cons x xs)
  then have "scope_inv (scope_step num_text x st)" "\<exists>r'. scope_read (scope_step num_text x st) s = Inr (Some r') \<and> (r' = r \<or> scope_moves r r')"
    using scope_step_inv [of st x num_text] by auto
  moreover have "\<not> scope_moves r r'" for r' using Cons.prems(4) by (simp add: scope_moves_def)
  ultimately show ?case using Cons by auto
qed simp

section \<open>A forced close comes to an end\<close>

lemma scope_update_ok:
  assumes "owned st ep" "mid \<notin> log_ids st" "scope_read st s = Inr rec" "decide rec = Inr (a, Some (r', step, ex))"
    "sb_scope (sc_binding r') = s"
  obtains st' where "scope_update (\<lambda>_. False) ep mid st s decide = (Inr a, st')" "scope_read st' s = Inr (Some r')"
    "owned st' ep" "log_ids st' = insert mid (log_ids st)"
proof (rule commit_one_ok [OF assms(1,2), where a = a and ws = "scope_writes mid (r', step, ex)"])
  fix st'
  assume c: "commit_then (\<lambda>_. False) st ep (scope_writes mid (r', step, ex)) a = (Inr a, st')"
    and d: "getDocument st' = written (scope_writes mid (r', step, ex)) (getDocument st)"
    and o: "owned st' ep" "log_ids st' = insert mid (log_ids st)"
  have "scope_read st' s = Inr (Some r')" using d assms(5) by (simp add: scope_writes_def scope_read_def scope_decode_value)
  with c o assms(3,4) show thesis by (intro that) (simp_all add: scope_update_def cell_update_def)
qed (simp add: scope_writes_def)


lemma close_round_closes:
  assumes "owned st ep" "mid \<notin> log_ids st" "scope_read st s = Inr (Some r)" "sc_state r = ScopeOpen" "sb_scope (sc_binding r) = s"
    "scope_pending r = []"
  shows "\<exists>st'. scope_update (\<lambda>_. False) ep mid st s (close_round force) = (Inr SClosed, st') \<and>
    scope_read st' s = Inr (Some (r\<lparr>sc_state := ScopeClosed, sc_resources := []\<rparr>))"
proof -
  have "close_round force (Some r) = Inr (SClosed, Some (r\<lparr>sc_state := ScopeClosed, sc_resources := []\<rparr>, ''close'', None))"
    using assms(4,6) by (simp add: close_round_def)
  from scope_update_ok [where decide = "close_round force", OF assms(1-3) this] assms(5) show ?thesis by auto
qed

section \<open>Properties of scopes\<close>

definition sample_scope :: scope_record where
  "sample_scope = \<lparr>sc_binding = \<lparr>sb_issuer = ''brain'', sb_workspace = ''w'', sb_scope = ''s'', sb_generation = Fin 1, sb_allowedRoots = []\<rparr>,
     sc_state = ScopeOpen, sc_lastActiveAt = Fin 0, sc_resources = [(''t1'', ''terminal'')], sc_events = [], sc_outcomes = []\<rparr>"

definition scope_store :: "scope_record \<Rightarrow> medium_state" where
  "scope_store r = \<lparr>ms_epoch = Fin 1, ms_records = [], ms_documents = [(scope_keyOf ''s'', scope_value r)]\<rparr>"

lemma scope_store_read: "scope_read (scope_store r) ''s'' = Inr (Some r)"
  by (simp add: scope_store_def scope_read_def getDocument_def scope_decode_value)

lemma scope_store_inv: "scope_ok r \<Longrightarrow> sb_scope (sc_binding r) = ''s'' \<Longrightarrow> scope_inv (scope_store r)"
  unfolding scope_inv_def scope_store_def by (auto simp: getDocument_def scope_keyOf_inj split: if_splits)

text \<open>C8. A scope closes only when nothing in it is left without an outcome, and then for good: in every
  step of any interleaving, a scope that goes from open to closed has a terminal outcome for each of its
  live resources and keeps all of them and its events; only one whose close was allowed is ever closed;
  and a closed scope's record never changes again.\<close>

theorem scope_closes_terminated_for_good:
  assumes "scope_inv st" and "scope_input_ok x" and "list_all scope_input_ok xs"
    and "scope_read st s = Inr (Some r)" and "sc_state r = ScopeOpen"
    and "scope_read (scope_step num_text x st) s = Inr (Some r')" and "sc_state r' = ScopeClosed"
  shows "(\<forall>resource kind. map_of (sc_resources r) resource = Some kind \<longrightarrow> map_of (sc_outcomes r') resource \<noteq> None) \<and>
    sc_outcomes r' = sc_outcomes r \<and> sc_events r' = sc_events r \<and>
    scope_read (fold (scope_step num_text) xs (scope_step num_text x st)) s = Inr (Some r')"
proof -
  note h = scope_step_inv [OF assms(1,2), of num_text]
  obtain r1 where "scope_read (scope_step num_text x st) s = Inr (Some r1)" "r1 = r \<or> scope_moves r r1"
    using h assms(4) by blast
  then have "scope_moves r r'" using assms(5-7) by auto
  then have p: "scope_pending r = []" "sc_outcomes r' = sc_outcomes r" "sc_events r' = sc_events r"
    using assms(7) by (auto simp: scope_moves_def)
  have "map_of (sc_outcomes r) resource \<noteq> None" if "map_of (sc_resources r) resource = Some kind" for resource kind
  proof -
    have "resource \<in> set (obj_keys (sc_resources r))" using map_of_SomeD [OF that] by (force simp: obj_keys_def)
    with p(1) show ?thesis by (auto simp: scope_pending_def filter_empty_conv)
  qed
  with p scope_run_closed [OF conjunct1 [OF h] assms(3,6,7)] show ?thesis by simp
qed

text \<open>Events are numbered without gaps and never rewritten, and only the issuer acts on the scope:
  in every reachable state the events carry the sequence numbers from one up, a step only appends
  to them and keeps recorded outcomes, and a lifecycle event or close by anyone else is refused
  with nothing changed.\<close>

theorem scope_events_and_issuer:
  assumes "scope_inv st" and "scope_input_ok x" and "scope_read st s = Inr (Some r)"
  shows "map se_seq (sc_events r) = [1..<length (sc_events r) + 1] \<and>
    (\<exists>r' es. scope_read (scope_step num_text x st) s = Inr (Some r') \<and> sc_binding r' = sc_binding r \<and>
       sc_events r' = sc_events r @ es \<and> map se_seq (sc_events r') = [1..<length (sc_events r') + 1] \<and>
       (\<forall>resource out. map_of (sc_outcomes r) resource = Some out \<longrightarrow> map_of (sc_outcomes r') resource = Some out)) \<and>
    (sb_issuer (sc_binding r) \<noteq> actor \<longrightarrow>
       scope_lifecycle seam ep mid now actor s kind handler st = (Inr (SRefused RNotIssuer), st) \<and>
       scope_close fuel ep mids actor s force terminate st = Some (Inr (SRefused RNotIssuer), st))"
proof -
  obtain r' where r': "scope_read (scope_step num_text x st) s = Inr (Some r')" "r' = r \<or> scope_moves r r'"
    and inv: "scope_inv (scope_step num_text x st)"
    using scope_step_inv [OF assms(1,2)] assms(3) by blast
  have "scope_ok r" "scope_ok r'" using scope_read_inv [OF assms(1,3)] scope_read_inv [OF inv r'(1)] by auto
  moreover have "sc_binding r' = sc_binding r \<and> (\<exists>es. sc_events r' = sc_events r @ es) \<and>
      (\<forall>resource out. map_of (sc_outcomes r) resource = Some out \<longrightarrow> map_of (sc_outcomes r') resource = Some out)"
    using r'(2) unfolding scope_moves_def by auto
  ultimately show ?thesis using r'(1) assms(3)
    by (auto simp: scope_ok_def scope_lifecycle_def lifecycle_check_def scope_close_def)
qed


lemma sample_scope_ok: "scope_ok sample_scope" "sb_scope (sc_binding sample_scope) = ''s''" "sc_state sample_scope = ScopeOpen"
  by (simp_all add: sample_scope_def scope_ok_def)

theorem scope_closes_terminated_for_good_witness:
  "\<exists>r'. scope_read (fold (scope_step (\<lambda>_. [])) [] (scope_step (\<lambda>_. []) (\<lambda>_. False, Fin 1, ''m'', SCall ''s'' (Fin 9) (OpCloseRound True))
       (scope_store (sample_scope\<lparr>sc_outcomes := [(''t1'', SNull)]\<rparr>)))) ''s'' = Inr (Some r') \<and> sc_state r' = ScopeClosed \<and>
     map_of (sc_outcomes r') ''t1'' = Some SNull"
proof -
  let ?r = "sample_scope\<lparr>sc_outcomes := [(''t1'', SNull)]\<rparr>"
  let ?st = "scope_store ?r"
  let ?x = "(\<lambda>_. False, Fin 1, ''m'', SCall ''s'' (Fin 9) (OpCloseRound True)) :: scope_input"
  have ok: "scope_ok ?r" "sb_scope (sc_binding ?r) = ''s''" "sc_state ?r = ScopeOpen" "scope_pending ?r = []"
    by (simp_all add: sample_scope_def scope_ok_def scope_pending_def obj_keys_def)
  have owned: "owned ?st (Fin 1)" "''m'' \<notin> log_ids ?st" by (simp_all add: owned_def scope_store_def)
  from close_round_closes [OF owned scope_store_read ok(3,2,4), of True]
  have rd: "scope_read (scope_step (\<lambda>_. []) ?x ?st) ''s'' = Inr (Some (?r\<lparr>sc_state := ScopeClosed, sc_resources := []\<rparr>))" by auto
  from scope_closes_terminated_for_good [OF scope_store_inv [OF ok(1,2)] _ _ scope_store_read ok(3) rd, of "[]"]
  show ?thesis by (auto simp: sample_scope_def)
qed

theorem scope_events_and_issuer_witness:
  "\<exists>r'. scope_read (scope_step (\<lambda>_. []) (\<lambda>_. False, Fin 1, ''m'', SCall ''s'' (Fin 9) (OpLifecycle ''start'' SNull)) (scope_store sample_scope)) ''s'' =
     Inr (Some r') \<and> map se_seq (sc_events r') = [1..<length (sc_events r') + 1] \<and>
   scope_close 3 (Fin 1) (\<lambda>_. ''m'') ''intruder'' ''s'' True None (scope_store sample_scope) =
     Some (Inr (SRefused RNotIssuer), scope_store sample_scope)"
proof -
  let ?x = "(\<lambda>_. False, Fin 1, ''m'', SCall ''s'' (Fin 9) (OpLifecycle ''start'' SNull)) :: scope_input"
  have other: "sb_issuer (sc_binding sample_scope) \<noteq> ''intruder''" by (simp add: sample_scope_def)
  have x: "scope_input_ok ?x" by simp
  note h = scope_events_and_issuer [OF scope_store_inv [OF sample_scope_ok(1,2)] x scope_store_read, where num_text = "\<lambda>_. []"
      and actor = "''intruder''" and fuel = 3 and ep = "Fin 1" and mids = "\<lambda>_. ''m''" and force = True and terminate = None]
  show ?thesis using h other by blast
qed


end
