(* ===== verification/Bytes_Text.thy ===== *)
theory Bytes_Text
  imports Senpi_Prelude "HOL-Library.Word"
begin

unbundle bit_operations_syntax

text \<open>
  Bytes and text of the wire protocol: what a \<open>Uint8Array\<close> stores, the unsigned shift, big-endian
  integers, and the two directions of UTF-8 the protocol's \<open>TextEncoder\<close> and fatal \<open>TextDecoder\<close>
  perform on JavaScript strings, which are sequences of 16-bit code units.
\<close>

type_synonym byte = "8 word"
type_synonym jstext = "16 word list"

named_theorems byte_simps \<open>reading back what was stored in a byte\<close>

section \<open>Bytes\<close>

text \<open>A store into a \<open>Uint8Array\<close> keeps the low eight bits; \<open>>>>\<close> first reduces to 32 bits.\<close>

definition byte_of :: "nat \<Rightarrow> byte" where
  "byte_of n = word_of_nat n"

definition ushr :: "nat \<Rightarrow> nat \<Rightarrow> nat" where
  "ushr n k = n mod 2 ^ 32 div 2 ^ k"

lemma unat_byte_of [simp, byte_simps]: "unat (byte_of n) = n mod 256"
  by (simp add: byte_of_def unat_of_nat)

lemma byte_of_unat [simp]: "byte_of (unat b) = b"
  by (simp add: byte_of_def)

lemma unat_byte_less [simp]: "unat (b :: byte) < 256"
proof -
  have "unat b < 2 ^ 8" using unsigned_less [of b] by simp
  then show ?thesis by simp
qed

lemma ushr_small [simp]: "n < 2 ^ 32 \<Longrightarrow> ushr n k = n div 2 ^ k"
  by (simp add: ushr_def)

text \<open>The value of four big-endian bytes.\<close>

definition uint32_of :: "byte list \<Rightarrow> nat" where
  "uint32_of bs = unat (bs ! 0) * 0x1000000 + unat (bs ! 1) * 0x10000 + unat (bs ! 2) * 0x100 + unat (bs ! 3)"

definition uint32_bytes :: "nat \<Rightarrow> byte list" where
  "uint32_bytes n = [byte_of (ushr n 24), byte_of (ushr n 16), byte_of (ushr n 8), byte_of n]"

lemma length_uint32_bytes [simp]: "length (uint32_bytes n) = 4"
  by (simp add: uint32_bytes_def)

lemma uint32_digits:
  "(n::nat) div 16777216 mod 256 * 16777216 + n div 65536 mod 256 * 65536 + n div 256 mod 256 * 256 + n mod 256 = n mod 4294967296"
proof -
  have 1: "n mod 65536 = n div 256 mod 256 * 256 + n mod 256"
    using mod_mult2_eq [of n 256 256] by simp
  have 2: "n mod 16777216 = n div 65536 mod 256 * 65536 + n mod 65536"
    using mod_mult2_eq [of n 65536 256] by simp
  have 3: "n mod 4294967296 = n div 16777216 mod 256 * 16777216 + n mod 16777216"
    using mod_mult2_eq [of n 16777216 256] by simp
  show ?thesis by (simp add: 1 2 3)
qed

lemma uint32_of_bytes [simp]: "n < 2 ^ 32 \<Longrightarrow> uint32_of (uint32_bytes n) = n"
  using uint32_digits [of n] by (simp add: uint32_of_def uint32_bytes_def)

lemma uint32_of_less: "uint32_of bs < 2 ^ 32"
proof -
  have "unat (bs ! 0) * 16777216 \<le> 255 * 16777216" "unat (bs ! 1) * 65536 \<le> 255 * 65536" "unat (bs ! 2) * 256 \<le> 255 * 256"
    "unat (bs ! 3) \<le> 255"
    using unat_byte_less [of "bs ! 0"] unat_byte_less [of "bs ! 1"] unat_byte_less [of "bs ! 2"] unat_byte_less [of "bs ! 3"]
    by linarith+
  then show ?thesis unfolding uint32_of_def by simp
qed

section \<open>UTF-16 and UTF-8\<close>

abbreviation high_surrogate :: "nat \<Rightarrow> bool" where
  "high_surrogate u \<equiv> 0xD800 \<le> u \<and> u < 0xDC00"

abbreviation low_surrogate :: "nat \<Rightarrow> bool" where
  "low_surrogate u \<equiv> 0xDC00 \<le> u \<and> u < 0xE000"

definition is_scalar :: "nat \<Rightarrow> bool" where
  "is_scalar c = (c < 0x110000 \<and> \<not> (0xD800 \<le> c \<and> c < 0xE000))"

text \<open>The scalar values of a string; a surrogate without its partner becomes U+FFFD.\<close>

definition lone :: "nat \<Rightarrow> nat" where
  "lone u = (if 0xD800 \<le> u \<and> u < 0xE000 then 0xFFFD else u)"

fun scalars :: "nat list \<Rightarrow> nat list" where
  "scalars [] = []"
| "scalars [u] = [lone u]"
| "scalars (u # v # us) =
     (if high_surrogate u \<and> low_surrogate v
      then (0x10000 + (u - 0xD800) * 0x400 + (v - 0xDC00)) # scalars us
      else lone u # scalars (v # us))"

definition utf16 :: "nat \<Rightarrow> nat list" where
  "utf16 c = (if c < 0x10000 then [c] else [0xD800 + (c - 0x10000) div 0x400, 0xDC00 + (c - 0x10000) mod 0x400])"

definition utf8 :: "nat \<Rightarrow> nat list" where
  "utf8 c =
     (if c < 0x80 then [c]
      else if c < 0x800 then [0xC0 + c div 64, 0x80 + c mod 64]
      else if c < 0x10000 then [0xE0 + c div 4096, 0x80 + c div 64 mod 64, 0x80 + c mod 64]
      else [0xF0 + c div 262144, 0x80 + c div 4096 mod 64, 0x80 + c div 64 mod 64, 0x80 + c mod 64])"

abbreviation continuation :: "nat \<Rightarrow> bool" where
  "continuation b \<equiv> 0x80 \<le> b \<and> b < 0xC0"

text \<open>Strict decoding: no overlong form, no surrogate, nothing above U+10FFFF, no truncated sequence.\<close>

fun utf8_decode :: "nat list \<Rightarrow> nat list option" where
  "utf8_decode [] = Some []"
| "utf8_decode (b # bs) =
     (if b < 0x80 then map_option ((#) b) (utf8_decode bs)
      else if 0xC2 \<le> b \<and> b < 0xE0 then
        (case bs of
           x # r \<Rightarrow> if continuation x then map_option ((#) ((b - 0xC0) * 64 + (x - 0x80))) (utf8_decode r) else None
         | _ \<Rightarrow> None)
      else if 0xE0 \<le> b \<and> b < 0xF0 then
        (case bs of
           x # y # r \<Rightarrow>
             let c = (b - 0xE0) * 4096 + (x - 0x80) * 64 + (y - 0x80)
             in if continuation x \<and> continuation y \<and> 0x800 \<le> c \<and> is_scalar c
               then map_option ((#) c) (utf8_decode r) else None
         | _ \<Rightarrow> None)
      else if 0xF0 \<le> b \<and> b < 0xF5 then
        (case bs of
           x # y # z # r \<Rightarrow>
             let c = (b - 0xF0) * 262144 + (x - 0x80) * 4096 + (y - 0x80) * 64 + (z - 0x80)
             in if continuation x \<and> continuation y \<and> continuation z \<and> 0x10000 \<le> c \<and> is_scalar c
               then map_option ((#) c) (utf8_decode r) else None
         | _ \<Rightarrow> None)
      else None)"

declare utf8_decode.simps(2) [simp del]

definition text_encode :: "jstext \<Rightarrow> byte list" where
  "text_encode s = map byte_of (concat (map utf8 (scalars (map unat s))))"

definition text_decode :: "byte list \<Rightarrow> jstext option" where
  "text_decode bs = map_option (\<lambda>cs. map word_of_nat (concat (map utf16 cs))) (utf8_decode (map unat bs))"

lemma utf8_bytes: "c < 0x110000 \<Longrightarrow> b \<in> set (utf8 c) \<Longrightarrow> b < 256"
  by (auto simp: utf8_def split: if_splits)

lemma digits64: "(c::nat) = c div 4096 * 4096 + c div 64 mod 64 * 64 + c mod 64"
  using mod_mult2_eq [of c 64 64] div_mult_mod_eq [of c 4096] by simp

lemma digits64': "(c::nat) = c div 262144 * 262144 + c div 4096 mod 64 * 4096 + c div 64 mod 64 * 64 + c mod 64"
  using mod_mult2_eq [of c 4096 64] digits64 [of "c mod 4096"] div_mult_mod_eq [of c 262144] mod_mult2_eq [of c 64 64] by simp

lemma utf8_decode_utf8:
  assumes "is_scalar c"
  shows "utf8_decode (utf8 c @ r) = map_option ((#) c) (utf8_decode r)"
proof -
  have c: "c < 1114112" using assms by (simp add: is_scalar_def)
  consider "c < 128" | "128 \<le> c" "c < 2048" | "2048 \<le> c" "c < 65536" | "65536 \<le> c" by linarith
  then show ?thesis
  proof cases
    case 2
    then have "2 \<le> c div 64" and small: "c div 64 < 32" by auto
    moreover have "c = c div 64 * 64 + c mod 64" by simp
    ultimately show ?thesis using 2 by (simp add: utf8_def utf8_decode.simps(2) small)
  next
    case 3
    then have "c div 4096 < 16" by auto
    then show ?thesis using 3 assms digits64 [of c] by (simp add: utf8_def utf8_decode.simps(2) Let_def)
  next
    case 4
    then have "c div 262144 < 5" using c by auto
    then show ?thesis using 4 assms digits64' [of c] by (simp add: utf8_def utf8_decode.simps(2) Let_def)
  qed (simp add: utf8_def utf8_decode.simps(2))
qed

lemma utf8_decode_concat: "list_all is_scalar cs \<Longrightarrow> utf8_decode (concat (map utf8 cs)) = Some cs"
  by (induction cs) (simp_all add: utf8_decode_utf8)

lemma scalars_ok: "list_all (\<lambda>u. u < 0x10000) us \<Longrightarrow> list_all is_scalar (scalars us)"
  by (induction us rule: scalars.induct) (auto simp: is_scalar_def lone_def)

lemma units_less: "list_all (\<lambda>u. u < 0x10000) (map unat (s :: jstext))"
proof -
  have "unat u < 2 ^ 16" for u :: "16 word" using unsigned_less [of u] by simp
  then show ?thesis by (auto simp: list_all_iff)
qed

lemma map_unat_byte_of: "list_all (\<lambda>b. b < 256) bs \<Longrightarrow> map unat (map byte_of bs) = bs"
  by (induction bs) auto

text \<open>The decoder never rejects what the encoder wrote: it reads back the string with every lone surrogate replaced.\<close>

lemma text_decode_encode:
  "text_decode (text_encode s) = Some (map word_of_nat (concat (map utf16 (scalars (map unat s)))))"
proof -
  let ?cs = "scalars (map unat s)"
  have cs: "list_all is_scalar ?cs" using scalars_ok units_less by blast
  then have "list_all (\<lambda>b. b < 256) (concat (map utf8 ?cs))"
    using utf8_bytes by (fastforce simp: list_all_iff is_scalar_def)
  then show ?thesis
    using map_unat_byte_of utf8_decode_concat [OF cs] by (simp add: text_decode_def text_encode_def)
qed

text \<open>The strings that have a UTF-8 form: surrogates only in pairs.\<close>

fun well_formed :: "nat list \<Rightarrow> bool" where
  "well_formed [] = True"
| "well_formed [u] = (\<not> (0xD800 \<le> u \<and> u < 0xE000))"
| "well_formed (u # v # us) =
     (if high_surrogate u \<and> low_surrogate v then well_formed us
      else \<not> (0xD800 \<le> u \<and> u < 0xE000) \<and> well_formed (v # us))"

lemma utf16_pair:
  assumes "0xD800 \<le> u" "u < 0xDC00" "0xDC00 \<le> v" "v < (0xE000::nat)"
  shows "utf16 (0x10000 + (u - 0xD800) * 0x400 + (v - 0xDC00)) = [u, v]"
proof -
  let ?a = "u - 0xD800" and ?b = "v - 0xDC00"
  have "?b < 0x400" using assms by auto
  then have "(?a * 0x400 + ?b) div 0x400 = ?a" "(?a * 0x400 + ?b) mod 0x400 = ?b" by auto
  moreover have "0x10000 + ?a * 0x400 + ?b - 0x10000 = ?a * 0x400 + ?b" by simp
  ultimately show ?thesis using assms unfolding utf16_def by simp
qed

lemma utf16_lone: "u < 0x10000 \<Longrightarrow> utf16 (lone u) = [lone u]"
  by (simp add: utf16_def lone_def)

lemma scalars_utf16_iff:
  "list_all (\<lambda>u. u < 0x10000) us \<Longrightarrow> concat (map utf16 (scalars us)) = us \<longleftrightarrow> well_formed us"
  using utf16_pair by (induction us rule: scalars.induct) (auto simp: utf16_lone, auto simp: lone_def split: if_splits)

lemma text_encode_exact: "text_decode (text_encode s) = Some s \<longleftrightarrow> well_formed (map unat s)"
proof -
  have inj: "map word_of_nat xs = (s :: jstext) \<longleftrightarrow> xs = map unat s" if "list_all (\<lambda>u. u < 0x10000) xs" for xs
  proof
    assume "map word_of_nat xs = s"
    then have "map unat s = map (\<lambda>u. unat (word_of_nat u :: 16 word)) xs" by auto
    also have "\<dots> = xs" using that by (induction xs) (auto simp: unat_of_nat)
    finally show "xs = map unat s" by simp
  qed (simp add: comp_def)
  have "list_all (\<lambda>u. u < 0x10000) (utf16 c)" if "is_scalar c" for c
    using that by (auto simp: utf16_def is_scalar_def)
  then have "list_all (\<lambda>u. u < 0x10000) (concat (map utf16 (scalars (map unat s))))"
    using scalars_ok [OF units_less, of s] by (fastforce simp: list_all_iff)
  then show ?thesis
    by (simp add: text_decode_encode inj scalars_utf16_iff [OF units_less])
qed

text \<open>Strict decoding accepts only the bytes the encoder writes for the string it answers.\<close>

lemma map_option_Cons_eq: "map_option ((#) c) m = Some cs \<longleftrightarrow> (\<exists>r. m = Some r \<and> cs = c # r)"
  by (cases m) auto

lemma utf8_two:
  assumes "2 \<le> p" "p < 32" "q < 64"
  shows "utf8 (p * 64 + q) = [0xC0 + p, 0x80 + q] \<and> is_scalar (p * 64 + q)"
proof -
  have "(p * 64 + q) div 64 = p" "(p * 64 + q) mod 64 = q" using assms by auto
  moreover have "128 \<le> p * 64 + q" "p * 64 + q < 2048" using assms by auto
  ultimately show ?thesis by (auto simp: utf8_def is_scalar_def)
qed

lemma digits64_of:
  assumes "q < 64" "r < (64::nat)" "c = p * 4096 + q * 64 + r"
  shows "c div 4096 = p \<and> c div 64 mod 64 = q \<and> c mod 64 = r"
proof -
  have e: "c = (p * 64 + q) * 64 + r" using assms(3) by simp
  have m: "c mod 64 = r" unfolding e using assms(2) by (simp only: mod_mult_self3 mod_less)
  have d: "c div 64 = p * 64 + q" unfolding e using assms(2) by simp
  moreover have "c div 4096 = c div 64 div 64" by (simp add: div_mult2_eq [symmetric])
  ultimately show ?thesis using m assms(1) by simp
qed

lemma utf8_three:
  assumes "p < 16" "q < 64" "r < 64" "2048 \<le> p * 4096 + q * 64 + r"
  shows "utf8 (p * 4096 + q * 64 + r) = [0xE0 + p, 0x80 + q, 0x80 + r]"
proof -
  define c where "c = p * 4096 + q * 64 + r"
  have "c < 65536" "2048 \<le> c" using assms unfolding c_def by linarith+
  with digits64_of [OF assms(2,3) c_def] have "utf8 c = [0xE0 + p, 0x80 + q, 0x80 + r]" by (simp add: utf8_def)
  then show ?thesis by (simp only: c_def)
qed

lemma utf8_four:
  assumes "q < 64" "r < 64" "t < 64" "65536 \<le> p * 262144 + q * 4096 + r * 64 + t"
  shows "utf8 (p * 262144 + q * 4096 + r * 64 + t) = [0xF0 + p, 0x80 + q, 0x80 + r, 0x80 + t]"
proof -
  define c where c: "c = p * 262144 + q * 4096 + r * 64 + t"
  have "c = (p * 64 + q) * 4096 + r * 64 + t" using c by simp
  note d = digits64_of [OF assms(2,3) this]
  have "c div 262144 = c div 4096 div 64" by (simp add: div_mult2_eq [symmetric])
  then have "c div 262144 = p" "c div 4096 mod 64 = q" using d assms(1) by simp_all
  with d assms(4) c have "utf8 c = [0xF0 + p, 0x80 + q, 0x80 + r, 0x80 + t]" by (simp add: utf8_def)
  then show ?thesis by (simp only: c)
qed

lemma utf8_decode_exact: "utf8_decode bs = Some cs \<Longrightarrow> concat (map utf8 cs) = bs \<and> list_all is_scalar cs"
proof (induction bs arbitrary: cs rule: utf8_decode.induct)
  case (2 b bs)
  consider "b < 0x80" | "0xC2 \<le> b" "b < 0xE0" | "0xE0 \<le> b" "b < 0xF0" | "0xF0 \<le> b" "b < 0xF5"
    | "0x80 \<le> b" "b < 0xC2" | "0xF5 \<le> b" by linarith
  then show ?case
  proof cases
    case 1
    then show ?thesis using 2 by (auto simp: utf8_decode.simps(2) map_option_Cons_eq utf8_def is_scalar_def)
  next
    case h: 2
    then obtain x r cs' where r: "bs = x # r" "continuation x" "utf8_decode r = Some cs'" "cs = ((b - 0xC0) * 64 + (x - 0x80)) # cs'"
      using 2(5) by (auto simp: utf8_decode.simps(2) map_option_Cons_eq split: list.splits if_splits)
    have "2 \<le> b - 0xC0" "b - 0xC0 < 32" "x - 0x80 < 64" using h r(2) by auto
    from utf8_two [OF this] show ?thesis using h r 2(2) [of x r cs'] by simp
  next
    case h: 3
    then obtain x y r cs' where r: "bs = x # y # r" "continuation x" "continuation y" "utf8_decode r = Some cs'"
      "cs = ((b - 0xE0) * 4096 + (x - 0x80) * 64 + (y - 0x80)) # cs'"
      "0x800 \<le> (b - 0xE0) * 4096 + (x - 0x80) * 64 + (y - 0x80)" "is_scalar ((b - 0xE0) * 4096 + (x - 0x80) * 64 + (y - 0x80))"
      using 2(5) by (auto simp: utf8_decode.simps(2) Let_def map_option_Cons_eq split: list.splits if_splits)
    have "b - 0xE0 < 16" "x - 0x80 < 64" "y - 0x80 < 64" using h r(2,3) by auto
    from utf8_three [OF this r(6)] show ?thesis using h r 2(3) [of x "y # r" y r _ cs'] by simp
  next
    case h: 4
    then obtain x y z r cs' where r: "bs = x # y # z # r" "continuation x" "continuation y" "continuation z" "utf8_decode r = Some cs'"
      "cs = ((b - 0xF0) * 262144 + (x - 0x80) * 4096 + (y - 0x80) * 64 + (z - 0x80)) # cs'"
      "0x10000 \<le> (b - 0xF0) * 262144 + (x - 0x80) * 4096 + (y - 0x80) * 64 + (z - 0x80)"
      "is_scalar ((b - 0xF0) * 262144 + (x - 0x80) * 4096 + (y - 0x80) * 64 + (z - 0x80))"
      using 2(5) by (auto simp: utf8_decode.simps(2) Let_def map_option_Cons_eq split: list.splits if_splits)
    have "x - 0x80 < 64" "y - 0x80 < 64" "z - 0x80 < 64" using h r(2,3,4) by auto
    from utf8_four [OF this r(7)] show ?thesis using h r 2(4) [of x "y # z # r" y "z # r" z r _ cs'] by simp
  qed (use 2 in \<open>simp_all add: utf8_decode.simps(2)\<close>)
qed simp

lemma scalars_Cons: "\<not> high_surrogate u \<Longrightarrow> scalars (u # us) = lone u # scalars us"
  by (cases us) auto

lemma scalars_utf16: "is_scalar c \<Longrightarrow> scalars (utf16 c @ us) = c # scalars us"
proof (cases "c < 0x10000")
  case False
  assume "is_scalar c"
  with False have "(c - 0x10000) div 0x400 < 0x400" by (auto simp: is_scalar_def)
  moreover have "0x10000 + (c - 0x10000) div 0x400 * 0x400 + (c - 0x10000) mod 0x400 = c" using False by simp
  ultimately show ?thesis using False by (simp add: utf16_def)
qed (auto simp: utf16_def scalars_Cons lone_def is_scalar_def)

lemma text_decode_exact:
  assumes "text_decode bs = Some s"
  shows "text_encode s = bs \<and> well_formed (map unat s)"
proof -
  obtain cs where cs: "utf8_decode (map unat bs) = Some cs" "s = map word_of_nat (concat (map utf16 cs))"
    using assms by (auto simp: text_decode_def)
  note ex = utf8_decode_exact [OF cs(1)]
  have "list_all (\<lambda>u. u < 0x10000) (utf16 c)" if "is_scalar c" for c
    using that by (auto simp: utf16_def is_scalar_def)
  then have "list_all (\<lambda>u. u < 0x10000) (concat (map utf16 cs))" using ex by (fastforce simp: list_all_iff)
  then have u: "map unat s = concat (map utf16 cs)"
    unfolding cs(2) by (induction "concat (map utf16 cs)" arbitrary: cs) (auto simp: unat_of_nat list_all_iff intro!: map_idI)
  have "scalars (concat (map utf16 cs)) = cs" using conjunct2 [OF ex] by (induction cs) (auto simp: scalars_utf16)
  then have enc: "text_encode s = bs" using ex u by (simp add: text_encode_def map_idI)
  then show ?thesis using assms text_encode_exact by metis
qed

text \<open>A string of ASCII characters, for the literals of the source.\<close>

definition ascii :: "string \<Rightarrow> jstext" where
  "ascii s = map (\<lambda>c. word_of_nat (of_char c)) s"

end
