(* ===== verification/Cbor.thy ===== *)
theory Cbor
  imports Bytes_Text "HOL-Library.While_Combinator"
begin

unbundle bit_operations_syntax

text \<open>
  The protocol's strict CBOR subset: packages/protocol/src/cbor/options.ts, encoder.ts and decoder.ts.
  The writer keeps its growing buffer, the reader its offset; a reference encoding without buffer and
  limits says which bytes a value has.
\<close>

section \<open>JavaScript values\<close>

text \<open>
  A number is \<open>JInt\<close> when \<open>Number.isInteger\<close> holds and it is not minus zero, and the bits of its
  double otherwise. \<open>JArr\<close> has \<open>JUndef\<close> for a hole or an undefined element; \<open>JObj\<close> is a plain object by
  its enumerable own string properties in enumeration order, \<open>JSymObj\<close> one that also has an enumerable
  symbol key, and \<open>JOther\<close> any other value by its \<open>typeof\<close>. Values are trees, so the encoder's cycle
  check never fires on them.
\<close>

datatype js =
    JNull
  | JBool bool
  | JInt int
  | JDbl "64 word"
  | JText jstext
  | JBytes "byte list"
  | JArr "js list"
  | JObj "(jstext \<times> js) list"
  | JSymObj
  | JUndef
  | JOther string

definition safe_integer :: "int \<Rightarrow> bool" where
  "safe_integer i = (- (2 ^ 53 - 1) \<le> i \<and> i \<le> 2 ^ 53 - 1)"

text \<open>The fields of an IEEE double and the number it stands for.\<close>

definition dbl_negative :: "64 word \<Rightarrow> bool" where
  "dbl_negative b = (2 ^ 63 \<le> unat b)"

definition dbl_exponent :: "64 word \<Rightarrow> nat" where
  "dbl_exponent b = unat b div 2 ^ 52 mod 2 ^ 11"

definition dbl_finite :: "64 word \<Rightarrow> bool" where
  "dbl_finite b = (dbl_exponent b \<noteq> 2047)"

definition number_of_bits :: "64 word \<Rightarrow> js" where
  "number_of_bits b =
     (let e = dbl_exponent b; f = unat b mod 2 ^ 52;
          m = (if e = 0 then f else 2 ^ 52 + f);
          p = max e 1;
          s = (if dbl_negative b then -1 else 1 :: int)
      in if e = 2047 \<or> (dbl_negative b \<and> m = 0) then JDbl b
         else if 1075 \<le> p then JInt (s * int (m * 2 ^ (p - 1075)))
         else if 2 ^ (1075 - p) dvd m then JInt (s * int (m div 2 ^ (1075 - p)))
         else JDbl b)"

text \<open>
  Enumeration order: array-index keys in ascending order, then the other keys in the order they were
  defined. \<open>define_property\<close> is \<open>Object.defineProperty\<close> for a key that is not there yet.
\<close>

definition decimal :: "nat list \<Rightarrow> nat" where
  "decimal ds = foldl (\<lambda>n d. 10 * n + (d - 48)) 0 ds"

definition array_index :: "jstext \<Rightarrow> nat option" where
  "array_index k =
     (let ds = map unat k in
      if ds \<noteq> [] \<and> list_all (\<lambda>d. 48 \<le> d \<and> d \<le> 57) ds \<and> (hd ds \<noteq> 48 \<or> length ds = 1) \<and> decimal ds < 2 ^ 32 - 1
      then Some (decimal ds) else None)"

definition key_before :: "jstext \<Rightarrow> jstext \<Rightarrow> bool" where
  "key_before a b = (case (array_index a, array_index b) of
     (Some i, Some j) \<Rightarrow> i < j
   | (Some _, None) \<Rightarrow> True
   | _ \<Rightarrow> False)"

fun define_property :: "jstext \<Rightarrow> js \<Rightarrow> (jstext \<times> js) list \<Rightarrow> (jstext \<times> js) list" where
  "define_property k v [] = [(k, v)]"
| "define_property k v ((k', v') # kvs) =
     (if key_before k k' then (k, v) # (k', v') # kvs else (k', v') # define_property k v kvs)"

fun js_wf :: "js \<Rightarrow> bool" where
  "js_wf (JDbl b) = (number_of_bits b = JDbl b)"
| "js_wf (JArr xs) = (\<forall>x \<in> set xs. js_wf x)"
| "js_wf (JObj kvs) = (obj_wf kvs \<and> sorted_wrt (\<lambda>a b. \<not> key_before b a) (map fst kvs) \<and> (\<forall>(k, v) \<in> set kvs. js_wf v))"
| "js_wf _ = True"

section \<open>Options and errors\<close>

definition UINT32_BASE :: nat where "UINT32_BASE = 0x100000000"
definition MAX_UINT32 :: nat where "MAX_UINT32 = 0xffffffff"
definition MAX_CONFIGURED_DEPTH :: nat where "MAX_CONFIGURED_DEPTH = 512"
definition DEFAULT_MAX_CBOR_BYTE_LENGTH :: nat where "DEFAULT_MAX_CBOR_BYTE_LENGTH = 16 * 1024 * 1024"
definition DEFAULT_MAX_CBOR_CONTAINER_LENGTH :: nat where "DEFAULT_MAX_CBOR_CONTAINER_LENGTH = 1000000"
definition DEFAULT_MAX_CBOR_DEPTH :: nat where "DEFAULT_MAX_CBOR_DEPTH = 64"

record cbor_options =
  opt_maxByteLength :: "number option"
  opt_maxContainerLength :: "number option"
  opt_maxDepth :: "number option"

record resolved_options =
  maxByteLength :: nat
  maxContainerLength :: nat
  maxDepth :: nat

datatype cbor_error =
    LimitRange string nat
  | DepthExceeded nat
  | ByteLengthExceeded nat
  | NumberNotFinite
  | IntegerNotSafe
  | TextTooLong nat
  | TextNotScalar
  | TextDecoderThrew
  | ByteStringTooLong nat
  | ArrayTooLong nat
  | ArrayHole
  | KeysMustBeStrings
  | MapTooLong nat
  | UnsupportedValue string
  | TrailingData
  | DecodedNotSafe
  | ArgumentNotSafe
  | InvalidUtf8
  | DuplicateKey
  | TagsUnsupported
  | MalformedMajorType
  | DecodedNotFinite
  | BreakUnsupported
  | SimpleUnsupported
  | IndefiniteKind string
  | LengthExceeded string nat
  | IndefiniteItem
  | MalformedInformation
  | Truncated

definition resolveLimit :: "string \<Rightarrow> number \<Rightarrow> nat \<Rightarrow> (cbor_error, nat) result" where
  "resolveLimit name value maximum =
     (if \<not> is_safe_integer value \<or> num_lt value (Fin 0) \<or> num_lt (num_of_nat maximum) value
      then Inl (LimitRange name maximum)
      else case value of Fin r \<Rightarrow> Inr (nat \<lfloor>r\<rfloor>) | _ \<Rightarrow> Inl (LimitRange name maximum))"

definition given :: "number option \<Rightarrow> nat \<Rightarrow> number" where
  "given v fallback = (case v of Some n \<Rightarrow> n | None \<Rightarrow> num_of_nat fallback)"

definition resolveOptions :: "cbor_options \<Rightarrow> (cbor_error, resolved_options) result" where
  "resolveOptions o' =
     rbind (resolveLimit ''maxByteLength'' (given (opt_maxByteLength o') DEFAULT_MAX_CBOR_BYTE_LENGTH) MAX_UINT32) (\<lambda>b.
     rbind (resolveLimit ''maxContainerLength'' (given (opt_maxContainerLength o') DEFAULT_MAX_CBOR_CONTAINER_LENGTH) MAX_UINT32) (\<lambda>c.
     rbind (resolveLimit ''maxDepth'' (given (opt_maxDepth o') DEFAULT_MAX_CBOR_DEPTH) MAX_CONFIGURED_DEPTH) (\<lambda>d.
     Inr \<lparr>maxByteLength = b, maxContainerLength = c, maxDepth = d\<rparr>)))"

section \<open>CborWriter\<close>

record cbor_writer =
  wr_buffer :: "byte list"
  wr_offset :: nat
  wr_max :: nat

definition new_writer :: "nat \<Rightarrow> cbor_writer" where
  "new_writer maxb = \<lparr>wr_buffer = replicate (min 256 maxb) 0, wr_offset = 0, wr_max = maxb\<rparr>"

text \<open>The loop that picks the next capacity, and the value it starts from.\<close>

definition grow_step :: "nat \<Rightarrow> nat \<Rightarrow> nat \<Rightarrow> nat" where
  "grow_step maxb required capacity = min maxb (max required (capacity * 2))"

definition grow :: "nat \<Rightarrow> nat \<Rightarrow> nat \<Rightarrow> nat" where
  "grow maxb required = while (\<lambda>capacity. capacity < required) (grow_step maxb required)"

definition ensureCapacity :: "nat \<Rightarrow> cbor_writer \<Rightarrow> (cbor_error, cbor_writer) result" where
  "ensureCapacity additionalBytes w =
     (let required = wr_offset w + additionalBytes; len = length (wr_buffer w) in
      if wr_max w < required then Inl (ByteLengthExceeded (wr_max w))
      else if required \<le> len then Inr w
      else let capacity = grow (wr_max w) required (max 1 len)
        in Inr (w\<lparr>wr_buffer := wr_buffer w @ replicate (capacity - len) 0\<rparr>))"

text \<open>\<open>buffer.set(bytes, offset)\<close> and the move of the offset that follows every store.\<close>

definition put_bytes :: "byte list \<Rightarrow> cbor_writer \<Rightarrow> cbor_writer" where
  "put_bytes bs w = w\<lparr>wr_buffer := take (wr_offset w) (wr_buffer w) @ bs @ drop (wr_offset w + length bs) (wr_buffer w),
     wr_offset := wr_offset w + length bs\<rparr>"

definition writeBytes :: "byte list \<Rightarrow> cbor_writer \<Rightarrow> (cbor_error, cbor_writer) result" where
  "writeBytes bytes w = rbind (ensureCapacity (length bytes) w) (\<lambda>w. Inr (put_bytes bytes w))"

definition writeByte :: "nat \<Rightarrow> cbor_writer \<Rightarrow> (cbor_error, cbor_writer) result" where
  "writeByte value w = rbind (ensureCapacity 1 w) (\<lambda>w. Inr (put_bytes [byte_of value] w))"

definition writeUint16 :: "nat \<Rightarrow> cbor_writer \<Rightarrow> (cbor_error, cbor_writer) result" where
  "writeUint16 value w = rbind (ensureCapacity 2 w) (\<lambda>w. Inr (put_bytes [byte_of (ushr value 8), byte_of value] w))"

definition writeUint32 :: "nat \<Rightarrow> cbor_writer \<Rightarrow> (cbor_error, cbor_writer) result" where
  "writeUint32 value w = rbind (ensureCapacity 4 w) (\<lambda>w. Inr (put_bytes (uint32_bytes value) w))"

definition writeUint64 :: "nat \<Rightarrow> cbor_writer \<Rightarrow> (cbor_error, cbor_writer) result" where
  "writeUint64 value w =
     (let high = value div UINT32_BASE; low = value - high * UINT32_BASE
      in rbind (writeUint32 high w) (writeUint32 low))"

definition float64_bytes :: "64 word \<Rightarrow> byte list" where
  "float64_bytes b = uint32_bytes (unat b div UINT32_BASE) @ uint32_bytes (unat b mod UINT32_BASE)"

definition writeFloat64 :: "64 word \<Rightarrow> cbor_writer \<Rightarrow> (cbor_error, cbor_writer) result" where
  "writeFloat64 value w = rbind (ensureCapacity 9 w) (\<lambda>w. Inr (put_bytes (0xfb # float64_bytes value) w))"

definition finish :: "cbor_writer \<Rightarrow> byte list" where
  "finish w = take (wr_offset w) (wr_buffer w)"

section \<open>The encoder\<close>

definition writeArgument :: "nat \<Rightarrow> nat \<Rightarrow> cbor_writer \<Rightarrow> (cbor_error, cbor_writer) result" where
  "writeArgument majorType value w =
     (let prefix = push_bit 5 majorType in
      if value < 24 then writeByte (prefix OR value) w
      else if value \<le> 0xff then rbind (writeByte (prefix OR 24) w) (writeByte value)
      else if value \<le> 0xffff then rbind (writeByte (prefix OR 25) w) (writeUint16 value)
      else if value \<le> MAX_UINT32 then rbind (writeByte (prefix OR 26) w) (writeUint32 value)
      else rbind (writeByte (prefix OR 27) w) (writeUint64 value))"

definition encodeText :: "jstext \<Rightarrow> resolved_options \<Rightarrow> cbor_writer \<Rightarrow> (cbor_error, cbor_writer) result" where
  "encodeText value options w =
     (let bytes = text_encode value in
      if maxByteLength options < length bytes then Inl (TextTooLong (maxByteLength options))
      else case text_decode bytes of
        None \<Rightarrow> Inl TextDecoderThrew
      | Some s \<Rightarrow>
          if s \<noteq> value then Inl TextNotScalar
          else rbind (writeArgument 3 (length bytes) w) (writeBytes bytes))"

text \<open>A \<open>for\<close> loop whose body may throw.\<close>

fun for_each :: "('a \<Rightarrow> 's \<Rightarrow> ('e, 's) result) \<Rightarrow> 'a list \<Rightarrow> 's \<Rightarrow> ('e, 's) result" where
  "for_each f [] s = Inr s"
| "for_each f (x # xs) s = rbind (f x s) (for_each f xs)"

lemma for_each_cong [fundef_cong]:
  "xs = ys \<Longrightarrow> s = t \<Longrightarrow> (\<And>x s. x \<in> set ys \<Longrightarrow> f x s = g x s) \<Longrightarrow> for_each f xs s = for_each g ys t"
proof (induction ys arbitrary: xs s t)
  case (Cons y ys)
  then show ?case by (cases "g y t") simp_all
qed simp

definition object_entries :: "(jstext \<times> js) list \<Rightarrow> (jstext \<times> js) list" where
  "object_entries kvs = filter (\<lambda>(k, v). v \<noteq> JUndef) kvs"

lemma array_size: "x \<in> set xs \<Longrightarrow> size x < Suc (size_list size xs)"
  using size_list_estimation' [of x xs "size x" size] by auto

lemma object_entries_size: "(k, v) \<in> set (object_entries kvs) \<Longrightarrow> size v < Suc (size_list (size_prod (\<lambda>_. 0) size) kvs)"
  using size_list_estimation' [of "(k, v)" kvs "size v" "size_prod (\<lambda>_. 0) size"] by (auto simp: object_entries_def)

function encodeValue :: "resolved_options \<Rightarrow> nat \<Rightarrow> js \<Rightarrow> cbor_writer \<Rightarrow> (cbor_error, cbor_writer) result" where
  "encodeValue options depth value w =
     (if maxDepth options < depth then Inl (DepthExceeded (maxDepth options))
      else case value of
        JNull \<Rightarrow> writeByte 0xf6 w
      | JBool b \<Rightarrow> writeByte (if b then 0xf5 else 0xf4) w
      | JDbl b \<Rightarrow> if \<not> dbl_finite b then Inl NumberNotFinite else writeFloat64 b w
      | JInt i \<Rightarrow>
          if \<not> safe_integer i then Inl IntegerNotSafe
          else if 0 \<le> i then writeArgument 0 (nat i) w else writeArgument 1 (nat (-1 - i)) w
      | JText s \<Rightarrow> encodeText s options w
      | JBytes bytes \<Rightarrow>
          if maxByteLength options < length bytes then Inl (ByteStringTooLong (maxByteLength options))
          else rbind (writeArgument 2 (length bytes) w) (writeBytes bytes)
      | JArr xs \<Rightarrow>
          if maxContainerLength options < length xs then Inl (ArrayTooLong (maxContainerLength options))
          else rbind (writeArgument 4 (length xs) w)
            (\<lambda>w. for_each (\<lambda>x w. if x = JUndef then Inl ArrayHole else encodeValue options (depth + 1) x w) xs w)
      | JSymObj \<Rightarrow> Inl KeysMustBeStrings
      | JObj kvs \<Rightarrow>
          let entries = object_entries kvs in
          if maxContainerLength options < length entries then Inl (MapTooLong (maxContainerLength options))
          else rbind (writeArgument 5 (length entries) w)
            (\<lambda>w. for_each (\<lambda>(k, v) w. rbind (encodeText k options w) (\<lambda>w. encodeValue options (depth + 1) v w)) entries w)
      | JUndef \<Rightarrow> Inl (UnsupportedValue ''undefined'')
      | JOther t \<Rightarrow> Inl (UnsupportedValue t))"
  by pat_completeness auto

termination encodeValue
  by (relation "measure (\<lambda>(_, _, v, _). size v)") (auto dest: array_size object_entries_size)

declare encodeValue.simps [simp del]

definition encodeCbor :: "cbor_options \<Rightarrow> js \<Rightarrow> (cbor_error, byte list) result" where
  "encodeCbor options value =
     rbind (resolveOptions options) (\<lambda>resolved.
     rbind (encodeValue resolved 0 value (new_writer (maxByteLength resolved))) (\<lambda>w.
     Inr (finish w)))"

section \<open>CborReader\<close>

text \<open>The reader's state is its offset into the payload; every read answers the value and the next offset.\<close>

definition readByte :: "byte list \<Rightarrow> nat \<Rightarrow> (cbor_error, nat \<times> nat) result" where
  "readByte bytes offset = (if length bytes \<le> offset then Inl Truncated else Inr (unat (bytes ! offset), offset + 1))"

definition readBytes :: "byte list \<Rightarrow> nat \<Rightarrow> nat \<Rightarrow> (cbor_error, byte list \<times> nat) result" where
  "readBytes bytes n offset =
     (if length bytes - offset < n then Inl Truncated else Inr (take n (drop offset bytes), offset + n))"

definition readUint32 :: "byte list \<Rightarrow> nat \<Rightarrow> (cbor_error, nat \<times> nat) result" where
  "readUint32 bytes offset = rbind (readBytes bytes 4 offset) (\<lambda>(bs, offset). Inr (uint32_of bs, offset))"

definition readArgument :: "byte list \<Rightarrow> nat \<Rightarrow> nat \<Rightarrow> (cbor_error, nat \<times> nat) result" where
  "readArgument bytes info offset =
     (if info < 24 then Inr (info, offset)
      else if info = 24 then readByte bytes offset
      else if info = 25 then rbind (readBytes bytes 2 offset) (\<lambda>(bs, offset). Inr (unat (bs ! 0) * 0x100 + unat (bs ! 1), offset))
      else if info = 26 then readUint32 bytes offset
      else if info = 27 then
        rbind (readUint32 bytes offset) (\<lambda>(high, offset).
        rbind (readUint32 bytes offset) (\<lambda>(low, offset).
          if 0x1fffff < high then Inl ArgumentNotSafe else Inr (high * UINT32_BASE + low, offset)))
      else if info = 31 then Inl IndefiniteItem
      else Inl MalformedInformation)"

definition readLength :: "byte list \<Rightarrow> nat \<Rightarrow> string \<Rightarrow> nat \<Rightarrow> nat \<Rightarrow> (cbor_error, nat \<times> nat) result" where
  "readLength bytes info kind limit offset =
     (if info = 31 then Inl (IndefiniteKind kind)
      else rbind (readArgument bytes info offset) (\<lambda>(n, offset).
        if limit < n then Inl (LengthExceeded kind limit) else Inr (n, offset)))"

definition bits_of_float64 :: "byte list \<Rightarrow> 64 word" where
  "bits_of_float64 bs = word_of_nat (uint32_of (take 4 bs) * UINT32_BASE + uint32_of (drop 4 bs))"

definition readSimple :: "byte list \<Rightarrow> nat \<Rightarrow> nat \<Rightarrow> (cbor_error, js \<times> nat) result" where
  "readSimple bytes info offset =
     (if info = 20 then Inr (JBool False, offset)
      else if info = 21 then Inr (JBool True, offset)
      else if info = 22 then Inr (JNull, offset)
      else if info = 27 then
        rbind (readBytes bytes 8 offset) (\<lambda>(bs, offset).
          let b = bits_of_float64 bs in
          if \<not> dbl_finite b then Inl DecodedNotFinite
          else case number_of_bits b of
            JInt i \<Rightarrow> if safe_integer i then Inr (JInt i, offset) else Inl DecodedNotSafe
          | value \<Rightarrow> Inr (value, offset))
      else if info = 31 then Inl BreakUnsupported
      else Inl SimpleUnsupported)"

text \<open>A counted \<open>for\<close> loop whose body may throw.\<close>

fun times :: "nat \<Rightarrow> ('s \<Rightarrow> ('e, 's) result) \<Rightarrow> 's \<Rightarrow> ('e, 's) result" where
  "times n f s = (if n = 0 then Inr s else rbind (f s) (times (n - 1) f))"

declare times.simps [simp del]

function readItem :: "resolved_options \<Rightarrow> byte list \<Rightarrow> nat \<Rightarrow> nat \<Rightarrow> (cbor_error, js \<times> nat) result" where
  "readItem options bytes depth offset =
     (if maxDepth options < depth then Inl (DepthExceeded (maxDepth options))
      else rbind (readByte bytes offset) (\<lambda>(initial, offset).
        let majorType = drop_bit 5 initial; info = initial AND 0x1f in
        if majorType = 0 then rbind (readArgument bytes info offset) (\<lambda>(n, offset). Inr (JInt (int n), offset))
        else if majorType = 1 then
          rbind (readArgument bytes info offset) (\<lambda>(n, offset).
            let value = -1 - int n in if safe_integer value then Inr (JInt value, offset) else Inl DecodedNotSafe)
        else if majorType = 2 then
          rbind (readLength bytes info ''byte string'' (maxByteLength options) offset) (\<lambda>(n, offset).
          rbind (readBytes bytes n offset) (\<lambda>(bs, offset). Inr (JBytes bs, offset)))
        else if majorType = 3 then
          rbind (readLength bytes info ''text string'' (maxByteLength options) offset) (\<lambda>(n, offset).
          rbind (readBytes bytes n offset) (\<lambda>(bs, offset).
            case text_decode bs of None \<Rightarrow> Inl InvalidUtf8 | Some s \<Rightarrow> Inr (JText s, offset)))
        else if majorType = 4 then
          rbind (readLength bytes info ''array'' (maxContainerLength options) offset) (\<lambda>(n, offset).
          rbind (times n (\<lambda>(result, offset).
              rbind (readItem options bytes (depth + 1) offset) (\<lambda>(v, offset). Inr (result @ [v], offset))) ([], offset))
            (\<lambda>(result, offset). Inr (JArr result, offset)))
        else if majorType = 5 then
          rbind (readLength bytes info ''map'' (maxContainerLength options) offset) (\<lambda>(n, offset).
          rbind (times n (\<lambda>(result, offset).
              rbind (readItem options bytes (depth + 1) offset) (\<lambda>(key, offset).
                case key of
                  JText k \<Rightarrow>
                    if k \<in> fst ` set result then Inl DuplicateKey
                    else rbind (readItem options bytes (depth + 1) offset) (\<lambda>(v, offset).
                      Inr (define_property k v result, offset))
                | _ \<Rightarrow> Inl KeysMustBeStrings)) ([], offset))
            (\<lambda>(result, offset). Inr (JObj result, offset)))
        else if majorType = 6 then Inl TagsUnsupported
        else if majorType = 7 then readSimple bytes info offset
        else Inl MalformedMajorType))"
  by pat_completeness auto

termination readItem
  by (relation "measure (\<lambda>(options, _, depth, _). Suc (maxDepth options) - depth)") auto

declare readItem.simps [simp del]

definition cbor_decode :: "resolved_options \<Rightarrow> byte list \<Rightarrow> (cbor_error, js) result" where
  "cbor_decode options bytes =
     rbind (readItem options bytes 0 0) (\<lambda>(value, offset).
       if offset \<noteq> length bytes then Inl TrailingData else Inr value)"

definition decodeCbor :: "cbor_options \<Rightarrow> byte list \<Rightarrow> (cbor_error, js) result" where
  "decodeCbor options bytes =
     rbind (resolveOptions options) (\<lambda>resolved.
       if maxByteLength resolved < length bytes then Inl (ByteLengthExceeded (maxByteLength resolved))
       else cbor_decode resolved bytes)"

end
