(* ===== verification/Cbor_Correct.thy ===== *)
theory Cbor_Correct
  imports Cbor
begin

unbundle bit_operations_syntax

text \<open>
  The reference encoding of a value, which values the encoder takes, and the proofs that the writer with
  its growing buffer produces the reference encoding within the limit and that the reader reads it back.
\<close>

section \<open>Reference encoding\<close>

definition argument_bytes :: "nat \<Rightarrow> nat \<Rightarrow> byte list" where
  "argument_bytes m n =
     (let prefix = push_bit 5 m in
      if n < 24 then [byte_of (prefix OR n)]
      else if n \<le> 0xff then [byte_of (prefix OR 24), byte_of n]
      else if n \<le> 0xffff then [byte_of (prefix OR 25), byte_of (ushr n 8), byte_of n]
      else if n \<le> MAX_UINT32 then byte_of (prefix OR 26) # uint32_bytes n
      else byte_of (prefix OR 27) # uint32_bytes (n div UINT32_BASE) @ uint32_bytes (n - n div UINT32_BASE * UINT32_BASE))"

definition text_item :: "jstext \<Rightarrow> byte list" where
  "text_item s = argument_bytes 3 (length (text_encode s)) @ text_encode s"

fun cbor :: "js \<Rightarrow> byte list" where
  "cbor JNull = [0xf6]"
| "cbor (JBool b) = [if b then 0xf5 else 0xf4]"
| "cbor (JDbl b) = 0xfb # float64_bytes b"
| "cbor (JInt i) = (if 0 \<le> i then argument_bytes 0 (nat i) else argument_bytes 1 (nat (-1 - i)))"
| "cbor (JText s) = text_item s"
| "cbor (JBytes bs) = argument_bytes 2 (length bs) @ bs"
| "cbor (JArr xs) = argument_bytes 4 (length xs) @ concat (map cbor xs)"
| "cbor (JObj kvs) =
     argument_bytes 5 (length (object_entries kvs)) @
     concat (map (\<lambda>(k, v). if v = JUndef then [] else text_item k @ cbor v) kvs)"
| "cbor _ = []"

definition text_ok :: "resolved_options \<Rightarrow> jstext \<Rightarrow> bool" where
  "text_ok options s = (length (text_encode s) \<le> maxByteLength options \<and> well_formed (map unat s))"

fun encodable :: "resolved_options \<Rightarrow> nat \<Rightarrow> js \<Rightarrow> bool" where
  "encodable options depth v =
     (depth \<le> maxDepth options \<and>
      (case v of
         JNull \<Rightarrow> True
       | JBool _ \<Rightarrow> True
       | JDbl b \<Rightarrow> dbl_finite b
       | JInt i \<Rightarrow> safe_integer i
       | JText s \<Rightarrow> text_ok options s
       | JBytes bs \<Rightarrow> length bs \<le> maxByteLength options
       | JArr xs \<Rightarrow> length xs \<le> maxContainerLength options \<and> (\<forall>x \<in> set xs. x \<noteq> JUndef \<and> encodable options (depth + 1) x)
       | JObj kvs \<Rightarrow> length (object_entries kvs) \<le> maxContainerLength options \<and>
           (\<forall>(k, v) \<in> set kvs. v \<noteq> JUndef \<longrightarrow> text_ok options k \<and> encodable options (depth + 1) v)
       | _ \<Rightarrow> False))"

declare encodable.simps [simp del]

text \<open>What is left of a value after a round trip: object properties that are undefined are dropped.\<close>

fun defined_part :: "js \<Rightarrow> js" where
  "defined_part (JArr xs) = JArr (map defined_part xs)"
| "defined_part (JObj kvs) = JObj (concat (map (\<lambda>(k, v). if v = JUndef then [] else [(k, defined_part v)]) kvs))"
| "defined_part v = v"

section \<open>The writer\<close>

text \<open>The growth loop runs its body once: from any capacity it returns, with the required size within the limit.\<close>

lemma grow_returns:
  assumes "required \<le> maxb"
  shows "\<exists>c. while_option (\<lambda>c. c < required) (grow_step maxb required) c0 = Some c"
  by (rule measure_while_option_Some [where P = "\<lambda>_. True" and f = "\<lambda>c. required - c"]) (use assms in \<open>auto simp: grow_step_def\<close>)

lemma grow_bounds:
  assumes "required \<le> maxb" "c0 \<le> maxb"
  shows "required \<le> grow maxb required c0 \<and> grow maxb required c0 \<le> maxb \<and> c0 \<le> grow maxb required c0"
proof (cases "c0 < required")
  case True
  then show ?thesis using assms
    by (simp add: grow_def while_unfold [of _ _ c0]) (auto simp: while_unfold grow_step_def)
next
  case False
  then show ?thesis using assms by (simp add: grow_def while_unfold)
qed

definition writer_wf :: "cbor_writer \<Rightarrow> bool" where
  "writer_wf w = (wr_offset w \<le> length (wr_buffer w) \<and> length (wr_buffer w) \<le> wr_max w)"

definition appends :: "byte list \<Rightarrow> (cbor_writer \<Rightarrow> (cbor_error, cbor_writer) result) \<Rightarrow> bool" where
  "appends bs f = (\<forall>w. writer_wf w \<longrightarrow>
     (if wr_max w < wr_offset w + length bs then f w = Inl (ByteLengthExceeded (wr_max w))
      else \<exists>w'. f w = Inr w' \<and> writer_wf w' \<and> finish w' = finish w @ bs \<and> wr_max w' = wr_max w \<and>
        wr_offset w' = wr_offset w + length bs))"

definition fails :: "(cbor_writer \<Rightarrow> (cbor_error, cbor_writer) result) \<Rightarrow> bool" where
  "fails f = (\<forall>w. writer_wf w \<longrightarrow> (\<exists>e. f w = Inl e))"

lemma ensureCapacity_ok:
  assumes "writer_wf w" "wr_offset w + n \<le> wr_max w"
  shows "\<exists>w'. ensureCapacity n w = Inr w' \<and> writer_wf w' \<and> wr_offset w' = wr_offset w \<and> wr_max w' = wr_max w \<and>
    wr_offset w + n \<le> length (wr_buffer w') \<and> finish w' = finish w"
proof (cases "wr_offset w + n \<le> length (wr_buffer w)")
  case True
  with assms show ?thesis by (simp add: ensureCapacity_def Let_def)
next
  case False
  then have "max 1 (length (wr_buffer w)) \<le> wr_max w" using assms by (auto simp: writer_wf_def)
  from grow_bounds [OF assms(2) this] False assms show ?thesis
    by (auto simp: ensureCapacity_def Let_def writer_wf_def finish_def)
qed

lemma put_bytes_ok:
  assumes "writer_wf w" "wr_offset w + length bs \<le> length (wr_buffer w)"
  shows "writer_wf (put_bytes bs w) \<and> finish (put_bytes bs w) = finish w @ bs"
  using assms by (auto simp: writer_wf_def put_bytes_def finish_def)

lemma appends_put:
  assumes "length bs = n"
  shows "appends bs (\<lambda>w. rbind (ensureCapacity n w) (\<lambda>w. Inr (put_bytes bs w)))"
  unfolding appends_def
proof (intro allI impI)
  fix w assume w: "writer_wf w"
  show "if wr_max w < wr_offset w + length bs
    then rbind (ensureCapacity n w) (\<lambda>w. Inr (put_bytes bs w)) = Inl (ByteLengthExceeded (wr_max w))
    else \<exists>w'. rbind (ensureCapacity n w) (\<lambda>w. Inr (put_bytes bs w)) = Inr w' \<and> writer_wf w' \<and>
      finish w' = finish w @ bs \<and> wr_max w' = wr_max w \<and> wr_offset w' = wr_offset w + length bs"
  proof (cases "wr_max w < wr_offset w + length bs")
    case True
    then show ?thesis using assms by (simp add: ensureCapacity_def Let_def)
  next
    case False
    then obtain w' where "ensureCapacity n w = Inr w'" "writer_wf w'" "wr_offset w' = wr_offset w" "wr_max w' = wr_max w"
      "wr_offset w + n \<le> length (wr_buffer w')" "finish w' = finish w"
      using ensureCapacity_ok [OF w, of n] assms by force
    then show ?thesis using False put_bytes_ok [of w' bs] assms by (auto simp: put_bytes_def)
  qed
qed

lemma appends_seq:
  assumes "appends bs f" "appends cs g"
  shows "appends (bs @ cs) (\<lambda>w. rbind (f w) g)"
  unfolding appends_def
proof (intro allI impI)
  fix w assume w: "writer_wf w"
  show "if wr_max w < wr_offset w + length (bs @ cs) then rbind (f w) g = Inl (ByteLengthExceeded (wr_max w))
    else \<exists>w'. rbind (f w) g = Inr w' \<and> writer_wf w' \<and> finish w' = finish w @ bs @ cs \<and> wr_max w' = wr_max w \<and>
      wr_offset w' = wr_offset w + length (bs @ cs)"
  proof (cases "wr_max w < wr_offset w + length bs")
    case True
    then show ?thesis using assms(1) w by (simp add: appends_def)
  next
    case False
    then obtain w1 where w1: "f w = Inr w1" "writer_wf w1" "finish w1 = finish w @ bs" "wr_max w1 = wr_max w"
      "wr_offset w1 = wr_offset w + length bs" using assms(1) w by (force simp: appends_def)
    then show ?thesis using assms(2) by (simp add: appends_def add.assoc) force
  qed
qed

lemma appends_fails_seq: "appends bs f \<Longrightarrow> fails g \<Longrightarrow> fails (\<lambda>w. rbind (f w) g)"
  unfolding fails_def appends_def by (metis rbind_Inl rbind_Inr)

lemma fails_seq: "fails f \<Longrightarrow> fails (\<lambda>w. rbind (f w) g)"
  unfolding fails_def by (metis rbind_Inl)

lemma appends_for_each: "(\<And>x. x \<in> set xs \<Longrightarrow> appends (g x) (f x)) \<Longrightarrow> appends (concat (map g xs)) (for_each f xs)"
proof (induction xs)
  case Nil
  then show ?case by (simp add: appends_def writer_wf_def)
next
  case (Cons x xs)
  then show ?case using appends_seq [of "g x" "f x" "concat (map g xs)" "for_each f xs"] by simp
qed

lemma fails_for_each:
  "(\<And>x. x \<in> set xs \<Longrightarrow> appends (g x) (f x) \<or> fails (f x)) \<Longrightarrow> x \<in> set xs \<Longrightarrow> fails (f x) \<Longrightarrow> fails (for_each f xs)"
proof (induction xs)
  case (Cons y xs)
  show ?case
  proof (cases "fails (f y)")
    case True
    then show ?thesis using fails_seq by simp
  next
    case False
    then have "x \<in> set xs" using Cons.prems by auto
    then have "fails (for_each f xs)" using Cons by simp
    then show ?thesis using False Cons.prems(1) [of y] appends_fails_seq [of "g y" "f y"] by simp
  qed
qed simp

lemmas write_defs = writeByte_def writeBytes_def writeUint16_def writeUint32_def writeFloat64_def

lemma appends_writes:
  "appends [byte_of n] (writeByte n)"
  "appends bs (writeBytes bs)"
  "appends [byte_of (ushr n 8), byte_of n] (writeUint16 n)"
  "appends (uint32_bytes n) (writeUint32 n)"
  "appends (0xfb # float64_bytes b) (writeFloat64 b)"
  unfolding write_defs by (rule appends_put, simp add: float64_bytes_def)+

lemma appends_uint64: "appends (uint32_bytes (n div UINT32_BASE) @ uint32_bytes (n - n div UINT32_BASE * UINT32_BASE)) (writeUint64 n)"
  unfolding writeUint64_def Let_def by (intro appends_seq appends_writes)

lemma appends_argument: "appends (argument_bytes m n) (writeArgument m n)"
  unfolding argument_bytes_def writeArgument_def Let_def
  using appends_seq [OF appends_writes(1) appends_writes(1)] appends_seq [OF appends_writes(1) appends_writes(3)]
    appends_seq [OF appends_writes(1) appends_writes(4)] appends_seq [OF appends_writes(1) appends_uint64] appends_writes(1)
  by (simp del: ushr_small)

section \<open>The encoder\<close>

lemma appends_text: "text_ok options s \<Longrightarrow> appends (text_item s) (encodeText s options)"
  unfolding text_item_def encodeText_def Let_def text_ok_def
  using text_encode_exact [of s] by (auto intro: appends_seq appends_argument appends_writes)

lemma fails_text: "\<not> text_ok options s \<Longrightarrow> fails (encodeText s options)"
  using text_encode_exact [of s]
  by (auto simp: fails_def encodeText_def Let_def text_ok_def split: option.splits)

lemma cbor_entries:
  "concat (map (\<lambda>(k, v). if v = JUndef then [] else f k @ g v) kvs) = concat (map (\<lambda>(k, v). f k @ g v) (object_entries kvs))"
  by (induction kvs) (auto simp: object_entries_def)

lemma encodeValue_JArr:
  assumes "depth \<le> maxDepth options" "length xs \<le> maxContainerLength options"
  shows "encodeValue options depth (JArr xs) = (\<lambda>w. rbind (writeArgument 4 (length xs) w)
    (for_each (\<lambda>x w. if x = JUndef then Inl ArrayHole else encodeValue options (depth + 1) x w) xs))"
  by (rule ext, subst encodeValue.simps) (use assms in simp)

lemma encodeValue_JObj:
  assumes "depth \<le> maxDepth options" "length (object_entries kvs) \<le> maxContainerLength options"
  shows "encodeValue options depth (JObj kvs) = (\<lambda>w. rbind (writeArgument 5 (length (object_entries kvs)) w)
    (for_each (\<lambda>(k, v) w. rbind (encodeText k options w) (\<lambda>w. encodeValue options (depth + 1) v w)) (object_entries kvs)))"
  by (rule ext, subst encodeValue.simps) (use assms in \<open>simp add: Let_def\<close>)

text \<open>On every value the encoder either appends the reference encoding or refuses, whatever was written before.\<close>

lemma encodeValue_cases:
  "(encodable options depth v \<longrightarrow> appends (cbor v) (encodeValue options depth v)) \<and>
   (\<not> encodable options depth v \<longrightarrow> fails (encodeValue options depth v))"
proof (induction v arbitrary: depth)
  case (JArr xs)
  let ?f = "\<lambda>x w. if x = JUndef then Inl ArrayHole else encodeValue options (depth + 1) x w"
  have x: "(x \<noteq> JUndef \<and> encodable options (depth + 1) x \<longrightarrow> appends (cbor x) (?f x)) \<and>
      (\<not> (x \<noteq> JUndef \<and> encodable options (depth + 1) x) \<longrightarrow> fails (?f x))" if "x \<in> set xs" for x
    using JArr.IH [OF that, of "depth + 1"] by (auto simp: fails_def)
  show ?case
  proof (cases "encodable options depth (JArr xs)")
    case True
    then have "appends (concat (map cbor xs)) (for_each ?f xs)" using x by (intro appends_for_each) (auto simp: encodable.simps)
    from appends_seq [OF appends_argument this] True show ?thesis
      using encodeValue_JArr [of depth options xs] encodable.simps [of options depth "JArr xs"] by simp
  next
    case False
    show ?thesis
    proof (cases "depth \<le> maxDepth options \<and> length xs \<le> maxContainerLength options")
      case True
      with False obtain y where "y \<in> set xs" "fails (?f y)" using x by (auto simp: encodable.simps)
      then have "fails (for_each ?f xs)" using x by (intro fails_for_each [of xs cbor ?f y]) blast+
      from appends_fails_seq [OF appends_argument this] True False show ?thesis using encodeValue_JArr [of depth options xs] by simp
    qed (use False in \<open>auto simp: encodeValue.simps fails_def\<close>)
  qed
next
  case (JObj kvs)
  let ?f = "\<lambda>(k, v) w. rbind (encodeText k options w) (\<lambda>w. encodeValue options (depth + 1) v w)"
  let ?g = "\<lambda>(k, v). text_item k @ cbor v"
  let ?ok = "\<lambda>(k, v). text_ok options k \<and> encodable options (depth + 1) v"
  have kv: "(?ok kv \<longrightarrow> appends (?g kv) (?f kv)) \<and> (\<not> ?ok kv \<longrightarrow> fails (?f kv))" if mem: "kv \<in> set (object_entries kvs)" for kv
  proof -
    obtain k v where e: "kv = (k, v)" "(k, v) \<in> set kvs" using mem by (metis filter_is_subset object_entries_def subsetD surj_pair)
    note ih = JObj.IH [OF e(2), of v "depth + 1", simplified]
    show ?thesis unfolding e(1)
      using ih appends_seq [OF appends_text, of options k "cbor v" "encodeValue options (depth + 1) v"]
        appends_fails_seq [OF appends_text, of options k "encodeValue options (depth + 1) v"]
        fails_seq [OF fails_text, of options k "encodeValue options (depth + 1) v"]
      by auto
  qed
  have ok: "encodable options depth (JObj kvs) \<longleftrightarrow> depth \<le> maxDepth options \<and>
      length (object_entries kvs) \<le> maxContainerLength options \<and> (\<forall>kv \<in> set (object_entries kvs). ?ok kv)"
    by (subst encodable.simps) (auto simp: object_entries_def)
  show ?case
  proof (cases "encodable options depth (JObj kvs)")
    case True
    then have "appends (concat (map ?g (object_entries kvs))) (for_each ?f (object_entries kvs))"
      using kv ok by (intro appends_for_each) blast
    from appends_seq [OF appends_argument this] True ok show ?thesis
      using encodeValue_JObj [of depth options kvs] by (simp add: cbor_entries)
  next
    case False
    show ?thesis
    proof (cases "depth \<le> maxDepth options \<and> length (object_entries kvs) \<le> maxContainerLength options")
      case True
      with False obtain y where "y \<in> set (object_entries kvs)" "fails (?f y)" using kv ok by blast
      then have "fails (for_each ?f (object_entries kvs))" using kv by (intro fails_for_each [of _ ?g ?f y]) blast+
      from appends_fails_seq [OF appends_argument this] True False show ?thesis using encodeValue_JObj [of depth options kvs] by simp
    qed (use False in \<open>auto simp: encodeValue.simps fails_def Let_def\<close>)
  qed
next
  case (JText s)
  then show ?case using appends_text fails_text
    by (auto simp: encodeValue.simps encodable.simps fails_def)
next
  case (JBytes bs)
  then show ?case using appends_seq [OF appends_argument appends_writes(2)]
    by (auto simp: encodeValue.simps encodable.simps fails_def)
next
  case (JInt i)
  then show ?case using appends_argument by (auto simp: encodeValue.simps encodable.simps fails_def)
next
  case (JDbl b)
  then show ?case using appends_writes(5) by (auto simp: encodeValue.simps encodable.simps fails_def)
next
  case JNull
  then show ?case using appends_writes(1) [of "0xf6"]
    by (auto simp: encodeValue.simps encodable.simps fails_def byte_of_def)
next
  case (JBool b)
  then show ?case using appends_writes(1) [of "0xf5"] appends_writes(1) [of "0xf4"]
    by (auto simp: encodeValue.simps encodable.simps fails_def byte_of_def)
qed (simp_all add: encodeValue.simps encodable.simps fails_def)

lemma new_writer_wf: "writer_wf (new_writer n)" "finish (new_writer n) = []" "wr_offset (new_writer n) = 0" "wr_max (new_writer n) = n"
  by (simp_all add: new_writer_def writer_wf_def finish_def)

lemma encodeCbor_iff:
  assumes "resolveOptions options = Inr resolved"
  shows "encodeCbor options v = Inr bs \<longleftrightarrow>
    encodable resolved 0 v \<and> length (cbor v) \<le> maxByteLength resolved \<and> bs = cbor v"
proof -
  let ?w = "new_writer (maxByteLength resolved)"
  have "\<exists>e. encodeValue resolved 0 v ?w = Inl e" if "\<not> encodable resolved 0 v"
    using that encodeValue_cases [of resolved 0 v] new_writer_wf by (auto simp: fails_def)
  moreover have "if maxByteLength resolved < length (cbor v) then \<exists>e. encodeValue resolved 0 v ?w = Inl e
      else \<exists>w'. encodeValue resolved 0 v ?w = Inr w' \<and> finish w' = cbor v" if "encodable resolved 0 v"
  proof -
    from that encodeValue_cases [of resolved 0 v] have "appends (cbor v) (encodeValue resolved 0 v)" by blast
    from this [unfolded appends_def, rule_format, OF new_writer_wf(1) [of "maxByteLength resolved"]] show ?thesis
      by (auto simp: new_writer_wf split: if_splits)
  qed
  ultimately show ?thesis using assms
    by (cases "encodable resolved 0 v"; cases "maxByteLength resolved < length (cbor v)") (auto simp: encodeCbor_def rbind_eq_Inr)
qed

section \<open>The reader\<close>

text \<open>\<open>bs\<close> stands at \<open>offset\<close> in the payload.\<close>

definition stands :: "byte list \<Rightarrow> nat \<Rightarrow> byte list \<Rightarrow> bool" where
  "stands bytes offset bs = (take (length bs) (drop offset bytes) = bs)"

lemma stands_append: "stands bytes offset (bs @ cs) \<longleftrightarrow> stands bytes offset bs \<and> stands bytes (offset + length bs) cs"
proof -
  have "take (length bs + length cs) (drop offset bytes) =
      take (length bs) (drop offset bytes) @ take (length cs) (drop (offset + length bs) bytes)"
    by (simp add: take_add add.commute)
  moreover have "length (take (length bs) (drop offset bytes)) = length bs"
    if "take (length bs + length cs) (drop offset bytes) = bs @ cs"
    using arg_cong [OF that, of length] by simp
  ultimately show ?thesis unfolding stands_def by (metis append_eq_append_conv length_append)
qed

lemma stands_Cons: "stands bytes offset (b # bs) \<longleftrightarrow> stands bytes offset [b] \<and> stands bytes (offset + 1) bs"
  using stands_append [of bytes offset "[b]" bs] by simp

lemma stands_length: "stands bytes offset bs \<Longrightarrow> bs \<noteq> [] \<Longrightarrow> offset + length bs \<le> length bytes"
proof -
  assume "stands bytes offset bs" "bs \<noteq> []"
  then have "length (take (length bs) (drop offset bytes)) = length bs" "0 < length bs" by (auto simp: stands_def)
  then have "min (length bytes - offset) (length bs) = length bs" "0 < length bs" by simp_all
  then show ?thesis by linarith
qed

lemma stands_whole: "stands bs 0 bs"
  by (simp add: stands_def)

lemma readByte_stands: "stands bytes offset [b] \<Longrightarrow> readByte bytes offset = Inr (unat b, offset + 1)"
  using stands_length [of bytes offset "[b]"] by (auto simp: stands_def readByte_def take_Suc hd_drop_conv_nth)

lemma readBytes_stands: "stands bytes offset bs \<Longrightarrow> readBytes bytes (length bs) offset = Inr (bs, offset + length bs)"
  using stands_length [of bytes offset bs] by (cases "bs = []") (auto simp: stands_def readBytes_def)

lemma readUint32_stands:
  "stands bytes offset (uint32_bytes n) \<Longrightarrow> n < 2 ^ 32 \<Longrightarrow> readUint32 bytes offset = Inr (n, offset + 4)"
  using readBytes_stands [of bytes offset "uint32_bytes n"] by (simp add: readUint32_def)

text \<open>The initial byte gives back the major type and the additional information.\<close>

lemma or_prefix:
  assumes "(v::nat) < 32"
  shows "push_bit 5 m OR v = m * 32 + v"
proof -
  have "take_bit 5 v = v" using assms by (simp add: take_bit_nat_eq_self)
  then have "\<not> (bit (push_bit 5 m) n \<and> bit v n)" for n
    by (metis bit_push_bit_iff bit_take_bit_iff not_le)
  then have "push_bit 5 m AND v = 0" by (simp add: bit_eq_iff bit_simps)
  then show ?thesis by (simp add: push_bit_eq_mult flip: disjunctive_add_eq_or)
qed

lemma initial_byte:
  assumes "m < 8" "v < 32"
  shows "drop_bit 5 (unat (byte_of (push_bit 5 m OR v))) = m \<and> unat (byte_of (push_bit 5 m OR v)) AND 31 = v"
proof -
  have "m * 32 + v < 256" using assms by linarith
  then have "unat (byte_of (push_bit 5 m OR v)) = m * 32 + v" using or_prefix [OF assms(2), of m] by simp
  moreover have "(m * 32 + v) AND 31 = v"
    using assms(2) take_bit_eq_mask [of 5 "m * 32 + v"] by (simp add: take_bit_eq_mod mask_eq_exp_minus_1)
  ultimately show ?thesis using assms(2) by (simp add: drop_bit_eq_div)
qed

lemma uint16_value: "n \<le> 0xffff \<Longrightarrow> n div 256 mod 256 * 256 + n mod 256 = (n::nat)"
  using mod_mult2_eq [of n 256 256] by simp

lemma readArgument_stands:
  assumes "m < 8" "n < 2 ^ 53" "stands bytes offset (argument_bytes m n)"
  shows "\<exists>initial info. readByte bytes offset = Inr (initial, offset + 1) \<and> drop_bit 5 initial = m \<and>
    initial AND 31 = info \<and> info \<noteq> 31 \<and> readArgument bytes info (offset + 1) = Inr (n, offset + length (argument_bytes m n))"
proof -
  have init: "readByte bytes offset = Inr (unat (byte_of (push_bit 5 m OR v)), offset + 1) \<and>
      drop_bit 5 (unat (byte_of (push_bit 5 m OR v))) = m \<and> unat (byte_of (push_bit 5 m OR v)) AND 31 = v"
    if "stands bytes offset [byte_of (push_bit 5 m OR v)]" "v < 32" for v
    using readByte_stands [OF that(1)] initial_byte [OF assms(1) that(2)] by simp
  consider "n < 24" | "24 \<le> n" "n \<le> 0xff" | "0xff < n" "n \<le> 0xffff" | "0xffff < n" "n \<le> MAX_UINT32" | "MAX_UINT32 < n"
    by linarith
  then show ?thesis
  proof cases
    case 1
    then show ?thesis using assms(3) init [of n] by (auto simp: argument_bytes_def readArgument_def)
  next
    case 2
    then have at: "stands bytes offset [byte_of (push_bit 5 m OR 24)]" "stands bytes (offset + 1) [byte_of n]"
      using assms(3) by (auto simp: argument_bytes_def stands_Cons [of _ _ _ "[_]"])
    show ?thesis using init [OF at(1)] readByte_stands [OF at(2)] 2 by (auto simp: argument_bytes_def readArgument_def)
  next
    case 3
    then have at: "stands bytes offset [byte_of (push_bit 5 m OR 25)]" "stands bytes (offset + 1) [byte_of (ushr n 8), byte_of n]"
      using assms(3) by (auto simp: argument_bytes_def stands_Cons [of _ _ _ "[_, _]"])
    have "ushr n 8 = n div 256" using 3 by simp
    then show ?thesis using init [OF at(1)] readBytes_stands [OF at(2)] 3 uint16_value [of n]
      by (auto simp: argument_bytes_def readArgument_def numeral_2_eq_2)
  next
    case 4
    then have at: "stands bytes offset [byte_of (push_bit 5 m OR 26)]" "stands bytes (offset + 1) (uint32_bytes n)"
      using assms(3) by (auto simp: argument_bytes_def MAX_UINT32_def stands_Cons [of _ _ _ "uint32_bytes n"])
    show ?thesis using init [OF at(1)] readUint32_stands [OF at(2)] 4
      by (auto simp: argument_bytes_def readArgument_def MAX_UINT32_def)
  next
    case 5
    let ?h = "n div UINT32_BASE" and ?l = "n - n div UINT32_BASE * UINT32_BASE"
    have l: "?l = n mod UINT32_BASE" by (simp add: minus_div_mult_eq_mod)
    have small: "?h \<le> 0x1fffff" "?l < 2 ^ 32" "?h < 2 ^ 32" using assms(2) l by (auto simp: UINT32_BASE_def)
    have n: "?h * UINT32_BASE + ?l = n" using l by (simp add: div_mult_mod_eq)
    from 5 have at: "stands bytes offset [byte_of (push_bit 5 m OR 27)]" "stands bytes (offset + 1) (uint32_bytes ?h)"
      "stands bytes (5 + offset) (uint32_bytes ?l)"
      using assms(3) by (auto simp: argument_bytes_def MAX_UINT32_def stands_Cons [of _ _ _ "_ @ _"] stands_append add.commute)
    show ?thesis using init [OF at(1)] readUint32_stands [OF at(2)] readUint32_stands [OF at(3)] 5 n small
      by (auto simp: argument_bytes_def readArgument_def MAX_UINT32_def)
  qed
qed

text \<open>The limits of resolved options are those of 32-bit lengths.\<close>

lemma resolveLimit_le: "resolveLimit name v maximum = Inr n \<Longrightarrow> n \<le> maximum"
  by (auto simp: resolveLimit_def split: if_splits number.splits)

lemma resolveOptions_le:
  "resolveOptions options = Inr resolved \<Longrightarrow> maxByteLength resolved \<le> MAX_UINT32 \<and> maxContainerLength resolved \<le> MAX_UINT32 \<and> maxDepth resolved \<le> 512"
  by (auto simp: resolveOptions_def rbind_eq_Inr MAX_CONFIGURED_DEPTH_def dest: resolveLimit_le)

abbreviation limits_ok :: "resolved_options \<Rightarrow> bool" where
  "limits_ok options \<equiv> maxByteLength options \<le> MAX_UINT32 \<and> maxContainerLength options \<le> MAX_UINT32"

lemma readLength_argument:
  "readArgument bytes info offset = Inr (n, offset') \<Longrightarrow> info \<noteq> 31 \<Longrightarrow> n \<le> limit \<Longrightarrow>
   readLength bytes info kind limit offset = Inr (n, offset')"
  by (simp add: readLength_def)

lemma float64_roundtrip: "bits_of_float64 (float64_bytes b) = b"
proof -
  have "unat b < UINT32_BASE * UINT32_BASE" using unsigned_less [of b] by (simp add: UINT32_BASE_def)
  then have "unat b div UINT32_BASE < UINT32_BASE" by (simp add: less_mult_imp_div_less)
  then show ?thesis by (simp add: bits_of_float64_def float64_bytes_def UINT32_BASE_def div_mult_mod_eq)
qed

lemma number_of_bits_JDbl: "number_of_bits b = JDbl c \<Longrightarrow> c = b"
  by (auto simp: number_of_bits_def Let_def split: if_splits)

lemma define_property_last:
  "(\<And>k'. k' \<in> fst ` set kvs \<Longrightarrow> \<not> key_before k k') \<Longrightarrow> define_property k v kvs = kvs @ [(k, v)]"
  by (induction k v kvs rule: define_property.induct) auto

text \<open>Items one after the other are read by the array loop, and keys with their values by the map loop.\<close>

lemma times_items:
  assumes "\<And>x offset. x \<in> set xs \<Longrightarrow> stands bytes offset (g x) \<Longrightarrow> read offset = Inr (h x, offset + length (g x))"
    and "stands bytes offset (concat (map g xs))"
  shows "times (length xs) (\<lambda>(result, offset). rbind (read offset) (\<lambda>(v, offset). Inr (result @ [v], offset))) (acc, offset) =
    Inr (acc @ map h xs, offset + length (concat (map g xs)))"
  using assms
proof (induction xs arbitrary: acc offset)
  case (Cons x xs)
  then have at: "stands bytes offset (g x)" "stands bytes (offset + length (g x)) (concat (map g xs))" by (simp_all add: stands_append)
  have rd: "read offset = Inr (h x, offset + length (g x))" using Cons.prems(1) at(1) by (metis list.set_intros(1))
  note ih = Cons.IH [OF Cons.prems(1) [OF list.set_intros(2)] at(2), of "acc @ [h x]"]
  show ?case by (subst times.simps) (simp add: rd ih add.assoc)
qed (simp add: times.simps)

lemma times_entries:
  assumes "\<And>k v offset. (k, v) \<in> set es \<Longrightarrow> stands bytes offset (text_item k) \<Longrightarrow> read offset = Inr (JText k, offset + length (text_item k))"
    and "\<And>k v offset. (k, v) \<in> set es \<Longrightarrow> stands bytes offset (g v) \<Longrightarrow> read offset = Inr (h v, offset + length (g v))"
    and "stands bytes offset (concat (map (\<lambda>(k, v). text_item k @ g v) es))"
    and "distinct (map fst acc @ map fst es)" and "sorted_wrt (\<lambda>a b. \<not> key_before b a) (map fst acc @ map fst es)"
  shows "times (length es) (\<lambda>(result, offset). rbind (read offset) (\<lambda>(key, offset).
      case key of
        JText k \<Rightarrow> if k \<in> fst ` set result then Inl DuplicateKey
          else rbind (read offset) (\<lambda>(v, offset). Inr (define_property k v result, offset))
      | _ \<Rightarrow> Inl KeysMustBeStrings)) (acc, offset) =
    Inr (acc @ map (\<lambda>(k, v). (k, h v)) es, offset + length (concat (map (\<lambda>(k, v). text_item k @ g v) es)))"
  using assms
proof (induction es arbitrary: acc offset)
  case (Cons kv es)
  obtain k v where kv: "kv = (k, v)" by (cases kv)
  have at: "stands bytes offset (text_item k)" "stands bytes (offset + length (text_item k)) (g v)"
    "stands bytes (offset + length (text_item k) + length (g v)) (concat (map (\<lambda>(k, v). text_item k @ g v) es))"
    using Cons.prems(3) kv by (simp_all add: stands_append add.assoc)
  have "\<not> key_before k k'" if "k' \<in> fst ` set acc" for k'
    using Cons.prems(5) that kv by (auto simp: sorted_wrt_append)
  note last = define_property_last [of acc k, OF this]
  have rk: "read offset = Inr (JText k, offset + length (text_item k))" using Cons.prems(1) [of k v offset] kv at(1) by simp
  have rv: "read (offset + length (text_item k)) = Inr (h v, offset + length (text_item k) + length (g v))"
    using Cons.prems(2) [of k v "offset + length (text_item k)"] kv at(2) by simp
  have "k \<notin> fst ` set acc" using Cons.prems(4) kv by (auto simp: image_iff)
  moreover have order: "distinct (map fst (acc @ [(k, h v)]) @ map fst es)"
    "sorted_wrt (\<lambda>a b. \<not> key_before b a) (map fst (acc @ [(k, h v)]) @ map fst es)"
    using Cons.prems(4,5) kv by simp_all
  note ih = Cons.IH [OF Cons.prems(1) [OF list.set_intros(2)] Cons.prems(2) [OF list.set_intros(2)] at(3) order]
  ultimately show ?case by (subst times.simps) (simp add: kv rk rv last ih add.assoc)
qed (simp add: times.simps)

lemma readItem_text:
  assumes "limits_ok options" "text_ok options s" "depth \<le> maxDepth options" "stands bytes offset (text_item s)"
  shows "readItem options bytes depth offset = Inr (JText s, offset + length (text_item s))"
proof -
  have at: "stands bytes offset (argument_bytes 3 (length (text_encode s)))"
    "stands bytes (offset + length (argument_bytes 3 (length (text_encode s)))) (text_encode s)"
    using assms(4) by (simp_all add: text_item_def stands_append)
  have len: "length (text_encode s) \<le> maxByteLength options" "length (text_encode s) < 2 ^ 53"
    using assms(1,2) by (auto simp: text_ok_def MAX_UINT32_def)
  have "text_decode (text_encode s) = Some s" using assms(2) text_encode_exact by (simp add: text_ok_def)
  then show ?thesis
    using readArgument_stands [OF _ len(2) at(1)] readBytes_stands [OF at(2)] len(1) assms(3)
    by (subst readItem.simps) (auto simp: readLength_argument text_item_def add.assoc)
qed

lemma defined_entries:
  "concat (map (\<lambda>(k, v). if v = JUndef then [] else [(k, f v)]) kvs) = map (\<lambda>(k, v). (k, f v)) (object_entries kvs)"
  by (induction kvs) (auto simp: object_entries_def)

lemma sorted_wrt_map_filter: "sorted_wrt P (map f xs) \<Longrightarrow> sorted_wrt P (map f (filter Q xs))"
  by (induction xs) auto

lemma readItem_stands:
  assumes "limits_ok options"
  shows "encodable options depth v \<Longrightarrow> js_wf v \<Longrightarrow> stands bytes offset (cbor v) \<Longrightarrow>
    readItem options bytes depth offset = Inr (defined_part v, offset + length (cbor v))"
proof (induction v arbitrary: depth offset)
  case JNull
  then show ?case
    by (subst readItem.simps) (auto simp: encodable.simps readByte_stands readSimple_def drop_bit_eq_div)
next
  case (JBool b)
  then show ?case
    by (subst readItem.simps) (auto simp: encodable.simps readByte_stands readSimple_def drop_bit_eq_div)
next
  case (JDbl b)
  then have at: "stands bytes offset [0xfb]" "stands bytes (offset + 1) (float64_bytes b)"
    by (simp_all add: stands_Cons [of _ _ _ "float64_bytes b"])
  have "length (float64_bytes b) = 8" by (simp add: float64_bytes_def)
  with readBytes_stands [OF at(2)] readByte_stands [OF at(1)] JDbl.prems show ?case
    by (subst readItem.simps) (auto simp: encodable.simps readSimple_def float64_roundtrip drop_bit_eq_div)
next
  case (JInt i)
  then have i: "safe_integer i" "depth \<le> maxDepth options" by (auto simp: encodable.simps)
  show ?case
  proof (cases "0 \<le> i")
    case True
    have "nat i < 2 ^ 53" using i(1) True by (simp add: safe_integer_def nat_less_iff)
    from readArgument_stands [OF _ this, of 0 bytes offset] JInt.prems True i(2) show ?thesis
      by (subst readItem.simps) auto
  next
    case False
    have "nat (-1 - i) < 2 ^ 53" using i(1) False by (simp add: safe_integer_def nat_less_iff)
    from readArgument_stands [OF _ this, of 1 bytes offset] JInt.prems False i show ?thesis
      by (subst readItem.simps) auto
  qed
next
  case (JText s)
  then show ?case using readItem_text [OF assms] by (auto simp: encodable.simps)
next
  case (JBytes bs)
  then have at: "stands bytes offset (argument_bytes 2 (length bs))" "stands bytes (offset + length (argument_bytes 2 (length bs))) bs"
    and d: "depth \<le> maxDepth options" "length bs \<le> maxByteLength options"
    by (simp_all add: encodable.simps stands_append)
  then have "length bs < 2 ^ 53" using assms by (simp add: MAX_UINT32_def)
  from readArgument_stands [OF _ this at(1)] readBytes_stands [OF at(2)] d show ?case
    by (subst readItem.simps) (auto simp: readLength_argument add.assoc)
next
  case (JArr xs)
  then have at: "stands bytes offset (argument_bytes 4 (length xs))"
      "stands bytes (offset + length (argument_bytes 4 (length xs))) (concat (map cbor xs))"
    and d: "depth \<le> maxDepth options" "length xs \<le> maxContainerLength options"
    and xs: "\<And>x. x \<in> set xs \<Longrightarrow> encodable options (depth + 1) x" "\<And>x. x \<in> set xs \<Longrightarrow> js_wf x"
    by (simp_all add: encodable.simps [of options depth "JArr xs"] stands_append)
  have len: "length xs < 2 ^ 53" using assms d(2) by (simp add: MAX_UINT32_def)
  have "readItem options bytes (depth + 1) off = Inr (defined_part x, off + length (cbor x))"
    if "x \<in> set xs" "stands bytes off (cbor x)" for x off
    using JArr.IH [OF that(1) xs(1) [OF that(1)] xs(2) [OF that(1)] that(2)] .
  from times_items [OF this at(2)] have loop: "times (length xs) (\<lambda>(result, offset).
      rbind (readItem options bytes (depth + 1) offset) (\<lambda>(v, offset). Inr (result @ [v], offset)))
      ([], offset + length (argument_bytes 4 (length xs))) =
      Inr ([] @ map defined_part xs, offset + length (argument_bytes 4 (length xs)) + length (concat (map cbor xs)))" by blast
  from readArgument_stands [OF _ len at(1)] d loop show ?case
    by (subst readItem.simps) (auto simp: readLength_argument add.assoc)
next
  case (JObj kvs)
  let ?es = "object_entries kvs"
  from JObj.prems have at: "stands bytes offset (argument_bytes 5 (length ?es))"
      "stands bytes (offset + length (argument_bytes 5 (length ?es))) (concat (map (\<lambda>(k, v). text_item k @ cbor v) ?es))"
    and d: "depth \<le> maxDepth options" "length ?es \<le> maxContainerLength options"
    and kv: "\<And>k v. (k, v) \<in> set ?es \<Longrightarrow> (k, v) \<in> set kvs \<and> text_ok options k \<and> encodable options (depth + 1) v \<and> js_wf v"
    by (auto simp: encodable.simps [of options depth "JObj kvs"] stands_append cbor_entries, auto simp: object_entries_def)
  have len: "length ?es < 2 ^ 53" using assms d(2) by (simp add: MAX_UINT32_def)
  have deep: "depth + 1 \<le> maxDepth options" if "(k, v) \<in> set ?es" for k v
    using kv [OF that] by (simp add: encodable.simps)
  have rk: "readItem options bytes (depth + 1) off = Inr (JText k, off + length (text_item k))"
    if "(k, v) \<in> set ?es" "stands bytes off (text_item k)" for k v off
    using readItem_text [OF assms _ deep [OF that(1)] that(2)] kv [OF that(1)] by blast
  have rv: "readItem options bytes (depth + 1) off = Inr (defined_part v, off + length (cbor v))"
    if "(k, v) \<in> set ?es" "stands bytes off (cbor v)" for k v off
    using JObj.IH [of "(k, v)" v "depth + 1" off] kv [OF that(1)] that(2) by simp
  have "distinct (map fst [] @ map fst ?es)" "sorted_wrt (\<lambda>a b. \<not> key_before b a) (map fst [] @ map fst ?es)"
    using JObj.prems(2) by (auto simp: object_entries_def obj_wf_filter sorted_wrt_map_filter)
  note loop = times_entries [where g = cbor and h = defined_part, OF rk rv at(2) this]
  from readArgument_stands [OF _ len at(1)] d loop show ?case
    by (subst readItem.simps) (auto simp: readLength_argument add.assoc defined_entries cbor_entries)
qed (simp_all add: encodable.simps)

section \<open>What the reader accepts\<close>

lemma times_induct:
  assumes "times n f s = Inr t" "P 0 s" "\<And>i s t. P i s \<Longrightarrow> f s = Inr t \<Longrightarrow> P (Suc i) t"
  shows "P n t"
proof -
  have "P (i + n) t" if "times n f s = Inr t" "P i s" for i n s
    using that
  proof (induction n arbitrary: i s)
    case 0
    then show ?case by (simp add: times.simps)
  next
    case (Suc n)
    then obtain s' where "f s = Inr s'" "times n f s' = Inr t" by (auto simp: times.simps [of "Suc n"] rbind_eq_Inr)
    then show ?case using Suc.IH [of s' "Suc i"] assms(3) [OF Suc.prems(2)] by simp
  qed
  from this [OF assms(1,2)] show ?thesis by simp
qed

lemma readByte_Inr: "readByte bytes offset = Inr (n, offset') \<Longrightarrow> offset' = offset + 1 \<and> offset < length bytes \<and> n < 256"
  by (auto simp: readByte_def split: if_splits)

lemma readBytes_Inr:
  "readBytes bytes n offset = Inr (bs, offset') \<Longrightarrow> offset' = offset + n \<and> length bs = n \<and> (0 < n \<longrightarrow> offset' \<le> length bytes)"
  by (auto simp: readBytes_def split: if_splits)

lemma readUint32_Inr: "readUint32 bytes offset = Inr (n, offset') \<Longrightarrow> offset' = offset + 4 \<and> offset' \<le> length bytes \<and> n < 2 ^ 32"
  by (auto simp: readUint32_def rbind_eq_Inr uint32_of_less dest!: readBytes_Inr simp del: power_numeral)

lemma argument_length:
  "length (argument_bytes m n) = (if n < 24 then 1 else if n \<le> 0xff then 2 else if n \<le> 0xffff then 3 else if n \<le> MAX_UINT32 then 5 else 9)"
  by (simp add: argument_bytes_def Let_def)

text \<open>The encoder's argument is never longer than the one the reader took.\<close>

lemma readArgument_Inr:
  assumes "readArgument bytes info offset = Inr (n, offset')" "offset \<le> length bytes"
  shows "offset + length (argument_bytes m n) \<le> offset' + 1 \<and> offset' \<le> length bytes \<and> n < 2 ^ 53"
proof -
  consider "info < 24" | "info = 24" | "info = 25" | "info = 26" | "info = 27" | "27 < info" by linarith
  then show ?thesis
  proof cases
    case 2
    then show ?thesis using assms by (auto simp: readArgument_def argument_length dest!: readByte_Inr)
  next
    case 3
    then obtain bs where "readBytes bytes 2 offset = Inr (bs, offset')" "n = unat (bs ! 0) * 0x100 + unat (bs ! 1)"
      using assms by (auto simp: readArgument_def rbind_eq_Inr)
    moreover have "unat (bs ! 0) * 0x100 + unat (bs ! 1) < 65536"
      using unat_byte_less [of "bs ! 0"] unat_byte_less [of "bs ! 1"] by linarith
    ultimately show ?thesis by (auto simp: argument_length dest!: readBytes_Inr)
  next
    case 4
    then show ?thesis using assms by (auto simp: readArgument_def argument_length MAX_UINT32_def dest!: readUint32_Inr)
  next
    case 5
    then obtain high low o' where "readUint32 bytes offset = Inr (high, o')" "readUint32 bytes o' = Inr (low, offset')"
      "high \<le> 0x1fffff" "n = high * UINT32_BASE + low"
      using assms by (auto simp: readArgument_def rbind_eq_Inr split: if_splits)
    then show ?thesis by (auto simp: argument_length UINT32_BASE_def dest!: readUint32_Inr)
  qed (use assms in \<open>auto simp: readArgument_def argument_length split: if_splits\<close>)
qed

lemma readLength_Inr:
  "readLength bytes info kind limit offset = Inr (n, offset') \<Longrightarrow> readArgument bytes info offset = Inr (n, offset') \<and> n \<le> limit"
  by (auto simp: readLength_def rbind_eq_Inr split: if_splits)

lemma key_before_asym: "key_before a b \<Longrightarrow> \<not> key_before b a"
  by (auto simp: key_before_def split: option.splits)

lemma key_before_trans: "key_before a b \<Longrightarrow> \<not> key_before c b \<Longrightarrow> \<not> key_before c a"
  by (auto simp: key_before_def split: option.splits)

lemma set_define_property: "set (define_property k v kvs) = insert (k, v) (set kvs)"
  by (induction k v kvs rule: define_property.induct) auto

lemma length_define_property [simp]: "length (define_property k v kvs) = Suc (length kvs)"
  by (induction k v kvs rule: define_property.induct) auto

lemma define_property_wf:
  "obj_wf kvs \<Longrightarrow> sorted_wrt (\<lambda>a b. \<not> key_before b a) (map fst kvs) \<Longrightarrow> k \<notin> fst ` set kvs \<Longrightarrow>
   obj_wf (define_property k v kvs) \<and> sorted_wrt (\<lambda>a b. \<not> key_before b a) (map fst (define_property k v kvs))"
proof (induction k v kvs rule: define_property.induct)
  case (2 k v k' v' kvs)
  have "fst ` set (define_property k v kvs) = insert k (fst ` set kvs)" by (simp add: set_define_property)
  then show ?case using 2 by (auto dest: key_before_asym key_before_trans simp: set_define_property)
qed simp

lemma size_define_property:
  "sum_list (map f (define_property k v kvs)) = f (k, v) + (sum_list (map f kvs) :: nat)"
  by (induction k v kvs rule: define_property.induct) auto

lemma no_undef_entries: "(\<And>k v. (k, v) \<in> set kvs \<Longrightarrow> v \<noteq> JUndef) \<Longrightarrow> object_entries kvs = kvs"
  by (auto simp: object_entries_def filter_id_conv)

definition accepted :: "resolved_options \<Rightarrow> nat \<Rightarrow> js \<Rightarrow> bool" where
  "accepted options depth v = (encodable options depth v \<and> js_wf v \<and> defined_part v = v)"

lemma accepted_defined: "accepted options depth v \<Longrightarrow> v \<noteq> JUndef"
  by (auto simp: accepted_def encodable.simps)

lemma accepted_JArr:
  "depth \<le> maxDepth options \<Longrightarrow> length xs \<le> maxContainerLength options \<Longrightarrow> (\<And>x. x \<in> set xs \<Longrightarrow> accepted options (depth + 1) x) \<Longrightarrow>
   accepted options depth (JArr xs)"
  using accepted_defined
  by (auto simp: accepted_def encodable.simps [of _ _ "JArr xs"] intro!: map_idI)

lemma accepted_JObj:
  assumes "depth \<le> maxDepth options" "length kvs \<le> maxContainerLength options"
    and kv: "\<And>k v. (k, v) \<in> set kvs \<Longrightarrow> accepted options (depth + 1) (JText k) \<and> accepted options (depth + 1) v"
    and "obj_wf kvs" "sorted_wrt (\<lambda>a b. \<not> key_before b a) (map fst kvs)"
  shows "accepted options depth (JObj kvs)"
proof -
  have es: "object_entries kvs = kvs" using kv accepted_defined by (intro no_undef_entries) blast
  have "map (\<lambda>(k, v). (k, defined_part v)) kvs = kvs" using kv by (intro map_idI) (auto simp: accepted_def)
  then show ?thesis using assms
    by (auto simp: accepted_def encodable.simps [of _ _ "JObj kvs"] es defined_entries)
      (auto simp: encodable.simps)
qed

definition entry_length :: "jstext \<times> js \<Rightarrow> nat" where
  "entry_length = (\<lambda>(k, v). length (text_item k) + length (cbor v))"

lemma length_cbor_JObj:
  "object_entries kvs = kvs \<Longrightarrow> length (cbor (JObj kvs)) = length (argument_bytes 5 (length kvs)) + sum_list (map entry_length kvs)"
  by (simp only: cbor.simps cbor_entries) (simp add: length_concat entry_length_def comp_def case_prod_unfold)

abbreviation reads :: "resolved_options \<Rightarrow> byte list \<Rightarrow> nat \<Rightarrow> (nat \<Rightarrow> (cbor_error, js \<times> nat) result) \<Rightarrow> bool" where
  "reads options bytes depth rd \<equiv> (\<forall>offset v offset'. rd offset = Inr (v, offset') \<longrightarrow>
     accepted options depth v \<and> offset + length (cbor v) \<le> offset' \<and> offset' \<le> length bytes)"

lemma times_items_Inr:
  assumes "reads options bytes depth rd" and "offset \<le> length bytes"
    and "times n (\<lambda>(result, offset). rbind (rd offset) (\<lambda>(v, offset). Inr (result @ [v], offset))) ([], offset) = Inr (xs, offset')"
  shows "length xs = n \<and> (\<forall>x \<in> set xs. accepted options depth x) \<and> offset + length (concat (map cbor xs)) \<le> offset' \<and> offset' \<le> length bytes"
proof -
  define P where "P = (\<lambda>i (xs, o'). length xs = i \<and> (\<forall>x \<in> set xs. accepted options depth x) \<and>
    offset + length (concat (map cbor xs)) \<le> o' \<and> o' \<le> length bytes)"
  have "P n (xs, offset')"
  proof (rule times_induct [OF assms(3)])
    show "P 0 ([], offset)" using assms(2) by (simp add: P_def)
  next
    fix i s t assume "P i s" "(\<lambda>(result, offset). rbind (rd offset) (\<lambda>(v, offset). Inr (result @ [v], offset))) s = Inr t"
    then show "P (Suc i) t" using assms(1) by (fastforce simp: P_def rbind_eq_Inr split: prod.splits)
  qed
  then show ?thesis by (simp add: P_def)
qed

lemma times_entries_Inr:
  assumes rd: "reads options bytes depth rd" and "offset \<le> length bytes"
    and "times n (\<lambda>(result, offset). rbind (rd offset) (\<lambda>(key, offset).
      case key of
        JText k \<Rightarrow> if k \<in> fst ` set result then Inl DuplicateKey
          else rbind (rd offset) (\<lambda>(v, offset). Inr (define_property k v result, offset))
      | _ \<Rightarrow> Inl KeysMustBeStrings)) ([], offset) = Inr (kvs, offset')"
  shows "length kvs = n \<and> obj_wf kvs \<and> sorted_wrt (\<lambda>a b. \<not> key_before b a) (map fst kvs) \<and>
    (\<forall>(k, v) \<in> set kvs. accepted options depth (JText k) \<and> accepted options depth v) \<and>
    offset + sum_list (map entry_length kvs) \<le> offset' \<and> offset' \<le> length bytes"
proof -
  define P where "P = (\<lambda>i (kvs, o'). length kvs = i \<and> obj_wf kvs \<and> sorted_wrt (\<lambda>a b. \<not> key_before b a) (map fst kvs) \<and>
    (\<forall>(k, v) \<in> set kvs. accepted options depth (JText k) \<and> accepted options depth v) \<and>
    offset + sum_list (map entry_length kvs) \<le> o' \<and> o' \<le> length bytes)"
  have "P n (kvs, offset')"
  proof (rule times_induct [OF assms(3)])
    show "P 0 ([], offset)" using assms(2) by (simp add: P_def)
  next
    fix i s t
    assume p: "P i s" and "(\<lambda>(result, offset). rbind (rd offset) (\<lambda>(key, offset).
      case key of
        JText k \<Rightarrow> if k \<in> fst ` set result then Inl DuplicateKey
          else rbind (rd offset) (\<lambda>(v, offset). Inr (define_property k v result, offset))
      | _ \<Rightarrow> Inl KeysMustBeStrings)) s = Inr t"
    then obtain kvs o0 key o1 where s0: "s = (kvs, o0)" "rd o0 = Inr (key, o1)"
      and c: "(case key of
        JText k \<Rightarrow> if k \<in> fst ` set kvs then Inl DuplicateKey
          else rbind (rd o1) (\<lambda>(v, offset). Inr (define_property k v kvs, offset))
      | _ \<Rightarrow> Inl KeysMustBeStrings) = Inr t"
      by (cases s) (auto simp: rbind_eq_Inr)
    from c obtain k v o2 where s: "s = (kvs, o0)" "rd o0 = Inr (JText k, o1)" "k \<notin> fst ` set kvs"
      "rd o1 = Inr (v, o2)" "t = (define_property k v kvs, o2)"
      using s0 by (cases key) (auto simp: rbind_eq_Inr split: if_splits)
    have "o0 + length (text_item k) \<le> o1" "accepted options depth (JText k)" using rd s(2) by fastforce+
    moreover have "o1 + length (cbor v) \<le> o2" "accepted options depth v" "o2 \<le> length bytes" using rd s(4) by blast+
    ultimately show "P (Suc i) t" using p s define_property_wf [of kvs k v]
      by (auto simp: P_def set_define_property size_define_property entry_length_def)
  qed
  then show ?thesis by (simp add: P_def)
qed

lemma readItem_initial:
  assumes "readItem options bytes depth offset = Inr r"
  obtains initial where "readByte bytes offset = Inr (initial, offset + 1)" "depth \<le> maxDepth options" "drop_bit 5 initial < 8"
proof (cases "readByte bytes offset")
  case (Inl e)
  then show ?thesis using assms by (subst (asm) readItem.simps) (auto split: if_splits)
next
  case (Inr a)
  then obtain initial where a: "a = (initial, offset + 1)" "initial < 256" by (cases a) (auto dest: readByte_Inr)
  show ?thesis
  proof (rule that [of initial])
    show "depth \<le> maxDepth options" using assms by (subst (asm) readItem.simps) (auto split: if_splits)
    show "drop_bit 5 initial < 8" using a(2) by (simp add: drop_bit_eq_div)
  qed (use Inr a in simp)
qed

lemma accepted_leaf: "depth \<le> maxDepth options \<Longrightarrow> encodable options 0 v \<Longrightarrow> js_wf v \<Longrightarrow> defined_part v = v \<Longrightarrow>
   (\<And>xs. v \<noteq> JArr xs) \<Longrightarrow> (\<And>kvs. v \<noteq> JObj kvs) \<Longrightarrow> accepted options depth v"
  by (auto simp: accepted_def encodable.simps split: js.splits)

lemma readSimple_Inr:
  assumes "readSimple bytes info offset = Inr (v, offset')" "offset \<le> length bytes" "depth \<le> maxDepth options"
  shows "accepted options depth v \<and> offset + length (cbor v) \<le> offset' + 1 \<and> offset' \<le> length bytes"
proof (cases "info = 27")
  case True
  then obtain bs where bs: "readBytes bytes 8 offset = Inr (bs, offset')" "dbl_finite (bits_of_float64 bs)"
    and v: "v = number_of_bits (bits_of_float64 bs)" "\<And>i. v = JInt i \<Longrightarrow> safe_integer i"
    using assms(1) by (auto simp: readSimple_def rbind_eq_Inr Let_def split: if_splits js.splits)
  have "(\<exists>i. v = JInt i) \<or> v = JDbl (bits_of_float64 bs)" unfolding v by (simp add: number_of_bits_def Let_def)
  then show ?thesis
  proof
    assume "\<exists>i. v = JInt i"
    then obtain i where "v = JInt i" by blast
    then show ?thesis using v(2) readBytes_Inr [OF bs(1)] assms(3)
      by (auto simp: accepted_def encodable.simps argument_length)
  next
    assume "v = JDbl (bits_of_float64 bs)"
    then show ?thesis using v(1) bs(2) readBytes_Inr [OF bs(1)] assms(3)
      by (auto simp: accepted_def encodable.simps float64_bytes_def)
  qed
next
  case False
  then show ?thesis using assms by (auto simp: readSimple_def accepted_def encodable.simps split: if_splits)
qed

text \<open>Whatever bytes it is given, the reader answers only values the encoder takes, in no more bytes than it read.\<close>

lemma readItem_accepts:
  "readItem options bytes depth offset = Inr (v, offset') \<Longrightarrow>
   accepted options depth v \<and> offset + length (cbor v) \<le> offset' \<and> offset' \<le> length bytes"
proof (induction "Suc (maxDepth options) - depth" arbitrary: depth offset v offset' rule: less_induct)
  case less
  obtain initial where rb: "readByte bytes offset = Inr (initial, offset + 1)" and d: "depth \<le> maxDepth options"
    and major: "drop_bit 5 initial < 8" using readItem_initial [OF less.prems] .
  have o1: "offset + 1 \<le> length bytes" using readByte_Inr [OF rb] by simp
  have deeper: "reads options bytes (depth + 1) (readItem options bytes (depth + 1))"
    using less.hyps [of "depth + 1"] d by (auto simp: Suc_diff_le)
  let ?info = "initial AND 31"
  note body = less.prems [unfolded readItem.simps [of options bytes depth offset] rb, simplified]
  note arg = readArgument_Inr [OF _ o1]
  consider "drop_bit 5 initial = 0" | "drop_bit 5 initial = 1" | "drop_bit 5 initial = 2" | "drop_bit 5 initial = 3"
    | "drop_bit 5 initial = 4" | "drop_bit 5 initial = 5" | "drop_bit 5 initial = 6" | "drop_bit 5 initial = 7"
    using major by linarith
  then show ?case
  proof cases
    case 1
    then obtain n where n: "readArgument bytes ?info (offset + 1) = Inr (n, offset')" "v = JInt (int n)"
      using body d by (auto simp: rbind_eq_Inr)
    show ?thesis using arg [OF n(1), of 0] n(2) d by (auto simp: accepted_def encodable.simps safe_integer_def)
  next
    case 2
    then obtain n where n: "readArgument bytes ?info (offset + 1) = Inr (n, offset')" "v = JInt (-1 - int n)" "safe_integer (-1 - int n)"
      using body d by (auto simp: rbind_eq_Inr Let_def split: if_splits)
    show ?thesis using arg [OF n(1), of 1] n(2,3) d by (auto simp: accepted_def encodable.simps)
  next
    case 3
    then obtain n o' where n: "readLength bytes ?info ''byte string'' (maxByteLength options) (offset + 1) = Inr (n, o')"
      and bs: "\<exists>bs. readBytes bytes n o' = Inr (bs, offset') \<and> v = JBytes bs"
      using body d by (auto simp: rbind_eq_Inr)
    show ?thesis using arg [OF conjunct1 [OF readLength_Inr [OF n]], of 2] readLength_Inr [OF n] bs d
      by (auto simp: accepted_def encodable.simps dest!: readBytes_Inr)
  next
    case 4
    then obtain n o' where n: "readLength bytes ?info ''text string'' (maxByteLength options) (offset + 1) = Inr (n, o')"
      and "\<exists>bs s. readBytes bytes n o' = Inr (bs, offset') \<and> text_decode bs = Some s \<and> v = JText s"
      using body d by (auto simp: rbind_eq_Inr split: option.splits)
    then obtain bs s where bs: "readBytes bytes n o' = Inr (bs, offset')" "text_decode bs = Some s" "v = JText s" by blast
    show ?thesis using arg [OF conjunct1 [OF readLength_Inr [OF n]], of 3] readLength_Inr [OF n] readBytes_Inr [OF bs(1)]
        text_decode_exact [OF bs(2)] bs(3) d
      by (auto simp: accepted_def encodable.simps text_ok_def text_item_def)
  next
    case 5
    then obtain n o' xs where n: "readLength bytes ?info ''array'' (maxContainerLength options) (offset + 1) = Inr (n, o')"
      and xs: "times n (\<lambda>(result, offset). rbind (readItem options bytes (depth + 1) offset) (\<lambda>(v, offset). Inr (result @ [v], offset))) ([], o') =
        Inr (xs, offset')" "v = JArr xs"
      using body d by (auto simp: rbind_eq_Inr)
    note a = arg [OF conjunct1 [OF readLength_Inr [OF n]], of 4]
    note items = times_items_Inr [OF deeper _ xs(1)]
    show ?thesis using a readLength_Inr [OF n] items xs(2) d accepted_JArr [of depth options xs] by auto
  next
    case 6
    then obtain n o' kvs where n: "readLength bytes ?info ''map'' (maxContainerLength options) (offset + 1) = Inr (n, o')"
      and kvs: "times n (\<lambda>(result, offset). rbind (readItem options bytes (depth + 1) offset) (\<lambda>(key, offset).
        case key of
          JText k \<Rightarrow> if k \<in> fst ` set result then Inl DuplicateKey
            else rbind (readItem options bytes (depth + 1) offset) (\<lambda>(v, offset). Inr (define_property k v result, offset))
        | _ \<Rightarrow> Inl KeysMustBeStrings)) ([], o') = Inr (kvs, offset')" "v = JObj kvs"
      using body d by (auto simp: rbind_eq_Inr)
    note a = arg [OF conjunct1 [OF readLength_Inr [OF n]], of 5]
    have items: "length kvs = n" "obj_wf kvs" "sorted_wrt (\<lambda>a b. \<not> key_before b a) (map fst kvs)"
      "\<And>k v. (k, v) \<in> set kvs \<Longrightarrow> accepted options (depth + 1) (JText k) \<and> accepted options (depth + 1) v"
      "o' + sum_list (map entry_length kvs) \<le> offset'" "offset' \<le> length bytes"
      using times_entries_Inr [OF deeper _ kvs(1)] a by auto
    have "object_entries kvs = kvs" using items(4) accepted_defined by (intro no_undef_entries) blast
    with length_cbor_JObj [OF this] accepted_JObj [of depth options kvs] items a readLength_Inr [OF n] d kvs(2)
    show ?thesis by auto
  next
    case 7
    then show ?thesis using body d by simp
  next
    case 8
    then show ?thesis using body d readSimple_Inr [OF _ o1 d, of ?info v offset'] by (simp split: if_splits)
  qed
qed

lemma decode_encode:
  assumes "js_wf v" and "encodeCbor options v = Inr bs"
  shows "decodeCbor options bs = Inr (defined_part v)"
proof -
  obtain resolved where r: "resolveOptions options = Inr resolved"
    using assms(2) by (auto simp: encodeCbor_def rbind_eq_Inr)
  with assms(2) have e: "encodable resolved 0 v" "length (cbor v) \<le> maxByteLength resolved" "bs = cbor v"
    by (simp_all add: encodeCbor_iff)
  have "limits_ok resolved" using resolveOptions_le [OF r] by simp
  from readItem_stands [OF this e(1) assms(1) stands_whole] r e(2,3) show ?thesis
    by (simp add: decodeCbor_def cbor_decode_def)
qed

section \<open>Properties of the codec\<close>

definition sample_options :: cbor_options where
  "sample_options = \<lparr>opt_maxByteLength = Some (Fin 100), opt_maxContainerLength = None, opt_maxDepth = Some (Fin 2)\<rparr>"

abbreviation sample_resolved :: resolved_options where
  "sample_resolved \<equiv> \<lparr>maxByteLength = 100, maxContainerLength = 1000000, maxDepth = 2\<rparr>"

definition sample_value :: js where
  "sample_value = JObj [(ascii ''7'', JArr [JInt (-1), JNull]), (ascii ''k'', JUndef), (ascii ''a'', JDbl 0x3FF8000000000000)]"

lemma sample_resolve: "resolveOptions sample_options = Inr sample_resolved"
  by (simp add: resolveOptions_def resolveLimit_def given_def sample_options_def max_safe_integer_def
      MAX_UINT32_def MAX_CONFIGURED_DEPTH_def DEFAULT_MAX_CBOR_CONTAINER_LENGTH_def)

lemma sample_value_ok: "js_wf sample_value" "encodable sample_resolved 0 sample_value" "length (cbor sample_value) \<le> 100"
  by (simp_all add: sample_value_def ascii_def key_before_def array_index_def decimal_def number_of_bits_def dbl_exponent_def
      dbl_negative_def encodable.simps object_entries_def text_ok_def safe_integer_def dbl_finite_def text_item_def
      text_encode_def utf8_def lone_def argument_length float64_bytes_def unat_of_nat Let_def)

text \<open>The encoder with its growing buffer equals the reference encoding: a value is encoded exactly
  when it is within the depth, container and string limits, has only safe integers, finite numbers and
  well-formed text, and its reference encoding fits the byte limit; the bytes are then the reference encoding.\<close>

theorem cbor_encoder_equals_reference:
  assumes "resolveOptions options = Inr resolved"
  shows "encodeCbor options v = Inr bs \<longleftrightarrow>
    encodable resolved 0 v \<and> length (cbor v) \<le> maxByteLength resolved \<and> bs = cbor v"
  by (rule encodeCbor_iff [OF assms])

theorem cbor_encoder_equals_reference_witness:
  "encodeCbor sample_options (JArr [JInt 500]) = Inr (cbor (JArr [JInt 500]))"
  using cbor_encoder_equals_reference [OF sample_resolve, of "JArr [JInt 500]" "cbor (JArr [JInt 500])"]
  by (simp add: encodable.simps safe_integer_def argument_length)

text \<open>C11. Round trip: what the encoder wrote is decoded, under the same limits, to the value it was given, less
  the object properties that were undefined; key order, minus zero and non-integral doubles are kept.\<close>

theorem cbor_roundtrip:
  assumes "js_wf v" and "encodeCbor options v = Inr bs"
  shows "decodeCbor options bs = Inr (defined_part v)"
  by (rule decode_encode [OF assms])

theorem cbor_roundtrip_witness:
  "\<exists>bs. encodeCbor sample_options sample_value = Inr bs \<and>
     decodeCbor sample_options bs = Inr (JObj [(ascii ''7'', JArr [JInt (-1), JNull]), (ascii ''a'', JDbl 0x3FF8000000000000)])"
proof -
  have "encodeCbor sample_options sample_value = Inr (cbor sample_value)"
    using sample_value_ok by (simp add: encodeCbor_iff [OF sample_resolve])
  from cbor_roundtrip [OF sample_value_ok(1) this] this show ?thesis by (auto simp: sample_value_def)
qed

text \<open>C33. The decoder is strict: whatever bytes arrive, a value it answers is one the encoder takes under the
  same limits (so its depth, its containers and its strings are within them and its numbers are safe or finite),
  its encoding is no longer than the bytes received, and decoding that encoding answers the same value.\<close>

theorem cbor_decoder_strict:
  assumes "decodeCbor options bytes = Inr v"
  shows "js_wf v \<and> (\<exists>bs. encodeCbor options v = Inr bs \<and> length bs \<le> length bytes \<and> decodeCbor options bs = Inr v)"
proof -
  obtain resolved where r: "resolveOptions options = Inr resolved"
    using assms by (auto simp: decodeCbor_def rbind_eq_Inr)
  with assms have len: "length bytes \<le> maxByteLength resolved" and "readItem resolved bytes 0 0 = Inr (v, length bytes)"
    by (auto simp: decodeCbor_def cbor_decode_def rbind_eq_Inr split: if_splits)
  from readItem_accepts [OF this(2)] have a: "encodable resolved 0 v" "js_wf v" "defined_part v = v" "length (cbor v) \<le> length bytes"
    by (auto simp: accepted_def)
  then have "encodeCbor options v = Inr (cbor v)" using len by (simp add: encodeCbor_iff [OF r])
  moreover from decode_encode [OF a(2) this] have "decodeCbor options (cbor v) = Inr v" using a(3) by simp
  ultimately show ?thesis using a by blast
qed

theorem cbor_decoder_strict_witness:
  "\<exists>bs. encodeCbor sample_options (JInt 1) = Inr bs \<and> length bs \<le> length [0x19, 0, 1 :: byte]"
proof -
  have "decodeCbor sample_options [0x19, 0, 1] = Inr (JInt 1)"
    unfolding decodeCbor_def sample_resolve cbor_decode_def
    by (subst readItem.simps) (simp add: readByte_def readArgument_def readBytes_def drop_bit_eq_div)
  from cbor_decoder_strict [OF this] show ?thesis by blast
qed

end
