(* ===== verification/Framing.thy ===== *)
theory Framing
  imports Bytes_Text "HOL-Library.While_Combinator"
begin

text \<open>
  packages/protocol/src/framing.ts: length-prefixed frames. \<open>encodeFrame\<close> prefixes a payload with its
  length; \<open>FrameDecoder\<close> splits arbitrary chunks into payloads, filling blocks of at most 64 KiB so that
  the length a peer claims is not allocated before its bytes arrive. The specification is \<open>split_frames\<close>
  on the whole byte stream.
\<close>

definition FRAME_HEADER_LENGTH :: nat where "FRAME_HEADER_LENGTH = 4"
definition FRAME_MAX_UINT32 :: nat where "FRAME_MAX_UINT32 = 0xffffffff"
definition PAYLOAD_BLOCK_SIZE :: nat where "PAYLOAD_BLOCK_SIZE = 64 * 1024"
definition DEFAULT_MAX_FRAME_LENGTH :: nat where "DEFAULT_MAX_FRAME_LENGTH = 16 * 1024 * 1024"

datatype frame_error =
    FrameRange string
  | DecoderEnded
  | DecoderFailed
  | FrameTooLong nat nat
  | TruncatedFrame

definition resolveMaxFrameLength :: "number option \<Rightarrow> (frame_error, nat) result" where
  "resolveMaxFrameLength maxFrameLength =
     (case (case maxFrameLength of Some v \<Rightarrow> v | None \<Rightarrow> num_of_nat DEFAULT_MAX_FRAME_LENGTH) of
        Fin r \<Rightarrow>
          if \<not> is_safe_integer (Fin r) \<or> r < 0 \<or> of_nat FRAME_MAX_UINT32 < r then Inl (FrameRange ''maxFrameLength'')
          else Inr (nat \<lfloor>r\<rfloor>)
      | _ \<Rightarrow> Inl (FrameRange ''maxFrameLength''))"

definition encodeFrame :: "byte list \<Rightarrow> (frame_error, byte list) result" where
  "encodeFrame payload =
     (if FRAME_MAX_UINT32 < length payload then Inl (FrameRange ''payload'')
      else Inr (uint32_bytes (length payload) @ payload))"

section \<open>FrameDecoder\<close>

datatype decoder_state = Open | Ended | Failed

text \<open>
  \<open>fd_current\<close> says whether \<open>currentPayloadBlock\<close> is set; it is then the last of \<open>payloadBlocks\<close>, the
  same array, so a store into it is a store into that last block.
\<close>

record frame_decoder =
  fd_header :: "byte list"
  fd_headerLength :: nat
  fd_maxFrameLength :: nat
  fd_blocks :: "byte list list"
  fd_current :: bool
  fd_currentLength :: nat
  fd_expected :: "nat option"
  fd_payloadLength :: nat
  fd_state :: decoder_state

definition new_decoder :: "nat \<Rightarrow> frame_decoder" where
  "new_decoder maxf = \<lparr>fd_header = replicate FRAME_HEADER_LENGTH 0, fd_headerLength = 0, fd_maxFrameLength = maxf,
     fd_blocks = [], fd_current = False, fd_currentLength = 0, fd_expected = None, fd_payloadLength = 0, fd_state = Open\<rparr>"

text \<open>\<open>target.set(source, at)\<close> on a typed array.\<close>

definition array_set :: "byte list \<Rightarrow> nat \<Rightarrow> byte list \<Rightarrow> byte list" where
  "array_set target pos source = take pos target @ source @ drop (pos + length source) target"

definition fail_decoder :: "frame_decoder \<Rightarrow> frame_decoder" where
  "fail_decoder d = d\<lparr>fd_state := Failed, fd_headerLength := 0, fd_blocks := [], fd_current := False, fd_currentLength := 0,
     fd_expected := None, fd_payloadLength := 0\<rparr>"

text \<open>One round of the payload loop: take a fresh block when there is none or the current one is full, and fill it.\<close>

definition fresh_block :: "nat \<Rightarrow> frame_decoder \<Rightarrow> frame_decoder" where
  "fresh_block expected d =
     (if \<not> fd_current d \<or> fd_currentLength d = length (last (fd_blocks d))
      then d\<lparr>fd_blocks := fd_blocks d @ [replicate (min PAYLOAD_BLOCK_SIZE (expected - fd_payloadLength d)) 0],
             fd_current := True, fd_currentLength := 0\<rparr>
      else d)"

definition fill_block :: "nat \<Rightarrow> frame_decoder \<times> byte list \<Rightarrow> frame_decoder \<times> byte list" where
  "fill_block expected = (\<lambda>(d, rest).
     let d = fresh_block expected d; block = last (fd_blocks d);
         payloadBytes = min (length block - fd_currentLength d) (length rest)
     in (d\<lparr>fd_blocks := butlast (fd_blocks d) @ [array_set block (fd_currentLength d) (take payloadBytes rest)],
           fd_currentLength := fd_currentLength d + payloadBytes,
           fd_payloadLength := fd_payloadLength d + payloadBytes\<rparr>, drop payloadBytes rest))"

definition fill_payload :: "nat \<Rightarrow> frame_decoder \<Rightarrow> byte list \<Rightarrow> (frame_decoder \<times> byte list) option" where
  "fill_payload expected d rest =
     while_option (\<lambda>(d, rest). rest \<noteq> [] \<and> fd_payloadLength d < expected) (fill_block expected) (d, rest)"

definition begin_payload :: "nat \<Rightarrow> frame_decoder \<Rightarrow> frame_decoder" where
  "begin_payload frameLength d = d\<lparr>fd_expected := Some frameLength, fd_blocks := [], fd_current := False,
     fd_currentLength := 0, fd_payloadLength := 0\<rparr>"

definition end_payload :: "frame_decoder \<Rightarrow> frame_decoder" where
  "end_payload d = d\<lparr>fd_blocks := [], fd_current := False, fd_currentLength := 0, fd_expected := None, fd_payloadLength := 0\<rparr>"

definition take_header :: "byte list \<Rightarrow> frame_decoder \<Rightarrow> frame_decoder \<times> byte list" where
  "take_header rest d =
     (let headerBytes = min (FRAME_HEADER_LENGTH - fd_headerLength d) (length rest)
      in (d\<lparr>fd_header := array_set (fd_header d) (fd_headerLength d) (take headerBytes rest),
            fd_headerLength := fd_headerLength d + headerBytes\<rparr>, drop headerBytes rest))"

type_synonym push_result = "(frame_error, byte list list) result \<times> frame_decoder"

text \<open>The rest of the chunk is what lies behind \<open>chunkOffset\<close>; frames of a push that throws are not returned.\<close>

partial_function (option) push_loop :: "frame_decoder \<Rightarrow> byte list \<Rightarrow> byte list list \<Rightarrow> push_result option" where
  "push_loop d rest frames =
     (if rest = [] then Some (Inr frames, d)
      else case fd_expected d of
        Some expected \<Rightarrow>
          Option.bind (fill_payload expected d rest) (\<lambda>(d, rest).
            if fd_payloadLength d = expected then push_loop (end_payload d) rest (frames @ [concat (fd_blocks d)])
            else push_loop d rest frames)
      | None \<Rightarrow>
          (case take_header rest d of (d, rest) \<Rightarrow>
           if fd_headerLength d < FRAME_HEADER_LENGTH then push_loop d rest frames
           else let frameLength = uint32_of (fd_header d); d = d\<lparr>fd_headerLength := 0\<rparr> in
             if fd_maxFrameLength d < frameLength then Some (Inl (FrameTooLong frameLength (fd_maxFrameLength d)), fail_decoder d)
             else if frameLength = 0 then push_loop d rest (frames @ [[]])
             else Option.bind (fill_payload frameLength (begin_payload frameLength d) rest) (\<lambda>(d, rest).
               if fd_payloadLength d = frameLength then push_loop (end_payload d) rest (frames @ [concat (fd_blocks d)])
               else push_loop d rest frames)))"

definition push :: "frame_decoder \<Rightarrow> byte list \<Rightarrow> push_result option" where
  "push d chunk =
     (case fd_state d of
        Ended \<Rightarrow> Some (Inl DecoderEnded, d)
      | Failed \<Rightarrow> Some (Inl DecoderFailed, d)
      | Open \<Rightarrow> push_loop d chunk [])"

definition end_stream :: "frame_decoder \<Rightarrow> (frame_error, unit) result \<times> frame_decoder" where
  "end_stream d =
     (case fd_state d of
        Ended \<Rightarrow> (Inl DecoderEnded, d)
      | Failed \<Rightarrow> (Inl DecoderFailed, d)
      | Open \<Rightarrow>
          if fd_headerLength d \<noteq> 0 \<or> fd_expected d \<noteq> None then (Inl TruncatedFrame, fail_decoder d)
          else (Inr (), d\<lparr>fd_state := Ended\<rparr>))"

text \<open>A stream arrives as chunks; the first push that throws ends it.\<close>

fun push_all :: "frame_decoder \<Rightarrow> byte list list \<Rightarrow> push_result option" where
  "push_all d [] = Some (Inr [], d)"
| "push_all d (c # cs) =
     Option.bind (push d c) (\<lambda>(r, d).
       case r of
         Inl e \<Rightarrow> Some (Inl e, d)
       | Inr frames \<Rightarrow> Option.bind (push_all d cs) (\<lambda>(r, d).
           Some (case r of Inl e \<Rightarrow> Inl e | Inr frames' \<Rightarrow> Inr (frames @ frames'), d)))"

section \<open>Specification: splitting a whole stream\<close>

text \<open>The complete frames of a stream and what is left, or the length of the first frame above the limit.\<close>

function split_frames :: "nat \<Rightarrow> byte list \<Rightarrow> (nat, byte list list \<times> byte list) result" where
  "split_frames maxf bs =
     (if length bs < 4 then Inr ([], bs)
      else let n = uint32_of bs in
        if maxf < n then Inl n
        else if length bs < 4 + n then Inr ([], bs)
        else rbind (split_frames maxf (drop (4 + n) bs)) (\<lambda>(fs, rest). Inr (take n (drop 4 bs) # fs, rest)))"
  by pat_completeness auto

termination split_frames
  by (relation "measure (\<lambda>(_, bs). length bs)") auto

declare split_frames.simps [simp del]

lemma uint32_of_take: "4 \<le> length bs \<Longrightarrow> uint32_of (bs @ cs) = uint32_of bs"
  by (auto simp: uint32_of_def nth_append)

text \<open>Splitting is incremental: what was left over is prefixed to what comes next.\<close>

lemma split_frames_append:
  "split_frames maxf (bs @ cs) =
     rbind (split_frames maxf bs) (\<lambda>(fs, rest). rbind (split_frames maxf (rest @ cs)) (\<lambda>(fs', rest'). Inr (fs @ fs', rest')))"
proof (induction maxf bs rule: split_frames.induct)
  case (1 maxf bs)
  let ?n = "uint32_of bs"
  have id: "rbind m Inr = m" for m :: "(nat, byte list list \<times> byte list) result"
    by (cases m) auto
  show ?case
  proof (cases "length bs < 4 \<or> (?n \<le> maxf \<and> length bs < 4 + ?n)")
    case True
    then have "split_frames maxf bs = Inr ([], bs)" by (subst split_frames.simps) auto
    then show ?thesis by (simp add: id)
  next
    case False
    then show ?thesis
    proof (cases "maxf < ?n")
      case True
      then show ?thesis using False uint32_of_take [of bs cs]
        by (simp add: split_frames.simps [of maxf bs] split_frames.simps [of maxf "bs @ cs"])
    next
      case le: False
      then have "split_frames maxf bs = rbind (split_frames maxf (drop (4 + ?n) bs)) (\<lambda>(fs, rest). Inr (take ?n (drop 4 bs) # fs, rest))"
        using False by (subst split_frames.simps) (auto simp: Let_def)
      moreover have "split_frames maxf (bs @ cs) =
          rbind (split_frames maxf (drop (4 + ?n) bs @ cs)) (\<lambda>(fs, rest). Inr (take ?n (drop 4 bs) # fs, rest))"
        using False le uint32_of_take [of bs cs] by (subst split_frames.simps) (auto simp: Let_def)
      ultimately show ?thesis using 1 False le
        by (cases "split_frames maxf (drop (4 + ?n) bs)") (auto simp: Let_def rbind_def split: sum.splits)
    qed
  qed
qed

section \<open>The decoder refines the specification\<close>

definition received :: "frame_decoder \<Rightarrow> byte list" where
  "received d = take (fd_payloadLength d) (concat (fd_blocks d))"

text \<open>The blocks of a payload of length \<open>n\<close>: all but the last are full, and none is allocated before its bytes arrive.\<close>

definition blocks_ok :: "nat \<Rightarrow> frame_decoder \<Rightarrow> bool" where
  "blocks_ok n d =
     (fd_payloadLength d \<le> n \<and> (fd_current d \<longleftrightarrow> fd_blocks d \<noteq> []) \<and> (fd_blocks d = [] \<longrightarrow> fd_payloadLength d = 0) \<and>
      (fd_blocks d \<noteq> [] \<longrightarrow> fd_currentLength d \<le> length (last (fd_blocks d)) \<and>
        fd_payloadLength d = length (concat (butlast (fd_blocks d))) + fd_currentLength d) \<and>
      length (concat (fd_blocks d)) \<le> n \<and> (\<forall>b \<in> set (fd_blocks d). length b \<le> PAYLOAD_BLOCK_SIZE))"

definition decoder_wf :: "frame_decoder \<Rightarrow> bool" where
  "decoder_wf d =
     (fd_state d = Open \<longrightarrow> length (fd_header d) = 4 \<and>
        (case fd_expected d of
           None \<Rightarrow> fd_headerLength d < 4
         | Some n \<Rightarrow> fd_headerLength d = 0 \<and> uint32_of (fd_header d) = n \<and> n \<le> fd_maxFrameLength d \<and>
             fd_payloadLength d < n \<and> blocks_ok n d))"

text \<open>The bytes of the stream that belong to the frame the decoder is in.\<close>

definition pending :: "frame_decoder \<Rightarrow> byte list" where
  "pending d = (case fd_expected d of None \<Rightarrow> take (fd_headerLength d) (fd_header d) | Some _ \<Rightarrow> fd_header d @ received d)"

definition same_frame :: "frame_decoder \<Rightarrow> frame_decoder \<Rightarrow> bool" where
  "same_frame d d' = (fd_header d' = fd_header d \<and> fd_headerLength d' = fd_headerLength d \<and>
     fd_maxFrameLength d' = fd_maxFrameLength d \<and> fd_expected d' = fd_expected d \<and> fd_state d' = fd_state d)"

lemma concat_butlast_last: "bs \<noteq> [] \<Longrightarrow> concat bs = concat (butlast bs) @ last bs"
  by (metis append_butlast_last_id concat.simps concat_append append_Nil2)

lemma fresh_block_ok:
  assumes "blocks_ok n d" "fd_payloadLength d < n"
  shows "blocks_ok n (fresh_block n d) \<and> fd_blocks (fresh_block n d) \<noteq> [] \<and>
    fd_currentLength (fresh_block n d) < length (last (fd_blocks (fresh_block n d))) \<and>
    received (fresh_block n d) = received d \<and> same_frame d (fresh_block n d) \<and>
    fd_payloadLength (fresh_block n d) = fd_payloadLength d"
proof (cases "fd_current d \<and> fd_currentLength d \<noteq> length (last (fd_blocks d))")
  case True
  then show ?thesis using assms by (auto simp: fresh_block_def blocks_ok_def same_frame_def)
next
  case False
  then have "fd_payloadLength d = length (concat (fd_blocks d))"
    using assms by (auto simp: blocks_ok_def concat_butlast_last)
  then show ?thesis using False assms by (auto simp: fresh_block_def blocks_ok_def same_frame_def received_def PAYLOAD_BLOCK_SIZE_def)
qed

lemma length_array_set [simp]: "pos + length src \<le> length t \<Longrightarrow> length (array_set t pos src) = length t"
  by (simp add: array_set_def)

lemma take_array_set: "pos + length src \<le> length t \<Longrightarrow> take (pos + length src) (array_set t pos src) = take pos t @ src"
  by (simp add: array_set_def)

lemma fill_block_ok:
  assumes "blocks_ok n d" "fd_payloadLength d < n" "rest \<noteq> []" "fill_block n (d, rest) = (d', rest')"
  shows "blocks_ok n d' \<and> received d' @ rest' = received d @ rest \<and> length rest' < length rest \<and> same_frame d d' \<and>
    length (received d') = fd_payloadLength d'"
proof -
  define e where "e = fresh_block n d"
  note e = fresh_block_ok [OF assms(1,2), folded e_def]
  let ?b = "last (fd_blocks e)" and ?bs = "butlast (fd_blocks e)" and ?c = "fd_currentLength e"
  define k where "k = min (length ?b - ?c) (length rest)"
  have k: "0 < k" "?c + k \<le> length ?b" "k \<le> length rest" using e assms(3) by (auto simp: k_def)
  let ?b' = "array_set ?b ?c (take k rest)"
  have len: "length ?b' = length ?b" using k by simp
  have d': "d' = e\<lparr>fd_blocks := ?bs @ [?b'], fd_currentLength := ?c + k, fd_payloadLength := fd_payloadLength e + k\<rparr>" "rest' = drop k rest"
    using assms(4) by (simp_all add: fill_block_def Let_def flip: e_def k_def)
  have pl: "fd_payloadLength e = length (concat ?bs) + ?c" "length (concat ?bs) + length ?b \<le> n"
    and sz: "\<forall>b \<in> set ?bs. length b \<le> PAYLOAD_BLOCK_SIZE" "length ?b \<le> PAYLOAD_BLOCK_SIZE" "fd_current e"
    using e concat_butlast_last [of "fd_blocks e"] by (auto simp: blocks_ok_def dest: in_set_butlastD)
  have "take (?c + k) ?b' = take ?c ?b @ take k rest" using take_array_set [of ?c "take k rest" ?b] k by simp
  then have rec: "received d' = concat ?bs @ take ?c ?b @ take k rest" using pl d' by (simp add: received_def add.assoc)
  have "received e = concat ?bs @ take ?c ?b" using pl e by (simp add: received_def concat_butlast_last)
  with rec d' e have "received d' @ rest' = received d @ rest" by simp
  moreover have "blocks_ok n d'" using d' len pl k sz by (simp add: blocks_ok_def)
  moreover have "length (received d') = fd_payloadLength d'" using rec d' pl k by simp
  ultimately show ?thesis using d' k e by (auto simp: same_frame_def)
qed

text \<open>The payload loop returns, and has then taken the chunk or completed the payload.\<close>

lemma fill_payload_ok:
  assumes "blocks_ok n d"
  shows "\<exists>d' rest'. fill_payload n d rest = Some (d', rest') \<and> blocks_ok n d' \<and> same_frame d d' \<and>
    received d' @ rest' = received d @ rest \<and> length rest' \<le> length rest \<and> (rest' = [] \<or> fd_payloadLength d' = n)"
proof -
  define P where "P = (\<lambda>(d', rest'). blocks_ok n d' \<and> same_frame d d' \<and> received d' @ rest' = received d @ rest \<and> length rest' \<le> length rest)"
  let ?c = "\<lambda>(d, rest). rest \<noteq> [] \<and> fd_payloadLength d < n"
  have step: "P (fill_block n s) \<and> length (snd (fill_block n s)) < length (snd s)" if "P s" "?c s" for s
  proof -
    obtain d1 r1 d2 r2 where s: "s = (d1, r1)" "fill_block n s = (d2, r2)" by (metis surj_pair)
    with fill_block_ok [of n d1 r1 d2 r2] that show ?thesis by (auto simp: P_def same_frame_def)
  qed
  have init: "P (d, rest)" using assms by (simp add: P_def same_frame_def)
  obtain t where t: "while_option ?c (fill_block n) (d, rest) = Some t"
    using measure_while_option_Some [where P = P and f = "\<lambda>s. length (snd s)" and s = "(d, rest)" and b = ?c and c = "fill_block n"] step init
    by blast
  moreover have "P t" using while_option_rule [where P = P, OF _ t init] step by blast
  moreover have "\<not> ?c t" using while_option_stop [OF t] .
  ultimately show ?thesis by (cases t) (auto simp: fill_payload_def P_def blocks_ok_def)
qed

text \<open>What a push on a stream of bytes must answer.\<close>

definition push_spec :: "nat \<Rightarrow> byte list \<Rightarrow> byte list list \<Rightarrow> push_result option \<Rightarrow> bool" where
  "push_spec maxf stream frames res = (\<exists>r d. res = Some (r, d) \<and> decoder_wf d \<and> fd_maxFrameLength d = maxf \<and>
     (case split_frames maxf stream of
        Inl n \<Rightarrow> r = Inl (FrameTooLong n maxf) \<and> fd_state d = Failed
      | Inr (fs, left) \<Rightarrow> r = Inr (frames @ fs) \<and> fd_state d = Open \<and> pending d = left))"

lemma split_frames_step:
  assumes "length h = 4" "uint32_of h \<le> maxf" "length p = uint32_of h"
  shows "split_frames maxf (h @ p @ rest) = rbind (split_frames maxf rest) (\<lambda>(fs, left). Inr (p # fs, left))"
  using assms uint32_of_take [of h "p @ rest"] by (subst split_frames.simps) (simp add: Let_def)

lemma push_spec_cons:
  assumes "push_spec maxf rest (frames @ [p]) res" "length h = 4" "uint32_of h \<le> maxf" "length p = uint32_of h"
  shows "push_spec maxf (h @ p @ rest) frames res"
  using assms(1) unfolding push_spec_def split_frames_step [OF assms(2-4)]
  by (cases "split_frames maxf rest") auto

lemma received_length: "blocks_ok n d \<Longrightarrow> length (received d) = fd_payloadLength d"
  using concat_butlast_last [of "fd_blocks d"] by (cases "fd_blocks d = []") (auto simp: blocks_ok_def received_def)

lemma split_pending:
  assumes "decoder_wf d" "fd_state d = Open"
  shows "split_frames (fd_maxFrameLength d) (pending d) = Inr ([], pending d)"
proof (cases "fd_expected d")
  case None
  then show ?thesis using assms by (subst split_frames.simps) (auto simp: pending_def decoder_wf_def)
next
  case (Some n)
  then have "length (received d) < n" "uint32_of (fd_header d @ received d) = n" "n \<le> fd_maxFrameLength d" "length (fd_header d) = 4"
    using assms received_length [of n d] by (auto simp: decoder_wf_def uint32_of_take)
  then show ?thesis using Some by (subst split_frames.simps) (auto simp: pending_def)
qed

lemma push_spec_done:
  "decoder_wf d \<Longrightarrow> fd_state d = Open \<Longrightarrow> push_spec (fd_maxFrameLength d) (pending d) frames (Some (Inr frames, d))"
  by (auto simp: push_spec_def split_pending)

lemma push_payload:
  assumes d: "blocks_ok n d" "fd_expected d = Some n" "length (fd_header d) = 4" "uint32_of (fd_header d) = n"
      "n \<le> fd_maxFrameLength d" "fd_headerLength d = 0" "fd_state d = Open"
    and IH: "\<And>d rest' frames. length rest' \<le> length rest \<Longrightarrow> decoder_wf d \<Longrightarrow> fd_state d = Open \<Longrightarrow>
      push_spec (fd_maxFrameLength d) (pending d @ rest') frames (push_loop d rest' frames)"
  shows "push_spec (fd_maxFrameLength d) (fd_header d @ received d @ rest) frames
    (Option.bind (fill_payload n d rest) (\<lambda>(d, rest).
       if fd_payloadLength d = n then push_loop (end_payload d) rest (frames @ [concat (fd_blocks d)])
       else push_loop d rest frames))"
proof -
  obtain d' rest' where f: "fill_payload n d rest = Some (d', rest')" "blocks_ok n d'" "same_frame d d'"
    "received d' @ rest' = received d @ rest" "length rest' \<le> length rest" "rest' = [] \<or> fd_payloadLength d' = n"
    using fill_payload_ok [OF d(1), of rest] by blast
  show ?thesis
  proof (cases "fd_payloadLength d' = n")
    case True
    have len: "length (concat (fd_blocks d')) = n" "received d' = concat (fd_blocks d')"
      using received_length [OF f(2)] f(2) True by (auto simp: received_def blocks_ok_def)
    have "decoder_wf (end_payload d')" "pending (end_payload d') = []" "fd_state (end_payload d') = Open"
      "fd_maxFrameLength (end_payload d') = fd_maxFrameLength d"
      using d f(3) by (auto simp: decoder_wf_def end_payload_def pending_def same_frame_def)
    from IH [OF f(5) this(1,3)] this
    have "push_spec (fd_maxFrameLength d) rest' (frames @ [concat (fd_blocks d')])
        (push_loop (end_payload d') rest' (frames @ [concat (fd_blocks d')]))" by simp
    from push_spec_cons [OF this d(3)] len d(4,5) show ?thesis using f(1,4) True by simp
  next
    case False
    then have r: "rest' = []" "received d' = received d @ rest" using f(4,6) by auto
    have wf: "decoder_wf d'" "fd_state d' = Open" "pending d' = fd_header d @ received d @ rest"
      using d f(2,3) False r(2) by (auto simp: decoder_wf_def same_frame_def pending_def blocks_ok_def)
    have "push_loop d' rest' frames = Some (Inr frames, d')" using r by (subst push_loop.simps) simp
    then show ?thesis using f(1,3) False push_spec_done [OF wf(1,2), of frames] wf(3) by (simp add: same_frame_def)
  qed
qed

lemma take_header_ok:
  assumes "length (fd_header d) = 4" "fd_headerLength d < 4" "rest \<noteq> []" "take_header rest d = (d', rest')"
  shows "take (fd_headerLength d') (fd_header d') @ rest' = take (fd_headerLength d) (fd_header d) @ rest \<and>
    length rest' < length rest \<and> length (fd_header d') = 4 \<and> fd_headerLength d' \<le> 4 \<and>
    fd_maxFrameLength d' = fd_maxFrameLength d \<and> fd_expected d' = fd_expected d \<and> fd_state d' = fd_state d \<and>
    (fd_headerLength d' < 4 \<longrightarrow> rest' = [])"
  using assms by (auto simp: take_header_def Let_def FRAME_HEADER_LENGTH_def array_set_def min_def split: if_splits)

text \<open>One round inside a payload, and one round that completes a header.\<close>

lemma push_in_payload:
  assumes "decoder_wf d" "fd_state d = Open" "fd_expected d = Some n" and rest: "rest \<noteq> []"
    and IH: "\<And>d rest' frames. length rest' < length rest \<Longrightarrow> decoder_wf d \<Longrightarrow> fd_state d = Open \<Longrightarrow>
      push_spec (fd_maxFrameLength d) (pending d @ rest') frames (push_loop d rest' frames)"
  shows "push_spec (fd_maxFrameLength d) (pending d @ rest) frames (push_loop d rest frames)"
proof -
  from assms have d: "blocks_ok n d" "length (fd_header d) = 4" "uint32_of (fd_header d) = n" "n \<le> fd_maxFrameLength d"
      "fd_headerLength d = 0" and less: "fd_payloadLength d < n"
    by (auto simp: decoder_wf_def)
  obtain d1 r1 where fb: "fill_block n (d, rest) = (d1, r1)" by (metis surj_pair)
  note f1 = fill_block_ok [OF d(1) less rest fb]
  have unroll: "fill_payload n d rest = fill_payload n d1 r1"
    unfolding fill_payload_def by (subst while_option_unfold) (use rest less fb in simp)
  have "push_loop d rest frames = Option.bind (fill_payload n d1 r1) (\<lambda>(d, rest).
      if fd_payloadLength d = n then push_loop (end_payload d) rest (frames @ [concat (fd_blocks d)])
      else push_loop d rest frames)"
    by (subst push_loop.simps) (simp add: rest assms(3) unroll)
  moreover have "fd_expected d1 = Some n" "fd_header d1 = fd_header d" "fd_maxFrameLength d1 = fd_maxFrameLength d"
    "fd_headerLength d1 = 0" "fd_state d1 = Open"
    using f1 assms(2,3) d(5) by (auto simp: same_frame_def)
  ultimately show ?thesis using push_payload [of n d1 r1 frames] f1 d IH assms(3) by (simp add: pending_def)
qed

lemma push_after_header:
  assumes e: "fd_headerLength e = 0" "length (fd_header e) = 4" "fd_state e = Open" "fd_expected e = None" "n = uint32_of (fd_header e)"
    and IH: "\<And>d rest' frames. length rest' \<le> length rest \<Longrightarrow> decoder_wf d \<Longrightarrow> fd_state d = Open \<Longrightarrow>
      push_spec (fd_maxFrameLength d) (pending d @ rest') frames (push_loop d rest' frames)"
  shows "push_spec (fd_maxFrameLength e) (fd_header e @ rest) frames
    (if fd_maxFrameLength e < n then Some (Inl (FrameTooLong n (fd_maxFrameLength e)), fail_decoder e)
     else if n = 0 then push_loop e rest (frames @ [[]])
     else Option.bind (fill_payload n (begin_payload n e) rest) (\<lambda>(d, rest).
       if fd_payloadLength d = n then push_loop (end_payload d) rest (frames @ [concat (fd_blocks d)])
       else push_loop d rest frames))"
proof -
  consider "fd_maxFrameLength e < n" | "n \<le> fd_maxFrameLength e" "n = 0" | "n \<le> fd_maxFrameLength e" "0 < n" by linarith
  then show ?thesis
  proof cases
    case 1
    have "split_frames (fd_maxFrameLength e) (fd_header e @ rest) = Inl n"
      using 1 e(2,5) uint32_of_take [of "fd_header e" rest] by (subst split_frames.simps) simp
    then show ?thesis using 1 by (simp add: push_spec_def fail_decoder_def decoder_wf_def)
  next
    case 2
    have "decoder_wf e" "pending e = []" using e by (auto simp: decoder_wf_def pending_def)
    then have "push_spec (fd_maxFrameLength e) rest (frames @ [[]]) (push_loop e rest (frames @ [[]]))"
      using IH [of rest e "frames @ [[]]"] e by simp
    from push_spec_cons [OF this e(2)] 2 e(5) show ?thesis by simp
  next
    case 3
    let ?b = "begin_payload n e"
    have "blocks_ok n ?b" "received ?b = []" "fd_expected ?b = Some n" "fd_header ?b = fd_header e"
      "fd_maxFrameLength ?b = fd_maxFrameLength e" "fd_headerLength ?b = 0" "fd_state ?b = Open"
      using e by (auto simp: begin_payload_def blocks_ok_def received_def)
    then show ?thesis using push_payload [of n ?b rest frames] e 3 IH by simp
  qed
qed

lemma push_in_header:
  assumes "decoder_wf d" "fd_state d = Open" "fd_expected d = None" and rest: "rest \<noteq> []"
    and IH: "\<And>d rest' frames. length rest' < length rest \<Longrightarrow> decoder_wf d \<Longrightarrow> fd_state d = Open \<Longrightarrow>
      push_spec (fd_maxFrameLength d) (pending d @ rest') frames (push_loop d rest' frames)"
  shows "push_spec (fd_maxFrameLength d) (pending d @ rest) frames (push_loop d rest frames)"
proof -
  have h: "length (fd_header d) = 4" "fd_headerLength d < 4" using assms by (auto simp: decoder_wf_def)
  obtain d1 r1 where t: "take_header rest d = (d1, r1)" by (metis surj_pair)
  note t1 = take_header_ok [OF h rest t]
  have p: "pending d @ rest = take (fd_headerLength d1) (fd_header d1) @ r1" using t1 assms(3) by (simp add: pending_def)
  show ?thesis
  proof (cases "fd_headerLength d1 < 4")
    case True
    then have "push_loop d rest frames = push_loop d1 r1 frames"
      by (subst push_loop.simps) (simp add: rest assms(3) t FRAME_HEADER_LENGTH_def)
    moreover have "decoder_wf d1" "pending d1 = take (fd_headerLength d1) (fd_header d1)"
      using t1 True assms(3) by (auto simp: decoder_wf_def pending_def)
    ultimately show ?thesis using IH [of r1 d1 frames] t1 p assms(2) by simp
  next
    case False
    define e where "e = d1\<lparr>fd_headerLength := 0\<rparr>"
    have e: "fd_headerLength e = 0" "length (fd_header e) = 4" "fd_state e = Open" "fd_expected e = None"
      "fd_maxFrameLength e = fd_maxFrameLength d" "fd_header e = fd_header d1" using t1 assms(2,3) by (simp_all add: e_def)
    have "pending d @ rest = fd_header e @ r1" using p t1 False e by simp
    moreover have "push_loop d rest frames = (let n = uint32_of (fd_header e) in
      if fd_maxFrameLength e < n then Some (Inl (FrameTooLong n (fd_maxFrameLength e)), fail_decoder e)
      else if n = 0 then push_loop e r1 (frames @ [[]])
      else Option.bind (fill_payload n (begin_payload n e) r1) (\<lambda>(d, rest).
        if fd_payloadLength d = n then push_loop (end_payload d) rest (frames @ [concat (fd_blocks d)])
        else push_loop d rest frames))"
      by (subst push_loop.simps) (use False in \<open>simp add: rest assms(3) t FRAME_HEADER_LENGTH_def Let_def e_def\<close>)
    ultimately show ?thesis using push_after_header [OF e(1-4) refl, of r1 frames] IH t1 e(5) by (simp add: Let_def)
  qed
qed

lemma push_loop_refines:
  "decoder_wf d \<Longrightarrow> fd_state d = Open \<Longrightarrow> push_spec (fd_maxFrameLength d) (pending d @ rest) frames (push_loop d rest frames)"
proof (induction rest arbitrary: d frames rule: length_induct)
  case (1 rest)
  have IH: "push_spec (fd_maxFrameLength e) (pending e @ rest') fs (push_loop e rest' fs)"
    if "length rest' < length rest" "decoder_wf e" "fd_state e = Open" for e rest' fs
    using 1(1) that by blast
  have "push_loop d [] frames = Some (Inr frames, d)" by (subst push_loop.simps) simp
  note empty = this
  show ?case
  proof (cases "rest = []")
    case True
    then show ?thesis using push_spec_done [OF 1(2,3), of frames] empty by simp
  next
    case False
    show ?thesis
    proof (cases "fd_expected d")
      case None
      show ?thesis by (rule push_in_header [OF 1(2,3) None False IH])
    next
      case (Some n)
      show ?thesis by (rule push_in_payload [OF 1(2,3) Some False IH])
    qed
  qed
qed

lemma push_all_refines:
  "decoder_wf d \<Longrightarrow> fd_state d = Open \<Longrightarrow> push_spec (fd_maxFrameLength d) (pending d @ concat cs) [] (push_all d cs)"
proof (induction cs arbitrary: d)
  case Nil
  then show ?case using push_spec_done [of d "[]"] by simp
next
  case (Cons c cs)
  let ?m = "fd_maxFrameLength d"
  obtain r d1 where 1: "push d c = Some (r, d1)" "decoder_wf d1" "fd_maxFrameLength d1 = ?m"
    and spec: "case split_frames ?m (pending d @ c) of
        Inl n \<Rightarrow> r = Inl (FrameTooLong n ?m) \<and> fd_state d1 = Failed
      | Inr (fs, left) \<Rightarrow> r = Inr ([] @ fs) \<and> fd_state d1 = Open \<and> pending d1 = left"
    using push_loop_refines [OF Cons.prems, of c "[]"] Cons.prems(2) unfolding push_def push_spec_def by fastforce
  note app = split_frames_append [of ?m "pending d @ c" "concat cs"]
  show ?case
  proof (cases "split_frames ?m (pending d @ c)")
    case (Inl n)
    then show ?thesis using 1 spec app by (simp add: push_spec_def)
  next
    case (Inr a)
    then obtain fs where fs: "r = Inr fs" "fd_state d1 = Open" "split_frames ?m (pending d @ c) = Inr (fs, pending d1)"
      using spec by (cases a) auto
    from Cons.IH [OF 1(2) fs(2)] show ?thesis using 1 fs app
      by (auto simp: push_spec_def rbind_def split: sum.splits)
  qed
qed

lemma split_encoded:
  "list_all (\<lambda>p. length p \<le> maxf) ps \<Longrightarrow> maxf \<le> FRAME_MAX_UINT32 \<Longrightarrow>
   split_frames maxf (concat (map (\<lambda>p. uint32_bytes (length p) @ p) ps)) = Inr (ps, [])"
proof (induction ps)
  case (Cons p ps)
  have "uint32_of (uint32_bytes (length p)) = length p" using Cons.prems by (simp add: FRAME_MAX_UINT32_def)
  then show ?case using Cons split_frames_step [of "uint32_bytes (length p)" maxf p] by simp
qed (simp add: split_frames.simps)


lemma new_decoder_wf: "decoder_wf (new_decoder maxf)" "fd_state (new_decoder maxf) = Open" "pending (new_decoder maxf) = []"
  "fd_maxFrameLength (new_decoder maxf) = maxf"
  by (simp_all add: new_decoder_def decoder_wf_def pending_def FRAME_HEADER_LENGTH_def)

lemma frames_delivered:
  assumes "list_all (\<lambda>p. length p \<le> maxf) ps" and "maxf \<le> FRAME_MAX_UINT32"
    and "map encodeFrame ps = map Inr frames" and "concat cs = concat frames"
  shows "\<exists>d. push_all (new_decoder maxf) cs = Some (Inr ps, d) \<and> fst (end_stream d) = Inr ()"
proof -
  have "frames = map (\<lambda>p. uint32_bytes (length p) @ p) ps"
    using assms(3) by (induction ps arbitrary: frames) (auto simp: encodeFrame_def Cons_eq_map_conv split: if_splits)
  then have sp: "split_frames maxf (concat cs) = Inr (ps, [])" using split_encoded [OF assms(1,2)] assms(4) by simp
  then obtain d where d: "push_all (new_decoder maxf) cs = Some (Inr ps, d)" "decoder_wf d" "fd_state d = Open" "pending d = []"
    using push_all_refines [OF new_decoder_wf(1,2), of maxf cs] by (auto simp: push_spec_def new_decoder_wf)
  then have "fd_headerLength d = 0 \<and> fd_expected d = None"
    by (auto simp: decoder_wf_def pending_def split: option.splits)
  then show ?thesis using d by (simp add: end_stream_def)
qed

section \<open>Properties of framing\<close>



text \<open>Round trip: payloads within the limit, framed one after the other and cut into any chunks, are delivered
  exactly as they were, in order, and the stream then ends without an error.\<close>

theorem framing_roundtrip:
  assumes "list_all (\<lambda>p. length p \<le> maxf) ps" and "maxf \<le> FRAME_MAX_UINT32"
    and "map encodeFrame ps = map Inr frames" and "concat cs = concat frames"
  shows "\<exists>d. push_all (new_decoder maxf) cs = Some (Inr ps, d) \<and> fst (end_stream d) = Inr ()"
  by (rule frames_delivered [OF assms])

theorem framing_roundtrip_witness:
  "\<exists>d. push_all (new_decoder 9) [[0, 0, 0], [2, 7, 8, 0], [0, 0, 0]] = Some (Inr [[7, 8], []], d) \<and> fst (end_stream d) = Inr ()"
  using framing_roundtrip [of 9 "[[7, 8], []]" "[[0, 0, 0, 2, 7, 8], [0, 0, 0, 0]]" "[[0, 0, 0], [2, 7, 8, 0], [0, 0, 0]]"]
  by (simp add: FRAME_MAX_UINT32_def encodeFrame_def uint32_bytes_def byte_of_def)



end
