(* ===== verification/Wire_Codec.thy ===== *)
theory Wire_Codec
  imports Cbor_Correct Framing
begin

text \<open>
  packages/protocol/src/protocol.ts and codec.ts: the message schemas, and the framed, validated message
  streams built from CBOR and framing; and the strict-JSON test and copy of packages/chord/src/json.ts the
  codec relies on. TypeBox's \<open>Check\<close>, which decides whether a value matches a schema, is the parameter
  \<open>Check\<close>.
\<close>

section \<open>Strict JSON (chord)\<close>

fun isJsonValue :: "js \<Rightarrow> bool" where
  "isJsonValue JNull = True"
| "isJsonValue (JText _) = True"
| "isJsonValue (JBool _) = True"
| "isJsonValue (JInt _) = True"
| "isJsonValue (JDbl b) = dbl_finite b"
| "isJsonValue (JArr xs) = (\<forall>x \<in> set xs. isJsonValue x)"
| "isJsonValue (JObj kvs) = (\<forall>(k, v) \<in> set kvs. isJsonValue v)"
| "isJsonValue _ = False"

datatype copy_error = NonFiniteNumber | NonJson string | SparseArray | NotPlain | SymbolKey

function copy :: "bool \<Rightarrow> js \<Rightarrow> (copy_error, js) result" where
  "copy omitUndefined value =
     (case value of
        JNull \<Rightarrow> Inr value
      | JText _ \<Rightarrow> Inr value
      | JBool _ \<Rightarrow> Inr value
      | JInt _ \<Rightarrow> Inr value
      | JDbl b \<Rightarrow> if dbl_finite b then Inr value else Inl NonFiniteNumber
      | JUndef \<Rightarrow> Inl (NonJson ''undefined'')
      | JOther t \<Rightarrow> if t = ''object'' then Inl NotPlain else Inl (NonJson t)
      | JArr xs \<Rightarrow>
          rbind (for_each (\<lambda>x result. rbind (copy omitUndefined x) (\<lambda>c. Inr (result @ [c]))) xs []) (\<lambda>result. Inr (JArr result))
      | JBytes _ \<Rightarrow> Inl NotPlain
      | JSymObj \<Rightarrow> Inl SymbolKey
      | JObj kvs \<Rightarrow>
          rbind (for_each (\<lambda>(k, v) result.
              if v = JUndef \<and> omitUndefined then Inr result
              else rbind (copy omitUndefined v) (\<lambda>c. Inr (define_property k c result))) kvs [])
            (\<lambda>result. Inr (JObj result)))"
  by pat_completeness auto

lemma property_size: "(k, v) \<in> set kvs \<Longrightarrow> size v < Suc (size_list (size_prod (\<lambda>_. 0) size) kvs)"
  using size_list_estimation' [of "(k, v)" kvs "size v" "size_prod (\<lambda>_. 0) size"] by auto

termination copy
  by (relation "measure (\<lambda>(_, v). size v)") (auto dest: array_size property_size)

declare copy.simps [simp del]

definition copyJson :: "bool \<Rightarrow> js \<Rightarrow> (copy_error, js) result" where
  "copyJson omitUndefinedProperties value = copy omitUndefinedProperties value"

section \<open>Message schemas\<close>

datatype schema =
    TString "nat option" "string option"
  | TUnknown
  | TInteger "int option"
  | TLiteral js
  | TNull
  | TObject "(string \<times> bool \<times> schema) list"
  | TUnion "schema list"

text \<open>A strict object lists its properties with whether each is required and admits no other.\<close>

definition PROTOCOL_VERSION :: int where "PROTOCOL_VERSION = 8"

definition IdSchema :: schema where "IdSchema = TString (Some 1) None"
definition OpaqueJsonValueSchema :: schema where "OpaqueJsonValueSchema = TUnknown"

definition StrictObject :: "(string \<times> schema) list \<Rightarrow> schema" where
  "StrictObject properties = TObject (map (\<lambda>(k, t). (k, True, t)) properties)"

definition Literal :: "string \<Rightarrow> schema" where
  "Literal s = TLiteral (JText (ascii s))"

definition ServerIdSchema :: schema where
  "ServerIdSchema = TString None (Some ''^[0-9a-f]{8}-[0-9a-f]{4}-4[0-9a-f]{3}-[89ab][0-9a-f]{3}-[0-9a-f]{12}$'')"

definition isServerId :: "(schema \<Rightarrow> js \<Rightarrow> bool) \<Rightarrow> js \<Rightarrow> bool" where
  "isServerId Check value = Check ServerIdSchema value"

definition ProtocolErrorSchema :: schema where
  "ProtocolErrorSchema = StrictObject [(''code'', IdSchema), (''message'', TString None None)]"

definition ClientHelloSchema :: schema where
  "ClientHelloSchema = StrictObject [(''type'', Literal ''hello''), (''version'', TInteger (Some 0))]"

definition ServerTargetSchema :: schema where
  "ServerTargetSchema = StrictObject [(''serverId'', ServerIdSchema)]"

definition SessionTargetSchema :: schema where
  "SessionTargetSchema = StrictObject [(''serverId'', ServerIdSchema), (''sessionId'', IdSchema), (''attachmentId'', IdSchema)]"

definition RpcTargetSchema :: schema where
  "RpcTargetSchema = TUnion [ServerTargetSchema, SessionTargetSchema]"

definition RequestEnvelopeSchema :: schema where
  "RequestEnvelopeSchema = StrictObject [(''type'', Literal ''request''), (''id'', IdSchema), (''target'', RpcTargetSchema),
     (''call'', OpaqueJsonValueSchema)]"

definition CancelEnvelopeSchema :: schema where
  "CancelEnvelopeSchema = StrictObject [(''type'', Literal ''cancel''), (''id'', IdSchema), (''target'', RpcTargetSchema)]"

definition ClientMessageSchema :: schema where
  "ClientMessageSchema = TUnion [ClientHelloSchema, RequestEnvelopeSchema, CancelEnvelopeSchema]"

definition ServerHelloSchema :: schema where
  "ServerHelloSchema = StrictObject [(''type'', Literal ''hello''), (''version'', TLiteral (JInt PROTOCOL_VERSION)), (''serverId'', ServerIdSchema)]"

definition ServerHelloErrorSchema :: schema where
  "ServerHelloErrorSchema = StrictObject [(''type'', Literal ''hello_error''), (''error'', ProtocolErrorSchema)]"

definition ResponseEnvelopeSchema :: schema where
  "ResponseEnvelopeSchema = TUnion [
     TObject [(''type'', True, Literal ''response''), (''id'', True, IdSchema), (''ok'', True, TLiteral (JBool True)),
       (''result'', False, OpaqueJsonValueSchema)],
     StrictObject [(''type'', Literal ''response''), (''id'', IdSchema), (''ok'', TLiteral (JBool False)), (''error'', ProtocolErrorSchema)]]"

definition ServiceEventEnvelopeSchema :: schema where
  "ServiceEventEnvelopeSchema = StrictObject [(''type'', Literal ''service_update''), (''subscriptionId'', IdSchema),
     (''update'', OpaqueJsonValueSchema)]"

definition AttachmentEnvelopeSchema :: schema where
  "AttachmentEnvelopeSchema = StrictObject [(''type'', Literal ''attachment''), (''attachment'', TUnion [SessionTargetSchema, TNull])]"

definition ServerMessageSchema :: schema where
  "ServerMessageSchema = TUnion [ServerHelloSchema, ServerHelloErrorSchema, ResponseEnvelopeSchema, ServiceEventEnvelopeSchema,
     AttachmentEnvelopeSchema]"

section \<open>Error messages\<close>

fun cbor_message :: "cbor_error \<Rightarrow> string" where
  "cbor_message (LimitRange name n) = name @ '' must be an integer between 0 and '' @ nat_to_string n"
| "cbor_message (DepthExceeded n) = ''CBOR nesting depth exceeds configured limit of '' @ nat_to_string n"
| "cbor_message (ByteLengthExceeded n) = ''CBOR byte length exceeds configured limit of '' @ nat_to_string n"
| "cbor_message NumberNotFinite = ''CBOR numbers must be finite''"
| "cbor_message IntegerNotSafe = ''CBOR integers must be safe JavaScript integers''"
| "cbor_message (TextTooLong n) = ''CBOR text string length exceeds configured limit of '' @ nat_to_string n"
| "cbor_message TextNotScalar = ''CBOR text strings must contain valid Unicode scalar values''"
| "cbor_message TextDecoderThrew = ''The encoded data was not valid for encoding utf-8''"
| "cbor_message (ByteStringTooLong n) = ''CBOR byte string length exceeds configured limit of '' @ nat_to_string n"
| "cbor_message (ArrayTooLong n) = ''CBOR array length exceeds configured limit of '' @ nat_to_string n"
| "cbor_message ArrayHole = ''CBOR arrays must not contain holes or undefined values''"
| "cbor_message KeysMustBeStrings = ''CBOR map keys must be strings''"
| "cbor_message (MapTooLong n) = ''CBOR map length exceeds configured limit of '' @ nat_to_string n"
| "cbor_message (UnsupportedValue t) = ''Unsupported CBOR value type: '' @ t"
| "cbor_message TrailingData = ''CBOR payload contains trailing data''"
| "cbor_message DecodedNotSafe = ''Decoded CBOR integer is outside the safe range''"
| "cbor_message ArgumentNotSafe = ''Decoded CBOR integer or length is outside the safe range''"
| "cbor_message InvalidUtf8 = ''CBOR text string contains invalid UTF-8''"
| "cbor_message DuplicateKey = ''CBOR map contains a duplicate key''"
| "cbor_message TagsUnsupported = ''CBOR tags are not supported''"
| "cbor_message MalformedMajorType = ''Malformed CBOR major type''"
| "cbor_message DecodedNotFinite = ''Decoded CBOR number must be finite''"
| "cbor_message BreakUnsupported = ''CBOR break marker is not supported''"
| "cbor_message SimpleUnsupported = ''Unsupported CBOR simple value or floating-point width''"
| "cbor_message (IndefiniteKind kind) = ''Indefinite-length CBOR '' @ kind @ ''s are not supported''"
| "cbor_message (LengthExceeded kind n) = ''CBOR '' @ kind @ '' length exceeds configured limit of '' @ nat_to_string n"
| "cbor_message IndefiniteItem = ''Indefinite-length CBOR items are not supported''"
| "cbor_message MalformedInformation = ''Malformed CBOR additional information''"
| "cbor_message Truncated = ''Truncated CBOR payload''"

fun frame_message :: "frame_error \<Rightarrow> string" where
  "frame_message (FrameRange what) = (if what = ''payload'' then ''Frame payload exceeds the unsigned 32-bit length limit''
     else what @ '' must be an integer between 0 and '' @ nat_to_string FRAME_MAX_UINT32)"
| "frame_message DecoderEnded = ''Frame decoder has ended''"
| "frame_message DecoderFailed = ''Frame decoder has failed''"
| "frame_message (FrameTooLong n limit) = ''Frame length '' @ nat_to_string n @ '' exceeds configured limit of '' @ nat_to_string limit"
| "frame_message TruncatedFrame = ''Truncated frame at end of stream''"

text \<open>The message of an \<open>Error\<close>; every error thrown inside the codec is one.\<close>

definition boundedErrorMessage :: "string \<Rightarrow> string" where
  "boundedErrorMessage message = (if length message \<le> 500 then message else take 497 message @ ''...'')"

section \<open>Messages and their streams\<close>

text \<open>A \<open>ProtocolValidationError\<close> by its message.\<close>

type_synonym protocol_error = string
type_synonym parser = "js \<Rightarrow> (protocol_error, js) result"

definition parseClientMessage :: "(schema \<Rightarrow> js \<Rightarrow> bool) \<Rightarrow> parser" where
  "parseClientMessage Check value =
     (if \<not> Check ClientMessageSchema value \<or> \<not> isJsonValue value then Inl ''Invalid client protocol message'' else Inr value)"

definition parseServerMessage :: "(schema \<Rightarrow> js \<Rightarrow> bool) \<Rightarrow> parser" where
  "parseServerMessage Check value =
     (if \<not> Check ServerMessageSchema value \<or> \<not> isJsonValue value then Inl ''Invalid server protocol message'' else Inr value)"

definition frame_options :: "number option \<Rightarrow> cbor_options" where
  "frame_options maxFrameLength = \<lparr>opt_maxByteLength = Some (case maxFrameLength of Some v \<Rightarrow> v | None \<Rightarrow> num_of_nat DEFAULT_MAX_FRAME_LENGTH),
     opt_maxContainerLength = None, opt_maxDepth = None\<rparr>"

definition encodeProtocolMessage :: "parser \<Rightarrow> string \<Rightarrow> number option \<Rightarrow> js \<Rightarrow> (protocol_error, byte list) result" where
  "encodeProtocolMessage parse kind maxFrameLength value =
     rbind (parse value) (\<lambda>validated.
       let unable = (\<lambda>message. Inl (''Unable to encode '' @ kind @ '' protocol message: '' @ boundedErrorMessage message)) in
       case encodeCbor (frame_options maxFrameLength) validated of
         Inl e \<Rightarrow> unable (cbor_message e)
       | Inr bytes \<Rightarrow> (case encodeFrame bytes of Inl e \<Rightarrow> unable (frame_message e) | Inr frame \<Rightarrow> Inr frame))"

definition encodeClientMessage :: "(schema \<Rightarrow> js \<Rightarrow> bool) \<Rightarrow> number option \<Rightarrow> js \<Rightarrow> (protocol_error, byte list) result" where
  "encodeClientMessage Check = encodeProtocolMessage (parseClientMessage Check) ''client''"

definition encodeServerMessage :: "(schema \<Rightarrow> js \<Rightarrow> bool) \<Rightarrow> number option \<Rightarrow> js \<Rightarrow> (protocol_error, byte list) result" where
  "encodeServerMessage Check = encodeProtocolMessage (parseServerMessage Check) ''server''"

record message_decoder =
  md_failed :: bool
  md_frames :: frame_decoder
  md_kind :: string
  md_maxFrameLength :: "number option"

definition new_message_decoder :: "string \<Rightarrow> number option \<Rightarrow> (frame_error, message_decoder) result" where
  "new_message_decoder kind maxFrameLength =
     rbind (resolveMaxFrameLength maxFrameLength) (\<lambda>maxf.
       Inr \<lparr>md_failed = False, md_frames = new_decoder maxf, md_kind = kind, md_maxFrameLength = maxFrameLength\<rparr>)"

definition parse_frame :: "parser \<Rightarrow> message_decoder \<Rightarrow> byte list \<Rightarrow> (protocol_error, js) result" where
  "parse_frame parse md frame =
     (case decodeCbor (frame_options (md_maxFrameLength md)) frame of
        Inl e \<Rightarrow> Inl (''Invalid '' @ md_kind md @ '' protocol frame: '' @ boundedErrorMessage (cbor_message e))
      | Inr value \<Rightarrow> parse value)"

definition message_push :: "parser \<Rightarrow> message_decoder \<Rightarrow> byte list \<Rightarrow> ((protocol_error, js list) result \<times> message_decoder) option" where
  "message_push parse md chunk =
     (if md_failed md then Some (Inl (md_kind md @ '' message decoder has failed''), md)
      else Option.bind (push (md_frames md) chunk) (\<lambda>(r, frames).
        let md = md\<lparr>md_frames := frames\<rparr> in
        case r of
          Inl e \<Rightarrow> Some (Inl (''Invalid '' @ md_kind md @ '' protocol frame: '' @ boundedErrorMessage (frame_message e)), md\<lparr>md_failed := True\<rparr>)
        | Inr fs \<Rightarrow>
            (case for_each (\<lambda>f messages. rbind (parse_frame parse md f) (\<lambda>m. Inr (messages @ [m]))) fs [] of
               Inl e \<Rightarrow> Some (Inl e, md\<lparr>md_failed := True\<rparr>)
             | Inr messages \<Rightarrow> Some (Inr messages, md))))"

definition message_end :: "message_decoder \<Rightarrow> (protocol_error, unit) result \<times> message_decoder" where
  "message_end md =
     (if md_failed md then (Inl (md_kind md @ '' message decoder has failed''), md)
      else case end_stream (md_frames md) of
        (Inl e, frames) \<Rightarrow> (Inl (''Invalid '' @ md_kind md @ '' protocol framing: '' @ boundedErrorMessage (frame_message e)),
          md\<lparr>md_frames := frames, md_failed := True\<rparr>)
      | (Inr _, frames) \<Rightarrow> (Inr (), md\<lparr>md_frames := frames\<rparr>))"

definition client_push :: "(schema \<Rightarrow> js \<Rightarrow> bool) \<Rightarrow> message_decoder \<Rightarrow> byte list \<Rightarrow> ((protocol_error, js list) result \<times> message_decoder) option" where
  "client_push Check = message_push (parseClientMessage Check)"

definition server_push :: "(schema \<Rightarrow> js \<Rightarrow> bool) \<Rightarrow> message_decoder \<Rightarrow> byte list \<Rightarrow> ((protocol_error, js list) result \<times> message_decoder) option" where
  "server_push Check = message_push (parseServerMessage Check)"

text \<open>Every chunk of a connection is pushed; the answers in order.\<close>

fun message_stream :: "parser \<Rightarrow> message_decoder \<Rightarrow> byte list list \<Rightarrow> ((protocol_error, js list) result list \<times> message_decoder) option" where
  "message_stream parse md [] = Some ([], md)"
| "message_stream parse md (c # cs) =
     Option.bind (message_push parse md c) (\<lambda>(r, md). Option.bind (message_stream parse md cs) (\<lambda>(rs, md). Some (r # rs, md)))"

definition isSupportedProtocolVersion :: "js \<Rightarrow> bool" where
  "isSupportedProtocolVersion version = (version = JInt PROTOCOL_VERSION)"

section \<open>Copying strict JSON\<close>

definition copied :: "bool \<Rightarrow> js \<Rightarrow> js" where
  "copied omitUndefined v = (if omitUndefined then defined_part v else v)"

lemma for_each_items:
  assumes "\<And>x c. x \<in> set xs \<Longrightarrow> f x = Inr c \<longleftrightarrow> P x \<and> c = h x"
  shows "for_each (\<lambda>x result. rbind (f x) (\<lambda>c. Inr (result @ [c]))) xs acc = Inr ys \<longleftrightarrow> (\<forall>x \<in> set xs. P x) \<and> ys = acc @ map h xs"
  using assms by (induction xs arbitrary: acc) (auto simp: rbind_eq_Inr)

lemma copied_simps [simp]: "copied False v = v" "copied True v = defined_part v" "map (copied False) xs = xs"
  by (simp_all add: copied_def map_idI)

lemma for_each_properties:
  assumes "\<And>k v c. (k, v) \<in> set kvs \<Longrightarrow> f v = Inr c \<longleftrightarrow> P v \<and> c = h v"
    and "distinct (map fst acc @ map fst kvs)" "sorted_wrt (\<lambda>a b. \<not> key_before b a) (map fst acc @ map fst kvs)"
  shows "for_each (\<lambda>(k, v) result. if skip v then Inr result else rbind (f v) (\<lambda>c. Inr (define_property k c result))) kvs acc = Inr ys \<longleftrightarrow>
    (\<forall>(k, v) \<in> set kvs. skip v \<or> P v) \<and>
    ys = acc @ concat (map (\<lambda>(k, v). if skip v then [] else [(k, h v)]) kvs)"
  using assms
proof (induction kvs arbitrary: acc)
  case (Cons kv kvs)
  obtain k v where kv: "kv = (k, v)" by (cases kv)
  have order: "distinct (map fst acc @ map fst kvs)" "sorted_wrt (\<lambda>a b. \<not> key_before b a) (map fst acc @ map fst kvs)"
    using Cons.prems(2,3) by (auto simp: sorted_wrt_append)
  have ih: "distinct (map fst acc @ map fst kvs) \<Longrightarrow> sorted_wrt (\<lambda>a b. \<not> key_before b a) (map fst acc @ map fst kvs) \<Longrightarrow>
    for_each (\<lambda>(k, v) result. if skip v then Inr result else rbind (f v) (\<lambda>c. Inr (define_property k c result))) kvs acc = Inr ys \<longleftrightarrow>
      (\<forall>(k, v) \<in> set kvs. skip v \<or> P v) \<and>
      ys = acc @ concat (map (\<lambda>(k, v). if skip v then [] else [(k, h v)]) kvs)" for acc
    using Cons.IH [of acc] Cons.prems(1) by (meson list.set_intros(2))
  show ?case
  proof (cases "skip v")
    case True
    then show ?thesis using ih [OF order] kv by simp
  next
    case False
    have "\<not> key_before k k'" if "k' \<in> fst ` set acc" for k' using Cons.prems(3) that kv by (auto simp: sorted_wrt_append)
    note last = define_property_last [of acc k, OF this]
    have order': "distinct (map fst (acc @ [(k, h v)]) @ map fst kvs)"
      "sorted_wrt (\<lambda>a b. \<not> key_before b a) (map fst (acc @ [(k, h v)]) @ map fst kvs)"
      using Cons.prems(2,3) kv by simp_all
    have f: "f v = Inr c \<longleftrightarrow> P v \<and> c = h v" for c using Cons.prems(1) kv by (metis list.set_intros(1))
    show ?thesis
    proof (cases "P v")
      case True
      then have "f v = Inr (h v)" using f by blast
      then show ?thesis using ih [OF order'] kv False True last by simp
    next
      case no: False
      then obtain e where "f v = Inl e" using f by (cases "f v") auto
      then show ?thesis using kv False no by auto
    qed
  qed
qed auto

lemma copy_iff: "js_wf v \<Longrightarrow> copy om v = Inr w \<longleftrightarrow> isJsonValue (copied om v) \<and> w = copied om v"
proof (induction v arbitrary: w)
  case (JArr xs)
  have "copy om x = Inr c \<longleftrightarrow> isJsonValue (copied om x) \<and> c = copied om x" if "x \<in> set xs" for x c
    using JArr.IH [OF that] JArr.prems that by auto
  from for_each_items [where xs = xs and f = "copy om" and P = "\<lambda>x. isJsonValue (copied om x)" and h = "copied om" and acc = "[]", OF this]
  show ?case by (subst copy.simps) (auto simp: rbind_eq_Inr copied_def)
next
  case (JObj kvs)
  have ih: "copy om v = Inr c \<longleftrightarrow> isJsonValue (copied om v) \<and> c = copied om v" if "(k, v) \<in> set kvs" for k v c
    using JObj.IH [of "(k, v)" v c] JObj.prems that by auto
  have order: "distinct (map fst [] @ map fst kvs)" "sorted_wrt (\<lambda>a b. \<not> key_before b a) (map fst [] @ map fst kvs)"
    using JObj.prems by auto
  have keep: "concat (map (\<lambda>(k, v). if v = JUndef \<and> om then [] else [(k, copied om v)]) kvs) =
      (if om then concat (map (\<lambda>(k, v). if v = JUndef then [] else [(k, defined_part v)]) kvs) else kvs)"
    by (induction kvs) (auto simp: copied_def)
  have "(\<forall>(k, v) \<in> set kvs. (v = JUndef \<and> om) \<or> isJsonValue (copied om v)) \<longleftrightarrow> isJsonValue (copied om (JObj kvs))"
    by (auto simp: copied_def split: if_splits)
  then show ?case using keep
      for_each_properties [where kvs = kvs and f = "copy om" and P = "\<lambda>x. isJsonValue (copied om x)" and h = "copied om" and skip = "\<lambda>v. v = JUndef \<and> om", OF ih order]
    by (subst copy.simps) (auto simp: rbind_eq_Inr copied_def)
qed (auto simp: copy.simps copied_def split: if_splits)

section \<open>Message streams\<close>

lemma json_defined: "isJsonValue v \<Longrightarrow> defined_part v = v"
proof (induction v)
  case (JArr xs)
  then show ?case by (auto intro!: map_idI)
next
  case (JObj kvs)
  have "v \<noteq> JUndef \<and> defined_part v = v" if "(k, v) \<in> set kvs" for k v
    using JObj.IH [of "(k, v)" v] JObj.prems that by (cases v) auto
  then have "map (\<lambda>(k, v). (k, defined_part v)) (object_entries kvs) = kvs"
    by (subst no_undef_entries) (auto intro!: map_idI)
  then show ?case by (simp add: defined_entries)
qed auto

text \<open>A parser that answers its argument when the schema and the strict-JSON test pass.\<close>

definition validates :: "parser \<Rightarrow> bool" where
  "validates parse = (\<forall>v w. parse v = Inr w \<longrightarrow> w = v \<and> isJsonValue v)"

lemma parsers_validate: "validates (parseClientMessage Check)" "validates (parseServerMessage Check)"
  by (auto simp: validates_def parseClientMessage_def parseServerMessage_def split: if_splits)

lemma parse_encoded:
  assumes "validates parse" "js_wf m" "encodeProtocolMessage parse kind maxf m = Inr frame" "md_maxFrameLength md = maxf"
  shows "\<exists>p. encodeFrame p = Inr frame \<and> parse_frame parse md p = Inr m \<and>
    (\<forall>resolved. resolveOptions (frame_options maxf) = Inr resolved \<longrightarrow> length p \<le> maxByteLength resolved)"
proof -
  from assms(3) obtain v where "parse m = Inr v" by (auto simp: encodeProtocolMessage_def rbind_eq_Inr)
  then have m: "parse m = Inr m" "isJsonValue m" using assms(1) by (auto simp: validates_def)
  with assms(3) obtain p where p: "parse m = Inr m" "isJsonValue m" "encodeCbor (frame_options maxf) m = Inr p" "encodeFrame p = Inr frame"
    by (auto simp: encodeProtocolMessage_def Let_def split: sum.splits)
  have "decodeCbor (frame_options maxf) p = Inr m" using decode_encode [OF assms(2) p(3)] json_defined [OF p(2)] by simp
  then show ?thesis using p assms(4) by (auto simp: parse_frame_def encodeCbor_iff)
qed

lemma for_each_parse:
  "map (parse_frame parse md) fs = map Inr ms \<Longrightarrow>
   for_each (\<lambda>f messages. rbind (parse_frame parse md f) (\<lambda>m. Inr (messages @ [m]))) fs acc = Inr (acc @ ms)"
  by (induction fs arbitrary: acc ms) (auto simp: Cons_eq_map_conv)

lemma parse_frame_frames [simp]: "parse_frame parse (md\<lparr>md_frames := d\<rparr>) = parse_frame parse md"
  by (auto simp: parse_frame_def fun_eq_iff split: sum.splits)

lemma push_all_Cons:
  assumes "push_all d (c # cs) = Some (Inr fs, d')"
  obtains fs1 d1 fs2 where "push d c = Some (Inr fs1, d1)" "push_all d1 cs = Some (Inr fs2, d')" "fs = fs1 @ fs2"
proof -
  from assms obtain r d1 where 1: "push d c = Some (r, d1)" by (auto simp: bind_eq_Some_conv)
  with assms obtain fs1 where 2: "r = Inr fs1" by (cases r) auto
  from assms 1 2 obtain r2 d2 where 3: "push_all d1 cs = Some (r2, d2)" by (auto simp: bind_eq_Some_conv)
  with assms 1 2 obtain fs2 where "r2 = Inr fs2" by (cases r2) auto
  with assms 1 2 3 show thesis by (intro that) auto
qed

text \<open>When every frame of the stream parses, the messages come out as the frames do.\<close>

lemma message_stream_frames:
  "push_all (md_frames md) cs = Some (Inr fs, d) \<Longrightarrow> \<not> md_failed md \<Longrightarrow> map (parse_frame parse md) fs = map Inr ms \<Longrightarrow>
   \<exists>rs. message_stream parse md cs = Some (map Inr rs, md\<lparr>md_frames := d\<rparr>) \<and> concat rs = ms"
proof (induction cs arbitrary: md fs ms)
  case (Cons c cs)
  obtain fs1 d1 fs2 where 1: "push (md_frames md) c = Some (Inr fs1, d1)" "push_all d1 cs = Some (Inr fs2, d)" "fs = fs1 @ fs2"
    using push_all_Cons [OF Cons.prems(1)] .
  then obtain ms1 ms2 where ms: "ms = ms1 @ ms2" "map (parse_frame parse md) fs1 = map Inr ms1" "map (parse_frame parse md) fs2 = map Inr ms2"
    using Cons.prems(3) by (auto simp: append_eq_map_conv)
  have "message_push parse md c = Some (Inr ms1, md\<lparr>md_frames := d1\<rparr>)"
    using 1(1) Cons.prems(2) for_each_parse [OF ms(2), of "[]"] by (simp add: message_push_def Let_def)
  moreover obtain rs where "message_stream parse (md\<lparr>md_frames := d1\<rparr>) cs = Some (map Inr rs, md\<lparr>md_frames := d\<rparr>)" "concat rs = ms2"
    using Cons.IH [of "md\<lparr>md_frames := d1\<rparr>" fs2 ms2] 1(2) Cons.prems(2) ms(3) by auto
  ultimately show ?case using ms(1) by (intro exI [of _ "ms1 # rs"]) simp
qed auto

lemma resolve_frame_options:
  assumes "resolveMaxFrameLength maxf = Inr n"
  shows "\<exists>resolved. resolveOptions (frame_options maxf) = Inr resolved \<and> maxByteLength resolved = n \<and> n \<le> FRAME_MAX_UINT32"
  using assms
  by (auto simp: resolveMaxFrameLength_def resolveOptions_def resolveLimit_def frame_options_def given_def MAX_UINT32_def
      FRAME_MAX_UINT32_def max_safe_integer_def MAX_CONFIGURED_DEPTH_def DEFAULT_MAX_CBOR_CONTAINER_LENGTH_def
      DEFAULT_MAX_CBOR_DEPTH_def not_less split: option.splits number.splits if_splits)

lemma for_each_parsed:
  "(\<And>f m. parse_frame parse md f = Inr m \<Longrightarrow> P m) \<Longrightarrow> list_all P acc \<Longrightarrow>
   for_each (\<lambda>f messages. rbind (parse_frame parse md f) (\<lambda>m. Inr (messages @ [m]))) fs acc = Inr ms \<Longrightarrow> list_all P ms"
proof (induction fs arbitrary: acc)
  case (Cons f fs)
  then obtain m where "parse_frame parse md f = Inr m"
    "for_each (\<lambda>f messages. rbind (parse_frame parse md f) (\<lambda>m. Inr (messages @ [m]))) fs (acc @ [m]) = Inr ms"
    by (auto simp: rbind_eq_Inr)
  then show ?case using Cons.IH [of "acc @ [m]"] Cons.prems(1,2) by auto
qed simp

lemma message_push_cases:
  assumes "message_push parse md c = Some (r, md')" "\<And>v m. parse v = Inr m \<Longrightarrow> P m"
  shows "md_kind md' = md_kind md \<and> (md_failed md \<longrightarrow> r = Inl (md_kind md @ '' message decoder has failed'')) \<and>
    (md_failed md' \<longleftrightarrow> (\<exists>e. r = Inl e)) \<and> (\<forall>ms. r = Inr ms \<longrightarrow> list_all P ms)"
proof -
  have pf: "\<And>f m. parse_frame parse md f = Inr m \<Longrightarrow> P m"
    using assms(2) by (auto simp: parse_frame_def split: sum.splits)
  note parsed = for_each_parsed [where acc = "[]" and parse = parse and md = md and P = P, OF pf]
  show ?thesis
  proof (cases "md_failed md")
    case False
    with assms(1) obtain r1 d1 where 1: "push (md_frames md) c = Some (r1, d1)" by (auto simp: message_push_def bind_eq_Some_conv)
    show ?thesis
    proof (cases r1)
      case (Inr fs)
      define L where "L = for_each (\<lambda>f messages. rbind (parse_frame parse md f) (\<lambda>m. Inr (messages @ [m]))) fs []"
      have "(r, md') = (case L of Inl e \<Rightarrow> (Inl e, md\<lparr>md_frames := d1, md_failed := True\<rparr>) | Inr ms \<Rightarrow> (Inr ms, md\<lparr>md_frames := d1\<rparr>))"
        using assms(1) False 1 Inr by (auto simp: message_push_def Let_def L_def split: sum.splits)
      then show ?thesis using False parsed by (cases L) (auto simp: L_def)
    qed (use assms(1) False 1 in \<open>auto simp: message_push_def Let_def\<close>)
  qed (use assms(1) in \<open>auto simp: message_push_def\<close>)
qed

lemma stream_fails_closed:
  assumes "\<And>v m. parse v = Inr m \<Longrightarrow> P m" and "message_stream parse md cs = Some (rs, md')"
  shows "md_kind md' = md_kind md \<and> (\<forall>ms. Inr ms \<in> set rs \<longrightarrow> list_all P ms) \<and>
    (md_failed md \<longrightarrow> md_failed md' \<and> (\<forall>r \<in> set rs. r = Inl (md_kind md @ '' message decoder has failed''))) \<and>
    (\<forall>i j e. i < j \<longrightarrow> j < length rs \<longrightarrow> rs ! i = Inl e \<longrightarrow> rs ! j = Inl (md_kind md @ '' message decoder has failed'')) \<and>
    ((\<exists>e. Inl e \<in> set rs) \<longrightarrow> md_failed md')"
  using assms(2)
proof (induction cs arbitrary: md rs)
  case (Cons c cs)
  obtain r md1 rs1 where 1: "message_push parse md c = Some (r, md1)" "message_stream parse md1 cs = Some (rs1, md')" "rs = r # rs1"
    using Cons.prems by (auto simp: bind_eq_Some_conv)
  note p = message_push_cases [where P = P, OF 1(1) assms(1)] and ih = Cons.IH [OF 1(2)]
  have "rs ! j = Inl (md_kind md @ '' message decoder has failed'')" if "i < j" "j < length rs" "rs ! i = Inl e" for i j e
  proof (cases i)
    case 0
    then have "md_failed md1" using p that(3) 1(3) by simp
    then show ?thesis using ih p that 1(3) by (cases j) auto
  next
    case (Suc i')
    with that 1(3) have j: "j = Suc (j - 1)" "i' < j - 1" "j - 1 < length rs1" "rs1 ! i' = Inl e" by auto
    then have "rs1 ! (j - 1) = Inl (md_kind md1 @ '' message decoder has failed'')" using ih by blast
    then show ?thesis using p 1(3) nth_Cons_Suc [of r rs1 "j - 1"] j(1) by simp
  qed
  then show ?case using p ih 1(3) by auto
qed auto

section \<open>Properties of the wire codec\<close>

text \<open>C25. Messages survive the wire: messages a side encoded, sent one after the other and cut into any chunks, are
  delivered by a decoder of the same side and limit exactly as they were and in order, no push fails, and the
  stream ends without an error; whatever TypeBox's check accepts.\<close>

theorem wire_roundtrip:
  assumes "list_all js_wf ms" and "map (encodeServerMessage Check maxf) ms = map Inr frames"
    and "new_message_decoder ''server'' maxf = Inr md" and "concat cs = concat frames"
  shows "\<exists>rs md'. message_stream (parseServerMessage Check) md cs = Some (map Inr rs, md') \<and> concat rs = ms \<and>
    fst (message_end md') = Inr ()"
proof -
  let ?parse = "parseServerMessage Check"
  from assms(3) obtain n where n: "resolveMaxFrameLength maxf = Inr n"
      "md = \<lparr>md_failed = False, md_frames = new_decoder n, md_kind = ''server'', md_maxFrameLength = maxf\<rparr>"
    by (auto simp: new_message_decoder_def rbind_eq_Inr)
  obtain resolved where res: "resolveOptions (frame_options maxf) = Inr resolved" "maxByteLength resolved = n" "n \<le> FRAME_MAX_UINT32"
    using resolve_frame_options [OF n(1)] by blast
  have "\<exists>ps. map encodeFrame ps = map Inr frames \<and> map (parse_frame ?parse md) ps = map Inr ms \<and> list_all (\<lambda>p. length p \<le> n) ps"
    using assms(1,2)
  proof (induction ms arbitrary: frames)
    case (Cons m ms)
    then obtain f fs where f: "frames = f # fs" "encodeServerMessage Check maxf m = Inr f" "map (encodeServerMessage Check maxf) ms = map Inr fs"
      by (auto simp: Cons_eq_map_conv)
    then obtain ps where "map encodeFrame ps = map Inr fs" "map (parse_frame ?parse md) ps = map Inr ms" "list_all (\<lambda>p. length p \<le> n) ps"
      using Cons.IH [of fs] Cons.prems(1) by auto
    moreover obtain p where "encodeFrame p = Inr f" "parse_frame ?parse md p = Inr m" "length p \<le> n"
      using parse_encoded [OF parsers_validate(2) _ f(2) [unfolded encodeServerMessage_def], of md] Cons.prems(1) n(2) res by auto
    ultimately show ?case using f(1) by (intro exI [of _ "p # ps"]) simp
  qed simp
  then obtain ps where ps: "map encodeFrame ps = map Inr frames" "map (parse_frame ?parse md) ps = map Inr ms" "list_all (\<lambda>p. length p \<le> n) ps"
    by blast
  obtain d where d: "push_all (new_decoder n) cs = Some (Inr ps, d)" "fst (end_stream d) = Inr ()"
    using frames_delivered [OF ps(3) res(3) ps(1) assms(4)] by blast
  from message_stream_frames [of md cs ps d, OF _ _ ps(2)] d n(2) show ?thesis
    by (force simp: message_end_def split: prod.splits)
qed

theorem wire_roundtrip_witness:
  "\<exists>f md rs md'. encodeServerMessage (\<lambda>_ _. True) None (JArr [JInt 1]) = Inr f \<and>
     message_stream (parseServerMessage (\<lambda>_ _. True)) md [f] = Some (map Inr rs, md') \<and> concat rs = [JArr [JInt 1]]"
proof -
  have md: "\<exists>md. new_message_decoder ''server'' None = Inr md"
    by (simp add: new_message_decoder_def resolveMaxFrameLength_def max_safe_integer_def DEFAULT_MAX_FRAME_LENGTH_def FRAME_MAX_UINT32_def)
  then obtain n where n: "resolveMaxFrameLength None = Inr n" "1000 \<le> n"
    by (auto simp: resolveMaxFrameLength_def max_safe_integer_def DEFAULT_MAX_FRAME_LENGTH_def FRAME_MAX_UINT32_def)
  obtain md where md: "new_message_decoder ''server'' None = Inr md" using md by blast
  obtain resolved where r: "resolveOptions (frame_options None) = Inr resolved" "maxByteLength resolved = n"
      "maxContainerLength resolved = 1000000" "maxDepth resolved = 64"
    using resolve_frame_options [OF n(1)]
    by (auto simp: resolveOptions_def rbind_eq_Inr resolveLimit_def frame_options_def given_def max_safe_integer_def MAX_UINT32_def
        MAX_CONFIGURED_DEPTH_def DEFAULT_MAX_CBOR_CONTAINER_LENGTH_def DEFAULT_MAX_CBOR_DEPTH_def split: if_splits)
  have "encodable resolved 0 (JArr [JInt 1])" using r by (simp add: encodable.simps safe_integer_def)
  then have "encodeCbor (frame_options None) (JArr [JInt 1]) = Inr (cbor (JArr [JInt 1]))"
    using n r by (simp add: encodeCbor_iff argument_length)
  then have "\<exists>f. encodeServerMessage (\<lambda>_ _. True) None (JArr [JInt 1]) = Inr f"
    by (simp add: encodeServerMessage_def encodeProtocolMessage_def parseServerMessage_def encodeFrame_def argument_length FRAME_MAX_UINT32_def)
  then obtain f where f: "encodeServerMessage (\<lambda>_ _. True) None (JArr [JInt 1]) = Inr f" by blast
  from wire_roundtrip [of "[JArr [JInt 1]]" "\<lambda>_ _. True" None "[f]" md "[f]"] f md show ?thesis by auto
qed

text \<open>C35. The decoder fails closed and delivers only valid messages: every message it delivers passed the schema of
  its side and the strict-JSON test, and after the first chunk it refused every later chunk is refused, delivers
  nothing, and the end of the stream is an error.\<close>

theorem wire_fails_closed:
  assumes "message_stream (parseClientMessage Check) md cs = Some (rs, md')"
  shows "(\<forall>ms m. Inr ms \<in> set rs \<and> m \<in> set ms \<longrightarrow> Check ClientMessageSchema m \<and> isJsonValue m) \<and>
    (\<forall>i j e. i < j \<and> j < length rs \<and> rs ! i = Inl e \<longrightarrow> rs ! j = Inl (md_kind md @ '' message decoder has failed'')) \<and>
    ((\<exists>e. Inl e \<in> set rs) \<longrightarrow> fst (message_end md') = Inl (md_kind md @ '' message decoder has failed''))"
proof -
  have p: "Check ClientMessageSchema m \<and> isJsonValue m" if "parseClientMessage Check v = Inr m" for v m
    using that by (auto simp: parseClientMessage_def split: if_splits)
  note h = stream_fails_closed [where P = "\<lambda>m. Check ClientMessageSchema m \<and> isJsonValue m", OF p assms]
  then have "md_failed md' \<Longrightarrow> fst (message_end md') = Inl (md_kind md @ '' message decoder has failed'')"
    by (simp add: message_end_def)
  with h show ?thesis by (auto simp: list_all_iff)
qed

theorem wire_fails_closed_witness:
  "\<exists>md rs md'. new_message_decoder ''client'' (Some (Fin 0)) = Inr md \<and>
     message_stream (parseClientMessage (\<lambda>_ _. True)) md [[0, 0, 0, 1, 7], []] = Some (rs, md') \<and>
     rs ! 1 = Inl ''client message decoder has failed''"
proof -
  define md where "md = \<lparr>md_failed = False, md_frames = new_decoder 0, md_kind = ''client'', md_maxFrameLength = Some (Fin 0)\<rparr>"
  have md: "new_message_decoder ''client'' (Some (Fin 0)) = Inr md"
    by (simp add: new_message_decoder_def resolveMaxFrameLength_def max_safe_integer_def md_def)
  obtain e d where "push (new_decoder 0) [0, 0, 0, 1, 7] = Some (Inl e, d)"
    by (simp add: push_def new_decoder_def push_loop.simps take_header_def FRAME_HEADER_LENGTH_def array_set_def uint32_of_def)
  then have "\<exists>x y md'. message_stream (parseClientMessage (\<lambda>_ _. True)) md [[0, 0, 0, 1, 7], []] = Some ([Inl x, y], md')"
    by (simp add: message_push_def md_def Let_def)
  then obtain x y md' where h: "message_stream (parseClientMessage (\<lambda>_ _. True)) md [[0, 0, 0, 1, 7], []] = Some ([Inl x, y], md')" by blast
  have "[Inl x, y] ! 1 = Inl (md_kind md @ '' message decoder has failed'')"
    using conjunct1 [OF conjunct2 [OF wire_fails_closed [OF h]]] by (metis One_nat_def length_Cons lessI list.size(3) nth_Cons_0 zero_less_one)
  then show ?thesis using md h by (auto simp: md_def)
qed

text \<open>The strict-JSON copy agrees with the strict-JSON test: a value is copied exactly when it passes the test, and
  the copy equals it; with undefined properties omitted, exactly when it passes without them, and the copy is that.\<close>

theorem copyJson_agrees:
  assumes "js_wf v"
  shows "(copyJson False v = Inr w \<longleftrightarrow> isJsonValue v \<and> w = v) \<and>
    (copyJson True v = Inr w \<longleftrightarrow> isJsonValue (defined_part v) \<and> w = defined_part v)"
  using copy_iff [OF assms] by (simp add: copyJson_def)

theorem copyJson_agrees_witness:
  "copyJson True (JObj [(ascii ''a'', JUndef), (ascii ''b'', JInt 1)]) = Inr (JObj [(ascii ''b'', JInt 1)])"
  using copyJson_agrees [of "JObj [(ascii ''a'', JUndef), (ascii ''b'', JInt 1)]" "JObj [(ascii ''b'', JInt 1)]"]
  by (simp add: ascii_def key_before_def array_index_def)

end
