(* ===== verification/Batch_Plan.thy ===== *)
theory Batch_Plan
  imports Ledger_Store
begin

text \<open>
  The batch coordinator's data and planning: execution/coordinator-types.ts, coordinator-plan.ts and
  coordinator-codec.ts. A batch is the list of tool calls of one assistant message; its durable record
  holds the manifest, the answers to the prepares, the decision, which calls were released and the
  outcomes. SHA-256 of the canonical JSON is the parameter \<open>sha\<close>, the text of numbers in it \<open>num_text\<close>.
\<close>

section \<open>Data\<close>

record batch_call_plan =
  bc_executionId :: string
  bc_executor :: string
  bc_name :: string
  bc_args :: store_value
  bc_sequential :: bool

record batch_plan =
  bp_batchId :: string
  bp_scope :: string
  bp_workspace :: string
  bp_generation :: number
  bp_admittedAt :: number
  bp_leaseUntil :: number
  bp_calls :: "batch_call_plan list"

record manifest_call = batch_call_plan +
  mc_sourceIndex :: nat
  mc_dependsOn :: "nat list"
  mc_wave :: nat
  mc_requestDigest :: string

record batch_manifest =
  bm_batchId :: string
  bm_scope :: string
  bm_workspace :: string
  bm_generation :: number
  bm_admittedAt :: number
  bm_leaseUntil :: number
  bm_issuer :: string
  bm_manifestDigest :: string
  bm_calls :: "manifest_call list"

record prepare_request =
  pq_ref :: execution_ref
  pq_batchId :: string
  pq_manifestDigest :: string
  pq_scope :: string
  pq_workspace :: string
  pq_admittedAt :: number
  pq_leaseUntil :: number
  pq_requestDigest :: string
  pq_name :: string
  pq_args :: store_value
  pq_authorizedDigest :: "string option"

datatype prepare_reply =
    ReplyPrepared string
  | ReplyAwaitingConsent string
  | ReplyBlocked store_value
  | ReplyBatchAbort
  | ReplySettled execution_outcome

datatype settle_reply = SettledReply execution_outcome | UnknownExecution

datatype consent_answer = Approved | Denied | Expired

datatype consent_gate = GateRaw | GateFrozen

record consent_request =
  cq_ref :: execution_ref
  cq_gate :: consent_gate
  cq_digest :: string
  cq_name :: string
  cq_leaseUntil :: number

record consent_record =
  cr_gate :: consent_gate
  cr_digest :: string
  cr_answer :: consent_answer

datatype batch_decision = RELEASE | ABORT

datatype not_run_cause = CauseBatchAbort | CauseInterrupted

text \<open>The reason of an interrupted call is the name of the ledger's reason or \<open>unknown_execution\<close>.\<close>

datatype call_outcome =
    CallResult store_value
  | CallBlocked store_value
  | CallNotRun not_run_cause
  | CallInterrupted string bool

text \<open>
  The record. Its manifest is only ever compared by digest and written back as it was read, so it is
  kept as the stored value.
\<close>

record batch_record =
  br_manifest :: store_value
  br_prepares :: "prepare_reply option list"
  br_decision :: "batch_decision option"
  br_released :: "bool list"
  br_outcomes :: "call_outcome option list"
  br_consents :: "consent_record option list option"

record batch_result =
  bres_decision :: batch_decision
  bres_outcomes :: "call_outcome list"

section \<open>Planning\<close>

text \<open>\<open>Math.max(-1, ...waves) + 1\<close> over the waves of the dependencies that are there.\<close>

definition wave_after :: "(nat list \<times> nat) list \<Rightarrow> nat list \<Rightarrow> nat" where
  "wave_after result dependsOn = foldr (\<lambda>d w. max w (case nth_opt result d of Some (_, v) \<Rightarrow> v + 1 | None \<Rightarrow> 0)) dependsOn 0"

fun deps_loop :: "bool list \<Rightarrow> nat option \<Rightarrow> nat list \<Rightarrow> (nat list \<times> nat) list \<Rightarrow> (nat list \<times> nat) list" where
  "deps_loop [] previousSequential parallelSince result = result"
| "deps_loop (s # calls) previousSequential parallelSince result =
     (let index = length result;
          anchor = (case previousSequential of None \<Rightarrow> [] | Some p \<Rightarrow> [p]);
          dependsOn = (if s then anchor @ parallelSince else anchor);
          result' = result @ [(dependsOn, wave_after result dependsOn)]
      in if s then deps_loop calls (Some index) [] result'
         else deps_loop calls previousSequential (parallelSince @ [index]) result')"

definition batchDependencies :: "bool list \<Rightarrow> (nat list \<times> nat) list" where
  "batchDependencies sequentials = deps_loop sequentials None [] []"

definition canonicalDigest :: "(string \<Rightarrow> string) \<Rightarrow> (number \<Rightarrow> string) \<Rightarrow> store_value \<Rightarrow> string" where
  "canonicalDigest sha num_text value = sha (canonical_json num_text value)"

definition call_value :: "manifest_call \<Rightarrow> store_value" where
  "call_value c = SObj [(''executionId'', SStr (bc_executionId c)), (''executor'', SStr (bc_executor c)), (''name'', SStr (bc_name c)),
     (''args'', bc_args c), (''sequential'', SBool (bc_sequential c)), (''sourceIndex'', SNum (num_of_nat (mc_sourceIndex c))),
     (''dependsOn'', SList (map (\<lambda>d. SNum (num_of_nat d)) (mc_dependsOn c))), (''wave'', SNum (num_of_nat (mc_wave c))),
     (''requestDigest'', SStr (mc_requestDigest c))]"

definition header_fields :: "string \<Rightarrow> batch_plan \<Rightarrow> manifest_call list \<Rightarrow> store_value obj" where
  "header_fields issuer plan calls =
     [(''batchId'', SStr (bp_batchId plan)), (''scope'', SStr (bp_scope plan)), (''workspace'', SStr (bp_workspace plan)),
      (''generation'', SNum (bp_generation plan)), (''admittedAt'', SNum (bp_admittedAt plan)), (''leaseUntil'', SNum (bp_leaseUntil plan)),
      (''issuer'', SStr issuer), (''calls'', SList (map call_value calls))]"

definition manifest_value :: "batch_manifest \<Rightarrow> store_value" where
  "manifest_value m = SObj [(''batchId'', SStr (bm_batchId m)), (''scope'', SStr (bm_scope m)), (''workspace'', SStr (bm_workspace m)),
      (''generation'', SNum (bm_generation m)), (''admittedAt'', SNum (bm_admittedAt m)), (''leaseUntil'', SNum (bm_leaseUntil m)),
      (''issuer'', SStr (bm_issuer m)), (''calls'', SList (map call_value (bm_calls m))), (''manifestDigest'', SStr (bm_manifestDigest m))]"

definition manifest_call_of :: "(store_value \<Rightarrow> string) \<Rightarrow> (nat list \<times> nat) list \<Rightarrow> nat \<Rightarrow> batch_call_plan \<Rightarrow> manifest_call" where
  "manifest_call_of digest dependencies sourceIndex call =
     (let placement = (case nth_opt dependencies sourceIndex of Some p \<Rightarrow> p | None \<Rightarrow> ([], 0))
      in \<lparr>bc_executionId = bc_executionId call, bc_executor = bc_executor call, bc_name = bc_name call, bc_args = bc_args call,
          bc_sequential = bc_sequential call, mc_sourceIndex = sourceIndex, mc_dependsOn = fst placement, mc_wave = snd placement,
          mc_requestDigest = digest (SObj [(''name'', SStr (bc_name call)), (''args'', bc_args call)])\<rparr>)"

definition buildBatchManifest :: "(store_value \<Rightarrow> string) \<Rightarrow> string \<Rightarrow> batch_plan \<Rightarrow> batch_manifest" where
  "buildBatchManifest digest issuer plan =
     (let dependencies = batchDependencies (map bc_sequential (bp_calls plan));
          calls = map (\<lambda>(i, call). manifest_call_of digest dependencies i call) (enumerate 0 (bp_calls plan))
      in \<lparr>bm_batchId = bp_batchId plan, bm_scope = bp_scope plan, bm_workspace = bp_workspace plan, bm_generation = bp_generation plan,
          bm_admittedAt = bp_admittedAt plan, bm_leaseUntil = bp_leaseUntil plan, bm_issuer = issuer,
          bm_manifestDigest = digest (SObj (header_fields issuer plan calls)), bm_calls = calls\<rparr>)"

fun abortCause :: "prepare_reply \<Rightarrow> not_run_cause option" where
  "abortCause ReplyBatchAbort = Some CauseBatchAbort"
| "abortCause (ReplySettled (OutResult _ _)) = None"
| "abortCause (ReplySettled _) = Some CauseInterrupted"
| "abortCause _ = None"

text \<open>
  \<open>visit\<close> of \<open>finished\<close>; its memo only saves repeated visits. Dependencies point to earlier calls, so the
  depth of the recursion is at most the number of calls, which the fuel bounds. A missing entry of
  \<open>outcomes\<close> is undefined, which is not null.
\<close>

fun every_opt :: "('a \<Rightarrow> bool option) \<Rightarrow> 'a list \<Rightarrow> bool option" where
  "every_opt f [] = Some True"
| "every_opt f (x # xs) = (case f x of None \<Rightarrow> None | Some False \<Rightarrow> Some False | Some True \<Rightarrow> every_opt f xs)"

fun visit :: "nat \<Rightarrow> manifest_call list \<Rightarrow> 'o option list \<Rightarrow> nat \<Rightarrow> bool option" where
  "visit 0 calls outcomes k = None"
| "visit (Suc fuel) calls outcomes k =
     (if nth_opt outcomes k = Some None then Some False
      else every_opt (visit fuel calls outcomes) (case nth_opt calls k of Some c \<Rightarrow> mc_dependsOn c | None \<Rightarrow> []))"

definition finished :: "manifest_call list \<Rightarrow> 'o option list \<Rightarrow> nat \<Rightarrow> bool" where
  "finished calls outcomes index = (visit (Suc (length calls)) calls outcomes index = Some True)"

fun settledOutcome :: "settle_reply \<Rightarrow> call_outcome" where
  "settledOutcome UnknownExecution = CallInterrupted ''unknown_execution'' True"
| "settledOutcome (SettledReply (OutResult v _)) = CallResult v"
| "settledOutcome (SettledReply (OutBlocked v _)) = CallBlocked v"
| "settledOutcome (SettledReply (OutEnded r _ u)) = CallInterrupted (reason_name r) u"

text \<open>\<open>placeholder\<close> is \<open>TOOL_RESULT_PLACEHOLDER\<close> of the ai package.\<close>

fun interruptedReplayText :: "string \<Rightarrow> call_outcome \<Rightarrow> string option" where
  "interruptedReplayText placeholder (CallInterrupted _ _) = Some placeholder"
| "interruptedReplayText placeholder (CallNotRun CauseInterrupted) = Some placeholder"
| "interruptedReplayText placeholder _ = None"

section \<open>The record codec\<close>

definition strings_ok :: "store_value option \<Rightarrow> string list \<Rightarrow> bool" where
  "strings_ok v keys = list_all (\<lambda>k. is_str (fld v k)) keys"

definition fin_numbers_ok :: "store_value option \<Rightarrow> string list \<Rightarrow> bool" where
  "fin_numbers_ok v keys = list_all (\<lambda>k. is_fin_num (fld v k)) keys"

text \<open>\<open>String(value.reason)\<close>: an array of one element prints as that element, and no other value prints as one of the names.\<close>

fun string_of_reason :: "store_value option \<Rightarrow> string" where
  "string_of_reason (Some (SStr s)) = s"
| "string_of_reason (Some (SList [x])) = string_of_reason (Some x)"
| "string_of_reason _ = []"

definition terminal_ok :: "store_value option \<Rightarrow> bool" where
  "terminal_ok v \<longleftrightarrow> is_store_object v \<and> is_bool (fld v ''hooksRan'') \<and> is_bool (fld v ''uncertain'') \<and>
     (if fld v ''reason'' = Some (SStr ''result'') \<or> fld v ''reason'' = Some (SStr ''blocked'') then fld v ''value'' \<noteq> None
      else string_of_reason (fld v ''reason'') \<in> {''cancelled'', ''lease_expired'', ''hand_restarted'', ''uncertain''})"

definition manifest_call_ok :: "store_value option \<Rightarrow> bool" where
  "manifest_call_ok v \<longleftrightarrow> is_store_object v \<and> strings_ok v [''executionId'', ''executor'', ''name'', ''requestDigest''] \<and>
     fin_numbers_ok v [''sourceIndex'', ''wave''] \<and> is_bool (fld v ''sequential'') \<and> fld v ''args'' \<noteq> None \<and>
     is_list (fld v ''dependsOn'') \<and> list_all (\<lambda>d. is_num (Some d)) (get_list (fld v ''dependsOn''))"

definition manifest_ok :: "store_value option \<Rightarrow> bool" where
  "manifest_ok v \<longleftrightarrow> is_store_object v \<and> strings_ok v [''batchId'', ''scope'', ''workspace'', ''issuer'', ''manifestDigest''] \<and>
     fin_numbers_ok v [''generation'', ''admittedAt'', ''leaseUntil''] \<and> is_list (fld v ''calls'') \<and>
     list_all (\<lambda>c. manifest_call_ok (Some c)) (get_list (fld v ''calls''))"

definition prepare_reply_ok :: "store_value option \<Rightarrow> bool" where
  "prepare_reply_ok v \<longleftrightarrow> is_store_object v \<and>
     (let kind = fld v ''kind'' in
      if kind = Some (SStr ''prepared'') \<or> kind = Some (SStr ''prepared_awaiting_consent'') then is_str (fld v ''frozenDigest'')
      else if kind = Some (SStr ''blocked'') then fld v ''result'' \<noteq> None
      else if kind = Some (SStr ''batch_abort'') then True
      else kind = Some (SStr ''settled'') \<and> terminal_ok (fld v ''outcome''))"

definition call_outcome_ok :: "store_value option \<Rightarrow> bool" where
  "call_outcome_ok v \<longleftrightarrow> is_store_object v \<and>
     (let kind = fld v ''kind'' in
      if kind = Some (SStr ''result'') then fld v ''value'' \<noteq> None
      else if kind = Some (SStr ''blocked'') then fld v ''result'' \<noteq> None
      else if kind = Some (SStr ''not_run'') then
        fld v ''cause'' = Some (SStr ''batch_abort'') \<or> fld v ''cause'' = Some (SStr ''interrupted_preparation'')
      else kind = Some (SStr ''interrupted'') \<and> is_str (fld v ''reason'') \<and> is_bool (fld v ''uncertain''))"

definition consent_record_ok :: "store_value option \<Rightarrow> bool" where
  "consent_record_ok v \<longleftrightarrow> is_store_object v \<and>
     (fld v ''gate'' = Some (SStr ''raw'') \<or> fld v ''gate'' = Some (SStr ''frozen'')) \<and> is_str (fld v ''digest'') \<and>
     (fld v ''answer'' = Some (SStr ''approved'') \<or> fld v ''answer'' = Some (SStr ''denied'') \<or> fld v ''answer'' = Some (SStr ''expired''))"

text \<open>\<open>Array.isArray(xs) && xs.length === size && xs.every((x) => x === null || check(x))\<close>.\<close>

definition nullable_list_ok :: "(store_value option \<Rightarrow> bool) \<Rightarrow> nat \<Rightarrow> store_value option \<Rightarrow> bool" where
  "nullable_list_ok check n v \<longleftrightarrow> is_list v \<and> length (get_list v) = n \<and> list_all (\<lambda>x. x = SNull \<or> check (Some x)) (get_list v)"

definition batch_record_ok :: "store_value option \<Rightarrow> bool" where
  "batch_record_ok v \<longleftrightarrow> is_store_object v \<and> manifest_ok (fld v ''manifest'') \<and>
     (let n = length (get_list (fld (fld v ''manifest'') ''calls'')) in
      (fld v ''consents'' = None \<or> nullable_list_ok consent_record_ok n (fld v ''consents'')) \<and>
      (fld v ''decision'' = Some SNull \<or> fld v ''decision'' = Some (SStr ''RELEASE'') \<or> fld v ''decision'' = Some (SStr ''ABORT'')) \<and>
      nullable_list_ok prepare_reply_ok n (fld v ''prepares'') \<and>
      is_list (fld v ''released'') \<and> length (get_list (fld v ''released'')) = n \<and>
      list_all (\<lambda>x. is_bool (Some x)) (get_list (fld v ''released'')) \<and>
      nullable_list_ok call_outcome_ok n (fld v ''outcomes''))"

text \<open>The stored forms and the typed views.\<close>

fun reply_value :: "prepare_reply \<Rightarrow> store_value" where
  "reply_value (ReplyPrepared d) = SObj [(''kind'', SStr ''prepared''), (''frozenDigest'', SStr d)]"
| "reply_value (ReplyAwaitingConsent d) = SObj [(''kind'', SStr ''prepared_awaiting_consent''), (''frozenDigest'', SStr d)]"
| "reply_value (ReplyBlocked v) = SObj [(''kind'', SStr ''blocked''), (''result'', v)]"
| "reply_value ReplyBatchAbort = SObj [(''kind'', SStr ''batch_abort'')]"
| "reply_value (ReplySettled out) = SObj [(''kind'', SStr ''settled''), (''outcome'', outcome_value out)]"

fun cause_name :: "not_run_cause \<Rightarrow> string" where
  "cause_name CauseBatchAbort = ''batch_abort''"
| "cause_name CauseInterrupted = ''interrupted_preparation''"

fun call_outcome_value :: "call_outcome \<Rightarrow> store_value" where
  "call_outcome_value (CallResult v) = SObj [(''kind'', SStr ''result''), (''value'', v)]"
| "call_outcome_value (CallBlocked v) = SObj [(''kind'', SStr ''blocked''), (''result'', v)]"
| "call_outcome_value (CallNotRun c) = SObj [(''kind'', SStr ''not_run''), (''cause'', SStr (cause_name c))]"
| "call_outcome_value (CallInterrupted r u) = SObj [(''kind'', SStr ''interrupted''), (''reason'', SStr r), (''uncertain'', SBool u)]"

fun answer_name :: "consent_answer \<Rightarrow> string" where
  "answer_name Approved = ''approved''"
| "answer_name Denied = ''denied''"
| "answer_name Expired = ''expired''"

fun gate_name :: "consent_gate \<Rightarrow> string" where
  "gate_name GateRaw = ''raw''"
| "gate_name GateFrozen = ''frozen''"

definition consent_value :: "consent_record \<Rightarrow> store_value" where
  "consent_value c = SObj [(''gate'', SStr (gate_name (cr_gate c))), (''digest'', SStr (cr_digest c)), (''answer'', SStr (answer_name (cr_answer c)))]"

definition null_or :: "('a \<Rightarrow> store_value) \<Rightarrow> 'a option \<Rightarrow> store_value" where
  "null_or f x = (case x of None \<Rightarrow> SNull | Some a \<Rightarrow> f a)"

fun decision_value :: "batch_decision option \<Rightarrow> store_value" where
  "decision_value None = SNull"
| "decision_value (Some RELEASE) = SStr ''RELEASE''"
| "decision_value (Some ABORT) = SStr ''ABORT''"

definition batch_value :: "batch_record \<Rightarrow> store_value" where
  "batch_value r = SObj ([(''manifest'', br_manifest r), (''prepares'', SList (map (null_or reply_value) (br_prepares r))),
     (''decision'', decision_value (br_decision r)), (''released'', SList (map SBool (br_released r))),
     (''outcomes'', SList (map (null_or call_outcome_value) (br_outcomes r)))] @
     (case br_consents r of None \<Rightarrow> [] | Some cs \<Rightarrow> [(''consents'', SList (map (null_or consent_value) cs))]))"

definition some_value :: "store_value option \<Rightarrow> store_value" where
  "some_value v = (case v of Some a \<Rightarrow> a | None \<Rightarrow> SNull)"

definition the_reply :: "store_value \<Rightarrow> prepare_reply" where
  "the_reply v =
     (let kind = get_str (fld (Some v) ''kind''); digest = get_str (fld (Some v) ''frozenDigest'') in
      if kind = ''prepared'' then ReplyPrepared digest
      else if kind = ''prepared_awaiting_consent'' then ReplyAwaitingConsent digest
      else if kind = ''blocked'' then ReplyBlocked (some_value (fld (Some v) ''result''))
      else if kind = ''batch_abort'' then ReplyBatchAbort
      else ReplySettled (the_outcome (fld (Some v) ''outcome'')))"

definition the_call_outcome :: "store_value \<Rightarrow> call_outcome" where
  "the_call_outcome v =
     (let kind = get_str (fld (Some v) ''kind'') in
      if kind = ''result'' then CallResult (some_value (fld (Some v) ''value''))
      else if kind = ''blocked'' then CallBlocked (some_value (fld (Some v) ''result''))
      else if kind = ''not_run'' then
        CallNotRun (if get_str (fld (Some v) ''cause'') = ''batch_abort'' then CauseBatchAbort else CauseInterrupted)
      else CallInterrupted (get_str (fld (Some v) ''reason'')) (get_bool (fld (Some v) ''uncertain'')))"

definition the_consent :: "store_value \<Rightarrow> consent_record" where
  "the_consent v =
     (let answer = get_str (fld (Some v) ''answer'') in
      \<lparr>cr_gate = (if get_str (fld (Some v) ''gate'') = ''raw'' then GateRaw else GateFrozen), cr_digest = get_str (fld (Some v) ''digest''),
       cr_answer = (if answer = ''approved'' then Approved else if answer = ''denied'' then Denied else Expired)\<rparr>)"

definition the_nullable :: "(store_value \<Rightarrow> 'a) \<Rightarrow> store_value \<Rightarrow> 'a option" where
  "the_nullable f v = (if v = SNull then None else Some (f v))"

definition the_batch_record :: "store_value \<Rightarrow> batch_record" where
  "the_batch_record v =
     \<lparr>br_manifest = some_value (fld (Some v) ''manifest''),
      br_prepares = map (the_nullable the_reply) (get_list (fld (Some v) ''prepares'')),
      br_decision = (if fld (Some v) ''decision'' = Some SNull then None
        else Some (if fld (Some v) ''decision'' = Some (SStr ''RELEASE'') then RELEASE else ABORT)),
      br_released = map (\<lambda>x. get_bool (Some x)) (get_list (fld (Some v) ''released'')),
      br_outcomes = map (the_nullable the_call_outcome) (get_list (fld (Some v) ''outcomes'')),
      br_consents = (if fld (Some v) ''consents'' = None then None
        else Some (map (the_nullable the_consent) (get_list (fld (Some v) ''consents''))))\<rparr>"

definition decodeBatchRecord :: "store_value \<Rightarrow> (failure, batch_record) result" where
  "decodeBatchRecord value =
     (if batch_record_ok (Some value) then Inr (the_batch_record value) else Inl (ErrorMessage ''invalid durable batch record''))"

section \<open>Round trip of the codec\<close>

lemma reply_roundtrip [simp]: "prepare_reply_ok (Some (reply_value p))" "the_reply (reply_value p) = p" "reply_value p \<noteq> SNull"
proof -
  have "terminal_ok (Some (outcome_value out))" for out
    by (cases out; cases "case out of OutEnded r _ _ \<Rightarrow> r | _ \<Rightarrow> Cancelled") (auto simp: terminal_ok_def)
  then show "prepare_reply_ok (Some (reply_value p))" by (cases p) (simp_all add: prepare_reply_ok_def)
  show "the_reply (reply_value p) = p" by (cases p) (simp_all add: the_reply_def some_value_def)
  show "reply_value p \<noteq> SNull" by (cases p) simp_all
qed

lemma call_outcome_roundtrip [simp]:
  "call_outcome_ok (Some (call_outcome_value c))" "the_call_outcome (call_outcome_value c) = c" "call_outcome_value c \<noteq> SNull"
  by (cases c; cases "case c of CallNotRun x \<Rightarrow> x | _ \<Rightarrow> CauseBatchAbort";
      simp add: call_outcome_ok_def the_call_outcome_def some_value_def)+

lemma consent_roundtrip [simp]:
  "consent_record_ok (Some (consent_value c))" "the_consent (consent_value c) = c" "consent_value c \<noteq> SNull"
  by (cases c; cases "cr_gate c"; cases "cr_answer c"; simp add: consent_record_ok_def the_consent_def consent_value_def)+

lemma nullable_list_roundtrip:
  assumes "\<And>x. check (Some (f x))" "\<And>x. g (f x) = x" "\<And>x. f x \<noteq> SNull"
  shows "nullable_list_ok check (length xs) (Some (SList (map (null_or f) xs)))" "map (the_nullable g \<circ> null_or f) xs = xs"
  using assms by (auto simp: nullable_list_ok_def list_all_iff null_or_def the_nullable_def split: option.splits intro!: map_idI)

definition plan_fin :: "batch_plan \<Rightarrow> bool" where
  "plan_fin plan = (is_finite (bp_generation plan) \<and> is_finite (bp_admittedAt plan) \<and> is_finite (bp_leaseUntil plan))"

text \<open>A record of a batch of \<open>n\<close> calls.\<close>

definition record_wf :: "batch_record \<Rightarrow> bool" where
  "record_wf r \<longleftrightarrow> manifest_ok (Some (br_manifest r)) \<and>
     (let n = length (get_list (fld (Some (br_manifest r)) ''calls'')) in
      length (br_prepares r) = n \<and> length (br_released r) = n \<and> length (br_outcomes r) = n \<and>
      (\<forall>cs. br_consents r = Some cs \<longrightarrow> length cs = n))"

lemma batch_value_fields [simp]:
  "fld (Some (batch_value r)) ''manifest'' = Some (br_manifest r)"
  "fld (Some (batch_value r)) ''prepares'' = Some (SList (map (null_or reply_value) (br_prepares r)))"
  "fld (Some (batch_value r)) ''decision'' = Some (decision_value (br_decision r))"
  "fld (Some (batch_value r)) ''released'' = Some (SList (map SBool (br_released r)))"
  "fld (Some (batch_value r)) ''outcomes'' = Some (SList (map (null_or call_outcome_value) (br_outcomes r)))"
  "fld (Some (batch_value r)) ''consents'' = map_option (\<lambda>cs. SList (map (null_or consent_value) cs)) (br_consents r)"
  "is_store_object (Some (batch_value r))"
  by (simp_all add: batch_value_def split: option.splits)

lemma decode_batch_value:
  assumes "record_wf r"
  shows "decodeBatchRecord (batch_value r) = Inr r"
proof -
  note lists = nullable_list_roundtrip [where check = prepare_reply_ok and f = reply_value and g = the_reply, OF reply_roundtrip]
    nullable_list_roundtrip [where check = call_outcome_ok and f = call_outcome_value and g = the_call_outcome, OF call_outcome_roundtrip]
    nullable_list_roundtrip [where check = consent_record_ok and f = consent_value and g = the_consent, OF consent_roundtrip]
  have d: "decision_value (br_decision r) = SNull \<longleftrightarrow> br_decision r = None"
    "decision_value (br_decision r) = SStr ''RELEASE'' \<longleftrightarrow> br_decision r = Some RELEASE"
    "decision_value (br_decision r) = SNull \<or> decision_value (br_decision r) = SStr ''RELEASE'' \<or> decision_value (br_decision r) = SStr ''ABORT''"
    by (cases "br_decision r" rule: decision_value.cases; simp)+
  have c: "nullable_list_ok consent_record_ok (length (get_list (fld (Some (br_manifest r)) ''calls''))) (Some (SList (map (null_or consent_value) cs)))"
    if "br_consents r = Some cs" for cs
    using assms that lists(5) [of cs] by (auto simp: record_wf_def Let_def)
  have ok: "batch_record_ok (Some (batch_value r))"
    using assms d(3) c lists(1) [of "br_prepares r"] lists(3) [of "br_outcomes r"]
    by (cases "br_consents r") (auto simp: batch_record_ok_def record_wf_def Let_def list_all_iff)
  have "the_batch_record (batch_value r) = r"
    using d(1,2) lists(2) [of "br_prepares r"] lists(4) [of "br_outcomes r"] lists(6)
    by (cases r) (auto simp: the_batch_record_def some_value_def comp_def intro: batch_decision.exhaust)
  with ok show ?thesis by (simp add: decodeBatchRecord_def)
qed

section \<open>The release order\<close>

text \<open>
  \<open>waits ss i j\<close>: call \<open>i\<close> runs after call \<open>j\<close> because one of them, or a call between them, is sequential.
\<close>

definition depends :: "bool list \<Rightarrow> nat \<Rightarrow> nat \<Rightarrow> bool" where
  "depends ss i j \<longleftrightarrow> j < i \<and> (ss ! j \<or> ss ! i) \<and> (\<forall>k. j < k \<and> k < i \<longrightarrow> \<not> ss ! k)"

definition waits :: "bool list \<Rightarrow> nat \<Rightarrow> nat \<Rightarrow> bool" where
  "waits ss i j \<longleftrightarrow> j < i \<and> (ss ! i \<or> (\<exists>k. j \<le> k \<and> k < i \<and> ss ! k))"

lemma deps_loop_spec:
  assumes "length result = m" "drop m ss = calls" "m \<le> length ss"
    and "case prev of None \<Rightarrow> \<forall>k<m. \<not> ss ! k | Some p \<Rightarrow> p < m \<and> ss ! p \<and> (\<forall>k. p < k \<and> k < m \<longrightarrow> \<not> ss ! k)"
    and "set since = {k. k < m \<and> (\<forall>l. k \<le> l \<and> l < m \<longrightarrow> \<not> ss ! l)}"
    and "\<forall>i<m. set (fst (result ! i)) = {j. depends ss i j}"
  shows "length (deps_loop calls prev since result) = length ss \<and>
    (\<forall>i<length ss. set (fst (deps_loop calls prev since result ! i)) = {j. depends ss i j})"
  using assms
proof (induction calls arbitrary: m prev since result)
  case Nil
  then show ?case by auto
next
  case (Cons s calls)
  have m: "m < length ss" "ss ! m = s" "drop (Suc m) ss = calls" using Cons.prems(2)
    by (metis drop_eq_Nil linorder_not_less list.distinct(1), metis drop_eq_Nil linorder_not_less list.distinct(1) nth_via_drop,
        metis drop_Suc list.sel(3) tl_drop)
  let ?anchor = "case prev of None \<Rightarrow> [] | Some p \<Rightarrow> [p]"
  let ?deps = "if s then ?anchor @ since else ?anchor"
  let ?r = "result @ [(?deps, wave_after result ?deps)]"
  have deps: "set ?deps = {j. depends ss m j}"
  proof (cases prev)
    case None
    then show ?thesis using Cons.prems(4,5) m(2) by (auto simp: depends_def)
  next
    case (Some p)
    then have p: "p < m" "ss ! p" "\<And>k. p < k \<Longrightarrow> k < m \<Longrightarrow> \<not> ss ! k" using Cons.prems(4) by auto
    have "depends ss m j \<longleftrightarrow> j = p \<or> (s \<and> j \<in> set since)" for j
    proof
      assume d: "depends ss m j"
      show "j = p \<or> (s \<and> j \<in> set since)"
      proof (cases "ss ! j")
        case True
        then have "\<not> j < p" "\<not> p < j" using d p by (auto simp: depends_def)
        then show ?thesis by simp
      next
        case False
        then have "s" "p < j" using d p(1,2) m(2) by (auto simp: depends_def) (metis linorder_neqE_nat)
        then show ?thesis using d False Cons.prems(5) p(3) by (auto simp: depends_def)
      qed
    qed (use p m(2) Cons.prems(5) in \<open>auto simp: depends_def\<close>)
    then show ?thesis using Some by auto
  qed
  have res: "\<forall>i<Suc m. set (fst (?r ! i)) = {j. depends ss i j}"
    using Cons.prems(1,6) deps by (auto simp: nth_append less_Suc_eq)
  have len: "length ?r = Suc m" using Cons.prems(1) by simp
  show ?case
  proof (cases s)
    case True
    have "length (deps_loop calls (Some m) [] ?r) = length ss \<and>
        (\<forall>i<length ss. set (fst (deps_loop calls (Some m) [] ?r ! i)) = {j. depends ss i j})"
    proof (rule Cons.IH [OF len m(3) _ _ _ res])
      show "Suc m \<le> length ss" using m(1) by simp
      show "case Some m of None \<Rightarrow> \<forall>k<Suc m. \<not> ss ! k | Some p \<Rightarrow> p < Suc m \<and> ss ! p \<and> (\<forall>k. p < k \<and> k < Suc m \<longrightarrow> \<not> ss ! k)"
        using m(2) True by auto
      show "set [] = {k. k < Suc m \<and> (\<forall>l. k \<le> l \<and> l < Suc m \<longrightarrow> \<not> ss ! l)}" using m(2) True by (auto intro!: exI [of _ m])
    qed
    then show ?thesis using True Cons.prems(1) by (simp add: Let_def)
  next
    case False
    have "length (deps_loop calls prev (since @ [m]) ?r) = length ss \<and>
        (\<forall>i<length ss. set (fst (deps_loop calls prev (since @ [m]) ?r ! i)) = {j. depends ss i j})"
    proof (rule Cons.IH [OF len m(3) _ _ _ res])
      show "Suc m \<le> length ss" using m(1) by simp
      show "case prev of None \<Rightarrow> \<forall>k<Suc m. \<not> ss ! k | Some p \<Rightarrow> p < Suc m \<and> ss ! p \<and> (\<forall>k. p < k \<and> k < Suc m \<longrightarrow> \<not> ss ! k)"
        using Cons.prems(4) m(2) False by (auto simp: less_Suc_eq split: option.splits)
      show "set (since @ [m]) = {k. k < Suc m \<and> (\<forall>l. k \<le> l \<and> l < Suc m \<longrightarrow> \<not> ss ! l)}"
      proof -
        have "k < Suc m \<and> (\<forall>l. k \<le> l \<and> l < Suc m \<longrightarrow> \<not> ss ! l) \<longleftrightarrow> k = m \<or> (k < m \<and> (\<forall>l. k \<le> l \<and> l < m \<longrightarrow> \<not> ss ! l))" for k
        proof -
          have "(\<forall>l. k \<le> l \<and> l < Suc m \<longrightarrow> \<not> ss ! l) \<longleftrightarrow> (\<forall>l. k \<le> l \<and> l < m \<longrightarrow> \<not> ss ! l)"
            using m(2) False by (metis less_Suc_eq)
          then show ?thesis by (auto simp: less_Suc_eq)
        qed
        then show ?thesis using Cons.prems(5) by auto
      qed
    qed
    then show ?thesis using False Cons.prems(1) by (simp add: Let_def)
  qed
qed

lemma batchDependencies_spec:
  "length (batchDependencies ss) = length ss"
  "i < length ss \<Longrightarrow> set (fst (batchDependencies ss ! i)) = {j. depends ss i j}"
  using deps_loop_spec [of "[]" 0 ss ss None "[]"] by (auto simp: batchDependencies_def)

lemma depends_waits:
  "(\<forall>d. depends ss i d \<longrightarrow> P d \<and> (\<forall>j. waits ss d j \<longrightarrow> P j)) \<longleftrightarrow> (\<forall>j. waits ss i j \<longrightarrow> P j)"
proof (intro iffI allI impI)
  fix j assume h: "\<forall>d. depends ss i d \<longrightarrow> P d \<and> (\<forall>j. waits ss d j \<longrightarrow> P j)" and w: "waits ss i j"
  show "P j"
  proof (cases "\<exists>k. j < k \<and> k < i \<and> ss ! k")
    case True
    then obtain k where k: "j < k \<and> k < i \<and> ss ! k" by blast
    obtain d where d: "j < d" "d < i" "ss ! d" "\<And>k. j < k \<Longrightarrow> k < i \<Longrightarrow> ss ! k \<Longrightarrow> k \<le> d"
      using ex_has_greatest_nat [of "\<lambda>k. j < k \<and> k < i \<and> ss ! k" k id i, OF k] by (metis id_apply less_imp_le)
    have "\<not> ss ! k" if "d < k" "k < i" for k using d(1) d(4) [of k] that by (meson leD order.strict_trans)
    then have "depends ss i d" using d by (auto simp: depends_def)
    moreover have "waits ss d j" using d by (auto simp: waits_def)
    ultimately show ?thesis using h by blast
  next
    case False
    then have "depends ss i j" using w by (auto simp: depends_def waits_def dest: le_neq_implies_less)
    then show ?thesis using h by blast
  qed
next
  fix d assume h: "\<forall>j. waits ss i j \<longrightarrow> P j" and d: "depends ss i d"
  have "waits ss i d" using d by (auto simp: depends_def waits_def)
  moreover have "waits ss i j" if "waits ss d j" for j using d that by (auto simp: depends_def waits_def)
  ultimately show "P d \<and> (\<forall>j. waits ss d j \<longrightarrow> P j)" using h by blast
qed


text \<open>With enough fuel \<open>visit\<close> answers, and what it answers is that every call waited for has an outcome.\<close>

lemma every_opt_total:
  "(\<And>x. x \<in> set xs \<Longrightarrow> f x = Some (P x)) \<Longrightarrow> every_opt f xs = Some (\<forall>x \<in> set xs. P x)"
  by (induction xs) (auto split: bool.splits)

lemma visit_spec:
  assumes "length calls = length ss" "length outcomes = length ss"
    and "\<And>i. i < length ss \<Longrightarrow> set (mc_dependsOn (calls ! i)) = {j. depends ss i j}"
  shows "i < length ss \<Longrightarrow> i < fuel \<Longrightarrow>
    visit fuel calls outcomes i = Some (outcomes ! i \<noteq> None \<and> (\<forall>j. waits ss i j \<longrightarrow> outcomes ! j \<noteq> None))"
proof (induction fuel arbitrary: i)
  case (Suc fuel)
  have c: "nth_opt calls i = Some (calls ! i)" "nth_opt outcomes i = Some (outcomes ! i)"
    using Suc.prems(1) assms(1,2) by (simp_all add: nth_opt_def)
  show ?case
  proof (cases "outcomes ! i")
    case None
    then show ?thesis using c by simp
  next
    case (Some x)
    have "visit fuel calls outcomes d = Some (outcomes ! d \<noteq> None \<and> (\<forall>j. waits ss d j \<longrightarrow> outcomes ! j \<noteq> None))"
      if "d \<in> set (mc_dependsOn (calls ! i))" for d
      using that assms(3) [OF Suc.prems(1)] Suc.prems by (intro Suc.IH) (auto simp: depends_def)
    then have e: "every_opt (visit fuel calls outcomes) (mc_dependsOn (calls ! i)) =
        Some (\<forall>d \<in> set (mc_dependsOn (calls ! i)). outcomes ! d \<noteq> None \<and> (\<forall>j. waits ss d j \<longrightarrow> outcomes ! j \<noteq> None))"
      by (rule every_opt_total)
    have "visit (Suc fuel) calls outcomes i = Some (\<forall>d. depends ss i d \<longrightarrow> outcomes ! d \<noteq> None \<and> (\<forall>j. waits ss d j \<longrightarrow> outcomes ! j \<noteq> None))"
      using e c assms(3) [OF Suc.prems(1)] Some by simp
    then show ?thesis unfolding depends_waits [of ss i "\<lambda>j. outcomes ! j \<noteq> None"] using Some by simp
  qed
qed simp

abbreviation sequentials :: "batch_plan \<Rightarrow> bool list" where
  "sequentials plan \<equiv> map bc_sequential (bp_calls plan)"

lemma manifest_calls:
  shows "length (bm_calls (buildBatchManifest digest issuer plan)) = length (bp_calls plan)"
    and "i < length (bp_calls plan) \<Longrightarrow> bm_calls (buildBatchManifest digest issuer plan) ! i =
      manifest_call_of digest (batchDependencies (sequentials plan)) i (bp_calls plan ! i)"
  by (simp_all add: buildBatchManifest_def Let_def nth_enumerate_eq)

lemma manifest_deps:
  assumes "i < length (bp_calls plan)"
  shows "set (mc_dependsOn (bm_calls (buildBatchManifest digest issuer plan) ! i)) = {j. depends (sequentials plan) i j}"
    "mc_sourceIndex (bm_calls (buildBatchManifest digest issuer plan) ! i) = i"
  using assms batchDependencies_spec(2) [of i "sequentials plan"] batchDependencies_spec(1) [of "sequentials plan"]
  by (simp_all add: manifest_calls manifest_call_of_def Let_def nth_opt_def)

text \<open>Whether a call may be released: the test of the release loop.\<close>

lemma ready_spec:
  assumes "calls = bm_calls (buildBatchManifest digest issuer plan)" "length outcomes = length (bp_calls plan)" "i < length (bp_calls plan)"
  shows "list_all (finished calls outcomes) (mc_dependsOn (calls ! i)) \<longleftrightarrow>
    (\<forall>j. waits (sequentials plan) i j \<longrightarrow> outcomes ! j \<noteq> None)"
proof -
  have "finished calls outcomes d \<longleftrightarrow> outcomes ! d \<noteq> None \<and> (\<forall>j. waits (sequentials plan) d j \<longrightarrow> outcomes ! j \<noteq> None)"
    if "d < length (bp_calls plan)" for d
    using visit_spec [of calls "sequentials plan" outcomes d "Suc (length calls)"] that assms(1,2) manifest_calls manifest_deps
    by (simp add: finished_def)
  moreover have "d < length (bp_calls plan)" if "depends (sequentials plan) i d" for d using that assms(3) by (auto simp: depends_def)
  ultimately show ?thesis
    using depends_waits [of "sequentials plan" i "\<lambda>j. outcomes ! j \<noteq> None"] manifest_deps(1) [OF assms(3)] assms(1)
    by (auto simp: list_all_iff)
qed

section \<open>Properties of the plan\<close>

definition sample_batch_call :: "string \<Rightarrow> bool \<Rightarrow> batch_call_plan" where
  "sample_batch_call name s = \<lparr>bc_executionId = name, bc_executor = ''hand'', bc_name = name, bc_args = SNull, bc_sequential = s\<rparr>"

definition sample_batch :: batch_plan where
  "sample_batch = \<lparr>bp_batchId = ''b'', bp_scope = ''s'', bp_workspace = ''w'', bp_generation = Fin 1, bp_admittedAt = Fin 0,
     bp_leaseUntil = Fin 100, bp_calls = [sample_batch_call ''x'' False, sample_batch_call ''y'' True, sample_batch_call ''z'' False]\<rparr>"

text \<open>C26. The release order: the dependencies the plan computes let a call be released exactly when every earlier
  call has an outcome that is separated from it by a sequential call, either of the two included; so parallel calls
  next to each other never wait for each other, and a sequential call runs alone.\<close>

theorem release_order:
  assumes "length outcomes = length (bp_calls plan)" and "i < length (bp_calls plan)"
  shows "list_all (finished (bm_calls (buildBatchManifest digest issuer plan)) outcomes)
      (mc_dependsOn (bm_calls (buildBatchManifest digest issuer plan) ! i)) \<longleftrightarrow>
    (\<forall>j<i. (\<exists>k. j \<le> k \<and> k \<le> i \<and> bc_sequential (bp_calls plan ! k)) \<longrightarrow> outcomes ! j \<noteq> None)"
proof -
  have "waits (sequentials plan) i j \<longleftrightarrow> j < i \<and> (\<exists>k. j \<le> k \<and> k \<le> i \<and> bc_sequential (bp_calls plan ! k))" for j
    using assms(2) by (auto simp: waits_def le_less)
  then show ?thesis using ready_spec [OF refl assms] by auto
qed

theorem release_order_witness:
  "list_all (finished (bm_calls (buildBatchManifest (\<lambda>_. []) ''i'' sample_batch)) [None, None, Some ()])
      (mc_dependsOn (bm_calls (buildBatchManifest (\<lambda>_. []) ''i'' sample_batch) ! 0)) \<and>
   \<not> list_all (finished (bm_calls (buildBatchManifest (\<lambda>_. []) ''i'' sample_batch)) [None, Some (), None])
      (mc_dependsOn (bm_calls (buildBatchManifest (\<lambda>_. []) ''i'' sample_batch) ! 2))"
proof
  show "list_all (finished (bm_calls (buildBatchManifest (\<lambda>_. []) ''i'' sample_batch)) [None, None, Some ()])
      (mc_dependsOn (bm_calls (buildBatchManifest (\<lambda>_. []) ''i'' sample_batch) ! 0))"
    by (subst release_order) (simp_all add: sample_batch_def)
  show "\<not> list_all (finished (bm_calls (buildBatchManifest (\<lambda>_. []) ''i'' sample_batch)) [None, Some (), None])
      (mc_dependsOn (bm_calls (buildBatchManifest (\<lambda>_. []) ''i'' sample_batch) ! 2))"
  proof -
    have "bc_sequential (bp_calls sample_batch ! 1)" by (simp add: sample_batch_def sample_batch_call_def)
    then have "\<exists>k. 0 \<le> k \<and> k \<le> 2 \<and> bc_sequential (bp_calls sample_batch ! k)" by (intro exI [of _ 1]) simp
    then have "\<not> (\<forall>j<2. (\<exists>k. j \<le> k \<and> k \<le> 2 \<and> bc_sequential (bp_calls sample_batch ! k)) \<longrightarrow> [None, Some (), None] ! j \<noteq> None)"
      by (metis nth_Cons_0 pos2)
    then show ?thesis by (subst release_order) (simp_all add: sample_batch_def)
  qed
qed

end
