(* ===== verification/Batch_Coordinator.thy ===== *)
theory Batch_Coordinator
  imports Batch_Plan
begin

text \<open>
  The batch coordinator: execution/coordinator.ts, coordinator-consent.ts and coordinator-sequential.ts.
  A run is a sequence of durable writes and messages to executors and approvers. What they answer, which
  released call settles first, and where a write fails or the process stops are functions of a step
  counter, so every behaviour of the outside is some choice of them; \<open>None\<close> is an answer that never
  comes because the process stopped. Each message is recorded with the durable record at that moment.
\<close>

section \<open>The outside and the state of a run\<close>

datatype consent_reply = ConsentPrepared | ConsentSettled settle_reply

type_synonym 'a answer = "(string, 'a) result option"

record batch_env =
  be_issuer :: string
  be_epoch :: number
  be_mint :: "nat \<Rightarrow> string"
  be_seam :: "nat \<Rightarrow> write_point \<Rightarrow> bool"
  be_prepare :: "nat \<Rightarrow> string \<Rightarrow> prepare_request \<Rightarrow> prepare_reply answer"
  be_abort :: "nat \<Rightarrow> string \<Rightarrow> execution_ref \<Rightarrow> settle_reply answer"
  be_takesConsent :: "string \<Rightarrow> bool"
  be_consent :: "nat \<Rightarrow> string \<Rightarrow> execution_ref \<Rightarrow> string \<Rightarrow> consent_reply answer"
  be_race :: "nat \<Rightarrow> (nat \<times> execution_ref) list \<Rightarrow> (nat \<times> (string, settle_reply) result) option"
  be_needsConsent :: "(string \<Rightarrow> store_value \<Rightarrow> bool) option"
  be_approve :: "nat \<Rightarrow> consent_request \<Rightarrow> consent_answer answer"

text \<open>A message carries the source index of the call it is about.\<close>

datatype batch_message =
    MsgPrepare nat prepare_request
  | MsgRelease nat execution_ref
  | MsgAbort nat execution_ref
  | MsgConsent nat execution_ref string
  | MsgApprove nat consent_request

datatype run_error =
    StoreFailed failure
  | CallFailed string
  | ProcessStopped
  | ManifestConflict string
  | CannotTakeConsent string
  | ConsentNotConfigured string
  | UnsettledCall string
  | RoundsExhausted

record run_state =
  rs_store :: medium_state
  rs_clock :: nat
  rs_sent :: "(batch_message \<times> store_value option) list"

type_synonym 'a run_step = "run_state \<Rightarrow> (run_error, 'a) result \<times> run_state"

definition done_with :: "'a \<Rightarrow> 'a run_step" where
  "done_with x s = (Inr x, s)"

definition throw_error :: "run_error \<Rightarrow> 'a run_step" where
  "throw_error e s = (Inl e, s)"

definition and_then :: "'a run_step \<Rightarrow> ('a \<Rightarrow> 'b run_step) \<Rightarrow> 'b run_step" where
  "and_then m f s = (case m s of (Inl e, s') \<Rightarrow> (Inl e, s') | (Inr x, s') \<Rightarrow> f x s')"

section \<open>Durable writes and messages\<close>

definition batch_PREFIX :: string where "batch_PREFIX = ''execution.batch:''"

definition batch_keyOf :: "string \<Rightarrow> string \<Rightarrow> string" where
  "batch_keyOf issuer batchId = batch_PREFIX @ json_string_list [issuer, batchId]"

definition batch_read :: "medium_state \<Rightarrow> string \<Rightarrow> (failure, batch_record option) result" where
  "batch_read st key =
     (case getDocument st key of None \<Rightarrow> Inr None | Some value \<Rightarrow> rbind (decodeBatchRecord value) (\<lambda>r. Inr (Some r)))"

text \<open>What a run of one batch has fixed: its ports, its manifest and the document key.\<close>

record batch_run =
  rn_env :: batch_env
  rn_manifest :: batch_manifest
  rn_key :: string

definition batch_writes :: "batch_run \<Rightarrow> string \<Rightarrow> string \<Rightarrow> manifest_call option \<Rightarrow> batch_record \<Rightarrow> store_write list" where
  "batch_writes rn mid step call next =
     [Append mid ''execution.batch'' (SObj [(''batchId'', SStr (bm_batchId (rn_manifest rn))), (''step'', SStr step),
        (''executionId'', case call of Some c \<Rightarrow> SStr (bc_executionId c) | None \<Rightarrow> SNull)]),
      Put (rn_key rn) (batch_value next)]"

definition persist :: "batch_run \<Rightarrow> batch_record \<Rightarrow> string \<Rightarrow> manifest_call option \<Rightarrow> batch_record run_step" where
  "persist rn next step call s =
     (let env = rn_env rn; k = rs_clock s in
      case commit_then (be_seam env k) (rs_store s) (be_epoch env) (batch_writes rn (be_mint env k) step call next) next of
        (Inl e, st) \<Rightarrow> (Inl (StoreFailed e), s\<lparr>rs_store := st, rs_clock := k + 1\<rparr>)
      | (Inr r, st) \<Rightarrow> (Inr r, s\<lparr>rs_store := st, rs_clock := k + 1\<rparr>))"

definition tell :: "batch_run \<Rightarrow> batch_message \<Rightarrow> unit run_step" where
  "tell rn msg s = (Inr (), s\<lparr>rs_sent := rs_sent s @ [(msg, getDocument (rs_store s) (rn_key rn))], rs_clock := rs_clock s + 1\<rparr>)"

definition ask :: "batch_run \<Rightarrow> batch_message \<Rightarrow> (nat \<Rightarrow> 'a answer) \<Rightarrow> 'a run_step" where
  "ask rn msg answers = and_then (tell rn msg) (\<lambda>_ s.
     case answers (rs_clock s) of
       None \<Rightarrow> (Inl ProcessStopped, s)
     | Some (Inl e) \<Rightarrow> (Inl (CallFailed e), s)
     | Some (Inr x) \<Rightarrow> (Inr x, s))"

definition ref_of :: "batch_run \<Rightarrow> manifest_call \<Rightarrow> execution_ref" where
  "ref_of rn call = \<lparr>xr_issuer = be_issuer (rn_env rn), xr_executionId = bc_executionId call, xr_generation = bm_generation (rn_manifest rn)\<rparr>"

definition settle_call :: "batch_run \<Rightarrow> manifest_call \<Rightarrow> call_outcome \<Rightarrow> batch_record \<Rightarrow> batch_record run_step" where
  "settle_call rn call outcome r = persist rn (r\<lparr>br_outcomes := (br_outcomes r)[mc_sourceIndex call := Some outcome]\<rparr>) ''outcome'' (Some call)"

definition setPrepare :: "batch_run \<Rightarrow> manifest_call \<Rightarrow> prepare_reply \<Rightarrow> batch_record \<Rightarrow> batch_record run_step" where
  "setPrepare rn call reply r = persist rn (r\<lparr>br_prepares := (br_prepares r)[mc_sourceIndex call := Some reply]\<rparr>) ''prepare'' (Some call)"

definition abort_call :: "batch_run \<Rightarrow> manifest_call \<Rightarrow> settle_reply run_step" where
  "abort_call rn call = ask rn (MsgAbort (mc_sourceIndex call) (ref_of rn call))
     (\<lambda>k. be_abort (rn_env rn) k (bc_executor call) (ref_of rn call))"

section \<open>Consent\<close>

definition recorded_consent :: "batch_record \<Rightarrow> nat \<Rightarrow> consent_record option" where
  "recorded_consent r i = (case br_consents r of None \<Rightarrow> None | Some cs \<Rightarrow> (case nth_opt cs i of Some c \<Rightarrow> c | None \<Rightarrow> None))"

definition record_consent :: "batch_run \<Rightarrow> manifest_call \<Rightarrow> consent_record \<Rightarrow> batch_record \<Rightarrow> batch_record run_step" where
  "record_consent rn call answered r =
     (let cs = (case br_consents r of Some cs \<Rightarrow> cs | None \<Rightarrow> map (\<lambda>_. None) (bm_calls (rn_manifest rn)))
      in persist rn (r\<lparr>br_consents := Some (cs[mc_sourceIndex call := Some answered])\<rparr>) ''consent'' (Some call))"

definition consent_request_of :: "batch_run \<Rightarrow> manifest_call \<Rightarrow> consent_gate \<Rightarrow> string \<Rightarrow> consent_request" where
  "consent_request_of rn call gate digest = \<lparr>cq_ref = ref_of rn call, cq_gate = gate, cq_digest = digest, cq_name = bc_name call,
     cq_leaseUntil = bm_leaseUntil (rn_manifest rn)\<rparr>"

definition answer_consent :: "batch_run \<Rightarrow> manifest_call \<Rightarrow> consent_gate \<Rightarrow> string \<Rightarrow> batch_record \<Rightarrow> (consent_answer \<times> batch_record) run_step" where
  "answer_consent rn call gate digest r =
     (let ask_approver =
        and_then (ask rn (MsgApprove (mc_sourceIndex call) (consent_request_of rn call gate digest))
            (\<lambda>k. be_approve (rn_env rn) k (consent_request_of rn call gate digest))) (\<lambda>given.
        and_then (record_consent rn call \<lparr>cr_gate = gate, cr_digest = digest, cr_answer = given\<rparr> r) (\<lambda>r.
        done_with (given, r)))
      in case recorded_consent r (mc_sourceIndex call) of
           Some c \<Rightarrow> if cr_gate c = gate \<and> cr_digest c = digest then done_with (cr_answer c, r) else ask_approver
         | None \<Rightarrow> ask_approver)"

definition denied_reply :: "consent_gate \<Rightarrow> consent_answer \<Rightarrow> prepare_reply" where
  "denied_reply gate answer = ReplyBlocked (SObj [(''reason'', SStr ''consent_denied''), (''gate'', SStr (gate_name gate)),
     (''answer'', SStr (answer_name answer))])"

definition lost_outcome :: execution_outcome where "lost_outcome = OutEnded UncertainEnd True True"
definition expired_outcome :: execution_outcome where "expired_outcome = OutEnded LeaseExpired True True"

datatype gate_result = GateBlocked prepare_reply | GateOpen "string option"

definition gateRawCall :: "batch_run \<Rightarrow> (string \<Rightarrow> store_value \<Rightarrow> bool) \<Rightarrow> manifest_call \<Rightarrow> batch_record \<Rightarrow> (gate_result \<times> batch_record) run_step" where
  "gateRawCall rn needsConsent call r =
     (if \<not> needsConsent (bc_name call) (bc_args call) then done_with (GateOpen None, r)
      else and_then (answer_consent rn call GateRaw (mc_requestDigest call) r) (\<lambda>(given, r).
        done_with (if given = Approved then GateOpen (Some (mc_requestDigest call)) else GateBlocked (denied_reply GateRaw given), r)))"

definition consentOn :: "batch_run \<Rightarrow> manifest_call \<Rightarrow> string \<Rightarrow> consent_reply run_step" where
  "consentOn rn call frozenDigest =
     (if \<not> be_takesConsent (rn_env rn) (bc_executor call) then throw_error (CannotTakeConsent (bc_executionId call))
      else ask rn (MsgConsent (mc_sourceIndex call) (ref_of rn call) frozenDigest)
        (\<lambda>k. be_consent (rn_env rn) k (bc_executor call) (ref_of rn call) frozenDigest))"

definition resolveFrozenConsent :: "batch_run \<Rightarrow> manifest_call \<Rightarrow> string \<Rightarrow> batch_record \<Rightarrow> (prepare_reply \<times> batch_record) run_step" where
  "resolveFrozenConsent rn call frozenDigest r =
     and_then (answer_consent rn call GateFrozen frozenDigest r) (\<lambda>(given, r).
       case given of
         Denied \<Rightarrow> and_then (abort_call rn call) (\<lambda>_. done_with (denied_reply GateFrozen given, r))
       | Expired \<Rightarrow> done_with (ReplySettled expired_outcome, r)
       | Approved \<Rightarrow> and_then (consentOn rn call frozenDigest) (\<lambda>reply.
           done_with (case reply of
             ConsentPrepared \<Rightarrow> ReplyPrepared frozenDigest
           | ConsentSettled UnknownExecution \<Rightarrow> ReplySettled lost_outcome
           | ConsentSettled (SettledReply out) \<Rightarrow> ReplySettled out, r)))"

section \<open>The run\<close>

definition prepare_request_of :: "batch_run \<Rightarrow> manifest_call \<Rightarrow> string option \<Rightarrow> prepare_request" where
  "prepare_request_of rn call approvedDigest =
     (let m = rn_manifest rn in
      \<lparr>pq_ref = ref_of rn call, pq_batchId = bm_batchId m, pq_manifestDigest = bm_manifestDigest m, pq_scope = bm_scope m,
       pq_workspace = bm_workspace m, pq_admittedAt = bm_admittedAt m, pq_leaseUntil = bm_leaseUntil m,
       pq_requestDigest = mc_requestDigest call, pq_name = bc_name call, pq_args = bc_args call, pq_authorizedDigest = approvedDigest\<rparr>)"

definition prepared_reply :: "batch_record \<Rightarrow> nat \<Rightarrow> prepare_reply option" where
  "prepared_reply r i = (case nth_opt (br_prepares r) i of Some p \<Rightarrow> p | None \<Rightarrow> None)"

definition prepare_call :: "batch_run \<Rightarrow> manifest_call \<Rightarrow> batch_record \<Rightarrow> batch_record run_step" where
  "prepare_call rn call r =
     (if prepared_reply r (mc_sourceIndex call) \<noteq> None then done_with r
      else and_then (case be_needsConsent (rn_env rn) of
          None \<Rightarrow> done_with (GateOpen None, r)
        | Some needs \<Rightarrow> gateRawCall rn needs call r) (\<lambda>(gate, r).
        case gate of
          GateBlocked reply \<Rightarrow> setPrepare rn call reply r
        | GateOpen approvedDigest \<Rightarrow>
            and_then (ask rn (MsgPrepare (mc_sourceIndex call) (prepare_request_of rn call approvedDigest))
              (\<lambda>k. be_prepare (rn_env rn) k (bc_executor call) (prepare_request_of rn call approvedDigest)))
              (\<lambda>reply. setPrepare rn call reply r)))"

definition aborts :: "prepare_reply option \<Rightarrow> bool" where
  "aborts p = (case p of None \<Rightarrow> False | Some reply \<Rightarrow> abortCause reply \<noteq> None)"

fun prepare_loop :: "batch_run \<Rightarrow> manifest_call list \<Rightarrow> batch_record \<Rightarrow> batch_record run_step" where
  "prepare_loop rn [] r = done_with r"
| "prepare_loop rn (call # calls) r =
     and_then (prepare_call rn call r) (\<lambda>r.
       if aborts (prepared_reply r (mc_sourceIndex call)) then done_with r else prepare_loop rn calls r)"

fun consent_loop :: "batch_run \<Rightarrow> manifest_call list \<Rightarrow> batch_record \<Rightarrow> batch_record run_step" where
  "consent_loop rn [] r = done_with r"
| "consent_loop rn (call # calls) r =
     (if list_ex aborts (br_prepares r) then done_with r
      else case prepared_reply r (mc_sourceIndex call) of
        Some (ReplyAwaitingConsent frozenDigest) \<Rightarrow>
          (if be_needsConsent (rn_env rn) = None then throw_error (ConsentNotConfigured (bm_batchId (rn_manifest rn)))
           else and_then (resolveFrozenConsent rn call frozenDigest r) (\<lambda>(reply, r).
             and_then (setPrepare rn call reply r) (consent_loop rn calls)))
      | _ \<Rightarrow> consent_loop rn calls r)"

definition decide_batch :: "batch_run \<Rightarrow> batch_record \<Rightarrow> batch_record run_step" where
  "decide_batch rn r = persist rn (r\<lparr>br_decision := Some (if list_ex aborts (br_prepares r) then ABORT else RELEASE)\<rparr>) ''decision'' None"

definition prepare_phase :: "batch_run \<Rightarrow> batch_record \<Rightarrow> batch_record run_step" where
  "prepare_phase rn r =
     (if br_decision r \<noteq> None then done_with r
      else let calls = bm_calls (rn_manifest rn) in
        and_then (prepare_loop rn calls r) (\<lambda>r. and_then (consent_loop rn calls r) (decide_batch rn)))"

definition batch_cause :: "batch_record \<Rightarrow> not_run_cause" where
  "batch_cause r =
     (case filter (\<lambda>c. c \<noteq> None) (map (\<lambda>p. case p of None \<Rightarrow> None | Some reply \<Rightarrow> abortCause reply) (br_prepares r)) of
        Some c # _ \<Rightarrow> c
      | _ \<Rightarrow> CauseBatchAbort)"

definition no_outcome :: "batch_record \<Rightarrow> nat \<Rightarrow> bool" where
  "no_outcome r i = (nth_opt (br_outcomes r) i = Some None)"

definition settle_unrun :: "batch_run \<Rightarrow> not_run_cause \<Rightarrow> manifest_call \<Rightarrow> batch_record \<Rightarrow> batch_record run_step" where
  "settle_unrun rn cause call r =
     (if \<not> no_outcome r (mc_sourceIndex call) then done_with r
      else case prepared_reply r (mc_sourceIndex call) of
        Some (ReplySettled out) \<Rightarrow> settle_call rn call (settledOutcome (SettledReply out)) r
      | Some (ReplyBlocked v) \<Rightarrow> and_then (abort_call rn call) (\<lambda>_. settle_call rn call (CallBlocked v) r)
      | reply \<Rightarrow>
          if br_decision r = Some ABORT then
            and_then (if reply \<noteq> None then and_then (abort_call rn call) (\<lambda>_. done_with ()) else done_with ())
              (\<lambda>_. settle_call rn call (CallNotRun cause) r)
          else done_with r)"

fun settle_loop :: "batch_run \<Rightarrow> not_run_cause \<Rightarrow> manifest_call list \<Rightarrow> batch_record \<Rightarrow> batch_record run_step" where
  "settle_loop rn cause [] r = done_with r"
| "settle_loop rn cause (call # calls) r = and_then (settle_unrun rn cause call r) (settle_loop rn cause calls)"

type_synonym inflight = "(nat \<times> execution_ref) list"

definition release_call :: "batch_run \<Rightarrow> manifest_call \<Rightarrow> batch_record \<Rightarrow> inflight \<Rightarrow> (batch_record \<times> inflight) run_step" where
  "release_call rn call r inflight =
     (let i = mc_sourceIndex call in
      if \<not> no_outcome r i \<or> i \<in> fst ` set inflight then done_with (r, inflight)
      else let send = (\<lambda>r. and_then (tell rn (MsgRelease i (ref_of rn call))) (\<lambda>_. done_with (r, inflight @ [(i, ref_of rn call)]))) in
        if nth_opt (br_released r) i = Some True then send r
        else if list_all (finished (bm_calls (rn_manifest rn)) (br_outcomes r)) (mc_dependsOn call)
        then and_then (persist rn (r\<lparr>br_released := (br_released r)[i := True]\<rparr>) ''release'' (Some call)) send
        else done_with (r, inflight))"

fun release_scan :: "batch_run \<Rightarrow> manifest_call list \<Rightarrow> batch_record \<Rightarrow> inflight \<Rightarrow> (batch_record \<times> inflight) run_step" where
  "release_scan rn [] r inflight = done_with (r, inflight)"
| "release_scan rn (call # calls) r inflight =
     and_then (release_call rn call r inflight) (\<lambda>(r, inflight). release_scan rn calls r inflight)"

text \<open>Which of the released calls settles first, and how, is the outside's choice.\<close>

definition race :: "batch_run \<Rightarrow> inflight \<Rightarrow> (nat \<times> settle_reply) run_step" where
  "race rn inflight s =
     (let s' = s\<lparr>rs_clock := rs_clock s + 1\<rparr> in
      case be_race (rn_env rn) (rs_clock s) inflight of
        None \<Rightarrow> (Inl ProcessStopped, s')
      | Some (pos, Inl e) \<Rightarrow> (Inl (CallFailed e), s')
      | Some (pos, Inr reply) \<Rightarrow> (Inr (fst (inflight ! (pos mod length inflight)), reply), s'))"

text \<open>Each round of the endless loop settles one call, so it runs at most once more than there are calls.\<close>

fun release_loop :: "nat \<Rightarrow> batch_run \<Rightarrow> batch_record \<Rightarrow> inflight \<Rightarrow> batch_record run_step" where
  "release_loop 0 rn r inflight = throw_error RoundsExhausted"
| "release_loop (Suc rounds) rn r inflight =
     and_then (release_scan rn (bm_calls (rn_manifest rn)) r inflight) (\<lambda>(r, inflight).
       if inflight = [] then done_with r
       else and_then (race rn inflight) (\<lambda>(i, reply).
         let inflight = filter (\<lambda>(j, _). j \<noteq> i) inflight in
         case nth_opt (bm_calls (rn_manifest rn)) i of
           None \<Rightarrow> release_loop rounds rn r inflight
         | Some call \<Rightarrow> and_then (settle_call rn call (settledOutcome reply) r) (\<lambda>r. release_loop rounds rn r inflight)))"

definition empty_record :: "batch_manifest \<Rightarrow> batch_record" where
  "empty_record m = \<lparr>br_manifest = manifest_value m, br_prepares = map (\<lambda>_. None) (bm_calls m), br_decision = None,
     br_released = map (\<lambda>_. False) (bm_calls m), br_outcomes = map (\<lambda>_. None) (bm_calls m), br_consents = None\<rparr>"

definition open_batch :: "batch_run \<Rightarrow> batch_record run_step" where
  "open_batch rn s =
     (case batch_read (rs_store s) (rn_key rn) of
        Inl e \<Rightarrow> (Inl (StoreFailed e), s)
      | Inr None \<Rightarrow> persist rn (empty_record (rn_manifest rn)) ''manifest'' None s
      | Inr (Some r) \<Rightarrow>
          if get_str (fld (Some (br_manifest r)) ''manifestDigest'') \<noteq> bm_manifestDigest (rn_manifest rn)
          then (Inl (ManifestConflict (bm_batchId (rn_manifest rn))), s) else (Inr r, s))"

definition batch_answer :: "batch_run \<Rightarrow> batch_record \<Rightarrow> batch_result run_step" where
  "batch_answer rn r =
     (case br_decision r of
        Some d \<Rightarrow>
          if None \<in> set (br_outcomes r) then throw_error (UnsettledCall (bm_batchId (rn_manifest rn)))
          else done_with \<lparr>bres_decision = d, bres_outcomes = map the (br_outcomes r)\<rparr>
      | None \<Rightarrow> throw_error (UnsettledCall (bm_batchId (rn_manifest rn))))"

definition new_run :: "(store_value \<Rightarrow> string) \<Rightarrow> batch_env \<Rightarrow> batch_plan \<Rightarrow> batch_run" where
  "new_run digest env plan = \<lparr>rn_env = env, rn_manifest = buildBatchManifest digest (be_issuer env) plan,
     rn_key = batch_keyOf (be_issuer env) (bp_batchId plan)\<rparr>"

definition coordinator_run :: "(store_value \<Rightarrow> string) \<Rightarrow> batch_env \<Rightarrow> batch_plan \<Rightarrow> batch_result run_step" where
  "coordinator_run digest env plan =
     (let rn = new_run digest env plan; calls = bm_calls (rn_manifest rn) in
      and_then (open_batch rn) (\<lambda>r.
      and_then (prepare_phase rn r) (\<lambda>r.
      and_then (settle_loop rn (batch_cause r) calls r) (\<lambda>r.
      and_then (release_loop (Suc (length calls)) rn r []) (batch_answer rn)))))"

section \<open>One call at a time\<close>

definition sequentialBatchId :: "string \<Rightarrow> nat \<Rightarrow> string" where
  "sequentialBatchId batchId index = batchId @ ''#'' @ nat_to_string index"

fun inheritedCause :: "call_outcome option \<Rightarrow> not_run_cause" where
  "inheritedCause None = CauseBatchAbort"
| "inheritedCause (Some (CallNotRun c)) = c"
| "inheritedCause (Some _) = CauseInterrupted"

fun sequential_loop :: "(batch_plan \<Rightarrow> batch_result run_step) \<Rightarrow> batch_plan \<Rightarrow> nat \<Rightarrow> batch_call_plan list \<Rightarrow> call_outcome list \<Rightarrow> batch_result run_step" where
  "sequential_loop run plan index [] outcomes = done_with \<lparr>bres_decision = RELEASE, bres_outcomes = outcomes\<rparr>"
| "sequential_loop run plan index (call # calls) outcomes =
     and_then (run (plan\<lparr>bp_batchId := sequentialBatchId (bp_batchId plan) index, bp_calls := [call]\<rparr>)) (\<lambda>single.
       let outcomes' = outcomes @ bres_outcomes single in
       if bres_decision single = ABORT
       then done_with \<lparr>bres_decision = ABORT,
         bres_outcomes = outcomes' @ map (\<lambda>_. CallNotRun (inheritedCause (nth_opt (bres_outcomes single) 0))) calls\<rparr>
       else sequential_loop run plan (index + 1) calls outcomes')"

definition sequential_run :: "(batch_plan \<Rightarrow> batch_result run_step) \<Rightarrow> batch_plan \<Rightarrow> batch_result run_step" where
  "sequential_run run plan = sequential_loop run plan 0 (bp_calls plan) []"

end
