(* ===== verification/Batch_Correct.thy ===== *)
theory Batch_Correct
  imports Batch_Coordinator
begin

text \<open>
  What the batch coordinator guarantees. \<open>record_inv\<close> is the invariant of the durable record,
  \<open>record_grows\<close> what one step may change of it, \<open>message_cond\<close> on which durable record a message may
  be sent. \<open>steps\<close> is a triple for the operations of a run: started on the record \<open>r\<close>, the operation keeps
  the invariant and only lets the record grow, whether it returns, throws or stops; it throws only for a
  reason of the outside; and when the outside works it returns.
\<close>

section \<open>The invariant of a batch\<close>

fun awaiting :: "prepare_reply \<Rightarrow> bool" where
  "awaiting (ReplyAwaitingConsent _) = True"
| "awaiting _ = False"

text \<open>A call that will not run: its frozen arguments were denied, the batch aborts, or its prepare ended it.\<close>

definition denied :: "batch_record \<Rightarrow> nat \<Rightarrow> bool" where
  "denied r i \<longleftrightarrow> br_decision r = Some ABORT \<or>
     (\<exists>c. recorded_consent r i = Some c \<and> cr_gate c = GateFrozen \<and> cr_answer c = Denied \<and>
        br_prepares r ! i = Some (ReplyAwaitingConsent (cr_digest c))) \<or>
     (\<exists>p. br_prepares r ! i = Some p \<and> \<not> awaiting p \<and> (\<nexists>d. p = ReplyPrepared d))"

definition record_inv :: "batch_manifest \<Rightarrow> bool list \<Rightarrow> batch_record \<Rightarrow> bool" where
  "record_inv m ss r \<longleftrightarrow>
     br_manifest r = manifest_value m \<and> record_wf r \<and> length (br_prepares r) = length ss \<and>
     (br_decision r = Some RELEASE \<longrightarrow> (\<forall>i<length ss. \<exists>p. br_prepares r ! i = Some p \<and> abortCause p = None \<and> \<not> awaiting p)) \<and>
     (br_decision r = Some ABORT \<longrightarrow> list_ex aborts (br_prepares r)) \<and>
     (\<forall>i<length ss. br_released r ! i \<longrightarrow> br_decision r = Some RELEASE \<and> (\<exists>d. br_prepares r ! i = Some (ReplyPrepared d)) \<and>
        (\<forall>j. waits ss i j \<longrightarrow> br_outcomes r ! j \<noteq> None)) \<and>
     (\<forall>i<length ss. br_outcomes r ! i \<noteq> None \<longrightarrow> br_decision r \<noteq> None)"

definition record_grows :: "batch_record \<Rightarrow> batch_record \<Rightarrow> bool" where
  "record_grows r r' \<longleftrightarrow>
     br_manifest r' = br_manifest r \<and> length (br_prepares r') = length (br_prepares r) \<and>
     length (br_released r') = length (br_released r) \<and> length (br_outcomes r') = length (br_outcomes r) \<and>
     (br_decision r \<noteq> None \<longrightarrow> br_decision r' = br_decision r \<and> br_prepares r' = br_prepares r) \<and>
     (\<forall>i<length (br_prepares r). \<forall>p. br_prepares r ! i = Some p \<longrightarrow>
        br_prepares r' ! i \<noteq> None \<and> (\<not> awaiting p \<longrightarrow> br_prepares r' ! i = Some p)) \<and>
     (\<forall>i<length (br_released r). br_released r ! i \<longrightarrow> br_released r' ! i) \<and>
     (\<forall>i<length (br_prepares r). denied r i \<longrightarrow> denied r' i) \<and>
     (\<forall>i<length (br_outcomes r). \<forall>x. br_outcomes r ! i = Some x \<longrightarrow> br_outcomes r' ! i = Some x)"

fun message_cond :: "batch_message \<Rightarrow> bool list \<Rightarrow> batch_record \<Rightarrow> bool" where
  "message_cond (MsgRelease i _) ss r = (i < length ss \<and> br_released r ! i)"
| "message_cond (MsgAbort i _) ss r = (i < length ss \<and> denied r i)"
| "message_cond (MsgPrepare i _) ss r = (i < length ss \<and> br_decision r = None \<and> br_prepares r ! i = None)"
| "message_cond _ ss r = (br_decision r = None)"

definition sent_ok :: "batch_manifest \<Rightarrow> bool list \<Rightarrow> batch_record \<Rightarrow> batch_message \<times> store_value option \<Rightarrow> bool" where
  "sent_ok m ss r = (\<lambda>(msg, doc). \<exists>r1. doc = Some (batch_value r1) \<and> record_inv m ss r1 \<and> record_grows r1 r \<and> message_cond msg ss r1)"

definition batch_inv :: "batch_run \<Rightarrow> bool list \<Rightarrow> batch_record \<Rightarrow> run_state \<Rightarrow> bool" where
  "batch_inv rn ss r s \<longleftrightarrow> getDocument (rs_store s) (rn_key rn) = Some (batch_value r) \<and> record_inv (rn_manifest rn) ss r \<and>
     list_all (sent_ok (rn_manifest rn) ss r) (rs_sent s)"

text \<open>The outside works: every port answers, consent is set up, no write fails and the store is owned and mints fresh ids.\<close>

definition ports_work :: "batch_env \<Rightarrow> bool" where
  "ports_work env \<longleftrightarrow>
     (\<forall>k x q. \<exists>reply. be_prepare env k x q = Some (Inr reply)) \<and> (\<forall>k x q. \<exists>reply. be_abort env k x q = Some (Inr reply)) \<and>
     (\<forall>k x q d. \<exists>reply. be_consent env k x q d = Some (Inr reply)) \<and> (\<forall>k q. \<exists>reply. be_approve env k q = Some (Inr reply)) \<and>
     (\<forall>k xs. \<exists>pos reply. be_race env k xs = Some (pos, Inr reply)) \<and> (\<forall>x. be_takesConsent env x) \<and> be_needsConsent env \<noteq> None"

definition store_works :: "batch_env \<Rightarrow> run_state \<Rightarrow> bool" where
  "store_works env s \<longleftrightarrow> requireOwner (rs_store s) (be_epoch env) = Inr () \<and> be_seam env = (\<lambda>_ _. False) \<and> inj (be_mint env) \<and>
     (\<forall>k. rs_clock s \<le> k \<longrightarrow> be_mint env k \<notin> sr_id ` set (ms_records (rs_store s)))"

fun outside_error :: "run_error \<Rightarrow> bool" where
  "outside_error RoundsExhausted = False"
| "outside_error (UnsettledCall _) = False"
| "outside_error _ = True"

definition steps :: "batch_run \<Rightarrow> bool list \<Rightarrow> batch_record \<Rightarrow> 'a run_step \<Rightarrow> ('a \<Rightarrow> batch_record \<Rightarrow> bool) \<Rightarrow> bool" where
  "steps rn ss r m Q \<longleftrightarrow> (\<forall>s. batch_inv rn ss r s \<longrightarrow>
     (\<exists>r'. batch_inv rn ss r' (snd (m s)) \<and> record_grows r r' \<and> (\<forall>x. fst (m s) = Inr x \<longrightarrow> Q x r')) \<and>
     (\<forall>e. fst (m s) = Inl e \<longrightarrow> outside_error e) \<and>
     (ports_work (rn_env rn) \<and> store_works (rn_env rn) s \<longrightarrow> store_works (rn_env rn) (snd (m s)) \<and> (\<exists>x. fst (m s) = Inr x)))"

lemma record_grows_refl [simp]: "record_grows r r"
  by (simp add: record_grows_def)

lemma record_grows_trans:
  assumes "record_grows a b" "record_grows b c"
  shows "record_grows a c"
proof -
  have "br_prepares c ! i \<noteq> None \<and> (\<not> awaiting p \<longrightarrow> br_prepares c ! i = Some p)"
    if "i < length (br_prepares a)" "br_prepares a ! i = Some p" for i p
    using assms that unfolding record_grows_def by (metis option.exhaust)
  moreover have "br_outcomes c ! i = Some x" if "i < length (br_outcomes a)" "br_outcomes a ! i = Some x" for i x
    using assms that unfolding record_grows_def by metis
  moreover have "br_released c ! i" if "i < length (br_released a)" "br_released a ! i" for i
    using assms that unfolding record_grows_def by metis
  moreover have "br_decision c = br_decision a \<and> br_prepares c = br_prepares a" if "br_decision a \<noteq> None"
    using assms that unfolding record_grows_def by metis
  moreover have "denied c i" if "i < length (br_prepares a)" "denied a i" for i
    using assms that unfolding record_grows_def by metis
  ultimately show ?thesis using assms unfolding record_grows_def by simp
qed

lemma record_inv_lengths:
  assumes "record_inv m ss r"
  shows "length (br_prepares r) = length ss" "length (br_released r) = length ss" "length (br_outcomes r) = length ss"
  using assms by (auto simp: record_inv_def record_wf_def Let_def)

lemma sent_ok_grows: "record_grows r r' \<Longrightarrow> sent_ok m ss r x \<Longrightarrow> sent_ok m ss r' x"
  by (cases x) (auto simp: sent_ok_def intro: record_grows_trans)

lemma aborts_grows: "record_grows r r' \<Longrightarrow> list_ex aborts (br_prepares r) \<Longrightarrow> list_ex aborts (br_prepares r')"
proof -
  assume g: "record_grows r r'" and "list_ex aborts (br_prepares r)"
  then obtain i p where i: "i < length (br_prepares r)" "br_prepares r ! i = Some p" "abortCause p \<noteq> None"
    by (auto simp: list_ex_iff in_set_conv_nth aborts_def split: option.splits)
  moreover have "\<not> awaiting p" using i(3) by (cases p) auto
  ultimately have "i < length (br_prepares r')" "br_prepares r' ! i = Some p" using g by (auto simp: record_grows_def)
  then show ?thesis using i(3) by (auto simp: list_ex_iff aborts_def in_set_conv_nth intro!: bexI [of _ "Some p"])
qed

section \<open>Rules of the triple\<close>

lemma steps_inv: "(record_inv (rn_manifest rn) ss r \<Longrightarrow> steps rn ss r m Q) \<Longrightarrow> steps rn ss r m Q"
  by (auto simp: steps_def batch_inv_def)

lemma steps_done: "(record_inv (rn_manifest rn) ss r \<Longrightarrow> Q x r) \<Longrightarrow> steps rn ss r (done_with x) Q"
  by (auto simp: steps_def done_with_def batch_inv_def intro!: exI [of _ r])

lemma steps_throw: "outside_error e \<Longrightarrow> \<not> ports_work (rn_env rn) \<Longrightarrow> steps rn ss r (throw_error e) Q"
  by (auto simp: steps_def throw_error_def)

lemma steps_weaken:
  assumes "steps rn ss r m Q" "\<And>x r'. record_grows r r' \<Longrightarrow> record_inv (rn_manifest rn) ss r' \<Longrightarrow> Q x r' \<Longrightarrow> Q' x r'"
  shows "steps rn ss r m Q'"
  using assms unfolding steps_def batch_inv_def by metis

lemma steps_then:
  assumes m: "steps rn ss r m Q"
    and f: "\<And>x r'. record_inv (rn_manifest rn) ss r' \<Longrightarrow> record_grows r r' \<Longrightarrow> Q x r' \<Longrightarrow> steps rn ss r' (f x) Q'"
  shows "steps rn ss r (and_then m f) Q'"
  unfolding steps_def
proof (intro allI impI)
  fix s assume s: "batch_inv rn ss r s"
  note ms = m [unfolded steps_def, rule_format, OF s]
  obtain r1 where r1: "batch_inv rn ss r1 (snd (m s))" "record_grows r r1" "\<And>x. fst (m s) = Inr x \<Longrightarrow> Q x r1"
    using ms by blast
  let ?R = "and_then m f s"
  show "(\<exists>r'. batch_inv rn ss r' (snd ?R) \<and> record_grows r r' \<and> (\<forall>x. fst ?R = Inr x \<longrightarrow> Q' x r')) \<and>
     (\<forall>e. fst ?R = Inl e \<longrightarrow> outside_error e) \<and>
     (ports_work (rn_env rn) \<and> store_works (rn_env rn) s \<longrightarrow> store_works (rn_env rn) (snd ?R) \<and> (\<exists>x. fst ?R = Inr x))"
  proof (cases "m s")
    case (Pair res s1)
    show ?thesis
    proof (cases res)
      case (Inl e)
      then have "?R = (Inl e, s1)" using Pair by (simp add: and_then_def)
      then show ?thesis using Pair Inl r1 ms by auto
    next
      case (Inr x)
      then have R: "?R = f x s1" using Pair by (simp add: and_then_def)
      have s1: "batch_inv rn ss r1 s1" using r1(1) Pair by simp
      have "steps rn ss r1 (f x) Q'" using f r1 Pair Inr by (simp add: batch_inv_def)
      note fs = this [unfolded steps_def, rule_format, OF s1]
      show ?thesis unfolding R using fs ms r1(2) Pair by (auto intro: record_grows_trans)
    qed
  qed
qed

lemma persist_cases:
  obtains (kept) e where "persist rn nr step call s = (Inl (StoreFailed e), s\<lparr>rs_clock := Suc (rs_clock s)\<rparr>)"
  | (stored) st res where "persist rn nr step call s = (res, s\<lparr>rs_store := st, rs_clock := Suc (rs_clock s)\<rparr>)"
      "getDocument st = (getDocument (rs_store s))(rn_key rn \<mapsto> batch_value nr)" "res = Inr nr \<or> (\<exists>e. res = Inl (StoreFailed e))"
proof -
  let ?k = "rs_clock s" and ?env = "rn_env rn"
  let ?ws = "batch_writes rn (be_mint ?env ?k) step call nr"
  obtain x st where c: "commit_then (be_seam ?env ?k) (rs_store s) (be_epoch ?env) ?ws nr = (x, st)" by (metis surj_pair)
  have p: "persist rn nr step call s = (case x of Inl e \<Rightarrow> Inl (StoreFailed e) | Inr y \<Rightarrow> Inr y, s\<lparr>rs_store := st, rs_clock := Suc ?k\<rparr>)"
    using c by (cases x) (simp_all add: persist_def Let_def)
  from commit_then_cases [OF c] show thesis
  proof (elim disjE)
    assume "st = rs_store s \<and> (\<exists>e. x = Inl e)"
    then show thesis using p kept by auto
  next
    assume "getDocument st = written ?ws (getDocument (rs_store s)) \<and> (x = Inr nr \<or> x = Inl SeamThrow)"
    then show thesis using p stored by (auto simp: batch_writes_def)
  qed
qed

lemma persist_works:
  assumes "store_works (rn_env rn) s"
  shows "store_works (rn_env rn) (snd (persist rn nr step call s))" "\<exists>x. fst (persist rn nr step call s) = Inr x"
  using assms
  by (auto simp: persist_def batch_writes_def store_works_def commit_then_def commitSync_def requireOwner_def Let_def inj_eq split: if_splits)

lemma steps_persist:
  assumes "record_inv (rn_manifest rn) ss nr" "record_grows r nr"
  shows "steps rn ss r (persist rn nr step call) (\<lambda>x r'. x = nr \<and> r' = nr)"
  unfolding steps_def
proof (intro allI impI conjI)
  fix s assume inv: "batch_inv rn ss r s"
  have sent: "list_all (sent_ok (rn_manifest rn) ss nr) (rs_sent s)"
    using inv sent_ok_grows [OF assms(2)] by (auto simp: batch_inv_def list_all_iff)
  show "\<exists>r'. batch_inv rn ss r' (snd (persist rn nr step call s)) \<and> record_grows r r' \<and>
      (\<forall>x. fst (persist rn nr step call s) = Inr x \<longrightarrow> x = nr \<and> r' = nr)"
  proof (cases rule: persist_cases [of rn nr step call s])
    case kept
    then show ?thesis using inv by (intro exI [of _ r]) (auto simp: batch_inv_def)
  next
    case stored
    then show ?thesis using sent assms by (intro exI [of _ nr]) (auto simp: batch_inv_def)
  qed
  show "outside_error e" if "fst (persist rn nr step call s) = Inl e" for e
    using that by (cases rule: persist_cases [of rn nr step call s]) auto
  assume "ports_work (rn_env rn) \<and> store_works (rn_env rn) s"
  then show "store_works (rn_env rn) (snd (persist rn nr step call s))" "\<exists>x. fst (persist rn nr step call s) = Inr x"
    using persist_works by blast+
qed

lemma store_works_tick: "store_works env s \<Longrightarrow> store_works env (s\<lparr>rs_sent := x, rs_clock := Suc (rs_clock s)\<rparr>)"
  by (simp add: store_works_def)

lemma steps_tell:
  assumes "record_inv (rn_manifest rn) ss r \<Longrightarrow> message_cond msg ss r"
  shows "steps rn ss r (tell rn msg) (\<lambda>_ r'. r' = r)"
  using assms by (auto simp: steps_def tell_def batch_inv_def sent_ok_def store_works_tick intro!: exI [of _ r])

lemma steps_ask:
  assumes "record_inv (rn_manifest rn) ss r \<Longrightarrow> message_cond msg ss r"
    and "ports_work (rn_env rn) \<Longrightarrow> \<forall>k. \<exists>x. answers k = Some (Inr x)"
  shows "steps rn ss r (ask rn msg answers) (\<lambda>_ r'. r' = r)"
  unfolding ask_def
proof (rule steps_then [OF steps_tell])
  fix x :: unit and r' assume "r' = r"
  have a: "\<exists>x. answers (rs_clock s) = Some (Inr x)" if "ports_work (rn_env rn)" for s using assms(2) that by blast
  show "steps rn ss r' (\<lambda>s. case answers (rs_clock s) of None \<Rightarrow> (Inl ProcessStopped, s)
     | Some (Inl e) \<Rightarrow> (Inl (CallFailed e), s) | Some (Inr x) \<Rightarrow> (Inr x, s)) (\<lambda>_ r'. r' = r)"
    unfolding steps_def \<open>r' = r\<close>
  proof (intro allI impI, goal_cases)
    case (1 s)
    show ?case
    proof (cases "answers (rs_clock s)")
      case None
      then show ?thesis using 1 a [of s] by auto
    next
      case (Some ans)
      then show ?thesis using 1 a [of s] by (cases ans) auto
    qed
  qed
qed (use assms(1) in blast)

section \<open>Updates of the record\<close>

lemmas inv_defs = record_inv_def record_wf_def Let_def

lemma list_update_at: "j < length xs \<Longrightarrow> xs[i := x] ! j = (if i = j then x else xs ! j)"
  by (simp add: nth_list_update)

lemma set_prepare_inv:
  assumes "record_inv m ss r" "br_decision r = None"
  shows "record_inv m ss (r\<lparr>br_prepares := (br_prepares r)[i := Some reply]\<rparr>)"
  using assms by (auto simp: inv_defs)

lemma set_prepare_grows:
  assumes "br_decision r = None" "\<And>p. br_prepares r ! i = Some p \<Longrightarrow> awaiting p"
    and "denied r i \<Longrightarrow> \<not> awaiting reply \<and> (\<nexists>d. reply = ReplyPrepared d)"
  shows "record_grows r (r\<lparr>br_prepares := (br_prepares r)[i := Some reply]\<rparr>)"
proof -
  have "denied (r\<lparr>br_prepares := (br_prepares r)[i := Some reply]\<rparr>) k" if "k < length (br_prepares r)" "denied r k" for k
    using assms(3) that by (cases "i = k") (auto simp: denied_def recorded_consent_def)
  then show ?thesis using assms(1,2) by (auto simp: record_grows_def list_update_at)
qed

lemma set_consents_inv:
  assumes "record_inv m ss r" "length cs = length ss" "\<And>k. k < length ss \<Longrightarrow> denied r k \<Longrightarrow> denied (r\<lparr>br_consents := Some cs\<rparr>) k"
  shows "record_inv m ss (r\<lparr>br_consents := Some cs\<rparr>)" "record_grows r (r\<lparr>br_consents := Some cs\<rparr>)"
  using assms by (auto simp: inv_defs record_grows_def)

lemma set_outcome_inv:
  assumes "record_inv m ss r" "br_decision r \<noteq> None"
  shows "record_inv m ss (r\<lparr>br_outcomes := (br_outcomes r)[i := Some out]\<rparr>)"
proof -
  have "(br_outcomes r)[i := Some out] ! j \<noteq> None" if "waits ss k j" "k < length ss" "br_outcomes r ! j \<noteq> None" for j k
    using that record_inv_lengths(3) [OF assms(1)] by (simp add: list_update_at waits_def)
  then show ?thesis using assms unfolding record_inv_def by (simp add: record_wf_def Let_def) metis
qed

lemma set_outcome_grows:
  assumes "br_outcomes r ! i = None"
  shows "record_grows r (r\<lparr>br_outcomes := (br_outcomes r)[i := Some out]\<rparr>)"
  using assms by (auto simp: record_grows_def list_update_at denied_def recorded_consent_def)

lemma set_released_inv:
  assumes "record_inv m ss r" "br_decision r = Some RELEASE" "br_prepares r ! i = Some (ReplyPrepared d)"
    and "\<forall>j. waits ss i j \<longrightarrow> br_outcomes r ! j \<noteq> None"
  shows "record_inv m ss (r\<lparr>br_released := (br_released r)[i := True]\<rparr>)" "record_grows r (r\<lparr>br_released := (br_released r)[i := True]\<rparr>)"
  using assms by (auto simp: inv_defs record_grows_def denied_def recorded_consent_def list_update_at split: if_splits)

lemma set_decision_inv:
  assumes "record_inv m ss r" "br_decision r = None" "\<not> list_ex aborts (br_prepares r) \<Longrightarrow>
      \<forall>i<length ss. \<exists>p. br_prepares r ! i = Some p \<and> \<not> awaiting p"
  shows "record_inv m ss (r\<lparr>br_decision := Some (if list_ex aborts (br_prepares r) then ABORT else RELEASE)\<rparr>)"
    "record_grows r (r\<lparr>br_decision := Some (if list_ex aborts (br_prepares r) then ABORT else RELEASE)\<rparr>)"
proof -
  have "abortCause p = None" if "\<not> list_ex aborts (br_prepares r)" "i < length ss" "br_prepares r ! i = Some p" for i p
  proof -
    have "Some p \<in> set (br_prepares r)" using that assms(1) by (metis nth_mem record_inv_lengths(1))
    then show ?thesis using that(1) by (auto simp: list_ex_iff aborts_def)
  qed
  then show "record_inv m ss (r\<lparr>br_decision := Some (if list_ex aborts (br_prepares r) then ABORT else RELEASE)\<rparr>)"
    using assms by (auto simp: inv_defs split: if_splits)
  show "record_grows r (r\<lparr>br_decision := Some (if list_ex aborts (br_prepares r) then ABORT else RELEASE)\<rparr>)"
    using assms(2) by (auto simp: record_grows_def denied_def recorded_consent_def)
qed

definition unsettled :: "batch_record \<Rightarrow> nat" where
  "unsettled r = length (filter (\<lambda>x. x = None) (br_outcomes r))"

lemma unsettled_settle:
  assumes "i < length (br_outcomes r)" "br_outcomes r ! i = None"
  shows "unsettled (r\<lparr>br_outcomes := (br_outcomes r)[i := Some out]\<rparr>) < unsettled r"
proof -
  have "i < length xs \<Longrightarrow> xs ! i = None \<Longrightarrow> length (filter (\<lambda>x. x = None) (xs[i := Some out])) < length (filter (\<lambda>x. x = None) xs)"
    for xs :: "call_outcome option list"
    by (induction xs arbitrary: i) (auto simp: nth_Cons split: nat.splits)
  then show ?thesis using assms by (simp add: unsettled_def)
qed

text \<open>What is left to release after the calls that will not run have been settled.\<close>

definition to_release :: "bool list \<Rightarrow> batch_record \<Rightarrow> bool" where
  "to_release ss r \<longleftrightarrow> br_decision r \<noteq> None \<and> (\<forall>i<length ss. br_outcomes r ! i = None \<longrightarrow>
     br_decision r = Some RELEASE \<and> (\<exists>d. br_prepares r ! i = Some (ReplyPrepared d)))"

lemma to_release_grows: "to_release ss r \<Longrightarrow> record_grows r r' \<Longrightarrow> length (br_outcomes r) = length ss \<Longrightarrow> to_release ss r'"
proof -
  assume h: "to_release ss r" "record_grows r r'" "length (br_outcomes r) = length ss"
  have "br_outcomes r ! i = None" if "i < length ss" "br_outcomes r' ! i = None" for i
    using h(2,3) that by (cases "br_outcomes r ! i") (auto simp: record_grows_def)
  then show ?thesis using h(1,2) by (auto simp: to_release_def record_grows_def)
qed

definition settled_or_ready :: "batch_record \<Rightarrow> manifest_call \<Rightarrow> bool" where
  "settled_or_ready r call \<longleftrightarrow> (br_outcomes r ! mc_sourceIndex call = None \<longrightarrow>
     br_decision r = Some RELEASE \<and> (\<exists>d. br_prepares r ! mc_sourceIndex call = Some (ReplyPrepared d)))"

text \<open>The calls in flight are unsettled; after a scan every unsettled call is in flight or waits for another.\<close>

definition flying :: "bool list \<Rightarrow> batch_record \<Rightarrow> inflight \<Rightarrow> bool" where
  "flying ss r infl \<longleftrightarrow> distinct (map fst infl) \<and> (\<forall>j \<in> fst ` set infl. j < length ss \<and> br_outcomes r ! j = None)"

definition in_flight_or_waiting :: "bool list \<Rightarrow> batch_record \<Rightarrow> inflight \<Rightarrow> nat \<Rightarrow> bool" where
  "in_flight_or_waiting ss r infl i \<longleftrightarrow>
     (br_outcomes r ! i = None \<longrightarrow> i \<in> fst ` set infl \<or> (\<exists>j. waits ss i j \<and> br_outcomes r ! j = None))"

lemma flying_snoc:
  "flying ss r infl \<Longrightarrow> br_outcomes r' = br_outcomes r \<Longrightarrow> i < length ss \<Longrightarrow> br_outcomes r ! i = None \<Longrightarrow> i \<notin> fst ` set infl \<Longrightarrow>
    flying ss r' (infl @ [(i, x)])"
  by (simp add: flying_def)

lemma nothing_in_flight:
  assumes "\<forall>i<length ss. in_flight_or_waiting ss r [] i"
  shows "i < length ss \<Longrightarrow> br_outcomes r ! i \<noteq> None"
proof (induction i rule: less_induct)
  case (less i)
  show ?case
  proof
    assume "br_outcomes r ! i = None"
    then obtain j where "waits ss i j" "br_outcomes r ! j = None" using assms less.prems by (auto simp: in_flight_or_waiting_def)
    then show False using less.IH [of j] less.prems by (auto simp: waits_def)
  qed
qed

section \<open>The operations of a run\<close>

text \<open>What the coordinator relies on of the planner: calls are in source order, and a call is ready exactly when all
  it waits for have outcomes.\<close>

locale planned_run =
  fixes rn :: batch_run and ss :: "bool list"
  assumes calls_length: "length (bm_calls (rn_manifest rn)) = length ss"
    and call_index: "i < length ss \<Longrightarrow> mc_sourceIndex (bm_calls (rn_manifest rn) ! i) = i"
    and call_ready: "length outcomes = length ss \<Longrightarrow> i < length ss \<Longrightarrow>
      list_all (finished (bm_calls (rn_manifest rn)) outcomes) (mc_dependsOn (bm_calls (rn_manifest rn) ! i)) \<longleftrightarrow>
      (\<forall>j. waits ss i j \<longrightarrow> (outcomes ! j :: call_outcome option) \<noteq> None)"
begin

lemma call_in:
  assumes "call \<in> set (bm_calls (rn_manifest rn))"
  shows "mc_sourceIndex call < length ss" "bm_calls (rn_manifest rn) ! mc_sourceIndex call = call"
  using assms call_index calls_length by (auto simp: in_set_conv_nth)

lemma record_reads:
  assumes "record_inv (rn_manifest rn) ss r" "call \<in> set (bm_calls (rn_manifest rn))"
  shows "prepared_reply r (mc_sourceIndex call) = br_prepares r ! mc_sourceIndex call"
    "no_outcome r (mc_sourceIndex call) \<longleftrightarrow> br_outcomes r ! mc_sourceIndex call = None"
    "nth_opt (br_released r) (mc_sourceIndex call) = Some True \<longleftrightarrow> br_released r ! mc_sourceIndex call"
  using call_in [OF assms(2)] record_inv_lengths [OF assms(1)] by (auto simp: prepared_reply_def no_outcome_def nth_opt_def)

lemma steps_setPrepare:
  assumes "call \<in> set (bm_calls (rn_manifest rn))" "br_decision r = None"
    and "\<And>p. br_prepares r ! mc_sourceIndex call = Some p \<Longrightarrow> awaiting p"
    and "denied r (mc_sourceIndex call) \<Longrightarrow> \<not> awaiting reply \<and> (\<nexists>d. reply = ReplyPrepared d)"
  shows "steps rn ss r (setPrepare rn call reply r)
    (\<lambda>x r'. x = r' \<and> br_decision r' = None \<and> br_prepares r' ! mc_sourceIndex call = Some reply)"
proof (rule steps_inv)
  assume inv: "record_inv (rn_manifest rn) ss r"
  show ?thesis unfolding setPrepare_def
    by (rule steps_weaken [OF steps_persist [OF set_prepare_inv [OF inv assms(2)] set_prepare_grows [OF assms(2-4)]]])
      (use call_in(1) [OF assms(1)] record_inv_lengths(1) [OF inv] assms(2) in auto)
qed

lemma steps_abort:
  assumes "call \<in> set (bm_calls (rn_manifest rn))" "denied r (mc_sourceIndex call)"
  shows "steps rn ss r (abort_call rn call) (\<lambda>_ r'. r' = r)"
  unfolding abort_call_def using assms call_in(1) [OF assms(1)]
  by (intro steps_ask) (auto simp: ports_work_def)

lemma steps_settle:
  assumes "call \<in> set (bm_calls (rn_manifest rn))" "br_decision r \<noteq> None" "br_outcomes r ! mc_sourceIndex call = None"
  shows "steps rn ss r (settle_call rn call out r)
    (\<lambda>x r'. x = r' \<and> r' = r\<lparr>br_outcomes := (br_outcomes r)[mc_sourceIndex call := Some out]\<rparr>)"
proof (rule steps_inv)
  assume inv: "record_inv (rn_manifest rn) ss r"
  show ?thesis unfolding settle_call_def
    by (rule steps_weaken [OF steps_persist [OF set_outcome_inv [OF inv assms(2)] set_outcome_grows [OF assms(3)]]]) auto
qed

lemma steps_record_consent:
  assumes "call \<in> set (bm_calls (rn_manifest rn))" "\<not> denied r (mc_sourceIndex call)"
  shows "steps rn ss r (record_consent rn call c r) (\<lambda>x r'. x = r' \<and> br_decision r' = br_decision r \<and> br_prepares r' = br_prepares r \<and>
    recorded_consent r' (mc_sourceIndex call) = Some c)"
proof (rule steps_inv)
  assume inv: "record_inv (rn_manifest rn) ss r"
  let ?i = "mc_sourceIndex call"
  define cs where "cs = (case br_consents r of Some cs \<Rightarrow> cs | None \<Rightarrow> map (\<lambda>_. None) (bm_calls (rn_manifest rn)))"
  have len: "length cs = length ss" using inv calls_length by (auto simp: inv_defs cs_def split: option.splits)
  have "recorded_consent r k = cs ! k" if "k < length ss" for k
    using len that calls_length by (auto simp: recorded_consent_def cs_def nth_opt_def split: option.splits)
  then have "denied (r\<lparr>br_consents := Some (cs[?i := Some c])\<rparr>) k" if "k < length ss" "denied r k" for k
    using len that assms(2) by (cases "k = ?i") (auto simp: denied_def recorded_consent_def nth_opt_def)
  note up = set_consents_inv [OF inv, of "cs[?i := Some c]", OF _ this]
  show ?thesis unfolding record_consent_def Let_def cs_def [symmetric]
    by (rule steps_weaken [OF steps_persist [OF up]]) (use len call_in(1) [OF assms(1)] in \<open>auto simp: recorded_consent_def nth_opt_def\<close>)
qed

text \<open>The consent asked for is about the frozen arguments the prepare answered with, or comes before the prepare.\<close>

lemma steps_answer_consent:
  assumes "call \<in> set (bm_calls (rn_manifest rn))" "br_decision r = None"
    and "br_prepares r ! mc_sourceIndex call = (if gate = GateRaw then None else Some (ReplyAwaitingConsent digest))"
  shows "steps rn ss r (answer_consent rn call gate digest r)
    (\<lambda>(given, x) r'. x = r' \<and> br_decision r' = None \<and> br_prepares r' = br_prepares r \<and>
      recorded_consent r' (mc_sourceIndex call) = Some \<lparr>cr_gate = gate, cr_digest = digest, cr_answer = given\<rparr>)"
    (is "steps rn ss r _ ?Q")
proof -
  have "steps rn ss r
     (and_then (ask rn (MsgApprove (mc_sourceIndex call) (consent_request_of rn call gate digest))
            (\<lambda>k. be_approve (rn_env rn) k (consent_request_of rn call gate digest))) (\<lambda>given.
        and_then (record_consent rn call \<lparr>cr_gate = gate, cr_digest = digest, cr_answer = given\<rparr> r) (\<lambda>r.
        done_with (given, r)))) ?Q"
    if nd: "\<not> denied r (mc_sourceIndex call)"
  proof (rule steps_then [OF steps_ask])
    show "message_cond (MsgApprove (mc_sourceIndex call) (consent_request_of rn call gate digest)) ss r" using assms(2) by simp
    show "\<forall>k. \<exists>x. be_approve (rn_env rn) k (consent_request_of rn call gate digest) = Some (Inr x)" if "ports_work (rn_env rn)"
      using that by (auto simp: ports_work_def)
    fix given r' assume "r' = r"
    then show "steps rn ss r' (and_then (record_consent rn call \<lparr>cr_gate = gate, cr_digest = digest, cr_answer = given\<rparr> r) (\<lambda>r.
        done_with (given, r))) ?Q"
      by simp (rule steps_then [OF steps_record_consent [OF assms(1) nd]], use assms(2) in \<open>auto intro!: steps_done\<close>)
  qed
  moreover have "\<not> denied r (mc_sourceIndex call)"
    if "\<And>c. recorded_consent r (mc_sourceIndex call) = Some c \<Longrightarrow> \<not> (cr_gate c = gate \<and> cr_digest c = digest)"
    using that assms(2,3) by (auto simp: denied_def split: if_splits) (metis consent_gate.exhaust)
  moreover have "steps rn ss r (done_with (cr_answer c, r)) ?Q"
    if "recorded_consent r (mc_sourceIndex call) = Some c" "cr_gate c = gate \<and> cr_digest c = digest" for c
    using assms(2) that by (auto intro!: steps_done)
  ultimately show ?thesis by (auto simp: answer_consent_def Let_def split: option.splits)
qed

lemma steps_gateRawCall:
  assumes "call \<in> set (bm_calls (rn_manifest rn))" "br_decision r = None" "br_prepares r ! mc_sourceIndex call = None"
  shows "steps rn ss r (gateRawCall rn needs call r) (\<lambda>(g, x) r'. x = r' \<and> br_decision r' = None \<and> br_prepares r' = br_prepares r)"
proof -
  have "steps rn ss r (and_then (answer_consent rn call GateRaw (mc_requestDigest call) r) (\<lambda>(given, r).
        done_with (if given = Approved then GateOpen (Some (mc_requestDigest call)) else GateBlocked (denied_reply GateRaw given), r)))
      (\<lambda>(g, x) r'. x = r' \<and> br_decision r' = None \<and> br_prepares r' = br_prepares r)"
    by (rule steps_then [OF steps_answer_consent [OF assms(1,2)]]) (use assms(3) in \<open>auto intro!: steps_done\<close>)
  then show ?thesis using assms(2) by (auto simp: gateRawCall_def intro!: steps_done)
qed

lemma steps_consentOn:
  assumes "br_decision r = None"
  shows "steps rn ss r (consentOn rn call d) (\<lambda>_ r'. r' = r)"
  using assms unfolding consentOn_def by (auto intro!: steps_throw steps_ask simp: ports_work_def)

lemma steps_resolveFrozenConsent:
  assumes c: "call \<in> set (bm_calls (rn_manifest rn))" "br_decision r = None"
    and p: "br_prepares r ! mc_sourceIndex call = Some (ReplyAwaitingConsent d)"
  shows "steps rn ss r (resolveFrozenConsent rn call d r)
    (\<lambda>(reply, x) r'. x = r' \<and> br_decision r' = None \<and> br_prepares r' = br_prepares r \<and> \<not> awaiting reply \<and>
      (denied r' (mc_sourceIndex call) \<longrightarrow> (\<nexists>d. reply = ReplyPrepared d)))"
    (is "steps rn ss r _ ?Q")
  unfolding resolveFrozenConsent_def
proof (rule steps_then [OF steps_answer_consent [OF c]], goal_cases)
  case (2 x r1)
  obtain given where x: "x = (given, r1)" and r1: "br_decision r1 = None" "br_prepares r1 = br_prepares r"
      "recorded_consent r1 (mc_sourceIndex call) = Some \<lparr>cr_gate = GateFrozen, cr_digest = d, cr_answer = given\<rparr>"
    using 2(3) by (cases x) auto
  have den: "denied r1 (mc_sourceIndex call) \<longleftrightarrow> given = Denied" using r1 p by (auto simp: denied_def)
  have fin: "steps rn ss r1 (done_with (reply, r1)) ?Q" if "\<not> awaiting reply" "given = Denied \<Longrightarrow> (\<nexists>d. reply = ReplyPrepared d)" for reply
    using r1 that den by (intro steps_done) auto
  show ?case
  proof (cases given)
    case Denied
    have "steps rn ss r1 (and_then (abort_call rn call) (\<lambda>_. done_with (denied_reply GateFrozen Denied, r1))) ?Q"
      by (rule steps_then [OF steps_abort [OF c(1)]]) (use den fin Denied in \<open>auto simp: denied_reply_def\<close>)
    then show ?thesis using x Denied by simp
  next
    case Expired
    then show ?thesis using x fin by simp
  next
    case Approved
    have "steps rn ss r1 (and_then (consentOn rn call d) (\<lambda>reply. done_with (case reply of
             ConsentPrepared \<Rightarrow> ReplyPrepared d
           | ConsentSettled UnknownExecution \<Rightarrow> ReplySettled lost_outcome
           | ConsentSettled (SettledReply out) \<Rightarrow> ReplySettled out, r1))) ?Q"
      by (rule steps_then [OF steps_consentOn [OF r1(1)]]) (use fin Approved in \<open>auto split: consent_reply.splits settle_reply.splits\<close>)
    then show ?thesis using x Approved by simp
  qed
qed (use p in simp)

lemma steps_prepare_call:
  assumes "call \<in> set (bm_calls (rn_manifest rn))" "br_decision r = None"
  shows "steps rn ss r (prepare_call rn call r) (\<lambda>x r'. x = r' \<and> br_decision r' = None \<and> br_prepares r' ! mc_sourceIndex call \<noteq> None)"
proof (rule steps_inv)
  assume inv: "record_inv (rn_manifest rn) ss r"
  note i = record_reads [OF inv assms(1)] call_in(1) [OF assms(1)]
  have gate: "steps rn ss r (case be_needsConsent (rn_env rn) of None \<Rightarrow> done_with (GateOpen None, r) | Some needs \<Rightarrow> gateRawCall rn needs call r)
      (\<lambda>(g, x) r'. x = r' \<and> br_decision r' = None \<and> br_prepares r' = br_prepares r)"
    if "br_prepares r ! mc_sourceIndex call = None"
    using steps_gateRawCall [OF assms that] assms(2) by (auto split: option.splits intro!: steps_done)
  show ?thesis
  proof (cases "br_prepares r ! mc_sourceIndex call")
    case None
    have "steps rn ss r' (case g of GateBlocked reply \<Rightarrow> setPrepare rn call reply r'
        | GateOpen approvedDigest \<Rightarrow>
            and_then (ask rn (MsgPrepare (mc_sourceIndex call) (prepare_request_of rn call approvedDigest))
              (\<lambda>k. be_prepare (rn_env rn) k (bc_executor call) (prepare_request_of rn call approvedDigest)))
              (\<lambda>reply. setPrepare rn call reply r'))
       (\<lambda>x r'. x = r' \<and> br_decision r' = None \<and> br_prepares r' ! mc_sourceIndex call \<noteq> None)"
      if "br_decision r' = None" "br_prepares r' = br_prepares r" for g r'
    proof -
      have sp: "steps rn ss r' (setPrepare rn call reply r')
          (\<lambda>x r'. x = r' \<and> br_decision r' = None \<and> br_prepares r' ! mc_sourceIndex call \<noteq> None)" for reply
        by (rule steps_weaken [OF steps_setPrepare]) (use assms(1) that None in \<open>auto simp: denied_def\<close>)
      show ?thesis using sp that None i(4)
        by (cases g) (auto intro!: steps_then [OF steps_ask] simp: ports_work_def)
    qed
    then have "steps rn ss r (and_then (case be_needsConsent (rn_env rn) of None \<Rightarrow> done_with (GateOpen None, r) | Some needs \<Rightarrow> gateRawCall rn needs call r)
       (\<lambda>(g, r'). case g of GateBlocked reply \<Rightarrow> setPrepare rn call reply r'
        | GateOpen approvedDigest \<Rightarrow>
            and_then (ask rn (MsgPrepare (mc_sourceIndex call) (prepare_request_of rn call approvedDigest))
              (\<lambda>k. be_prepare (rn_env rn) k (bc_executor call) (prepare_request_of rn call approvedDigest)))
              (\<lambda>reply. setPrepare rn call reply r')))
       (\<lambda>x r'. x = r' \<and> br_decision r' = None \<and> br_prepares r' ! mc_sourceIndex call \<noteq> None)"
      by (intro steps_then [OF gate [OF None]]) auto
    then show ?thesis unfolding prepare_call_def using i(1) None by simp
  next
    case (Some p)
    then show ?thesis using i(1) assms(2) by (auto simp: prepare_call_def intro!: steps_done)
  qed
qed

lemma steps_prepare_loop:
  assumes "set calls \<subseteq> set (bm_calls (rn_manifest rn))" "br_decision r = None"
  shows "steps rn ss r (prepare_loop rn calls r) (\<lambda>x r'. x = r' \<and> br_decision r' = None \<and>
    (list_ex aborts (br_prepares r') \<or> (\<forall>call \<in> set calls. br_prepares r' ! mc_sourceIndex call \<noteq> None)))"
  using assms
proof (induction calls arbitrary: r)
  case (Cons call calls)
  have c: "call \<in> set (bm_calls (rn_manifest rn))" using Cons.prems(1) by simp
  show ?case unfolding prepare_loop.simps
  proof (rule steps_then [OF steps_prepare_call [OF c Cons.prems(2)]], clarify)
    fix r' p assume r': "record_inv (rn_manifest rn) ss r'" "br_decision r' = None" "br_prepares r' ! mc_sourceIndex call = Some p"
    note i = call_in(1) [OF c] record_inv_lengths(1) [OF r'(1)]
    show "steps rn ss r' (if aborts (prepared_reply r' (mc_sourceIndex call)) then done_with r' else prepare_loop rn calls r')
       (\<lambda>x r'. x = r' \<and> br_decision r' = None \<and>
         (list_ex aborts (br_prepares r') \<or> (\<forall>call' \<in> set (call # calls). br_prepares r' ! mc_sourceIndex call' \<noteq> None)))"
    proof (cases "aborts (prepared_reply r' (mc_sourceIndex call))")
      case True
      then have "list_ex aborts (br_prepares r')" using record_reads(1) [OF r'(1) c] i by (auto simp: list_ex_iff intro!: bexI [OF _ nth_mem])
      then show ?thesis using True r'(2) by (auto intro!: steps_done)
    next
      case False
      have "steps rn ss r' (prepare_loop rn calls r')
       (\<lambda>x r'. x = r' \<and> br_decision r' = None \<and>
         (list_ex aborts (br_prepares r') \<or> (\<forall>call' \<in> set (call # calls). br_prepares r' ! mc_sourceIndex call' \<noteq> None)))"
        by (rule steps_weaken [OF Cons.IH]) (use Cons.prems(1) r' i in \<open>auto simp: record_grows_def\<close>)
      then show ?thesis using False by simp
    qed
  qed
qed (auto intro!: steps_done)

lemma prepared_grows:
  assumes "record_grows r r'" "record_inv (rn_manifest rn) ss r" "call \<in> set (bm_calls (rn_manifest rn))"
    "br_prepares r ! mc_sourceIndex call \<noteq> None"
  shows "br_prepares r' ! mc_sourceIndex call \<noteq> None"
  using assms call_in(1) [OF assms(3)] record_inv_lengths(1) [OF assms(2)] unfolding record_grows_def by (metis option.exhaust)

lemma steps_consent_loop:
  assumes "set calls \<subseteq> set (bm_calls (rn_manifest rn))" "br_decision r = None"
    and "list_ex aborts (br_prepares r) \<or> (\<forall>call \<in> set calls. br_prepares r ! mc_sourceIndex call \<noteq> None)"
  shows "steps rn ss r (consent_loop rn calls r) (\<lambda>x r'. x = r' \<and> br_decision r' = None \<and>
    (list_ex aborts (br_prepares r') \<or> (\<forall>call \<in> set calls. \<exists>p. br_prepares r' ! mc_sourceIndex call = Some p \<and> \<not> awaiting p)))"
  using assms
proof (induction calls arbitrary: r)
  case (Cons call calls)
  let ?Q = "\<lambda>x r'. x = r' \<and> br_decision r' = None \<and>
    (list_ex aborts (br_prepares r') \<or> (\<forall>call' \<in> set (call # calls). \<exists>p. br_prepares r' ! mc_sourceIndex call' = Some p \<and> \<not> awaiting p))"
  have c: "call \<in> set (bm_calls (rn_manifest rn))" using Cons.prems(1) by simp
  show ?case
  proof (rule steps_inv)
    assume inv: "record_inv (rn_manifest rn) ss r"
    have go: "steps rn ss r' (consent_loop rn calls r') ?Q"
      if h: "br_decision r' = None" "br_prepares r' ! mc_sourceIndex call = Some p" "\<not> awaiting p" "record_inv (rn_manifest rn) ss r'"
        "record_grows r r'" for r' p
    proof (rule steps_weaken [OF Cons.IH])
      show "list_ex aborts (br_prepares r') \<or> (\<forall>call \<in> set calls. br_prepares r' ! mc_sourceIndex call \<noteq> None)"
      proof (cases "list_ex aborts (br_prepares r')")
        case False
        then have p: "\<forall>call \<in> set calls. br_prepares r ! mc_sourceIndex call \<noteq> None" using Cons.prems(3) aborts_grows [OF h(5)] by auto
        then show ?thesis using prepared_grows [OF h(5) inv] Cons.prems(1) by (meson in_mono list.set_intros(2))
      qed simp
    qed (use Cons.prems(1) h call_in(1) [OF c] record_inv_lengths(1) [OF h(4)] in \<open>auto simp: record_grows_def\<close>)
    show ?thesis
    proof (cases "list_ex aborts (br_prepares r)")
      case True
      then show ?thesis using Cons.prems(2) by (auto intro!: steps_done)
    next
      case False
      then obtain p where p: "br_prepares r ! mc_sourceIndex call = Some p" using Cons.prems(3) by auto
      show ?thesis
      proof (cases "awaiting p")
        case False
        then show ?thesis using go [OF Cons.prems(2) p False inv] \<open>\<not> list_ex aborts (br_prepares r)\<close> record_reads(1) [OF inv c] p
          by (cases p) simp_all
      next
        case True
        then obtain d where d: "p = ReplyAwaitingConsent d" by (cases p) auto
        have "steps rn ss r (and_then (resolveFrozenConsent rn call d r) (\<lambda>(reply, r). and_then (setPrepare rn call reply r) (consent_loop rn calls))) ?Q"
        proof (rule steps_then [OF steps_resolveFrozenConsent [OF c Cons.prems(2) p [unfolded d]]], clarify)
          fix reply and r' :: batch_record
          assume h: "record_grows r r'" "br_decision r' = None" "br_prepares r' = br_prepares r" "\<not> awaiting reply"
            "denied r' (mc_sourceIndex call) \<longrightarrow> (\<nexists>d. reply = ReplyPrepared d)"
          show "steps rn ss r' (and_then (setPrepare rn call reply r') (consent_loop rn calls)) ?Q"
          proof (rule steps_then [OF steps_setPrepare [OF c h(2)]])
            show "\<not> awaiting reply \<and> (\<nexists>d. reply = ReplyPrepared d)" if "denied r' (mc_sourceIndex call)" using that h(4,5) by blast
            show "awaiting q" if "br_prepares r' ! mc_sourceIndex call = Some q" for q using that h(3) p d by auto
            fix x and r2 :: batch_record assume k: "record_inv (rn_manifest rn) ss r2" "record_grows r' r2"
              "x = r2 \<and> br_decision r2 = None \<and> br_prepares r2 ! mc_sourceIndex call = Some reply"
            then show "steps rn ss r2 (consent_loop rn calls x) ?Q" using go [of r2 reply] h(1,4) record_grows_trans by auto
          qed
        qed
        then show ?thesis using \<open>\<not> list_ex aborts (br_prepares r)\<close> record_reads(1) [OF inv c] p d
          by (auto intro!: steps_throw simp: ports_work_def)
      qed
    qed
  qed
qed (auto intro!: steps_done)

lemma steps_decide:
  assumes "br_decision r = None" "list_ex aborts (br_prepares r) \<or>
      (\<forall>call \<in> set (bm_calls (rn_manifest rn)). \<exists>p. br_prepares r ! mc_sourceIndex call = Some p \<and> \<not> awaiting p)"
  shows "steps rn ss r (decide_batch rn r) (\<lambda>x r'. x = r' \<and> br_decision r' \<noteq> None)"
proof (rule steps_inv)
  assume inv: "record_inv (rn_manifest rn) ss r"
  have "\<forall>i<length ss. \<exists>p. br_prepares r ! i = Some p \<and> \<not> awaiting p" if "\<not> list_ex aborts (br_prepares r)"
    using that assms(2) call_index calls_length by (metis nth_mem)
  note d = set_decision_inv [OF inv assms(1) this]
  show ?thesis unfolding decide_batch_def by (rule steps_weaken [OF steps_persist [OF d]]) auto
qed

lemma steps_prepare_phase: "steps rn ss r (prepare_phase rn r) (\<lambda>x r'. x = r' \<and> br_decision r' \<noteq> None)"
proof (cases "br_decision r")
  case None
  have "steps rn ss r (and_then (prepare_loop rn (bm_calls (rn_manifest rn)) r)
      (\<lambda>r. and_then (consent_loop rn (bm_calls (rn_manifest rn)) r) (decide_batch rn))) (\<lambda>x r'. x = r' \<and> br_decision r' \<noteq> None)"
    by (rule steps_then [OF steps_prepare_loop [OF order_refl None]], clarify)
      (rule steps_then [OF steps_consent_loop], auto intro!: steps_decide simp del: not_None_eq)
  then show ?thesis using None by (simp add: prepare_phase_def Let_def)
qed (simp add: prepare_phase_def steps_done)

lemma settled_or_ready_grows:
  assumes "settled_or_ready r call" "record_grows r r'" "br_decision r \<noteq> None" "record_inv (rn_manifest rn) ss r"
    "call \<in> set (bm_calls (rn_manifest rn))"
  shows "settled_or_ready r' call"
proof -
  have "br_outcomes r ! mc_sourceIndex call = None" if "br_outcomes r' ! mc_sourceIndex call = None"
    using assms(2) that call_in(1) [OF assms(5)] record_inv_lengths(3) [OF assms(4)]
    by (cases "br_outcomes r ! mc_sourceIndex call") (auto simp: record_grows_def)
  then show ?thesis using assms(1-3) by (auto simp: settled_or_ready_def record_grows_def)
qed

lemma steps_settle_unrun:
  assumes "call \<in> set (bm_calls (rn_manifest rn))" "br_decision r \<noteq> None"
  shows "steps rn ss r (settle_unrun rn cause call r) (\<lambda>x r'. x = r' \<and> br_decision r' \<noteq> None \<and> settled_or_ready r' call)"
proof (rule steps_inv)
  let ?Q = "\<lambda>x r'. x = r' \<and> br_decision r' \<noteq> None \<and> settled_or_ready r' call"
  assume inv: "record_inv (rn_manifest rn) ss r"
  note i = record_reads [OF inv assms(1)] call_in(1) [OF assms(1)] record_inv_lengths [OF inv]
  show ?thesis
  proof (cases "br_outcomes r ! mc_sourceIndex call")
    case (Some x)
    then show ?thesis using i assms(2) by (auto simp: settle_unrun_def settled_or_ready_def intro!: steps_done)
  next
    case None
    have settle: "steps rn ss r (settle_call rn call out r) ?Q" for out
      by (rule steps_weaken [OF steps_settle [OF assms None]]) (use i assms(2) in \<open>auto simp: settled_or_ready_def\<close>)
    have abort: "steps rn ss r (and_then (abort_call rn call) (\<lambda>_. settle_call rn call out r)) ?Q"
      if "denied r (mc_sourceIndex call)" for out
      by (rule steps_then [OF steps_abort [OF assms(1) that]]) (use settle in auto)
    have notrun: "steps rn ss r (and_then (if b then and_then (abort_call rn call) (\<lambda>_. done_with ()) else done_with ())
        (\<lambda>_. settle_call rn call out r)) ?Q" if "br_decision r = Some ABORT" for b out
    proof (rule steps_then [where Q = "\<lambda>_ q. q = r"])
      show "steps rn ss r (if b then and_then (abort_call rn call) (\<lambda>_. done_with ()) else done_with ()) (\<lambda>_ q. q = r)"
        using steps_abort [OF assms(1), of r] that by (auto intro!: steps_done steps_then [where Q = "\<lambda>_ q. q = r"] simp: denied_def)
    qed (use settle in auto)
    have keep: "steps rn ss r (done_with r) ?Q" if "br_decision r = Some RELEASE" "br_prepares r ! mc_sourceIndex call = Some (ReplyPrepared d)" for d
      using that by (auto intro!: steps_done simp: settled_or_ready_def)
    have rel: "\<exists>p. br_prepares r ! mc_sourceIndex call = Some p \<and> abortCause p = None \<and> \<not> awaiting p" if "br_decision r = Some RELEASE"
      using that inv i(4) by (auto simp: record_inv_def)
    show ?thesis
    proof (cases "prepared_reply r (mc_sourceIndex call)")
      case reply: None
      then have "br_decision r = Some ABORT" using rel i(1) assms(2) by (cases "br_decision r"; cases "the (br_decision r)") auto
      then show ?thesis using notrun [of False] reply None i(2) by (simp add: settle_unrun_def)
    next
      case reply: (Some p)
      have d: "br_decision r = Some ABORT \<or> br_decision r = Some RELEASE" using assms(2) by (metis batch_decision.exhaust option.exhaust)
      show ?thesis using d reply None i(1,2) rel settle abort notrun [of True] keep
        by (cases p) (auto simp: settle_unrun_def denied_def)
    qed
  qed
qed

lemma steps_settle_loop:
  assumes "set calls \<subseteq> set (bm_calls (rn_manifest rn))" "br_decision r \<noteq> None"
  shows "steps rn ss r (settle_loop rn cause calls r) (\<lambda>x r'. x = r' \<and> br_decision r' \<noteq> None \<and> (\<forall>call \<in> set calls. settled_or_ready r' call))"
  using assms
proof (induction calls arbitrary: r)
  case (Cons call calls)
  have c: "call \<in> set (bm_calls (rn_manifest rn))" using Cons.prems(1) by simp
  show ?case unfolding settle_loop.simps
  proof (rule steps_then [OF steps_settle_unrun [OF c Cons.prems(2)]])
    fix x and r' :: batch_record assume h: "record_inv (rn_manifest rn) ss r'" "x = r' \<and> br_decision r' \<noteq> None \<and> settled_or_ready r' call"
    show "steps rn ss r' (settle_loop rn cause calls x)
        (\<lambda>x r'. x = r' \<and> br_decision r' \<noteq> None \<and> (\<forall>call \<in> set (call # calls). settled_or_ready r' call))"
      unfolding conjunct1 [OF h(2)]
      by (rule steps_weaken [OF Cons.IH]) (use Cons.prems(1) h settled_or_ready_grows [OF _ _ _ h(1) c] in auto)
  qed
qed (auto intro!: steps_done)

lemma all_settled_or_ready:
  "(\<forall>call \<in> set (bm_calls (rn_manifest rn)). settled_or_ready r call) \<Longrightarrow> br_decision r \<noteq> None \<Longrightarrow> to_release ss r"
  unfolding to_release_def settled_or_ready_def using call_index calls_length by (metis nth_mem)

lemma steps_release_call:
  assumes c: "call \<in> set (bm_calls (rn_manifest rn))" and tr: "to_release ss r" and fl: "flying ss r infl"
  shows "steps rn ss r (release_call rn call r infl) (\<lambda>(x, infl') r'. x = r' \<and> to_release ss r' \<and> br_outcomes r' = br_outcomes r \<and>
    flying ss r' infl' \<and> fst ` set infl \<subseteq> fst ` set infl' \<and> in_flight_or_waiting ss r' infl' (mc_sourceIndex call))"
    (is "steps rn ss r _ ?Q")
proof (rule steps_inv)
  assume inv: "record_inv (rn_manifest rn) ss r"
  let ?i = "mc_sourceIndex call"
  note i = record_reads [OF inv c] call_in [OF c] record_inv_lengths [OF inv]
  have keep: "steps rn ss r (done_with (r, infl)) ?Q" if "in_flight_or_waiting ss r infl ?i"
    using that tr fl by (auto intro!: steps_done)
  show ?thesis
  proof (cases "br_outcomes r ! ?i \<noteq> None \<or> ?i \<in> fst ` set infl")
    case True
    then have "in_flight_or_waiting ss r infl ?i" by (auto simp: in_flight_or_waiting_def)
    moreover have "\<not> no_outcome r ?i \<or> ?i \<in> fst ` set infl" using True i(2) by (simp del: not_None_eq)
    ultimately show ?thesis using keep unfolding release_call_def Let_def by (simp only: if_True)
  next
    case False
    have send: "steps rn ss r' (and_then (tell rn (MsgRelease ?i (ref_of rn call))) (\<lambda>_. done_with (r', infl @ [(?i, ref_of rn call)]))) ?Q"
      if "br_released r' ! ?i" "to_release ss r'" "br_outcomes r' = br_outcomes r" for r' :: batch_record
      by (rule steps_then [OF steps_tell])
        (use that i(4) False flying_snoc [OF fl that(3)] in \<open>auto intro!: steps_done simp: in_flight_or_waiting_def\<close>)
    have no: "no_outcome r ?i" "?i \<notin> fst ` set infl" using False i(2) by auto
    have ready: "list_all (finished (bm_calls (rn_manifest rn)) (br_outcomes r)) (mc_dependsOn call) \<longleftrightarrow>
        (\<forall>j. waits ss ?i j \<longrightarrow> br_outcomes r ! j \<noteq> None)"
      using call_ready [OF i(8) i(4)] i(5) by simp
    consider "br_released r ! ?i" | "\<not> br_released r ! ?i" "\<forall>j. waits ss ?i j \<longrightarrow> br_outcomes r ! j \<noteq> None"
      | "\<not> br_released r ! ?i" "\<exists>j. waits ss ?i j \<and> br_outcomes r ! j = None" by metis
    then show ?thesis
    proof cases
      case 1
      then show ?thesis using send [OF 1 tr refl] no i(3) unfolding release_call_def Let_def by (simp only: if_False if_True simp_thms)
    next
      case 2
      let ?r = "r\<lparr>br_released := (br_released r)[?i := True]\<rparr>"
      obtain d where d: "br_decision r = Some RELEASE" "br_prepares r ! ?i = Some (ReplyPrepared d)"
        using tr False i(4) by (auto simp: to_release_def)
      note up = set_released_inv [OF inv d 2(2)]
      have "steps rn ss r (and_then (persist rn ?r ''release'' (Some call))
          (\<lambda>r. and_then (tell rn (MsgRelease ?i (ref_of rn call))) (\<lambda>_. done_with (r, infl @ [(?i, ref_of rn call)])))) ?Q"
        by (rule steps_then [OF steps_persist [OF up]])
          (use send [of ?r] to_release_grows [OF tr up(2) i(8)] i(4,7) in auto)
      moreover have "list_all (finished (bm_calls (rn_manifest rn)) (br_outcomes r)) (mc_dependsOn call)" using ready 2(2) by blast
      ultimately show ?thesis using 2(1) no i(3) unfolding release_call_def Let_def by (simp only: if_False if_True simp_thms)
    next
      case 3
      then have "in_flight_or_waiting ss r infl ?i" by (auto simp: in_flight_or_waiting_def)
      moreover have "\<not> list_all (finished (bm_calls (rn_manifest rn)) (br_outcomes r)) (mc_dependsOn call)" using ready 3(2) by metis
      ultimately show ?thesis using 3(1) no i(3) keep unfolding release_call_def Let_def by (simp only: if_False if_True simp_thms)
    qed
  qed
qed

lemma steps_release_scan:
  assumes "set calls \<subseteq> set (bm_calls (rn_manifest rn))" "to_release ss r" "flying ss r infl"
  shows "steps rn ss r (release_scan rn calls r infl) (\<lambda>(x, infl') r'. x = r' \<and> to_release ss r' \<and> br_outcomes r' = br_outcomes r \<and>
    flying ss r' infl' \<and> fst ` set infl \<subseteq> fst ` set infl' \<and> (\<forall>call \<in> set calls. in_flight_or_waiting ss r' infl' (mc_sourceIndex call)))"
  using assms
proof (induction calls arbitrary: r infl)
  case (Cons call calls)
  have c: "call \<in> set (bm_calls (rn_manifest rn))" using Cons.prems(1) by simp
  show ?case unfolding release_scan.simps
  proof (rule steps_then [OF steps_release_call [OF c Cons.prems(2,3)]], clarify)
    fix infl1 and r1 :: batch_record
    assume h: "to_release ss r1" "br_outcomes r1 = br_outcomes r" "flying ss r1 infl1" "fst ` set infl \<subseteq> fst ` set infl1"
      "in_flight_or_waiting ss r1 infl1 (mc_sourceIndex call)"
    show "steps rn ss r1 (release_scan rn calls r1 infl1) (\<lambda>(x, infl') r'. x = r' \<and> to_release ss r' \<and> br_outcomes r' = br_outcomes r \<and>
      flying ss r' infl' \<and> fst ` set infl \<subseteq> fst ` set infl' \<and> (\<forall>call' \<in> set (call # calls). in_flight_or_waiting ss r' infl' (mc_sourceIndex call')))"
    proof (rule steps_weaken [OF Cons.IH [OF _ h(1,3)]])
      show "set calls \<subseteq> set (bm_calls (rn_manifest rn))" using Cons.prems(1) by simp
    qed (use h in \<open>auto simp: in_flight_or_waiting_def\<close>)
  qed
qed (auto intro!: steps_done)

lemma steps_race:
  assumes "infl \<noteq> []"
  shows "steps rn ss r (race rn infl) (\<lambda>(i, _) r'. r' = r \<and> i \<in> fst ` set infl)"
proof -
  have "fst (infl ! (pos mod length infl)) \<in> fst ` set infl" for pos using assms by (intro imageI nth_mem) simp
  moreover have "store_works (rn_env rn) s \<Longrightarrow> store_works (rn_env rn) (s\<lparr>rs_clock := Suc (rs_clock s)\<rparr>)" for s
    by (simp add: store_works_def)
  moreover have "ports_work (rn_env rn) \<Longrightarrow> \<exists>pos reply. be_race (rn_env rn) k infl = Some (pos, Inr reply)" for k
    by (simp add: ports_work_def)
  ultimately show ?thesis unfolding steps_def
  proof (intro allI impI, goal_cases)
    case (1 s)
    show ?case
    proof (cases "be_race (rn_env rn) (rs_clock s) infl")
      case None
      then show ?thesis using 1(3) [of "rs_clock s"] 1(4) by (auto simp: race_def batch_inv_def)
    next
      case (Some a)
      obtain pos res where "a = (pos, res)" by (cases a)
      then show ?thesis using Some 1(1) [of pos] 1(2) [of s] 1(3) [of "rs_clock s"] 1(4)
        by (cases res) (auto simp: race_def batch_inv_def)
    qed
  qed
qed

lemma steps_release_loop:
  assumes "to_release ss r" "flying ss r infl" "unsettled r < rounds"
  shows "steps rn ss r (release_loop rounds rn r infl) (\<lambda>x r'. x = r' \<and> br_decision r' \<noteq> None \<and> None \<notin> set (br_outcomes r'))"
  using assms
proof (induction rounds arbitrary: r infl)
  case (Suc rounds)
  let ?Q = "\<lambda>x r'. x = r' \<and> br_decision r' \<noteq> None \<and> None \<notin> set (br_outcomes r')"
  show ?case unfolding release_loop.simps
  proof (rule steps_then [OF steps_release_scan [OF order_refl Suc.prems(1,2)]], clarify)
    fix infl1 and r1 :: batch_record
    assume h: "record_inv (rn_manifest rn) ss r1" "to_release ss r1" "br_outcomes r1 = br_outcomes r" "flying ss r1 infl1"
      "\<forall>call \<in> set (bm_calls (rn_manifest rn)). in_flight_or_waiting ss r1 infl1 (mc_sourceIndex call)"
    have covered: "\<forall>i<length ss. in_flight_or_waiting ss r1 infl1 i" using h(5) call_index calls_length by (metis nth_mem)
    show "steps rn ss r1 (if infl1 = [] then done_with r1
       else and_then (race rn infl1) (\<lambda>(i, reply).
         let inflight = filter (\<lambda>(j, _). j \<noteq> i) infl1 in
         case nth_opt (bm_calls (rn_manifest rn)) i of
           None \<Rightarrow> release_loop rounds rn r1 inflight
         | Some call \<Rightarrow> and_then (settle_call rn call (settledOutcome reply) r1) (\<lambda>r. release_loop rounds rn r inflight))) ?Q"
    proof (cases "infl1 = []")
      case True
      then have "None \<notin> set (br_outcomes r1)" using nothing_in_flight [of ss r1] covered record_inv_lengths(3) [OF h(1)]
        by (metis in_set_conv_nth)
      then show ?thesis using True h(2) by (auto intro!: steps_done simp: to_release_def)
    next
      case False
      have "steps rn ss r1 (and_then (race rn infl1) (\<lambda>(i, reply).
         let inflight = filter (\<lambda>(j, _). j \<noteq> i) infl1 in
         case nth_opt (bm_calls (rn_manifest rn)) i of
           None \<Rightarrow> release_loop rounds rn r1 inflight
         | Some call \<Rightarrow> and_then (settle_call rn call (settledOutcome reply) r1) (\<lambda>r. release_loop rounds rn r inflight))) ?Q"
      proof (rule steps_then [OF steps_race [OF False]])
        fix x :: "nat \<times> settle_reply" and q :: batch_record
        assume ix: "(\<lambda>(i, _) r'. r' = r1 \<and> i \<in> fst ` set infl1) x q"
        obtain i reply where x: "x = (i, reply)" by (cases x)
        then have i: "i < length ss" "br_outcomes r1 ! i = None" using ix h(4) by (auto simp: flying_def)
        let ?c = "bm_calls (rn_manifest rn) ! i" and ?f = "filter (\<lambda>(j, _). j \<noteq> i) infl1"
        let ?r = "r1\<lparr>br_outcomes := (br_outcomes r1)[i := Some (settledOutcome reply)]\<rparr>"
        have c: "?c \<in> set (bm_calls (rn_manifest rn))" "mc_sourceIndex ?c = i" using i(1) call_index calls_length by auto
        have grows: "record_grows r1 ?r" using set_outcome_grows i(2) by blast
        have "steps rn ss ?r (release_loop rounds rn ?r ?f) ?Q"
        proof (rule Suc.IH)
          show "to_release ss ?r" using to_release_grows [OF h(2) grows] record_inv_lengths(3) [OF h(1)] by simp
          show "flying ss ?r ?f" using h(4) by (auto simp: flying_def list_update_at distinct_map_filter)
          have "unsettled ?r < unsettled r1" using unsettled_settle i record_inv_lengths(3) [OF h(1)] by simp
          then show "unsettled ?r < rounds" using Suc.prems(3) h(3) by (simp add: unsettled_def)
        qed
        then have "steps rn ss r1 (and_then (settle_call rn ?c (settledOutcome reply) r1) (\<lambda>r. release_loop rounds rn r ?f)) ?Q"
          by (intro steps_then [OF steps_settle [OF c(1)]]) (use h(2) i(2) c(2) in \<open>auto simp: to_release_def\<close>)
        then show "steps rn ss q (case x of (i, reply) \<Rightarrow> let inflight = filter (\<lambda>(j, _). j \<noteq> i) infl1 in
           case nth_opt (bm_calls (rn_manifest rn)) i of
             None \<Rightarrow> release_loop rounds rn r1 inflight
           | Some call \<Rightarrow> and_then (settle_call rn call (settledOutcome reply) r1) (\<lambda>r. release_loop rounds rn r inflight)) ?Q"
          using ix x i(1) calls_length by (simp add: nth_opt_def)
      qed
      then show ?thesis using False by simp
    qed
  qed
qed simp

lemma steps_batch_answer:
  assumes "br_decision r \<noteq> None" "None \<notin> set (br_outcomes r)"
  shows "steps rn ss r (batch_answer rn r) (\<lambda>x r'. r' = r \<and> br_decision r = Some (bres_decision x) \<and> br_outcomes r = map Some (bres_outcomes x))"
proof -
  have "map Some (map the (br_outcomes r)) = br_outcomes r" using assms(2) by (simp add: comp_def) (metis map_idI option.collapse)
  then show ?thesis using assms by (auto simp: batch_answer_def intro!: steps_done)
qed

text \<open>A run once the batch has a record.\<close>

lemma steps_run:
  "steps rn ss r (and_then (prepare_phase rn r) (\<lambda>r.
      and_then (settle_loop rn (batch_cause r) (bm_calls (rn_manifest rn)) r) (\<lambda>r.
      and_then (release_loop (Suc (length (bm_calls (rn_manifest rn)))) rn r []) (batch_answer rn))))
    (\<lambda>x r'. br_decision r' = Some (bres_decision x) \<and> br_outcomes r' = map Some (bres_outcomes x))"
proof (rule steps_then [OF steps_prepare_phase])
  fix x and r1 :: batch_record assume 1: "x = r1 \<and> br_decision r1 \<noteq> None"
  show "steps rn ss r1 (and_then (settle_loop rn (batch_cause x) (bm_calls (rn_manifest rn)) x) (\<lambda>r.
      and_then (release_loop (Suc (length (bm_calls (rn_manifest rn)))) rn r []) (batch_answer rn)))
    (\<lambda>x r'. br_decision r' = Some (bres_decision x) \<and> br_outcomes r' = map Some (bres_outcomes x))"
    unfolding conjunct1 [OF 1]
  proof (rule steps_then [OF steps_settle_loop [OF order_refl conjunct2 [OF 1]]])
    fix y and r2 :: batch_record
    assume 2: "record_inv (rn_manifest rn) ss r2"
      "y = r2 \<and> br_decision r2 \<noteq> None \<and> (\<forall>call \<in> set (bm_calls (rn_manifest rn)). settled_or_ready r2 call)"
    have "unsettled r2 < Suc (length (bm_calls (rn_manifest rn)))"
      unfolding unsettled_def using record_inv_lengths(3) [OF 2(1)] calls_length
      by (metis length_filter_le less_Suc_eq_le)
    moreover have "to_release ss r2" using all_settled_or_ready 2(2) by blast
    ultimately have "steps rn ss r2 (release_loop (Suc (length (bm_calls (rn_manifest rn)))) rn r2 [])
        (\<lambda>x r'. x = r' \<and> br_decision r' \<noteq> None \<and> None \<notin> set (br_outcomes r'))"
      by (intro steps_release_loop) (simp_all add: flying_def)
    then show "steps rn ss r2 (and_then (release_loop (Suc (length (bm_calls (rn_manifest rn)))) rn y []) (batch_answer rn))
      (\<lambda>x r'. br_decision r' = Some (bres_decision x) \<and> br_outcomes r' = map Some (bres_outcomes x))"
      unfolding conjunct1 [OF 2(2)] by (rule steps_then) (auto intro!: steps_weaken [OF steps_batch_answer])
  qed
qed

end

interpretation cr: planned_run "new_run digest env plan" "sequentials plan" for digest env plan
proof
  show "length (bm_calls (rn_manifest (new_run digest env plan))) = length (sequentials plan)"
    by (simp add: new_run_def manifest_calls)
  show "mc_sourceIndex (bm_calls (rn_manifest (new_run digest env plan)) ! i) = i" if "i < length (sequentials plan)" for i
    using that by (simp add: new_run_def manifest_deps)
  show "list_all (finished (bm_calls (rn_manifest (new_run digest env plan))) outcomes) (mc_dependsOn (bm_calls (rn_manifest (new_run digest env plan)) ! i)) \<longleftrightarrow>
      (\<forall>j. waits (sequentials plan) i j \<longrightarrow> (outcomes ! j :: call_outcome option) \<noteq> None)"
    if "length outcomes = length (sequentials plan)" "i < length (sequentials plan)" for outcomes i
    using ready_spec [OF refl, of outcomes plan i digest "be_issuer env"] that by (simp add: new_run_def)
qed

section \<open>The whole run, and runs one after the other\<close>

lemma manifest_value_ok:
  assumes "plan_fin plan"
  shows "manifest_ok (Some (manifest_value (buildBatchManifest digest issuer plan)))"
    "length (get_list (fld (Some (manifest_value (buildBatchManifest digest issuer plan))) ''calls'')) = length (bp_calls plan)"
    "get_str (fld (Some (manifest_value (buildBatchManifest digest issuer plan))) ''manifestDigest'') = bm_manifestDigest (buildBatchManifest digest issuer plan)"
  using assms
  by (auto simp: manifest_ok_def manifest_value_def strings_ok_def fin_numbers_ok_def plan_fin_def buildBatchManifest_def Let_def
      list_all_iff manifest_call_ok_def call_value_def)

lemma empty_record_inv:
  assumes "plan_fin plan"
  shows "record_inv (buildBatchManifest digest issuer plan) (sequentials plan) (empty_record (buildBatchManifest digest issuer plan))"
  using manifest_value_ok [OF assms, of digest issuer] manifest_calls(1) [of digest issuer plan]
  by (auto simp: record_inv_def record_wf_def empty_record_def Let_def)

text \<open>Before the first run the batch has no record and no message was sent; afterwards it has one.\<close>

definition run_inv :: "(store_value \<Rightarrow> string) \<Rightarrow> string \<Rightarrow> batch_plan \<Rightarrow> batch_record option \<Rightarrow> run_state \<Rightarrow> bool" where
  "run_inv digest issuer plan r s \<longleftrightarrow>
     (let m = buildBatchManifest digest issuer plan; key = batch_keyOf issuer (bp_batchId plan) in
      case r of
        None \<Rightarrow> getDocument (rs_store s) key = None \<and> rs_sent s = []
      | Some r \<Rightarrow> getDocument (rs_store s) key = Some (batch_value r) \<and> record_inv m (sequentials plan) r \<and>
          list_all (sent_ok m (sequentials plan) r) (rs_sent s))"

definition option_grows :: "batch_record option \<Rightarrow> batch_record option \<Rightarrow> bool" where
  "option_grows r r' \<longleftrightarrow> (\<forall>a. r = Some a \<longrightarrow> (\<exists>b. r' = Some b \<and> record_grows a b))"

lemma run_inv_batch: "run_inv digest (be_issuer env) plan (Some r) s \<longleftrightarrow> batch_inv (new_run digest env plan) (sequentials plan) r s"
  by (simp add: run_inv_def batch_inv_def new_run_def Let_def)

lemma open_batch_run:
  assumes fin: "plan_fin plan" and inv: "run_inv digest (be_issuer env) plan r s"
  defines "rn \<equiv> new_run digest env plan"
  shows "(\<exists>r'. run_inv digest (be_issuer env) plan r' (snd (open_batch rn s)) \<and> option_grows r r' \<and>
      (\<forall>x. fst (open_batch rn s) = Inr x \<longrightarrow> r' = Some x)) \<and>
    (\<forall>e. fst (open_batch rn s) = Inl e \<longrightarrow> outside_error e) \<and>
    (store_works env s \<longrightarrow> store_works env (snd (open_batch rn s)) \<and> (\<exists>x. fst (open_batch rn s) = Inr x))"
proof -
  let ?m = "buildBatchManifest digest (be_issuer env) plan"
  have rn: "rn_env rn = env" "rn_manifest rn = ?m" "rn_key rn = batch_keyOf (be_issuer env) (bp_batchId plan)"
    by (simp_all add: rn_def new_run_def)
  show ?thesis
  proof (cases r)
    case (Some a)
    then have a: "getDocument (rs_store s) (rn_key rn) = Some (batch_value a)" "record_inv ?m (sequentials plan) a"
      using inv rn by (simp_all add: run_inv_def Let_def)
    have "open_batch rn s = (Inr a, s)"
      using a rn manifest_value_ok(3) [OF fin, of digest "be_issuer env"] decode_batch_value [of a]
      by (simp add: open_batch_def batch_read_def record_inv_def)
    then show ?thesis using inv Some by (auto simp: option_grows_def)
  next
    case None
    then have n: "getDocument (rs_store s) (rn_key rn) = None" "rs_sent s = []" using inv rn by (simp_all add: run_inv_def Let_def)
    then have ob: "open_batch rn s = persist rn (empty_record ?m) ''manifest'' None s" using rn by (simp add: open_batch_def batch_read_def)
    have works: "store_works env s \<longrightarrow> store_works env (snd (open_batch rn s)) \<and> (\<exists>x. fst (open_batch rn s) = Inr x)"
      unfolding ob using persist_works [of rn s] rn(1) by simp
    show ?thesis
    proof (cases rule: persist_cases [of rn "empty_record ?m" "''manifest''" None s])
      case kept
      then show ?thesis using ob works n rn None by (auto simp: run_inv_def option_grows_def intro!: exI [of _ None])
    next
      case (stored st res)
      then have "run_inv digest (be_issuer env) plan (Some (empty_record ?m)) (snd (open_batch rn s))"
        using ob n rn empty_record_inv [OF fin, of digest "be_issuer env"] by (simp add: run_inv_def Let_def)
      then show ?thesis using stored ob works None by (auto simp: option_grows_def intro!: exI [of _ "Some (empty_record ?m)"])
    qed
  qed
qed

text \<open>One run of the coordinator, from any state a run may have left.\<close>

lemma coordinator_run_spec:
  assumes fin: "plan_fin plan" and inv: "run_inv digest (be_issuer env) plan r s"
  shows "(\<exists>r'. run_inv digest (be_issuer env) plan r' (snd (coordinator_run digest env plan s)) \<and> option_grows r r' \<and>
      (\<forall>x. fst (coordinator_run digest env plan s) = Inr x \<longrightarrow>
        (\<exists>a. r' = Some a \<and> br_decision a = Some (bres_decision x) \<and> br_outcomes a = map Some (bres_outcomes x)))) \<and>
    (\<forall>e. fst (coordinator_run digest env plan s) = Inl e \<longrightarrow> outside_error e) \<and>
    (ports_work env \<and> store_works env s \<longrightarrow> (\<exists>x. fst (coordinator_run digest env plan s) = Inr x))"
proof -
  let ?rn = "new_run digest env plan"
  obtain res s1 where o: "open_batch ?rn s = (res, s1)" by (metis surj_pair)
  note op = open_batch_run [OF fin inv, unfolded o fst_conv snd_conv]
  obtain r1 where r1: "run_inv digest (be_issuer env) plan r1 s1" "option_grows r r1" "\<And>x. res = Inr x \<Longrightarrow> r1 = Some x" using op by blast
  show ?thesis
  proof (cases res)
    case (Inl e)
    then have "coordinator_run digest env plan s = (Inl e, s1)" using o by (simp add: coordinator_run_def Let_def and_then_def)
    then show ?thesis using op Inl r1 by auto
  next
    case (Inr a)
    define f where "f = and_then (prepare_phase ?rn a) (\<lambda>r.
      and_then (settle_loop ?rn (batch_cause r) (bm_calls (rn_manifest ?rn)) r) (\<lambda>r.
      and_then (release_loop (Suc (length (bm_calls (rn_manifest ?rn)))) ?rn r []) (batch_answer ?rn)))"
    have run: "coordinator_run digest env plan s = f s1"
      using o Inr by (simp add: coordinator_run_def Let_def and_then_def [of "open_batch _"] f_def)
    have b: "batch_inv ?rn (sequentials plan) a s1" using r1 Inr by (simp add: run_inv_batch)
    have env: "rn_env ?rn = env" by (simp add: new_run_def)
    note st = cr.steps_run [of digest env plan a, folded f_def, unfolded steps_def, rule_format, OF b]
    obtain r' where "batch_inv ?rn (sequentials plan) r' (snd (f s1))" "record_grows a r'"
        "\<And>x. fst (f s1) = Inr x \<Longrightarrow> br_decision r' = Some (bres_decision x) \<and> br_outcomes r' = map Some (bres_outcomes x)"
      using st by blast
    moreover have "option_grows r (Some r')" using r1(2,3) Inr calculation(2) by (auto simp: option_grows_def intro: record_grows_trans)
    ultimately have "\<exists>r'. run_inv digest (be_issuer env) plan r' (snd (f s1)) \<and> option_grows r r' \<and> (\<forall>x. fst (f s1) = Inr x \<longrightarrow>
        (\<exists>a. r' = Some a \<and> br_decision a = Some (bres_decision x) \<and> br_outcomes a = map Some (bres_outcomes x)))"
      by (intro exI [of _ "Some r'"]) (simp add: run_inv_batch)
    then show ?thesis unfolding run using st op Inr env by simp
  qed
qed

text \<open>
  Any number of runs of the same batch, each in any environment and each returning, throwing or stopping anywhere; in between
  the rest of the program changes the store (owners, log, other documents) but not this batch's document.
\<close>

inductive runs :: "(store_value \<Rightarrow> string) \<Rightarrow> string \<Rightarrow> batch_plan \<Rightarrow> run_state \<Rightarrow> (run_error, batch_result) result list \<Rightarrow> run_state \<Rightarrow> bool"
  for digest issuer plan s0 where
    runs_none: "runs digest issuer plan s0 [] s0"
  | runs_run: "runs digest issuer plan s0 results s \<Longrightarrow> be_issuer env = issuer \<Longrightarrow> coordinator_run digest env plan s = (res, s') \<Longrightarrow>
      runs digest issuer plan s0 (results @ [res]) s'"
  | runs_other: "runs digest issuer plan s0 results s \<Longrightarrow>
      getDocument st (batch_keyOf issuer (bp_batchId plan)) = getDocument (rs_store s) (batch_keyOf issuer (bp_batchId plan)) \<Longrightarrow>
      runs digest issuer plan s0 results (s\<lparr>rs_store := st\<rparr>)"

definition result_stored :: "batch_record option \<Rightarrow> batch_result \<Rightarrow> bool" where
  "result_stored r x \<longleftrightarrow> (\<exists>a. r = Some a \<and> br_decision a = Some (bres_decision x) \<and> br_outcomes a = map Some (bres_outcomes x))"

lemma result_stored_grows:
  assumes "result_stored r x" "option_grows r r'"
  shows "result_stored r' x"
proof -
  obtain a b where ab: "r = Some a" "r' = Some b" "record_grows a b" "br_decision a = Some (bres_decision x)" "br_outcomes a = map Some (bres_outcomes x)"
    using assms by (auto simp: result_stored_def option_grows_def)
  have "br_outcomes b = map Some (bres_outcomes x)"
    using ab(3,5) by (intro nth_equalityI) (auto simp: record_grows_def)
  then show ?thesis using ab by (auto simp: result_stored_def record_grows_def)
qed

lemma runs_inv:
  assumes "runs digest issuer plan s0 results s" "plan_fin plan" "run_inv digest issuer plan None s0"
  shows "\<exists>r. run_inv digest issuer plan r s \<and> (\<forall>x. Inr x \<in> set results \<longrightarrow> result_stored r x)"
  using assms
proof (induction rule: runs.induct)
  case (runs_run results s env res s')
  then obtain r where r: "run_inv digest issuer plan r s" "\<And>x. Inr x \<in> set results \<Longrightarrow> result_stored r x" by blast
  obtain r' where r': "run_inv digest issuer plan r' s'" "option_grows r r'" "\<And>x. res = Inr x \<Longrightarrow> result_stored r' x"
    using coordinator_run_spec [of plan digest env r s] runs_run.prems(1) r(1) runs_run.hyps(2,3)
    by (auto simp: result_stored_def)
  then show ?case using result_stored_grows [OF r(2) r'(2)] by (intro exI [of _ r']) auto
next
  case (runs_other results s st)
  then show ?case by (auto simp: run_inv_def Let_def split: option.splits)
qed auto

section \<open>Properties of the coordinator\<close>

lemma released_not_denied:
  assumes "record_inv m ss r" "i < length ss" "br_released r ! i"
  shows "\<not> denied r i"
proof -
  have "br_decision r = Some RELEASE" "\<exists>d. br_prepares r ! i = Some (ReplyPrepared d)" using assms by (auto simp: record_inv_def)
  then show ?thesis by (auto simp: denied_def)
qed

definition fresh_batch :: "string \<Rightarrow> batch_plan \<Rightarrow> run_state \<Rightarrow> bool" where
  "fresh_batch issuer plan s \<longleftrightarrow> getDocument (rs_store s) (batch_keyOf issuer (bp_batchId plan)) = None \<and> rs_sent s = []"

lemma fresh_batch_inv: "fresh_batch issuer plan s \<longleftrightarrow> run_inv digest issuer plan None s"
  by (simp add: fresh_batch_def run_inv_def Let_def)

text \<open>C2. Decide before release: over any number of crashed and repeated runs, a release is only sent when the durable record
  at that moment says so: every call of the batch was prepared and none asks to abort, the decision is to release, this call is
  marked released, and every earlier call it must run after has its outcome. A call for which an abort was sent is never released.\<close>

theorem release_only_when_decided:
  assumes "plan_fin plan" "fresh_batch issuer plan s0" "runs digest issuer plan s0 results s"
    and "(MsgRelease i ref, doc) \<in> set (rs_sent s)"
  shows "(\<exists>r. doc = Some (batch_value r) \<and> br_decision r = Some RELEASE \<and> br_released r ! i \<and> i < length (bp_calls plan) \<and>
      (\<exists>d. br_prepares r ! i = Some (ReplyPrepared d)) \<and>
      (\<forall>k<length (bp_calls plan). \<exists>p. br_prepares r ! k = Some p \<and> abortCause p = None) \<and>
      (\<forall>j k. j < i \<and> j \<le> k \<and> k \<le> i \<and> bc_sequential (bp_calls plan ! k) \<longrightarrow> br_outcomes r ! j \<noteq> None)) \<and>
    (\<nexists>ref' doc'. (MsgAbort i ref', doc') \<in> set (rs_sent s))"
proof -
  let ?m = "buildBatchManifest digest issuer plan"
  obtain q where "run_inv digest issuer plan q s"
    using runs_inv [OF assms(3,1)] assms(2) by (auto simp: fresh_batch_inv [of _ _ _ digest])
  then obtain r where r: "record_inv ?m (sequentials plan) r" and ok: "\<And>x. x \<in> set (rs_sent s) \<Longrightarrow> sent_ok ?m (sequentials plan) r x"
    using assms(4) by (cases q) (auto simp: run_inv_def Let_def list_all_iff)
  obtain r1 where r1: "doc = Some (batch_value r1)" "record_inv ?m (sequentials plan) r1" "record_grows r1 r" "i < length (bp_calls plan)" "br_released r1 ! i"
    using ok [OF assms(4)] by (auto simp: sent_ok_def)
  have rel: "br_released r ! i" using r1 record_inv_lengths(2) [OF r1(2)] by (auto simp: record_grows_def)
  have wait: "waits (sequentials plan) i j" if "j < i" "j \<le> k" "k \<le> i" "bc_sequential (bp_calls plan ! k)" for j k
    using that r1(4) by (auto simp: waits_def le_less)
  have False if ab: "(MsgAbort i ref', doc') \<in> set (rs_sent s)" for ref' doc'
  proof -
    obtain r2 where r2: "record_inv ?m (sequentials plan) r2" "record_grows r2 r" "denied r2 i" using ok [OF ab] by (auto simp: sent_ok_def)
    then have "denied r i" using r1(4) record_inv_lengths(1) [OF r2(1)] by (auto simp: record_grows_def)
    then show False using released_not_denied [OF r] rel r1(4) by simp
  qed
  moreover have "\<exists>p. br_prepares r1 ! k = Some p \<and> abortCause p = None" if "k < length (bp_calls plan)" for k
    using r1(2,4,5) that by (auto simp: record_inv_def)
  ultimately show ?thesis using r1 wait by (auto simp: record_inv_def)
qed

text \<open>C13. One result: all runs of a batch that return, in whatever environments and after whatever crashes, return the same
  decision and outcomes, one outcome per call in source order, and these are what the durable record holds.\<close>

theorem batch_result_stable:
  assumes "plan_fin plan" "fresh_batch issuer plan s0" "runs digest issuer plan s0 results s" "Inr x \<in> set results"
  shows "(\<exists>r. batch_read (rs_store s) (batch_keyOf issuer (bp_batchId plan)) = Inr (Some r) \<and>
      br_decision r = Some (bres_decision x) \<and> br_outcomes r = map Some (bres_outcomes x)) \<and>
    length (bres_outcomes x) = length (bp_calls plan) \<and> (\<forall>y. Inr y \<in> set results \<longrightarrow> y = x)"
proof -
  let ?m = "buildBatchManifest digest issuer plan"
  obtain q where q: "run_inv digest issuer plan q s" "\<And>y. Inr y \<in> set results \<Longrightarrow> result_stored q y"
    using runs_inv [OF assms(3,1)] assms(2) by (auto simp: fresh_batch_inv [of _ _ _ digest])
  obtain r where r: "q = Some r" "br_decision r = Some (bres_decision x)" "br_outcomes r = map Some (bres_outcomes x)"
    using q(2) [OF assms(4)] by (auto simp: result_stored_def)
  have inv: "record_inv ?m (sequentials plan) r" "getDocument (rs_store s) (batch_keyOf issuer (bp_batchId plan)) = Some (batch_value r)"
    using q(1) r(1) by (simp_all add: run_inv_def Let_def)
  have "y = x" if "Inr y \<in> set results" for y
    using q(2) [OF that] r by (auto simp: result_stored_def inj_map_eq_map intro!: batch_result.equality)
  then show ?thesis using inv r decode_batch_value [of r] record_inv_lengths(3) [OF inv(1)]
    by (auto simp: batch_read_def record_inv_def)
qed

text \<open>C9. Recovery finishes the batch: after any runs, crashes and changes of owner, a run in which the ports answer, the store
  is owned and no write fails returns a result; and no run ever ends with a call unsettled or needs more rounds of the release
  loop than there are calls.\<close>

theorem batch_run_returns:
  assumes "plan_fin plan" "fresh_batch (be_issuer env) plan s0" "runs digest (be_issuer env) plan s0 results s"
  shows "(ports_work env \<and> store_works env s \<longrightarrow> (\<exists>x. fst (coordinator_run digest env plan s) = Inr x)) \<and>
    fst (coordinator_run digest env plan s) \<notin> {Inl RoundsExhausted, Inl (UnsettledCall (bp_batchId plan))}"
proof -
  obtain r where "run_inv digest (be_issuer env) plan r s"
    using runs_inv [OF assms(3,1)] assms(2) by (auto simp: fresh_batch_inv [of _ _ _ digest])
  from coordinator_run_spec [OF assms(1) this] show ?thesis by auto
qed

definition sample_batch_env :: batch_env where
  "sample_batch_env = \<lparr>be_issuer = ''i'', be_epoch = Fin 1, be_mint = (\<lambda>k. replicate k CHR ''m''), be_seam = (\<lambda>_ _. False),
     be_prepare = (\<lambda>_ _ _. Some (Inr (ReplyPrepared ''d''))), be_abort = (\<lambda>_ _ _. Some (Inr UnknownExecution)),
     be_takesConsent = (\<lambda>_. True), be_consent = (\<lambda>_ _ _ _. Some (Inr ConsentPrepared)),
     be_race = (\<lambda>_ _. Some (0, Inr (SettledReply (OutResult SNull True)))), be_needsConsent = Some (\<lambda>_ _. False),
     be_approve = (\<lambda>_ _. Some (Inr Approved))\<rparr>"

definition sample_run_state :: run_state where
  "sample_run_state = \<lparr>rs_store = sample_store, rs_clock = 0, rs_sent = []\<rparr>"

lemma sample_batch_facts:
  "plan_fin sample_batch" "fresh_batch (be_issuer sample_batch_env) sample_batch sample_run_state"
  "ports_work sample_batch_env" "store_works sample_batch_env sample_run_state"
  by (auto simp: plan_fin_def sample_batch_def fresh_batch_def sample_run_state_def getDocument_def sample_store_def ports_work_def
      sample_batch_env_def store_works_def requireOwner_def intro!: injI dest: arg_cong [of _ _ length])

theorem batch_run_returns_witness:
  "\<exists>x. fst (coordinator_run (\<lambda>_. []) sample_batch_env sample_batch sample_run_state) = Inr x"
  using batch_run_returns [OF sample_batch_facts(1,2) runs_none, where digest = "\<lambda>_. []"] sample_batch_facts(3,4) by blast

definition sample_run_end :: "(run_error, batch_result) result \<times> run_state" where
  "sample_run_end = coordinator_run (\<lambda>_. []) sample_batch_env sample_batch sample_run_state"

lemma sample_runs: "runs (\<lambda>_. []) (be_issuer sample_batch_env) sample_batch sample_run_state [fst sample_run_end] (snd sample_run_end)"
  using runs_run [OF runs_none refl surjective_pairing] by (simp add: sample_run_end_def)

lemma sample_release_sent: "\<exists>ref doc. (MsgRelease 2 ref, doc) \<in> set (rs_sent (snd sample_run_end))"
proof -
  have "list_ex (\<lambda>(m, _). case m of MsgRelease i _ \<Rightarrow> i = 2 | _ \<Rightarrow> False) (rs_sent (snd sample_run_end))" by code_simp
  then obtain m doc where "(m, doc) \<in> set (rs_sent (snd sample_run_end))" "case m of MsgRelease i _ \<Rightarrow> i = 2 | _ \<Rightarrow> False"
    by (auto simp: list_ex_iff)
  then show ?thesis by (cases m) auto
qed

theorem release_only_when_decided_witness:
  "\<exists>ref doc r. (MsgRelease 2 ref, doc) \<in> set (rs_sent (snd sample_run_end)) \<and> doc = Some (batch_value r) \<and>
     br_decision r = Some RELEASE \<and> br_outcomes r ! 0 \<noteq> None"
proof -
  obtain ref doc where m: "(MsgRelease 2 ref, doc) \<in> set (rs_sent (snd sample_run_end))" using sample_release_sent by blast
  have q: "bc_sequential (bp_calls sample_batch ! 1)" by (simp add: sample_batch_def sample_batch_call_def)
  obtain r where r: "doc = Some (batch_value r)" "br_decision r = Some RELEASE"
    "\<forall>j k. j < 2 \<and> j \<le> k \<and> k \<le> 2 \<and> bc_sequential (bp_calls sample_batch ! k) \<longrightarrow> br_outcomes r ! j \<noteq> None"
    using conjunct1 [OF release_only_when_decided [OF sample_batch_facts(1,2) sample_runs m]] by (elim exE conjE) (rule that)
  have "br_outcomes r ! 0 \<noteq> None" using r(3) [rule_format, of 0 1] q by simp
  with m r(1,2) show ?thesis by (intro exI conjI)
qed

theorem batch_result_stable_witness:
  "\<exists>x r. fst sample_run_end = Inr x \<and> length (bres_outcomes x) = length (bp_calls sample_batch) \<and>
     batch_read (rs_store (snd sample_run_end)) (batch_keyOf (be_issuer sample_batch_env) (bp_batchId sample_batch)) = Inr (Some r) \<and>
     br_outcomes r = map Some (bres_outcomes x)"
proof -
  have inv: "run_inv (\<lambda>_. []) (be_issuer sample_batch_env) sample_batch None sample_run_state"
    using sample_batch_facts(2) fresh_batch_inv by blast
  obtain x where x: "fst sample_run_end = Inr x"
    using coordinator_run_spec [OF sample_batch_facts(1) inv, THEN conjunct2, THEN conjunct2, folded sample_run_end_def]
      sample_batch_facts(3,4) by fast
  then have "Inr x \<in> set [fst sample_run_end]" by simp
  from batch_result_stable [OF sample_batch_facts(1,2) sample_runs this] x show ?thesis by metis
qed

section \<open>One call at a time\<close>

text \<open>The reference: the single-call batches of \<open>calls\<close>, run one after the other.\<close>

fun singles :: "(batch_plan \<Rightarrow> batch_result run_step) \<Rightarrow> batch_plan \<Rightarrow> nat \<Rightarrow> batch_call_plan list \<Rightarrow> batch_result list run_step" where
  "singles run plan index [] = done_with []"
| "singles run plan index (call # calls) =
     and_then (run (plan\<lparr>bp_batchId := sequentialBatchId (bp_batchId plan) index, bp_calls := [call]\<rparr>)) (\<lambda>r.
     and_then (singles run plan (index + 1) calls) (\<lambda>rs. done_with (r # rs)))"

lemma sequential_loop_spec:
  assumes "sequential_loop run plan index calls outcomes s = (Inr x, s')"
  shows "\<exists>n rs. n \<le> length calls \<and> singles run plan index (take n calls) s = (Inr rs, s') \<and>
    (\<forall>r \<in> set (butlast rs). bres_decision r = RELEASE) \<and>
    bres_outcomes x = outcomes @ concat (map bres_outcomes rs) @
      replicate (length calls - n) (CallNotRun (inheritedCause (nth_opt (bres_outcomes (last rs)) 0))) \<and>
    (if bres_decision x = ABORT then rs \<noteq> [] \<and> bres_decision (last rs) = ABORT else n = length calls \<and> (\<forall>r \<in> set rs. bres_decision r = RELEASE))"
  using assms
proof (induction calls arbitrary: index outcomes s)
  case Nil
  then show ?case by (auto simp: done_with_def intro!: exI [of _ "[]"])
next
  case (Cons call calls)
  let ?p = "plan\<lparr>bp_batchId := sequentialBatchId (bp_batchId plan) index, bp_calls := [call]\<rparr>"
  obtain r s1 where r: "run ?p s = (Inr r, s1)" using Cons.prems by (auto simp: and_then_def split: sum.splits prod.splits)
  show ?case
  proof (cases "bres_decision r")
    case ABORT
    then have "s' = s1" "bres_decision x = ABORT"
      "bres_outcomes x = outcomes @ bres_outcomes r @ replicate (length calls) (CallNotRun (inheritedCause (nth_opt (bres_outcomes r) 0)))"
      using Cons.prems r by (auto simp: and_then_def done_with_def Let_def map_replicate_const)
    then show ?thesis using r ABORT by (intro exI [of _ 1] exI [of _ "[r]"]) (simp add: and_then_def done_with_def)
  next
    case RELEASE
    then have "sequential_loop run plan (index + 1) calls (outcomes @ bres_outcomes r) s1 = (Inr x, s')"
      using Cons.prems r by (simp add: and_then_def Let_def)
    from Cons.IH [OF this] obtain n rs where IH: "n \<le> length calls" "singles run plan (index + 1) (take n calls) s1 = (Inr rs, s')"
      "\<forall>r \<in> set (butlast rs). bres_decision r = RELEASE"
      "bres_outcomes x = (outcomes @ bres_outcomes r) @ concat (map bres_outcomes rs) @
        replicate (length calls - n) (CallNotRun (inheritedCause (nth_opt (bres_outcomes (last rs)) 0)))"
      "if bres_decision x = ABORT then rs \<noteq> [] \<and> bres_decision (last rs) = ABORT else n = length calls \<and> (\<forall>r \<in> set rs. bres_decision r = RELEASE)"
      by blast
    have "length calls - n = 0 \<or> rs \<noteq> []" using IH(5) by (auto split: if_splits)
    then have "bres_outcomes x = outcomes @ concat (map bres_outcomes (r # rs)) @
        replicate (length (call # calls) - Suc n) (CallNotRun (inheritedCause (nth_opt (bres_outcomes (last (r # rs))) 0)))"
      using IH(4) by auto
    moreover have "singles run plan index (take (Suc n) (call # calls)) s = (Inr (r # rs), s')"
      using r IH(2) by (simp add: and_then_def done_with_def)
    ultimately show ?thesis using IH(1,3,5) RELEASE by (intro exI [of _ "Suc n"] exI [of _ "r # rs"]) (auto split: if_splits)
  qed
qed

text \<open>Sequential batches: a plan run one call at a time runs the single-call batches in order, each under its own id, up to the
  first that aborts; its outcomes are theirs, followed for the calls it never started by the cause of that abort.\<close>

theorem sequential_stops_at_abort:
  assumes "sequential_run run plan s = (Inr x, s')"
  shows "\<exists>n rs. n \<le> length (bp_calls plan) \<and> singles run plan 0 (take n (bp_calls plan)) s = (Inr rs, s') \<and>
    (\<forall>r \<in> set (butlast rs). bres_decision r = RELEASE) \<and>
    bres_outcomes x = concat (map bres_outcomes rs) @
      replicate (length (bp_calls plan) - n) (CallNotRun (inheritedCause (nth_opt (bres_outcomes (last rs)) 0))) \<and>
    (if bres_decision x = ABORT then rs \<noteq> [] \<and> bres_decision (last rs) = ABORT
     else n = length (bp_calls plan) \<and> (\<forall>r \<in> set rs. bres_decision r = RELEASE))"
  using sequential_loop_spec [of run plan 0 "bp_calls plan" "[]" s x s'] assms by (simp add: sequential_run_def)

definition sample_sequential_run :: "batch_plan \<Rightarrow> batch_result run_step" where
  "sample_sequential_run = coordinator_run (\<lambda>_. []) (sample_batch_env\<lparr>be_prepare := \<lambda>_ _ _. Some (Inr ReplyBatchAbort)\<rparr>)"

theorem sequential_stops_at_abort_witness:
  "\<exists>x s' rs n. sequential_run sample_sequential_run sample_batch sample_run_state = (Inr x, s') \<and> bres_decision x = ABORT \<and>
     singles sample_sequential_run sample_batch 0 (take n (bp_calls sample_batch)) sample_run_state = (Inr rs, s') \<and> bres_decision (last rs) = ABORT"
proof -
  let ?r = "sequential_run sample_sequential_run sample_batch sample_run_state"
  have "case fst ?r of Inr x \<Rightarrow> bres_decision x = ABORT | Inl e \<Rightarrow> False" by code_simp
  then obtain x s' where r: "?r = (Inr x, s')" "bres_decision x = ABORT" by (cases ?r; cases "fst ?r") auto
  from sequential_stops_at_abort [OF r(1)] r(2) obtain n rs where
    "singles sample_sequential_run sample_batch 0 (take n (bp_calls sample_batch)) sample_run_state = (Inr rs, s')" "bres_decision (last rs) = ABORT"
    by (elim exE conjE) simp
  with r show ?thesis by (intro exI conjI)
qed

end
