(* ===== verification/Session_Store.thy ===== *)
theory Session_Store
  imports Durable_Store
begin

text \<open>
  Sessions over the durable store: durable/session-store.ts. A session is a manifest document and the
  records of its own kind in the store's log, each an append of one entry or a rewrite of everything.
  A handle keeps its own view and plans every write from it; several processes may hold handles of one
  session. The abstract session is what \<open>readSessionState\<close> answers, and each write refines one operation
  on it.
\<close>

section \<open>encodeURIComponent\<close>

text \<open>Letters, digits and \<open>- _ . ! ~ * ' ( )\<close> stand for themselves; every other character is the percent code of its
  UTF-8 bytes, two of them from 128 on.\<close>

definition uri_unreserved :: "char \<Rightarrow> bool" where
  "uri_unreserved c \<longleftrightarrow>
     (let n = of_char c :: nat in
      (48 \<le> n \<and> n \<le> 57) \<or> (65 \<le> n \<and> n \<le> 90) \<or> (97 \<le> n \<and> n \<le> 122) \<or> n \<in> {45, 95, 46, 33, 126, 42, 39, 40, 41})"

definition uri_hex :: "nat \<Rightarrow> char" where
  "uri_hex n = char_of (if n < 10 then 48 + n else 55 + n)"

definition uri_percent :: "nat \<Rightarrow> string" where
  "uri_percent b = [CHR 0x25, uri_hex (b div 16), uri_hex (b mod 16)]"

definition uri_encode_char :: "char \<Rightarrow> string" where
  "uri_encode_char c =
     (let n = of_char c :: nat in
      if uri_unreserved c then [c]
      else if n < 128 then uri_percent n
      else uri_percent (192 + n div 64) @ uri_percent (128 + n mod 64))"

definition encodeURIComponent :: "string \<Rightarrow> string" where
  "encodeURIComponent s = concat (map uri_encode_char s)"

section \<open>Data\<close>

record stored_entry =
  se_key :: string
  se_line :: string

type_synonym session_header = "store_value obj"

datatype session_error_code = DuplicateEntry | CorruptSession

text \<open>What a session operation throws: its own error with its message, or what the store threw.\<close>

datatype session_error = SessionStoreError session_error_code string | StoreThrew failure

record session_state =
  ss_id :: string
  ss_header :: session_header
  ss_entries :: "stored_entry list"
  ss_divergence :: store_value
  ss_rewrites :: nat

record stored_session =
  st_id :: string
  st_header :: session_header
  st_entries :: "stored_entry list"

definition session_SESSION :: string where "session_SESSION = ''session-import/session/''"
definition session_DIVERGENCE :: string where "session_DIVERGENCE = ''session-import/divergence/''"

definition sessionManifestKey :: "string \<Rightarrow> string" where
  "sessionManifestKey id' = session_SESSION @ encodeURIComponent id'"

definition divergenceKey :: "string \<Rightarrow> string" where
  "divergenceKey id' = session_DIVERGENCE @ encodeURIComponent id'"

definition sessionRecordKind :: "string \<Rightarrow> string" where
  "sessionRecordKind id' = ''session/'' @ encodeURIComponent id'"

section \<open>Reading\<close>

definition readEntry :: "string \<Rightarrow> store_value \<Rightarrow> (session_error, stored_entry) result" where
  "readEntry id' v =
     (if is_store_object (Some v) \<and> is_str (fld (Some v) ''key'') \<and> is_str (fld (Some v) ''line'')
      then Inr \<lparr>se_key = get_str (fld (Some v) ''key''), se_line = get_str (fld (Some v) ''line'')\<rparr>
      else Inl (SessionStoreError CorruptSession (''session '' @ id' @ '' holds an unreadable entry record'')))"

fun readEntries :: "string \<Rightarrow> store_value list \<Rightarrow> (session_error, stored_entry list) result" where
  "readEntries id' [] = Inr []"
| "readEntries id' (v # vs) = rbind (readEntry id' v) (\<lambda>e. rbind (readEntries id' vs) (\<lambda>es. Inr (e # es)))"

type_synonym session_scan = "session_header \<times> stored_entry list \<times> string list \<times> nat"

fun read_record :: "string \<Rightarrow> store_record \<Rightarrow> session_scan \<Rightarrow> (session_error, session_scan) result" where
  "read_record id' r (header, entries, held, rewrites) =
     (let data = Some (sr_data r) in
      if is_store_object data \<and> fld data ''op'' = Some (SStr ''rewrite'') \<and> is_store_object (fld data ''header'') \<and> is_list (fld data ''entries'')
      then rbind (readEntries id' (get_list (fld data ''entries''))) (\<lambda>es.
        Inr (obj_fields (fld data ''header''), es, map se_key es, rewrites + 1))
      else if is_store_object data \<and> fld data ''op'' = Some (SStr ''append'')
      then rbind (readEntry id' (sr_data r)) (\<lambda>e.
        if se_key e \<in> set held then Inr (header, entries, held, rewrites)
        else Inr (header, entries @ [e], held @ [se_key e], rewrites))
      else Inl (SessionStoreError CorruptSession (''session '' @ id' @ '' holds an unreadable record '' @ nat_to_string (sr_seq r))))"

fun read_loop :: "string \<Rightarrow> store_record list \<Rightarrow> session_scan \<Rightarrow> (session_error, session_scan) result" where
  "read_loop id' [] acc = Inr acc"
| "read_loop id' (r # rs) acc = rbind (read_record id' r acc) (read_loop id' rs)"

definition session_records :: "medium_state \<Rightarrow> string \<Rightarrow> store_record list" where
  "session_records st id' = scan (ms_records st)
     \<lparr>q_from = None, q_to = None, q_kind = Some (sessionRecordKind id'), q_order = Some Asc, q_limit = None\<rparr>"

definition read_divergence :: "medium_state \<Rightarrow> string \<Rightarrow> store_value" where
  "read_divergence st id' = (case getDocument st (divergenceKey id') of Some d \<Rightarrow> d | None \<Rightarrow> SNull)"

definition readSessionState :: "medium_state \<Rightarrow> string \<Rightarrow> (session_error, session_state option) result" where
  "readSessionState st id' =
     (case getDocument st (sessionManifestKey id') of
        None \<Rightarrow> Inr None
      | Some manifest \<Rightarrow>
          if \<not> is_store_object (Some manifest) \<or> \<not> is_store_object (fld (Some manifest) ''header'')
          then Inl (SessionStoreError CorruptSession (''session '' @ id' @ '' has no readable manifest''))
          else if fld (Some manifest) ''entryIds'' \<noteq> None
          then Inl (SessionStoreError CorruptSession
            (''session '' @ id' @ '' is stored in the layout before the record log; re-import it from its JSONL file''))
          else rbind (read_loop id' (session_records st id') (obj_fields (fld (Some manifest) ''header''), [], [], 0))
            (\<lambda>(header, entries, held, rewrites). Inr (Some
              \<lparr>ss_id = id', ss_header = header, ss_entries = entries, ss_divergence = read_divergence st id', ss_rewrites = rewrites\<rparr>)))"

definition session_load :: "medium_state \<Rightarrow> string \<Rightarrow> (session_error, stored_session option) result" where
  "session_load st id' = rbind (readSessionState st id') (\<lambda>state. Inr (map_option
     (\<lambda>s. \<lparr>st_id = ss_id s, st_header = ss_header s, st_entries = ss_entries s\<rparr>) state))"

section \<open>Writing\<close>

definition manifestWrite :: "string \<Rightarrow> session_header \<Rightarrow> store_write" where
  "manifestWrite id' header = Put (sessionManifestKey id') (SObj [(''id'', SStr id'), (''header'', SObj header)])"

definition divergenceWrite :: "string \<Rightarrow> store_value \<Rightarrow> store_write" where
  "divergenceWrite id' divergence = Put (divergenceKey id') divergence"

definition append_record_id :: "string \<Rightarrow> nat \<Rightarrow> string \<Rightarrow> string" where
  "append_record_id id' rewrites key = sessionRecordKind id' @ ''/'' @ nat_to_string rewrites @ ''/'' @ encodeURIComponent key"

definition appendRecordWrites :: "string \<Rightarrow> nat \<Rightarrow> stored_entry list \<Rightarrow> store_write list" where
  "appendRecordWrites id' rewrites added = map (\<lambda>e. Append (append_record_id id' rewrites (se_key e)) (sessionRecordKind id')
     (SObj [(''op'', SStr ''append''), (''key'', SStr (se_key e)), (''line'', SStr (se_line e))])) added"

definition stored_entry_value :: "stored_entry \<Rightarrow> store_value" where
  "stored_entry_value e = SObj [(''key'', SStr (se_key e)), (''line'', SStr (se_line e))]"

definition rewriteRecordWrite :: "string \<Rightarrow> string \<Rightarrow> session_header \<Rightarrow> stored_entry list \<Rightarrow> store_write" where
  "rewriteRecordWrite mid id' header entries = Append mid (sessionRecordKind id')
     (SObj [(''op'', SStr ''rewrite''), (''header'', SObj header), (''entries'', SList (map stored_entry_value entries))])"

fun refuseRepeats :: "string \<Rightarrow> stored_entry list \<Rightarrow> string list \<Rightarrow> string \<Rightarrow> (session_error, unit) result" where
  "refuseRepeats id' [] seen what = Inr ()"
| "refuseRepeats id' (e # es) seen what =
     (if se_key e \<in> set seen then Inl (SessionStoreError DuplicateEntry (what @ '' '' @ id' @ '' repeats '' @ se_key e))
      else refuseRepeats id' es (se_key e # seen) what)"

type_synonym session_plan = "store_write list \<times> session_state"

definition planAppend :: "session_state \<Rightarrow> bool \<Rightarrow> stored_entry list \<Rightarrow> (session_error, session_plan) result" where
  "planAppend state held added =
     rbind (refuseRepeats (ss_id state) added (map se_key (ss_entries state)) ''session'') (\<lambda>_.
       let next_state = state\<lparr>ss_entries := ss_entries state @ added\<rparr>;
           create = (if held then [] else [manifestWrite (ss_id state) (ss_header state)])
       in Inr (create @ appendRecordWrites (ss_id state) (ss_rewrites state) added, next_state))"

definition planRewrite :: "string \<Rightarrow> session_state \<Rightarrow> bool \<Rightarrow> session_header \<Rightarrow> stored_entry list \<Rightarrow> (session_error, session_plan) result" where
  "planRewrite mid state held header entries =
     rbind (refuseRepeats (ss_id state) entries [] ''rewrite of'') (\<lambda>_.
       let next_state = state\<lparr>ss_header := header, ss_entries := entries, ss_rewrites := ss_rewrites state + 1\<rparr>;
           create = (if held then [] else [manifestWrite (ss_id state) header])
       in Inr (create @ [rewriteRecordWrite mid (ss_id state) header entries], next_state))"

fun asDuplicateEntry :: "string \<Rightarrow> failure \<Rightarrow> session_error" where
  "asDuplicateEntry id' (DurableStoreError DuplicateRecordId) =
     SessionStoreError DuplicateEntry (''session '' @ id' @ '' already holds an entry this write repeats'')"
| "asDuplicateEntry id' e = StoreThrew e"

section \<open>Handles\<close>

record session_handle =
  sh_state :: session_state
  sh_held :: bool

definition openState :: "medium_state \<Rightarrow> string \<Rightarrow> session_header \<Rightarrow> (session_error, session_handle) result" where
  "openState st id' header = rbind (readSessionState st id') (\<lambda>read. Inr (case read of
       None \<Rightarrow> \<lparr>sh_state = \<lparr>ss_id = id', ss_header = header, ss_entries = [], ss_divergence = SNull, ss_rewrites = 0\<rparr>, sh_held = False\<rparr>
     | Some state \<Rightarrow> \<lparr>sh_state = state, sh_held = True\<rparr>))"

text \<open>
  The commit of a plan by a handle. The write points and the store are those of \<open>commitSync\<close>; the asynchronous handle
  runs the same body for one write after the other.
\<close>

definition session_commit :: "(write_point \<Rightarrow> bool) \<Rightarrow> number \<Rightarrow> medium_state \<Rightarrow> session_handle \<Rightarrow>
    (session_error, session_plan) result \<Rightarrow> (session_error, unit) result \<times> medium_state \<times> session_handle" where
  "session_commit seam ep st h plan =
     (case plan of
        Inl e \<Rightarrow> (Inl e, st, h)
      | Inr (writes, next_state) \<Rightarrow>
          (case commitSync seam st ep writes of
             (Inl e, st', _) \<Rightarrow> (Inl (asDuplicateEntry (ss_id (sh_state h)) e), st', h)
           | (Inr _, st', _) \<Rightarrow> (Inr (), st', \<lparr>sh_state = next_state, sh_held = True\<rparr>)))"

datatype session_request = ReqAppend "stored_entry list" | ReqRewrite session_header "stored_entry list"

definition appendSync :: "(write_point \<Rightarrow> bool) \<Rightarrow> number \<Rightarrow> medium_state \<Rightarrow> session_handle \<Rightarrow> stored_entry list \<Rightarrow>
    (session_error, unit) result \<times> medium_state \<times> session_handle" where
  "appendSync seam ep st h entries = session_commit seam ep st h (planAppend (sh_state h) (sh_held h) entries)"

definition rewriteSync :: "(write_point \<Rightarrow> bool) \<Rightarrow> number \<Rightarrow> string \<Rightarrow> medium_state \<Rightarrow> session_handle \<Rightarrow> session_header \<Rightarrow> stored_entry list \<Rightarrow>
    (session_error, unit) result \<times> medium_state \<times> session_handle" where
  "rewriteSync seam ep mid st h header entries = session_commit seam ep st h (planRewrite mid (sh_state h) (sh_held h) header entries)"

fun session_request_step :: "(write_point \<Rightarrow> bool) \<Rightarrow> number \<Rightarrow> string \<Rightarrow> medium_state \<Rightarrow> session_handle \<Rightarrow> session_request \<Rightarrow>
    (session_error, unit) result \<times> medium_state \<times> session_handle" where
  "session_request_step seam ep mid st h (ReqAppend entries) = appendSync seam ep st h entries"
| "session_request_step seam ep mid st h (ReqRewrite header entries) = rewriteSync seam ep mid st h header entries"

text \<open>\<open>enqueue\<close>: the writes of one handle run in the order they were asked for, each planned from the state the one before
  left; one that throws does not stop the next. Each step comes with its write points, epoch and minted id.\<close>

fun session_enqueue :: "((write_point \<Rightarrow> bool) \<times> number \<times> string \<times> session_request) list \<Rightarrow> medium_state \<Rightarrow> session_handle \<Rightarrow>
    (session_error, unit) result list \<times> medium_state \<times> session_handle" where
  "session_enqueue [] st h = ([], st, h)"
| "session_enqueue ((seam, ep, mid, req) # reqs) st h =
     (let (res, st', h') = session_request_step seam ep mid st h req; (rest, st'', h'') = session_enqueue reqs st' h'
      in (res # rest, st'', h''))"

section \<open>The keys of different sessions differ\<close>

text \<open>Reading one encoded character back; only used to show that no two texts coincide.\<close>

definition uri_hex_value :: "char \<Rightarrow> nat" where
  "uri_hex_value c = (let n = of_char c in if n < 58 then n - 48 else n - 55)"

definition uri_read1 :: "string \<Rightarrow> nat \<times> string" where
  "uri_read1 s =
     (if hd s \<noteq> CHR 0x25 then (of_char (hd s), tl s)
      else let b = 16 * uri_hex_value (s ! 1) + uri_hex_value (s ! 2) in
        if b < 128 then (b, drop 3 s)
        else (64 * (b - 192) + (16 * uri_hex_value (s ! 4) + uri_hex_value (s ! 5) - 128), drop 6 s))"

lemma uri_hex_value_hex: "k < 16 \<Longrightarrow> uri_hex_value (uri_hex k) = k"
  by (simp add: uri_hex_def uri_hex_value_def take_bit_eq_mod Let_def)

lemma uri_read1_percent:
  "b < 128 \<Longrightarrow> uri_read1 (uri_percent b @ x) = (b, x)"
  "128 \<le> b \<Longrightarrow> b < 256 \<Longrightarrow> b' < 256 \<Longrightarrow> uri_read1 (uri_percent b @ uri_percent b' @ x) = (64 * (b - 192) + (b' - 128), x)"
  by (simp_all add: uri_read1_def uri_percent_def uri_hex_value_hex Let_def)

lemma uri_read1_encode: "uri_read1 (uri_encode_char c @ x) = (of_char c, x)"
proof (cases "uri_unreserved c")
  case True
  have "c = CHR 0x25 \<longleftrightarrow> (of_char c :: nat) = 37" using of_char_eq_iff [of c "CHR 0x25", where 'a = nat] by simp
  then have "c \<noteq> CHR 0x25" using True by (auto simp: uri_unreserved_def Let_def)
  then show ?thesis using True by (simp add: uri_encode_char_def uri_read1_def Let_def)
next
  case False
  have "64 * (n div 64) + n mod 64 = n" for n :: nat by simp
  moreover have "(of_char c :: nat) < 256" by simp
  then have "(of_char c :: nat) div 64 < 4" by (simp only: less_mult_imp_div_less)
  ultimately show ?thesis
    using False uri_read1_percent(1) [of "of_char c" x] uri_read1_percent(2) [of "192 + of_char c div 64" "128 + of_char c mod 64" x]
    by (cases "(of_char c :: nat) < 128") (simp_all add: uri_encode_char_def Let_def)
qed

lemma uri_encode_char_ne [simp]: "uri_encode_char c \<noteq> []"
  by (simp add: uri_encode_char_def uri_percent_def Let_def)

lemma encodeURIComponent_inj: "encodeURIComponent s = encodeURIComponent t \<longleftrightarrow> s = t"
proof
  show "encodeURIComponent s = encodeURIComponent t \<Longrightarrow> s = t"
  proof (induction s arbitrary: t)
    case Nil
    then show ?case by (cases t) (auto simp: encodeURIComponent_def)
  next
    case (Cons c s)
    then obtain d t' where t: "t = d # t'" by (cases t) (auto simp: encodeURIComponent_def)
    have "uri_encode_char c @ encodeURIComponent s = uri_encode_char d @ encodeURIComponent t'" using Cons.prems t by (simp add: encodeURIComponent_def)
    from arg_cong [OF this, of uri_read1] show ?case using Cons.IH [of t'] t by (simp add: uri_read1_encode)
  qed
qed simp

lemma session_keys [simp]:
  "sessionManifestKey a = sessionManifestKey b \<longleftrightarrow> a = b" "sessionRecordKind a = sessionRecordKind b \<longleftrightarrow> a = b"
  "sessionManifestKey a \<noteq> divergenceKey b"
  by (simp_all add: sessionManifestKey_def sessionRecordKind_def divergenceKey_def encodeURIComponent_inj session_SESSION_def session_DIVERGENCE_def)

section \<open>What the writes do to the session\<close>

text \<open>The abstract operations: an append adds the entries whose keys are new, a rewrite replaces everything.\<close>

fun merge_entries :: "stored_entry list \<Rightarrow> stored_entry list \<Rightarrow> stored_entry list" where
  "merge_entries entries [] = entries"
| "merge_entries entries (e # added) =
     merge_entries (if se_key e \<in> se_key ` set entries then entries else entries @ [e]) added"

lemma stored_entry_eta [simp]: "\<lparr>se_key = se_key e, se_line = se_line e\<rparr> = (e :: stored_entry)"
  by simp

lemma merge_entries_fresh:
  "distinct (map se_key added) \<Longrightarrow> se_key ` set entries \<inter> se_key ` set added = {} \<Longrightarrow> merge_entries entries added = entries @ added"
  by (induction entries added rule: merge_entries.induct) auto

lemma merge_entries_distinct: "distinct (map se_key entries) \<Longrightarrow> distinct (map se_key (merge_entries entries added))"
  by (induction entries added rule: merge_entries.induct) auto

lemma refuseRepeats_Inr: "refuseRepeats id' es seen what = Inr u \<Longrightarrow> distinct (map se_key es) \<and> se_key ` set es \<inter> set seen = {}"
  by (induction id' es seen what rule: refuseRepeats.induct) (auto split: if_splits)

lemma readEntries_values: "readEntries id' (map stored_entry_value es) = Inr es"
  by (induction es) (simp_all add: readEntry_def stored_entry_value_def)

lemma read_loop_append: "read_loop id' (rs @ rs') acc = rbind (read_loop id' rs acc) (read_loop id' rs')"
  by (induction rs arbitrary: acc) (auto simp: rbind_def split: sum.splits)

fun scan_ok :: "session_scan \<Rightarrow> bool" where
  "scan_ok (header, entries, held, n) = (set held = se_key ` set entries)"

lemma read_record_ok: "scan_ok acc \<Longrightarrow> read_record id' r acc = Inr acc' \<Longrightarrow> scan_ok acc'"
  by (cases acc; cases acc') (auto simp: Let_def rbind_eq_Inr split: if_splits)

lemma read_loop_ok: "scan_ok acc \<Longrightarrow> read_loop id' rs acc = Inr acc' \<Longrightarrow> scan_ok acc'"
  by (induction rs arbitrary: acc) (auto simp: rbind_eq_Inr dest: read_record_ok)

text \<open>Until the first rewrite the header is the one the manifest gives.\<close>

lemma read_record_header:
  assumes "read_record id' r (header, entries, held, n) = Inr (header', entries', held', n')"
  shows "read_record id' r (h2, entries, held, n) = Inr (if n' = n then h2 else header', entries', held', n')"
    "n \<le> n'" "n' = n \<Longrightarrow> header' = header"
  using assms by (auto simp: Let_def rbind_eq_Inr split: if_splits)

lemma read_loop_header:
  assumes "read_loop id' rs (header, entries, held, n) = Inr (header', entries', held', n')"
  shows "read_loop id' rs (h2, entries, held, n) = Inr (if n' = n then h2 else header', entries', held', n') \<and> n \<le> n' \<and> (n' = n \<longrightarrow> header' = header)"
  using assms
proof (induction rs arbitrary: header entries held n h2)
  case (Cons r rs)
  obtain h1 es1 he1 n1 where 1: "read_record id' r (header, entries, held, n) = Inr (h1, es1, he1, n1)"
      "read_loop id' rs (h1, es1, he1, n1) = Inr (header', entries', held', n')"
    using Cons.prems by (auto simp: rbind_eq_Inr)
  note r = read_record_header [OF 1(1)]
  note rs = Cons.IH [OF 1(2), of "if n1 = n then h2 else h1"]
  show ?case using r(1) [of h2] r(2,3) rs by (auto split: if_splits)
qed auto

lemma read_loop_appends:
  assumes "scan_ok (header, entries, held, n)"
  shows "\<exists>held'. read_loop id' (number_from k (appended (appendRecordWrites id' m added))) (header, entries, held, n) =
    Inr (header, merge_entries entries added, held', n)"
  using assms
proof (induction added arbitrary: k entries held)
  case (Cons e added)
  let ?e = "if se_key e \<in> set held then entries else entries @ [e]" and ?h = "if se_key e \<in> set held then held else held @ [se_key e]"
  have "scan_ok (header, ?e, ?h, n)" using Cons.prems by auto
  from Cons.IH [OF this, of "Suc k"] show ?case using Cons.prems
    by (cases "se_key e \<in> set held") (simp_all add: appendRecordWrites_def readEntry_def Let_def)
qed (simp add: appendRecordWrites_def)

text \<open>Whether a manifest can be read, and the header it starts the session with.\<close>

definition manifest_header :: "medium_state \<Rightarrow> string \<Rightarrow> session_header option" where
  "manifest_header st id' = (case getDocument st (sessionManifestKey id') of None \<Rightarrow> None
     | Some m \<Rightarrow> if is_store_object (Some m) \<and> is_store_object (fld (Some m) ''header'') \<and> fld (Some m) ''entryIds'' = None
         then Some (obj_fields (fld (Some m) ''header'')) else None)"

lemma readSessionState_Some:
  "readSessionState st id' = Inr (Some s) \<longleftrightarrow>
    (\<exists>h0 header entries held n. manifest_header st id' = Some h0 \<and>
       read_loop id' (session_records st id') (h0, [], [], 0) = Inr (header, entries, held, n) \<and>
       s = \<lparr>ss_id = id', ss_header = header, ss_entries = entries, ss_divergence = read_divergence st id', ss_rewrites = n\<rparr>)"
  by (auto simp: readSessionState_def manifest_header_def rbind_eq_Inr split: option.splits if_splits)

lemma readSessionState_None: "readSessionState st id' = Inr None \<longleftrightarrow> getDocument st (sessionManifestKey id') = None"
  by (auto simp: readSessionState_def rbind_eq_Inr split: option.splits if_splits)

lemma session_records_eq: "session_records st id' = filter (\<lambda>r. sr_kind r = sessionRecordKind id') (ms_records st)"
  by (simp add: session_records_def scan_def)

text \<open>The session as a write finds it: what is read, or a new session.\<close>

definition session_now :: "medium_state \<Rightarrow> string \<Rightarrow> session_header \<Rightarrow> session_state option \<Rightarrow> session_state" where
  "session_now st id' header v = (case v of Some s \<Rightarrow> s
     | None \<Rightarrow> \<lparr>ss_id = id', ss_header = header, ss_entries = [], ss_divergence = read_divergence st id', ss_rewrites = 0\<rparr>)"

fun session_after :: "session_handle \<Rightarrow> session_state \<Rightarrow> session_request \<Rightarrow> session_state" where
  "session_after h s (ReqAppend added) = s\<lparr>ss_header := (if sh_held h \<or> 0 < ss_rewrites s then ss_header s else ss_header (sh_state h)),
     ss_entries := merge_entries (ss_entries s) added\<rparr>"
| "session_after h s (ReqRewrite header entries) = s\<lparr>ss_header := header, ss_entries := entries, ss_rewrites := ss_rewrites s + 1\<rparr>"

text \<open>A session without a manifest has left nothing else behind.\<close>

definition session_clean :: "medium_state \<Rightarrow> string \<Rightarrow> bool" where
  "session_clean st id' \<longleftrightarrow> (getDocument st (sessionManifestKey id') = None \<longrightarrow>
     session_records st id' = [] \<and> getDocument st (divergenceKey id') = None)"

text \<open>\<open>session_written\<close>: the store after a commit of the records \<open>new\<close> of session \<open>id'\<close>, with its manifest when the session is new.\<close>

definition session_written :: "medium_state \<Rightarrow> string \<Rightarrow> session_header option \<Rightarrow> (string \<times> string \<times> store_value) list \<Rightarrow> medium_state \<Rightarrow> bool" where
  "session_written st id' create new st' \<longleftrightarrow>
     ms_records st' = ms_records st @ number_from (length (ms_records st)) new \<and> (\<forall>(i, k, d) \<in> set new. k = sessionRecordKind id') \<and>
     getDocument st' = (case create of None \<Rightarrow> getDocument st
       | Some header \<Rightarrow> (getDocument st)(sessionManifestKey id' \<mapsto> SObj [(''id'', SStr id'), (''header'', SObj header)]))"

lemma filter_number_from:
  "(\<forall>(i, k, d) \<in> set new. k = sessionRecordKind id') \<Longrightarrow>
    filter (\<lambda>r. sr_kind r = sessionRecordKind b) (number_from n new) = (if b = id' then number_from n new else [])"
  by (induction n new rule: number_from.induct) auto

lemma session_written_reads:
  assumes "session_written st id' create new st'"
  shows "session_records st' id' = session_records st id' @ number_from (length (ms_records st)) new"
    and "b \<noteq> id' \<Longrightarrow> readSessionState st' b = readSessionState st b"
    and "manifest_header st' id' = (case create of None \<Rightarrow> manifest_header st id' | Some h \<Rightarrow> Some h)"
    and "read_divergence st' id' = read_divergence st id'"
proof -
  have f: "filter (\<lambda>r. sr_kind r = sessionRecordKind b) (number_from n new) = (if b = id' then number_from n new else [])" for b n
    using assms by (intro filter_number_from) (simp add: session_written_def)
  show "session_records st' id' = session_records st id' @ number_from (length (ms_records st)) new"
    using assms f by (simp add: session_records_eq session_written_def)
  show "manifest_header st' id' = (case create of None \<Rightarrow> manifest_header st id' | Some h \<Rightarrow> Some h)"
    using assms by (auto simp: manifest_header_def session_written_def split: option.splits)
  show "read_divergence st' id' = read_divergence st id'"
    using assms by (auto simp: read_divergence_def session_written_def session_keys(3) [symmetric] split: option.splits)
  assume b: "b \<noteq> id'"
  have same: "session_records st' b = session_records st b" using assms f b by (simp add: session_records_eq session_written_def)
  have docs: "getDocument st' (sessionManifestKey b) = getDocument st (sessionManifestKey b)" "read_divergence st' b = read_divergence st b"
    using assms b by (auto simp: read_divergence_def session_written_def session_keys(3) [symmetric] split: option.splits)
  show "readSessionState st' b = readSessionState st b" unfolding readSessionState_def same docs ..
qed

lemma appended_writes:
  "appended (appendRecordWrites id' n added) =
    map (\<lambda>e. (append_record_id id' n (se_key e), sessionRecordKind id',
      SObj [(''op'', SStr ''append''), (''key'', SStr (se_key e)), (''line'', SStr (se_line e))])) added"
  "written (appendRecordWrites id' n added) = id"
  by (induction added) (auto simp: appendRecordWrites_def fun_eq_iff)

text \<open>A plan's writes are those of \<open>session_written\<close>, and reading afterwards gives the abstract operation.\<close>

definition request_plan :: "string \<Rightarrow> session_handle \<Rightarrow> session_request \<Rightarrow> (session_error, session_plan) result" where
  "request_plan mid h req = (case req of ReqAppend added \<Rightarrow> planAppend (sh_state h) (sh_held h) added
     | ReqRewrite header entries \<Rightarrow> planRewrite mid (sh_state h) (sh_held h) header entries)"

lemma session_request_step_eq: "session_request_step seam ep mid st h req = session_commit seam ep st h (request_plan mid h req)"
  by (cases req) (simp_all add: request_plan_def appendSync_def rewriteSync_def)

definition create_header :: "session_handle \<Rightarrow> session_request \<Rightarrow> session_header option" where
  "create_header h req = (if sh_held h then None
     else Some (case req of ReqAppend _ \<Rightarrow> ss_header (sh_state h) | ReqRewrite header _ \<Rightarrow> header))"

lemma plan_written:
  assumes "request_plan mid h req = Inr (ws, nx)" "ms_records st' = ms_records st @ number_from (length (ms_records st)) (appended ws)"
    and "getDocument st' = written ws (getDocument st)"
  shows "session_written st (ss_id (sh_state h)) (create_header h req) (appended ws) st'"
  using assms
  by (cases req) (auto simp: request_plan_def planAppend_def planRewrite_def rbind_eq_Inr Let_def session_written_def create_header_def
      manifestWrite_def rewriteRecordWrite_def appended_writes split: if_splits)

lemma plan_refines:
  assumes read: "readSessionState st (ss_id (sh_state h)) = Inr v" and clean: "session_clean st (ss_id (sh_state h))"
    and held: "sh_held h \<Longrightarrow> v \<noteq> None" and plan: "request_plan mid h req = Inr (ws, nx)"
    and w: "session_written st (ss_id (sh_state h)) (create_header h req) (appended ws) st'"
  shows "readSessionState st' (ss_id (sh_state h)) =
    Inr (Some (session_after h (session_now st (ss_id (sh_state h)) (ss_header (sh_state h)) v) req))"
proof -
  let ?id = "ss_id (sh_state h)"
  note r = session_written_reads [OF w]
  have "\<exists>hd0 header entries hs n. read_loop ?id (session_records st ?id) (hd0, [], [], 0) = Inr (header, entries, hs, n) \<and>
      session_now st ?id (ss_header (sh_state h)) v = \<lparr>ss_id = ?id, ss_header = header, ss_entries = entries, ss_divergence = read_divergence st ?id, ss_rewrites = n\<rparr> \<and>
      (sh_held h \<longrightarrow> manifest_header st ?id = Some hd0)"
  proof (cases v)
    case None
    then have "session_records st ?id = []" using read clean by (simp add: readSessionState_None session_clean_def)
    then show ?thesis using None held by (auto simp: session_now_def)
  next
    case (Some s)
    then obtain h0 header entries hs n where "manifest_header st ?id = Some h0"
        "read_loop ?id (session_records st ?id) (h0, [], [], 0) = Inr (header, entries, hs, n)"
        "s = \<lparr>ss_id = ?id, ss_header = header, ss_entries = entries, ss_divergence = read_divergence st ?id, ss_rewrites = n\<rparr>"
      using read by (auto simp: readSessionState_Some)
    then show ?thesis using Some unfolding session_now_def by (intro exI [of _ h0] exI [of _ header] exI [of _ entries] exI [of _ hs] exI [of _ n]) simp
  qed
  then obtain hd0 header entries hs n where old: "read_loop ?id (session_records st ?id) (hd0, [], [], 0) = Inr (header, entries, hs, n)"
      "session_now st ?id (ss_header (sh_state h)) v = \<lparr>ss_id = ?id, ss_header = header, ss_entries = entries, ss_divergence = read_divergence st ?id, ss_rewrites = n\<rparr>"
      "sh_held h \<Longrightarrow> manifest_header st ?id = Some hd0" by blast
  obtain hd1 where hd1: "manifest_header st' ?id = Some hd1" "hd1 = (case create_header h req of None \<Rightarrow> hd0 | Some x \<Rightarrow> x)"
    using r(3) old(3) by (auto simp: create_header_def split: if_splits)
  have pre: "read_loop ?id (session_records st ?id) (hd1, [], [], 0) = Inr (if n = 0 then hd1 else header, entries, hs, n)" "n = 0 \<Longrightarrow> header = hd0"
    using read_loop_header [OF old(1), of hd1] by simp_all
  have ok: "scan_ok (if n = 0 then hd1 else header, entries, hs, n)" using read_loop_ok [OF _ pre(1)] by simp
  have loop: "read_loop ?id (session_records st' ?id) (hd1, [], [], 0) =
      read_loop ?id (number_from (length (ms_records st)) (appended ws)) (if n = 0 then hd1 else header, entries, hs, n)"
    using pre(1) by (simp add: r(1) read_loop_append)
  have "\<exists>hs'. read_loop ?id (session_records st' ?id) (hd1, [], [], 0) =
      (let s = session_after h (session_now st ?id (ss_header (sh_state h)) v) req in Inr (ss_header s, ss_entries s, hs', ss_rewrites s))"
  proof (cases req)
    case (ReqAppend added)
    have "appended ws = appended (appendRecordWrites ?id (ss_rewrites (sh_state h)) added)"
      using plan ReqAppend by (auto simp: request_plan_def planAppend_def rbind_eq_Inr Let_def manifestWrite_def)
    then show ?thesis unfolding loop using read_loop_appends [OF ok, of ?id] ReqAppend old(2) hd1(2) pre(2)
      by (auto simp: create_header_def)
  next
    case (ReqRewrite header2 entries2)
    have "appended ws = [(mid, sessionRecordKind ?id, SObj [(''op'', SStr ''rewrite''), (''header'', SObj header2), (''entries'', SList (map stored_entry_value entries2))])]"
      using plan ReqRewrite by (auto simp: request_plan_def planRewrite_def rbind_eq_Inr Let_def manifestWrite_def rewriteRecordWrite_def)
    then show ?thesis unfolding loop using ReqRewrite old(2) by (simp add: readEntries_values Let_def)
  qed
  moreover have "session_after h (session_now st ?id (ss_header (sh_state h)) v) req = \<lparr>ss_id = ?id, ss_header = ss_header s, ss_entries = ss_entries s,
      ss_divergence = read_divergence st ?id, ss_rewrites = ss_rewrites s\<rparr>" if "s = session_after h (session_now st ?id (ss_header (sh_state h)) v) req" for s
    using that old(2) by (cases req) simp_all
  ultimately show ?thesis using hd1(1) r(4) by (auto simp: readSessionState_Some Let_def)
qed

lemma commitSync_session:
  assumes "commitSync seam st ep ws = (x, st', ad)"
  shows "(st' = st \<and> (\<exists>e. x = Inl e)) \<or>
    (ms_records st' = ms_records st @ number_from (length (ms_records st)) (appended ws) \<and> getDocument st' = written ws (getDocument st) \<and>
     (if seam (PointDurable OpCommit) then x = Inl SeamThrow else \<exists>r. x = Inr r))"
  by (cases rule: commitSync_cases [of seam st ep ws]; use assms in \<open>auto simp: getDocument_eq split: if_splits\<close>)

lemma session_step_cases:
  assumes "session_request_step seam ep mid st h req = (res, st', h')"
  obtains (refused) e where "res = Inl e" "st' = st" "h' = h"
  | (stored) ws nx where "request_plan mid h req = Inr (ws, nx)" "session_written st (ss_id (sh_state h)) (create_header h req) (appended ws) st'"
      "if seam (PointDurable OpCommit) then res = Inl (StoreThrew SeamThrow) \<and> h' = h else res = Inr () \<and> h' = \<lparr>sh_state = nx, sh_held = True\<rparr>"
proof (cases "request_plan mid h req")
  case (Inl e)
  then show thesis using assms refused by (auto simp: session_request_step_eq session_commit_def)
next
  case (Inr p)
  obtain ws nx where p: "p = (ws, nx)" by (cases p)
  obtain x st1 ad where c: "commitSync seam st ep ws = (x, st1, ad)" by (cases "commitSync seam st ep ws")
  have out: "st' = st1" "(\<exists>e. x = Inl e \<and> res = Inl (asDuplicateEntry (ss_id (sh_state h)) e) \<and> h' = h) \<or>
      (\<exists>r. x = Inr r \<and> res = Inr () \<and> h' = \<lparr>sh_state = nx, sh_held = True\<rparr>)"
    using assms Inr p c by (auto simp: session_request_step_eq session_commit_def split: sum.splits)
  from commitSync_session [OF c] show thesis
  proof (elim disjE conjE)
    assume "st1 = st" "\<exists>e. x = Inl e"
    then show thesis using out refused by auto
  next
    assume d: "ms_records st1 = ms_records st @ number_from (length (ms_records st)) (appended ws)" "getDocument st1 = written ws (getDocument st)"
      "if seam (PointDurable OpCommit) then x = Inl SeamThrow else \<exists>r. x = Inr r"
    then show thesis using stored [OF Inr [unfolded p]] plan_written [OF Inr [unfolded p] d(1,2)] out by (auto split: if_splits)
  qed
qed

section \<open>Properties of the session store\<close>

definition sample_entry_of :: "string \<Rightarrow> stored_entry" where
  "sample_entry_of k = \<lparr>se_key = k, se_line = ''line''\<rparr>"

definition sample_session_store :: medium_state where
  "sample_session_store = \<lparr>ms_epoch = Fin 1, ms_records = [], ms_documents = []\<rparr>"

definition sample_new_handle :: "session_header \<Rightarrow> session_handle" where
  "sample_new_handle header = \<lparr>sh_state = \<lparr>ss_id = ''s'', ss_header = header, ss_entries = [], ss_divergence = SNull, ss_rewrites = 0\<rparr>, sh_held = False\<rparr>"



lemma plan_next:
  assumes "request_plan mid h req = Inr (ws, nx)" "distinct (map se_key (ss_entries (sh_state h)))"
  shows "session_after h (sh_state h) req = nx\<lparr>ss_header := ss_header (session_after h (sh_state h) req)\<rparr>"
    "ss_header (session_after h (sh_state h) req) = ss_header nx" "distinct (map se_key (ss_entries nx))" "ss_id nx = ss_id (sh_state h)"
proof -
  have "merge_entries (ss_entries (sh_state h)) added = ss_entries (sh_state h) @ added \<and> distinct (map se_key (ss_entries (sh_state h) @ added))"
    if "refuseRepeats (ss_id (sh_state h)) added (map se_key (ss_entries (sh_state h))) what = Inr u" for added what u
  proof -
    from refuseRepeats_Inr [OF that] have d: "distinct (map se_key added)" "se_key ` set (ss_entries (sh_state h)) \<inter> se_key ` set added = {}" by auto
    then show ?thesis using merge_entries_fresh [OF d] assms(2) by simp
  qed
  then show "session_after h (sh_state h) req = nx\<lparr>ss_header := ss_header (session_after h (sh_state h) req)\<rparr>"
    "ss_header (session_after h (sh_state h) req) = ss_header nx" "distinct (map se_key (ss_entries nx))" "ss_id nx = ss_id (sh_state h)"
    using assms(1) by (cases req; auto simp: request_plan_def planAppend_def planRewrite_def rbind_eq_Inr Let_def dest: refuseRepeats_Inr)+
qed

lemma handle_in_sync_step:
  assumes "session_clean st id'" "ss_id (sh_state h) = id'"
    and "readSessionState st id' = Inr (if sh_held h then Some (sh_state h) else None)" "distinct (map se_key (ss_entries (sh_state h)))"
    and "\<not> sh_held h \<Longrightarrow> ss_entries (sh_state h) = [] \<and> ss_rewrites (sh_state h) = 0 \<and> ss_divergence (sh_state h) = SNull"
    and "\<not> seam (PointDurable OpCommit)" "session_request_step seam ep mid st h req = (res, st', h')"
  shows "session_clean st' id' \<and> ss_id (sh_state h') = id' \<and> readSessionState st' id' = Inr (if sh_held h' then Some (sh_state h') else None) \<and>
    distinct (map se_key (ss_entries (sh_state h'))) \<and>
    (\<not> sh_held h' \<longrightarrow> ss_entries (sh_state h') = [] \<and> ss_rewrites (sh_state h') = 0 \<and> ss_divergence (sh_state h') = SNull)"
  using assms(7)
proof (cases rule: session_step_cases)
  case refused
  then show ?thesis using assms by simp
next
  case (stored ws nx)
  let ?v = "if sh_held h then Some (sh_state h) else None"
  have h': "h' = \<lparr>sh_state = nx, sh_held = True\<rparr>" using stored(3) assms(6) by simp
  have now: "session_now st id' (ss_header (sh_state h)) ?v = sh_state h"
    using assms(1-3,5) by (cases "sh_held h") (auto simp: session_now_def session_clean_def readSessionState_None read_divergence_def)
  have "readSessionState st' id' = Inr (Some (session_after h (session_now st id' (ss_header (sh_state h)) ?v) req))"
    using plan_refines [OF _ _ _ stored(1,2), of ?v] assms(1-3) by auto
  moreover note plan_next [OF stored(1) assms(4)]
  ultimately show ?thesis using h' now assms(2) by (auto simp: session_clean_def readSessionState_None [symmetric])
qed

lemma handle_in_sync:
  assumes "session_clean st id'" "ss_id (sh_state h) = id'"
    and "readSessionState st id' = Inr (if sh_held h then Some (sh_state h) else None)" "distinct (map se_key (ss_entries (sh_state h)))"
    and "\<not> sh_held h \<longrightarrow> ss_entries (sh_state h) = [] \<and> ss_rewrites (sh_state h) = 0 \<and> ss_divergence (sh_state h) = SNull"
    and "list_all (\<lambda>(seam, _). \<not> seam (PointDurable OpCommit)) reqs" "session_enqueue reqs st h = (results, st', h')"
  shows "readSessionState st' id' = Inr (if sh_held h' then Some (sh_state h') else None) \<and> distinct (map se_key (ss_entries (sh_state h')))"
  using assms
proof (induction reqs arbitrary: st h results)
  case (Cons q reqs)
  obtain seam ep mid req where q: "q = (seam, ep, mid, req)" by (cases q)
  obtain res st1 h1 where s: "session_request_step seam ep mid st h req = (res, st1, h1)" by (metis prod_cases3)
  obtain rest where e: "session_enqueue reqs st1 h1 = (rest, st', h')" using Cons.prems(7) q s by (auto split: prod.splits)
  have d: "\<not> seam (PointDurable OpCommit)" using Cons.prems(6) q by simp
  note n = handle_in_sync_step [OF Cons.prems(1-4) _ d s]
  show ?case by (rule Cons.IH [OF _ _ _ _ _ _ e]) (use n Cons.prems(5,6) in auto)
qed auto

text \<open>A handle shows what is stored: while only this handle writes its session, after any queue of appends and rewrites, refused
  ones included, loading the session again gives exactly the handle's header, entries and rewrite count (or no session when nothing
  was written yet), and no key occurs twice.\<close>

theorem session_handle_exact:
  assumes "session_clean st id'" "openState st id' header = Inr h" "distinct (map se_key (ss_entries (sh_state h)))"
    and "list_all (\<lambda>(seam, _). \<not> seam (PointDurable OpCommit)) reqs" "session_enqueue reqs st h = (results, st', h')"
  shows "readSessionState st' id' = Inr (if sh_held h' then Some (sh_state h') else None) \<and> distinct (map se_key (ss_entries (sh_state h')))"
proof -
  have "ss_id s = id'" if "readSessionState st id' = Inr (Some s)" for s using that by (auto simp: readSessionState_Some)
  then show ?thesis using assms(2)
    by (intro handle_in_sync [OF assms(1) _ _ assms(3) _ assms(4,5)]) (auto simp: openState_def rbind_eq_Inr split: option.splits)
qed

theorem session_handle_exact_witness:
  "\<exists>results st' h'. session_enqueue [(\<lambda>_. False, Fin 1, ''m'', ReqAppend [sample_entry_of ''k'']),
       (\<lambda>_. False, Fin 1, ''m'', ReqAppend [sample_entry_of ''k''])] sample_session_store (sample_new_handle []) = (results, st', h') \<and>
     readSessionState st' ''s'' = Inr (if sh_held h' then Some (sh_state h') else None)"
proof -
  let ?q = "[(\<lambda>_. False, Fin 1, ''m'', ReqAppend [sample_entry_of ''k'']), (\<lambda>_. False, Fin 1, ''m'', ReqAppend [sample_entry_of ''k''])]
    :: ((write_point \<Rightarrow> bool) \<times> number \<times> string \<times> session_request) list"
  obtain results st' h' where s: "session_enqueue ?q sample_session_store (sample_new_handle []) = (results, st', h')" by (metis prod_cases3)
  have c: "session_clean sample_session_store ''s''" "openState sample_session_store ''s'' [] = Inr (sample_new_handle [])"
    "distinct (map se_key (ss_entries (sh_state (sample_new_handle []))))"
    by (simp_all add: session_clean_def session_records_eq sample_session_store_def getDocument_def openState_def readSessionState_def sample_new_handle_def)
  from session_handle_exact [OF c _ s] s show ?thesis by auto
qed

lemma stage_writes_taken:
  "rid \<in> sr_id ` set records \<Longrightarrow> Append rid kind data \<in> set ws \<Longrightarrow>
    \<exists>e. stage_writes seam i ws records documents seqs = Inl e \<and> (seam = (\<lambda>_. False) \<longrightarrow> e = DurableStoreError DuplicateRecordId)"
proof (induction seam i ws records documents seqs rule: stage_writes.induct)
  case (2 seam i w ws records documents seqs)
  show ?case
  proof (cases "seam (PointWrite OpCommit i)")
    case True
    then show ?thesis by (auto intro!: exI [of _ SeamThrow])
  next
    case False
    then show ?thesis using 2 by (cases w) (auto simp: Let_def)
  qed
qed simp

lemma append_writes_in: "e \<in> set added \<Longrightarrow> \<exists>data. Append (append_record_id id' n (se_key e)) (sessionRecordKind id') data \<in> set (appendRecordWrites id' n added)"
  by (auto simp: appendRecordWrites_def)

text \<open>A key is appended once: when one process has appended a key to a session, another process that has seen as many rewrites and
  appends the same key later is refused, the store and its handle stay as they were, and unless the store itself fails the error says
  that the entry is a duplicate.\<close>

theorem repeated_entry_refused:
  assumes "appendSync seam ep st h added = (Inr (), st1, h')" "e \<in> set added" "sr_id ` set (ms_records st1) \<subseteq> sr_id ` set (ms_records st2)"
    and "ss_id (sh_state h2) = ss_id (sh_state h)" "ss_rewrites (sh_state h2) = ss_rewrites (sh_state h)" "e2 \<in> set added2" "se_key e2 = se_key e"
    and "appendSync seam2 ep2 st2 h2 added2 = (res, st3, h2')"
  shows "st3 = st2 \<and> h2' = h2 \<and> (\<exists>err. res = Inl err) \<and>
    (seam2 = (\<lambda>_. False) \<and> requireOwner st2 ep2 = Inr () \<longrightarrow> (\<exists>msg. res = Inl (SessionStoreError DuplicateEntry msg)))"
proof -
  let ?id = "ss_id (sh_state h)" and ?n = "ss_rewrites (sh_state h)"
  obtain ws nx where p: "planAppend (sh_state h) (sh_held h) added = Inr (ws, nx)" "\<exists>r ad. commitSync seam st ep ws = (Inr r, st1, ad)"
    using assms(1) by (auto simp: appendSync_def session_commit_def split: sum.splits prod.splits)
  have "append_record_id ?id ?n (se_key e) \<in> fst ` set (appended ws)"
    using p(1) assms(2) by (auto simp: planAppend_def rbind_eq_Inr Let_def manifestWrite_def appended_writes image_image)
  moreover have "ms_records st1 = ms_records st @ number_from (length (ms_records st)) (appended ws)"
    using p(2) commitSync_session by fastforce
  ultimately have "append_record_id ?id ?n (se_key e) \<in> sr_id ` set (ms_records st1)"
    by (metis UnCI image_Un list.set_map set_append sr_id_number_from)
  then have id2: "append_record_id ?id ?n (se_key e) \<in> sr_id ` set (ms_records st2)" using assms(3) by blast
  show ?thesis
  proof (cases "planAppend (sh_state h2) (sh_held h2) added2")
    case (Inl err)
    then have "\<exists>msg. err = SessionStoreError DuplicateEntry msg"
    proof -
      have "refuseRepeats i es seen what = Inl x \<Longrightarrow> \<exists>msg. x = SessionStoreError DuplicateEntry msg" for i es seen what x
        by (induction i es seen what rule: refuseRepeats.induct) (auto split: if_splits)
      then show ?thesis using Inl by (auto simp: planAppend_def rbind_eq_Inl Let_def)
    qed
    then show ?thesis using assms(8) Inl by (auto simp: appendSync_def session_commit_def)
  next
    case (Inr q)
    obtain ws2 nx2 where q: "q = (ws2, nx2)" by (cases q)
    obtain data where "Append (append_record_id ?id ?n (se_key e)) (sessionRecordKind ?id) data \<in> set (appendRecordWrites ?id ?n added2)"
      using append_writes_in [OF assms(6), of ?id ?n] assms(7) by auto
    moreover have "set (appendRecordWrites ?id ?n added2) \<subseteq> set ws2"
      using Inr q assms(4,5) by (auto simp: planAppend_def rbind_eq_Inr Let_def)
    ultimately have "Append (append_record_id ?id ?n (se_key e)) (sessionRecordKind ?id) data \<in> set ws2" by blast
    from stage_writes_taken [OF id2 this, of seam2 0 "ms_documents st2" "[]"] obtain x where
      "stage_writes seam2 0 ws2 (ms_records st2) (ms_documents st2) [] = Inl x" "seam2 = (\<lambda>_. False) \<longrightarrow> x = DurableStoreError DuplicateRecordId" by blast
    then obtain y where "commitSync seam2 st2 ep2 ws2 = (Inl y, st2, None)"
        "seam2 = (\<lambda>_. False) \<and> requireOwner st2 ep2 = Inr () \<longrightarrow> y = DurableStoreError DuplicateRecordId"
      by (cases "seam2 (PointBefore OpCommit)"; cases "requireOwner st2 ep2") (auto simp: commitSync_def)
    then show ?thesis using assms(8) Inr q by (auto simp: appendSync_def session_commit_def)
  qed
qed

definition sample_appended :: "(session_error, unit) result \<times> medium_state \<times> session_handle" where
  "sample_appended = appendSync (\<lambda>_. False) (Fin 1) sample_session_store (sample_new_handle []) [sample_entry_of ''k'']"

theorem repeated_entry_refused_witness:
  "\<exists>msg. fst (appendSync (\<lambda>_. False) (Fin 1) (fst (snd sample_appended)) (sample_new_handle []) [sample_entry_of ''k'']) =
     Inl (SessionStoreError DuplicateEntry msg)"
proof -
  have a: "fst sample_appended = Inr ()" "requireOwner (fst (snd sample_appended)) (Fin 1) = Inr ()"
    by (simp_all add: sample_appended_def appendSync_def planAppend_def session_commit_def sample_new_handle_def sample_session_store_def
        appendRecordWrites_def commitSync_def requireOwner_def Let_def manifestWrite_def)
  let ?x = "appendSync (\<lambda>_. False) (Fin 1) (fst (snd sample_appended)) (sample_new_handle []) [sample_entry_of ''k'']"
  have 1: "appendSync (\<lambda>_. False) (Fin 1) sample_session_store (sample_new_handle []) [sample_entry_of ''k''] =
      (Inr (), fst (snd sample_appended), snd (snd sample_appended))"
    unfolding sample_appended_def [symmetric] a(1) [symmetric] by simp
  have 2: "?x = (fst ?x, fst (snd ?x), snd (snd ?x))" by simp
  have 3: "sample_entry_of ''k'' \<in> set [sample_entry_of ''k'']" by simp
  from repeated_entry_refused [OF 1 3 subset_refl refl refl 3 refl 2] a(2) show ?thesis by fast
qed

section \<open>Two processes on one session\<close>

text \<open>The manifest is not written once only: a second process that opened the session before it was written replaces its header.\<close>

lemma second_creator_replaces_header:
  "case appendSync (\<lambda>_. False) (Fin 1) (fst (snd sample_appended)) (sample_new_handle [(''by'', SNull)]) [sample_entry_of ''b''] of
     (res, st, h) \<Rightarrow> res = Inr () \<and> readSessionState (fst (snd sample_appended)) ''s'' = Inr (Some
         \<lparr>ss_id = ''s'', ss_header = [], ss_entries = [sample_entry_of ''k''], ss_divergence = SNull, ss_rewrites = 0\<rparr>) \<and>
       readSessionState st ''s'' = Inr (Some
         \<lparr>ss_id = ''s'', ss_header = [(''by'', SNull)], ss_entries = [sample_entry_of ''k'', sample_entry_of ''b''], ss_divergence = SNull, ss_rewrites = 0\<rparr>)"
  by code_simp

text \<open>A handle's rewrite count is not the number of rewrites the session holds once another process has rewritten it; an append after a
  rewrite of its own is then refused as a duplicate although the session holds no entry.\<close>

lemma stale_rewrite_count_refuses:
  "case rewriteSync (\<lambda>_. False) (Fin 1) ''m1'' (fst (snd sample_appended)) (snd (snd sample_appended)) [] [] of (r1, st1, h1) \<Rightarrow>
   case appendSync (\<lambda>_. False) (Fin 1) st1 h1 [sample_entry_of ''k''] of (r2, st2, h2) \<Rightarrow>
   case rewriteSync (\<lambda>_. False) (Fin 1) ''m2'' st2 (snd (snd sample_appended)) [] [] of (r3, st3, h3) \<Rightarrow>
   case appendSync (\<lambda>_. False) (Fin 1) st3 h3 [sample_entry_of ''k''] of (r4, st4, h4) \<Rightarrow>
     r1 = Inr () \<and> r2 = Inr () \<and> r3 = Inr () \<and>
     readSessionState st3 ''s'' = Inr (Some \<lparr>ss_id = ''s'', ss_header = [], ss_entries = [], ss_divergence = SNull, ss_rewrites = 2\<rparr>) \<and>
     r4 = Inl (SessionStoreError DuplicateEntry ''session s already holds an entry this write repeats'')"
  by code_simp

end
