(* ===== verification/Remote_Epoch.thy ===== *)
theory Remote_Epoch
  imports Durable_Store
begin

text \<open>
  The epoch fence of a hand (execution/remote-epoch.ts) and the session's gate to it (remote-epoch-gate.ts). A
  session that moves to a new owner raises the floor of its scope on the hand before it dispatches; from then
  on the hand refuses every message of an older owner. The fence keeps its floors in memory and in the hand's store.
  Promises of the gate are numbered, so that a late failure of an earlier send is told apart.
\<close>

section \<open>Floors\<close>

definition EPOCH_FLOOR_MAX_STEP :: number where "EPOCH_FLOOR_MAX_STEP = Fin 1"
definition EPOCH_FLOOR_PREFIX :: string where "EPOCH_FLOOR_PREFIX = ''hand.epoch-floor:''"

record epoch_floor =
  fl_epoch :: number
  fl_owner :: string

datatype epoch_refusal = PeerUnauthorized | FloorFenced | EpochStepExceeded | EpochUnsupported

datatype floor_raise = FloorAcked number | FloorRefusedFor epoch_refusal

text \<open>What the protocol accepts as an epoch.\<close>

definition isEpoch :: "number \<Rightarrow> bool" where
  "isEpoch n \<longleftrightarrow> is_safe_integer n \<and> num_le (Fin 1) n"

definition decodeFloor :: "store_value \<Rightarrow> (failure, epoch_floor) result" where
  "decodeFloor data =
     (let epoch = fld (Some data) ''epoch''; owner = fld (Some data) ''owner'' in
      if is_store_object (Some data) \<and> epoch \<noteq> None \<and> owner \<noteq> None \<and>
        is_num epoch \<and> is_safe_integer (get_num epoch) \<and> num_le (Fin 1) (get_num epoch) \<and> is_str owner
      then Inr \<lparr>fl_epoch = get_num epoch, fl_owner = get_str owner\<rparr>
      else Inl (ErrorMessage ''A stored epoch floor is malformed''))"

definition floor_key :: "string \<Rightarrow> string" where
  "floor_key scope = EPOCH_FLOOR_PREFIX @ scope"

definition floor_value :: "epoch_floor \<Rightarrow> store_value" where
  "floor_value f = SObj [(''epoch'', SNum (fl_epoch f)), (''owner'', SStr (fl_owner f))]"

text \<open>\<open>ready\<close>: the floors an earlier process persisted.\<close>

fun load_floors :: "store_document list \<Rightarrow> epoch_floor obj \<Rightarrow> (failure, epoch_floor obj) result" where
  "load_floors [] floors = Inr floors"
| "load_floors (d # ds) floors = rbind (decodeFloor (sd_data d)) (\<lambda>f.
     load_floors ds (obj_put (drop (length EPOCH_FLOOR_PREFIX) (sd_key d)) f floors))"

definition fence_ready :: "medium_state \<Rightarrow> (failure, epoch_floor obj) result" where
  "fence_ready st = load_floors (documentsOf st EPOCH_FLOOR_PREFIX) []"

text \<open>\<open>raiseNow\<close>: the reply, the floors and the store afterwards. \<open>durable\<close> is the store's owner epoch, if floors persist.\<close>

definition raiseNow :: "(write_point \<Rightarrow> bool) \<Rightarrow> number option \<Rightarrow> (string \<Rightarrow> string option) \<Rightarrow> epoch_floor obj \<times> medium_state \<Rightarrow>
    string \<Rightarrow> number \<Rightarrow> string \<Rightarrow> (failure, floor_raise) result \<times> epoch_floor obj \<times> medium_state" where
  "raiseNow seam durable ownerOf = (\<lambda>(floors, st) scope epoch sender.
     if ownerOf scope \<noteq> Some sender then (Inr (FloorRefusedFor PeerUnauthorized), floors, st)
     else
       let current = map_of floors scope; floor0 = (case current of Some f \<Rightarrow> fl_epoch f | None \<Rightarrow> Fin 0) in
       if num_lt epoch floor0 then (Inr (FloorAcked floor0), floors, st)
       else if current \<noteq> None \<and> num_eq epoch floor0
       then (Inr (if fl_owner (the current) = sender then FloorAcked floor0 else FloorRefusedFor FloorFenced), floors, st)
       else if num_lt EPOCH_FLOOR_MAX_STEP (num_sub epoch floor0) then (Inr (FloorRefusedFor EpochStepExceeded), floors, st)
       else
         let next_floor = \<lparr>fl_epoch = epoch, fl_owner = sender\<rparr> in
         case durable of
           None \<Rightarrow> (Inr (FloorAcked epoch), obj_put scope next_floor floors, st)
         | Some ep \<Rightarrow>
             (case commitSync seam st ep [Put (floor_key scope) (floor_value next_floor)] of
                (res, st', adopted) \<Rightarrow>
                  (rbind res (\<lambda>_. Inr (FloorAcked epoch)), if adopted = None then floors else obj_put scope next_floor floors, st')))"

definition fence_admits :: "epoch_floor obj \<Rightarrow> string \<Rightarrow> number option \<Rightarrow> string \<Rightarrow> bool" where
  "fence_admits floors scope epoch sender =
     (case map_of floors scope of
        None \<Rightarrow> True
      | Some f \<Rightarrow> let at_epoch = (case epoch of Some e \<Rightarrow> e | None \<Rightarrow> Fin 0) in
          num_lt (fl_epoch f) at_epoch \<or> (num_eq at_epoch (fl_epoch f) \<and> fl_owner f = sender))"

datatype floor_message = FloorAckMessage number | FloorRefusedMessage epoch_refusal

definition answerFloor :: "(string \<Rightarrow> number \<Rightarrow> string \<Rightarrow> (failure, floor_raise) result \<times> 's) option \<Rightarrow> 's \<Rightarrow> string \<Rightarrow> number \<Rightarrow> string \<Rightarrow>
    (failure, floor_message) result \<times> 's" where
  "answerFloor fence s scope epoch sender =
     (case fence of
        None \<Rightarrow> (Inr (FloorRefusedMessage EpochUnsupported), s)
      | Some raise \<Rightarrow> (case raise scope epoch sender of
          (Inl e, s') \<Rightarrow> (Inl e, s')
        | (Inr (FloorAcked floor0), s') \<Rightarrow> (Inr (FloorAckMessage floor0), s')
        | (Inr (FloorRefusedFor reason), s') \<Rightarrow> (Inr (FloorRefusedMessage reason), s')))"

section \<open>The gate\<close>

record gate_lane =
  gl_decided :: nat
  gl_verdict :: "string option option"

text \<open>The lanes, the number of promises made, and what \<open>send\<close> was called with: the lane and the promise it was for.\<close>

record epoch_gate =
  eg_lanes :: "gate_lane obj"
  eg_promises :: nat
  eg_sent :: "(string \<times> nat) list"

definition new_gate :: epoch_gate where
  "new_gate = \<lparr>eg_lanes = [], eg_promises = 0, eg_sent = []\<rparr>"

definition gate_decide :: "string \<Rightarrow> string option \<Rightarrow> epoch_gate \<Rightarrow> epoch_gate" where
  "gate_decide lane refusal g =
     (case map_of (eg_lanes g) lane of
        None \<Rightarrow> g
      | Some l \<Rightarrow> g\<lparr>eg_lanes := obj_put lane (l\<lparr>gl_verdict := Some refusal\<rparr>) (eg_lanes g)\<rparr>)"

definition gate_ask :: "string \<Rightarrow> epoch_gate \<Rightarrow> epoch_gate" where
  "gate_ask lane g =
     (case map_of (eg_lanes g) lane of
        None \<Rightarrow> g
      | Some l \<Rightarrow>
          if gl_verdict l \<noteq> None
          then g\<lparr>eg_lanes := obj_put lane \<lparr>gl_decided = eg_promises g, gl_verdict = None\<rparr> (eg_lanes g),
                 eg_promises := eg_promises g + 1, eg_sent := eg_sent g @ [(lane, eg_promises g)]\<rparr>
          else g\<lparr>eg_sent := eg_sent g @ [(lane, gl_decided l)]\<rparr>)"

definition send_failed :: "string \<Rightarrow> nat \<Rightarrow> string \<Rightarrow> epoch_gate \<Rightarrow> epoch_gate" where
  "send_failed lane asked reason g =
     (case map_of (eg_lanes g) lane of
        None \<Rightarrow> g
      | Some l \<Rightarrow> if gl_decided l = asked \<and> gl_verdict l = None then gate_decide lane (Some (''hand_unreachable: '' @ reason)) g else g)"

text \<open>\<open>open\<close>: the verdict at once, or the promise the caller waits on.\<close>

definition gate_open :: "string \<Rightarrow> epoch_gate \<Rightarrow> (string option + nat) \<times> epoch_gate" where
  "gate_open lane g =
     (case map_of (eg_lanes g) lane of
        Some l \<Rightarrow> (case gl_verdict l of None \<Rightarrow> (Inr (gl_decided l), g) | Some refusal \<Rightarrow> (Inl refusal, g))
      | None \<Rightarrow>
          let g' = g\<lparr>eg_lanes := obj_put lane \<lparr>gl_decided = eg_promises g, gl_verdict = None\<rparr> (eg_lanes g), eg_promises := eg_promises g + 1\<rparr>
          in (Inr (eg_promises g), gate_ask lane g'))"

fun refusal_name :: "epoch_refusal \<Rightarrow> string" where
  "refusal_name PeerUnauthorized = ''peer_unauthorized''"
| "refusal_name FloorFenced = ''epoch_fenced''"
| "refusal_name EpochStepExceeded = ''epoch_step_exceeded''"
| "refusal_name EpochUnsupported = ''epoch_unsupported''"

definition gate_answer :: "number \<Rightarrow> string \<Rightarrow> floor_message \<Rightarrow> epoch_gate \<Rightarrow> epoch_gate" where
  "gate_answer epoch lane message g =
     (case map_of (eg_lanes g) lane of
        None \<Rightarrow> g
      | Some l \<Rightarrow>
          if gl_verdict l \<noteq> None then g
          else case message of
            FloorRefusedMessage reason \<Rightarrow> gate_decide lane (Some (refusal_name reason)) g
          | FloorAckMessage floor0 \<Rightarrow>
              if num_eq floor0 epoch then gate_decide lane None g
              else gate_decide lane (Some (if num_lt epoch floor0 then ''epoch_superseded'' else ''epoch_floor_mismatch'')) g)"

definition gate_resend :: "epoch_gate \<Rightarrow> epoch_gate" where
  "gate_resend g = foldl (\<lambda>g (lane, state). if gl_verdict state = None \<or> gl_verdict state = Some None then gate_ask lane g else g) g (eg_lanes g)"

section \<open>The fence over restarts\<close>

text \<open>
  What may happen to a hand: raises with any write failures, owners and senders, restarts that read the floors back, and
  writes of the rest of the hand, which leave the floor documents alone. Epochs are those the protocol accepts.
\<close>

inductive fence_step :: "epoch_floor obj \<times> medium_state \<Rightarrow> epoch_floor obj \<times> medium_state \<Rightarrow> bool" where
  fence_raise: "isEpoch epoch \<Longrightarrow> raiseNow seam (Some ep) ownerOf (floors, st) scope epoch sender = (res, floors', st') \<Longrightarrow>
    fence_step (floors, st) (floors', st')"
| fence_restart: "fence_ready st = Inr floors' \<Longrightarrow> fence_step (floors, st) (floors', st)"
| fence_other: "obj_wf (ms_documents st') \<Longrightarrow> (\<And>scope. getDocument st' (floor_key scope) = getDocument st (floor_key scope)) \<Longrightarrow>
    fence_step (floors, st) (floors, st')"

abbreviation mem_floor :: "epoch_floor obj \<Rightarrow> string \<Rightarrow> number" where
  "mem_floor floors scope \<equiv> (case map_of floors scope of Some f \<Rightarrow> fl_epoch f | None \<Rightarrow> Fin 0)"

text \<open>The stored floor is the one in memory, or one step above it when the commit threw after it was durable.\<close>

definition fence_inv :: "epoch_floor obj \<times> medium_state \<Rightarrow> bool" where
  "fence_inv = (\<lambda>(floors, st). obj_wf (ms_documents st) \<and>
     (\<forall>scope. case getDocument st (floor_key scope) of
        None \<Rightarrow> map_of floors scope = None
      | Some d \<Rightarrow> \<exists>f. d = floor_value f \<and> isEpoch (fl_epoch f) \<and> (\<forall>g. map_of floors scope = Some g \<longrightarrow> isEpoch (fl_epoch g)) \<and>
          (map_of floors scope = Some f \<or> fl_epoch f = num_add (mem_floor floors scope) (Fin 1))))"

lemma isEpoch_int: "isEpoch n \<longleftrightarrow> (\<exists>k :: int. n = Fin (of_int k) \<and> 1 \<le> k \<and> of_int k \<le> max_safe_integer)"
proof
  assume n: "isEpoch n"
  then obtain r where r: "n = Fin r" "of_int \<lfloor>r\<rfloor> = r" "1 \<le> r" "r \<le> max_safe_integer" by (cases n) (auto simp: isEpoch_def)
  then have "1 \<le> \<lfloor>r\<rfloor>" by (simp add: le_floor_iff)
  then show "\<exists>k :: int. n = Fin (of_int k) \<and> 1 \<le> k \<and> of_int k \<le> max_safe_integer" using r by (metis (no_types))
qed (auto simp: isEpoch_def max_safe_integer_def)

lemma decode_floor_value: "decodeFloor (floor_value f) = (if isEpoch (fl_epoch f) then Inr f else Inl (ErrorMessage ''A stored epoch floor is malformed''))"
  by (simp add: decodeFloor_def floor_value_def isEpoch_def Let_def)

lemma floor_key_inj [simp]: "floor_key a = floor_key b \<longleftrightarrow> a = b"
  by (simp add: floor_key_def)

lemma starts_floor_key: "starts_with EPOCH_FLOOR_PREFIX k \<longleftrightarrow> (\<exists>scope. k = floor_key scope)"
  by (auto simp: starts_with_def floor_key_def) (metis append_take_drop_id)

lemma load_floors_map:
  assumes "distinct (map sd_key ds)" "\<And>d. d \<in> set ds \<Longrightarrow> \<exists>scope f. sd_key d = floor_key scope \<and> decodeFloor (sd_data d) = Inr f"
  shows "\<exists>floors'. load_floors ds floors = Inr floors' \<and> (\<forall>scope. map_of floors' scope =
    (case map_of (map (\<lambda>d. (sd_key d, sd_data d)) ds) (floor_key scope) of
       Some v \<Rightarrow> (case decodeFloor v of Inr f \<Rightarrow> Some f | Inl _ \<Rightarrow> None) | None \<Rightarrow> map_of floors scope))"
  using assms
proof (induction ds arbitrary: floors)
  case (Cons d ds)
  obtain k f where d: "sd_key d = floor_key k" "decodeFloor (sd_data d) = Inr f" using Cons.prems(2) [of d] by auto
  have k: "drop (length EPOCH_FLOOR_PREFIX) (sd_key d) = k" using d(1) by (simp add: floor_key_def)
  have "\<exists>floors'. load_floors ds (obj_put k f floors) = Inr floors' \<and> (\<forall>scope. map_of floors' scope =
    (case map_of (map (\<lambda>d. (sd_key d, sd_data d)) ds) (floor_key scope) of
       Some v \<Rightarrow> (case decodeFloor v of Inr f \<Rightarrow> Some f | Inl _ \<Rightarrow> None) | None \<Rightarrow> map_of (obj_put k f floors) scope))"
    using Cons.prems by (intro Cons.IH) auto
  then obtain floors' where l: "load_floors ds (obj_put k f floors) = Inr floors'" "\<And>scope. map_of floors' scope =
    (case map_of (map (\<lambda>d. (sd_key d, sd_data d)) ds) (floor_key scope) of
       Some v \<Rightarrow> (case decodeFloor v of Inr f \<Rightarrow> Some f | Inl _ \<Rightarrow> None) | None \<Rightarrow> map_of (obj_put k f floors) scope)" by blast
  have n: "map_of (map (\<lambda>d. (sd_key d, sd_data d)) ds) (floor_key k) = None" using Cons.prems(1) d(1) by (auto simp: map_of_eq_None_iff)
  have "map_of floors' scope = (case map_of (map (\<lambda>d. (sd_key d, sd_data d)) (d # ds)) (floor_key scope) of
       Some v \<Rightarrow> (case decodeFloor v of Inr f \<Rightarrow> Some f | Inl _ \<Rightarrow> None) | None \<Rightarrow> map_of floors scope)" for scope
    using l(2) [of scope] n d by (cases "scope = k"; cases "map_of (map (\<lambda>d. (sd_key d, sd_data d)) ds) (floor_key scope)") auto
  then show ?case using l(1) d k by auto
qed simp

lemma documentsOf_map:
  assumes "obj_wf (ms_documents st)"
  shows "distinct (map sd_key (documentsOf st prefix))"
    "map_of (map (\<lambda>d. (sd_key d, sd_data d)) (documentsOf st prefix)) k = (if starts_with prefix k then getDocument st k else None)"
    "d \<in> set (documentsOf st prefix) \<Longrightarrow> starts_with prefix (sd_key d) \<and> getDocument st (sd_key d) = Some (sd_data d)"
proof -
  let ?xs = "filter (\<lambda>(k, _). starts_with prefix k) (ms_documents st)"
  have keys: "map sd_key (documentsOf st prefix) = map fst (sort_key fst ?xs)"
    and pairs: "map (\<lambda>d. (sd_key d, sd_data d)) (documentsOf st prefix) = sort_key fst ?xs"
    by (auto simp: documentsOf_def comp_def case_prod_unfold)
  have wf: "obj_wf ?xs" using obj_wf_filter [OF assms] .
  then have wf': "obj_wf (sort_key fst ?xs)" by (rule distinct_sort_key_fst)
  then show "distinct (map sd_key (documentsOf st prefix))" by (simp add: keys)
  have same: "map_of (sort_key fst ?xs) = map_of ?xs" using wf wf' by (intro map_of_inject_set [THEN iffD2]) simp_all
  then show m: "map_of (map (\<lambda>d. (sd_key d, sd_data d)) (documentsOf st prefix)) k = (if starts_with prefix k then getDocument st k else None)" for k
    by (simp add: pairs map_of_filter_key getDocument_def)
  show "d \<in> set (documentsOf st prefix) \<Longrightarrow> starts_with prefix (sd_key d) \<and> getDocument st (sd_key d) = Some (sd_data d)"
    using assms by (auto simp: documentsOf_def getDocument_def map_of_is_SomeI)
qed

lemma fence_ready_loads:
  assumes "fence_inv (floors, st)"
  shows "\<exists>floors'. fence_ready st = Inr floors' \<and>
    (\<forall>scope. case getDocument st (floor_key scope) of None \<Rightarrow> map_of floors' scope = None | Some d \<Rightarrow> \<exists>f. d = floor_value f \<and> isEpoch (fl_epoch f) \<and> map_of floors' scope = Some f)"
proof -
  have wf: "obj_wf (ms_documents st)" and docs: "\<And>scope d. getDocument st (floor_key scope) = Some d \<Longrightarrow> \<exists>f. d = floor_value f \<and> isEpoch (fl_epoch f)"
    using assms by (auto simp: fence_inv_def split: option.splits) metis+
  have "\<exists>scope f. sd_key d = floor_key scope \<and> decodeFloor (sd_data d) = Inr f" if m: "d \<in> set (documentsOf st EPOCH_FLOOR_PREFIX)" for d
  proof -
    obtain scope where k: "sd_key d = floor_key scope" "getDocument st (floor_key scope) = Some (sd_data d)"
      using documentsOf_map(3) [OF wf m] by (auto simp: starts_floor_key)
    from docs [OF k(2)] obtain f where "decodeFloor (sd_data d) = Inr f" by (auto simp: decode_floor_value)
    then show ?thesis using k(1) by blast
  qed
  from load_floors_map [OF documentsOf_map(1) [OF wf, of EPOCH_FLOOR_PREFIX] this, where floors = "[]"] obtain floors' where
    l: "fence_ready st = Inr floors'" "\<And>scope. map_of floors' scope =
      (case getDocument st (floor_key scope) of Some v \<Rightarrow> (case decodeFloor v of Inr f \<Rightarrow> Some f | Inl _ \<Rightarrow> None) | None \<Rightarrow> None)"
    by (auto simp: fence_ready_def documentsOf_map(2) [OF wf] starts_floor_key cong: option.case_cong)
  have "case getDocument st (floor_key scope) of None \<Rightarrow> map_of floors' scope = None | Some d \<Rightarrow> \<exists>f. d = floor_value f \<and> isEpoch (fl_epoch f) \<and> map_of floors' scope = Some f" for scope
    using l(2) [of scope] docs [of scope] by (cases "getDocument st (floor_key scope)") (auto simp: decode_floor_value)
  then show ?thesis using l(1) by blast
qed

text \<open>In memory a floor only goes up, and keeps its owner as long as it stays.\<close>

definition floors_grow :: "epoch_floor obj \<Rightarrow> epoch_floor obj \<Rightarrow> bool" where
  "floors_grow floors floors' \<longleftrightarrow> (\<forall>scope f. map_of floors scope = Some f \<longrightarrow>
     (\<exists>f'. map_of floors' scope = Some f' \<and> (f' = f \<or> num_lt (fl_epoch f) (fl_epoch f'))))"

lemma num_lt_trans: "num_lt a b \<Longrightarrow> num_lt b c \<Longrightarrow> num_lt a c"
  using num_lt_le_trans by (auto simp: num_le_def)

lemma floors_grow_trans: "floors_grow a b \<Longrightarrow> floors_grow b c \<Longrightarrow> floors_grow a c"
proof -
  assume h: "floors_grow a b" "floors_grow b c"
  show ?thesis unfolding floors_grow_def
  proof (intro allI impI)
    fix scope f assume "map_of a scope = Some f"
    then obtain g where g: "map_of b scope = Some g" "g = f \<or> num_lt (fl_epoch f) (fl_epoch g)" using h(1) by (auto simp: floors_grow_def)
    then obtain k where "map_of c scope = Some k" "k = g \<or> num_lt (fl_epoch g) (fl_epoch k)" using h(2) by (auto simp: floors_grow_def)
    then show "\<exists>f'. map_of c scope = Some f' \<and> (f' = f \<or> num_lt (fl_epoch f) (fl_epoch f'))" using g(2) num_lt_trans by blast
  qed
qed

text \<open>What a raise does: it leaves everything alone, or it stores the next floor of the owner, and has it in memory when it acks it.\<close>

lemma raise_cases:
  assumes inv: "fence_inv (floors, st)" and epoch: "isEpoch epoch"
    and r: "raiseNow seam (Some ep) ownerOf (floors, st) scope epoch sender = (res, floors', st')"
  obtains (same) "floors' = floors" "st' = st" "\<And>a. res = Inr (FloorAcked a) \<Longrightarrow> num_eq a epoch \<Longrightarrow>
      map_of floors scope = Some \<lparr>fl_epoch = epoch, fl_owner = sender\<rparr>"
  | (raised) f where "f = \<lparr>fl_epoch = epoch, fl_owner = sender\<rparr>" "getDocument st' = (getDocument st)(floor_key scope \<mapsto> floor_value f)"
      "obj_wf (ms_documents st')" "epoch = num_add (mem_floor floors scope) (Fin 1)"
      "floors' = obj_put scope f floors \<or> (floors' = floors \<and> (\<exists>e. res = Inl e))"
proof -
  let ?c = "map_of floors scope"
  have mem: "?c = None \<or> (\<exists>f. ?c = Some f \<and> isEpoch (fl_epoch f))"
    using inv by (cases ?c; cases "getDocument st (floor_key scope)") (auto simp: fence_inv_def split: option.splits)
  then obtain k :: int where k: "mem_floor floors scope = Fin (of_int k)" "?c \<noteq> None \<Longrightarrow> 1 \<le> k" "?c = None \<Longrightarrow> k = 0"
    by (auto simp: isEpoch_int)
  obtain e :: int where e: "epoch = Fin (of_int e)" "1 \<le> e" using epoch by (auto simp: isEpoch_int)
  consider (owner) "ownerOf scope \<noteq> Some sender" | (below) "ownerOf scope = Some sender" "e < k"
    | (at) "ownerOf scope = Some sender" "e = k" | (far) "ownerOf scope = Some sender" "k + 1 < e" | (up) "ownerOf scope = Some sender" "e = k + 1"
    by linarith
  then show thesis
  proof cases
    case up
    obtain x st1 ad where c: "commitSync seam st ep [Put (floor_key scope) (floor_value \<lparr>fl_epoch = epoch, fl_owner = sender\<rparr>)] = (x, st1, ad)"
      by (metis prod_cases3)
    have out: "st' = st1" "floors' = (if ad = None then floors else obj_put scope \<lparr>fl_epoch = epoch, fl_owner = sender\<rparr> floors)"
        "res = rbind x (\<lambda>_. Inr (FloorAcked epoch))"
      using r up k e c by (auto simp: raiseNow_def Let_def EPOCH_FLOOR_MAX_STEP_def)
    have ep: "epoch = num_add (mem_floor floors scope) (Fin 1)" using up e k by simp
    show thesis
    proof (cases rule: commitSync_cases [of seam st ep "[Put (floor_key scope) (floor_value \<lparr>fl_epoch = epoch, fl_owner = sender\<rparr>)]"])
      case refused
      then show thesis using same c out by auto
    next
      case (durable st2 rs)
      have "getDocument st' = (getDocument st)(floor_key scope \<mapsto> floor_value \<lparr>fl_epoch = epoch, fl_owner = sender\<rparr>)" "obj_wf (ms_documents st')"
        using durable(1,6,9) c out(1) inv by (auto simp: getDocument_eq fence_inv_def split: if_splits)
      then show thesis using raised [OF refl] ep out durable(1) c by (auto split: if_splits)
    qed
  qed (use same r k e in \<open>auto simp: raiseNow_def Let_def EPOCH_FLOOR_MAX_STEP_def split: if_splits option.splits\<close>)
qed

lemma fence_inv_at:
  assumes "fence_inv (floors, st)"
  shows "case getDocument st (floor_key scope) of None \<Rightarrow> map_of floors scope = None
    | Some d \<Rightarrow> \<exists>f. d = floor_value f \<and> isEpoch (fl_epoch f) \<and> (\<forall>g. map_of floors scope = Some g \<longrightarrow> isEpoch (fl_epoch g)) \<and>
        (map_of floors scope = Some f \<or> fl_epoch f = num_add (mem_floor floors scope) (Fin 1))"
  using assms by (simp add: fence_inv_def)

lemma num_lt_add1: "isEpoch a \<Longrightarrow> num_lt a (num_add a (Fin 1))"
  by (auto simp: isEpoch_int)

lemma fence_raise_step:
  assumes inv: "fence_inv (floors, st)" and epoch: "isEpoch epoch"
    and r: "raiseNow seam (Some ep) ownerOf (floors, st) scope epoch sender = (res, floors', st')"
  shows "fence_inv (floors', st') \<and> floors_grow floors floors'"
  using inv epoch r
proof (cases rule: raise_cases)
  case same
  then show ?thesis using inv by (auto simp: floors_grow_def)
next
  case (raised f)
  have at_scope: "\<exists>g. floor_value f = floor_value g \<and> isEpoch (fl_epoch g) \<and> (\<forall>h. map_of floors' scope = Some h \<longrightarrow> isEpoch (fl_epoch h)) \<and>
      (map_of floors' scope = Some g \<or> fl_epoch g = num_add (mem_floor floors' scope) (Fin 1))"
  proof -
    have "isEpoch (fl_epoch h)" if "map_of floors scope = Some h" for h
      using fence_inv_at [OF inv, of scope] that by (auto split: option.splits)
    then show ?thesis using raised(1,4,5) epoch by (intro exI [of _ f]) auto
  qed
  have "case getDocument st' (floor_key b) of None \<Rightarrow> map_of floors' b = None
    | Some d \<Rightarrow> \<exists>f. d = floor_value f \<and> isEpoch (fl_epoch f) \<and> (\<forall>g. map_of floors' b = Some g \<longrightarrow> isEpoch (fl_epoch g)) \<and>
        (map_of floors' b = Some f \<or> fl_epoch f = num_add (mem_floor floors' b) (Fin 1))" for b
  proof (cases "b = scope")
    case True
    then show ?thesis using raised(2) at_scope by simp
  next
    case False
    then have eq: "getDocument st' (floor_key b) = getDocument st (floor_key b)" "map_of floors' b = map_of floors b" using raised(2,5) by auto
    show ?thesis unfolding eq using fence_inv_at [OF inv, of b] .
  qed
  then have "fence_inv (floors', st')" unfolding fence_inv_def prod.case using raised(3) by blast
  moreover have "num_lt (fl_epoch h) epoch" if "map_of floors scope = Some h" for h
  proof -
    have "isEpoch (fl_epoch h)" using fence_inv_at [OF inv, of scope] that by (auto split: option.splits)
    then show ?thesis using raised(4) that num_lt_add1 by simp
  qed
  then have "floors_grow floors floors'" using raised(1,5) by (auto simp: floors_grow_def)
  ultimately show ?thesis ..
qed

lemma fence_step_inv:
  assumes "fence_step s s'" "fence_inv s"
  shows "fence_inv s' \<and> floors_grow (fst s) (fst s')"
  using assms
proof (induction rule: fence_step.induct)
  case (fence_raise epoch seam ep ownerOf floors st scope sender res floors' st')
  then show ?case using fence_raise_step by simp
next
  case (fence_restart st floors' floors)
  obtain fl where l: "floors' = fl" "\<And>scope. case getDocument st (floor_key scope) of None \<Rightarrow> map_of fl scope = None
      | Some d \<Rightarrow> \<exists>f. d = floor_value f \<and> isEpoch (fl_epoch f) \<and> map_of fl scope = Some f"
    using fence_ready_loads [OF fence_restart.prems] fence_restart.hyps by auto
  have "case getDocument st (floor_key b) of None \<Rightarrow> map_of floors' b = None
    | Some d \<Rightarrow> \<exists>f. d = floor_value f \<and> isEpoch (fl_epoch f) \<and> (\<forall>g. map_of floors' b = Some g \<longrightarrow> isEpoch (fl_epoch g)) \<and>
        (map_of floors' b = Some f \<or> fl_epoch f = num_add (mem_floor floors' b) (Fin 1))" for b
    using l(2) [of b] l(1) by (cases "getDocument st (floor_key b)") auto
  then have "fence_inv (floors', st)" using fence_restart.prems by (auto simp: fence_inv_def)
  moreover have "\<exists>f'. map_of floors' b = Some f' \<and> (f' = f \<or> num_lt (fl_epoch f) (fl_epoch f'))" if m: "map_of floors b = Some f" for b f
  proof -
    obtain d g where d: "getDocument st (floor_key b) = Some d" "d = floor_value g" "isEpoch (fl_epoch f)" "f = g \<or> fl_epoch g = num_add (fl_epoch f) (Fin 1)"
      using fence_inv_at [OF fence_restart.prems, of b] m by (auto split: option.splits)
    then have "map_of floors' b = Some g" using l(1) l(2) [of b] by (auto simp: floor_value_def)
    then show ?thesis using d(3,4) num_lt_add1 by auto
  qed
  ultimately show ?case by (simp add: floors_grow_def)
next
  case (fence_other st' st floors)
  then show ?case by (auto simp: fence_inv_def floors_grow_def)
qed

lemma fence_steps_inv:
  assumes "fence_step\<^sup>*\<^sup>* s s'" "fence_inv s"
  shows "fence_inv s' \<and> floors_grow (fst s) (fst s')"
  using assms
proof (induction rule: rtranclp_induct)
  case base
  then show ?case by (auto simp: floors_grow_def)
next
  case (step t u)
  then show ?case using fence_step_inv floors_grow_trans by blast
qed

text \<open>A hand whose store holds no floor.\<close>

definition fence_start :: "medium_state \<Rightarrow> bool" where
  "fence_start st \<longleftrightarrow> obj_wf (ms_documents st) \<and> (\<forall>scope. getDocument st (floor_key scope) = None)"

lemma fence_start_inv: "fence_start st \<Longrightarrow> fence_inv ([], st)"
  by (simp add: fence_start_def fence_inv_def)

lemma admitted_above:
  assumes "\<exists>k :: int. epoch = Fin (of_int k) \<and> 1 \<le> k"
    and "num_lt (fl_epoch f) (case e of Some n \<Rightarrow> n | None \<Rightarrow> Fin 0) \<or> (num_eq (case e of Some n \<Rightarrow> n | None \<Rightarrow> Fin 0) (fl_epoch f) \<and> fl_owner f = s)"
    and "f = \<lparr>fl_epoch = epoch, fl_owner = sender\<rparr> \<or> num_lt epoch (fl_epoch f)"
  shows "\<exists>n. e = Some n \<and> (num_lt epoch n \<or> (num_eq n epoch \<and> s = sender))"
proof -
  obtain k :: int where k: "epoch = Fin (of_int k)" "1 \<le> k" using assms(1) by blast
  show ?thesis
  proof (cases e)
    case None
    then show ?thesis using assms(2,3) k by (cases "fl_epoch f") auto
  next
    case (Some n)
    then show ?thesis using assms(2,3) k by (cases "fl_epoch f"; cases n) auto
  qed
qed

text \<open>The old owner is fenced for good: once a hand has acked an owner's floor at its epoch, no message of an older epoch, of none, or of
  another sender at that epoch is ever admitted on the scope again, through any later raises, failed writes and restarts of the hand;
  and the hand can always restart from the floors it stored.\<close>

theorem old_owner_fenced:
  assumes "fence_start st0" "fence_step\<^sup>*\<^sup>* ([], st0) (floors, st)" "isEpoch epoch"
    and "raiseNow seam (Some ep) ownerOf (floors, st) scope epoch sender = (Inr (FloorAcked a), floors1, st1)" "num_eq a epoch"
    and "fence_step\<^sup>*\<^sup>* (floors1, st1) (floors2, st2)" "fence_admits floors2 scope e s"
  shows "(case e of None \<Rightarrow> False | Some n \<Rightarrow> num_lt epoch n \<or> (num_eq n epoch \<and> s = sender)) \<and> (\<exists>fl. fence_ready st2 = Inr fl)"
proof -
  have inv: "fence_inv (floors, st)" using fence_steps_inv [OF assms(2)] fence_start_inv [OF assms(1)] by blast
  have acked: "map_of floors1 scope = Some \<lparr>fl_epoch = epoch, fl_owner = sender\<rparr>"
    using inv assms(3,4)
  proof (cases rule: raise_cases)
    case same
    then show ?thesis using assms(5) by simp
  next
    case (raised f)
    then show ?thesis by auto
  qed
  have inv1: "fence_inv (floors1, st1)" using fence_raise_step [OF inv assms(3,4)] by blast
  note later = fence_steps_inv [OF assms(6) inv1]
  obtain f where f: "map_of floors2 scope = Some f" "f = \<lparr>fl_epoch = epoch, fl_owner = sender\<rparr> \<or> num_lt epoch (fl_epoch f)"
    using conjunct2 [OF later, unfolded floors_grow_def fst_conv, rule_format, OF acked] by auto
  have above: "\<exists>k :: int. epoch = Fin (of_int k) \<and> 1 \<le> k" using assms(3) by (auto simp: isEpoch_int)
  have adm: "num_lt (fl_epoch f) (case e of Some n \<Rightarrow> n | None \<Rightarrow> Fin 0) \<or>
      (num_eq (case e of Some n \<Rightarrow> n | None \<Rightarrow> Fin 0) (fl_epoch f) \<and> fl_owner f = s)"
    using assms(7) f(1) by (simp add: fence_admits_def Let_def)
  have "\<exists>n. e = Some n \<and> (num_lt epoch n \<or> (num_eq n epoch \<and> s = sender))"
    using f(2) by (rule admitted_above [OF above adm])
  moreover obtain fl where "fence_ready st2 = Inr fl" using fence_ready_loads [of floors2 st2] later by auto
  ultimately show ?thesis by auto
qed

definition sample_hand_store :: medium_state where
  "sample_hand_store = \<lparr>ms_epoch = Fin 1, ms_records = [], ms_documents = []\<rparr>"

definition sample_raise :: "(failure, floor_raise) result \<times> epoch_floor obj \<times> medium_state" where
  "sample_raise = raiseNow (\<lambda>_. False) (Some (Fin 1)) (\<lambda>_. Some ''new'') ([], sample_hand_store) ''scope'' (Fin 1) ''new''"

theorem old_owner_fenced_witness:
  "fst sample_raise = Inr (FloorAcked (Fin 1)) \<and> fence_admits (fst (snd sample_raise)) ''scope'' (Some (Fin 2)) ''newer'' \<and>
   \<not> fence_admits (fst (snd sample_raise)) ''scope'' (Some (Fin 1)) ''old'' \<and> \<not> fence_admits (fst (snd sample_raise)) ''scope'' None ''new''"
proof -
  have start: "fence_start sample_hand_store" by (simp add: fence_start_def sample_hand_store_def getDocument_def)
  have e: "isEpoch (Fin 1)" by (simp add: isEpoch_def max_safe_integer_def)
  have ack: "fst sample_raise = Inr (FloorAcked (Fin 1))" "fence_admits (fst (snd sample_raise)) ''scope'' (Some (Fin 2)) ''newer''"
    by (simp_all add: sample_raise_def raiseNow_def Let_def EPOCH_FLOOR_MAX_STEP_def commitSync_def requireOwner_def sample_hand_store_def fence_admits_def)
  then have r: "raiseNow (\<lambda>_. False) (Some (Fin 1)) (\<lambda>_. Some ''new'') ([], sample_hand_store) ''scope'' (Fin 1) ''new'' =
      (Inr (FloorAcked (Fin 1)), fst (snd sample_raise), snd (snd sample_raise))"
    unfolding sample_raise_def [symmetric] by (metis prod.collapse)
  note fenced = old_owner_fenced [OF start rtranclp.rtrancl_refl e r _ rtranclp.rtrancl_refl]
  show ?thesis using ack fenced [of "Some (Fin 1)" "''old''"] fenced [of None "''new''"] by auto
qed

section \<open>The gate over answers, failures and restarts\<close>

datatype gate_event = EvOpen string | EvAnswer string floor_message | EvSendFailed string nat string | EvResend

fun gate_step :: "number \<Rightarrow> epoch_gate \<Rightarrow> gate_event \<Rightarrow> epoch_gate" where
  "gate_step epoch g (EvOpen lane) = snd (gate_open lane g)"
| "gate_step epoch g (EvAnswer lane message) = gate_answer epoch lane message g"
| "gate_step epoch g (EvSendFailed lane asked reason) = send_failed lane asked reason g"
| "gate_step epoch g EvResend = gate_resend g"

definition gate_run :: "number \<Rightarrow> gate_event list \<Rightarrow> epoch_gate" where
  "gate_run epoch evs = foldl (gate_step epoch) new_gate evs"

definition lane_verdict :: "epoch_gate \<Rightarrow> string \<Rightarrow> string option option" where
  "lane_verdict g lane = (case map_of (eg_lanes g) lane of Some l \<Rightarrow> gl_verdict l | None \<Rightarrow> None)"

lemma gate_decide_verdict: "lane_verdict (gate_decide lane refusal g) b = (if b = lane \<and> map_of (eg_lanes g) lane \<noteq> None then Some refusal else lane_verdict g b)"
  by (auto simp: lane_verdict_def gate_decide_def split: option.splits)

lemma lane_verdict_at: "map_of (eg_lanes g) b = Some l \<Longrightarrow> lane_verdict g b = gl_verdict l"
  by (simp add: lane_verdict_def)

lemma gate_ask_lanes:
  "lane_verdict (gate_ask lane g) b = (if b = lane then None else lane_verdict g b)"
  "map fst (eg_lanes (gate_ask lane g)) = map fst (eg_lanes g)"
proof -
  have keys: "k \<in> fst ` set o' \<Longrightarrow> map fst (obj_put k v o') = map fst o'" for k and v :: gate_lane and o' by (induction k v o' rule: obj_put.induct) auto
  show "lane_verdict (gate_ask lane g) b = (if b = lane then None else lane_verdict g b)"
    by (auto simp: lane_verdict_def gate_ask_def split: option.splits)
  show "map fst (eg_lanes (gate_ask lane g)) = map fst (eg_lanes g)"
    using keys [of lane "eg_lanes g"] by (auto simp: gate_ask_def rev_image_eqI split: option.splits dest!: map_of_SomeD)
qed

definition may_ask :: "gate_lane \<Rightarrow> bool" where
  "may_ask l \<longleftrightarrow> gl_verdict l = None \<or> gl_verdict l = Some None"

lemma resend_fold:
  "lane_verdict (foldl (\<lambda>g (lane, state). if gl_verdict state = None \<or> gl_verdict state = Some None then gate_ask lane g else g) g xs) b =
    (if \<exists>l. (b, l) \<in> set xs \<and> may_ask l then None else lane_verdict g b)"
proof (induction xs arbitrary: g)
  case (Cons x xs)
  obtain lane l where x: "x = (lane, l)" by (cases x)
  show ?case
  proof (cases "may_ask l")
    case True
    then have "gl_verdict l = None \<or> gl_verdict l = Some None" by (simp add: may_ask_def)
    then show ?thesis using True x by (auto simp: Cons.IH gate_ask_lanes(1))
  next
    case False
    then have "\<not> (gl_verdict l = None \<or> gl_verdict l = Some None)" by (simp add: may_ask_def)
    then show ?thesis using False x by (auto simp: Cons.IH)
  qed
qed simp

lemma gate_resend_verdict:
  assumes "obj_wf (eg_lanes g)"
  shows "lane_verdict (gate_resend g) b = (case lane_verdict g b of Some (Some r) \<Rightarrow> Some (Some r) | _ \<Rightarrow> None)"
proof -
  have "(\<exists>l. (b, l) \<in> set (eg_lanes g) \<and> may_ask l) \<longleftrightarrow> (\<exists>l. map_of (eg_lanes g) b = Some l \<and> may_ask l)"
    using assms by (auto simp: map_of_eq_Some_iff)
  then show ?thesis unfolding gate_resend_def resend_fold by (auto simp: lane_verdict_def may_ask_def split: option.splits)
qed

lemma gate_wf: "obj_wf (eg_lanes g) \<Longrightarrow> obj_wf (eg_lanes (gate_step epoch g ev))"
proof -
  assume wf: "obj_wf (eg_lanes g)"
  have d: "obj_wf (eg_lanes (gate_decide lane r g))" if "obj_wf (eg_lanes g)" for lane r g
    using that by (auto simp: gate_decide_def split: option.splits)
  have "obj_wf (eg_lanes (foldl (\<lambda>g (lane, state). if gl_verdict state = None \<or> gl_verdict state = Some None then gate_ask lane g else g) g xs))"
    if "obj_wf (eg_lanes g)" for xs g
    using that by (induction xs arbitrary: g) (auto simp: gate_ask_lanes(2))
  then show ?thesis using wf d
    by (cases ev) (auto simp: gate_open_def gate_answer_def send_failed_def gate_resend_def gate_ask_lanes(2) Let_def
        split: option.splits floor_message.splits)
qed

lemma gate_step_verdict:
  assumes "obj_wf (eg_lanes g)"
  shows "lane_verdict g lane = Some (Some r) \<Longrightarrow> lane_verdict (gate_step epoch g ev) lane = Some (Some r)"
    and "lane_verdict (gate_step epoch g ev) lane = Some None \<Longrightarrow>
      (lane_verdict g lane = Some None \<and> ev \<noteq> EvResend) \<or> (\<exists>a. ev = EvAnswer lane (FloorAckMessage a) \<and> num_eq a epoch)"
proof -
  have ans: "lane_verdict (gate_answer epoch b m g) lane = (if b = lane \<and> map_of (eg_lanes g) b \<noteq> None \<and> lane_verdict g b = None
      then Some (case m of FloorRefusedMessage reason \<Rightarrow> Some (refusal_name reason) | FloorAckMessage a \<Rightarrow>
        if num_eq a epoch then None else Some (if num_lt epoch a then ''epoch_superseded'' else ''epoch_floor_mismatch''))
      else lane_verdict g lane)" for b m
    by (cases "map_of (eg_lanes g) b") (auto simp: gate_answer_def gate_decide_verdict lane_verdict_at split: floor_message.splits)
  have fail: "lane_verdict (send_failed b asked reason g) lane = lane_verdict g lane \<or>
      (lane_verdict g lane = None \<and> b = lane \<and> lane_verdict (send_failed b asked reason g) lane = Some (Some (''hand_unreachable: '' @ reason)))" for b asked reason
    by (cases "map_of (eg_lanes g) b") (auto simp: send_failed_def gate_decide_verdict lane_verdict_at)
  have op: "lane_verdict (snd (gate_open b g)) lane = lane_verdict g lane" for b
  proof (cases "map_of (eg_lanes g) b")
    case None
    then show ?thesis by (simp add: gate_open_def gate_ask_lanes(1) Let_def) (simp add: lane_verdict_def)
  next
    case (Some l)
    then show ?thesis by (simp add: gate_open_def split: option.split)
  qed
  show "lane_verdict g lane = Some (Some r) \<Longrightarrow> lane_verdict (gate_step epoch g ev) lane = Some (Some r)"
  proof (cases ev)
    case (EvSendFailed b asked reason)
    then show "lane_verdict g lane = Some (Some r) \<Longrightarrow> ?thesis" using fail [of b asked reason] by auto
  qed (auto simp: op ans gate_resend_verdict [OF assms])
  assume n: "lane_verdict (gate_step epoch g ev) lane = Some None"
  show "(lane_verdict g lane = Some None \<and> ev \<noteq> EvResend) \<or> (\<exists>a. ev = EvAnswer lane (FloorAckMessage a) \<and> num_eq a epoch)"
  proof (cases ev)
    case (EvAnswer b m)
    then show ?thesis using n by (auto simp: ans split: if_splits floor_message.splits)
  next
    case (EvSendFailed b asked reason)
    then show ?thesis using n fail [of b asked reason] by auto
  qed (use n in \<open>auto simp: op gate_resend_verdict [OF assms] split: option.splits\<close>)
qed

lemma gate_run_wf: "obj_wf (eg_lanes (gate_run epoch evs))"
  by (induction evs rule: rev_induct) (auto simp: gate_run_def new_gate_def intro: gate_wf)

text \<open>A lane opens only on the hand's ack of this very epoch: in every history of answers, failed sends and restarts of the hand, a
  lane that may dispatch has received, since the last restart, an ack of exactly the session's epoch, and a lane that was refused
  stays refused whatever comes later.\<close>

theorem gate_opens_on_own_ack:
  shows "(lane_verdict (gate_run epoch evs) lane = Some None \<longrightarrow>
      (\<exists>xs a ys. evs = xs @ EvAnswer lane (FloorAckMessage a) # ys \<and> num_eq a epoch \<and> EvResend \<notin> set ys)) \<and>
    (\<forall>r later. lane_verdict (gate_run epoch evs) lane = Some (Some r) \<longrightarrow> lane_verdict (gate_run epoch (evs @ later)) lane = Some (Some r))"
proof (intro conjI impI allI)
  show "\<exists>xs a ys. evs = xs @ EvAnswer lane (FloorAckMessage a) # ys \<and> num_eq a epoch \<and> EvResend \<notin> set ys"
    if "lane_verdict (gate_run epoch evs) lane = Some None"
    using that
  proof (induction evs rule: rev_induct)
    case Nil
    then show ?case by (simp add: gate_run_def new_gate_def lane_verdict_def)
  next
    case (snoc ev evs)
    have "lane_verdict (gate_step epoch (gate_run epoch evs) ev) lane = Some None" using snoc.prems by (simp add: gate_run_def)
    from gate_step_verdict(2) [OF gate_run_wf this] show ?case
    proof (elim disjE conjE exE)
      assume "lane_verdict (gate_run epoch evs) lane = Some None" "ev \<noteq> EvResend"
      then obtain xs a ys where "evs = xs @ EvAnswer lane (FloorAckMessage a) # ys" "num_eq a epoch" "EvResend \<notin> set ys" using snoc.IH by blast
      then show ?case using \<open>ev \<noteq> EvResend\<close> by (intro exI [of _ xs] exI [of _ a] exI [of _ "ys @ [ev]"]) auto
    next
      fix a assume "ev = EvAnswer lane (FloorAckMessage a)" "num_eq a epoch"
      then show ?case by (intro exI [of _ evs] exI [of _ a] exI [of _ "[]"]) simp
    qed
  qed
  fix r later assume "lane_verdict (gate_run epoch evs) lane = Some (Some r)"
  then show "lane_verdict (gate_run epoch (evs @ later)) lane = Some (Some r)"
  proof (induction later rule: rev_induct)
    case (snoc ev later)
    then have "lane_verdict (gate_run epoch (evs @ later)) lane = Some (Some r)" by blast
    from gate_step_verdict(1) [OF gate_run_wf this] show ?case by (simp add: gate_run_def)
  qed simp
qed

theorem gate_opens_on_own_ack_witness:
  "\<exists>xs a ys. [EvOpen ''l'', EvAnswer ''l'' (FloorAckMessage (Fin 2))] = xs @ EvAnswer ''l'' (FloorAckMessage a) # ys \<and> num_eq a (Fin 2) \<and>
     lane_verdict (gate_run (Fin 2) [EvOpen ''l'', EvAnswer ''l'' (FloorAckMessage (Fin 2))]) ''l'' = Some None"
proof -
  have v: "lane_verdict (gate_run (Fin 2) [EvOpen ''l'', EvAnswer ''l'' (FloorAckMessage (Fin 2))]) ''l'' = Some None"
    by (simp add: gate_run_def new_gate_def gate_open_def gate_ask_def gate_answer_def gate_decide_def lane_verdict_def Let_def)
  from conjunct1 [OF gate_opens_on_own_ack [of "Fin 2" "[EvOpen ''l'', EvAnswer ''l'' (FloorAckMessage (Fin 2))]" "''l''"]] v show ?thesis by blast
qed

end
