(* ===== verification/Json_Text.thy ===== *)
theory Json_Text
  imports Json_Value
begin

text \<open>
  The text \<open>JSON.stringify\<close> gives for a stored value, with object properties in their own order, and what
  \<open>JSON.parse(JSON.stringify(value))\<close> makes of one. Digests of requests are such texts, so two requests
  with the same digest must be the same request. \<open>num_text\<close> is the language's own text of a finite number.
\<close>

primrec json_text :: "(number \<Rightarrow> string) \<Rightarrow> store_value \<Rightarrow> string" where
  "json_text num_text SNull = ''null''"
| "json_text num_text (SBool b) = (if b then ''true'' else ''false'')"
| "json_text num_text (SNum n) = (if is_finite n then num_text n else ''null'')"
| "json_text num_text (SStr s) = json_quote s"
| "json_text num_text (SList xs) = ''['' @ join_with '','' (map (json_text num_text) xs) @ '']''"
| "json_text num_text (SObj o') =
     CHR 0x7B # join_with '','' (map (\<lambda>(k, t). json_quote k @ '':'' @ t) (map (map_prod id (json_text num_text)) o')) @ [CHR 0x7D]"

text \<open>Numbers that are not finite do not survive the text.\<close>

primrec json_normal :: "store_value \<Rightarrow> store_value" where
  "json_normal SNull = SNull"
| "json_normal (SBool b) = SBool b"
| "json_normal (SNum n) = (if is_finite n then SNum n else SNull)"
| "json_normal (SStr s) = SStr s"
| "json_normal (SList xs) = SList (map json_normal xs)"
| "json_normal (SObj o') = SObj (map (map_prod id json_normal) o')"

primrec json_fin :: "store_value \<Rightarrow> bool" where
  "json_fin SNull = True"
| "json_fin (SBool b) = True"
| "json_fin (SNum n) = is_finite n"
| "json_fin (SStr s) = True"
| "json_fin (SList xs) = list_all json_fin xs"
| "json_fin (SObj o') = list_all snd (map (map_prod id json_fin) o')"

lemma json_fin_normal [simp]: "json_fin (json_normal v)"
  by (induction v) (auto simp: list_all_iff)

text \<open>What the language promises of the text of a finite number: decimal digits, a sign, a point or an exponent, and no other number's text.\<close>

definition number_char :: "char \<Rightarrow> bool" where
  "number_char c \<longleftrightarrow> c \<in> set ''0123456789-+.e''"

definition num_text_ok :: "(number \<Rightarrow> string) \<Rightarrow> bool" where
  "num_text_ok num_text \<longleftrightarrow> (\<forall>r. list_all number_char (num_text (Fin r)) \<and> num_text (Fin r) \<noteq> [] \<and>
     hd (num_text (Fin r)) \<in> set ''0123456789-'') \<and> (\<forall>r r'. num_text (Fin r) = num_text (Fin r') \<longrightarrow> r = r')"

definition delimited :: "string \<Rightarrow> bool" where
  "delimited x \<longleftrightarrow> x = [] \<or> \<not> number_char (hd x)"

lemma delimited_simps [simp]: "delimited []" "delimited (c # x) \<longleftrightarrow> \<not> number_char c"
  by (simp_all add: delimited_def)

lemma number_run:
  assumes "list_all number_char a" "list_all number_char b" "delimited x" "delimited y" "a @ x = b @ y"
  shows "a = b \<and> x = y"
proof -
  have run: "takeWhile number_char (c @ z) = c" if "list_all number_char c" "delimited z" for c z
    using that by (cases z) (auto simp: list_all_iff takeWhile_append2)
  have "a = b" using run [OF assms(1,3)] run [OF assms(2,4)] assms(5) by simp
  then show ?thesis using assms(5) by simp
qed

text \<open>The first character of a text tells the kind of the value.\<close>

fun json_lead :: "char \<Rightarrow> store_value \<Rightarrow> bool" where
  "json_lead c SNull = (c = CHR ''n'')"
| "json_lead c (SBool b) = (c = (if b then CHR ''t'' else CHR ''f''))"
| "json_lead c (SNum n) = (c \<in> set ''0123456789-'')"
| "json_lead c (SStr s) = (c = CHR 0x22)"
| "json_lead c (SList xs) = (c = CHR ''['')"
| "json_lead c (SObj o') = (c = CHR 0x7B)"

lemma json_text_lead:
  assumes "num_text_ok num_text" "json_fin v"
  obtains c t where "json_text num_text v = c # t" "json_lead c v"
proof (cases v)
  case (SNum n)
  then obtain r where n: "n = Fin r" using assms(2) by auto
  obtain c t where t: "num_text (Fin r) = c # t" using assms(1) by (cases "num_text (Fin r)") (auto simp: num_text_ok_def)
  then have "c \<in> set ''0123456789-''" using assms(1) by (metis list.sel(1) num_text_ok_def)
  then show ?thesis using that SNum n t by auto
next
  case (SBool b)
  then show ?thesis using that by (cases b) auto
qed (use that in \<open>auto simp: json_quote_def\<close>)

lemma json_lead_kind:
  assumes "json_lead c v" "json_lead c w"
  obtains "v = SNull" "w = SNull" | b where "v = SBool b" "w = SBool b" | a b where "v = SNum a" "w = SNum b"
    | a b where "v = SStr a" "w = SStr b" | a b where "v = SList a" "w = SList b" | a b where "v = SObj a" "w = SObj b"
  using assms by (cases v; cases w) (auto split: if_splits)

text \<open>Items of a list or object, each of them delimited by a comma or by the closing character.\<close>

lemma joined_inj:
  assumes inj: "\<And>v w x y. v \<in> set vs \<Longrightarrow> w \<in> set ws \<Longrightarrow> delimited x \<Longrightarrow> delimited y \<Longrightarrow> f v @ x = f w @ y \<Longrightarrow> v = w \<and> x = y"
    and ne: "\<And>v. v \<in> set vs \<union> set ws \<Longrightarrow> \<exists>c t. f v = c # t \<and> c \<noteq> close"
    and close: "\<not> number_char close" "close \<noteq> CHR '',''"
    and eq: "join_with '','' (map f vs) @ close # x = join_with '','' (map f ws) @ close # y"
  shows "vs = ws \<and> x = y"
  using inj ne eq
proof (induction vs arbitrary: ws)
  case Nil
  then show ?case
  proof (cases ws)
    case (Cons w ws')
    obtain c t where "f w = c # t" "c \<noteq> close" using Nil.prems(2) [of w] Cons by auto
    then show ?thesis using Nil.prems(3) Cons by (cases ws') auto
  qed simp
next
  case (Cons v vs)
  obtain c t where v: "f v = c # t" "c \<noteq> close" using Cons.prems(2) [of v] by auto
  show ?case
  proof (cases ws)
    case Nil
    then show ?thesis using Cons.prems(3) v by (cases vs) auto
  next
    case ws: (Cons w ws')
    define rest where "rest us z = (if us = [] then close # z else CHR '','' # join_with '','' (map f us) @ close # z)" for us z
    have parts: "join_with '','' (map f (u # us)) @ close # z = f u @ rest us z" for u us z
      by (cases us) (auto simp: rest_def)
    have delim: "delimited (rest us z)" for us z using close by (simp add: rest_def number_char_def)
    have "f v @ rest vs x = f w @ rest ws' y" using Cons.prems(3) ws parts by metis
    then have vw: "v = w" "rest vs x = rest ws' y" using Cons.prems(1) [of v w "rest vs x" "rest ws' y"] ws delim by auto
    have "vs = ws' \<and> x = y"
    proof (cases "vs = [] \<or> ws' = []")
      case True
      then show ?thesis using vw(2) close(2) by (auto simp: rest_def split: if_splits)
    next
      case False
      then have "join_with '','' (map f vs) @ close # x = join_with '','' (map f ws') @ close # y" using vw(2) by (simp add: rest_def)
      then show ?thesis using Cons.IH [of ws'] Cons.prems(1,2) ws by auto
    qed
    then show ?thesis using vw(1) ws by simp
  qed
qed

lemma joined_pairs:
  "map (\<lambda>(k, t). json_quote k @ '':'' @ t) (map (map_prod id (json_text num_text)) o') =
   map (\<lambda>(k, v). json_quote k @ '':'' @ json_text num_text v) o'"
  by (auto simp: comp_def case_prod_unfold)

lemma json_text_prefix:
  assumes ok: "num_text_ok num_text"
  shows "json_fin v \<Longrightarrow> json_fin w \<Longrightarrow> delimited x \<Longrightarrow> delimited y \<Longrightarrow> json_text num_text v @ x = json_text num_text w @ y \<Longrightarrow> v = w \<and> x = y"
proof (induction v arbitrary: w x y rule: measure_induct_rule [where f = size])
  case (less v)
  obtain c t where lead: "json_text num_text v = c # t" "json_lead c v" using json_text_lead [OF ok less.prems(1)] .
  obtain d u where lead': "json_text num_text w = d # u" "json_lead d w" using json_text_lead [OF ok less.prems(2)] .
  have "json_lead c w" using less.prems(5) lead(1) lead' by simp
  with lead(2) show ?case
  proof (cases rule: json_lead_kind)
    case (3 a b)
    then obtain r r' where n: "v = SNum (Fin r)" "w = SNum (Fin r')" using less.prems(1,2) by (auto simp: is_finite_iff)
    have "num_text (Fin r) = num_text (Fin r') \<and> x = y"
      using ok less.prems(3-5) n by (intro number_run) (auto simp: num_text_ok_def)
    then show ?thesis using ok n by (auto simp: num_text_ok_def)
  next
    case (4 a b)
    then show ?thesis using json_quote_inj [of a x b y] less.prems(5) by simp
  next
    case (5 a b)
    have "a = b \<and> x = y"
    proof (rule joined_inj [where f = "json_text num_text" and close = "CHR '']''"])
      show "v' = w' \<and> x' = y'" if "v' \<in> set a" "w' \<in> set b" "delimited x'" "delimited y'" "json_text num_text v' @ x' = json_text num_text w' @ y'" for v' w' x' y'
      proof (rule less.IH [OF _ _ _ that(3-5)])
        show "size v' < size v" using that(1) 5(1) by (simp add: size_list_estimation' less_Suc_eq_le)
      qed (use that(1,2) less.prems(1,2) 5 in \<open>auto simp: list_all_iff\<close>)
      show "\<exists>c t. json_text num_text v' = c # t \<and> c \<noteq> CHR '']''" if "v' \<in> set a \<union> set b" for v'
      proof -
        have "json_fin v'" using that less.prems(1,2) 5 by (auto simp: list_all_iff)
        then obtain c t where "json_text num_text v' = c # t" "json_lead c v'" using json_text_lead [OF ok] by blast
        moreover from this have "c \<noteq> CHR '']''" by (cases v') auto
        ultimately show ?thesis by blast
      qed
    qed (use less.prems(5) 5 in \<open>auto simp: number_char_def\<close>)
    then show ?thesis using 5 by simp
  next
    case (6 a b)
    have "a = b \<and> x = y"
    proof (rule joined_inj [where f = "\<lambda>(k, v). json_quote k @ '':'' @ json_text num_text v" and close = "CHR 0x7D"])
      show "p = q \<and> x' = y'" if m: "p \<in> set a" "q \<in> set b" "delimited x'" "delimited y'"
        "(case p of (k, v) \<Rightarrow> json_quote k @ '':'' @ json_text num_text v) @ x' = (case q of (k, v) \<Rightarrow> json_quote k @ '':'' @ json_text num_text v) @ y'" for p q x' y'
      proof -
        obtain k v' l w' where pq: "p = (k, v')" "q = (l, w')" by (metis surj_pair)
        have f: "json_fin v'" "json_fin w'" using less.prems(1,2) 6 m(1,2) pq by (auto simp: list_all_iff)
        have "size v' \<le> size_list (size_prod (\<lambda>_. 0) size) a" by (rule size_list_estimation' [OF m(1)]) (simp add: pq)
        then have "size v' < size v" using 6(1) by simp
        moreover have "k = l" "json_text num_text v' @ x' = json_text num_text w' @ y'"
          using json_quote_inj [of k "'':'' @ json_text num_text v' @ x'" l "'':'' @ json_text num_text w' @ y'"] m(5) pq by auto
        ultimately show ?thesis using less.IH [OF _ f m(3,4)] pq by auto
      qed
      show "\<exists>c t. (case p of (k, v) \<Rightarrow> json_quote k @ '':'' @ json_text num_text v) = c # t \<and> c \<noteq> CHR 0x7D" if "p \<in> set a \<union> set b" for p
        by (cases p) (auto simp: json_quote_def)
    qed (use less.prems(5) 6 in \<open>auto simp: number_char_def comp_def case_prod_unfold\<close>)
    then show ?thesis using 6 by simp
  qed (use less.prems(5) in auto)
qed

lemma json_text_inj:
  assumes "num_text_ok num_text" "json_fin v" "json_fin w" "json_text num_text v = json_text num_text w"
  shows "v = w"
  using json_text_prefix [OF assms(1-3), of "[]" "[]"] assms(4) by simp

text \<open>There is such a text: the sign, numerator and denominator of the number in unary.\<close>

fun unary_text :: "number \<Rightarrow> string" where
  "unary_text (Fin r) = (let (p, q) = quotient_of r in
     (if p < 0 then CHR ''-'' else CHR ''0'') # replicate (nat \<bar>p\<bar>) CHR ''1'' @ CHR ''e'' # replicate (nat q) CHR ''1'')"
| "unary_text _ = []"

lemma replicate_split: "x \<noteq> y \<Longrightarrow> replicate a x @ y # t = replicate b x @ y # u \<Longrightarrow> a = b \<and> t = u"
proof (induction a arbitrary: b)
  case 0
  then show ?case by (cases b) auto
next
  case (Suc a)
  then show ?case by (cases b) auto
qed

lemma unary_text_ok: "num_text_ok unary_text"
  unfolding num_text_ok_def
proof (intro conjI allI impI)
  fix r :: rat
  obtain p q where r: "quotient_of r = (p, q)" by fastforce
  show "list_all number_char (unary_text (Fin r))" "unary_text (Fin r) \<noteq> []" "hd (unary_text (Fin r)) \<in> set ''0123456789-''"
    by (auto simp: r list_all_iff number_char_def)
next
  fix r r' :: rat assume eq: "unary_text (Fin r) = unary_text (Fin r')"
  obtain p q p' q' where q: "quotient_of r = (p, q)" "quotient_of r' = (p', q')" by fastforce
  have pos: "0 < q" "0 < q'" using quotient_of_denom_pos q by auto
  have "nat \<bar>p\<bar> = nat \<bar>p'\<bar> \<and> replicate (nat q) CHR ''1'' = replicate (nat q') CHR ''1''"
    by (rule replicate_split [of "CHR ''1''" "CHR ''e''"]) (use eq q in \<open>auto split: if_splits\<close>)
  then have "nat \<bar>p\<bar> = nat \<bar>p'\<bar>" "nat q = nat q'" by (auto dest: arg_cong [where f = length])
  moreover have "p < 0 \<longleftrightarrow> p' < 0" using eq q by (auto split: if_splits)
  ultimately have "p = p'" "q = q'" using pos by auto
  then show "r = r'" using q quotient_of_div by metis
qed

end
