(* ===== verification/Hand_Ledger.thy ===== *)
theory Hand_Ledger
  imports Ledger_Store Remote_Epoch Json_Text
begin

text \<open>
  A hand's durable record of the calls it runs (execution/remote-hand-ledger.ts), on the execution ledger and behind
  the epoch fence. An invoke is walked through the ledger to \<open>dispatched\<close> before anything of it runs. Every await of the
  walk is a step of its own, so walks of several links, floor raises, settlements, acks and crashes interleave between
  any two of them. \<open>parse\<close> is \<open>JSON.parse\<close> on the text of a recorded result, \<open>num_text\<close> the text of a finite number.
\<close>

section \<open>Messages and options\<close>

record hand_options =
  ho_executor :: string
  ho_issuer :: string
  ho_workspace :: string
  ho_leaseMs :: number

text \<open>An invoke as the decoder lets it through; arguments the sender left out are undefined.\<close>

record remote_invoke =
  ri_epoch :: "number option"
  ri_executionId :: string
  ri_batchId :: string
  ri_index :: number
  ri_scopeId :: string
  ri_scopeRoot :: string
  ri_toolCallId :: string
  ri_name :: string
  ri_arguments :: "store_value option"
  ri_sessionRef :: "string option"

datatype hand_message =
    HandSettled string store_value
  | HandTerminal string end_reason bool bool
  | HandRefused string string

datatype hand_admission = HandRun | HandReply hand_message | HandInFlight

definition GENERATION :: number where "GENERATION = Fin 1"

text \<open>\<open>String(value)\<close>.\<close>

primrec js_string :: "(number \<Rightarrow> string) \<Rightarrow> store_value \<Rightarrow> string" where
  "js_string num_text SNull = ''null''"
| "js_string num_text (SBool b) = (if b then ''true'' else ''false'')"
| "js_string num_text (SNum n) = (case n of Fin _ \<Rightarrow> num_text n | PosInf \<Rightarrow> ''Infinity'' | NegInf \<Rightarrow> ''-Infinity'' | NaN \<Rightarrow> ''NaN'')"
| "js_string num_text (SStr s) = s"
| "js_string num_text (SList xs) = join_with '','' (map (\<lambda>(x, t). if x = SNull then [] else t) (zip xs (map (js_string num_text) xs)))"
| "js_string num_text (SObj o') = ''[object Object]''"

type_synonym json_parser = "string \<Rightarrow> (failure, store_value) result"

definition outcomeOf :: "(number \<Rightarrow> string) \<Rightarrow> json_parser \<Rightarrow> execution_entry \<Rightarrow> (failure, hand_message option) result" where
  "outcomeOf num_text parse entry =
     (let executionId = e_commandId entry in
      case e_progress entry of
        Acked \<Rightarrow> Inr (Some (HandRefused executionId ''result_expired''))
      | Settled outcome \<Rightarrow>
          (case outcome of
             OutResult value _ \<Rightarrow> rbind (parse (js_string num_text value)) (\<lambda>result. Inr (Some (HandSettled executionId result)))
           | OutBlocked _ _ \<Rightarrow> Inr (Some (HandRefused executionId ''foreign_outcome''))
           | OutEnded reason hooksRan uncertain \<Rightarrow> Inr (Some (HandTerminal executionId reason uncertain hooksRan)))
      | _ \<Rightarrow> Inr None)"

fun asStoreValue :: "store_value option \<Rightarrow> store_value" where
  "asStoreValue None = SNull"
| "asStoreValue (Some value) = json_normal value"

fun ledger_refusal_name :: "ledger_refusal \<Rightarrow> string" where
  "ledger_refusal_name NotFound = ''not_found''"
| "ledger_refusal_name IdentityConflict = ''identity_conflict''"
| "ledger_refusal_name InvalidAdmission = ''invalid_admission''"
| "ledger_refusal_name StaleGeneration = ''stale_generation''"
| "ledger_refusal_name Unauthorized = ''unauthorized''"
| "ledger_refusal_name InvalidTransition = ''invalid_transition''"
| "ledger_refusal_name InvalidRenewal = ''invalid_renewal''"
| "ledger_refusal_name InvalidTime = ''invalid_time''"
| "ledger_refusal_name Terminal = ''terminal''"
| "ledger_refusal_name EpochFenced = ''epoch_fenced''"

section \<open>Commands\<close>

definition hand_command :: "hand_options \<Rightarrow> number \<Rightarrow> string \<Rightarrow> execution_event \<Rightarrow> string \<Rightarrow> execution_command" where
  "hand_command opts now executionId event actor =
     \<lparr>cmd_issuer = ho_issuer opts, cmd_commandId = executionId, cmd_generation = GENERATION,
      cmd_actor = \<lparr>actor_id = actor, approvedWorkspace = None\<rparr>, cmd_now = now, cmd_event = event\<rparr>"

text \<open>What one step of the store sees: the write points that throw, the store's owner epoch, the id it mints and the clock.\<close>

record hand_tick =
  ht_seam :: "write_point \<Rightarrow> bool"
  ht_epoch :: number
  ht_mint :: string
  ht_now :: number

definition hand_apply :: "hand_options \<Rightarrow> hand_tick \<Rightarrow> medium_state \<Rightarrow> string \<Rightarrow> execution_event \<Rightarrow> string \<Rightarrow> ledger_refusal option \<Rightarrow>
    (failure, ledger_reply) result \<times> medium_state" where
  "hand_apply opts t st executionId event actor guard =
     ledger_apply (ht_seam t) (ht_epoch t) (ht_mint t) st (hand_command opts (ht_now t) executionId event actor) guard"

definition fencedBy :: "bool option \<Rightarrow> ledger_refusal option" where
  "fencedBy admits = (case admits of None \<Rightarrow> None | Some ok \<Rightarrow> if ok then None else Some EpochFenced)"

definition replyFrom :: "(number \<Rightarrow> string) \<Rightarrow> json_parser \<Rightarrow> ledger_reply \<Rightarrow> string \<Rightarrow> (failure, hand_message) result" where
  "replyFrom num_text parse reply executionId =
     (let from = (\<lambda>entry. rbind (outcomeOf num_text parse entry) (\<lambda>m. Inr (case m of Some message \<Rightarrow> message
        | None \<Rightarrow> HandRefused executionId ''not_settled''))) in
      case reply of
        Refused reason \<Rightarrow> Inr (HandRefused executionId (ledger_refusal_name reason))
      | ResultExpired \<Rightarrow> Inr (HandRefused executionId ''result_expired'')
      | Applied entry \<Rightarrow> from entry
      | Replayed entry \<Rightarrow> from entry)"

definition frozen_of :: "(number \<Rightarrow> string) \<Rightarrow> remote_invoke \<Rightarrow> frozen_call" where
  "frozen_of num_text invoke =
     (let args = asStoreValue (ri_arguments invoke) in
      \<lparr>fc_name = ri_name invoke, fc_args = args, fc_digest = json_text num_text (SList [SStr (ri_name invoke), args])\<rparr>)"

definition hand_admission_of :: "hand_options \<Rightarrow> number \<Rightarrow> remote_invoke \<Rightarrow> string \<Rightarrow> execution_admission" where
  "hand_admission_of opts admittedAt invoke digest =
     \<lparr>e_issuer = ho_issuer opts, e_commandId = ri_executionId invoke, e_executor = ho_executor opts, e_workspace = ho_workspace opts,
      e_scope = ri_scopeId invoke, e_generation = GENERATION, e_requestDigest = digest, e_admittedAt = admittedAt,
      e_leaseUntil = num_add admittedAt (ho_leaseMs opts), e_reconcilable = False\<rparr>"

definition admitNew :: "hand_options \<Rightarrow> hand_tick \<Rightarrow> medium_state \<Rightarrow> remote_invoke \<Rightarrow> string \<Rightarrow> ledger_refusal option \<Rightarrow>
    (failure, ledger_reply) result \<times> medium_state" where
  "admitNew opts t st invoke digest guard =
     ledger_admit (ht_seam t) (ht_epoch t) (ht_mint t) st (hand_admission_of opts (ht_now t) invoke digest) guard"

section \<open>The walk\<close>

datatype walk_step = StepAdmit | StepPrepare | StepEffect | StepFreeze | StepRelease

text \<open>Where a walk waits: on the first read, before a step, before the dispatch, or in the two awaits of a fenced walk.\<close>

datatype hand_walk = WalkRead | WalkSteps "walk_step list" | WalkDispatch | WalkFenced | WalkCancel

definition hand_run_step :: "hand_options \<Rightarrow> (number \<Rightarrow> string) \<Rightarrow> hand_tick \<Rightarrow> medium_state \<Rightarrow> remote_invoke \<Rightarrow> ledger_refusal option \<Rightarrow> walk_step \<Rightarrow>
    (failure, ledger_reply) result \<times> medium_state" where
  "hand_run_step opts num_text t st invoke guard step =
     (let executionId = ri_executionId invoke; frozen = frozen_of num_text invoke in
      case step of
        StepAdmit \<Rightarrow> admitNew opts t st invoke (fc_digest frozen) guard
      | StepPrepare \<Rightarrow> hand_apply opts t st executionId EvPrepare (ho_executor opts) guard
      | StepEffect \<Rightarrow> hand_apply opts t st executionId EvEffect (ho_executor opts) guard
      | StepFreeze \<Rightarrow> hand_apply opts t st executionId (EvFreeze frozen False) (ho_executor opts) guard
      | StepRelease \<Rightarrow> hand_apply opts t st executionId EvRelease (ho_issuer opts) guard)"

definition fromStart :: "walk_step list" where
  "fromStart = [StepAdmit, StepPrepare, StepEffect, StepFreeze]"

fun is_fenced :: "ledger_reply \<Rightarrow> bool" where
  "is_fenced (Refused reason) = (reason = EpochFenced)"
| "is_fenced _ = False"

text \<open>The walk goes on, or ends with an admission or a throw.\<close>

type_synonym walk_outcome = "(failure, hand_admission) result + hand_walk"

definition walk_reply :: "(failure, hand_message) result \<Rightarrow> walk_outcome" where
  "walk_reply m = Inl (rbind m (\<lambda>message. Inr (HandReply message)))"

definition walk_from_prior :: "(number \<Rightarrow> string) \<Rightarrow> json_parser \<Rightarrow> remote_invoke \<Rightarrow> execution_entry option \<Rightarrow> walk_outcome" where
  "walk_from_prior num_text parse invoke prior =
     (let frozen = frozen_of num_text invoke in
      case prior of
        None \<Rightarrow> Inr (WalkSteps (fromStart @ [StepRelease]))
      | Some entry \<Rightarrow>
          if e_requestDigest entry \<noteq> fc_digest frozen \<or> e_scope entry \<noteq> ri_scopeId invoke
          then walk_reply (Inr (HandRefused (ri_executionId invoke) ''identity_conflict''))
          else case outcomeOf num_text parse entry of
            Inl e \<Rightarrow> Inl (Inl e)
          | Inr (Some message) \<Rightarrow> walk_reply (Inr message)
          | Inr None \<Rightarrow>
              (case e_progress entry of
                 Prepared _ \<Rightarrow> Inr (WalkSteps [StepRelease])
               | Released _ \<Rightarrow> Inr (WalkSteps [StepRelease])
               | _ \<Rightarrow> Inl (Inr HandInFlight)))"

definition walk_after :: "(number \<Rightarrow> string) \<Rightarrow> json_parser \<Rightarrow> string \<Rightarrow> walk_step list \<Rightarrow> ledger_reply \<Rightarrow> walk_outcome" where
  "walk_after num_text parse executionId steps reply =
     (let goes_on = Inr (if steps = [] then WalkDispatch else WalkSteps steps) in
      if is_fenced reply then Inr WalkFenced
      else case reply of
        Replayed entry \<Rightarrow> if is_settled (e_progress entry) then walk_reply (replyFrom num_text parse reply executionId) else goes_on
      | Applied entry \<Rightarrow> if is_settled (e_progress entry) then walk_reply (replyFrom num_text parse reply executionId) else goes_on
      | _ \<Rightarrow> walk_reply (replyFrom num_text parse reply executionId))"

fun is_dispatched :: "execution_progress \<Rightarrow> bool" where
  "is_dispatched (Dispatched _) = True"
| "is_dispatched _ = False"

definition walk_dispatched :: "(number \<Rightarrow> string) \<Rightarrow> json_parser \<Rightarrow> string \<Rightarrow> ledger_reply \<Rightarrow> walk_outcome" where
  "walk_dispatched num_text parse executionId reply =
     (if is_fenced reply then Inr WalkFenced
      else case reply of
        Applied entry \<Rightarrow> if is_dispatched (e_progress entry) then Inl (Inr HandRun) else walk_reply (replyFrom num_text parse reply executionId)
      | Replayed entry \<Rightarrow> if is_settled (e_progress entry) then walk_reply (replyFrom num_text parse reply executionId) else Inl (Inr HandInFlight)
      | _ \<Rightarrow> walk_reply (replyFrom num_text parse reply executionId))"

definition fenced_reply :: "string \<Rightarrow> walk_outcome" where
  "fenced_reply executionId = walk_reply (Inr (HandRefused executionId ''epoch_fenced''))"

text \<open>\<open>advance\<close>, from one await to the next.\<close>

fun advance :: "hand_options \<Rightarrow> (number \<Rightarrow> string) \<Rightarrow> json_parser \<Rightarrow> hand_tick \<Rightarrow> ledger_refusal option \<Rightarrow> remote_invoke \<Rightarrow> hand_walk \<Rightarrow> medium_state \<Rightarrow>
    walk_outcome \<times> medium_state" where
  "advance opts num_text parse t guard invoke WalkRead st =
     (case ledger_read st (ho_issuer opts, ri_executionId invoke) of
        Inl e \<Rightarrow> (Inl (Inl e), st)
      | Inr prior \<Rightarrow> (walk_from_prior num_text parse invoke prior, st))"
| "advance opts num_text parse t guard invoke (WalkSteps []) st = (Inr WalkDispatch, st)"
| "advance opts num_text parse t guard invoke (WalkSteps (step # steps)) st =
     (case hand_run_step opts num_text t st invoke guard step of
        (Inl e, st') \<Rightarrow> (Inl (Inl e), st')
      | (Inr reply, st') \<Rightarrow> (walk_after num_text parse (ri_executionId invoke) steps reply, st'))"
| "advance opts num_text parse t guard invoke WalkDispatch st =
     (case hand_apply opts t st (ri_executionId invoke) EvDispatch (ho_executor opts) guard of
        (Inl e, st') \<Rightarrow> (Inl (Inl e), st')
      | (Inr reply, st') \<Rightarrow> (walk_dispatched num_text parse (ri_executionId invoke) reply, st'))"
| "advance opts num_text parse t guard invoke WalkFenced st =
     (case ledger_read st (ho_issuer opts, ri_executionId invoke) of
        Inl e \<Rightarrow> (Inl (Inl e), st)
      | Inr None \<Rightarrow> (fenced_reply (ri_executionId invoke), st)
      | Inr (Some _) \<Rightarrow> (Inr WalkCancel, st))"
| "advance opts num_text parse t guard invoke WalkCancel st =
     (case hand_apply opts t st (ri_executionId invoke) EvCancel (ho_issuer opts) None of
        (Inl e, st') \<Rightarrow> (Inl (Inl e), st')
      | (Inr _, st') \<Rightarrow> (fenced_reply (ri_executionId invoke), st'))"

section \<open>The hand ledger of a link\<close>

text \<open>The calls this process admitted or runs, the walks under way, and how recovery went.\<close>

record hand_proc =
  hp_owned :: "string list"
  hp_walks :: "(remote_invoke \<times> hand_walk) obj"
  hp_recovered :: "(failure, unit) result option"

definition createHandLedger :: hand_proc where
  "createHandLedger = \<lparr>hp_owned = [], hp_walks = [], hp_recovered = None\<rparr>"

text \<open>\<open>admit\<close>: a duplicate of a call of this process waits on that run, anything else starts a walk.\<close>

definition hand_admit :: "remote_invoke \<Rightarrow> hand_proc \<Rightarrow> hand_admission option \<times> hand_proc" where
  "hand_admit invoke p =
     (if ri_executionId invoke \<in> set (hp_owned p) then (Some HandInFlight, p)
      else (None, p\<lparr>hp_owned := ri_executionId invoke # hp_owned p,
                    hp_walks := obj_put (ri_executionId invoke) (invoke, WalkRead) (hp_walks p)\<rparr>))"

text \<open>One step of a walk of this process. A call that will not run is no longer owned.\<close>

definition hand_walk_step :: "hand_options \<Rightarrow> (number \<Rightarrow> string) \<Rightarrow> json_parser \<Rightarrow> hand_tick \<Rightarrow> (remote_invoke \<Rightarrow> bool option) \<Rightarrow> string \<Rightarrow>
    hand_proc \<times> medium_state \<Rightarrow> (failure, hand_admission) result option \<times> hand_proc \<times> medium_state" where
  "hand_walk_step opts num_text parse t admits executionId = (\<lambda>(p, st).
     case map_of (hp_walks p) executionId of
       None \<Rightarrow> (None, p, st)
     | Some (invoke, walk) \<Rightarrow>
         (case advance opts num_text parse t (fencedBy (admits invoke)) invoke walk st of
            (Inr walk', st') \<Rightarrow> (None, p\<lparr>hp_walks := obj_put executionId (invoke, walk') (hp_walks p)\<rparr>, st')
          | (Inl admission, st') \<Rightarrow>
              (Some admission,
               p\<lparr>hp_walks := obj_del executionId (hp_walks p),
                 hp_owned := (if admission = Inr HandRun then hp_owned p else removeAll executionId (hp_owned p))\<rparr>, st')))"

definition hand_settle :: "hand_options \<Rightarrow> (number \<Rightarrow> string) \<Rightarrow> json_parser \<Rightarrow> hand_tick \<Rightarrow> string \<Rightarrow> store_value \<Rightarrow> hand_proc \<times> medium_state \<Rightarrow>
    (failure, hand_message) result \<times> hand_proc \<times> medium_state" where
  "hand_settle opts num_text parse t executionId result = (\<lambda>(p, st).
     case hand_apply opts t st executionId (EvResult (SStr (json_text num_text result))) (ho_executor opts) None of
       (reply, st') \<Rightarrow> (rbind reply (\<lambda>r. replyFrom num_text parse r executionId),
         p\<lparr>hp_owned := removeAll executionId (hp_owned p)\<rparr>, st'))"

definition hand_ack :: "hand_options \<Rightarrow> hand_tick \<Rightarrow> string \<Rightarrow> bool option \<Rightarrow> medium_state \<Rightarrow> (failure, unit) result \<times> medium_state" where
  "hand_ack opts t executionId admits st =
     (case hand_apply opts t st executionId EvAck (ho_issuer opts) (fencedBy admits) of (r, st') \<Rightarrow> (rbind r (\<lambda>_. Inr ()), st'))"

text \<open>\<open>recover\<close>: the ledger's recovery once, then every outcome that is not acknowledged, with its lane.\<close>

fun unacknowledged :: "(number \<Rightarrow> string) \<Rightarrow> json_parser \<Rightarrow> execution_entry list \<Rightarrow> (failure, (string \<times> hand_message) list) result" where
  "unacknowledged num_text parse [] = Inr []"
| "unacknowledged num_text parse (entry # entries) =
     rbind (if is_settled (e_progress entry) then outcomeOf num_text parse entry else Inr None) (\<lambda>m.
     rbind (unacknowledged num_text parse entries) (\<lambda>rest.
       Inr (case m of None \<Rightarrow> rest | Some message \<Rightarrow> (e_scope entry, message) # rest)))"

definition hand_recover :: "(number \<Rightarrow> string) \<Rightarrow> json_parser \<Rightarrow> number \<Rightarrow> number \<Rightarrow> (nat \<Rightarrow> string) \<Rightarrow> hand_proc \<times> medium_state \<Rightarrow>
    (failure, (string \<times> hand_message) list) result \<times> hand_proc \<times> medium_state" where
  "hand_recover num_text parse ep now mids = (\<lambda>(p, st).
     case hp_recovered p of
       Some r \<Rightarrow> (rbind r (\<lambda>_. Inr []), p, st)
     | None \<Rightarrow>
         (case ledger_recover ep now mids st of
            (r, st') \<Rightarrow> (rbind r (\<lambda>_. rbind (ledger_scan st') (unacknowledged num_text parse)), p\<lparr>hp_recovered := Some r\<rparr>, st')))"

end
