(* ===== verification/Hand_Correct.thy ===== *)
theory Hand_Correct
  imports Hand_Ledger
begin

text \<open>
  A whole hand: the ledgers of its links, the epoch fence they share and the store under them, over any interleaving of
  invokes, walk steps, settlements, acks, floor raises, writes of other components, recoveries and crashes. It composes
  the ledger's guarantees with the fence's: a call runs at most once, only what was frozen for it, and never for an owner
  that has been superseded.
\<close>

section \<open>The hand as a system\<close>

record hand_link =
  hl_options :: hand_options
  hl_sender :: string

record hand_sys =
  hs_procs :: "nat \<Rightarrow> hand_proc"
  hs_floors :: "epoch_floor obj"
  hs_store :: medium_state

datatype hand_event =
    HvInvoke nat remote_invoke
  | HvWalk nat string hand_tick
  | HvSettle nat string store_value hand_tick
  | HvAck nat string string "number option" hand_tick
  | HvRaise nat string number "string \<Rightarrow> string option" hand_tick
  | HvRecover nat number number "nat \<Rightarrow> string"
  | HvRecoverCut nat number number "nat \<Rightarrow> string"
  | HvRestart
  | HvOther "store_write list" hand_tick

datatype hand_out =
    OutAdmission nat remote_invoke "(failure, hand_admission) result"
  | OutAnswer nat string "(failure, hand_message) result"
  | OutFloor nat string number "(failure, floor_raise) result"

definition foreign_to_hand :: "store_write list \<Rightarrow> bool" where
  "foreign_to_hand ws \<longleftrightarrow> list_all (foreign_write ledger_PREFIX) ws \<and> list_all (foreign_write EPOCH_FLOOR_PREFIX) ws"

text \<open>The executor's epoch check of an invoke on its lane.\<close>

definition link_admits :: "hand_link \<Rightarrow> epoch_floor obj \<Rightarrow> remote_invoke \<Rightarrow> bool option" where
  "link_admits link floors invoke = Some (fence_admits floors (ri_scopeId invoke) (ri_epoch invoke) (hl_sender link))"

text \<open>The invoke a walk of the process belongs to.\<close>

definition walk_invoke :: "hand_proc \<Rightarrow> string \<Rightarrow> remote_invoke option" where
  "walk_invoke p executionId = map_option fst (map_of (hp_walks p) executionId)"


fun hand_step :: "(number \<Rightarrow> string) \<Rightarrow> json_parser \<Rightarrow> (nat \<Rightarrow> hand_link) \<Rightarrow> hand_event \<Rightarrow> hand_sys \<Rightarrow> hand_out list \<times> hand_sys" where
  "hand_step num_text parse links (HvInvoke i invoke) s =
     (case hand_admit invoke (hs_procs s i) of
        (a, p) \<Rightarrow> (case a of None \<Rightarrow> [] | Some adm \<Rightarrow> [OutAdmission i invoke (Inr adm)], s\<lparr>hs_procs := (hs_procs s)(i := p)\<rparr>))"
| "hand_step num_text parse links (HvWalk i executionId t) s =
     (case hand_walk_step (hl_options (links i)) num_text parse t (link_admits (links i) (hs_floors s)) executionId (hs_procs s i, hs_store s) of
        (a, p, st) \<Rightarrow>
          (case (a, walk_invoke (hs_procs s i) executionId) of (Some adm, Some invoke) \<Rightarrow> [OutAdmission i invoke adm] | _ \<Rightarrow> [],
           s\<lparr>hs_procs := (hs_procs s)(i := p), hs_store := st\<rparr>))"
| "hand_step num_text parse links (HvSettle i executionId result t) s =
     (case hand_settle (hl_options (links i)) num_text parse t executionId result (hs_procs s i, hs_store s) of
        (m, p, st) \<Rightarrow> ([OutAnswer i executionId m], s\<lparr>hs_procs := (hs_procs s)(i := p), hs_store := st\<rparr>))"
| "hand_step num_text parse links (HvAck i executionId lane epoch t) s =
     (case hand_ack (hl_options (links i)) t executionId (Some (fence_admits (hs_floors s) lane epoch (hl_sender (links i)))) (hs_store s) of
        (_, st) \<Rightarrow> ([], s\<lparr>hs_store := st\<rparr>))"
| "hand_step num_text parse links (HvRaise i scope epoch ownerOf t) s =
     (if \<not> isEpoch epoch then ([], s)
      else case raiseNow (ht_seam t) (Some (ht_epoch t)) ownerOf (hs_floors s, hs_store s) scope epoch (hl_sender (links i)) of
        (r, floors, st) \<Rightarrow> ([OutFloor i scope epoch r], s\<lparr>hs_floors := floors, hs_store := st\<rparr>))"
| "hand_step num_text parse links (HvRecover i ep now mids) s =
     (case hand_recover num_text parse ep now mids (hs_procs s i, hs_store s) of
        (_, p, st) \<Rightarrow> ([], s\<lparr>hs_procs := (hs_procs s)(i := p), hs_store := st\<rparr>))"
| "hand_step num_text parse links (HvRecoverCut n ep now mids) s =
     ([], s\<lparr>hs_store := snd (recover_rows ep now mids 0 (take n (documentsOf (hs_store s) ledger_PREFIX)) (hs_store s))\<rparr>)"
| "hand_step num_text parse links HvRestart s =
     (case fence_ready (hs_store s) of
        Inl _ \<Rightarrow> ([], s)
      | Inr floors \<Rightarrow> ([], s\<lparr>hs_procs := (\<lambda>_. createHandLedger), hs_floors := floors\<rparr>))"
| "hand_step num_text parse links (HvOther ws t) s =
     ([], if foreign_to_hand ws then s\<lparr>hs_store := fst (snd (commitSync (ht_seam t) (hs_store s) (ht_epoch t) ws))\<rparr> else s)"

abbreviation hand_trace :: "(number \<Rightarrow> string) \<Rightarrow> json_parser \<Rightarrow> (nat \<Rightarrow> hand_link) \<Rightarrow> hand_event list \<Rightarrow> hand_sys \<Rightarrow> hand_out list \<times> hand_sys" where
  "hand_trace num_text parse links \<equiv> run_steps (hand_step num_text parse links)"

text \<open>The answers that make the executor run a call, for the call of this key.\<close>

fun runs_call :: "(nat \<Rightarrow> hand_link) \<Rightarrow> string \<times> string \<Rightarrow> hand_out \<Rightarrow> bool" where
  "runs_call links k (OutAdmission i invoke adm) = (adm = Inr HandRun \<and> k = (ho_issuer (hl_options (links i)), ri_executionId invoke))"
| "runs_call links k _ = False"

section \<open>Every step is a run of the ledger\<close>

text \<open>The steps that freeze nothing: all of them but the freeze of a walk.\<close>

fun freezes :: "ledger_step_input \<Rightarrow> frozen_call option" where
  "freezes (seam, ep, mid, LApply c guard) = (case cmd_event c of EvFreeze call _ \<Rightarrow> Some call | _ \<Rightarrow> None)"
| "freezes _ = None"

fun ledger_only :: "ledger_step_input \<Rightarrow> bool" where
  "ledger_only (seam, ep, mid, LOther ws) = False"
| "ledger_only _ = True"

definition hand_input :: "hand_options \<Rightarrow> hand_tick \<Rightarrow> string \<Rightarrow> execution_event \<Rightarrow> string \<Rightarrow> ledger_refusal option \<Rightarrow> ledger_step_input" where
  "hand_input opts t executionId event actor guard =
     (ht_seam t, ht_epoch t, ht_mint t, LApply (hand_command opts (ht_now t) executionId event actor) guard)"

lemma hand_input_step:
  assumes "hand_apply opts t st executionId event actor guard = (x, st')"
  shows "ledger_step (hand_input opts t executionId event actor guard) st =
    (case x of Inr reply \<Rightarrow> [((ho_issuer opts, executionId), event, reply)] | Inl _ \<Rightarrow> [], st')"
  using assms by (auto simp: hand_input_def hand_apply_def hand_command_def split: sum.splits)

lemma ledger_only_hand_input [simp]: "ledger_only (hand_input opts t executionId event actor guard)"
  by (simp add: hand_input_def)

lemma freezes_hand_input: "freezes (hand_input opts t executionId event actor guard) = (case event of EvFreeze call _ \<Rightarrow> Some call | _ \<Rightarrow> None)"
  by (simp add: hand_input_def hand_command_def)

lemma admitNew_step:
  assumes "admitNew opts t st invoke digest guard = (x, st')"
  shows "ledger_step (ht_seam t, ht_epoch t, ht_mint t, LAdmit (hand_admission_of opts (ht_now t) invoke digest) guard) st = ([], st')"
  using assms by (simp add: admitNew_def)

lemma recover_rows_trace:
  "recover_rows ep now mids i ds st = (r, st') \<Longrightarrow> \<exists>xs outs. ledger_trace xs st = (outs, st') \<and> list_all (\<lambda>x. freezes x = None \<and> ledger_only x) xs"
proof (induction ep now mids i ds st arbitrary: r rule: recover_rows.induct)
  case (1 ep now mids i st)
  then show ?case by (intro exI [of _ "[]"]) auto
next
  case (2 ep now mids i d ds st)
  show ?case
  proof (cases "decodeExecution (sd_data d)")
    case (Inl e)
    then show ?thesis using 2 by (intro exI [of _ "[]"]) auto
  next
    case (Inr entry)
    let ?x = "(\<lambda>_. False, ep, mids i, LApply (restart_command entry now) None)"
    obtain y st1 where a: "ledger_apply (\<lambda>_. False) ep (mids i) st (restart_command entry now) None = (y, st1)" by fastforce
    then obtain out where s: "ledger_step ?x st = (out, st1)" by (cases y) auto
    have f: "freezes ?x = None" "ledger_only ?x" by (simp_all add: restart_command_def)
    show ?thesis
    proof (cases y)
      case (Inl e)
      then have "st' = st1" using 2 Inr a by simp
      then show ?thesis using s f by (intro exI [of _ "[?x]"]) simp
    next
      case y: (Inr reply)
      then have "recover_rows ep now mids (i + 1) ds st1 = (r, st')" using 2(2) Inr a by simp
      from "2.IH" [OF Inr a [symmetric] y this] obtain xs outs where "ledger_trace xs st1 = (outs, st')" "list_all (\<lambda>x. freezes x = None \<and> ledger_only x) xs" by blast
      then show ?thesis using s f by (intro exI [of _ "?x # xs"]) auto
    qed
  qed
qed

text \<open>A step of a walk is at most one step of the ledger, and it runs the call exactly when that step started its body.\<close>

lemma walk_reply_not_run [simp]: "walk_reply m \<noteq> Inl (Inr HandRun)"
  by (cases m) (auto simp: walk_reply_def)

lemma walk_not_run:
  "walk_from_prior num_text parse invoke prior \<noteq> Inl (Inr HandRun)"
  "walk_after num_text parse executionId steps reply \<noteq> Inl (Inr HandRun)"
  "fenced_reply executionId \<noteq> Inl (Inr HandRun)"
  by (auto simp: walk_from_prior_def walk_after_def fenced_reply_def Let_def split: option.splits sum.splits execution_progress.splits ledger_reply.splits if_splits)

lemma walk_dispatched_run:
  "walk_dispatched num_text parse executionId reply = Inl (Inr HandRun) \<longleftrightarrow> (\<exists>e c. reply = Applied e \<and> e_progress e = Dispatched c)"
proof -
  have "is_dispatched p \<longleftrightarrow> (\<exists>c. p = Dispatched c)" for p by (cases p) auto
  then show ?thesis by (cases reply) (auto simp: walk_dispatched_def)
qed

definition freeze_input :: "hand_options \<Rightarrow> (number \<Rightarrow> string) \<Rightarrow> hand_tick \<Rightarrow> remote_invoke \<Rightarrow> ledger_refusal option \<Rightarrow> ledger_step_input" where
  "freeze_input opts num_text t invoke guard =
     hand_input opts t (ri_executionId invoke) (EvFreeze (frozen_of num_text invoke) False) (ho_executor opts) guard"

lemma hand_run_step_input:
  assumes "hand_run_step opts num_text t st invoke guard step = (x, st')"
  shows "\<exists>y out. ledger_step y st = (out, st') \<and> ledger_only y \<and> (freezes y = None \<or> (y = freeze_input opts num_text t invoke guard \<and> step = StepFreeze))"
proof -
  have calm: ?thesis if "hand_apply opts t st (ri_executionId invoke) ev actor guard = (x, st')" "ev \<in> {EvPrepare, EvEffect, EvRelease}" for ev actor
  proof -
    have "freezes (hand_input opts t (ri_executionId invoke) ev actor guard) = None" using that(2) by (auto simp: freezes_hand_input)
    then show ?thesis using hand_input_step [OF that(1)] ledger_only_hand_input by blast
  qed
  show ?thesis
  proof (cases step)
    case StepAdmit
    then have "admitNew opts t st invoke (fc_digest (frozen_of num_text invoke)) guard = (x, st')" using assms by (simp add: hand_run_step_def Let_def)
    from admitNew_step [OF this] show ?thesis by (intro exI conjI, assumption) auto
  next
    case StepFreeze
    then have "hand_apply opts t st (ri_executionId invoke) (EvFreeze (frozen_of num_text invoke) False) (ho_executor opts) guard = (x, st')"
      using assms by (simp add: hand_run_step_def Let_def)
    note step = hand_input_step [OF this, folded freeze_input_def]
    show ?thesis by (rule exI, rule exI, rule conjI [OF step]) (simp add: StepFreeze freeze_input_def)
  next
    case StepPrepare
    then show ?thesis using assms calm [of EvPrepare "ho_executor opts"] by (simp add: hand_run_step_def Let_def)
  next
    case StepEffect
    then show ?thesis using assms calm [of EvEffect "ho_executor opts"] by (simp add: hand_run_step_def Let_def)
  next
    case StepRelease
    then show ?thesis using assms calm [of EvRelease "ho_issuer opts"] by (simp add: hand_run_step_def Let_def)
  qed
qed

lemma advance_step:
  assumes "advance opts num_text parse t guard invoke walk st = (w, st')"
  obtains (none) "st' = st" "w \<noteq> Inl (Inr HandRun)"
  | (moved) x out where "ledger_step x st = (out, st')" "ledger_only x" "w \<noteq> Inl (Inr HandRun)"
      "freezes x = None \<or> (x = freeze_input opts num_text t invoke guard \<and> (\<exists>steps. walk = WalkSteps (StepFreeze # steps)))"
  | (run) e c where "walk = WalkDispatch" "guard = None" "w = Inl (Inr HandRun)" "e_progress e = Dispatched c"
      "ledger_step (hand_input opts t (ri_executionId invoke) EvDispatch (ho_executor opts) None) st =
        ([((ho_issuer opts, ri_executionId invoke), EvDispatch, Applied e)], st')"
proof (cases "(opts, num_text, parse, t, guard, invoke, walk, st)" rule: advance.cases)
  case (3 opts' num_text' parse' t' guard' invoke' step steps st0)
  obtain x st1 where r: "hand_run_step opts num_text t st invoke guard step = (x, st1)" by fastforce
  have "st' = st1" "w \<noteq> Inl (Inr HandRun)" using assms 3 r walk_not_run by (auto split: sum.splits)
  then show ?thesis using hand_run_step_input [OF r] moved 3 by blast
next
  case (4 opts' num_text' parse' t' guard' invoke' st0)
  obtain x st1 where r: "hand_apply opts t st (ri_executionId invoke) EvDispatch (ho_executor opts) guard = (x, st1)" by fastforce
  have st: "st' = st1" and w: "w = (case x of Inl e \<Rightarrow> Inl (Inl e) | Inr reply \<Rightarrow> walk_dispatched num_text parse (ri_executionId invoke) reply)"
    using assms 4 r by (auto split: sum.splits)
  note step = hand_input_step [OF r]
  show ?thesis
  proof (cases "w = Inl (Inr HandRun)")
    case True
    then obtain e c where e: "x = Inr (Applied e)" "e_progress e = Dispatched c" using w by (auto simp: walk_dispatched_run split: sum.splits)
    have "guard = None" using r e(1) by (cases guard) (auto simp: hand_apply_def ledger_apply_def)
    then show ?thesis using run [OF _ _ True e(2)] step e(1) st 4 by auto
  next
    case False
    then show ?thesis using moved [OF step [folded st]] freezes_hand_input by simp
  qed
next
  case (6 opts' num_text' parse' t' guard' invoke' st0)
  obtain x st1 where r: "hand_apply opts t st (ri_executionId invoke) EvCancel (ho_issuer opts) None = (x, st1)" by fastforce
  have st: "st' = st1" "w \<noteq> Inl (Inr HandRun)" using assms 6 r walk_not_run by (auto split: sum.splits)
  then show ?thesis using moved [OF hand_input_step [OF r, folded st(1)]] freezes_hand_input by simp
qed (use assms none walk_not_run in \<open>auto split: sum.splits option.splits\<close>)

lemma floor_write_foreign: "foreign_write ledger_PREFIX (Put (floor_key scope) v)"
  by (simp add: starts_with_def floor_key_def ledger_PREFIX_def EPOCH_FLOOR_PREFIX_def)

lemma raise_step:
  assumes "raiseNow seam (Some ep) ownerOf (floors, st) scope epoch sender = (r, floors', st')"
  shows "st' = st \<or> (\<exists>ws. list_all (foreign_write ledger_PREFIX) ws \<and> st' = fst (snd (commitSync seam st ep ws)))"
proof -
  let ?ws = "[Put (floor_key scope) (floor_value \<lparr>fl_epoch = epoch, fl_owner = sender\<rparr>)]"
  have "st' = st \<or> st' = fst (snd (commitSync seam st ep ?ws))"
    using assms by (auto simp: raiseNow_def Let_def split: if_splits prod.splits)
  moreover have "list_all (foreign_write ledger_PREFIX) ?ws" using floor_write_foreign by simp
  ultimately show ?thesis by blast
qed

subsection \<open>The fence under the ledger\<close>

text \<open>The ledger's own writes leave the floors alone.\<close>

definition floors_kept :: "medium_state \<Rightarrow> medium_state \<Rightarrow> bool" where
  "floors_kept st st' \<longleftrightarrow> (obj_wf (ms_documents st) \<longrightarrow> obj_wf (ms_documents st')) \<and>
     (\<forall>scope. getDocument st' (floor_key scope) = getDocument st (floor_key scope))"

lemma floors_kept_refl [simp]: "floors_kept st st"
  by (simp add: floors_kept_def)

lemma floors_kept_trans: "floors_kept a b \<Longrightarrow> floors_kept b c \<Longrightarrow> floors_kept a c"
  by (simp add: floors_kept_def)

lemma starts_with_floor_key: "starts_with EPOCH_FLOOR_PREFIX (floor_key scope)"
  by (auto simp: starts_floor_key)

lemma commit_floors_kept:
  assumes "list_all (foreign_write EPOCH_FLOOR_PREFIX) ws"
  shows "floors_kept st (fst (snd (commitSync seam st ep ws)))"
  using commit_foreign [OF assms starts_with_floor_key, of seam st ep]
  by (cases rule: commitSync_cases [of seam st ep ws]) (auto simp: floors_kept_def split: if_splits)

lemma persist_floors_kept:
  assumes "commit_then seam st ep (persist_writes mid e ev audit) r = (x, st')"
  shows "floors_kept st st'"
proof -
  have "list_all (foreign_write EPOCH_FLOOR_PREFIX) (persist_writes mid e ev audit)"
    by (simp add: persist_writes_def starts_with_def ledger_keyOf_def ledger_PREFIX_def EPOCH_FLOOR_PREFIX_def)
  from commit_floors_kept [OF this, of st seam ep] show ?thesis using assms by (auto simp: commit_then_def split: prod.splits sum.splits)
qed

lemma ledger_step_floors_kept:
  assumes "ledger_step x st = (out, st')" "ledger_only x"
  shows "floors_kept st st'"
proof (cases "(x, st)" rule: ledger_step.cases)
  case (1 seam ep mid input guard st0)
  then show ?thesis using assms
    by (cases "ledger_admit seam ep mid st input guard")
      (auto simp: ledger_admit_def Let_def split: option.splits sum.splits if_splits dest: persist_floors_kept)
next
  case (2 seam ep mid c guard st0)
  obtain r st1 where a: "ledger_apply seam ep mid st c guard = (r, st1)" by fastforce
  then have "st' = st1" using assms 2 by (auto split: sum.splits)
  then show ?thesis using a
    by (auto simp: ledger_apply_def Let_def split: option.splits sum.splits ledger_reply.splits if_splits dest: persist_floors_kept)
qed (use assms in auto)

lemma ledger_trace_floors_kept:
  "ledger_trace xs st = (outs, st') \<Longrightarrow> list_all ledger_only xs \<Longrightarrow> floors_kept st st'"
proof (induction xs arbitrary: st outs)
  case (Cons x xs)
  obtain out st1 outs' where c: "ledger_step x st = (out, st1)" "ledger_trace xs st1 = (outs', st')" "outs = out @ outs'"
    by (rule run_steps_Cons [OF Cons.prems(1)])
  show ?case using ledger_step_floors_kept [OF c(1)] Cons.IH [OF c(2)] Cons.prems(2) floors_kept_trans by auto
qed simp

text \<open>What an event of the hand does to the ledger and to the fence, which runs it answers, and that only a walk freezes a call.\<close>

definition walk_freezes :: "(number \<Rightarrow> string) \<Rightarrow> (nat \<Rightarrow> hand_link) \<Rightarrow> hand_event \<Rightarrow> hand_sys \<Rightarrow> ledger_step_input list \<Rightarrow> bool" where
  "walk_freezes num_text links ev s xs \<longleftrightarrow> (\<exists>i executionId t invoke steps guard. ev = HvWalk i executionId t \<and>
     map_of (hp_walks (hs_procs s i)) executionId = Some (invoke, WalkSteps (StepFreeze # steps)) \<and>
     xs = [freeze_input (hl_options (links i)) num_text t invoke guard])"

abbreviation fence_of :: "hand_sys \<Rightarrow> epoch_floor obj \<times> medium_state" where
  "fence_of s \<equiv> (hs_floors s, hs_store s)"

lemma hand_step_effect:
  assumes "hand_step num_text parse links ev s = (out, s')"
  shows "\<exists>xs outs. ledger_trace xs (hs_store s) = (outs, hs_store s') \<and>
    (\<forall>k. length (filter (runs_call links k) out) \<le> length (starts_of k outs)) \<and>
    (obj_wf (ms_documents (hs_store s)) \<longrightarrow> fence_step (fence_of s) (fence_of s')) \<and>
    (list_all (\<lambda>x. freezes x = None) xs \<or> walk_freezes num_text links ev s xs)"
proof -
  have quiet: "obj_wf (ms_documents (hs_store s)) \<Longrightarrow> fence_step (fence_of s) (fence_of s')"
    if "hs_floors s' = hs_floors s" "floors_kept (hs_store s) (hs_store s')"
    unfolding that(1) using that(2) by (intro fence_other) (auto simp: floors_kept_def)
  have none: ?thesis if "hs_store s' = hs_store s" "hs_floors s' = hs_floors s" "\<And>k. filter (runs_call links k) out = []"
    using that quiet by (intro exI [of _ "[]"]) simp
  have many: ?thesis if "ledger_trace xs (hs_store s) = (outs, hs_store s')" "list_all ledger_only xs"
    "list_all (\<lambda>x. freezes x = None) xs \<or> walk_freezes num_text links ev s xs"
    "hs_floors s' = hs_floors s" "\<And>k. filter (runs_call links k) out = []" for xs outs
    using that quiet ledger_trace_floors_kept [OF that(1,2)] by (intro exI [of _ xs]) simp
  have one: ?thesis if "ledger_step x (hs_store s) = (outs, hs_store s')" "ledger_only x" "freezes x = None \<or> walk_freezes num_text links ev s [x]"
    "hs_floors s' = hs_floors s" "\<And>k. filter (runs_call links k) out = []" for x outs
    by (rule many [of "[x]"]) (use that in auto)
  show ?thesis
  proof (cases ev)
    case (HvInvoke i invoke)
    then show ?thesis using assms by (intro none) (auto simp: hand_admit_def split: if_splits)
  next
    case (HvWalk i executionId t)
    show ?thesis
    proof (cases "map_of (hp_walks (hs_procs s i)) executionId")
      case None
      then show ?thesis using assms HvWalk by (intro none) (auto simp: hand_walk_step_def)
    next
      case (Some w)
      obtain invoke walk where w: "w = (invoke, walk)" by (cases w)
      let ?opts = "hl_options (links i)"
      obtain a st1 where adv: "advance ?opts num_text parse t (fencedBy (link_admits (links i) (hs_floors s) invoke)) invoke walk (hs_store s) = (a, st1)"
        by fastforce
      have st: "hs_store s' = st1" "hs_floors s' = hs_floors s" and out: "out = (case a of Inl adm \<Rightarrow> [OutAdmission i invoke adm] | Inr _ \<Rightarrow> [])"
        using assms HvWalk Some w adv by (auto simp: hand_walk_step_def walk_invoke_def split: sum.splits)
      have not_run: "filter (runs_call links k) out = []" if "a \<noteq> Inl (Inr HandRun)" for k using that out by (auto split: sum.splits)
      from adv show ?thesis
      proof (cases rule: advance_step)
        case none0: none
        then show ?thesis using st not_run by (intro none) auto
      next
        case (moved x outs)
        have "freezes x = None \<or> walk_freezes num_text links ev s [x]" using moved(4) HvWalk Some w by (auto simp: walk_freezes_def)
        then show ?thesis using st not_run moved by (intro one [of x outs]) auto
      next
        case (run e c)
        let ?key = "(ho_issuer ?opts, ri_executionId invoke)"
        have "starts_body (EvDispatch, Applied e)" using run(4) by simp
        then have count: "\<forall>k. length (filter (runs_call links k) out) \<le> length (starts_of k [(?key, EvDispatch, Applied e)])"
          using run(3) out by simp
        have "floors_kept (hs_store s) (hs_store s')" using ledger_step_floors_kept [OF run(5)] st(1) by simp
        then have "obj_wf (ms_documents (hs_store s)) \<longrightarrow> fence_step (fence_of s) (fence_of s')" using quiet st(2) by blast
        moreover have "ledger_trace [hand_input ?opts t (ri_executionId invoke) EvDispatch (ho_executor ?opts) None] (hs_store s) =
            ([(?key, EvDispatch, Applied e)], hs_store s')" using run(5) st(1) by simp
        moreover have "list_all (\<lambda>x. freezes x = None) [hand_input ?opts t (ri_executionId invoke) EvDispatch (ho_executor ?opts) None]"
          by (simp add: freezes_hand_input)
        ultimately show ?thesis using count by blast
      qed
    qed
  next
    case (HvSettle i executionId result t)
    obtain x st1 where a: "hand_apply (hl_options (links i)) t (hs_store s) executionId (EvResult (SStr (json_text num_text result)))
        (ho_executor (hl_options (links i))) None = (x, st1)" by fastforce
    have o: "hs_store s' = st1" "hs_floors s' = hs_floors s" "\<And>k. filter (runs_call links k) out = []" using assms HvSettle a by (auto simp: hand_settle_def)
    show ?thesis by (rule one [OF hand_input_step [OF a, folded o(1)] ledger_only_hand_input _ o(2,3)]) (simp add: freezes_hand_input)
  next
    case (HvAck i executionId lane epoch t)
    obtain x st1 where a: "hand_apply (hl_options (links i)) t (hs_store s) executionId EvAck (ho_issuer (hl_options (links i)))
        (fencedBy (Some (fence_admits (hs_floors s) lane epoch (hl_sender (links i))))) = (x, st1)" by fastforce
    have o: "hs_store s' = st1" "hs_floors s' = hs_floors s" "\<And>k. filter (runs_call links k) out = []" using assms HvAck a by (auto simp: hand_ack_def)
    show ?thesis by (rule one [OF hand_input_step [OF a, folded o(1)] ledger_only_hand_input _ o(2,3)]) (simp add: freezes_hand_input)
  next
    case (HvRaise i scope epoch ownerOf t)
    show ?thesis
    proof (cases "isEpoch epoch")
      case True
      obtain r floors st1 where a: "raiseNow (ht_seam t) (Some (ht_epoch t)) ownerOf (hs_floors s, hs_store s) scope epoch (hl_sender (links i)) = (r, floors, st1)"
        by (metis prod_cases3)
      have o: "hs_store s' = st1" "hs_floors s' = floors" "\<And>k. filter (runs_call links k) out = []" using assms HvRaise True a by auto
      have f: "fence_step (fence_of s) (fence_of s')" unfolding o(1,2) by (rule fence_raise [OF True a])
      from raise_step [OF a] obtain xs where "ledger_trace xs (hs_store s) = ([], st1)" "list_all (\<lambda>x. freezes x = None) xs"
      proof (elim disjE exE conjE)
        fix ws assume "list_all (foreign_write ledger_PREFIX) ws" "st1 = fst (snd (commitSync (ht_seam t) (hs_store s) (ht_epoch t) ws))"
        then show thesis by (intro that [of "[(ht_seam t, ht_epoch t, ht_mint t, LOther ws)]"]) simp_all
      qed (use that [of "[]"] in simp)
      then show ?thesis using o f by (intro exI [of _ xs] exI [of _ "[]"]) simp
    qed (use assms HvRaise none in auto)
  next
    case (HvRecover i ep now mids)
    show ?thesis
    proof (cases "hp_recovered (hs_procs s i)")
      case None
      obtain r st1 where a: "recover_rows ep now mids 0 (documentsOf (hs_store s) ledger_PREFIX) (hs_store s) = (r, st1)" by fastforce
      have o: "hs_store s' = st1" "hs_floors s' = hs_floors s" "\<And>k. filter (runs_call links k) out = []"
        using assms HvRecover None a by (auto simp: hand_recover_def ledger_recover_def)
      show ?thesis using recover_rows_trace [OF a] many [OF _ _ _ o(2,3)] o(1) by (auto simp: list_all_iff)
    qed (use assms HvRecover none in \<open>auto simp: hand_recover_def\<close>)
  next
    case (HvRecoverCut n ep now mids)
    obtain r st1 where a: "recover_rows ep now mids 0 (take n (documentsOf (hs_store s) ledger_PREFIX)) (hs_store s) = (r, st1)" by fastforce
    have o: "hs_store s' = st1" "hs_floors s' = hs_floors s" "\<And>k. filter (runs_call links k) out = []" using assms HvRecoverCut a by auto
    show ?thesis using recover_rows_trace [OF a] many [OF _ _ _ o(2,3)] o(1) by (auto simp: list_all_iff)
  next
    case HvRestart
    show ?thesis
    proof (cases "fence_ready (hs_store s)")
      case (Inr floors)
      then have "fence_step (fence_of s) (fence_of s')" "hs_store s' = hs_store s" "out = []" using assms HvRestart fence_restart by auto
      then show ?thesis by (intro exI [of _ "[]"]) simp
    qed (use assms HvRestart none in auto)
  next
    case (HvOther ws t)
    show ?thesis
    proof (cases "foreign_to_hand ws")
      case True
      then have x: "ledger_step (ht_seam t, ht_epoch t, ht_mint t, LOther ws) (hs_store s) = ([], hs_store s')" "out = []"
        using assms HvOther by (auto simp: foreign_to_hand_def)
      have "fence_step (fence_of s) (fence_of s')" if "obj_wf (ms_documents (hs_store s))"
        using that commit_floors_kept True assms HvOther by (intro quiet) (auto simp: foreign_to_hand_def)
      then show ?thesis using x by (intro exI [of _ "[(ht_seam t, ht_epoch t, ht_mint t, LOther ws)]"] exI [of _ "[]"]) (simp del: ledger_step.simps)
    qed (use assms HvOther none in auto)
  qed
qed

interpretation hand_once: once_per_key "hand_step num_text parse links" "\<lambda>s. ledger_inv (hs_store s)" "\<lambda>s. body_started (hs_store s)" "runs_call links"
  for num_text parse links
proof (unfold_locales, goal_cases)
  case (1 s e out s')
  then show ?case using hand_step_effect [OF 1(2)] ledger_once.inv_run by blast
next
  case (2 s e out s' k)
  then show ?case using hand_step_effect [OF 2(2)] ledger_once.started_run by blast
next
  case (3 s e out s' k)
  obtain xs outs where t: "ledger_trace xs (hs_store s) = (outs, hs_store s')" "length (filter (runs_call links k) out) \<le> length (starts_of k outs)"
    using hand_step_effect [OF 3(2)] by blast
  then show ?case using ledger_trace_invariant [OF 3(1) t(1), of k] by (auto split: if_splits)
next
  case (4 s e out s' k)
  obtain xs outs where t: "ledger_trace xs (hs_store s) = (outs, hs_store s')" "length (filter (runs_call links k) out) \<le> length (starts_of k outs)"
    using hand_step_effect [OF 4(2)] by blast
  have "starts_of k outs \<noteq> []" using t(2) 4(3) by auto
  then show ?case using ledger_once.started_after [OF 4(1) t(1)] by blast
qed

text \<open>C14. A hand runs a call at most once: over any interleaving of invokes redelivered on any links, walk steps, settlements, acks,
  floor raises, recoveries, other writes and crashes at any write point, at most one walk of an execution id is told to run it,
  and none once its record says that it was dispatched.\<close>

theorem hand_runs_once:
  assumes "ledger_inv (hs_store s)" "hand_trace num_text parse links evs s = (outs, s')"
  shows "ledger_inv (hs_store s') \<and> length (filter (runs_call links k) outs) \<le> 1 \<and>
    (body_started (hs_store s) k \<longrightarrow> filter (runs_call links k) outs = [])"
  using hand_once.inv_run [OF assms] hand_once.at_most_once [OF assms, of k] by (auto split: if_splits)

section \<open>A superseded owner runs nothing\<close>

lemma hand_step_fence:
  assumes "fence_inv (fence_of s)" "hand_step num_text parse links ev s = (out, s')"
  shows "fence_inv (fence_of s') \<and> floors_grow (hs_floors s) (hs_floors s')"
proof -
  have "obj_wf (ms_documents (hs_store s))" using assms(1) by (simp add: fence_inv_def)
  then have "fence_step (fence_of s) (fence_of s')" using hand_step_effect [OF assms(2)] by blast
  from fence_step_inv [OF this assms(1)] show ?thesis by simp
qed

interpretation hand_fence: kept_invariant "hand_step num_text parse links" "\<lambda>s. fence_inv (fence_of s)" for num_text parse links
  by unfold_locales (use hand_step_fence in blast)

lemma hand_trace_grow:
  "fence_inv (fence_of s) \<Longrightarrow> hand_trace num_text parse links evs s = (outs, s') \<Longrightarrow> floors_grow (hs_floors s) (hs_floors s')"
proof (induction evs arbitrary: s outs)
  case Nil
  then show ?case by (auto simp: floors_grow_def)
next
  case (Cons ev evs)
  obtain out s1 outs' where c: "hand_step num_text parse links ev s = (out, s1)" "hand_trace num_text parse links evs s1 = (outs', s')" "outs = out @ outs'"
    by (rule run_steps_Cons [OF Cons.prems(2)])
  show ?case using hand_step_fence [OF Cons.prems(1) c(1)] Cons.IH [OF _ c(2)] floors_grow_trans by blast
qed

lemma floors_growD:
  assumes "floors_grow floors floors'" "map_of floors scope = Some f"
  obtains f' where "map_of floors' scope = Some f'" "f' = f \<or> num_lt (fl_epoch f) (fl_epoch f')"
  using assms unfolding floors_grow_def by blast

text \<open>A walk is only told to run while the fence admits its sender.\<close>

lemma run_admitted:
  assumes "hand_step num_text parse links ev s = (out, s')" "OutAdmission j invoke (Inr HandRun) \<in> set out"
  shows "fence_admits (hs_floors s) (ri_scopeId invoke) (ri_epoch invoke) (hl_sender (links j))"
proof (cases ev)
  case (HvInvoke i invoke')
  then show ?thesis using assms by (auto simp: hand_admit_def split: if_splits)
next
  case (HvWalk i executionId t)
  have "map_of (hp_walks (hs_procs s i)) executionId \<noteq> None" using assms HvWalk by (auto simp: walk_invoke_def split: prod.splits option.splits)
  then obtain invoke' walk where w: "map_of (hp_walks (hs_procs s i)) executionId = Some (invoke', walk)" by auto
  obtain a st1 where adv: "advance (hl_options (links i)) num_text parse t (fencedBy (link_admits (links i) (hs_floors s) invoke')) invoke' walk (hs_store s) = (a, st1)"
    by fastforce
  have "i = j" "invoke' = invoke" "a = Inl (Inr HandRun)"
    using assms HvWalk w adv by (auto simp: hand_walk_step_def walk_invoke_def split: sum.splits)
  from adv this(3) have "fencedBy (link_admits (links i) (hs_floors s) invoke') = None" by (cases rule: advance_step) auto
  then show ?thesis using \<open>i = j\<close> \<open>invoke' = invoke\<close> by (auto simp: fencedBy_def link_admits_def split: if_splits)
qed (use assms in \<open>auto split: sum.splits prod.splits if_splits\<close>)

lemma acked_floor:
  assumes "fence_inv (fence_of s)" "hand_step num_text parse links ev s = (out, s')" "OutFloor i scope epoch (Inr (FloorAcked a)) \<in> set out" "num_eq a epoch"
  shows "isEpoch epoch \<and> map_of (hs_floors s') scope = Some \<lparr>fl_epoch = epoch, fl_owner = hl_sender (links i)\<rparr>"
proof (cases ev)
  case (HvInvoke j invoke)
  then show ?thesis using assms by (auto simp: hand_admit_def split: if_splits)
next
  case (HvRaise j scope' epoch' ownerOf t)
  then have e: "isEpoch epoch" "j = i" "scope' = scope" "epoch' = epoch" using assms by (auto split: prod.splits if_splits)
  have r: "raiseNow (ht_seam t) (Some (ht_epoch t)) ownerOf (hs_floors s, hs_store s) scope epoch (hl_sender (links i)) = (Inr (FloorAcked a), hs_floors s', hs_store s')"
    using assms HvRaise e by (auto split: prod.splits)
  from assms(1) e(1) r show ?thesis
  proof (cases rule: raise_cases)
    case same
    then show ?thesis using assms(4) e(1) by simp
  next
    case (raised f)
    then show ?thesis using e(1) by auto
  qed
qed (use assms in \<open>auto split: sum.splits prod.splits if_splits option.splits\<close>)

text \<open>C15. After a session moved, its old owner runs nothing on the hand: once the hand acked the new owner's floor on a scope, every call it
  is later told to run on that scope is the new owner's, or one of a still newer epoch, however the old owner's invokes were delayed, wherever
  their walks stood, and whatever crashed, failed or restarted in between.\<close>

theorem moved_session_fenced:
  assumes "fence_start (hs_store s0)" "hs_floors s0 = []"
    and "hand_trace num_text parse links evs s0 = (outs, s1)" "OutFloor i scope epoch (Inr (FloorAcked a)) \<in> set outs" "num_eq a epoch"
    and "hand_trace num_text parse links later s1 = (outs', s2)" "OutAdmission j invoke (Inr HandRun) \<in> set outs'" "ri_scopeId invoke = scope"
  shows "\<exists>n. ri_epoch invoke = Some n \<and> (num_lt epoch n \<or> (num_eq n epoch \<and> hl_sender (links j) = hl_sender (links i)))"
proof -
  have inv0: "fence_inv (fence_of s0)" using fence_start_inv [OF assms(1)] assms(2) by simp
  obtain fs e gs t1 out t2 outs1 outs2 where r: "evs = fs @ e # gs" "hand_trace num_text parse links fs s0 = (outs1, t1)"
      "hand_step num_text parse links e t1 = (out, t2)" "OutFloor i scope epoch (Inr (FloorAcked a)) \<in> set out" "fence_inv (fence_of t1)"
      "hand_trace num_text parse links gs t2 = (outs2, s1)"
    by (rule hand_fence.run_out [OF inv0 assms(3,4)])
  note floor = acked_floor [OF r(5,3,4) assms(5)]
  have inv2: "fence_inv (fence_of t2)" using hand_step_fence [OF r(5,3)] by blast
  have inv1: "fence_inv (fence_of s1)" by (rule hand_fence.inv_run [OF inv0 assms(3)])
  obtain fs' e' gs' u1 out' u2 outs1' outs2' where l: "later = fs' @ e' # gs'" "hand_trace num_text parse links fs' s1 = (outs1', u1)"
      "hand_step num_text parse links e' u1 = (out', u2)" "OutAdmission j invoke (Inr HandRun) \<in> set out'" "fence_inv (fence_of u1)"
      "hand_trace num_text parse links gs' u2 = (outs2', s2)"
    by (rule hand_fence.run_out [OF inv1 assms(6,7)])
  have g: "floors_grow (hs_floors t2) (hs_floors u1)"
    using hand_trace_grow [OF inv2 r(6)] hand_trace_grow [OF inv1 l(2)] floors_grow_trans by blast
  obtain f where f0: "map_of (hs_floors u1) scope = Some f"
      "f = \<lparr>fl_epoch = epoch, fl_owner = hl_sender (links i)\<rparr> \<or> num_lt (fl_epoch \<lparr>fl_epoch = epoch, fl_owner = hl_sender (links i)\<rparr>) (fl_epoch f)"
    by (rule floors_growD [OF g conjunct2 [OF floor]])
  note f = f0 [simplified epoch_floor.simps]
  have "fence_admits (hs_floors u1) scope (ri_epoch invoke) (hl_sender (links j))" using run_admitted [OF l(3,4)] assms(8) by simp
  then have "num_lt (fl_epoch f) (case ri_epoch invoke of Some n \<Rightarrow> n | None \<Rightarrow> Fin 0) \<or>
      (num_eq (case ri_epoch invoke of Some n \<Rightarrow> n | None \<Rightarrow> Fin 0) (fl_epoch f) \<and> fl_owner f = hl_sender (links j))"
    using f(1) by (simp add: fence_admits_def Let_def)
  from admitted_above [OF _ this f(2)] floor show ?thesis by (auto simp: isEpoch_int)
qed

end
