(* ===== verification/Hand_Frozen.thy ===== *)
theory Hand_Frozen
  imports Hand_Correct
begin

text \<open>
  What a hand runs is what it recorded: a call that is told to run has in its row exactly the name and arguments of the
  invoke that runs it, in the invoke's scope. A redelivered invoke that names something else under the same execution id is
  refused, also when it resumes a call that survived a restart.
\<close>

section \<open>Rows hold what was frozen for their request\<close>

lemma json_fin_asStoreValue: "json_fin (asStoreValue v)"
  by (cases v) auto

text \<open>The digest of a frozen call determines it.\<close>

lemma frozen_digest_inj:
  assumes "num_text_ok num_text" "fc_digest (frozen_of num_text a) = fc_digest (frozen_of num_text b)"
  shows "frozen_of num_text a = frozen_of num_text b"
proof -
  have "SList [SStr (ri_name a), asStoreValue (ri_arguments a)] = SList [SStr (ri_name b), asStoreValue (ri_arguments b)]"
    by (rule json_text_inj [OF assms(1)]) (use assms(2) json_fin_asStoreValue in \<open>simp_all add: frozen_of_def Let_def\<close>)
  then show ?thesis by (simp add: frozen_of_def Let_def)
qed

definition row_frozen :: "(number \<Rightarrow> string) \<Rightarrow> execution_entry \<Rightarrow> bool" where
  "row_frozen num_text e \<longleftrightarrow> (\<forall>c. progress_call (e_progress e) = Some c \<longrightarrow> fc_digest c = e_requestDigest e \<and> (\<exists>invoke. c = frozen_of num_text invoke))"

definition rows_frozen :: "(number \<Rightarrow> string) \<Rightarrow> medium_state \<Rightarrow> bool" where
  "rows_frozen num_text st \<longleftrightarrow> (\<forall>k e. ledger_read st k = Inr (Some e) \<longrightarrow> row_frozen num_text e)"

text \<open>Only a freeze puts a call into a row.\<close>

lemma transition_call:
  assumes "transitionExecution e c = Applied e'" "progress_call (e_progress e') = Some f"
  shows "progress_call (e_progress e) = Some f \<or> (\<exists>awaiting. cmd_event c = EvFreeze f awaiting)"
  using assms(1)
proof (cases rule: transition_Applied_cases)
  case (acked out)
  then show ?thesis using assms(2) by simp
next
  case (ended reason)
  then show ?thesis using assms(2) by (auto simp: settle_entry_def advance_entry_def split: execution_progress.splits)
next
  case live
  then show ?thesis using assms(2) by (cases "(e, cmd_now c, cmd_event c)" rule: transition_live.cases)
    (auto simp: advance_entry_def replayed_reply_def settle_entry_def recover_entry_def Let_def split: if_splits option.splits execution_progress.splits)
qed

lemma rows_frozen_same:
  assumes "\<And>k. ledger_read st' k = ledger_read st k"
  shows "rows_frozen num_text st' = rows_frozen num_text st"
  using assms by (simp add: rows_frozen_def)

lemma rows_frozen_step:
  assumes inv: "ledger_inv st" and rows: "rows_frozen num_text st" and step: "ledger_step x st = (out, st')"
    and freeze: "\<And>call. freezes x = Some call \<Longrightarrow> (\<exists>invoke. call = frozen_of num_text invoke) \<and>
      (\<forall>seam ep mid c guard e. x = (seam, ep, mid, LApply c guard) \<longrightarrow> ledger_read st (cmd_issuer c, cmd_commandId c) = Inr (Some e) \<longrightarrow> e_requestDigest e = fc_digest call)"
  shows "rows_frozen num_text st'"
  using inv step
proof (cases rule: ledger_step_cases)
  case same
  then have "ledger_read st' k = ledger_read st k" for k by (intro rows_unchanged(2))
  then show ?thesis using rows rows_frozen_same by blast
next
  case (fresh e)
  then show ?thesis using rows by (auto simp: rows_frozen_def row_stored(2) [OF fresh(5,1)] row_frozen_def)
next
  case (moved c e e' seam ep mid guard)
  have e: "row_frozen num_text e" using rows moved(1) by (simp add: rows_frozen_def)
  have digest: "e_requestDigest e' = e_requestDigest e" using transition_same_admission [OF moved(4)] by (simp add: same_admission_def)
  have "row_frozen num_text e'"
    unfolding row_frozen_def
  proof (intro allI impI)
    fix f assume f: "progress_call (e_progress e') = Some f"
    from transition_call [OF moved(4) f] show "fc_digest f = e_requestDigest e' \<and> (\<exists>invoke. f = frozen_of num_text invoke)"
    proof
      assume "progress_call (e_progress e) = Some f"
      then show ?thesis using e digest by (simp add: row_frozen_def)
    next
      assume "\<exists>awaiting. cmd_event c = EvFreeze f awaiting"
      then have "freezes x = Some f" using moved(7) by auto
      then show ?thesis using freeze [of f] moved(1,7,8) digest by auto
    qed
  qed
  then show ?thesis using rows by (auto simp: rows_frozen_def row_stored(2) [OF moved(5,3)])
qed

lemma rows_frozen_trace:
  "ledger_inv st \<Longrightarrow> rows_frozen num_text st \<Longrightarrow> ledger_trace xs st = (outs, st') \<Longrightarrow> list_all (\<lambda>x. freezes x = None) xs \<Longrightarrow> rows_frozen num_text st'"
proof (induction xs arbitrary: st outs)
  case (Cons x xs)
  obtain out st1 outs' where c: "ledger_step x st = (out, st1)" "ledger_trace xs st1 = (outs', st')" "outs = out @ outs'"
    by (rule run_steps_Cons [OF Cons.prems(3)])
  have "rows_frozen num_text st1" by (rule rows_frozen_step [OF Cons.prems(1,2) c(1)]) (use Cons.prems(4) in auto)
  then show ?case using Cons.IH [OF ledger_step_inv [OF Cons.prems(1) c(1)] _ c(2)] Cons.prems(4) by simp
qed simp

section \<open>A walk past its admission is bound to its row\<close>

fun past_admission :: "hand_walk \<Rightarrow> bool" where
  "past_admission (WalkSteps (StepAdmit # steps)) = False"
| "past_admission (WalkSteps _) = True"
| "past_admission WalkDispatch = True"
| "past_admission _ = False"

definition row_of_invoke :: "(number \<Rightarrow> string) \<Rightarrow> hand_options \<Rightarrow> medium_state \<Rightarrow> remote_invoke \<Rightarrow> bool" where
  "row_of_invoke num_text opts st invoke \<longleftrightarrow> (\<exists>e. ledger_read st (ho_issuer opts, ri_executionId invoke) = Inr (Some e) \<and>
     e_requestDigest e = fc_digest (frozen_of num_text invoke) \<and> e_scope e = ri_scopeId invoke)"

lemma row_of_invoke_trace:
  assumes "ledger_inv st" "ledger_trace xs st = (outs, st')" "row_of_invoke num_text opts st invoke"
  shows "row_of_invoke num_text opts st' invoke"
proof -
  obtain e where e: "ledger_read st (ho_issuer opts, ri_executionId invoke) = Inr (Some e)" "e_requestDigest e = fc_digest (frozen_of num_text invoke)"
      "e_scope e = ri_scopeId invoke" using assms(3) by (auto simp: row_of_invoke_def)
  from admission_kept [OF assms(1,2) e(1)] e(2,3) show ?thesis by (auto simp: row_of_invoke_def same_admission_def)
qed

lemma admitNew_row:
  assumes "admitNew opts t st invoke (fc_digest (frozen_of num_text invoke)) guard = (Inr reply, st')" "reply = Applied e \<or> reply = Replayed e"
    and "ledger_inv st"
  shows "row_of_invoke num_text opts st' invoke"
proof -
  let ?in = "hand_admission_of opts (ht_now t) invoke (fc_digest (frozen_of num_text invoke))"
  have key: "(e_issuer ?in, e_commandId ?in) = (ho_issuer opts, ri_executionId invoke)" "e_scope ?in = ri_scopeId invoke"
    "e_requestDigest ?in = fc_digest (frozen_of num_text invoke)" by (simp_all add: hand_admission_of_def)
  have g: "guard = None" using assms(1,2) by (cases guard) (auto simp: admitNew_def ledger_admit_def)
  show ?thesis
  proof (cases "ledger_read st (ho_issuer opts, ri_executionId invoke)")
    case (Inl e)
    then show ?thesis using assms(1) g key(1) by (simp add: admitNew_def ledger_admit_def)
  next
    case (Inr prior)
    show ?thesis
    proof (cases prior)
      case (Some p)
      then have "st' = st" "sameAdmission p ?in" using assms(1,2) g key(1) Inr by (auto simp: admitNew_def ledger_admit_def split: if_splits)
      then show ?thesis using Some Inr key by (auto simp: row_of_invoke_def sameAdmission_def)
    next
      case None
      then have valid: "\<not> admissionInvalid ?in" using assms(1,2) g key(1) Inr by (auto simp: admitNew_def ledger_admit_def split: if_splits)
      let ?e = "admittedEntry ?in"
      have c: "commit_then (ht_seam t) st (ht_epoch t) (persist_writes (ht_mint t) ?e ''admit'' False) (Applied ?e) = (Inr reply, st')"
        using assms(1) g key(1) Inr None valid by (simp add: admitNew_def ledger_admit_def Let_def)
      have k: "(e_issuer ?e, e_commandId ?e) = (ho_issuer opts, ri_executionId invoke)" "e_requestDigest ?e = fc_digest (frozen_of num_text invoke)" "e_scope ?e = ri_scopeId invoke"
        using key by (simp_all add: admittedEntry_def execution_admission.defs execution_entry.defs)
      have "getDocument st' = (getDocument st)(ledger_keyOf (e_issuer ?e, e_commandId ?e) \<mapsto> entry_value ?e)" using commit_row_cases [OF c] by auto
      from row_stored(2) [OF this admitted_wf [OF valid], of "(ho_issuer opts, ri_executionId invoke)"] k show ?thesis by (auto simp: row_of_invoke_def)
    qed
  qed
qed

lemma walk_after_past:
  assumes "walk_after num_text parse executionId steps reply = Inr walk'" "past_admission walk'"
  shows "\<exists>e. reply = Applied e \<or> reply = Replayed e"
  using assms by (cases reply) (auto simp: walk_after_def walk_reply_def Let_def split: if_splits)

lemma walk_from_prior_past:
  assumes "walk_from_prior num_text parse invoke prior = Inr walk'" "past_admission walk'" "ledger_read st (ho_issuer opts, ri_executionId invoke) = Inr prior"
  shows "row_of_invoke num_text opts st invoke"
  using assms by (cases prior)
    (auto simp: walk_from_prior_def walk_reply_def fromStart_def row_of_invoke_def Let_def split: if_splits sum.splits option.splits execution_progress.splits)

lemma advance_past:
  assumes "advance opts num_text parse t guard invoke walk st = (Inr walk', st')" "past_admission walk'" "ledger_inv st"
    and "past_admission walk \<Longrightarrow> row_of_invoke num_text opts st' invoke"
  shows "row_of_invoke num_text opts st' invoke"
proof (cases "(opts, num_text, parse, t, guard, invoke, walk, st)" rule: advance.cases)
  case (1 opts' num_text' parse' t' guard' invoke' st0)
  then show ?thesis using assms(1,2) walk_from_prior_past by (auto split: sum.splits)
next
  case (3 opts' num_text' parse' t' guard' invoke' step steps st0)
  obtain x where r: "hand_run_step opts num_text t st invoke guard step = (x, st')" using 3 assms(1) by (auto split: prod.splits sum.splits)
  then obtain reply where reply: "x = Inr reply" "walk_after num_text parse (ri_executionId invoke) steps reply = Inr walk'"
    using 3 assms(1) by (auto split: sum.splits)
  note past = walk_after_past [OF reply(2) assms(2)]
  show ?thesis
  proof (cases "step = StepAdmit")
    case True
    then show ?thesis using r reply(1) past assms(3) admitNew_row by (auto simp: hand_run_step_def Let_def)
  next
    case False
    then have "past_admission walk" using 3 by (cases step) auto
    then show ?thesis by (rule assms(4))
  qed
next
  case (4 opts' num_text' parse' t' guard' invoke' st0)
  then show ?thesis using assms(4) by simp
qed (use assms in \<open>auto simp: fenced_reply_def walk_reply_def split: prod.splits sum.splits option.splits\<close>)

definition walks_bound :: "(number \<Rightarrow> string) \<Rightarrow> (nat \<Rightarrow> hand_link) \<Rightarrow> hand_sys \<Rightarrow> bool" where
  "walks_bound num_text links s \<longleftrightarrow> (\<forall>i executionId invoke walk. map_of (hp_walks (hs_procs s i)) executionId = Some (invoke, walk) \<longrightarrow>
     past_admission walk \<longrightarrow> row_of_invoke num_text (hl_options (links i)) (hs_store s) invoke)"

definition hand_inv :: "(number \<Rightarrow> string) \<Rightarrow> (nat \<Rightarrow> hand_link) \<Rightarrow> hand_sys \<Rightarrow> bool" where
  "hand_inv num_text links s \<longleftrightarrow> ledger_inv (hs_store s) \<and> rows_frozen num_text (hs_store s) \<and> walks_bound num_text links s"

text \<open>The walks after an event: the ones there were, a new one before its admission, or one a step further.\<close>

lemma hand_step_walks:
  assumes "hand_step num_text parse links ev s = (out, s')" "map_of (hp_walks (hs_procs s' i)) executionId = Some (invoke, walk)"
  shows "map_of (hp_walks (hs_procs s i)) executionId = Some (invoke, walk) \<or> walk = WalkRead \<or>
    (\<exists>t walk0. ev = HvWalk i executionId t \<and> map_of (hp_walks (hs_procs s i)) executionId = Some (invoke, walk0) \<and>
      advance (hl_options (links i)) num_text parse t (fencedBy (link_admits (links i) (hs_floors s) invoke)) invoke walk0 (hs_store s) = (Inr walk, hs_store s'))"
proof (cases ev)
  case (HvInvoke j invoke')
  then show ?thesis using assms by (auto simp: hand_admit_def split: if_splits)
next
  case (HvWalk j id' t)
  show ?thesis
  proof (cases "map_of (hp_walks (hs_procs s j)) id'")
    case None
    then show ?thesis using assms HvWalk by (auto simp: hand_walk_step_def split: if_splits)
  next
    case (Some w)
    obtain invoke0 walk0 where w: "w = (invoke0, walk0)" by (cases w)
    obtain a st1 where adv: "advance (hl_options (links j)) num_text parse t (fencedBy (link_admits (links j) (hs_floors s) invoke0)) invoke0 walk0 (hs_store s) = (a, st1)"
      by fastforce
    show ?thesis using assms HvWalk Some w adv by (cases a) (auto simp: hand_walk_step_def split: if_splits)
  qed
next
  case (HvSettle j id' result t)
  then show ?thesis using assms by (auto simp: hand_settle_def split: prod.splits if_splits)
next
  case (HvRecover j ep now mids)
  then show ?thesis using assms by (auto simp: hand_recover_def split: prod.splits if_splits option.splits)
qed (use assms in \<open>auto simp: createHandLedger_def split: prod.splits sum.splits if_splits\<close>)

lemma hand_inv_step:
  assumes inv: "hand_inv num_text links s" and step: "hand_step num_text parse links ev s = (out, s')"
  shows "hand_inv num_text links s'"
proof -
  have l: "ledger_inv (hs_store s)" and r: "rows_frozen num_text (hs_store s)" and b: "walks_bound num_text links s" using inv by (auto simp: hand_inv_def)
  obtain xs outs where t: "ledger_trace xs (hs_store s) = (outs, hs_store s')"
    and f: "list_all (\<lambda>x. freezes x = None) xs \<or> walk_freezes num_text links ev s xs" using hand_step_effect [OF step] by blast
  have l': "ledger_inv (hs_store s')" by (rule ledger_once.inv_run [OF l t])
  from f have "rows_frozen num_text (hs_store s')"
  proof
    assume "list_all (\<lambda>x. freezes x = None) xs"
    then show ?thesis by (rule rows_frozen_trace [OF l r t])
  next
    assume "walk_freezes num_text links ev s xs"
    then obtain i executionId tk invoke steps guard where w: "ev = HvWalk i executionId tk"
        "map_of (hp_walks (hs_procs s i)) executionId = Some (invoke, WalkSteps (StepFreeze # steps))"
        "xs = [freeze_input (hl_options (links i)) num_text tk invoke guard]" by (auto simp: walk_freezes_def)
    let ?opts = "hl_options (links i)"
    have row: "row_of_invoke num_text ?opts (hs_store s) invoke" using b w(2) by (auto simp: walks_bound_def)
    have x: "ledger_step (freeze_input ?opts num_text tk invoke guard) (hs_store s) = (outs, hs_store s')" using t w(3) by (auto split: prod.splits)
    show ?thesis
      by (rule rows_frozen_step [OF l r x])
        (use row in \<open>auto simp: freeze_input_def freezes_hand_input hand_input_def hand_command_def row_of_invoke_def\<close>)
  qed
  moreover have "walks_bound num_text links s'"
    unfolding walks_bound_def
  proof (intro allI impI)
    fix i executionId invoke walk
    assume w: "map_of (hp_walks (hs_procs s' i)) executionId = Some (invoke, walk)" and past: "past_admission walk"
    have kept: "row_of_invoke num_text (hl_options (links i)) (hs_store s') invoke"
      if "map_of (hp_walks (hs_procs s i)) executionId = Some (invoke, walk0)" "past_admission walk0" for walk0
      using row_of_invoke_trace [OF l t] b that by (auto simp: walks_bound_def)
    from hand_step_walks [OF step w] show "row_of_invoke num_text (hl_options (links i)) (hs_store s') invoke"
    proof (elim disjE exE conjE)
      fix tk walk0 assume "map_of (hp_walks (hs_procs s i)) executionId = Some (invoke, walk0)"
        "advance (hl_options (links i)) num_text parse tk (fencedBy (link_admits (links i) (hs_floors s) invoke)) invoke walk0 (hs_store s) = (Inr walk, hs_store s')"
      then show ?thesis using advance_past [OF _ past l] kept by blast
    qed (use kept past in auto)
  qed
  ultimately show ?thesis using l' by (simp add: hand_inv_def)
qed

interpretation hand_rows: kept_invariant "hand_step num_text parse links" "hand_inv num_text links" for num_text parse links
  by unfold_locales (use hand_inv_step in blast)

text \<open>A hand that has just started on a store without calls.\<close>

definition hand_fresh :: "hand_sys \<Rightarrow> bool" where
  "hand_fresh s \<longleftrightarrow> hs_procs s = (\<lambda>_. createHandLedger) \<and> (\<forall>k. getDocument (hs_store s) (ledger_keyOf k) = None)"

lemma hand_fresh_inv: "hand_fresh s \<Longrightarrow> hand_inv num_text links s"
  by (auto simp: hand_fresh_def hand_inv_def ledger_inv_def rows_frozen_def ledger_read_def walks_bound_def createHandLedger_def)

lemma run_is_walk:
  assumes "hand_step num_text parse links ev s = (out, s')" "OutAdmission j invoke (Inr HandRun) \<in> set out"
  obtains executionId t e c where "map_of (hp_walks (hs_procs s j)) executionId = Some (invoke, WalkDispatch)" "e_progress e = Dispatched c"
    "ledger_step (hand_input (hl_options (links j)) t (ri_executionId invoke) EvDispatch (ho_executor (hl_options (links j))) None) (hs_store s) =
      ([((ho_issuer (hl_options (links j)), ri_executionId invoke), EvDispatch, Applied e)], hs_store s')"
proof (cases ev)
  case (HvInvoke i invoke')
  then show ?thesis using assms by (auto simp: hand_admit_def split: if_splits)
next
  case (HvWalk i executionId t)
  have "map_of (hp_walks (hs_procs s i)) executionId \<noteq> None" using assms HvWalk by (auto simp: walk_invoke_def split: prod.splits option.splits)
  then obtain invoke' walk where w: "map_of (hp_walks (hs_procs s i)) executionId = Some (invoke', walk)" by auto
  obtain a st1 where adv: "advance (hl_options (links i)) num_text parse t (fencedBy (link_admits (links i) (hs_floors s) invoke')) invoke' walk (hs_store s) = (a, st1)"
    by fastforce
  have eq: "i = j" "invoke' = invoke" "a = Inl (Inr HandRun)" "hs_store s' = st1"
    using assms HvWalk w adv by (auto simp: hand_walk_step_def walk_invoke_def split: sum.splits)
  from adv show ?thesis
  proof (cases rule: advance_step)
    case (run e c)
    then show ?thesis using that [of executionId e c t] w eq by auto
  qed (use eq in auto)
qed (use assms in \<open>auto split: sum.splits prod.splits if_splits\<close>)

text \<open>C16. What runs is what was recorded: in every history, when a walk is told to run its call, the durable row of that execution id has been
  dispatched with exactly the name and arguments of this invoke, in its scope; so a call resumed after a restart, or redelivered, never runs
  anything but what was frozen for it.\<close>

theorem run_is_what_was_frozen:
  assumes "num_text_ok num_text" "hand_fresh s0" "hand_trace num_text parse links evs s0 = (outs, s)"
    and "hand_step num_text parse links ev s = (out, s')" "OutAdmission j invoke (Inr HandRun) \<in> set out"
  shows "\<exists>e. ledger_read (hs_store s') (ho_issuer (hl_options (links j)), ri_executionId invoke) = Inr (Some e) \<and>
    e_progress e = Dispatched (frozen_of num_text invoke) \<and> e_bodyDispatched e \<and> e_scope e = ri_scopeId invoke"
proof -
  have inv: "hand_inv num_text links s" by (rule hand_rows.inv_run [OF hand_fresh_inv [OF assms(2)] assms(3)])
  have l: "ledger_inv (hs_store s)" using inv by (simp add: hand_inv_def)
  let ?opts = "hl_options (links j)" let ?key = "(ho_issuer ?opts, ri_executionId invoke)"
  obtain executionId t e c where w: "map_of (hp_walks (hs_procs s j)) executionId = Some (invoke, WalkDispatch)" and e: "e_progress e = Dispatched c"
    and step: "ledger_step (hand_input ?opts t (ri_executionId invoke) EvDispatch (ho_executor ?opts) None) (hs_store s) = ([(?key, EvDispatch, Applied e)], hs_store s')"
    by (rule run_is_walk [OF assms(4,5)])
  have row: "row_of_invoke num_text ?opts (hs_store s) invoke" using inv w by (auto simp: hand_inv_def walks_bound_def)
  have row': "row_of_invoke num_text ?opts (hs_store s') invoke" 
    using row_of_invoke_trace [OF l, of "[hand_input ?opts t (ri_executionId invoke) EvDispatch (ho_executor ?opts) None]"] row step by simp
  from l step have stored: "ledger_read (hs_store s') ?key = Inr (Some e) \<and> e_bodyDispatched e"
  proof (cases rule: ledger_step_cases)
    case (moved cmd e0 e' seam ep mid guard)
    then have "e' = e" "(e_issuer e, e_commandId e) = ?key" by auto
    moreover have "starts_body (cmd_event cmd, transitionExecution e0 cmd)" using moved(4,6) calculation e by (auto simp: starts_body_iff)
    then have "e_bodyDispatched (entry_after e0 cmd)" by (rule starts_body_step) simp
    then have "e_bodyDispatched e'" using moved(4) by (simp add: entry_after_def)
    ultimately show ?thesis using row_stored(2) [OF moved(5,3), of ?key] by simp
  next
    case same
    from same(2) [of ?key EvDispatch e] show ?thesis by simp
  qed simp
  have "rows_frozen num_text (hs_store s')" using hand_inv_step [OF inv assms(4)] by (simp add: hand_inv_def)
  then have "row_frozen num_text e" using stored by (auto simp: rows_frozen_def)
  then obtain inv' where c: "fc_digest c = e_requestDigest e" "c = frozen_of num_text inv'" using e by (auto simp: row_frozen_def)
  have "e_requestDigest e = fc_digest (frozen_of num_text invoke)" "e_scope e = ri_scopeId invoke" using row' stored by (auto simp: row_of_invoke_def)
  then have "c = frozen_of num_text invoke" using frozen_digest_inj [OF assms(1), of inv' invoke] c by simp
  then show ?thesis using stored e \<open>e_scope e = ri_scopeId invoke\<close> by auto
qed

end
