(* ===== verification/Hand_Outcome.thy ===== *)
theory Hand_Outcome
  imports Hand_Frozen
begin

text \<open>
  What a session gets from a hand: a new call that nothing refuses is walked to \<open>dispatched\<close> and told to run, and the answer
  of a settled call stays the same for every redelivery until it is acknowledged. The walk of the first part also serves as
  the concrete run behind the witnesses of the hand's other theorems.
\<close>

section \<open>A new call runs\<close>

text \<open>An uninterrupted walk, one tick for every await.\<close>

fun advance_run :: "hand_options \<Rightarrow> (number \<Rightarrow> string) \<Rightarrow> json_parser \<Rightarrow> hand_tick list \<Rightarrow> remote_invoke \<Rightarrow> hand_walk \<Rightarrow> medium_state \<Rightarrow>
    walk_outcome \<times> medium_state" where
  "advance_run opts num_text parse [] invoke walk st = (Inr walk, st)"
| "advance_run opts num_text parse (t # ts) invoke walk st =
     (case advance opts num_text parse t None invoke walk st of
        (Inr walk', st') \<Rightarrow> advance_run opts num_text parse ts invoke walk' st'
      | (Inl r, st') \<Rightarrow> (Inl r, st'))"

lemma hand_apply_moves:
  assumes "ledger_read st (ho_issuer opts, executionId) = Inr (Some e)"
    and "transitionExecution e (hand_command opts (ht_now t) executionId event actor) = Applied e'"
    and "entry_wf e" "(e_issuer e, e_commandId e) = (ho_issuer opts, executionId)"
    and "owned st (ht_epoch t)" "ht_mint t \<notin> log_ids st" "ht_seam t = (\<lambda>_. False)"
  obtains st' where "hand_apply opts t st executionId event actor None = (Inr (Applied e'), st')"
    "ledger_read st' (ho_issuer opts, executionId) = Inr (Some e')" "owned st' (ht_epoch t)" "log_ids st' = insert (ht_mint t) (log_ids st)"
proof -
  let ?ws = "persist_writes (ht_mint t) e' (event_kind event) False"
  have wf: "entry_wf e'" using transition_wf [OF assms(2,3)] .
  have k: "(e_issuer e', e_commandId e') = (ho_issuer opts, executionId)"
    using transition_same_admission [OF assms(2)] assms(4) by (simp add: same_admission_def)
  obtain kd where "appended ?ws = [(ht_mint t, kd)]" by (simp add: persist_writes_def)
  from commit_one_ok [OF assms(5,6) this, of "Applied e'"] obtain st' where c: "commit_then (\<lambda>_. False) st (ht_epoch t) ?ws (Applied e') = (Inr (Applied e'), st')"
      "getDocument st' = written ?ws (getDocument st)" "owned st' (ht_epoch t)" "log_ids st' = insert (ht_mint t) (log_ids st)" by blast
  have "getDocument st' = (getDocument st)(ledger_keyOf (e_issuer e', e_commandId e') \<mapsto> entry_value e')" using c(2) by (simp add: persist_writes_def)
  from row_stored(2) [OF this wf] have "ledger_read st' (ho_issuer opts, executionId) = Inr (Some e')" using k by simp
  moreover have "hand_apply opts t st executionId event actor None = (Inr (Applied e'), st')"
    using assms(1,2,7) c(1) by (simp add: hand_apply_def ledger_apply_def hand_command_def)
  ultimately show ?thesis using that c(3,4) by blast
qed

text \<open>Ticks on which nothing fails: the store's owner, fresh ids, and a clock inside the call's lease.\<close>

fun good_ticks :: "number \<Rightarrow> rat \<Rightarrow> rat \<Rightarrow> string set \<Rightarrow> hand_tick list \<Rightarrow> bool" where
  "good_ticks ep from until used [] = True"
| "good_ticks ep from until used (t # ts) =
     (ht_seam t = (\<lambda>_. False) \<and> ht_epoch t = ep \<and> ht_mint t \<notin> used \<and> (\<exists>n. ht_now t = Fin n \<and> from \<le> n \<and> n < until) \<and>
      good_ticks ep from until (insert (ht_mint t) used) ts)"

text \<open>The row of the call as the walk leaves it at each of its steps.\<close>

definition walked_entry :: "hand_options \<Rightarrow> (number \<Rightarrow> string) \<Rightarrow> rat \<Rightarrow> rat \<Rightarrow> remote_invoke \<Rightarrow> bool \<Rightarrow> bool \<Rightarrow> execution_progress \<Rightarrow> execution_entry" where
  "walked_entry opts num_text at_ms lease invoke effect body p =
     (admittedEntry (hand_admission_of opts (Fin at_ms) invoke (fc_digest (frozen_of num_text invoke))))
       \<lparr>e_leaseUntil := Fin (at_ms + lease), e_initialLeaseUntil := Fin (at_ms + lease), e_effectPossible := effect, e_bodyDispatched := body, e_progress := p\<rparr>"

lemmas walked_defs = walked_entry_def hand_admission_of_def admittedEntry_def execution_admission.defs execution_entry.defs GENERATION_def

lemma walked_key [simp]:
  "e_issuer (walked_entry opts num_text a l invoke ef b p) = ho_issuer opts" "e_commandId (walked_entry opts num_text a l invoke ef b p) = ri_executionId invoke"
  "e_progress (walked_entry opts num_text a l invoke ef b p) = p"
  by (simp_all add: walked_defs)

lemma walked_wf:
  assumes "0 < lease" "Fin lease = MAX_EXECUTION_LIFETIME_MS \<or> num_lt (Fin lease) MAX_EXECUTION_LIFETIME_MS" "progress_ok ef b (Fin (at_ms + lease)) p"
  shows "entry_wf (walked_entry opts num_text at_ms lease invoke ef b p)"
  using assms by (auto simp: walked_defs entry_wf_def MAX_EXECUTION_LIFETIME_MS_def max_safe_integer_def)

text \<open>The transitions of the walk inside the lease.\<close>

lemma walked_transitions:
  assumes "at_ms \<le> n" "n < at_ms + lease"
  shows "transitionExecution (walked_entry opts num_text at_ms lease invoke False False Admitted)
        (hand_command opts (Fin n) (ri_executionId invoke) EvPrepare (ho_executor opts)) = Applied (walked_entry opts num_text at_ms lease invoke False False Preparing)"
    and "transitionExecution (walked_entry opts num_text at_ms lease invoke False False Preparing)
        (hand_command opts (Fin n) (ri_executionId invoke) EvEffect (ho_executor opts)) = Applied (walked_entry opts num_text at_ms lease invoke True False Preparing)"
    and "transitionExecution (walked_entry opts num_text at_ms lease invoke True False Preparing)
        (hand_command opts (Fin n) (ri_executionId invoke) (EvFreeze c False) (ho_executor opts)) = Applied (walked_entry opts num_text at_ms lease invoke True False (Prepared c))"
    and "transitionExecution (walked_entry opts num_text at_ms lease invoke True False (Prepared c))
        (hand_command opts (Fin n) (ri_executionId invoke) EvRelease (ho_issuer opts)) = Applied (walked_entry opts num_text at_ms lease invoke True False (Released c))"
    and "transitionExecution (walked_entry opts num_text at_ms lease invoke True False (Released c))
        (hand_command opts (Fin n) (ri_executionId invoke) EvDispatch (ho_executor opts)) = Applied (walked_entry opts num_text at_ms lease invoke True True (Dispatched c))"
  using assms by (simp_all add: transitionExecution_def walked_defs hand_command_def advance_entry_def Let_def)

lemma walk_admits:
  assumes "ledger_read st (ho_issuer opts, ri_executionId invoke) = Inr None" "owned st (ht_epoch t)" "ht_mint t \<notin> log_ids st" "ht_seam t = (\<lambda>_. False)"
    and "ht_now t = Fin at_ms" "ho_leaseMs opts = Fin lease" "0 < lease" "Fin lease = MAX_EXECUTION_LIFETIME_MS \<or> num_lt (Fin lease) MAX_EXECUTION_LIFETIME_MS"
    and "list_all (\<lambda>x. x \<noteq> []) [ho_issuer opts, ri_executionId invoke, ho_executor opts, ho_workspace opts, ri_scopeId invoke]"
  obtains st' where "admitNew opts t st invoke (fc_digest (frozen_of num_text invoke)) None = (Inr (Applied (walked_entry opts num_text at_ms lease invoke False False Admitted)), st')"
    "ledger_read st' (ho_issuer opts, ri_executionId invoke) = Inr (Some (walked_entry opts num_text at_ms lease invoke False False Admitted))"
    "owned st' (ht_epoch t)" "log_ids st' = insert (ht_mint t) (log_ids st)"
proof -
  let ?in = "hand_admission_of opts (ht_now t) invoke (fc_digest (frozen_of num_text invoke))" let ?e = "walked_entry opts num_text at_ms lease invoke False False Admitted"
  have e: "admittedEntry ?in = ?e" using assms(5,6) by (simp add: walked_defs)
  have digest: "fc_digest (frozen_of num_text invoke) \<noteq> []" by (simp add: frozen_of_def Let_def)
  have valid: "\<not> admissionInvalid ?in"
    using assms(5-9) digest by (auto simp: admissionInvalid_def hand_admission_of_def GENERATION_def max_safe_integer_def MAX_EXECUTION_LIFETIME_MS_def)
  have wf: "entry_wf ?e" using assms(7,8) by (intro walked_wf) simp_all
  let ?ws = "persist_writes (ht_mint t) ?e ''admit'' False"
  obtain kd where "appended ?ws = [(ht_mint t, kd)]" by (simp add: persist_writes_def)
  from commit_one_ok [OF assms(2,3) this, of "Applied ?e"] obtain st' where c: "commit_then (\<lambda>_. False) st (ht_epoch t) ?ws (Applied ?e) = (Inr (Applied ?e), st')"
      "getDocument st' = written ?ws (getDocument st)" "owned st' (ht_epoch t)" "log_ids st' = insert (ht_mint t) (log_ids st)" by blast
  have "getDocument st' = (getDocument st)(ledger_keyOf (e_issuer ?e, e_commandId ?e) \<mapsto> entry_value ?e)" using c(2) by (simp add: persist_writes_def)
  from row_stored(2) [OF this wf] have "ledger_read st' (ho_issuer opts, ri_executionId invoke) = Inr (Some ?e)" by simp
  moreover have "admitNew opts t st invoke (fc_digest (frozen_of num_text invoke)) None = (Inr (Applied ?e), st')"
    using assms(1,4) c(1) e valid by (simp add: admitNew_def ledger_admit_def Let_def hand_admission_of_def)
  ultimately show ?thesis using that c(3,4) by blast
qed

lemma is_settled_simps [simp]: "\<not> is_settled Preparing" "\<not> is_settled Admitted" "\<not> is_settled (Prepared c)" "\<not> is_settled (Released c)"
  by simp_all

text \<open>One step of the walk on a row it moves.\<close>

lemma advance_moves:
  assumes "hand_run_step opts num_text t st invoke None step = (Inr (Applied e), st')" "\<not> is_settled (e_progress e)"
  shows "advance_run opts num_text parse (t # ts) invoke (WalkSteps (step # steps)) st =
    advance_run opts num_text parse ts invoke (if steps = [] then WalkDispatch else WalkSteps steps) st'"
  using assms by (simp add: walk_after_def Let_def)

definition call_ready :: "hand_options \<Rightarrow> rat \<Rightarrow> remote_invoke \<Rightarrow> bool" where
  "call_ready opts lease invoke \<longleftrightarrow> ho_leaseMs opts = Fin lease \<and> 0 < lease \<and>
     (Fin lease = MAX_EXECUTION_LIFETIME_MS \<or> num_lt (Fin lease) MAX_EXECUTION_LIFETIME_MS) \<and>
     list_all (\<lambda>x. x \<noteq> []) [ho_issuer opts, ri_executionId invoke, ho_executor opts, ho_workspace opts, ri_scopeId invoke]"

lemma fresh_call_walk:
  assumes "ledger_read st (ho_issuer opts, ri_executionId invoke) = Inr None" "owned st ep" "call_ready opts lease invoke"
    and "good_ticks ep at_ms (at_ms + lease) (log_ids st) [t1, t2, t3, t4, t5, t6]" "ht_now t1 = Fin at_ms"
  shows "\<exists>st'. advance_run opts num_text parse [t0, t1, t2, t3, t4, t5, t6] invoke WalkRead st = (Inl (Inr HandRun), st') \<and> owned st' ep \<and>
    ledger_read st' (ho_issuer opts, ri_executionId invoke) =
      Inr (Some (walked_entry opts num_text at_ms lease invoke True True (Dispatched (frozen_of num_text invoke))))"
proof -
  let ?key = "(ho_issuer opts, ri_executionId invoke)" let ?c = "frozen_of num_text invoke"
  let ?e = "walked_entry opts num_text at_ms lease invoke"
  let ?run = "advance_run opts num_text parse"
  note ready = assms(3) [unfolded call_ready_def]
  have ep: "ht_epoch t = ep" "ht_seam t = (\<lambda>_. False)" "\<exists>n. ht_now t = Fin n \<and> at_ms \<le> n \<and> n < at_ms + lease" if "t \<in> {t1, t2, t3, t4, t5, t6}" for t
    using assms(4) that by auto
  have start: "?run [t0, t1, t2, t3, t4, t5, t6] invoke WalkRead st = ?run [t1, t2, t3, t4, t5, t6] invoke (WalkSteps (fromStart @ [StepRelease])) st"
    using assms(1) by (simp add: walk_from_prior_def)
  obtain s1 where a: "admitNew opts t1 st invoke (fc_digest ?c) None = (Inr (Applied (?e False False Admitted)), s1)"
      "ledger_read s1 ?key = Inr (Some (?e False False Admitted))" "owned s1 (ht_epoch t1)" "log_ids s1 = insert (ht_mint t1) (log_ids st)"
  proof (rule walk_admits [OF assms(1), of t1 at_ms lease num_text])
    show "owned st (ht_epoch t1)" using assms(2) ep(1) [of t1] by simp
    show "ht_mint t1 \<notin> log_ids st" using assms(4) by simp
    show "ht_seam t1 = (\<lambda>_. False)" using ep(2) [of t1] by simp
  qed (use assms(5) ready in blast)+
  have moves: thesis if "ledger_read s ?key = Inr (Some (?e ef b p))" "owned s (ht_epoch t')" "t \<in> {t1, t2, t3, t4, t5, t6}" "t' \<in> {t1, t2, t3, t4, t5, t6}" "ht_mint t \<notin> log_ids s"
    "progress_ok ef b (Fin (at_ms + lease)) p"
    "\<And>n. at_ms \<le> n \<Longrightarrow> n < at_ms + lease \<Longrightarrow> transitionExecution (?e ef b p) (hand_command opts (Fin n) (ri_executionId invoke) ev actor) = Applied e'"
    "\<And>s'. hand_apply opts t s (ri_executionId invoke) ev actor None = (Inr (Applied e'), s') \<Longrightarrow> ledger_read s' ?key = Inr (Some e') \<Longrightarrow> owned s' (ht_epoch t) \<Longrightarrow>
       log_ids s' = insert (ht_mint t) (log_ids s) \<Longrightarrow> thesis" for s ef b p t t' ev actor e' thesis
  proof -
    have "transitionExecution (?e ef b p) (hand_command opts (ht_now t) (ri_executionId invoke) ev actor) = Applied e'" using ep(3) [OF that(3)] that(7) by auto
    moreover have "entry_wf (?e ef b p)" using ready that(6) by (intro walked_wf) auto
    ultimately show thesis using that(1,2,5,8) ep(1) [OF that(3)] ep(1) [OF that(4)] ep(2) [OF that(3)]
      by (elim hand_apply_moves [of s opts "ri_executionId invoke" "?e ef b p" t ev actor e']) auto
  qed
  have mints: "ht_mint t2 \<notin> insert (ht_mint t1) (log_ids st)" "ht_mint t3 \<notin> insert (ht_mint t2) (insert (ht_mint t1) (log_ids st))"
      "ht_mint t4 \<notin> insert (ht_mint t3) (insert (ht_mint t2) (insert (ht_mint t1) (log_ids st)))"
      "ht_mint t5 \<notin> insert (ht_mint t4) (insert (ht_mint t3) (insert (ht_mint t2) (insert (ht_mint t1) (log_ids st))))"
      "ht_mint t6 \<notin> insert (ht_mint t5) (insert (ht_mint t4) (insert (ht_mint t3) (insert (ht_mint t2) (insert (ht_mint t1) (log_ids st)))))"
    using assms(4) by simp_all
  have steps: "?run (t # ts) invoke (WalkSteps (step # steps)) s = ?run ts invoke (if steps = [] then WalkDispatch else WalkSteps steps) s'"
    if "hand_run_step opts num_text t s invoke None step = (Inr (Applied (?e ef b p)), s')" "\<not> is_settled p" for t ts step steps s s' ef b p
    by (rule advance_moves [OF that(1)]) (simp add: that(2))
  obtain s2 where b: "hand_apply opts t2 s1 (ri_executionId invoke) EvPrepare (ho_executor opts) None = (Inr (Applied (?e False False Preparing)), s2)"
      "ledger_read s2 ?key = Inr (Some (?e False False Preparing))" "owned s2 (ht_epoch t2)" "log_ids s2 = insert (ht_mint t2) (log_ids s1)"
    by (rule moves [OF a(2,3) _ _ _ _ walked_transitions(1), of t2]) (use mints(1) a(4) in simp_all)
  obtain s3 where c: "hand_apply opts t3 s2 (ri_executionId invoke) EvEffect (ho_executor opts) None = (Inr (Applied (?e True False Preparing)), s3)"
      "ledger_read s3 ?key = Inr (Some (?e True False Preparing))" "owned s3 (ht_epoch t3)" "log_ids s3 = insert (ht_mint t3) (log_ids s2)"
    by (rule moves [OF b(2,3) _ _ _ _ walked_transitions(2), of t3]) (use mints(2) a(4) b(4) in simp_all)
  obtain s4 where d: "hand_apply opts t4 s3 (ri_executionId invoke) (EvFreeze ?c False) (ho_executor opts) None = (Inr (Applied (?e True False (Prepared ?c))), s4)"
      "ledger_read s4 ?key = Inr (Some (?e True False (Prepared ?c)))" "owned s4 (ht_epoch t4)" "log_ids s4 = insert (ht_mint t4) (log_ids s3)"
    by (rule moves [OF c(2,3) _ _ _ _ walked_transitions(3), of t4]) (use mints(3) a(4) b(4) c(4) in simp_all)
  obtain s5 where e: "hand_apply opts t5 s4 (ri_executionId invoke) EvRelease (ho_issuer opts) None = (Inr (Applied (?e True False (Released ?c))), s5)"
      "ledger_read s5 ?key = Inr (Some (?e True False (Released ?c)))" "owned s5 (ht_epoch t5)" "log_ids s5 = insert (ht_mint t5) (log_ids s4)"
    by (rule moves [OF d(2,3) _ _ _ _ walked_transitions(4), of t5]) (use mints(4) a(4) b(4) c(4) d(4) in simp_all)
  obtain s6 where f: "hand_apply opts t6 s5 (ri_executionId invoke) EvDispatch (ho_executor opts) None = (Inr (Applied (?e True True (Dispatched ?c))), s6)"
      "ledger_read s6 ?key = Inr (Some (?e True True (Dispatched ?c)))" "owned s6 (ht_epoch t6)" "log_ids s6 = insert (ht_mint t6) (log_ids s5)"
    by (rule moves [OF e(2,3) _ _ _ _ walked_transitions(5), of t6]) (use mints(5) a(4) b(4) c(4) d(4) e(4) in simp_all)
  have h: "hand_run_step opts num_text t1 st invoke None StepAdmit = (Inr (Applied (?e False False Admitted)), s1)"
      "hand_run_step opts num_text t2 s1 invoke None StepPrepare = (Inr (Applied (?e False False Preparing)), s2)"
      "hand_run_step opts num_text t3 s2 invoke None StepEffect = (Inr (Applied (?e True False Preparing)), s3)"
      "hand_run_step opts num_text t4 s3 invoke None StepFreeze = (Inr (Applied (?e True False (Prepared ?c))), s4)"
      "hand_run_step opts num_text t5 s4 invoke None StepRelease = (Inr (Applied (?e True False (Released ?c))), s5)"
    using a(1) b(1) c(1) d(1) e(1) by (simp_all add: hand_run_step_def Let_def)
  have "?run [t1, t2, t3, t4, t5, t6] invoke (WalkSteps (fromStart @ [StepRelease])) st = ?run [t6] invoke WalkDispatch s5"
    unfolding fromStart_def append.simps
    by (simp only: steps [OF h(1)] steps [OF h(2)] steps [OF h(3)] steps [OF h(4)] steps [OF h(5)] is_settled.simps list.distinct not_False_eq_True if_False if_True refl)
  moreover have "?run [t6] invoke WalkDispatch s5 = (Inl (Inr HandRun), s6)" using f(1) by (simp add: walk_dispatched_def)
  ultimately show ?thesis using start f(2,3) ep(1) [of t6] by auto
qed

text \<open>C36. A new call runs: on a store its hand owns, with fresh ids and a clock inside the lease, the uninterrupted walk of an execution id
  without a record ends after its seven awaits with the order to run, and the row is dispatched with the frozen call.\<close>

theorem fresh_call_runs:
  assumes "ledger_read st (ho_issuer opts, ri_executionId invoke) = Inr None" "owned st ep" "call_ready opts lease invoke"
    and "good_ticks ep at_ms (at_ms + lease) (log_ids st) [t1, t2, t3, t4, t5, t6]" "ht_now t1 = Fin at_ms"
  shows "\<exists>st'. advance_run opts num_text parse [t0, t1, t2, t3, t4, t5, t6] invoke WalkRead st = (Inl (Inr HandRun), st') \<and> owned st' ep \<and>
    ledger_read st' (ho_issuer opts, ri_executionId invoke) =
      Inr (Some (walked_entry opts num_text at_ms lease invoke True True (Dispatched (frozen_of num_text invoke))))"
  using assms by (rule fresh_call_walk)

section \<open>Answers stay\<close>

text \<open>A settled row stays as it is, or only forgets its outcome.\<close>

definition row_final :: "string \<times> string \<Rightarrow> execution_entry \<Rightarrow> medium_state \<Rightarrow> bool" where
  "row_final k e st \<longleftrightarrow> ledger_inv st \<and> is_settled (e_progress e) \<and>
     (ledger_read st k = Inr (Some e) \<or> ledger_read st k = Inr (Some (e\<lparr>e_progress := Acked\<rparr>)))"

lemma is_settled_iff: "is_settled p \<longleftrightarrow> (\<exists>out. p = Settled out)"
  by (cases p) auto

lemma row_final_step:
  assumes "row_final k e st" "ledger_step x st = (out, st')"
  shows "row_final k e st'"
proof -
  have inv: "ledger_inv st" and s: "is_settled (e_progress e)" using assms(1) by (auto simp: row_final_def)
  have inv': "ledger_inv st'" by (rule ledger_step_inv [OF inv assms(2)])
  have final: "e' = e0\<lparr>e_progress := Acked\<rparr> \<and> e0 = e" if "transitionExecution e0 c = Applied e'" "e0 = e \<or> e0 = e\<lparr>e_progress := Acked\<rparr>" for e0 e' c
    using that(1)
  proof (cases rule: transition_Applied_cases)
    case (acked out)
    then show ?thesis using that(2) by auto
  next
    case (ended reason)
    then show ?thesis using that(2) s by (auto simp: is_settled_iff)
  next
    case live
    then show ?thesis using that(2) s by (auto simp: is_settled_iff)
  qed
  from inv assms(2) show ?thesis
  proof (cases rule: ledger_step_cases)
    case same
    then have "ledger_read st' k = ledger_read st k" by (intro rows_unchanged(2))
    then show ?thesis using assms(1) inv' by (simp add: row_final_def)
  next
    case (fresh e1)
    then show ?thesis using assms(1) inv' by (auto simp: row_final_def row_stored(2) [OF fresh(5,1)])
  next
    case (moved c e1 e' seam ep mid guard)
    show ?thesis
    proof (cases "k = (e_issuer e', e_commandId e')")
      case True
      then have "e1 = e \<or> e1 = e\<lparr>e_progress := Acked\<rparr>" using assms(1) moved(1) by (auto simp: row_final_def)
      from final [OF moved(4) this] show ?thesis using inv' s True by (auto simp: row_final_def row_stored(2) [OF moved(5,3)])
    next
      case False
      then show ?thesis using assms(1) inv' by (auto simp: row_final_def row_stored(2) [OF moved(5,3)])
    qed
  qed
qed

interpretation row_stays: kept_invariant ledger_step "row_final k e" for k e
  by unfold_locales (use row_final_step in blast)

lemma row_final_hand:
  "row_final k e (hs_store s) \<Longrightarrow> hand_trace num_text parse links evs s = (outs, s') \<Longrightarrow> row_final k e (hs_store s')"
proof (induction evs arbitrary: s outs)
  case (Cons ev evs)
  obtain out s1 outs' where c: "hand_step num_text parse links ev s = (out, s1)" "hand_trace num_text parse links evs s1 = (outs', s')" "outs = out @ outs'"
    by (rule run_steps_Cons [OF Cons.prems(2)])
  obtain xs louts where "ledger_trace xs (hs_store s) = (louts, hs_store s1)" using hand_step_effect [OF c(1)] by blast
  from Cons.IH [OF row_stays.inv_run [OF Cons.prems(1) this] c(2)] show ?case .
qed simp

lemma transition_Replayed: "transitionExecution e c = Replayed e' \<Longrightarrow> e' = e"
proof -
  have live: "transition_live e now ev = Replayed e' \<Longrightarrow> e' = e" for now ev
    by (cases "(e, now, ev)" rule: transition_live.cases)
      (auto simp: advance_entry_def settle_entry_def replayed_reply_def recover_entry_def Let_def split: if_splits option.splits execution_progress.splits)
  assume t: "transitionExecution e c = Replayed e'"
  show ?thesis
  proof (cases "e_progress e")
    case (Settled out)
    then show ?thesis using t
      by (cases "cmd_event c") (simp_all add: transitionExecution_def Let_def advance_entry_def replayed_reply_def split: if_splits)
  qed (use t live in \<open>simp_all add: transitionExecution_def Let_def advance_entry_def settle_entry_def split: if_splits\<close>)
qed

text \<open>The entry an answer was made from is the row.\<close>

lemma apply_reply_row:
  assumes "ledger_inv st" "hand_apply opts t st executionId event actor guard = (Inr reply, st')" "reply = Applied e \<or> reply = Replayed e"
  shows "ledger_inv st' \<and> ledger_read st' (ho_issuer opts, executionId) = Inr (Some e)"
proof -
  let ?c = "hand_command opts (ht_now t) executionId event actor" let ?k = "(ho_issuer opts, executionId)"
  have step: "ledger_step (hand_input opts t executionId event actor guard) st = ([(?k, event, reply)], st')" using hand_input_step [OF assms(2)] by simp
  have inv': "ledger_inv st'" by (rule ledger_step_inv [OF assms(1) step])
  have k: "(cmd_issuer ?c, cmd_commandId ?c) = ?k" by (simp add: hand_command_def)
  have ap: "ledger_apply (ht_seam t) (ht_epoch t) (ht_mint t) st ?c guard = (Inr reply, st')" using assms(2) by (simp add: hand_apply_def)
  show ?thesis
  proof (cases "reply = Applied e")
    case True
    from assms(1) step show ?thesis
    proof (cases rule: ledger_step_cases)
      case same
      from same(2) [of ?k event e] True show ?thesis by simp
    next
      case (moved c e0 e' seam ep mid guard')
      then have "e' = e" "(e_issuer e', e_commandId e') = ?k" using True by auto
      then show ?thesis using inv' row_stored(2) [OF moved(5,3), of ?k] by simp
    qed (use True in simp)
  next
    case False
    then have r: "reply = Replayed e" using assms(3) by simp
    then have g: "guard = None" using ap by (cases guard) (auto simp: ledger_apply_def)
    obtain row where row: "ledger_read st ?k = Inr (Some row)" "transitionExecution row ?c = Replayed e"
      using ap g r k by (auto simp: ledger_apply_def Let_def commit_then_def split: sum.splits option.splits ledger_reply.splits if_splits prod.splits)
    have "getDocument st' = getDocument st"
      using ap g r k row by (auto simp: ledger_apply_def Let_def split: if_splits dest: commit_audit_cases)
    then have "ledger_read st' ?k = ledger_read st ?k" by (simp add: ledger_read_def)
    then show ?thesis using row transition_Replayed [OF row(2)] inv' by simp
  qed
qed

lemma replyFrom_settled:
  assumes "replyFrom num_text parse reply executionId = Inr (HandSettled executionId' m)"
  obtains e v h where "reply = Applied e \<or> reply = Replayed e" "e_progress e = Settled (OutResult v h)" "parse (js_string num_text v) = Inr m"
proof -
  have settled: "\<exists>v h. e_progress e = Settled (OutResult v h) \<and> parse (js_string num_text v) = Inr m"
    if "outcomeOf num_text parse e = Inr (Some (HandSettled executionId' m))" for e
    using that by (auto simp: outcomeOf_def Let_def rbind_eq_Inr split: execution_progress.splits execution_outcome.splits)
  have out: "outcomeOf num_text parse e = Inr (Some (HandSettled executionId' m))" if "reply = Applied e \<or> reply = Replayed e" for e
    using assms that by (auto simp: replyFrom_def Let_def rbind_eq_Inr split: option.splits)
  show thesis
  proof (cases reply)
    case (Applied e)
    then show ?thesis using settled [OF out [of e]] that [of e] by blast
  next
    case (Replayed e)
    then show ?thesis using settled [OF out [of e]] that [of e] by blast
  qed (use assms in \<open>auto simp: replyFrom_def Let_def\<close>)
qed

text \<open>An answered result stays the answer: once the hand answered a settlement with a result, every redelivery of the call on that link, at any
  later time and after any restarts, is answered from the record without touching the store: with the same result, or that it was
  acknowledged and forgotten, or that the redelivery names another request. When the settlement is the first of a running call, the
  result is the one the call ended with.\<close>

theorem result_stays:
  assumes "ledger_inv (hs_store s)" "hand_step num_text parse links (HvSettle i executionId result t) s = (out, s1)"
    and "OutAnswer i executionId (Inr (HandSettled executionId m)) \<in> set out"
    and "hand_trace num_text parse links evs s1 = (outs, s2)" "ri_executionId invoke = executionId"
  shows "(\<exists>answer \<in> {HandSettled executionId m, HandRefused executionId ''result_expired'', HandRefused executionId ''identity_conflict''}.
      advance (hl_options (links i)) num_text parse tk guard invoke WalkRead (hs_store s2) = (Inl (Inr (HandReply answer)), hs_store s2)) \<and>
    (\<forall>row c. ledger_read (hs_store s) (ho_issuer (hl_options (links i)), executionId) = Inr (Some row) \<and> e_progress row = Dispatched c \<and>
      parse (json_text num_text result) = Inr result \<longrightarrow> m = result)"
proof -
  let ?opts = "hl_options (links i)" let ?k = "(ho_issuer ?opts, executionId)" let ?ev = "EvResult (SStr (json_text num_text result))"
  obtain x st1 where a: "hand_apply ?opts t (hs_store s) executionId ?ev (ho_executor ?opts) None = (x, st1)" by fastforce
  have st1: "hs_store s1 = st1" and x: "rbind x (\<lambda>r. replyFrom num_text parse r executionId) = Inr (HandSettled executionId m)"
    using assms(2,3) a by (auto simp: hand_settle_def)
  obtain reply where r: "x = Inr reply" "replyFrom num_text parse reply executionId = Inr (HandSettled executionId m)" using x by (auto simp: rbind_eq_Inr)
  obtain e v h where e: "reply = Applied e \<or> reply = Replayed e" "e_progress e = Settled (OutResult v h)" "parse (js_string num_text v) = Inr m"
    using replyFrom_settled [OF r(2)] .
  note row1 = apply_reply_row [OF assms(1) a [unfolded r(1)] e(1)]
  have key: "e_commandId e = executionId" using ledger_read_inv [of st1 ?k] row1 by auto
  have "row_final ?k e (hs_store s1)" using row1 st1 e(2) by (simp add: row_final_def)
  from row_final_hand [OF this assms(4)] have row: "ledger_read (hs_store s2) ?k = Inr (Some e) \<or> ledger_read (hs_store s2) ?k = Inr (Some (e\<lparr>e_progress := Acked\<rparr>))"
    by (simp add: row_final_def)
  have first: "\<exists>answer \<in> {HandSettled executionId m, HandRefused executionId ''result_expired'', HandRefused executionId ''identity_conflict''}.
      walk_from_prior num_text parse invoke (Some e') = Inl (Inr (HandReply answer))" if "e' = e \<or> e' = e\<lparr>e_progress := Acked\<rparr>" for e'
    using that e(2,3) key assms(5) by (auto simp: walk_from_prior_def walk_reply_def outcomeOf_def Let_def)
  have second: "m = result" if "ledger_read (hs_store s) ?k = Inr (Some row)" "e_progress row = Dispatched c" "parse (json_text num_text result) = Inr result" for row c
  proof -
    have "ledger_apply (ht_seam t) (ht_epoch t) (ht_mint t) (hs_store s) (hand_command ?opts (ht_now t) executionId ?ev (ho_executor ?opts)) None = (Inr reply, st1)"
      using a r(1) by (simp add: hand_apply_def)
    then have "transitionExecution row (hand_command ?opts (ht_now t) executionId ?ev (ho_executor ?opts)) = reply"
      using that(1,2) e(1) by (auto simp: ledger_apply_def hand_command_def commit_then_def Let_def split: ledger_reply.splits if_splits prod.splits sum.splits)
    then have "v = SStr (json_text num_text result)" using that(2) e(1,2)
      by (auto simp: transitionExecution_def hand_command_def settle_entry_def advance_entry_def Let_def split: if_splits)
    then show ?thesis using e(3) that(3) by simp
  qed
  obtain e' where e': "ledger_read (hs_store s2) ?k = Inr (Some e')" "e' = e \<or> e' = e\<lparr>e_progress := Acked\<rparr>" using row by blast
  have "advance ?opts num_text parse tk guard invoke WalkRead (hs_store s2) = (walk_from_prior num_text parse invoke (Some e'), hs_store s2)"
    using e'(1) assms(5) by simp
  then show ?thesis using first [OF e'(2)] second by metis
qed

section \<open>A concrete hand\<close>

text \<open>An uninterrupted walk in the system, with the fence open.\<close>

lemma hand_trace_walk:
  assumes "map_of (hp_walks (hs_procs s i)) executionId = Some (invoke, walk)"
    and "fence_admits (hs_floors s) (ri_scopeId invoke) (ri_epoch invoke) (hl_sender (links i))"
    and "advance_run (hl_options (links i)) num_text parse ts invoke walk (hs_store s) = (Inl r, st')"
  shows "\<exists>s'. hand_trace num_text parse links (map (HvWalk i executionId) ts) s = ([OutAdmission i invoke r], s') \<and> hs_store s' = st'"
proof -
  have idle: "\<exists>s'. hand_trace num_text parse links (map (HvWalk i executionId) ts) s = ([], s') \<and> hs_store s' = hs_store s"
    if "map_of (hp_walks (hs_procs s i)) executionId = None" for ts s
    using that by (induction ts arbitrary: s) (auto simp: hand_walk_step_def Let_def split: prod.splits)
  show ?thesis
    using assms
  proof (induction ts arbitrary: s walk)
    case (Cons t ts)
    have guard: "fencedBy (link_admits (links i) (hs_floors s) invoke) = None" using Cons.prems(2) by (simp add: fencedBy_def link_admits_def)
    obtain a st1 where adv: "advance (hl_options (links i)) num_text parse t None invoke walk (hs_store s) = (a, st1)" by fastforce
    show ?case
    proof (cases a)
      case (Inl r')
      let ?p = "(hs_procs s i)\<lparr>hp_walks := obj_del executionId (hp_walks (hs_procs s i)),
          hp_owned := (if r' = Inr HandRun then hp_owned (hs_procs s i) else removeAll executionId (hp_owned (hs_procs s i)))\<rparr>"
      let ?s = "s\<lparr>hs_procs := (hs_procs s)(i := ?p), hs_store := st1\<rparr>"
      have step: "hand_step num_text parse links (HvWalk i executionId t) s = ([OutAdmission i invoke r'], ?s)"
        using Cons.prems(1) guard adv Inl by (simp add: hand_walk_step_def walk_invoke_def)
      obtain s' where "hand_trace num_text parse links (map (HvWalk i executionId) ts) ?s = ([], s')" "hs_store s' = st1"
        using idle [of ?s ts] by auto
      then show ?thesis using step Cons.prems(3) adv Inl by auto
    next
      case (Inr walk')
      let ?s = "s\<lparr>hs_procs := (hs_procs s)(i := (hs_procs s i)\<lparr>hp_walks := obj_put executionId (invoke, walk') (hp_walks (hs_procs s i))\<rparr>), hs_store := st1\<rparr>"
      have step: "hand_step num_text parse links (HvWalk i executionId t) s = ([], ?s)"
        using Cons.prems(1) guard adv Inr by (simp add: hand_walk_step_def)
      have "\<exists>s'. hand_trace num_text parse links (map (HvWalk i executionId) ts) ?s = ([OutAdmission i invoke r], s') \<and> hs_store s' = st'"
        by (rule Cons.IH) (use Cons.prems adv Inr in auto)
      then show ?thesis using step by auto
    qed
  qed simp
qed

definition sample_options :: hand_options where
  "sample_options = \<lparr>ho_executor = ''hand'', ho_issuer = ''brain'', ho_workspace = ''w'', ho_leaseMs = Fin 1000\<rparr>"

definition sample_links :: "nat \<Rightarrow> hand_link" where
  "sample_links = (\<lambda>_. \<lparr>hl_options = sample_options, hl_sender = ''new''\<rparr>)"

definition sample_invoke :: remote_invoke where
  "sample_invoke = \<lparr>ri_epoch = Some (Fin 1), ri_executionId = ''x1'', ri_batchId = ''b1'', ri_index = Fin 0, ri_scopeId = ''scope'', ri_scopeRoot = ''/w'', ri_toolCallId = ''c1'',
     ri_name = ''read'', ri_arguments = None, ri_sessionRef = None\<rparr>"

definition sample_tick :: "nat \<Rightarrow> hand_tick" where
  "sample_tick n = \<lparr>ht_seam = (\<lambda>_. False), ht_epoch = Fin 1, ht_mint = replicate n CHR ''m'', ht_now = Fin (of_nat n)\<rparr>"

definition sample_sys :: hand_sys where
  "sample_sys = \<lparr>hs_procs = (\<lambda>_. createHandLedger), hs_floors = [], hs_store = sample_hand_store\<rparr>"

abbreviation sample_parse :: json_parser where
  "sample_parse \<equiv> (\<lambda>_. Inr SNull)"

definition sample_raised :: "hand_out list \<times> hand_sys" where
  "sample_raised = hand_step unary_text sample_parse sample_links (HvRaise 0 ''scope'' (Fin 1) (\<lambda>_. Some ''new'') (sample_tick 0)) sample_sys"

lemma sample_raised:
  "fst sample_raised = [OutFloor 0 ''scope'' (Fin 1) (Inr (FloorAcked (Fin 1)))]"
  "hs_procs (snd sample_raised) = (\<lambda>_. createHandLedger)" "hs_floors (snd sample_raised) = [(''scope'', \<lparr>fl_epoch = Fin 1, fl_owner = ''new''\<rparr>)]"
  "owned (hs_store (snd sample_raised)) (Fin 1)" "ms_records (hs_store (snd sample_raised)) = []"
  "getDocument (hs_store (snd sample_raised)) (ledger_keyOf k) = None"
proof -
  have e: "isEpoch (Fin 1)" by (simp add: isEpoch_def max_safe_integer_def)
  have k: "ledger_keyOf k \<noteq> floor_key ''scope''" by (simp add: floor_key_def EPOCH_FLOOR_PREFIX_def ledger_keyOf_def ledger_PREFIX_def)
  show "fst sample_raised = [OutFloor 0 ''scope'' (Fin 1) (Inr (FloorAcked (Fin 1)))]"
    "hs_procs (snd sample_raised) = (\<lambda>_. createHandLedger)" "hs_floors (snd sample_raised) = [(''scope'', \<lparr>fl_epoch = Fin 1, fl_owner = ''new''\<rparr>)]"
    "owned (hs_store (snd sample_raised)) (Fin 1)" "ms_records (hs_store (snd sample_raised)) = []"
    "getDocument (hs_store (snd sample_raised)) (ledger_keyOf k) = None"
    using e k by (simp_all add: sample_raised_def raiseNow_def sample_links_def sample_sys_def sample_tick_def sample_hand_store_def Let_def EPOCH_FLOOR_MAX_STEP_def
        commitSync_def requireOwner_def owned_def getDocument_def)
qed

definition sample_later :: "hand_event list" where
  "sample_later = HvInvoke 0 sample_invoke # map (HvWalk 0 ''x1'') (map sample_tick [0, 1, 2, 3, 4, 5, 6])"

lemma sample_walk_runs:
  "\<exists>s'. hand_trace unary_text sample_parse sample_links sample_later (snd sample_raised) = ([OutAdmission 0 sample_invoke (Inr HandRun)], s') \<and>
     ledger_read (hs_store s') (''brain'', ''x1'') =
       Inr (Some (walked_entry sample_options unary_text 1 1000 sample_invoke True True (Dispatched (frozen_of unary_text sample_invoke))))"
proof -
  let ?s = "snd sample_raised"
  let ?p = "createHandLedger\<lparr>hp_owned := [''x1''], hp_walks := [(''x1'', sample_invoke, WalkRead)]\<rparr>"
  let ?s1 = "?s\<lparr>hs_procs := (hs_procs ?s)(0 := ?p)\<rparr>"
  have inv: "hand_step unary_text sample_parse sample_links (HvInvoke 0 sample_invoke) ?s = ([], ?s1)"
    by (simp add: hand_admit_def sample_raised(2) createHandLedger_def sample_invoke_def)
  have key: "ho_issuer sample_options = ''brain''" "ri_executionId sample_invoke = ''x1''" by (simp_all add: sample_options_def sample_invoke_def)
  have none: "ledger_read (hs_store ?s1) (ho_issuer sample_options, ri_executionId sample_invoke) = Inr None"
    by (simp add: ledger_read_def sample_raised(6))
  have own: "owned (hs_store ?s1) (Fin 1)" by (simp add: sample_raised(4))
  have ready: "call_ready sample_options 1000 sample_invoke"
    by (simp add: call_ready_def sample_options_def sample_invoke_def MAX_EXECUTION_LIFETIME_MS_def)
  have ids: "log_ids (hs_store ?s1) = {}" by (simp add: sample_raised(5))
  have ticks: "good_ticks (Fin 1) 1 (1 + 1000) (log_ids (hs_store ?s1))
      [sample_tick 1, sample_tick 2, sample_tick 3, sample_tick 4, sample_tick 5, sample_tick 6]"
    unfolding ids by (simp add: sample_tick_def numeral_eq_Suc)
  have now: "ht_now (sample_tick 1) = Fin 1" by (simp add: sample_tick_def)
  obtain st' where run: "advance_run sample_options unary_text sample_parse [sample_tick 0, sample_tick 1, sample_tick 2, sample_tick 3, sample_tick 4, sample_tick 5, sample_tick 6]
        sample_invoke WalkRead (hs_store ?s1) = (Inl (Inr HandRun), st')"
      "ledger_read st' (''brain'', ''x1'') = Inr (Some (walked_entry sample_options unary_text 1 1000 sample_invoke True True (Dispatched (frozen_of unary_text sample_invoke))))"
    using fresh_call_walk [OF none own ready ticks now, of unary_text sample_parse "sample_tick 0"] key by auto
  have w: "map_of (hp_walks (hs_procs ?s1 0)) ''x1'' = Some (sample_invoke, WalkRead)" by simp
  have adm: "fence_admits (hs_floors ?s1) (ri_scopeId sample_invoke) (ri_epoch sample_invoke) (hl_sender (sample_links 0))"
    by (simp add: sample_raised(3) fence_admits_def sample_invoke_def sample_links_def)
  obtain s' where "hand_trace unary_text sample_parse sample_links (map (HvWalk 0 ''x1'') (map sample_tick [0, 1, 2, 3, 4, 5, 6])) ?s1 =
      ([OutAdmission 0 sample_invoke (Inr HandRun)], s')" "hs_store s' = st'"
    using hand_trace_walk [of ?s1 0 "''x1''" sample_invoke WalkRead sample_links unary_text sample_parse "map sample_tick [0, 1, 2, 3, 4, 5, 6]" "Inr HandRun" st'] w adm run(1)
    by (auto simp: sample_links_def)
  then show ?thesis using inv run(2) unfolding sample_later_def by (intro exI [of _ s']) (simp del: hand_step.simps)
qed

lemma sample_inv: "ledger_inv (hs_store (snd sample_raised))"
  by (simp add: ledger_inv_def sample_raised(6))

theorem fresh_call_runs_witness:
  "\<exists>st'. advance_run sample_options unary_text sample_parse [sample_tick 0, sample_tick 1, sample_tick 2, sample_tick 3, sample_tick 4, sample_tick 5, sample_tick 6]
     sample_invoke WalkRead sample_hand_store = (Inl (Inr HandRun), st')"
proof -
  have a: "ledger_read sample_hand_store (ho_issuer sample_options, ri_executionId sample_invoke) = Inr None" "owned sample_hand_store (Fin 1)"
    by (simp_all add: ledger_read_def getDocument_def owned_def sample_hand_store_def)
  have b: "call_ready sample_options 1000 sample_invoke"
    by (simp add: call_ready_def sample_options_def sample_invoke_def MAX_EXECUTION_LIFETIME_MS_def)
  have c: "good_ticks (Fin 1) 1 (1 + 1000) (log_ids sample_hand_store) [sample_tick 1, sample_tick 2, sample_tick 3, sample_tick 4, sample_tick 5, sample_tick 6]"
    "ht_now (sample_tick 1) = Fin 1" by (simp_all add: sample_hand_store_def sample_tick_def numeral_eq_Suc)
  show ?thesis using fresh_call_runs [OF a b c, of unary_text sample_parse "sample_tick 0"] by blast
qed

theorem hand_runs_once_witness:
  "length (filter (runs_call sample_links (''brain'', ''x1''))
     (fst (hand_trace unary_text sample_parse sample_links (sample_later @ sample_later) (snd sample_raised)))) = 1"
proof -
  obtain s1 where s1: "hand_trace unary_text sample_parse sample_links sample_later (snd sample_raised) = ([OutAdmission 0 sample_invoke (Inr HandRun)], s1)"
    using sample_walk_runs by blast
  obtain outs s2 where s2: "hand_trace unary_text sample_parse sample_links sample_later s1 = (outs, s2)" by fastforce
  have t: "hand_trace unary_text sample_parse sample_links (sample_later @ sample_later) (snd sample_raised) = (OutAdmission 0 sample_invoke (Inr HandRun) # outs, s2)"
    using s1 s2 by (simp add: run_steps_append)
  have "runs_call sample_links (''brain'', ''x1'') (OutAdmission 0 sample_invoke (Inr HandRun))"
    by (simp add: sample_links_def sample_options_def sample_invoke_def)
  then show ?thesis using hand_runs_once [OF sample_inv t, of "(''brain'', ''x1'')"] t by auto
qed

theorem moved_session_fenced_witness:
  "OutAdmission 0 sample_invoke (Inr HandRun) \<in> set (fst (hand_trace unary_text sample_parse sample_links sample_later (snd sample_raised))) \<and>
   (\<exists>n. ri_epoch sample_invoke = Some n \<and> (num_lt (Fin 1) n \<or> (num_eq n (Fin 1) \<and> hl_sender (sample_links 0) = hl_sender (sample_links 0))))"
proof -
  have start: "fence_start (hs_store sample_sys)" "hs_floors sample_sys = []"
    by (simp_all add: fence_start_def sample_sys_def sample_hand_store_def getDocument_def)
  have raised: "hand_trace unary_text sample_parse sample_links [HvRaise 0 ''scope'' (Fin 1) (\<lambda>_. Some ''new'') (sample_tick 0)] sample_sys =
      (fst sample_raised, snd sample_raised)" unfolding sample_raised_def by (simp split: prod.splits del: hand_step.simps)
  have ack: "OutFloor 0 ''scope'' (Fin 1) (Inr (FloorAcked (Fin 1))) \<in> set (fst sample_raised)" "num_eq (Fin 1) (Fin 1)" by (simp_all add: sample_raised(1))
  obtain s' where run: "hand_trace unary_text sample_parse sample_links sample_later (snd sample_raised) = ([OutAdmission 0 sample_invoke (Inr HandRun)], s')"
    using sample_walk_runs by blast
  have m: "OutAdmission 0 sample_invoke (Inr HandRun) \<in> set [OutAdmission 0 sample_invoke (Inr HandRun)]" "ri_scopeId sample_invoke = ''scope''"
    by (simp_all add: sample_invoke_def)
  from moved_session_fenced [OF start raised ack run m] run show ?thesis by simp
qed

theorem run_is_what_was_frozen_witness:
  "\<exists>ev s s' out e. hand_step unary_text sample_parse sample_links ev s = (out, s') \<and> OutAdmission 0 sample_invoke (Inr HandRun) \<in> set out \<and>
     ledger_read (hs_store s') (''brain'', ''x1'') = Inr (Some e) \<and> e_progress e = Dispatched (frozen_of unary_text sample_invoke)"
proof -
  have fresh: "hand_fresh (snd sample_raised)" by (simp add: hand_fresh_def sample_raised(2,6))
  obtain s'' where run: "hand_trace unary_text sample_parse sample_links sample_later (snd sample_raised) = ([OutAdmission 0 sample_invoke (Inr HandRun)], s'')"
    using sample_walk_runs by blast
  have m: "OutAdmission 0 sample_invoke (Inr HandRun) \<in> set [OutAdmission 0 sample_invoke (Inr HandRun)]" by simp
  obtain fs ev gs s out s' outs1 outs2 where d: "sample_later = fs @ ev # gs" "hand_trace unary_text sample_parse sample_links fs (snd sample_raised) = (outs1, s)"
      "hand_step unary_text sample_parse sample_links ev s = (out, s')" "OutAdmission 0 sample_invoke (Inr HandRun) \<in> set out" "hand_inv unary_text sample_links s"
      "hand_trace unary_text sample_parse sample_links gs s' = (outs2, s'')"
    by (rule hand_rows.run_out [OF hand_fresh_inv [OF fresh] run m])
  have "(ho_issuer (hl_options (sample_links 0)), ri_executionId sample_invoke) = (''brain'', ''x1'')"
    by (simp add: sample_links_def sample_options_def sample_invoke_def)
  then show ?thesis using run_is_what_was_frozen [OF unary_text_ok fresh d(2,3,4)] d(3,4) by (metis (no_types))
qed

definition sample_row :: execution_entry where
  "sample_row = walked_entry sample_options unary_text 1 1000 sample_invoke True True (Dispatched (frozen_of unary_text sample_invoke))"

definition sample_running :: hand_sys where
  "sample_running = sample_sys\<lparr>hs_store := sample_hand_store\<lparr>ms_documents := [(ledger_keyOf (''brain'', ''x1''), entry_value sample_row)]\<rparr>\<rparr>"

theorem result_stays_witness:
  "\<exists>out s1 answer. hand_step unary_text sample_parse sample_links (HvSettle 0 ''x1'' SNull (sample_tick 7)) sample_running = (out, s1) \<and>
     OutAnswer 0 ''x1'' (Inr (HandSettled ''x1'' SNull)) \<in> set out \<and>
     answer \<in> {HandSettled ''x1'' SNull, HandRefused ''x1'' ''result_expired'', HandRefused ''x1'' ''identity_conflict''} \<and>
     advance sample_options unary_text sample_parse (sample_tick 8) None sample_invoke WalkRead (hs_store s1) = (Inl (Inr (HandReply answer)), hs_store s1)"
proof -
  let ?st = "hs_store sample_running" let ?ev = "EvResult (SStr (json_text unary_text SNull))"
  let ?e' = "sample_row\<lparr>e_progress := Settled (OutResult (SStr (json_text unary_text SNull)) True)\<rparr>"
  have wf: "entry_wf sample_row" unfolding sample_row_def by (rule walked_wf) (simp_all add: MAX_EXECUTION_LIFETIME_MS_def)
  have key: "(e_issuer sample_row, e_commandId sample_row) = (''brain'', ''x1'')" by (simp add: sample_row_def sample_options_def sample_invoke_def)
  have doc: "getDocument ?st k = (if k = ledger_keyOf (''brain'', ''x1'') then Some (entry_value sample_row) else None)" for k
    by (simp add: sample_running_def getDocument_def)
  have inv: "ledger_inv ?st" unfolding ledger_inv_def doc using wf key by (auto simp: ledger_keyOf_inj)
  have opts: "ho_issuer sample_options = ''brain''" "ri_executionId sample_invoke = ''x1''" "ho_executor sample_options = ''hand''" by (simp_all add: sample_options_def sample_invoke_def)
  have row: "ledger_read ?st (ho_issuer sample_options, ''x1'') = Inr (Some sample_row)"
    by (simp add: ledger_read_def doc opts decode_entry_value entry_wf_fin [OF wf])
  have tr: "transitionExecution sample_row (hand_command sample_options (ht_now (sample_tick 7)) ''x1'' ?ev (ho_executor sample_options)) = Applied ?e'"
    by (simp add: sample_row_def transitionExecution_def walked_defs hand_command_def sample_tick_def sample_options_def sample_invoke_def advance_entry_def Let_def)
  obtain st' where ap: "hand_apply sample_options (sample_tick 7) ?st ''x1'' ?ev (ho_executor sample_options) None = (Inr (Applied ?e'), st')"
    by (rule hand_apply_moves [OF row tr wf])
      (simp_all add: key opts sample_running_def sample_sys_def sample_hand_store_def sample_tick_def owned_def)
  obtain out s1 where step: "hand_step unary_text sample_parse sample_links (HvSettle 0 ''x1'' SNull (sample_tick 7)) sample_running = (out, s1)" by fastforce
  have "out = [OutAnswer 0 ''x1'' (Inr (HandSettled ''x1'' SNull))]"
    using step ap key by (auto simp: hand_settle_def sample_links_def replyFrom_def outcomeOf_def Let_def)
  then have m: "OutAnswer 0 ''x1'' (Inr (HandSettled ''x1'' SNull)) \<in> set out" by simp
  from conjunct1 [OF result_stays [OF inv step m _ opts(2), of "[]" "[]" s1 "sample_tick 8" None]] step m show ?thesis
    by (auto simp: sample_links_def)
qed

end
