(* ===== verification/Grant_Check.thy ===== *)
theory Grant_Check
  imports Step_Trace "HOL-Library.Sublist"
begin

text \<open>
  A hand's offline check of its sender's grant (execution/grant-verify.ts), the re-check of running calls when the grants are
  replaced (execution/remote-executor.ts), and the hop count of thread chains (execution/chain-count.ts). \<open>canonicalize\<close> is the
  embedder's canonical form of a path; None stands for its throw.
\<close>

section \<open>Grants\<close>

definition HAND_CAPABILITY :: string where "HAND_CAPABILITY = ''execute''"
definition DEFAULT_WORKSPACE :: string where "DEFAULT_WORKSPACE = ''omo''"

record grant_row =
  gr_holder :: string
  gr_target :: string
  gr_workspace :: string
  gr_capability :: string

record grant_snapshot =
  gs_rv :: number
  gs_expiresAt :: number
  gs_grants :: "grant_row list"

datatype grant_refusal = GrantMissing | GrantExpired | WorkspaceUnknown

datatype grant_verdict = GrantOk string | GrantRefused grant_refusal

record workspace_root =
  wr_root :: string
  wr_label :: "string option"

text \<open>A verifier: its options, the installed snapshot, and the registered listeners in the order they were added.\<close>

record grant_verifier =
  gv_self :: string
  gv_workspaces :: "workspace_root list"
  gv_snapshot :: "grant_snapshot option"
  gv_listeners :: "nat list"

definition createGrantVerifier :: "string \<Rightarrow> workspace_root list \<Rightarrow> grant_verifier" where
  "createGrantVerifier self workspaces = \<lparr>gv_self = self, gv_workspaces = workspaces, gv_snapshot = None, gv_listeners = []\<rparr>"

definition is_separator :: "char \<Rightarrow> bool" where
  "is_separator c \<longleftrightarrow> c = CHR ''/'' \<or> c = CHR 0x5C"

text \<open>\<open>root.replace(SEPARATORS, "")\<close>: the separators at the end are cut off.\<close>

definition strip_separators :: "string \<Rightarrow> string" where
  "strip_separators dir = rev (dropWhile is_separator (rev dir))"

text \<open>\<open>child.charAt(i)\<close> is the empty string past the end, so it is no separator there.\<close>

definition path_contains :: "string \<Rightarrow> string \<Rightarrow> bool" where
  "path_contains dir child =
     (let base = strip_separators dir in
      if child = base then True
      else if take (length base) child \<noteq> base then False
      else length base < length child \<and> is_separator (child ! length base))"

fun workspace_loop :: "(string \<Rightarrow> string option) \<Rightarrow> string \<Rightarrow> workspace_root list \<Rightarrow> (string \<times> nat) option \<Rightarrow> (string \<times> nat) option" where
  "workspace_loop canonicalize dir [] best = best"
| "workspace_loop canonicalize dir (w # ws) best =
     (case canonicalize (wr_root w) of
        None \<Rightarrow> workspace_loop canonicalize dir ws best
      | Some resolved \<Rightarrow>
          if \<not> path_contains resolved dir then workspace_loop canonicalize dir ws best
          else if (case best of None \<Rightarrow> True | Some (_, n) \<Rightarrow> n < length resolved)
          then workspace_loop canonicalize dir ws (Some (case wr_label w of Some l \<Rightarrow> l | None \<Rightarrow> DEFAULT_WORKSPACE, length resolved))
          else workspace_loop canonicalize dir ws best)"

definition workspaceOf :: "(string \<Rightarrow> string option) \<Rightarrow> workspace_root list \<Rightarrow> string \<Rightarrow> string option" where
  "workspaceOf canonicalize workspaces dir = map_option fst (workspace_loop canonicalize dir workspaces None)"

definition grant_matches :: "string \<Rightarrow> string \<Rightarrow> string \<Rightarrow> grant_row \<Rightarrow> bool" where
  "grant_matches self peer workspace row \<longleftrightarrow>
     gr_holder row = peer \<and> gr_target row = self \<and> gr_workspace row = workspace \<and> gr_capability row = HAND_CAPABILITY"

definition grant_verify :: "(string \<Rightarrow> string option) \<Rightarrow> number \<Rightarrow> grant_verifier \<Rightarrow> string \<Rightarrow> string \<Rightarrow> grant_verdict" where
  "grant_verify canonicalize now v peer scopeRoot =
     (let dir = canonicalize scopeRoot; workspace = Option.bind dir (workspaceOf canonicalize (gv_workspaces v)) in
      case (dir, workspace) of
        (Some dir, Some workspace) \<Rightarrow>
          if peer = gv_self v then GrantOk dir
          else (case gv_snapshot v of
            None \<Rightarrow> GrantRefused GrantExpired
          | Some current \<Rightarrow>
              if num_le (gs_expiresAt current) now then GrantRefused GrantExpired
              else if list_ex (grant_matches (gv_self v) peer workspace) (gs_grants current) then GrantOk dir
              else GrantRefused GrantMissing)
      | _ \<Rightarrow> GrantRefused WorkspaceUnknown)"

text \<open>\<open>install\<close>: whether it threw, the listeners it called, and the verifier afterwards.\<close>

definition grant_install :: "grant_snapshot \<Rightarrow> grant_verifier \<Rightarrow> (string, nat list) result \<times> grant_verifier" where
  "grant_install snapshot v =
     (if \<not> is_finite (gs_rv snapshot) \<or> \<not> is_finite (gs_expiresAt snapshot)
      then (Inl ''A grant snapshot needs a finite rv and expiresAt; the installed snapshot is kept'', v)
      else if (case gv_snapshot v of None \<Rightarrow> False | Some current \<Rightarrow> num_lt (gs_rv snapshot) (gs_rv current)) then (Inr [], v)
      else (Inr (gv_listeners v), v\<lparr>gv_snapshot := Some snapshot\<rparr>))"

definition grant_onReplace :: "nat \<Rightarrow> grant_verifier \<Rightarrow> grant_verifier" where
  "grant_onReplace listener v = (if listener \<in> set (gv_listeners v) then v else v\<lparr>gv_listeners := gv_listeners v @ [listener]\<rparr>)"

definition grant_unsubscribe :: "nat \<Rightarrow> grant_verifier \<Rightarrow> grant_verifier" where
  "grant_unsubscribe listener v = v\<lparr>gv_listeners := removeAll listener (gv_listeners v)\<rparr>"

datatype hand_authority = SelfAuthority | PeerAuthority string

definition authorize :: "(string \<Rightarrow> string option) \<Rightarrow> number \<Rightarrow> grant_verifier \<Rightarrow> hand_authority \<Rightarrow> string \<Rightarrow> grant_verdict" where
  "authorize canonicalize now v authority scopeRoot =
     (case authority of SelfAuthority \<Rightarrow> GrantOk scopeRoot | PeerAuthority peer \<Rightarrow> grant_verify canonicalize now v peer scopeRoot)"

section \<open>Running calls under replaced grants\<close>

record running_call =
  rc_root :: string
  rc_aborted :: bool

text \<open>The executor's listener: every running call whose grant no longer holds is aborted.\<close>

fun is_ok :: "grant_verdict \<Rightarrow> bool" where
  "is_ok (GrantOk _) = True"
| "is_ok (GrantRefused _) = False"

definition recheck_running :: "(string \<Rightarrow> string option) \<Rightarrow> number \<Rightarrow> grant_verifier \<Rightarrow> string \<Rightarrow> running_call obj \<Rightarrow> running_call obj" where
  "recheck_running canonicalize now v peer running =
     map (\<lambda>(k, c). (k, if is_ok (grant_verify canonicalize now v peer (rc_root c)) then c else c\<lparr>rc_aborted := True\<rparr>)) running"

section \<open>Thread chains\<close>

definition CHAIN_ORIGIN :: number where "CHAIN_ORIGIN = Fin 0"

datatype chain_error = NotAChainCount | MalformedChainCount | ChainCountLimit number number

definition isCount :: "number \<Rightarrow> bool" where
  "isCount n \<longleftrightarrow> is_safe_integer n \<and> num_le (Fin 0) n"

definition nextChainCount :: "number \<Rightarrow> (chain_error, number) result" where
  "nextChainCount sessionCount = (if \<not> isCount sessionCount then Inl NotAChainCount else Inr (num_add sessionCount (Fin 1)))"

text \<open>The value a call carries: undefined, a number, or anything else.\<close>

datatype carried = Absent | Carries number | CarriesOther

fun decodeChainCount :: "carried \<Rightarrow> (chain_error, number) result" where
  "decodeChainCount Absent = nextChainCount CHAIN_ORIGIN"
| "decodeChainCount (Carries n) = (if \<not> isCount n \<or> num_eq n CHAIN_ORIGIN then Inl MalformedChainCount else Inr n)"
| "decodeChainCount CarriesOther = Inl MalformedChainCount"

definition admitChainCall :: "number \<Rightarrow> number option \<Rightarrow> (chain_error, number) result" where
  "admitChainCall count limit =
     (case limit of Some l \<Rightarrow> if num_lt l count then Inl (ChainCountLimit count l) else Inr count | None \<Rightarrow> Inr count)"

section \<open>Containment by path components\<close>

lemma path_contains_iff:
  "path_contains dir child \<longleftrightarrow> (\<exists>rest. child = strip_separators dir @ rest \<and> (rest = [] \<or> is_separator (hd rest)))"
proof
  let ?b = "strip_separators dir"
  assume c: "path_contains dir child"
  show "\<exists>rest. child = ?b @ rest \<and> (rest = [] \<or> is_separator (hd rest))"
  proof (cases "child = ?b")
    case False
    then have t: "take (length ?b) child = ?b" "length ?b < length child" "is_separator (child ! length ?b)"
      using c by (auto simp: path_contains_def Let_def split: if_splits)
    have "child = ?b @ drop (length ?b) child" using append_take_drop_id [of "length ?b" child] t(1) by simp
    moreover have "hd (drop (length ?b) child) = child ! length ?b" using t(2) by (rule hd_drop_conv_nth)
    ultimately show ?thesis using t(3) by metis
  qed simp
next
  assume "\<exists>rest. child = strip_separators dir @ rest \<and> (rest = [] \<or> is_separator (hd rest))"
  then obtain rest where r: "child = strip_separators dir @ rest" "rest = [] \<or> is_separator (hd rest)" by blast
  then show "path_contains dir child" by (cases rest) (auto simp: path_contains_def Let_def nth_append)
qed

fun components :: "string \<Rightarrow> string list" where
  "components [] = [[]]"
| "components (c # cs) =
     (if is_separator c then [] # components cs else (c # hd (components cs)) # tl (components cs))"

lemma components_ne [simp]: "components s \<noteq> []"
  by (cases s) auto

lemma components_sep: "is_separator c \<Longrightarrow> components (a @ c # b) = components a @ components b"
  by (induction a) auto

lemma components_prefix:
  assumes "prefix (components a) (components b)" "\<And>c. c \<in> set a \<union> set b \<Longrightarrow> is_separator c \<Longrightarrow> c = CHR ''/''"
  shows "\<exists>rest. b = a @ rest \<and> (rest = [] \<or> is_separator (hd rest))"
  using assms
proof (induction a arbitrary: b)
  case Nil
  then show ?case by (cases b) (auto split: if_splits)
next
  case (Cons c a)
  obtain d ds where b: "b = d # ds" using Cons.prems(1) by (cases b) (auto split: if_splits)
  show ?case
  proof (cases "is_separator c")
    case True
    then have d: "is_separator d" using Cons.prems(1) b by (auto split: if_splits)
    then have "c = d" using True Cons.prems(2) b by auto
    moreover have "prefix (components a) (components ds)" using Cons.prems(1) True d b by simp
    ultimately show ?thesis using Cons.IH [of ds] Cons.prems(2) b by auto
  next
    case False
    then have d: "\<not> is_separator d" "c = d" using Cons.prems(1) b by (auto split: if_splits)
    have "hd (components a) = hd (components ds)" "prefix (tl (components a)) (tl (components ds))" using Cons.prems(1) False d b by simp_all
    then have "prefix (components a) (components ds)" by (metis Cons_prefix_Cons components_ne list.collapse)
    then show ?thesis using Cons.IH [of ds] Cons.prems(2) b d by auto
  qed
qed

lemma contains_components:
  assumes "CHR 0x5C \<notin> set dir" "CHR 0x5C \<notin> set child"
  shows "path_contains dir child \<longleftrightarrow> prefix (components (strip_separators dir)) (components child)"
proof
  assume "path_contains dir child"
  then obtain rest where r: "child = strip_separators dir @ rest" "rest = [] \<or> is_separator (hd rest)" by (auto simp: path_contains_iff)
  then show "prefix (components (strip_separators dir)) (components child)" by (cases rest) (auto simp: components_sep)
next
  assume p: "prefix (components (strip_separators dir)) (components child)"
  have "set (strip_separators dir) \<subseteq> set dir" using set_dropWhileD [of _ is_separator "rev dir"] by (auto simp: strip_separators_def)
  then show "path_contains dir child" unfolding path_contains_iff using assms
    by (intro components_prefix [OF p]) (auto simp: is_separator_def)
qed

section \<open>The deepest served workspace\<close>

definition ws_label :: "workspace_root \<Rightarrow> string" where
  "ws_label w = (case wr_label w of Some l \<Rightarrow> l | None \<Rightarrow> DEFAULT_WORKSPACE)"

text \<open>The canonical root of a served workspace the path lies in.\<close>

definition covers :: "(string \<Rightarrow> string option) \<Rightarrow> string \<Rightarrow> workspace_root \<Rightarrow> string option" where
  "covers canonicalize dir w = (case canonicalize (wr_root w) of Some r \<Rightarrow> if path_contains r dir then Some r else None | None \<Rightarrow> None)"

text \<open>The workspace with the longest root the path lies in, the first of equally long ones.\<close>

definition deepest :: "(string \<Rightarrow> string option) \<Rightarrow> workspace_root list \<Rightarrow> string \<Rightarrow> nat \<Rightarrow> string \<Rightarrow> bool" where
  "deepest canonicalize ws dir i r \<longleftrightarrow> i < length ws \<and> covers canonicalize dir (ws ! i) = Some r \<and>
     (\<forall>j r'. j < length ws \<and> covers canonicalize dir (ws ! j) = Some r' \<longrightarrow> length r' \<le> length r \<and> (j < i \<longrightarrow> length r' < length r))"

definition best_step :: "(string \<Rightarrow> string option) \<Rightarrow> string \<Rightarrow> (string \<times> nat) option \<Rightarrow> workspace_root \<Rightarrow> (string \<times> nat) option" where
  "best_step canonicalize dir best w = (case covers canonicalize dir w of None \<Rightarrow> best
     | Some r \<Rightarrow> if (case best of None \<Rightarrow> True | Some (_, n) \<Rightarrow> n < length r) then Some (ws_label w, length r) else best)"

lemma workspace_loop_foldl: "workspace_loop canonicalize dir ws best = foldl (best_step canonicalize dir) best ws"
  by (induction ws arbitrary: best) (auto simp: best_step_def covers_def ws_label_def split: option.splits)

lemma workspace_loop_deepest:
  "case workspace_loop canonicalize dir ws None of
     None \<Rightarrow> \<forall>w \<in> set ws. covers canonicalize dir w = None
   | Some (l, n) \<Rightarrow> \<exists>i r. deepest canonicalize ws dir i r \<and> l = ws_label (ws ! i) \<and> n = length r"
proof (induction ws rule: rev_induct)
  case Nil
  then show ?case by simp
next
  case (snoc w ws)
  let ?loop = "workspace_loop canonicalize dir ws None"
  have next_best: "workspace_loop canonicalize dir (ws @ [w]) None = best_step canonicalize dir ?loop w" by (simp add: workspace_loop_foldl)
  show ?case
  proof (cases ?loop)
    case None
    then have none: "\<forall>v \<in> set ws. covers canonicalize dir v = None" using snoc by simp
    then have "deepest canonicalize (ws @ [w]) dir (length ws) r" if "covers canonicalize dir w = Some r" for r
      using that by (auto simp: deepest_def nth_append less_Suc_eq split: if_splits)
    then show ?thesis unfolding next_best None using none by (auto simp: best_step_def split: option.splits) (metis nth_append_length)
  next
    case (Some b)
    obtain l n where b: "b = (l, n)" by (cases b)
    obtain i r where d: "deepest canonicalize ws dir i r" "l = ws_label (ws ! i)" "n = length r" using snoc Some b by auto
    have i: "i < length ws" using d(1) by (simp add: deepest_def)
    have keep: "deepest canonicalize (ws @ [w]) dir i r" if "\<And>r'. covers canonicalize dir w = Some r' \<Longrightarrow> length r' \<le> length r"
      using d(1) that by (auto simp: deepest_def nth_append less_Suc_eq split: if_splits)
    have new: "deepest canonicalize (ws @ [w]) dir (length ws) r'" if "covers canonicalize dir w = Some r'" "length r < length r'" for r'
    proof -
      have "length s \<le> length r" if "j < length ws" "covers canonicalize dir (ws ! j) = Some s" for j s using d(1) that by (auto simp: deepest_def)
      then have "length s < length r'" if "j < length ws" "covers canonicalize dir (ws ! j) = Some s" for j s using that \<open>length r < length r'\<close> by (meson le_less_trans)
      then show ?thesis using that(1) by (auto simp: deepest_def nth_append less_Suc_eq intro: less_imp_le split: if_splits)
    qed
    show ?thesis
    proof (cases "\<exists>r'. covers canonicalize dir w = Some r' \<and> length r < length r'")
      case True
      then obtain r' where r': "covers canonicalize dir w = Some r'" "length r < length r'" by blast
      then have "best_step canonicalize dir ?loop w = Some (ws_label w, length r')" using Some b d(3) by (simp add: best_step_def)
      then show ?thesis unfolding next_best using new [OF r'] by (auto intro!: exI [of _ "length ws"] exI [of _ r'])
    next
      case False
      then have "best_step canonicalize dir ?loop w = Some (l, n)" using Some b d(3) by (auto simp: best_step_def split: option.splits)
      then show ?thesis unfolding next_best using keep False d(2,3) i by (auto simp: nth_append not_less intro!: exI [of _ i] exI [of _ r])
    qed
  qed
qed

lemma deepest_unique:
  assumes "deepest canonicalize ws dir i r" "deepest canonicalize ws dir j r'"
  shows "i = j"
proof (rule linorder_cases [of i j])
  assume "i < j"
  then show ?thesis using assms unfolding deepest_def by (meson leD)
next
  assume "j < i"
  then show ?thesis using assms unfolding deepest_def by (meson leD)
qed

definition served_as :: "(string \<Rightarrow> string option) \<Rightarrow> workspace_root list \<Rightarrow> string \<Rightarrow> string \<Rightarrow> bool" where
  "served_as canonicalize ws dir label \<longleftrightarrow> (\<exists>i r. deepest canonicalize ws dir i r \<and> label = ws_label (ws ! i))"

lemma workspaceOf_served: "workspaceOf canonicalize ws dir = Some label \<longleftrightarrow> served_as canonicalize ws dir label"
proof (cases "workspace_loop canonicalize dir ws None")
  case None
  then have "\<forall>w \<in> set ws. covers canonicalize dir w = None" using workspace_loop_deepest [where canonicalize = canonicalize and dir = dir and ws = ws] by simp
  then have "\<not> served_as canonicalize ws dir label" by (auto simp: served_as_def deepest_def)
  then show ?thesis using None by (simp add: workspaceOf_def)
next
  case (Some b)
  obtain l n where b: "b = (l, n)" by (cases b)
  obtain i r where d: "deepest canonicalize ws dir i r" "l = ws_label (ws ! i)" using workspace_loop_deepest [where canonicalize = canonicalize and dir = dir and ws = ws] Some b by auto
  have "served_as canonicalize ws dir label \<longleftrightarrow> label = l"
  proof
    assume "served_as canonicalize ws dir label"
    then obtain j r' where j: "deepest canonicalize ws dir j r'" "label = ws_label (ws ! j)" unfolding served_as_def by blast
    from deepest_unique [OF d(1) j(1)] show "label = l" using d(2) j(2) by simp
  qed (use d in \<open>unfold served_as_def, blast\<close>)
  then show ?thesis using Some b by (auto simp: workspaceOf_def)
qed

text \<open>C37. A call passes the check exactly when its canonical root lies in a served workspace and its sender is this device, or an unexpired
  roster snapshot has the row that gives the sender \<open>execute\<close> on this device in the deepest workspace the root lies in; and on paths
  with forward slashes lying in a workspace means having its components as a prefix.\<close>

theorem grant_check_exact:
  "(grant_verify canonicalize now v peer scopeRoot = GrantOk dir \<longleftrightarrow> canonicalize scopeRoot = Some dir \<and>
     (\<exists>label. served_as canonicalize (gv_workspaces v) dir label \<and>
       (peer = gv_self v \<or> (\<exists>s. gv_snapshot v = Some s \<and> \<not> num_le (gs_expiresAt s) now \<and>
          \<lparr>gr_holder = peer, gr_target = gv_self v, gr_workspace = label, gr_capability = ''execute''\<rparr> \<in> set (gs_grants s))))) \<and>
   (CHR 0x5C \<notin> set base \<and> CHR 0x5C \<notin> set dir \<longrightarrow>
     (path_contains base dir \<longleftrightarrow> prefix (components (strip_separators base)) (components dir)))"
proof (intro conjI impI)
  have row: "list_ex (grant_matches self peer l) rows \<longleftrightarrow> \<lparr>gr_holder = peer, gr_target = self, gr_workspace = l, gr_capability = ''execute''\<rparr> \<in> set rows" for self l rows
  proof -
    have "grant_matches self peer l x \<longleftrightarrow> x = \<lparr>gr_holder = peer, gr_target = self, gr_workspace = l, gr_capability = ''execute''\<rparr>" for x
      by (cases x) (auto simp: grant_matches_def HAND_CAPABILITY_def)
    then show ?thesis by (auto simp: list_ex_iff)
  qed
  show "grant_verify canonicalize now v peer scopeRoot = GrantOk dir \<longleftrightarrow> canonicalize scopeRoot = Some dir \<and>
     (\<exists>label. served_as canonicalize (gv_workspaces v) dir label \<and>
       (peer = gv_self v \<or> (\<exists>s. gv_snapshot v = Some s \<and> \<not> num_le (gs_expiresAt s) now \<and>
          \<lparr>gr_holder = peer, gr_target = gv_self v, gr_workspace = label, gr_capability = ''execute''\<rparr> \<in> set (gs_grants s))))"
    unfolding workspaceOf_served [symmetric] row [symmetric]
    by (auto simp: grant_verify_def Let_def split: option.splits if_splits)
  assume "CHR 0x5C \<notin> set base \<and> CHR 0x5C \<notin> set dir"
  then show "path_contains base dir \<longleftrightarrow> prefix (components (strip_separators base)) (components dir)" using contains_components by blast
qed

theorem grant_check_exact_witness:
  "path_contains ''/ws/'' ''/ws/a'' \<and> \<not> path_contains ''/ws'' ''/ws2'' \<and> prefix (components ''/ws'') (components ''/ws/a'')"
proof -
  have s: "strip_separators ''/ws/'' = ''/ws''" by (simp add: strip_separators_def is_separator_def)
  have b: "CHR 0x5C \<notin> set ''/ws/'' \<and> CHR 0x5C \<notin> set ''/ws/a''" by simp
  from conjunct2 [OF grant_check_exact [of Some "Fin 0" "createGrantVerifier [] []" "[]" "[]" "''/ws/a''" "''/ws/''"]] b
  have "path_contains ''/ws/'' ''/ws/a'' \<longleftrightarrow> prefix (components (strip_separators ''/ws/'')) (components ''/ws/a'')" by blast
  then show ?thesis using s by (simp add: path_contains_def strip_separators_def is_separator_def Let_def)
qed

section \<open>Replaced grants and running calls\<close>

text \<open>
  One peer link of a hand: snapshots are installed, calls start after their check and end. The executor's listener is number 0;
  \<open>now\<close> is the clock of the event. A call that was already aborted, or whose grant does not hold any more, is not started.
\<close>

datatype grant_event = GrantInstall grant_snapshot number | CallStarts string string number | CallEnds string

type_synonym grant_sys = "grant_verifier \<times> running_call obj"

fun grant_step :: "(string \<Rightarrow> string option) \<Rightarrow> string \<Rightarrow> grant_event \<Rightarrow> grant_sys \<Rightarrow> string list \<times> grant_sys" where
  "grant_step canonicalize peer (GrantInstall snapshot now) (v, running) =
     (case grant_install snapshot v of
        (Inl e, v') \<Rightarrow> ([], v', running)
      | (Inr called, v') \<Rightarrow> ([], v', if 0 \<in> set called then recheck_running canonicalize now v' peer running else running))"
| "grant_step canonicalize peer (CallStarts executionId scopeRoot now) (v, running) =
     (case authorize canonicalize now v (PeerAuthority peer) scopeRoot of
        GrantRefused _ \<Rightarrow> ([], v, running)
      | GrantOk dir \<Rightarrow> ([executionId], v, obj_put executionId \<lparr>rc_root = dir, rc_aborted = False\<rparr> running))"
| "grant_step canonicalize peer (CallEnds executionId) (v, running) = ([], v, obj_del executionId running)"

text \<open>The installed snapshot gives the peer the right to run a call with this root.\<close>

definition granted :: "(string \<Rightarrow> string option) \<Rightarrow> grant_verifier \<Rightarrow> string \<Rightarrow> string \<Rightarrow> bool" where
  "granted canonicalize v peer dir \<longleftrightarrow> (\<exists>now. is_ok (grant_verify canonicalize now v peer dir))"

definition grants_inv :: "(string \<Rightarrow> string option) \<Rightarrow> string \<Rightarrow> grant_sys \<Rightarrow> bool" where
  "grants_inv canonicalize peer = (\<lambda>(v, running). (\<forall>p q. canonicalize p = Some q \<longrightarrow> canonicalize q = Some q) \<and> 0 \<in> set (gv_listeners v) \<and>
     (\<forall>executionId c. (executionId, c) \<in> set running \<and> \<not> rc_aborted c \<longrightarrow> granted canonicalize v peer (rc_root c)))"

lemma is_ok_iff: "is_ok v \<longleftrightarrow> (\<exists>dir. v = GrantOk dir)"
  by (cases v) auto

lemma grant_verify_canonical:
  assumes "\<And>p q. canonicalize p = Some q \<Longrightarrow> canonicalize q = Some q" "grant_verify canonicalize now v peer scopeRoot = GrantOk dir"
  shows "grant_verify canonicalize now v peer dir = GrantOk dir"
  using assms by (auto simp: grant_verify_def Let_def split: option.splits if_splits)

lemma grants_inv_step:
  assumes inv: "grants_inv canonicalize peer s" and step: "grant_step canonicalize peer ev s = (out, s')"
  shows "grants_inv canonicalize peer s'"
proof -
  have idem: "canonicalize q = Some q" if "canonicalize p = Some q" for p q using inv that by (auto simp: grants_inv_def)
  show ?thesis
  proof (cases "(canonicalize, peer, ev, s)" rule: grant_step.cases)
    case (1 can p snapshot now v running)
    then have l: "0 \<in> set (gv_listeners v)" using inv by (simp add: grants_inv_def)
    show ?thesis
    proof (cases "grant_install snapshot v = (Inr (gv_listeners v), v\<lparr>gv_snapshot := Some snapshot\<rparr>)")
      case True
      let ?v = "v\<lparr>gv_snapshot := Some snapshot\<rparr>"
      have s': "s' = (?v, recheck_running canonicalize now ?v peer running)" using step 1 True l by auto
      have "granted canonicalize ?v peer (rc_root c)" if "(k, c) \<in> set (recheck_running canonicalize now ?v peer running)" "\<not> rc_aborted c" for k c
        using that by (auto simp: recheck_running_def granted_def split: if_splits)
      then show ?thesis using s' l idem by (auto simp: grants_inv_def)
    next
      case False
      then have "s' = (v, running)" using step 1 by (auto simp: grant_install_def split: if_splits)
      then show ?thesis using inv 1 by simp
    qed
  next
    case (2 can p executionId scopeRoot now v running)
    show ?thesis
    proof (cases "grant_verify canonicalize now v peer scopeRoot")
      case (GrantOk dir)
      have "grant_verify canonicalize now v peer dir = GrantOk dir" using idem GrantOk by (rule grant_verify_canonical)
      then have "granted canonicalize v peer dir" unfolding granted_def is_ok_iff by blast
      moreover have "s' = (v, obj_put executionId \<lparr>rc_root = dir, rc_aborted = False\<rparr> running)" using step 2 GrantOk by (auto simp: authorize_def)
      ultimately show ?thesis using inv 2 set_obj_put_subset [of executionId "\<lparr>rc_root = dir, rc_aborted = False\<rparr>" running]
        by (auto simp: grants_inv_def)
    next
      case (GrantRefused r)
      then show ?thesis using inv 2 step by (auto simp: authorize_def)
    qed
  next
    case (3 can p executionId v running)
    then show ?thesis using inv step by (auto simp: grants_inv_def obj_del_def)
  qed
qed

interpretation grant_runs: kept_invariant "grant_step canonicalize peer" "grants_inv canonicalize peer" for canonicalize peer
  by unfold_locales (rule grants_inv_step)

text \<open>Revoked calls stop: over any installed snapshots, started and ended calls of a peer link, every running call that was not aborted is
  granted by the snapshot installed last, and an install that throws or rolls back leaves everything as it was.\<close>

theorem revoked_calls_abort:
  assumes "\<And>p q. canonicalize p = Some q \<Longrightarrow> canonicalize q = Some q" "0 \<in> set (gv_listeners v)"
    and "run_steps (grant_step canonicalize peer) evs (v, []) = (outs, v', running)"
  shows "(\<forall>executionId c. (executionId, c) \<in> set running \<and> \<not> rc_aborted c \<longrightarrow> granted canonicalize v' peer (rc_root c)) \<and>
    (\<forall>snapshot now. gv_snapshot v' = Some current \<and> (num_lt (gs_rv snapshot) (gs_rv current) \<or> \<not> is_finite (gs_rv snapshot) \<or> \<not> is_finite (gs_expiresAt snapshot)) \<longrightarrow>
      grant_step canonicalize peer (GrantInstall snapshot now) (v', running) = ([], v', running))"
proof -
  have start: "grants_inv canonicalize peer (v, [])" using assms(1,2) by (simp add: grants_inv_def)
  have "grants_inv canonicalize peer (v', running)" by (rule grant_runs.inv_run [OF start assms(3)])
  then show ?thesis by (auto simp: grants_inv_def grant_install_def)
qed

theorem revoked_calls_abort_witness:
  "let v = grant_onReplace 0 (createGrantVerifier ''me'' [\<lparr>wr_root = ''/ws'', wr_label = None\<rparr>]);
       row = \<lparr>gr_holder = ''p'', gr_target = ''me'', gr_workspace = ''omo'', gr_capability = ''execute''\<rparr>;
       r = run_steps (grant_step Some ''p'') [GrantInstall \<lparr>gs_rv = Fin 1, gs_expiresAt = Fin 9, gs_grants = [row]\<rparr> (Fin 0), CallStarts ''x'' ''/ws/a'' (Fin 1),
             GrantInstall \<lparr>gs_rv = Fin 2, gs_expiresAt = Fin 9, gs_grants = []\<rparr> (Fin 2)] (v, [])
   in fst r = [''x''] \<and> snd (snd r) = [(''x'', \<lparr>rc_root = ''/ws/a'', rc_aborted = True\<rparr>)] \<and>
      (\<forall>executionId c. (executionId, c) \<in> set (snd (snd r)) \<and> \<not> rc_aborted c \<longrightarrow> granted Some (fst (snd r)) ''p'' (rc_root c))"
proof -
  let ?v = "grant_onReplace 0 (createGrantVerifier ''me'' [\<lparr>wr_root = ''/ws'', wr_label = None\<rparr>])"
  let ?row = "\<lparr>gr_holder = ''p'', gr_target = ''me'', gr_workspace = ''omo'', gr_capability = ''execute''\<rparr>"
  let ?evs = "[GrantInstall \<lparr>gs_rv = Fin 1, gs_expiresAt = Fin 9, gs_grants = [?row]\<rparr> (Fin 0), CallStarts ''x'' ''/ws/a'' (Fin 1),
      GrantInstall \<lparr>gs_rv = Fin 2, gs_expiresAt = Fin 9, gs_grants = []\<rparr> (Fin 2)]"
  obtain outs v' running where r: "run_steps (grant_step Some ''p'') ?evs (?v, []) = (outs, v', running)" by (metis prod_cases3)
  have l: "0 \<in> set (gv_listeners ?v)" by (simp add: grant_onReplace_def createGrantVerifier_def)
  have e: "outs = [''x''] \<and> running = [(''x'', \<lparr>rc_root = ''/ws/a'', rc_aborted = True\<rparr>)]"
    using r by (simp add: grant_onReplace_def createGrantVerifier_def grant_install_def recheck_running_def authorize_def grant_verify_def workspaceOf_def
        path_contains_def strip_separators_def is_separator_def grant_matches_def HAND_CAPABILITY_def DEFAULT_WORKSPACE_def Let_def)
  show ?thesis unfolding Let_def r using e conjunct1 [OF revoked_calls_abort [OF _ l r]] by simp
qed

section \<open>Chains of thread calls\<close>

text \<open>Sessions that prompt each other: each hop carries the count of the session it starts, checked against the limit read at that hop.\<close>

fun chain_run :: "number \<Rightarrow> number option list \<Rightarrow> (chain_error, number) result" where
  "chain_run count [] = Inr count"
| "chain_run count (limit # limits) =
     rbind (nextChainCount count) (\<lambda>n. rbind (decodeChainCount (Carries n)) (\<lambda>n. rbind (admitChainCall n limit) (\<lambda>n. chain_run n limits)))"

definition hop_allowed :: "number option \<Rightarrow> nat \<Rightarrow> bool" where
  "hop_allowed limit n \<longleftrightarrow> (case limit of None \<Rightarrow> True | Some l \<Rightarrow> \<not> num_lt l (Fin (of_nat n)))"

lemma chain_run_from:
  assumes "of_nat k \<le> max_safe_integer"
  shows "chain_run (Fin (of_nat k)) limits = Inr c \<longleftrightarrow>
    c = Fin (of_nat (k + length limits)) \<and> of_nat (k + length limits) \<le> max_safe_integer \<and> (\<forall>i < length limits. hop_allowed (limits ! i) (k + i + 1))"
  using assms
proof (induction limits arbitrary: k)
  case (Cons l ls)
  have count: "isCount (Fin (of_nat n)) \<longleftrightarrow> of_nat n \<le> max_safe_integer" for n
    by (auto simp: isCount_def max_safe_integer_def)
  have next_count: "nextChainCount (Fin (of_nat k)) = Inr (Fin (of_nat (Suc k)))" using Cons.prems count by (simp add: nextChainCount_def add.commute)
  have dec: "decodeChainCount (Carries (Fin (of_nat (Suc k)))) = (if of_nat (Suc k) \<le> max_safe_integer then Inr (Fin (of_nat (Suc k))) else Inl MalformedChainCount)"
    using count [of "Suc k"] by (simp add: CHAIN_ORIGIN_def del: of_nat_Suc)
  have adm: "admitChainCall (Fin (of_nat (Suc k))) l = (if hop_allowed l (Suc k) then Inr (Fin (of_nat (Suc k))) else Inl (ChainCountLimit (Fin (of_nat (Suc k))) (the l)))"
    by (cases l) (simp_all add: admitChainCall_def hop_allowed_def)
  have all: "(\<forall>i < length (l # ls). hop_allowed ((l # ls) ! i) (k + i + 1)) \<longleftrightarrow> hop_allowed l (Suc k) \<and> (\<forall>i < length ls. hop_allowed (ls ! i) (Suc k + i + 1))"
    by (auto simp: nth_Cons less_Suc_eq_0_disj split: nat.splits)
  show ?case
  proof (cases "of_nat (Suc k) \<le> max_safe_integer \<and> hop_allowed l (Suc k)")
    case True
    then have "chain_run (Fin (of_nat k)) (l # ls) = chain_run (Fin (of_nat (Suc k))) ls" using next_count dec adm by (simp del: of_nat_Suc decodeChainCount.simps)
    then show ?thesis using Cons.IH [of "Suc k"] True all by (simp del: of_nat_Suc)
  next
    case False
    have "(of_nat (Suc k) :: rat) \<le> of_nat (k + length (l # ls))" by (rule of_nat_mono) simp
    then have big: "\<not> of_nat (Suc k) \<le> max_safe_integer \<Longrightarrow> \<not> of_nat (k + length (l # ls)) \<le> max_safe_integer" by (metis order_trans)
    have "\<exists>e. chain_run (Fin (of_nat k)) (l # ls) = Inl e" using False next_count dec adm by (auto simp del: of_nat_Suc decodeChainCount.simps split: if_splits)
    then show ?thesis using False all big by auto
  qed
qed auto

text \<open>A chain counts its hops and stops at the user's limit: a chain of thread calls from a user's session is admitted exactly when no hop is past
  the limit read at that hop and the count stays a safe integer, and the session it ends in is then at the number of hops made.\<close>

theorem chain_counts_hops:
  "chain_run CHAIN_ORIGIN limits = Inr c \<longleftrightarrow>
    c = Fin (of_nat (length limits)) \<and> of_nat (length limits) \<le> max_safe_integer \<and> (\<forall>i < length limits. hop_allowed (limits ! i) (i + 1))"
  using chain_run_from [of 0 limits c] by (simp add: CHAIN_ORIGIN_def max_safe_integer_def)

theorem chain_counts_hops_witness:
  "chain_run CHAIN_ORIGIN [None, Some (Fin 2)] = Inr (Fin 2) \<and> chain_run CHAIN_ORIGIN [None, None, Some (Fin 2)] \<noteq> Inr (Fin 3)"
proof -
  have two: "i < 2 \<longleftrightarrow> i = 0 \<or> i = 1" for i :: nat by auto
  have "chain_run CHAIN_ORIGIN [None, Some (Fin 2)] = Inr (Fin 2)"
    unfolding chain_counts_hops [of "[None, Some (Fin 2)]" "Fin 2"] by (simp add: hop_allowed_def max_safe_integer_def two numeral_2_eq_2 [symmetric])
  moreover have "\<not> hop_allowed ([None, None, Some (Fin 2)] ! 2) (2 + 1)" by (simp add: hop_allowed_def)
  then have "chain_run CHAIN_ORIGIN [None, None, Some (Fin 2)] \<noteq> Inr (Fin 3)"
    unfolding chain_counts_hops [of "[None, None, Some (Fin 2)]" "Fin 3"] by (metis One_nat_def length_Cons lessI list.size(3) numeral_2_eq_2 numeral_3_eq_3)
  ultimately show ?thesis ..
qed

end
