(* ===== verification/Remote_Executor.thy ===== *)
theory Remote_Executor
  imports Hand_Ledger Grant_Check
begin

text \<open>
  The hand's executor of one link (execution/remote-executor.ts, execution/remote-file-call.ts): what it refuses, how it opens and
  binds scopes, in which order the calls of a scope run, and how they end. Every await of a call is a step of its own. Scope states are
  kept in a list and referred to by position, since a call keeps its scope state after the executor has forgotten the scope. What
  the fence and the grants say at the moment of a step is given with the step; opening a scope, running a tool and the
  hand's ledger answer in steps of their own.
\<close>

section \<open>State\<close>

text \<open>\<open>opened\<close>: not settled yet, failed with a reason, or open, with or without a file channel.\<close>

record scope_state =
  st_root :: string
  st_opened :: "(string, bool) result option"
  st_last :: "nat option"
  st_wave :: "nat list"

datatype pending_phase = AwaitsScope | AwaitsLedger | PendingGone

record pending_call =
  pc_lane :: string
  pc_call :: remote_invoke
  pc_file :: "string option"
  pc_root :: string
  pc_state :: nat
  pc_phase :: pending_phase

datatype job_phase = JobWaits | JobRuns | JobSettles | JobDone

text \<open>An accepted call: what it came as, whether it must not overlap others, what it waits for and how far it is.\<close>

record exec_job =
  xj_pending :: pending_call
  xj_sequential :: bool
  xj_deps :: "nat list"
  xj_aborted :: bool
  xj_phase :: job_phase

record executor =
  ex_ledger :: bool
  ex_closed :: bool
  ex_scopes :: "nat obj"
  ex_states :: "scope_state list"
  ex_pending :: "pending_call list"
  ex_jobs :: "exec_job list"
  ex_accepted :: "string list"
  ex_seen :: "string list"
  ex_running :: "nat obj"

definition createRemoteExecutor :: "bool \<Rightarrow> executor" where
  "createRemoteExecutor ledger = \<lparr>ex_ledger = ledger, ex_closed = False, ex_scopes = [], ex_states = [], ex_pending = [], ex_jobs = [],
     ex_accepted = [], ex_seen = [], ex_running = []\<rparr>"

text \<open>The authority and the fence as they are at a step.\<close>

record exec_view =
  xv_authorize :: "string \<Rightarrow> grant_verdict"
  xv_admits :: "string \<Rightarrow> number option \<Rightarrow> bool"

datatype exec_out = XReply string hand_message | XRun nat | XAck string | XFault

section \<open>Results\<close>

definition asJson :: "store_value option \<Rightarrow> store_value option" where
  "asJson value = map_option json_normal value"

text \<open>\<open>toRemoteToolResult\<close>; a property whose value is undefined does not reach the wire.\<close>

definition toRemoteToolResult :: "store_value \<Rightarrow> store_value" where
  "toRemoteToolResult result =
     (let r = Some result; some = (\<lambda>k v. case v of None \<Rightarrow> [] | Some x \<Rightarrow> [(k, x)]) in
      SObj ([(''content'', case fld r ''content'' of Some c \<Rightarrow> if c = SNull then SList [] else c | None \<Rightarrow> SList [])] @
            some ''details'' (asJson (fld r ''details'')) @
            [(''isError'', SBool (fld r ''isError'' = Some (SBool True)))] @
            some ''structuredContent'' (fld r ''structuredContent'') @
            some ''terminate'' (fld r ''terminate'') @
            (if get_list (fld r ''addedToolNames'') = [] then [] else [(''addedToolNames'', SList (get_list (fld r ''addedToolNames'')))])))"

definition text_error :: "string \<Rightarrow> store_value" where
  "text_error message = SObj [(''content'', SList [SObj [(''type'', SStr ''text''), (''text'', SStr message)]]), (''details'', SObj []), (''isError'', SBool True)]"

definition fileRefusal :: "string \<Rightarrow> string \<Rightarrow> store_value" where
  "fileRefusal code message = SObj [(''content'', SList []),
     (''details'', SObj [(''file'', SObj [(''ok'', SBool False), (''code'', SStr code), (''message'', SStr message)])]), (''isError'', SBool True)]"

definition fileStopped :: "bool \<Rightarrow> store_value" where
  "fileStopped still =
     (if still then fileRefusal ''aborted'' ''the operation was aborted'' else fileRefusal ''refused_by_grant'' ''the grant was revoked'')"

text \<open>\<open>fileCall\<close>: a file operation as the admission sees it.\<close>

definition fileCall :: "string \<Rightarrow> number option \<Rightarrow> string \<Rightarrow> string \<Rightarrow> string \<Rightarrow> store_value \<Rightarrow> remote_invoke" where
  "fileCall executionId epoch scopeId scopeRoot file_op args =
     \<lparr>ri_epoch = epoch, ri_executionId = executionId, ri_batchId = executionId, ri_index = Fin 0, ri_scopeId = scopeId, ri_scopeRoot = scopeRoot,
      ri_toolCallId = executionId, ri_name = ''file.'' @ file_op, ri_arguments = Some args, ri_sessionRef = None\<rparr>"

section \<open>Invokes\<close>

definition refuse :: "string \<Rightarrow> string \<Rightarrow> string \<Rightarrow> exec_out list" where
  "refuse lane executionId reason = [XReply lane (HandRefused executionId reason)]"

fun grant_refusal_name :: "grant_refusal \<Rightarrow> string" where
  "grant_refusal_name GrantMissing = ''grant_missing''"
| "grant_refusal_name GrantExpired = ''grant_expired''"
| "grant_refusal_name WorkspaceUnknown = ''workspace_unknown''"

definition stateOf :: "string \<Rightarrow> string \<Rightarrow> executor \<Rightarrow> (string, nat) result \<times> executor" where
  "stateOf scopeId dir ex =
     (case map_of (ex_scopes ex) scopeId of
        Some a \<Rightarrow> if st_root (ex_states ex ! a) = dir then (Inr a, ex) else (Inl ''scope_binding_mismatch'', ex)
      | None \<Rightarrow>
          (Inr (length (ex_states ex)),
           ex\<lparr>ex_states := ex_states ex @ [\<lparr>st_root = dir, st_opened = None, st_last = None, st_wave = []\<rparr>],
              ex_scopes := obj_put scopeId (length (ex_states ex)) (ex_scopes ex)\<rparr>))"

text \<open>\<open>invoke\<close> up to its first await.\<close>

definition exec_invoke :: "exec_view \<Rightarrow> string \<Rightarrow> remote_invoke \<Rightarrow> string option \<Rightarrow> executor \<Rightarrow> exec_out list \<times> executor" where
  "exec_invoke view lane call file ex =
     (let executionId = ri_executionId call in
      if ex_closed ex then (refuse lane executionId ''hand_closed'', ex)
      else if lane \<noteq> ri_scopeId call then (refuse lane executionId ''scope_lane_mismatch'', ex)
      else case xv_authorize view (ri_scopeRoot call) of
        GrantRefused reason \<Rightarrow> (refuse lane executionId (grant_refusal_name reason), ex)
      | GrantOk dir \<Rightarrow>
          if \<not> xv_admits view lane (ri_epoch call) then (refuse lane executionId ''epoch_fenced'', ex)
          else if \<not> ex_ledger ex \<and> executionId \<in> set (ex_seen ex) then (refuse lane executionId ''duplicate_execution'', ex)
          else
            (case stateOf (ri_scopeId call) dir (ex\<lparr>ex_seen := List.insert executionId (ex_seen ex)\<rparr>) of
               (Inl reason, ex') \<Rightarrow> (refuse lane executionId reason, ex')
             | (Inr a, ex') \<Rightarrow>
                 ([], ex'\<lparr>ex_pending := ex_pending ex' @
                    [\<lparr>pc_lane = lane, pc_call = call, pc_file = file, pc_root = dir, pc_state = a, pc_phase = AwaitsScope\<rparr>]\<rparr>)))"

text \<open>The synchronous part after the admission: the call is accepted, and what it waits for is fixed.\<close>

definition job_deps :: "bool \<Rightarrow> scope_state \<Rightarrow> nat list" where
  "job_deps sequential st =
     (let last_one = (case st_last st of Some n \<Rightarrow> [n] | None \<Rightarrow> []) in if sequential then last_one @ st_wave st else last_one)"

definition exec_accept :: "(string \<Rightarrow> string \<Rightarrow> bool) \<Rightarrow> pending_call \<Rightarrow> executor \<Rightarrow> executor" where
  "exec_accept isSequential p ex =
     (let executionId = ri_executionId (pc_call p); a = pc_state p; st = ex_states ex ! a; n = length (ex_jobs ex);
          sequential = (pc_file p \<noteq> None \<or> isSequential (st_root st) (ri_name (pc_call p))) in
      ex\<lparr>ex_accepted := ex_accepted ex @ [executionId],
         ex_running := obj_put executionId n (ex_running ex),
         ex_jobs := ex_jobs ex @ [\<lparr>xj_pending = p, xj_sequential = sequential, xj_deps = job_deps sequential st, xj_aborted = False, xj_phase = JobWaits\<rparr>],
         ex_states := (ex_states ex)[a := (if sequential then st\<lparr>st_last := Some n, st_wave := []\<rparr> else st\<lparr>st_wave := st_wave st @ [n]\<rparr>)]\<rparr>)"

definition set_pending :: "nat \<Rightarrow> pending_phase \<Rightarrow> executor \<Rightarrow> executor" where
  "set_pending i phase ex = ex\<lparr>ex_pending := (ex_pending ex)[i := (ex_pending ex ! i)\<lparr>pc_phase := phase\<rparr>]\<rparr>"

text \<open>A pending call goes on once its scope is open, or is refused when it could not be opened.\<close>

definition exec_scope_settled :: "(string \<Rightarrow> string \<Rightarrow> bool) \<Rightarrow> nat \<Rightarrow> executor \<Rightarrow> exec_out list \<times> executor" where
  "exec_scope_settled isSequential i ex =
     (if i < length (ex_pending ex) \<and> pc_phase (ex_pending ex ! i) = AwaitsScope then
        (let p = ex_pending ex ! i in
         case st_opened (ex_states ex ! pc_state p) of
           None \<Rightarrow> ([], ex)
         | Some (Inl reason) \<Rightarrow> (refuse (pc_lane p) (ri_executionId (pc_call p)) (''scope_unavailable: '' @ reason), set_pending i PendingGone ex)
         | Some (Inr _) \<Rightarrow>
             if ex_ledger ex then ([], set_pending i AwaitsLedger ex) else ([], exec_accept isSequential p (set_pending i PendingGone ex)))
      else ([], ex))"

text \<open>The hand ledger's admission; a throw is reported and the call gets no reply.\<close>

definition exec_admitted :: "(string \<Rightarrow> string \<Rightarrow> bool) \<Rightarrow> nat \<Rightarrow> (failure, hand_admission) result \<Rightarrow> executor \<Rightarrow> exec_out list \<times> executor" where
  "exec_admitted isSequential i admission ex =
     (if i < length (ex_pending ex) \<and> pc_phase (ex_pending ex ! i) = AwaitsLedger then
        (let p = ex_pending ex ! i; ex' = set_pending i PendingGone ex in
         case admission of
           Inl _ \<Rightarrow> ([XFault], ex')
         | Inr (HandReply message) \<Rightarrow> ([XReply (pc_lane p) message], ex')
         | Inr HandInFlight \<Rightarrow> ([], ex')
         | Inr HandRun \<Rightarrow> ([], exec_accept isSequential p ex'))
      else ([], ex))"

section \<open>Running and ending a call\<close>

definition set_job :: "nat \<Rightarrow> (exec_job \<Rightarrow> exec_job) \<Rightarrow> executor \<Rightarrow> executor" where
  "set_job n f ex = ex\<lparr>ex_jobs := (ex_jobs ex)[n := f (ex_jobs ex ! n)]\<rparr>"

definition job_done :: "executor \<Rightarrow> nat \<Rightarrow> bool" where
  "job_done ex n \<longleftrightarrow> n < length (ex_jobs ex) \<and> xj_phase (ex_jobs ex ! n) = JobDone"

text \<open>After the body: the call no longer runs, and its result is sent, or first recorded.\<close>

definition exec_result :: "nat \<Rightarrow> store_value \<Rightarrow> executor \<Rightarrow> exec_out list \<times> executor" where
  "exec_result n result ex =
     (let p = xj_pending (ex_jobs ex ! n); executionId = ri_executionId (pc_call p);
          ex' = ex\<lparr>ex_running := obj_del executionId (ex_running ex)\<rparr> in
      if ex_ledger ex then ([], set_job n (\<lambda>j. j\<lparr>xj_phase := JobSettles\<rparr>) ex')
      else ([XReply (pc_lane p) (HandSettled executionId (toRemoteToolResult result))], set_job n (\<lambda>j. j\<lparr>xj_phase := JobDone\<rparr>) ex'))"

text \<open>The catch of the body.\<close>

definition exec_throws :: "exec_view \<Rightarrow> nat \<Rightarrow> string \<Rightarrow> executor \<Rightarrow> exec_out list \<times> executor" where
  "exec_throws view n message ex =
     (let j = ex_jobs ex ! n; p = xj_pending j in
      if pc_file p \<noteq> None then
        (let still = is_ok (xv_authorize view (ri_scopeRoot (pc_call p))) in
         exec_result n (if xj_aborted j \<or> \<not> still then fileStopped still else fileRefusal ''io'' message) ex)
      else exec_result n (text_error message) ex)"

text \<open>Once everything it waits for is done, a call is checked again and starts.\<close>

definition exec_start :: "exec_view \<Rightarrow> nat \<Rightarrow> executor \<Rightarrow> exec_out list \<times> executor" where
  "exec_start view n ex =
     (if n < length (ex_jobs ex) \<and> xj_phase (ex_jobs ex ! n) = JobWaits \<and> list_all (job_done ex) (xj_deps (ex_jobs ex ! n)) then
        (let j = ex_jobs ex ! n; p = xj_pending j; call = pc_call p in
         if \<not> ex_ledger ex \<and> \<not> xv_admits view (pc_lane p) (ri_epoch call)
         then (refuse (pc_lane p) (ri_executionId call) ''epoch_fenced'',
               set_job n (\<lambda>j. j\<lparr>xj_phase := JobDone\<rparr>) (ex\<lparr>ex_running := obj_del (ri_executionId call) (ex_running ex)\<rparr>))
         else if xj_aborted j \<or> \<not> is_ok (xv_authorize view (ri_scopeRoot call))
         then exec_throws view n ''The call's grant was revoked before it ran'' ex
         else if pc_file p \<noteq> None \<and> st_opened (ex_states ex ! pc_state p) = Some (Inr False)
         then exec_result n (fileRefusal ''unsupported'' ''this hand serves no file channel'') ex
         else ([XRun n], set_job n (\<lambda>j. j\<lparr>xj_phase := JobRuns\<rparr>) ex))
      else ([], ex))"

definition exec_ends :: "exec_view \<Rightarrow> nat \<Rightarrow> (string, store_value) result \<Rightarrow> executor \<Rightarrow> exec_out list \<times> executor" where
  "exec_ends view n outcome ex =
     (if n < length (ex_jobs ex) \<and> xj_phase (ex_jobs ex ! n) = JobRuns then
        (let j = ex_jobs ex ! n; p = xj_pending j in
         case outcome of
           Inl message \<Rightarrow> exec_throws view n message ex
         | Inr result \<Rightarrow>
             exec_result n (if pc_file p \<noteq> None \<and> xj_aborted j then fileStopped (is_ok (xv_authorize view (ri_scopeRoot (pc_call p)))) else result) ex)
      else ([], ex))"

text \<open>The ledger's answer to the settlement is sent; a throw is reported, and in both cases the call is over for those that wait on it.\<close>

definition exec_settled :: "nat \<Rightarrow> (failure, hand_message) result \<Rightarrow> executor \<Rightarrow> exec_out list \<times> executor" where
  "exec_settled n answer ex =
     (if n < length (ex_jobs ex) \<and> xj_phase (ex_jobs ex ! n) = JobSettles then
        (case answer of Inr message \<Rightarrow> [XReply (pc_lane (xj_pending (ex_jobs ex ! n))) message] | Inl _ \<Rightarrow> [XFault],
         set_job n (\<lambda>j. j\<lparr>xj_phase := JobDone\<rparr>) ex)
      else ([], ex))"

section \<open>Aborts, acks, replaced grants, closing\<close>

definition exec_abort :: "exec_view \<Rightarrow> string \<Rightarrow> string \<Rightarrow> number option \<Rightarrow> executor \<Rightarrow> exec_out list \<times> executor" where
  "exec_abort view lane executionId epoch ex =
     (if \<not> xv_admits view lane epoch then ([], ex)
      else case map_of (ex_running ex) executionId of
        None \<Rightarrow> ([], ex)
      | Some n \<Rightarrow> ([], set_job n (\<lambda>j. j\<lparr>xj_aborted := True\<rparr>) ex))"

definition exec_ack :: "exec_view \<Rightarrow> string \<Rightarrow> string \<Rightarrow> number option \<Rightarrow> executor \<Rightarrow> exec_out list \<times> executor" where
  "exec_ack view lane executionId epoch ex =
     (if \<not> xv_admits view lane epoch \<or> \<not> ex_ledger ex then ([], ex) else ([XAck executionId], ex))"

definition abort_all :: "(exec_job \<Rightarrow> bool) \<Rightarrow> executor \<Rightarrow> executor" where
  "abort_all P ex = foldl (\<lambda>ex (_, n). if P (ex_jobs ex ! n) then set_job n (\<lambda>j. j\<lparr>xj_aborted := True\<rparr>) ex else ex) ex (ex_running ex)"

text \<open>A replaced grant snapshot aborts the running calls it no longer allows, until \<open>close\<close> stops the watching.\<close>

definition exec_replaced :: "exec_view \<Rightarrow> executor \<Rightarrow> exec_out list \<times> executor" where
  "exec_replaced view ex = ([], if ex_closed ex then ex else abort_all (\<lambda>j. \<not> is_ok (xv_authorize view (pc_root (xj_pending j)))) ex)"

definition exec_close :: "executor \<Rightarrow> exec_out list \<times> executor" where
  "exec_close ex = ([], abort_all (\<lambda>_. True) (ex\<lparr>ex_closed := True\<rparr>))"

text \<open>Later in \<open>close\<close>, once every opening scope has settled: the scopes are forgotten and disposed.\<close>

definition exec_forget :: "executor \<Rightarrow> exec_out list \<times> executor" where
  "exec_forget ex =
     (if ex_closed ex \<and> list_all (\<lambda>(_, a). st_opened (ex_states ex ! a) \<noteq> None) (ex_scopes ex) then ([], ex\<lparr>ex_scopes := []\<rparr>) else ([], ex))"

text \<open>The promise of an opening scope settles.\<close>

definition exec_opened :: "nat \<Rightarrow> (string, bool) result \<Rightarrow> executor \<Rightarrow> exec_out list \<times> executor" where
  "exec_opened a outcome ex =
     (if a < length (ex_states ex) \<and> st_opened (ex_states ex ! a) = None
      then ([], ex\<lparr>ex_states := (ex_states ex)[a := (ex_states ex ! a)\<lparr>st_opened := Some outcome\<rparr>]\<rparr>) else ([], ex))"

datatype exec_event =
    XvInvoke exec_view string remote_invoke "string option"
  | XvOpened nat "(string, bool) result"
  | XvScope nat
  | XvAdmitted nat "(failure, hand_admission) result"
  | XvStart exec_view nat
  | XvEnds exec_view nat "(string, store_value) result"
  | XvSettled nat "(failure, hand_message) result"
  | XvAbort exec_view string string "number option"
  | XvAckFrame exec_view string string "number option"
  | XvReplaced exec_view
  | XvClose
  | XvForget

fun exec_step :: "(string \<Rightarrow> string \<Rightarrow> bool) \<Rightarrow> exec_event \<Rightarrow> executor \<Rightarrow> exec_out list \<times> executor" where
  "exec_step isSequential (XvInvoke view lane call file) ex = exec_invoke view lane call file ex"
| "exec_step isSequential (XvOpened a outcome) ex = exec_opened a outcome ex"
| "exec_step isSequential (XvScope i) ex = exec_scope_settled isSequential i ex"
| "exec_step isSequential (XvAdmitted i admission) ex = exec_admitted isSequential i admission ex"
| "exec_step isSequential (XvStart view n) ex = exec_start view n ex"
| "exec_step isSequential (XvEnds view n outcome) ex = exec_ends view n outcome ex"
| "exec_step isSequential (XvSettled n answer) ex = exec_settled n answer ex"
| "exec_step isSequential (XvAbort view lane executionId epoch) ex = exec_abort view lane executionId epoch ex"
| "exec_step isSequential (XvAckFrame view lane executionId epoch) ex = exec_ack view lane executionId epoch ex"
| "exec_step isSequential (XvReplaced view) ex = exec_replaced view ex"
| "exec_step isSequential XvClose ex = exec_close ex"
| "exec_step isSequential XvForget ex = exec_forget ex"

end
