(* ===== verification/Executor_Correct.thy ===== *)
theory Executor_Correct
  imports Remote_Executor
begin

text \<open>
  What holds in every state of an executor of one link: a step either admits a new call, accepts an admitted one, or only moves
  calls along. From that follow the order in which the calls of a scope run, the binding of a scope to one root, and, without a
  ledger, that an execution id is accepted at most once.
\<close>

section \<open>What a step does\<close>

definition job_core :: "exec_job \<Rightarrow> exec_job" where
  "job_core j = j\<lparr>xj_aborted := False, xj_phase := JobWaits\<rparr>"

definition call_core :: "pending_call \<Rightarrow> pending_call" where
  "call_core p = p\<lparr>pc_phase := PendingGone\<rparr>"

definition st_core :: "scope_state \<Rightarrow> scope_state" where
  "st_core st = st\<lparr>st_opened := None\<rparr>"

lemmas core_defs = job_core_def call_core_def st_core_def

lemma job_core_eq: "job_core j = job_core k \<Longrightarrow> xj_pending j = xj_pending k \<and> xj_sequential j = xj_sequential k \<and> xj_deps j = xj_deps k"
  by (cases j; cases k) (simp add: job_core_def)

lemma call_core_eq: "call_core p = call_core q \<Longrightarrow> pc_lane p = pc_lane q \<and> pc_call p = pc_call q \<and> pc_root p = pc_root q \<and> pc_state p = pc_state q"
  by (cases p; cases q) (simp add: call_core_def)

lemma st_core_eq: "st_core s = st_core t \<Longrightarrow> st_root s = st_root t \<and> st_last s = st_last t \<and> st_wave s = st_wave t"
  by (cases s; cases t) (simp add: st_core_def)

lemma nth_update_if: "k < length xs \<Longrightarrow> xs[i := y] ! k = (if k = i then y else xs ! k)"
  by (simp add: nth_list_update)

text \<open>Calls only move along: a job leaves \<open>JobWaits\<close> only when what it waits for is done, and stays done once it is.\<close>

definition jobs_go :: "executor \<Rightarrow> executor \<Rightarrow> bool" where
  "jobs_go ex ex' \<longleftrightarrow> map job_core (ex_jobs ex') = map job_core (ex_jobs ex) \<and>
     (\<forall>n < length (ex_jobs ex).
        (xj_phase (ex_jobs ex' ! n) \<noteq> JobWaits \<longrightarrow> xj_phase (ex_jobs ex ! n) \<noteq> JobWaits \<or> list_all (job_done ex) (xj_deps (ex_jobs ex ! n))) \<and>
        (xj_phase (ex_jobs ex ! n) \<noteq> JobWaits \<longrightarrow> xj_phase (ex_jobs ex' ! n) \<noteq> JobWaits) \<and> (job_done ex n \<longrightarrow> job_done ex' n))"

definition calls_go :: "executor \<Rightarrow> executor \<Rightarrow> bool" where
  "calls_go ex ex' \<longleftrightarrow> map call_core (ex_pending ex') = map call_core (ex_pending ex) \<and>
     (\<forall>i < length (ex_pending ex). pc_phase (ex_pending ex' ! i) \<noteq> PendingGone \<longrightarrow> pc_phase (ex_pending ex ! i) \<noteq> PendingGone)"

definition exec_go :: "executor \<Rightarrow> executor \<Rightarrow> bool" where
  "exec_go ex ex' \<longleftrightarrow> ex_ledger ex' = ex_ledger ex \<and> ex_accepted ex' = ex_accepted ex \<and> set (ex_seen ex) \<subseteq> set (ex_seen ex') \<and>
     (ex_closed ex \<longrightarrow> ex_closed ex') \<and> (ex_scopes ex' = ex_scopes ex \<or> ex_closed ex') \<and>
     map st_core (ex_states ex') = map st_core (ex_states ex) \<and> jobs_go ex ex' \<and> calls_go ex ex'"

lemma jobs_go_same: "map (\<lambda>j. j\<lparr>xj_aborted := False\<rparr>) (ex_jobs ex') = map (\<lambda>j. j\<lparr>xj_aborted := False\<rparr>) (ex_jobs ex) \<Longrightarrow> jobs_go ex ex'"
proof -
  assume a: "map (\<lambda>j. j\<lparr>xj_aborted := False\<rparr>) (ex_jobs ex') = map (\<lambda>j. j\<lparr>xj_aborted := False\<rparr>) (ex_jobs ex)"
  then have l: "length (ex_jobs ex') = length (ex_jobs ex)" by (metis length_map)
  have n: "n < length (ex_jobs ex) \<Longrightarrow> (ex_jobs ex' ! n)\<lparr>xj_aborted := False\<rparr> = (ex_jobs ex ! n)\<lparr>xj_aborted := False\<rparr>" for n
    using a l by (metis nth_map)
  have c: "n < length (ex_jobs ex) \<Longrightarrow> job_core (ex_jobs ex' ! n) = job_core (ex_jobs ex ! n) \<and> xj_phase (ex_jobs ex' ! n) = xj_phase (ex_jobs ex ! n)" for n
    using n [of n] by (cases "ex_jobs ex' ! n"; cases "ex_jobs ex ! n") (simp add: job_core_def)
  show ?thesis unfolding jobs_go_def job_done_def using l c by (auto intro: nth_equalityI)
qed

lemma jobs_go_refl [simp]: "jobs_go ex (ex\<lparr>ex_running := r\<rparr>)" "jobs_go ex ex"
  by (auto intro: jobs_go_same)

lemma calls_go_same: "ex_pending ex' = ex_pending ex \<Longrightarrow> calls_go ex ex'"
  by (simp add: calls_go_def)

lemma exec_go_refl: "exec_go ex ex"
  by (simp add: exec_go_def calls_go_same)

lemma map_update_id: "(i < length xs \<Longrightarrow> f y = f (xs ! i)) \<Longrightarrow> map f (xs[i := y]) = map f xs"
  by (rule nth_equalityI) (auto simp: nth_update_if)

text \<open>One job changes its phase.\<close>

lemma set_job_go:
  assumes "ex_jobs ex1 = ex_jobs ex" "n < length (ex_jobs ex)" "xj_phase (ex_jobs ex ! n) \<noteq> JobDone"
    "xj_phase (ex_jobs ex ! n) = JobWaits \<Longrightarrow> list_all (job_done ex) (xj_deps (ex_jobs ex ! n))" "ph \<noteq> JobWaits"
  shows "jobs_go ex (set_job n (\<lambda>j. j\<lparr>xj_phase := ph\<rparr>) ex1)"
  using assms unfolding jobs_go_def set_job_def job_done_def
  by (auto simp: job_core_def nth_list_update intro!: map_update_id)

lemma set_job_fields [simp]:
  "ex_ledger (set_job n f ex) = ex_ledger ex" "ex_accepted (set_job n f ex) = ex_accepted ex" "ex_seen (set_job n f ex) = ex_seen ex"
  "ex_closed (set_job n f ex) = ex_closed ex" "ex_scopes (set_job n f ex) = ex_scopes ex" "ex_states (set_job n f ex) = ex_states ex"
  "ex_pending (set_job n f ex) = ex_pending ex" "ex_running (set_job n f ex) = ex_running ex"
  by (simp_all add: set_job_def)

lemma set_pending_fields [simp]:
  "ex_ledger (set_pending i ph ex) = ex_ledger ex" "ex_accepted (set_pending i ph ex) = ex_accepted ex" "ex_seen (set_pending i ph ex) = ex_seen ex"
  "ex_closed (set_pending i ph ex) = ex_closed ex" "ex_scopes (set_pending i ph ex) = ex_scopes ex" "ex_states (set_pending i ph ex) = ex_states ex"
  "ex_jobs (set_pending i ph ex) = ex_jobs ex" "ex_running (set_pending i ph ex) = ex_running ex"
  by (simp_all add: set_pending_def)

lemma set_pending_go:
  assumes "pc_phase (ex_pending ex ! i) \<noteq> PendingGone"
  shows "calls_go ex (set_pending i ph ex)"
  using assms unfolding calls_go_def set_pending_def
  by (auto simp: call_core_def nth_update_if split: if_splits intro!: map_update_id)

lemma set_job_exec_go:
  assumes "n < length (ex_jobs ex)" "xj_phase (ex_jobs ex ! n) \<noteq> JobDone"
    "xj_phase (ex_jobs ex ! n) = JobWaits \<Longrightarrow> list_all (job_done ex) (xj_deps (ex_jobs ex ! n))" "ph \<noteq> JobWaits"
  shows "exec_go ex (set_job n (\<lambda>j. j\<lparr>xj_phase := ph\<rparr>) (ex\<lparr>ex_running := r\<rparr>))"
    "exec_go ex (set_job n (\<lambda>j. j\<lparr>xj_phase := ph\<rparr>) ex)"
  using set_job_go [of "ex\<lparr>ex_running := r\<rparr>" ex n ph] set_job_go [of ex ex n ph] assms
  by (simp_all add: exec_go_def calls_go_same)

lemma exec_result_go:
  assumes "n < length (ex_jobs ex)" "xj_phase (ex_jobs ex ! n) \<noteq> JobDone"
    "xj_phase (ex_jobs ex ! n) = JobWaits \<Longrightarrow> list_all (job_done ex) (xj_deps (ex_jobs ex ! n))"
  shows "exec_go ex (snd (exec_result n result ex))"
  using set_job_exec_go(1) [OF assms] by (simp add: exec_result_def Let_def)

lemma exec_throws_go:
  assumes "n < length (ex_jobs ex)" "xj_phase (ex_jobs ex ! n) \<noteq> JobDone"
    "xj_phase (ex_jobs ex ! n) = JobWaits \<Longrightarrow> list_all (job_done ex) (xj_deps (ex_jobs ex ! n))"
  shows "exec_go ex (snd (exec_throws view n message ex))"
  using exec_result_go [OF assms] by (simp add: exec_throws_def Let_def)

lemma exec_start_go: "exec_go ex (snd (exec_start view n ex))"
  unfolding exec_start_def using exec_go_refl
  by (auto simp: Let_def intro!: set_job_exec_go exec_throws_go exec_result_go)

lemma exec_ends_go: "exec_go ex (snd (exec_ends view n outcome ex))"
  unfolding exec_ends_def using exec_go_refl
  by (auto simp: Let_def split: sum.splits intro!: exec_throws_go exec_result_go)

lemma exec_settled_go: "exec_go ex (snd (exec_settled n answer ex))"
  unfolding exec_settled_def using exec_go_refl by (auto simp: Let_def intro!: set_job_exec_go)

lemma abort_jobs:
  "map (\<lambda>j. j\<lparr>xj_aborted := False\<rparr>) (ex_jobs (set_job n (\<lambda>j. j\<lparr>xj_aborted := True\<rparr>) ex)) = map (\<lambda>j. j\<lparr>xj_aborted := False\<rparr>) (ex_jobs ex)"
  unfolding set_job_def by (auto intro!: map_update_id)

lemma abort_all_fields:
  "map (\<lambda>j. j\<lparr>xj_aborted := False\<rparr>) (ex_jobs (abort_all P ex)) = map (\<lambda>j. j\<lparr>xj_aborted := False\<rparr>) (ex_jobs ex)"
  "(abort_all P ex)\<lparr>ex_jobs := []\<rparr> = ex\<lparr>ex_jobs := []\<rparr>"
proof -
  have "map (\<lambda>j. j\<lparr>xj_aborted := False\<rparr>) (ex_jobs (foldl (\<lambda>ex (_, n). if P (ex_jobs ex ! n) then set_job n (\<lambda>j. j\<lparr>xj_aborted := True\<rparr>) ex else ex) ex r))
          = map (\<lambda>j. j\<lparr>xj_aborted := False\<rparr>) (ex_jobs ex) \<and>
        (foldl (\<lambda>ex (_, n). if P (ex_jobs ex ! n) then set_job n (\<lambda>j. j\<lparr>xj_aborted := True\<rparr>) ex else ex) ex r)\<lparr>ex_jobs := []\<rparr> = ex\<lparr>ex_jobs := []\<rparr>"
    for r :: "(string \<times> nat) list"
  proof (induction r arbitrary: ex)
    case (Cons a r)
    have "(set_job n (\<lambda>j. j\<lparr>xj_aborted := True\<rparr>) ex)\<lparr>ex_jobs := []\<rparr> = ex\<lparr>ex_jobs := []\<rparr>" for n by (simp add: set_job_def)
    with Cons show ?case by (cases a) (simp add: abort_jobs)
  qed simp
  then show "map (\<lambda>j. j\<lparr>xj_aborted := False\<rparr>) (ex_jobs (abort_all P ex)) = map (\<lambda>j. j\<lparr>xj_aborted := False\<rparr>) (ex_jobs ex)"
    "(abort_all P ex)\<lparr>ex_jobs := []\<rparr> = ex\<lparr>ex_jobs := []\<rparr>" by (simp_all add: abort_all_def)
qed

lemma abort_all_go:
  assumes "ex_ledger ex1 = ex_ledger ex" "ex_accepted ex1 = ex_accepted ex" "ex_seen ex1 = ex_seen ex" "ex_closed ex \<Longrightarrow> ex_closed ex1"
    "ex_scopes ex1 = ex_scopes ex" "ex_states ex1 = ex_states ex" "ex_pending ex1 = ex_pending ex" "ex_jobs ex1 = ex_jobs ex"
  shows "exec_go ex (abort_all P ex1)"
proof -
  have f: "ex_ledger (abort_all P ex1) = ex_ledger ex1 \<and> ex_accepted (abort_all P ex1) = ex_accepted ex1 \<and> ex_seen (abort_all P ex1) = ex_seen ex1 \<and>
      ex_closed (abort_all P ex1) = ex_closed ex1 \<and> ex_scopes (abort_all P ex1) = ex_scopes ex1 \<and> ex_states (abort_all P ex1) = ex_states ex1 \<and>
      ex_pending (abort_all P ex1) = ex_pending ex1"
    using abort_all_fields(2) [of P ex1] by (cases "abort_all P ex1"; cases ex1) simp
  have "jobs_go ex (abort_all P ex1)" by (rule jobs_go_same) (simp add: abort_all_fields(1) assms(8))
  with f assms show ?thesis by (simp add: exec_go_def calls_go_same)
qed

text \<open>A new call: its scope is known and bound to the call's root, or opened for it.\<close>

definition call_added :: "pending_call \<Rightarrow> executor \<Rightarrow> executor \<Rightarrow> bool" where
  "call_added p ex ex' \<longleftrightarrow> \<not> ex_closed ex \<and> (\<not> ex_ledger ex \<longrightarrow> ri_executionId (pc_call p) \<notin> set (ex_seen ex)) \<and>
     set (ex_seen ex') = insert (ri_executionId (pc_call p)) (set (ex_seen ex)) \<and>
     ex_pending ex' = ex_pending ex @ [p] \<and> ex_jobs ex' = ex_jobs ex \<and> ex_accepted ex' = ex_accepted ex \<and> ex_ledger ex' = ex_ledger ex \<and>
     ex_closed ex' = ex_closed ex \<and>
     (case map_of (ex_scopes ex) (ri_scopeId (pc_call p)) of
        Some a \<Rightarrow> pc_state p = a \<and> pc_root p = st_root (ex_states ex ! a) \<and> ex_states ex' = ex_states ex \<and> ex_scopes ex' = ex_scopes ex
      | None \<Rightarrow> pc_state p = length (ex_states ex) \<and>
          ex_states ex' = ex_states ex @ [\<lparr>st_root = pc_root p, st_opened = None, st_last = None, st_wave = []\<rparr>] \<and>
          ex_scopes ex' = obj_put (ri_scopeId (pc_call p)) (length (ex_states ex)) (ex_scopes ex))"

lemma exec_go_seen: "exec_go ex (ex\<lparr>ex_seen := List.insert k (ex_seen ex)\<rparr>)"
  by (auto simp: exec_go_def intro: calls_go_same jobs_go_same)

lemma exec_invoke_cases:
  assumes "exec_invoke view lane call file ex = (out, ex')"
  shows "exec_go ex ex' \<or> (\<exists>p. call_added p ex ex')"
proof (cases "map_of (ex_scopes ex) (ri_scopeId call)")
  case None
  then show ?thesis using assms exec_go_refl
    by (auto simp: exec_invoke_def stateOf_def Let_def split: if_splits grant_verdict.splits)
       (auto simp: call_added_def)
next
  case (Some a)
  then show ?thesis using assms exec_go_refl exec_go_seen
    by (auto simp: exec_invoke_def stateOf_def Let_def split: if_splits grant_verdict.splits)
       (auto simp: call_added_def)
qed

text \<open>An admitted call is accepted.\<close>

definition call_accepted :: "(string \<Rightarrow> string \<Rightarrow> bool) \<Rightarrow> nat \<Rightarrow> executor \<Rightarrow> executor \<Rightarrow> bool" where
  "call_accepted isSequential i ex ex' \<longleftrightarrow> i < length (ex_pending ex) \<and> pc_phase (ex_pending ex ! i) \<noteq> PendingGone \<and>
     ex' = exec_accept isSequential (ex_pending ex ! i) (set_pending i PendingGone ex)"

lemma set_pending_exec_go: "pc_phase (ex_pending ex ! i) \<noteq> PendingGone \<Longrightarrow> exec_go ex (set_pending i ph ex)"
  by (simp add: exec_go_def set_pending_go) (simp add: jobs_go_same)

lemma exec_step_other:
  assumes "exec_step isSequential e ex = (out, ex')" "\<And>view lane call fl. e \<noteq> XvInvoke view lane call fl"
  shows "exec_go ex ex' \<or> (\<exists>i. call_accepted isSequential i ex ex')"
proof (cases e)
  case (XvOpened a outcome)
  then show ?thesis using assms(1) exec_go_refl [of ex]
    by (auto simp: exec_opened_def exec_go_def st_core_def calls_go_same split: if_splits intro!: map_update_id jobs_go_same)
next
  case (XvScope i)
  then show ?thesis using assms(1) exec_go_refl [of ex]
    by (auto simp: exec_scope_settled_def call_accepted_def Let_def split: if_splits option.splits sum.splits intro: set_pending_exec_go)
next
  case (XvAdmitted i admission)
  then show ?thesis using assms(1) exec_go_refl [of ex]
    by (auto simp: exec_admitted_def call_accepted_def Let_def split: if_splits sum.splits hand_admission.splits intro: set_pending_exec_go)
next
  case (XvStart view n)
  then show ?thesis using assms(1) exec_start_go [of ex view n] by simp
next
  case (XvEnds view n outcome)
  then show ?thesis using assms(1) exec_ends_go [of ex view n outcome] by simp
next
  case (XvSettled n answer)
  then show ?thesis using assms(1) exec_settled_go [of ex n answer] by simp
next
  case (XvAbort view lane k epoch)
  have "exec_go ex (set_job n (\<lambda>j. j\<lparr>xj_aborted := True\<rparr>) ex)" for n
    using jobs_go_same [OF abort_jobs] by (simp add: exec_go_def calls_go_same)
  with XvAbort show ?thesis using assms(1) exec_go_refl [of ex] by (auto simp: exec_abort_def split: if_splits option.splits)
next
  case (XvAckFrame view lane k epoch)
  then show ?thesis using assms(1) exec_go_refl [of ex] by (auto simp: exec_ack_def split: if_splits)
next
  case (XvReplaced view)
  then show ?thesis using assms(1) exec_go_refl [of ex] abort_all_go [of ex ex] by (auto simp: exec_replaced_def split: if_splits)
next
  case XvClose
  then show ?thesis using assms(1) abort_all_go [of "ex\<lparr>ex_closed := True\<rparr>" ex] by (auto simp: exec_close_def)
next
  case XvForget
  then show ?thesis using assms(1) exec_go_refl [of ex] by (auto simp: exec_forget_def exec_go_def calls_go_same jobs_go_same split: if_splits)
qed (use assms(2) in auto)

lemma exec_step_cases:
  assumes "exec_step isSequential e ex = (out, ex')"
  obtains (go) "exec_go ex ex'" | (added) p where "call_added p ex ex'" | (accepted) i where "call_accepted isSequential i ex ex'"
proof -
  have "exec_go ex ex' \<or> (\<exists>p. call_added p ex ex') \<or> (\<exists>i. call_accepted isSequential i ex ex')"
  proof (cases "\<exists>view lane call fl. e = XvInvoke view lane call fl")
    case True
    then obtain view lane call fl where "e = XvInvoke view lane call fl" by blast
    then show ?thesis using exec_invoke_cases [of view lane call fl ex out ex'] assms by auto
  next
    case False
    then show ?thesis using exec_step_other [OF assms] by blast
  qed
  then show thesis using that by blast
qed

section \<open>Invariants\<close>

abbreviation call_scope :: "pending_call \<Rightarrow> string" where "call_scope p \<equiv> ri_scopeId (pc_call p)"
abbreviation call_id :: "pending_call \<Rightarrow> string" where "call_id p \<equiv> ri_executionId (pc_call p)"
abbreviation job_call :: "executor \<Rightarrow> nat \<Rightarrow> pending_call" where "job_call ex n \<equiv> xj_pending (ex_jobs ex ! n)"

text \<open>The calls an executor has taken, as what does not change of them.\<close>

definition calls_of :: "executor \<Rightarrow> pending_call set" where
  "calls_of ex = set (map call_core (ex_pending ex)) \<union> set (map (\<lambda>j. call_core (xj_pending j)) (ex_jobs ex))"

lemma job_core_pending: "map (\<lambda>j. call_core (xj_pending j)) js = map (\<lambda>j. call_core (xj_pending j)) (map job_core js)"
  by (simp add: job_core_def comp_def)

lemma calls_of_go: "exec_go ex ex' \<Longrightarrow> calls_of ex' = calls_of ex"
  unfolding calls_of_def exec_go_def jobs_go_def calls_go_def by (metis job_core_pending)

lemma calls_of_added: "call_added p ex ex' \<Longrightarrow> calls_of ex' = insert (call_core p) (calls_of ex)"
  by (auto simp: calls_of_def call_added_def)

lemma exec_accept_fields [simp]:
  "ex_pending (exec_accept f p ex) = ex_pending ex" "ex_closed (exec_accept f p ex) = ex_closed ex" "ex_scopes (exec_accept f p ex) = ex_scopes ex"
  "ex_seen (exec_accept f p ex) = ex_seen ex" "ex_ledger (exec_accept f p ex) = ex_ledger ex" "ex_accepted (exec_accept f p ex) = ex_accepted ex @ [call_id p]"
  "length (ex_states (exec_accept f p ex)) = length (ex_states ex)"
  by (simp_all add: exec_accept_def Let_def)

lemma exec_accept_root: "map st_root (ex_states (exec_accept f p ex)) = map st_root (ex_states ex)"
  by (auto simp: exec_accept_def Let_def intro!: map_update_id)

lemma set_pending_core: "map call_core (ex_pending (set_pending i ph ex)) = map call_core (ex_pending ex)"
  by (auto simp: set_pending_def call_core_def intro!: map_update_id)

lemma calls_of_accepted: "call_accepted f i ex ex' \<Longrightarrow> calls_of ex' = calls_of ex"
  by (auto simp: calls_of_def call_accepted_def set_pending_core simp del: set_map) 
     (auto simp: exec_accept_def Let_def)

text \<open>Every call has a scope state bound to its root; calls of one scope share the state, which stays the scope's until the executor is closed.\<close>

definition bind_inv :: "executor \<Rightarrow> bool" where
  "bind_inv ex \<longleftrightarrow>
     (\<forall>p \<in> calls_of ex. pc_state p < length (ex_states ex) \<and> pc_root p = st_root (ex_states ex ! pc_state p)) \<and>
     (\<forall>p \<in> calls_of ex. \<forall>q \<in> calls_of ex. call_scope p = call_scope q \<longrightarrow> pc_state p = pc_state q) \<and>
     (\<not> ex_closed ex \<longrightarrow> (\<forall>p \<in> calls_of ex. map_of (ex_scopes ex) (call_scope p) = Some (pc_state p)) \<and>
        (\<forall>k a. map_of (ex_scopes ex) k = Some a \<longrightarrow> a < length (ex_states ex)))"

lemma bind_invI:
  assumes "\<And>p. p \<in> calls_of ex \<Longrightarrow> pc_state p < length (ex_states ex) \<and> pc_root p = st_root (ex_states ex ! pc_state p)"
    "\<And>p q. p \<in> calls_of ex \<Longrightarrow> q \<in> calls_of ex \<Longrightarrow> call_scope p = call_scope q \<Longrightarrow> pc_state p = pc_state q"
    "\<And>p. \<not> ex_closed ex \<Longrightarrow> p \<in> calls_of ex \<Longrightarrow> map_of (ex_scopes ex) (call_scope p) = Some (pc_state p)"
    "\<And>k a. \<not> ex_closed ex \<Longrightarrow> map_of (ex_scopes ex) k = Some a \<Longrightarrow> a < length (ex_states ex)"
  shows "bind_inv ex"
  using assms unfolding bind_inv_def by blast

lemma bind_invD:
  assumes "bind_inv ex"
  shows "p \<in> calls_of ex \<Longrightarrow> pc_state p < length (ex_states ex) \<and> pc_root p = st_root (ex_states ex ! pc_state p)"
    "p \<in> calls_of ex \<Longrightarrow> q \<in> calls_of ex \<Longrightarrow> call_scope p = call_scope q \<Longrightarrow> pc_state p = pc_state q"
    "\<not> ex_closed ex \<Longrightarrow> p \<in> calls_of ex \<Longrightarrow> map_of (ex_scopes ex) (call_scope p) = Some (pc_state p)"
    "\<not> ex_closed ex \<Longrightarrow> map_of (ex_scopes ex) k = Some a \<Longrightarrow> a < length (ex_states ex)"
  using assms unfolding bind_inv_def by blast+

lemma st_core_roots: "map st_core ss = map st_core ts \<Longrightarrow> map st_root ss = map st_root ts"
proof -
  assume "map st_core ss = map st_core ts"
  then have "map st_root (map st_core ss) = map st_root (map st_core ts)" by simp
  then show ?thesis by (simp add: comp_def st_core_def)
qed

lemma bind_inv_roots:
  assumes "bind_inv ex" "calls_of ex' = calls_of ex" "map st_root (ex_states ex') = map st_root (ex_states ex)"
    "ex_closed ex \<Longrightarrow> ex_closed ex'" "ex_scopes ex' = ex_scopes ex \<or> ex_closed ex'"
  shows "bind_inv ex'"
proof -
  have l: "length (ex_states ex') = length (ex_states ex)" using assms(3) by (metis length_map)
  then have r: "a < length (ex_states ex) \<Longrightarrow> st_root (ex_states ex' ! a) = st_root (ex_states ex ! a)" for a
    using assms(3) by (metis nth_map)
  have s: "\<not> ex_closed ex' \<Longrightarrow> ex_scopes ex' = ex_scopes ex \<and> \<not> ex_closed ex" using assms(4,5) by blast
  note d = bind_invD [OF assms(1)]
  show ?thesis
  proof (rule bind_invI)
    show "pc_state p < length (ex_states ex') \<and> pc_root p = st_root (ex_states ex' ! pc_state p)" if "p \<in> calls_of ex'" for p
      using d(1) [of p] that by (simp add: assms(2) l r)
    show "pc_state p = pc_state q" if "p \<in> calls_of ex'" "q \<in> calls_of ex'" "call_scope p = call_scope q" for p q
      using d(2) [of p q] that unfolding assms(2) .
    show "map_of (ex_scopes ex') (call_scope p) = Some (pc_state p)" if "\<not> ex_closed ex'" "p \<in> calls_of ex'" for p
      using d(3) [of p] s [OF that(1)] that(2) by (simp add: assms(2))
    show "a < length (ex_states ex')" if "\<not> ex_closed ex'" "map_of (ex_scopes ex') k = Some a" for k a
      using d(4) [of k a] s [OF that(1)] that(2) l by simp
  qed
qed

lemma bind_inv_added:
  assumes "bind_inv ex" "call_added p ex ex'"
  shows "bind_inv ex'"
proof (cases "map_of (ex_scopes ex) (call_scope p)")
  case (Some a)
  then have f: "pc_state p = a" "pc_root p = st_root (ex_states ex ! a)" "ex_states ex' = ex_states ex" "ex_scopes ex' = ex_scopes ex"
    "ex_closed ex' = ex_closed ex" "\<not> ex_closed ex" using assms(2) by (auto simp: call_added_def)
  note d = bind_invD [OF assms(1)]
  have q: "pc_state q = a" if "q \<in> calls_of ex" "call_scope q = call_scope p" for q
    using d(3) [OF f(6) that(1)] that(2) Some by simp
  have c: "call_scope (call_core p) = call_scope p" "pc_state (call_core p) = a" "pc_root (call_core p) = pc_root p"
    by (simp_all add: call_core_def f(1))
  note e = calls_of_added [OF assms(2)]
  show ?thesis
  proof (rule bind_invI)
    show "pc_state r < length (ex_states ex') \<and> pc_root r = st_root (ex_states ex' ! pc_state r)" if "r \<in> calls_of ex'" for r
      using that d(1) [of r] d(4) [OF f(6) Some] c f by (auto simp: e)
    show "pc_state r = pc_state r'" if "r \<in> calls_of ex'" "r' \<in> calls_of ex'" "call_scope r = call_scope r'" for r r'
      using that d(2) [of r r'] q [of r] q [of r'] c by (auto simp: e)
    show "map_of (ex_scopes ex') (call_scope r) = Some (pc_state r)" if "r \<in> calls_of ex'" for r
      using that d(3) [OF f(6), of r] c f Some by (auto simp: e)
    show "b < length (ex_states ex')" if "map_of (ex_scopes ex') k = Some b" for k b
      using that d(4) [OF f(6)] f by simp
  qed
next
  case None
  then have f: "pc_state p = length (ex_states ex)" "ex_states ex' = ex_states ex @ [\<lparr>st_root = pc_root p, st_opened = None, st_last = None, st_wave = []\<rparr>]"
    "ex_scopes ex' = obj_put (call_scope p) (length (ex_states ex)) (ex_scopes ex)"
    "ex_closed ex' = ex_closed ex" "\<not> ex_closed ex" using assms(2) by (auto simp: call_added_def)
  note d = bind_invD [OF assms(1)]
  have q: "call_scope q \<noteq> call_scope p" if "q \<in> calls_of ex" for q
    using d(3) [OF f(5) that] None by auto
  have c: "call_scope (call_core p) = call_scope p" "pc_state (call_core p) = length (ex_states ex)" "pc_root (call_core p) = pc_root p"
    by (simp_all add: call_core_def f(1))
  note e = calls_of_added [OF assms(2)]
  show ?thesis
  proof (rule bind_invI)
    show "pc_state r < length (ex_states ex') \<and> pc_root r = st_root (ex_states ex' ! pc_state r)" if "r \<in> calls_of ex'" for r
      using that d(1) [of r] c by (auto simp: e f(2) nth_append)
    show "pc_state r = pc_state r'" if "r \<in> calls_of ex'" "r' \<in> calls_of ex'" "call_scope r = call_scope r'" for r r'
      using that d(2) [of r r'] q [of r] q [of r'] c by (auto simp: e)
    show "map_of (ex_scopes ex') (call_scope r) = Some (pc_state r)" if "r \<in> calls_of ex'" for r
      using that d(3) [OF f(5), of r] q [of r] c by (auto simp: e f(3))
    show "b < length (ex_states ex')" if "map_of (ex_scopes ex') k = Some b" for k b
      using that d(4) [OF f(5), of k b] by (auto simp: f(2,3) split: if_splits)
  qed
qed

lemma bind_inv_step:
  assumes "bind_inv ex" "exec_step f e ex = (out, ex')"
  shows "bind_inv ex'"
  using assms(2)
proof (cases rule: exec_step_cases)
  case go
  then have "map st_core (ex_states ex') = map st_core (ex_states ex)" "ex_closed ex \<Longrightarrow> ex_closed ex'" "ex_scopes ex' = ex_scopes ex \<or> ex_closed ex'"
    by (simp_all add: exec_go_def)
  then show ?thesis using bind_inv_roots [OF assms(1) calls_of_go [OF go]] st_core_roots by blast
next
  case (added p)
  then show ?thesis by (rule bind_inv_added [OF assms(1)])
next
  case (accepted i)
  then show ?thesis using bind_inv_roots [OF assms(1) calls_of_accepted [OF accepted]] by (auto simp: call_accepted_def exec_accept_root)
qed

text \<open>
  The order in a scope. Two calls conflict when they are of one scope and one of them must not overlap. The later of two conflicting
  calls waits for the earlier, or for a sequential one between them; \<open>lastSequential\<close> and \<open>wave\<close> are what a new call has to wait
  for; and so a call that no longer waits has every earlier conflicting call done.
\<close>

definition conflicts :: "executor \<Rightarrow> nat \<Rightarrow> nat \<Rightarrow> bool" where
  "conflicts ex i j \<longleftrightarrow> pc_state (job_call ex i) = pc_state (job_call ex j) \<and> (xj_sequential (ex_jobs ex ! i) \<or> xj_sequential (ex_jobs ex ! j))"

definition waits_through :: "executor \<Rightarrow> nat list \<Rightarrow> nat \<Rightarrow> nat \<Rightarrow> bool" where
  "waits_through ex deps a i \<longleftrightarrow> i \<in> set deps \<or>
     (\<exists>l \<in> set deps. i < l \<and> l < length (ex_jobs ex) \<and> xj_sequential (ex_jobs ex ! l) \<and> pc_state (job_call ex l) = a)"

definition dep_inv :: "executor \<Rightarrow> bool" where
  "dep_inv ex \<longleftrightarrow> (\<forall>j < length (ex_jobs ex). \<forall>i < j. conflicts ex i j \<longrightarrow> waits_through ex (xj_deps (ex_jobs ex ! j)) (pc_state (job_call ex j)) i)"

definition line_inv :: "executor \<Rightarrow> bool" where
  "line_inv ex \<longleftrightarrow> (\<forall>i < length (ex_jobs ex). \<forall>sequential. sequential \<or> xj_sequential (ex_jobs ex ! i) \<longrightarrow>
     waits_through ex (job_deps sequential (ex_states ex ! pc_state (job_call ex i))) (pc_state (job_call ex i)) i)"

definition order_inv :: "executor \<Rightarrow> bool" where
  "order_inv ex \<longleftrightarrow> (\<forall>j < length (ex_jobs ex). \<forall>i < j. conflicts ex i j \<longrightarrow> xj_phase (ex_jobs ex ! j) \<noteq> JobWaits \<longrightarrow> job_done ex i)"

lemma go_jobs:
  assumes "exec_go ex ex'"
  shows "length (ex_jobs ex') = length (ex_jobs ex)"
    "n < length (ex_jobs ex) \<Longrightarrow> job_call ex' n = job_call ex n \<and> xj_sequential (ex_jobs ex' ! n) = xj_sequential (ex_jobs ex ! n) \<and>
       xj_deps (ex_jobs ex' ! n) = xj_deps (ex_jobs ex ! n)"
proof -
  have m: "map job_core (ex_jobs ex') = map job_core (ex_jobs ex)" using assms by (simp add: exec_go_def jobs_go_def)
  then show l: "length (ex_jobs ex') = length (ex_jobs ex)" by (metis length_map)
  assume "n < length (ex_jobs ex)"
  then have "job_core (ex_jobs ex' ! n) = job_core (ex_jobs ex ! n)" using m l by (metis nth_map)
  then show "job_call ex' n = job_call ex n \<and> xj_sequential (ex_jobs ex' ! n) = xj_sequential (ex_jobs ex ! n) \<and>
       xj_deps (ex_jobs ex' ! n) = xj_deps (ex_jobs ex ! n)" using job_core_eq by blast
qed

lemma go_conflicts: "exec_go ex ex' \<Longrightarrow> i < length (ex_jobs ex) \<Longrightarrow> j < length (ex_jobs ex) \<Longrightarrow> conflicts ex' i j = conflicts ex i j"
  by (simp add: conflicts_def go_jobs)

lemma go_waits: "exec_go ex ex' \<Longrightarrow> waits_through ex' deps a i = waits_through ex deps a i"
  by (auto simp: waits_through_def go_jobs)

lemma go_job_deps:
  assumes "exec_go ex ex'" "a < length (ex_states ex)"
  shows "job_deps sequential (ex_states ex' ! a) = job_deps sequential (ex_states ex ! a)"
proof -
  have m: "map st_core (ex_states ex') = map st_core (ex_states ex)" using assms(1) by (simp add: exec_go_def)
  then have "length (ex_states ex') = length (ex_states ex)" by (metis length_map)
  then have "st_core (ex_states ex' ! a) = st_core (ex_states ex ! a)" using m assms(2) by (metis nth_map)
  from st_core_eq [OF this] show ?thesis by (simp add: job_deps_def Let_def)
qed

lemma dep_inv_go: "dep_inv ex \<Longrightarrow> exec_go ex ex' \<Longrightarrow> dep_inv ex'"
  unfolding dep_inv_def by (simp add: go_jobs go_conflicts go_waits)

lemma job_state_in: "bind_inv ex \<Longrightarrow> n < length (ex_jobs ex) \<Longrightarrow> pc_state (job_call ex n) < length (ex_states ex)"
proof -
  assume b: "bind_inv ex" and n: "n < length (ex_jobs ex)"
  then have "call_core (job_call ex n) \<in> calls_of ex" by (auto simp: calls_of_def)
  from bind_invD(1) [OF b this] show ?thesis by (simp add: call_core_def)
qed

lemma line_inv_go: "bind_inv ex \<Longrightarrow> line_inv ex \<Longrightarrow> exec_go ex ex' \<Longrightarrow> line_inv ex'"
  unfolding line_inv_def by (simp add: go_jobs go_waits go_job_deps job_state_in)

text \<open>A call that starts to run has waited for every earlier conflicting one.\<close>

lemma waited_done:
  assumes "order_inv ex" "waits_through ex deps a i" "list_all (job_done ex) deps" "pc_state (job_call ex i) = a"
  shows "job_done ex i"
  using assms(2) unfolding waits_through_def
proof (elim disjE bexE conjE)
  assume "i \<in> set deps"
  then show ?thesis using assms(3) by (simp add: list_all_iff)
next
  fix l assume l: "l \<in> set deps" "i < l" "l < length (ex_jobs ex)" "xj_sequential (ex_jobs ex ! l)" "pc_state (job_call ex l) = a"
  have "job_done ex l" using assms(3) l(1) by (simp add: list_all_iff)
  then have "xj_phase (ex_jobs ex ! l) \<noteq> JobWaits" by (simp add: job_done_def)
  moreover have "conflicts ex i l" using l(4,5) assms(4) by (simp add: conflicts_def)
  ultimately show ?thesis using assms(1) l(2,3) unfolding order_inv_def by blast
qed

lemma order_inv_go:
  assumes "dep_inv ex" "order_inv ex" "exec_go ex ex'"
  shows "order_inv ex'"
  unfolding order_inv_def
proof (intro allI impI)
  fix j i assume j: "j < length (ex_jobs ex')" "i < j" "conflicts ex' i j" "xj_phase (ex_jobs ex' ! j) \<noteq> JobWaits"
  have l: "j < length (ex_jobs ex)" "i < length (ex_jobs ex)" using j(1,2) go_jobs(1) [OF assms(3)] by simp_all
  have c: "conflicts ex i j" using j(3) go_conflicts [OF assms(3) l(2,1)] by simp
  have g: "jobs_go ex ex'" using assms(3) by (simp add: exec_go_def)
  have "xj_phase (ex_jobs ex ! j) \<noteq> JobWaits \<or> list_all (job_done ex) (xj_deps (ex_jobs ex ! j))"
    using g l(1) j(4) unfolding jobs_go_def by blast
  then have "job_done ex i"
  proof
    assume "xj_phase (ex_jobs ex ! j) \<noteq> JobWaits"
    then show ?thesis using assms(2) l(1) j(2) c unfolding order_inv_def by blast
  next
    assume d: "list_all (job_done ex) (xj_deps (ex_jobs ex ! j))"
    have "waits_through ex (xj_deps (ex_jobs ex ! j)) (pc_state (job_call ex j)) i" using assms(1) l(1) j(2) c unfolding dep_inv_def by blast
    from waited_done [OF assms(2) this d] c show ?thesis by (simp add: conflicts_def)
  qed
  then show "job_done ex' i" using g l(2) unfolding jobs_go_def by blast
qed

text \<open>An accepted call joins the end of its scope's line.\<close>

lemma accepted_jobs:
  assumes "call_accepted f i ex ex'"
  obtains sequential where
    "ex_jobs ex' = ex_jobs ex @ [\<lparr>xj_pending = ex_pending ex ! i, xj_sequential = sequential,
       xj_deps = job_deps sequential (ex_states ex ! pc_state (ex_pending ex ! i)), xj_aborted = False, xj_phase = JobWaits\<rparr>]"
    "\<And>a. a < length (ex_states ex) \<Longrightarrow> ex_states ex' ! a = (if a = pc_state (ex_pending ex ! i) then
        (if sequential then (ex_states ex ! a)\<lparr>st_last := Some (length (ex_jobs ex)), st_wave := []\<rparr>
         else (ex_states ex ! a)\<lparr>st_wave := st_wave (ex_states ex ! a) @ [length (ex_jobs ex)]\<rparr>) else ex_states ex ! a)"
  using assms by (auto simp: call_accepted_def exec_accept_def Let_def nth_update_if)

lemma waits_through_more: "ex_jobs ex' = ex_jobs ex @ js \<Longrightarrow> waits_through ex deps a i \<Longrightarrow> waits_through ex' deps a i"
  unfolding waits_through_def by (auto simp: nth_append)

lemma waits_through_deps: "waits_through ex deps a i \<Longrightarrow> set deps \<subseteq> set deps' \<Longrightarrow> waits_through ex deps' a i"
  unfolding waits_through_def by blast

lemma line_deps: "line_inv ex \<Longrightarrow> i < length (ex_jobs ex) \<Longrightarrow> sequential \<or> xj_sequential (ex_jobs ex ! i) \<Longrightarrow> pc_state (job_call ex i) = a \<Longrightarrow>
    waits_through ex (job_deps sequential (ex_states ex ! a)) a i"
  unfolding line_inv_def by blast

lemma dep_inv_accepted:
  assumes "dep_inv ex" "line_inv ex" "call_accepted f i ex ex'"
  shows "dep_inv ex'"
proof -
  obtain sequential where j: "ex_jobs ex' = ex_jobs ex @ [\<lparr>xj_pending = ex_pending ex ! i, xj_sequential = sequential,
       xj_deps = job_deps sequential (ex_states ex ! pc_state (ex_pending ex ! i)), xj_aborted = False, xj_phase = JobWaits\<rparr>]"
    using accepted_jobs [OF assms(3)] by metis
  show ?thesis unfolding dep_inv_def
  proof (intro allI impI)
    fix m k assume m: "m < length (ex_jobs ex')" "k < m" "conflicts ex' k m"
    show "waits_through ex' (xj_deps (ex_jobs ex' ! m)) (pc_state (job_call ex' m)) k"
    proof (cases "m < length (ex_jobs ex)")
      case True
      then have "conflicts ex k m" using m(2,3) by (simp add: conflicts_def j nth_append)
      with assms(1) True m(2) have "waits_through ex (xj_deps (ex_jobs ex ! m)) (pc_state (job_call ex m)) k" unfolding dep_inv_def by blast
      from waits_through_more [OF j this] True show ?thesis by (simp add: j nth_append)
    next
      case False
      then have n: "m = length (ex_jobs ex)" using m(1) by (simp add: j)
      have "waits_through ex (job_deps sequential (ex_states ex ! pc_state (ex_pending ex ! i))) (pc_state (ex_pending ex ! i)) k"
        by (rule line_deps [OF assms(2)]) (use m(2,3) n in \<open>auto simp: conflicts_def j nth_append\<close>)
      from waits_through_more [OF j this] n show ?thesis by (simp add: j)
    qed
  qed
qed

lemma line_inv_accepted:
  assumes "bind_inv ex" "line_inv ex" "call_accepted f i ex ex'"
  shows "line_inv ex'"
proof -
  let ?a = "pc_state (ex_pending ex ! i)" and ?n = "length (ex_jobs ex)"
  obtain sequential where j: "ex_jobs ex' = ex_jobs ex @ [\<lparr>xj_pending = ex_pending ex ! i, xj_sequential = sequential,
       xj_deps = job_deps sequential (ex_states ex ! ?a), xj_aborted = False, xj_phase = JobWaits\<rparr>]"
    and st: "\<And>a. a < length (ex_states ex) \<Longrightarrow> ex_states ex' ! a = (if a = ?a then
        (if sequential then (ex_states ex ! a)\<lparr>st_last := Some ?n, st_wave := []\<rparr> else (ex_states ex ! a)\<lparr>st_wave := st_wave (ex_states ex ! a) @ [?n]\<rparr>)
        else ex_states ex ! a)"
    using accepted_jobs [OF assms(3)] by metis
  have "call_core (ex_pending ex ! i) \<in> calls_of ex" using assms(3) by (auto simp: calls_of_def call_accepted_def)
  then have a: "?a < length (ex_states ex)" using bind_invD(1) [OF assms(1)] by (fastforce simp: call_core_def)
  show ?thesis unfolding line_inv_def
  proof (intro allI impI)
    fix k sq assume k: "k < length (ex_jobs ex')" "sq \<or> xj_sequential (ex_jobs ex' ! k)"
    show "waits_through ex' (job_deps sq (ex_states ex' ! pc_state (job_call ex' k))) (pc_state (job_call ex' k)) k"
    proof (cases "k < ?n")
      case True
      then have k': "job_call ex' k = job_call ex k" "sq \<or> xj_sequential (ex_jobs ex ! k)" using k(2) by (simp_all add: j nth_append)
      have b: "pc_state (job_call ex k) < length (ex_states ex)" by (rule job_state_in [OF assms(1) True])
      have w: "waits_through ex' (job_deps sq (ex_states ex ! pc_state (job_call ex k))) (pc_state (job_call ex k)) k"
        by (rule waits_through_more [OF j line_deps [OF assms(2) True k'(2) refl]])
      show ?thesis
      proof (cases "pc_state (job_call ex k) = ?a \<and> sequential")
        case True
        have "?n < length (ex_jobs ex')" "xj_sequential (ex_jobs ex' ! ?n)" "pc_state (job_call ex' ?n) = ?a" using True by (simp_all add: j)
        moreover have "?n \<in> set (job_deps sq (ex_states ex' ! ?a))" using True st [OF a] by (simp add: job_deps_def Let_def)
        ultimately show ?thesis unfolding k'(1) waits_through_def using True \<open>k < ?n\<close> by auto
      next
        case False
        then show ?thesis unfolding k'(1) by (intro waits_through_deps [OF w]) (auto simp: st [OF b] job_deps_def Let_def)
      qed
    next
      case False
      then have "k = ?n" using k(1) by (simp add: j)
      then show ?thesis using k(2) by (auto simp: j st [OF a] waits_through_def job_deps_def Let_def split: if_splits)
    qed
  qed
qed

lemma order_inv_accepted:
  assumes "order_inv ex" "call_accepted f i ex ex'"
  shows "order_inv ex'"
proof -
  obtain j where j: "ex_jobs ex' = ex_jobs ex @ [j]" "xj_phase j = JobWaits" using accepted_jobs [OF assms(2)] by (metis exec_job.select_convs(5))
  show ?thesis unfolding order_inv_def
  proof (intro allI impI)
    fix m k assume m: "m < length (ex_jobs ex')" "k < m" "conflicts ex' k m" "xj_phase (ex_jobs ex' ! m) \<noteq> JobWaits"
    then have n: "m < length (ex_jobs ex)" using j by (auto simp: nth_append less_Suc_eq)
    then have "conflicts ex k m" "xj_phase (ex_jobs ex ! m) \<noteq> JobWaits" using m(2-4) by (auto simp: conflicts_def j(1) nth_append)
    then have "job_done ex k" using assms(1) n m(2) unfolding order_inv_def by blast
    then show "job_done ex' k" by (simp add: job_done_def j(1) nth_append)
  qed
qed

lemma added_jobs:
  assumes "call_added p ex ex'"
  shows "ex_jobs ex' = ex_jobs ex" "a < length (ex_states ex) \<Longrightarrow> ex_states ex' ! a = ex_states ex ! a"
  using assms by (auto simp: call_added_def nth_append split: option.splits)

lemma order_added:
  assumes "call_added p ex ex'"
  shows "dep_inv ex \<Longrightarrow> dep_inv ex'" "bind_inv ex \<Longrightarrow> line_inv ex \<Longrightarrow> line_inv ex'" "order_inv ex \<Longrightarrow> order_inv ex'"
  using added_jobs [OF assms]
  by (simp_all add: dep_inv_def line_inv_def order_inv_def conflicts_def waits_through_def job_done_def job_state_in)

text \<open>Without a ledger, what has been accepted and what may still be accepted have different execution ids, all of them seen.\<close>

definition live :: "executor \<Rightarrow> nat \<Rightarrow> bool" where
  "live ex i \<longleftrightarrow> i < length (ex_pending ex) \<and> pc_phase (ex_pending ex ! i) \<noteq> PendingGone"

definition seen_inv :: "executor \<Rightarrow> bool" where
  "seen_inv ex \<longleftrightarrow> ex_accepted ex = map (\<lambda>j. call_id (xj_pending j)) (ex_jobs ex) \<and>
     (\<not> ex_ledger ex \<longrightarrow> distinct (ex_accepted ex) \<and> set (ex_accepted ex) \<subseteq> set (ex_seen ex) \<and>
        (\<forall>i. live ex i \<longrightarrow> call_id (ex_pending ex ! i) \<in> set (ex_seen ex) - set (ex_accepted ex)) \<and>
        (\<forall>i k. live ex i \<longrightarrow> live ex k \<longrightarrow> call_id (ex_pending ex ! i) = call_id (ex_pending ex ! k) \<longrightarrow> i = k))"

lemma go_pending:
  assumes "exec_go ex ex'" "live ex' i"
  shows "live ex i" "call_id (ex_pending ex' ! i) = call_id (ex_pending ex ! i)"
proof -
  have g: "map call_core (ex_pending ex') = map call_core (ex_pending ex)"
    "\<forall>i < length (ex_pending ex). pc_phase (ex_pending ex' ! i) \<noteq> PendingGone \<longrightarrow> pc_phase (ex_pending ex ! i) \<noteq> PendingGone"
    using assms(1) by (simp_all add: exec_go_def calls_go_def)
  then have l: "length (ex_pending ex') = length (ex_pending ex)" by (metis length_map)
  with assms(2) g(2) show "live ex i" by (simp add: live_def)
  then have "call_core (ex_pending ex' ! i) = call_core (ex_pending ex ! i)" using g(1) l by (metis live_def nth_map)
  from call_core_eq [OF this] show "call_id (ex_pending ex' ! i) = call_id (ex_pending ex ! i)" by simp
qed

lemma seen_inv_go:
  assumes "seen_inv ex" "exec_go ex ex'"
  shows "seen_inv ex'"
proof -
  have f: "ex_ledger ex' = ex_ledger ex" "ex_accepted ex' = ex_accepted ex" "set (ex_seen ex) \<subseteq> set (ex_seen ex')"
    using assms(2) by (simp_all add: exec_go_def)
  have "map (\<lambda>j. call_id (xj_pending j)) (ex_jobs ex') = map (\<lambda>j. call_id (xj_pending j)) (ex_jobs ex)"
    by (rule nth_equalityI) (simp_all add: go_jobs [OF assms(2)])
  moreover note go_pending [OF assms(2)]
  ultimately show ?thesis using assms(1) f unfolding seen_inv_def by (smt (verit) Diff_iff subset_iff)
qed

lemma seen_inv_added:
  assumes "seen_inv ex" "call_added p ex ex'"
  shows "seen_inv ex'"
proof -
  have f: "ex_pending ex' = ex_pending ex @ [p]" "ex_jobs ex' = ex_jobs ex" "ex_accepted ex' = ex_accepted ex" "ex_ledger ex' = ex_ledger ex"
    "set (ex_seen ex') = insert (call_id p) (set (ex_seen ex))" "\<not> ex_ledger ex \<Longrightarrow> call_id p \<notin> set (ex_seen ex)"
    using assms(2) by (auto simp: call_added_def)
  have l: "live ex' i \<Longrightarrow> live ex i \<and> ex_pending ex' ! i = ex_pending ex ! i \<or> i = length (ex_pending ex) \<and> ex_pending ex' ! i = p" for i
    by (auto simp: live_def f(1) nth_append split: if_splits)
  show ?thesis
  proof (cases "ex_ledger ex")
    case True
    then show ?thesis using assms(1) f by (simp add: seen_inv_def)
  next
    case False
    then have d: "distinct (ex_accepted ex)" "set (ex_accepted ex) \<subseteq> set (ex_seen ex)"
      "\<And>i. live ex i \<Longrightarrow> call_id (ex_pending ex ! i) \<in> set (ex_seen ex) - set (ex_accepted ex)"
      "\<And>i k. live ex i \<Longrightarrow> live ex k \<Longrightarrow> call_id (ex_pending ex ! i) = call_id (ex_pending ex ! k) \<Longrightarrow> i = k"
      using assms(1) unfolding seen_inv_def by blast+
    have "call_id (ex_pending ex' ! i) \<in> set (ex_seen ex') - set (ex_accepted ex')" if "live ex' i" for i
      using l [OF that] d(2) d(3) [of i] f(3,5) f(6) [OF False] by auto
    moreover have "i = k" if "live ex' i" "live ex' k" "call_id (ex_pending ex' ! i) = call_id (ex_pending ex' ! k)" for i k
      using l [OF that(1)] l [OF that(2)] that(3) d(3) [of i] d(3) [of k] d(4) [of i k] f(6) [OF False] by auto
    ultimately show ?thesis using assms(1) d(1,2) f(2-5) unfolding seen_inv_def by auto
  qed
qed

lemma seen_inv_accepted:
  assumes "seen_inv ex" "call_accepted f i ex ex'"
  shows "seen_inv ex'"
proof -
  have i: "live ex i" using assms(2) by (simp add: call_accepted_def live_def)
  have f: "ex_accepted ex' = ex_accepted ex @ [call_id (ex_pending ex ! i)]" "ex_ledger ex' = ex_ledger ex" "ex_seen ex' = ex_seen ex"
    "ex_pending ex' = (ex_pending ex)[i := (ex_pending ex ! i)\<lparr>pc_phase := PendingGone\<rparr>]"
    "map (\<lambda>j. call_id (xj_pending j)) (ex_jobs ex') = map (\<lambda>j. call_id (xj_pending j)) (ex_jobs ex) @ [call_id (ex_pending ex ! i)]"
    using assms(2) by (simp_all add: call_accepted_def) (simp_all add: set_pending_def exec_accept_def Let_def)
  have l: "live ex' k \<Longrightarrow> k \<noteq> i \<and> live ex k \<and> ex_pending ex' ! k = ex_pending ex ! k" for k
    by (auto simp: live_def f(4) nth_update_if split: if_splits)
  show ?thesis
  proof (cases "ex_ledger ex")
    case True
    then show ?thesis using assms(1) f by (simp add: seen_inv_def)
  next
    case False
    then have d: "distinct (ex_accepted ex)" "set (ex_accepted ex) \<subseteq> set (ex_seen ex)"
      "\<And>i. live ex i \<Longrightarrow> call_id (ex_pending ex ! i) \<in> set (ex_seen ex) - set (ex_accepted ex)"
      "\<And>i k. live ex i \<Longrightarrow> live ex k \<Longrightarrow> call_id (ex_pending ex ! i) = call_id (ex_pending ex ! k) \<Longrightarrow> i = k"
      using assms(1) unfolding seen_inv_def by blast+
    have "call_id (ex_pending ex' ! k) \<in> set (ex_seen ex') - set (ex_accepted ex')" if "live ex' k" for k
      using l [OF that] d(3) [of k] d(4) [OF i, of k] f(1,3) by auto
    moreover have "k = m" if "live ex' k" "live ex' m" "call_id (ex_pending ex' ! k) = call_id (ex_pending ex' ! m)" for k m
      using l [OF that(1)] l [OF that(2)] that(3) d(4) [of k m] by auto
    ultimately show ?thesis using assms(1) d(1,2) d(3) [OF i] f(1,2,3,5) unfolding seen_inv_def by auto
  qed
qed

section \<open>Every run keeps them\<close>

definition exec_inv :: "executor \<Rightarrow> bool" where
  "exec_inv ex \<longleftrightarrow> bind_inv ex \<and> dep_inv ex \<and> line_inv ex \<and> order_inv ex \<and> seen_inv ex"

lemma exec_inv_step:
  assumes "exec_inv ex" "exec_step f e ex = (out, ex')"
  shows "exec_inv ex'"
proof -
  have i: "bind_inv ex" "dep_inv ex" "line_inv ex" "order_inv ex" "seen_inv ex" using assms(1) by (simp_all add: exec_inv_def)
  have b: "bind_inv ex'" by (rule bind_inv_step [OF i(1) assms(2)])
  from assms(2) show ?thesis
  proof (cases rule: exec_step_cases)
    case go
    then show ?thesis using b dep_inv_go [OF i(2)] line_inv_go [OF i(1,3)] order_inv_go [OF i(2,4)] seen_inv_go [OF i(5)] by (simp add: exec_inv_def)
  next
    case (added p)
    then show ?thesis using b i order_added [OF added] seen_inv_added [OF i(5) added] by (simp add: exec_inv_def)
  next
    case (accepted k)
    then show ?thesis using b dep_inv_accepted [OF i(2,3)] line_inv_accepted [OF i(1,3)] order_inv_accepted [OF i(4)] seen_inv_accepted [OF i(5)]
      by (simp add: exec_inv_def)
  qed
qed

lemma exec_inv_created: "exec_inv (createRemoteExecutor ledger)"
  by (simp add: exec_inv_def createRemoteExecutor_def bind_inv_def dep_inv_def line_inv_def order_inv_def seen_inv_def live_def calls_of_def)

text \<open>A tool runs only in a step that starts its call, with what that step checks.\<close>

lemma exec_result_out: "XRun n \<notin> set (fst (exec_result m result ex))"
  by (simp add: exec_result_def Let_def)

lemma exec_throws_out: "XRun n \<notin> set (fst (exec_throws view m message ex))"
  by (simp add: exec_throws_def Let_def exec_result_out)

lemma exec_start_run:
  assumes "exec_start view m ex = (out, ex')" "XRun n \<in> set out"
  shows "m = n" "out = [XRun n]" "n < length (ex_jobs ex)" "xj_phase (ex_jobs ex ! n) = JobWaits" "xj_phase (ex_jobs ex' ! n) = JobRuns"
    "\<not> xj_aborted (ex_jobs ex ! n)" "is_ok (xv_authorize view (ri_scopeRoot (pc_call (job_call ex n))))"
    "ex_ledger ex \<or> xv_admits view (pc_lane (job_call ex n)) (ri_epoch (pc_call (job_call ex n)))"
proof -
  have t: "exec_throws view m message ex = (out, ex') \<Longrightarrow> False" "exec_result m result ex = (out, ex') \<Longrightarrow> False" for message result
    using assms(2) exec_throws_out [of n view m message ex] exec_result_out [of n m result ex] by auto
  show "m = n" "out = [XRun n]" "n < length (ex_jobs ex)" "xj_phase (ex_jobs ex ! n) = JobWaits" "xj_phase (ex_jobs ex' ! n) = JobRuns"
    "\<not> xj_aborted (ex_jobs ex ! n)" "is_ok (xv_authorize view (ri_scopeRoot (pc_call (job_call ex n))))"
    "ex_ledger ex \<or> xv_admits view (pc_lane (job_call ex n)) (ri_epoch (pc_call (job_call ex n)))"
    using assms t by (auto simp: exec_start_def Let_def refuse_def set_job_def split: if_splits)
qed

lemma exec_step_run:
  assumes "exec_step f e ex = (out, ex')" "XRun n \<in> set out"
  obtains view where "e = XvStart view n" "exec_start view n ex = (out, ex')"
proof (cases e)
  case (XvStart view m)
  then show ?thesis using that assms exec_start_run(1) [of view m ex out ex' n] by auto
next
  case (XvEnds view m outcome)
  then have False using assms exec_throws_out [of n view m] exec_result_out [of n m]
    by (auto simp: exec_ends_def Let_def split: if_splits sum.splits) (metis fst_conv)+
  then show ?thesis ..
qed (use assms in \<open>auto simp: exec_invoke_def refuse_def exec_opened_def exec_scope_settled_def exec_admitted_def exec_settled_def exec_abort_def exec_ack_def
      exec_replaced_def exec_close_def exec_forget_def Let_def split: if_splits grant_verdict.splits prod.splits sum.splits option.splits hand_admission.splits\<close>)

definition job_started :: "executor \<Rightarrow> nat \<Rightarrow> bool" where
  "job_started ex n \<longleftrightarrow> n < length (ex_jobs ex) \<and> xj_phase (ex_jobs ex ! n) \<noteq> JobWaits"

lemma jobs_stay_started:
  assumes "exec_step f e ex = (out, ex')" "job_started ex n"
  shows "job_started ex' n"
  using assms(1)
proof (cases rule: exec_step_cases)
  case go
  then show ?thesis using assms(2) by (simp add: job_started_def go_jobs) (simp add: exec_go_def jobs_go_def)
next
  case (added p)
  then show ?thesis using assms(2) added_jobs(1) by (simp add: job_started_def)
next
  case (accepted i)
  then show ?thesis using assms(2) accepted_jobs [OF accepted] by (metis job_started_def length_append nth_append trans_less_add1)
qed

interpretation exec_once: once_per_key "exec_step isSequential" exec_inv job_started "\<lambda>n out. out = XRun n" for isSequential
proof unfold_locales
  show "exec_inv ex'" if "exec_inv ex" "exec_step isSequential e ex = (out, ex')" for ex e out ex' by (rule exec_inv_step [OF that])
  show "job_started ex' n" if "exec_step isSequential e ex = (out, ex')" "job_started ex n" for ex e out ex' n
    by (rule jobs_stay_started [OF that])
  show "length (filter (\<lambda>out. out = XRun n) out) \<le> 1" if st: "exec_step isSequential e ex = (out, ex')" for ex e out ex' n
  proof (cases "XRun n \<in> set out")
    case True
    obtain view where "exec_start view n ex = (out, ex')" using exec_step_run [OF st True] .
    from exec_start_run(2) [OF this True] show ?thesis by simp
  next
    case False
    then have "filter (\<lambda>out. out = XRun n) out = []" by (auto simp: filter_empty_conv)
    then show ?thesis by simp
  qed
  show "\<not> job_started ex n \<and> job_started ex' n" if st: "exec_step isSequential e ex = (out, ex')" and o: "filter (\<lambda>out. out = XRun n) out \<noteq> []" for ex e out ex' n
  proof -
    have r: "XRun n \<in> set out" using o by (auto simp: filter_empty_conv)
    obtain view where s: "exec_start view n ex = (out, ex')" using exec_step_run [OF st r] .
    have "exec_go ex ex'" using exec_start_go [of ex view n] s by simp
    with exec_start_run(3-5) [OF s r] show ?thesis by (simp add: job_started_def go_jobs)
  qed
qed

section \<open>What the executor promises\<close>

lemma exec_run_inv: "run_steps (exec_step isSequential) es (createRemoteExecutor ledger) = (outs, ex) \<Longrightarrow> exec_inv ex"
  using exec_once.inv_run [OF exec_inv_created] by blast

interpretation exec_plain: kept_invariant "exec_step isSequential" "\<lambda>ex. \<not> ex_ledger ex" for isSequential
proof unfold_locales
  show "\<not> ex_ledger ex'" if "\<not> ex_ledger ex" "exec_step isSequential e ex = (out, ex')" for ex e out ex'
    using that(2) by (cases rule: exec_step_cases) (use that(1) in \<open>auto simp: exec_go_def call_added_def call_accepted_def\<close>)
qed

lemma one_start_filter:
  assumes "\<And>n. XRun n \<in> set outs \<Longrightarrow> f n = k \<Longrightarrow> n = m" "length (filter (\<lambda>out. out = XRun m) outs) \<le> 1"
  shows "length (filter (\<lambda>out. case out of XRun n \<Rightarrow> f n = k | _ \<Rightarrow> False) outs) \<le> 1"
proof -
  have "filter (\<lambda>out. case out of XRun n \<Rightarrow> f n = k | _ \<Rightarrow> False) outs = filter (\<lambda>out. case out of XRun n \<Rightarrow> f n = k | _ \<Rightarrow> False) (filter (\<lambda>out. out = XRun m) outs)"
    using assms(1) by (auto simp: filter_filter intro!: filter_cong split: exec_out.splits)
  then show ?thesis using assms(2) length_filter_le [of "\<lambda>out. case out of XRun n \<Rightarrow> f n = k | _ \<Rightarrow> False" "filter (\<lambda>out. out = XRun m) outs"] by simp
qed

text \<open>C24. A call that must not overlap others never does: of two calls of one scope, one of them sequential, the one accepted later stays
  waiting until the earlier is done, its outcome recorded or sent.\<close>

theorem sequential_calls_exclusive:
  assumes "run_steps (exec_step isSequential) es (createRemoteExecutor ledger) = (outs, ex)"
    "i < j" "j < length (ex_jobs ex)" "call_scope (job_call ex i) = call_scope (job_call ex j)"
    "xj_sequential (ex_jobs ex ! i) \<or> xj_sequential (ex_jobs ex ! j)" "xj_phase (ex_jobs ex ! j) \<noteq> JobWaits"
  shows "xj_phase (ex_jobs ex ! i) = JobDone"
proof -
  have inv: "exec_inv ex" by (rule exec_run_inv [OF assms(1)])
  have "call_core (job_call ex i) \<in> calls_of ex" "call_core (job_call ex j) \<in> calls_of ex" using assms(2,3) by (auto simp: calls_of_def)
  then have "pc_state (call_core (job_call ex i)) = pc_state (call_core (job_call ex j))"
    by (rule bind_invD(2) [OF conjunct1 [OF inv [unfolded exec_inv_def]]]) (simp add: call_core_def assms(4))
  then have "conflicts ex i j" using assms(5) by (simp add: conflicts_def call_core_def)
  then show ?thesis using inv assms(2,3,6) unfolding exec_inv_def order_inv_def job_done_def by blast
qed

lemma exec_distinct_ids:
  assumes "run_steps (exec_step isSequential) es (createRemoteExecutor False) = (outs, ex)"
  shows "distinct (ex_accepted ex)"
    "length (filter (\<lambda>out. case out of XRun n \<Rightarrow> call_id (job_call ex n) = k | _ \<Rightarrow> False) outs) \<le> 1"
proof -
  have inv: "seen_inv ex" using exec_run_inv [OF assms] by (simp add: exec_inv_def)
  have "\<not> ex_ledger (createRemoteExecutor False)" by (simp add: createRemoteExecutor_def)
  from exec_plain.inv_run [OF this assms] inv show d: "distinct (ex_accepted ex)" unfolding seen_inv_def by blast
  have j: "job_started ex n" if "XRun n \<in> set outs" for n
    using exec_once.started_after [OF exec_inv_created assms, of n] that by (auto simp: filter_empty_conv)
  have u: "n = m" if "XRun n \<in> set outs" "XRun m \<in> set outs" "call_id (job_call ex n) = call_id (job_call ex m)" for n m
    using d inv j [OF that(1)] j [OF that(2)] that(3) by (simp add: seen_inv_def job_started_def distinct_conv_nth) blast
  show "length (filter (\<lambda>out. case out of XRun n \<Rightarrow> call_id (job_call ex n) = k | _ \<Rightarrow> False) outs) \<le> 1"
  proof (cases "\<exists>m. XRun m \<in> set outs \<and> call_id (job_call ex m) = k")
    case True
    then obtain m where m: "XRun m \<in> set outs" "call_id (job_call ex m) = k" by blast
    have "length (filter (\<lambda>out. out = XRun m) outs) \<le> 1" using exec_once.at_most_once [OF exec_inv_created assms, of m] by (simp split: if_splits)
    then show ?thesis by (intro one_start_filter [where m = m]) (use u m in auto)
  next
    case False
    then have "filter (\<lambda>out. case out of XRun n \<Rightarrow> call_id (job_call ex n) = k | _ \<Rightarrow> False) outs = []"
      by (auto simp: filter_empty_conv split: exec_out.splits)
    then show ?thesis by simp
  qed
qed

lemmas exec_once_per_id = exec_distinct_ids(2)

text \<open>Without a ledger, the hand runs an execution id at most once while it lives, whatever the link delivers and in whatever order
  scopes open and calls end; it accepts no id twice.\<close>

theorem runs_once_without_ledger:
  assumes "run_steps (exec_step isSequential) es (createRemoteExecutor False) = (outs, ex)"
  shows "distinct (ex_accepted ex) \<and>
    length (filter (\<lambda>out. case out of XRun n \<Rightarrow> call_id (job_call ex n) = k | _ \<Rightarrow> False) outs) \<le> 1"
  using exec_distinct_ids [OF assms] by blast

text \<open>A tool runs only when its grant holds and its call is not aborted at the moment it starts, whatever happened while the call waited,
  and, without a ledger, only when its epoch is not below the floor at that moment.\<close>

theorem runs_are_checked:
  assumes "run_steps (exec_step isSequential) es (createRemoteExecutor ledger) = (outs, ex)" "XRun n \<in> set outs"
  shows "\<exists>fs view gs outs1 ex1. es = fs @ XvStart view n # gs \<and> run_steps (exec_step isSequential) fs (createRemoteExecutor ledger) = (outs1, ex1) \<and>
    n < length (ex_jobs ex1) \<and> \<not> xj_aborted (ex_jobs ex1 ! n) \<and> is_ok (xv_authorize view (ri_scopeRoot (pc_call (job_call ex1 n)))) \<and>
    (ex_ledger ex1 \<or> xv_admits view (pc_lane (job_call ex1 n)) (ri_epoch (pc_call (job_call ex1 n))))"
proof -
  obtain fs e gs ex1 out ex2 outs1 outs2 where r: "es = fs @ e # gs" "run_steps (exec_step isSequential) fs (createRemoteExecutor ledger) = (outs1, ex1)"
    "exec_step isSequential e ex1 = (out, ex2)" "XRun n \<in> set out"
    using exec_once.run_out [OF exec_inv_created assms] .
  obtain view where v: "e = XvStart view n" "exec_start view n ex1 = (out, ex2)" using exec_step_run [OF r(3,4)] .
  show ?thesis using r(1,2) v(1) exec_start_run(3,6-8) [OF v(2) r(4)] by blast
qed

section \<open>Runs\<close>

definition any_view :: exec_view where
  "any_view = \<lparr>xv_authorize = \<lambda>dir. GrantOk dir, xv_admits = \<lambda>_ _. True\<rparr>"

definition call_for :: "string \<Rightarrow> string \<Rightarrow> remote_invoke" where
  "call_for executionId tool = \<lparr>ri_epoch = None, ri_executionId = executionId, ri_batchId = ''b'', ri_index = Fin 0, ri_scopeId = ''s'', ri_scopeRoot = ''/w'',
     ri_toolCallId = executionId, ri_name = tool, ri_arguments = None, ri_sessionRef = None\<rparr>"

text \<open>Two calls of one scope, the second sequential: it starts only once the first has ended.\<close>

definition two_calls :: "exec_event list" where
  "two_calls = [XvInvoke any_view ''s'' (call_for ''e1'' ''read'') None, XvInvoke any_view ''s'' (call_for ''e2'' ''bash'') None,
     XvOpened 0 (Inr True), XvScope 0, XvScope 1, XvStart any_view 0, XvStart any_view 1, XvEnds any_view 0 (Inr (SObj [])), XvStart any_view 1,
     XvInvoke any_view ''s'' (call_for ''e1'' ''read'') None]"

definition bash_only :: "string \<Rightarrow> string \<Rightarrow> bool" where
  "bash_only dir tool \<longleftrightarrow> tool = ''bash''"

definition after_two :: executor where
  "after_two = snd (run_steps (exec_step bash_only) two_calls (createRemoteExecutor False))"

definition outs_two :: "exec_out list" where
  "outs_two = fst (run_steps (exec_step bash_only) two_calls (createRemoteExecutor False))"

lemma two_run: "run_steps (exec_step bash_only) two_calls (createRemoteExecutor False) = (outs_two, after_two)"
  by (simp add: outs_two_def after_two_def)

theorem sequential_calls_exclusive_witness:
  "xj_phase (ex_jobs after_two ! 1) = JobRuns \<and> xj_phase (ex_jobs after_two ! 0) = JobDone"
proof -
  have e: "1 < length (ex_jobs after_two)" "call_scope (job_call after_two 0) = call_scope (job_call after_two 1)" "xj_sequential (ex_jobs after_two ! 1)"
    "xj_phase (ex_jobs after_two ! 1) = JobRuns"
    by code_simp+
  show ?thesis using sequential_calls_exclusive [OF two_run _ e(1,2)] e(3,4) by simp
qed

theorem runs_once_without_ledger_witness:
  "outs_two = [XRun 0, XReply ''s'' (HandSettled ''e1'' (toRemoteToolResult (SObj []))), XRun 1, XReply ''s'' (HandRefused ''e1'' ''duplicate_execution'')] \<and>
   length (filter (\<lambda>out. case out of XRun n \<Rightarrow> call_id (job_call after_two n) = ''e1'' | _ \<Rightarrow> False) outs_two) \<le> 1"
proof -
  have "outs_two = [XRun 0, XReply ''s'' (HandSettled ''e1'' (toRemoteToolResult (SObj []))), XRun 1, XReply ''s'' (HandRefused ''e1'' ''duplicate_execution'')]"
    by code_simp
  with runs_once_without_ledger [OF two_run] show ?thesis by blast
qed

theorem runs_are_checked_witness:
  "\<exists>fs view gs ex1. two_calls = fs @ XvStart view 1 # gs \<and> is_ok (xv_authorize view (ri_scopeRoot (pc_call (job_call ex1 1)))) \<and> \<not> xj_aborted (ex_jobs ex1 ! 1)"
proof -
  have "XRun 1 \<in> set outs_two" by code_simp
  from runs_are_checked [OF two_run this] show ?thesis by blast
qed

text \<open>A call that waits for its scope to open is not among the running calls that \<open>close\<close> aborts, and nothing checks \<open>closed\<close> again: it is
  accepted after the close and its tool runs, not aborted.\<close>

lemma closed_executor_still_runs:
  "(case run_steps (exec_step bash_only)
      [XvInvoke any_view ''s'' (call_for ''e1'' ''read'') None, XvClose, XvOpened 0 (Inr True), XvScope 0, XvForget, XvStart any_view 0]
      (createRemoteExecutor False) of
    (outs, ex) \<Rightarrow> outs = [XRun 0] \<and> ex_closed ex \<and> \<not> xj_aborted (ex_jobs ex ! 0))"
  by code_simp

end
