(* ===== verification/Remote_Protocol.thy ===== *)
theory Remote_Protocol
  imports Hand_Ledger
begin

text \<open>
  The messages between a session and a hand (execution/remote-protocol.ts): what is sent, as JSON text, and what the decoder takes. The
  text layer is UTF-8 of the text and back, which changes nothing for text that came from a string; \<open>parse\<close> is \<open>JSON.parse\<close>.
\<close>

section \<open>Messages\<close>

record remote_file =
  rf_executionId :: string
  rf_epoch :: "number option"
  rf_scopeId :: string
  rf_scopeRoot :: string
  rf_op :: string
  rf_args :: store_value

record remote_hello =
  rh_instance :: string
  rh_durable :: bool
  rh_ops :: "string list"

datatype remote_message =
    MInvoke remote_invoke
  | MFile remote_file
  | MAbort string "number option"
  | MAck string "number option"
  | MReply hand_message
  | MHello remote_hello
  | MFloor number
  | MFloorReply floor_message

definition HAND_CONTROL_LANE :: string where "HAND_CONTROL_LANE = ''hand.control''"

definition DEVICE_FILE_OPS :: "string list" where
  "DEVICE_FILE_OPS = [''read'', ''write'', ''list'', ''stat'', ''rename'', ''remove'', ''mkdir'', ''run'']"

section \<open>Encoding\<close>

definition opt_field :: "string \<Rightarrow> store_value option \<Rightarrow> store_value obj" where
  "opt_field k v = (case v of None \<Rightarrow> [] | Some x \<Rightarrow> [(k, x)])"

definition scope_value :: "string \<Rightarrow> string \<Rightarrow> store_value" where
  "scope_value scopeId dir = SObj [(''id'', SStr scopeId), (''root'', SStr dir)]"

definition invoke_value :: "remote_invoke \<Rightarrow> store_value" where
  "invoke_value r = SObj ([(''kind'', SStr ''invoke''), (''executionId'', SStr (ri_executionId r)), (''batchId'', SStr (ri_batchId r)),
     (''index'', SNum (ri_index r)), (''scope'', scope_value (ri_scopeId r) (ri_scopeRoot r)), (''toolCallId'', SStr (ri_toolCallId r)),
     (''name'', SStr (ri_name r))] @ opt_field ''arguments'' (ri_arguments r) @ opt_field ''sessionRef'' (map_option SStr (ri_sessionRef r)) @
     opt_field ''epoch'' (map_option SNum (ri_epoch r)))"

definition file_value :: "remote_file \<Rightarrow> store_value" where
  "file_value f = SObj ([(''kind'', SStr ''file''), (''executionId'', SStr (rf_executionId f)), (''scope'', scope_value (rf_scopeId f) (rf_scopeRoot f)),
     (''op'', SStr (rf_op f)), (''args'', rf_args f)] @ opt_field ''epoch'' (map_option SNum (rf_epoch f)))"

fun hand_message_value :: "hand_message \<Rightarrow> store_value" where
  "hand_message_value (HandSettled executionId result) = SObj [(''kind'', SStr ''settled''), (''executionId'', SStr executionId), (''result'', result)]"
| "hand_message_value (HandTerminal executionId reason uncertain hooksRan) = SObj [(''kind'', SStr ''terminal''), (''executionId'', SStr executionId),
     (''reason'', SStr (reason_name reason)), (''uncertain'', SBool uncertain), (''hooksRan'', SBool hooksRan)]"
| "hand_message_value (HandRefused executionId reason) = SObj [(''kind'', SStr ''refused''), (''executionId'', SStr executionId), (''reason'', SStr reason)]"

fun message_value :: "remote_message \<Rightarrow> store_value" where
  "message_value (MInvoke r) = invoke_value r"
| "message_value (MFile f) = file_value f"
| "message_value (MAbort executionId epoch) =
     SObj ([(''kind'', SStr ''abort''), (''executionId'', SStr executionId)] @ opt_field ''epoch'' (map_option SNum epoch))"
| "message_value (MAck executionId epoch) =
     SObj ([(''kind'', SStr ''ack''), (''executionId'', SStr executionId)] @ opt_field ''epoch'' (map_option SNum epoch))"
| "message_value (MReply m) = hand_message_value m"
| "message_value (MHello h) = SObj [(''kind'', SStr ''hello''), (''instance'', SStr (rh_instance h)), (''durable'', SBool (rh_durable h)),
     (''ops'', SList (map SStr (rh_ops h)))]"
| "message_value (MFloor epoch) = SObj [(''kind'', SStr ''floor''), (''epoch'', SNum epoch)]"
| "message_value (MFloorReply (FloorAckMessage floor0)) = SObj [(''kind'', SStr ''floor_ack''), (''floor'', SNum floor0)]"
| "message_value (MFloorReply (FloorRefusedMessage reason)) = SObj [(''kind'', SStr ''floor_refused''), (''reason'', SStr (refusal_name reason))]"

definition encodeRemoteMessage :: "(number \<Rightarrow> string) \<Rightarrow> remote_message \<Rightarrow> string" where
  "encodeRemoteMessage num_text message = json_text num_text (message_value message)"

section \<open>Decoding\<close>

definition RemoteProtocolError :: "string \<Rightarrow> failure" where
  "RemoteProtocolError message = ErrorMessage (''remote_protocol: '' @ message)"

fun isRecord :: "store_value option \<Rightarrow> bool" where
  "isRecord (Some (SObj _)) = True"
| "isRecord (Some (SList _)) = True"
| "isRecord _ = False"

definition isString :: "store_value option \<Rightarrow> bool" where
  "isString v \<longleftrightarrow> is_str v \<and> get_str v \<noteq> []"

definition is_epoch_value :: "store_value option \<Rightarrow> bool" where
  "is_epoch_value v \<longleftrightarrow> is_num v \<and> isEpoch (get_num v)"

fun epoch_refusal_of :: "string \<Rightarrow> epoch_refusal option" where
  "epoch_refusal_of s = List.find (\<lambda>r. refusal_name r = s) [PeerUnauthorized, FloorFenced, EpochStepExceeded, EpochUnsupported]"

fun terminal_reason_of :: "string \<Rightarrow> end_reason option" where
  "terminal_reason_of s = List.find (\<lambda>r. reason_name r = s) [Cancelled, LeaseExpired, HandRestarted, UncertainEnd]"

text \<open>None when the message is of another kind.\<close>

definition decodeFloorMessage :: "store_value option \<Rightarrow> (failure, remote_message) result option" where
  "decodeFloorMessage v =
     (let kind = fld v ''kind'' in
      if kind = Some (SStr ''floor'') then
        Some (if is_epoch_value (fld v ''epoch'') then Inr (MFloor (get_num (fld v ''epoch''))) else Inl (RemoteProtocolError ''malformed floor''))
      else if kind = Some (SStr ''floor_ack'') then
        Some (if is_epoch_value (fld v ''floor'') then Inr (MFloorReply (FloorAckMessage (get_num (fld v ''floor''))))
              else Inl (RemoteProtocolError ''malformed floor ack''))
      else if kind = Some (SStr ''floor_refused'') then
        Some (case if is_str (fld v ''reason'') then epoch_refusal_of (get_str (fld v ''reason'')) else None of
                Some reason \<Rightarrow> Inr (MFloorReply (FloorRefusedMessage reason))
              | None \<Rightarrow> Inl (RemoteProtocolError ''malformed floor refusal''))
      else None)"

definition decode_hello :: "store_value option \<Rightarrow> (failure, remote_message) result" where
  "decode_hello v =
     (let inst = fld v ''instance''; durable = fld v ''durable''; ops = fld v ''ops'' in
      if \<not> isString inst then Inl (RemoteProtocolError ''malformed hello'')
      else if durable \<noteq> None \<and> \<not> is_bool durable then Inl (RemoteProtocolError ''malformed hello'')
      else if ops \<noteq> None \<and> (\<not> is_list ops \<or> \<not> list_all (\<lambda>x. isString (Some x)) (get_list ops)) then Inl (RemoteProtocolError ''malformed hello'')
      else Inr (MHello \<lparr>rh_instance = get_str inst, rh_durable = (if durable = None then True else get_bool durable),
                        rh_ops = map (\<lambda>x. get_str (Some x)) (get_list ops)\<rparr>))"

definition scope_ok :: "store_value option \<Rightarrow> bool" where
  "scope_ok scope \<longleftrightarrow> isRecord scope \<and> isString (fld scope ''id'') \<and> is_str (fld scope ''root'')"

definition epoch_of :: "store_value option \<Rightarrow> number option" where
  "epoch_of v = map_option (\<lambda>x. get_num (Some x)) (fld v ''epoch'')"

definition decode_invoke :: "store_value option \<Rightarrow> (failure, remote_message) result" where
  "decode_invoke v =
     (let scope = fld v ''scope''; index = fld v ''index'' in
      if \<not> isString (fld v ''batchId'') \<or> \<not> is_num index \<or> \<not> is_safe_integer (get_num index) \<or> num_lt (get_num index) (Fin 0) \<or>
        \<not> scope_ok scope \<or> \<not> isString (fld v ''toolCallId'') \<or> \<not> isString (fld v ''name'') \<or>
        (fld v ''sessionRef'' \<noteq> None \<and> \<not> is_str (fld v ''sessionRef''))
      then Inl (RemoteProtocolError ''malformed invoke'')
      else Inr (MInvoke \<lparr>ri_epoch = epoch_of v, ri_executionId = get_str (fld v ''executionId''), ri_batchId = get_str (fld v ''batchId''),
        ri_index = get_num index, ri_scopeId = get_str (fld scope ''id''), ri_scopeRoot = get_str (fld scope ''root''),
        ri_toolCallId = get_str (fld v ''toolCallId''), ri_name = get_str (fld v ''name''), ri_arguments = fld v ''arguments'',
        ri_sessionRef = map_option (\<lambda>x. get_str (Some x)) (fld v ''sessionRef'')\<rparr>))"

definition decode_file :: "store_value option \<Rightarrow> (failure, remote_message) result" where
  "decode_file v =
     (let scope = fld v ''scope''; op0 = fld v ''op'' in
      if \<not> scope_ok scope \<or> \<not> is_str op0 \<or> get_str op0 \<notin> set DEVICE_FILE_OPS \<or> \<not> isRecord (fld v ''args'')
      then Inl (RemoteProtocolError ''malformed file operation'')
      else Inr (MFile \<lparr>rf_executionId = get_str (fld v ''executionId''), rf_epoch = epoch_of v, rf_scopeId = get_str (fld scope ''id''),
        rf_scopeRoot = get_str (fld scope ''root''), rf_op = get_str op0, rf_args = the (fld v ''args'')\<rparr>))"

definition decode_terminal :: "store_value option \<Rightarrow> (failure, remote_message) result" where
  "decode_terminal v =
     (case if is_str (fld v ''reason'') then terminal_reason_of (get_str (fld v ''reason'')) else None of
        None \<Rightarrow> Inl (RemoteProtocolError ''malformed terminal outcome'')
      | Some reason \<Rightarrow>
          if \<not> is_bool (fld v ''uncertain'') \<or> \<not> is_bool (fld v ''hooksRan'') then Inl (RemoteProtocolError ''malformed terminal outcome'')
          else Inr (MReply (HandTerminal (get_str (fld v ''executionId'')) reason (get_bool (fld v ''uncertain'')) (get_bool (fld v ''hooksRan'')))))"

definition result_ok :: "store_value option \<Rightarrow> bool" where
  "result_ok result \<longleftrightarrow> isRecord result \<and> is_list (fld result ''content'') \<and> is_bool (fld result ''isError'')"

definition decode_kind :: "store_value option \<Rightarrow> (failure, remote_message) result" where
  "decode_kind v =
     (let kind = fld v ''kind''; executionId = get_str (fld v ''executionId'') in
      if kind = Some (SStr ''invoke'') then decode_invoke v
      else if kind = Some (SStr ''file'') then decode_file v
      else if kind = Some (SStr ''abort'') then Inr (MAbort executionId (epoch_of v))
      else if kind = Some (SStr ''ack'') then Inr (MAck executionId (epoch_of v))
      else if kind = Some (SStr ''terminal'') then decode_terminal v
      else if kind = Some (SStr ''settled'') then
        (if result_ok (fld v ''result'') then Inr (MReply (HandSettled executionId (the (fld v ''result'')))) else Inl (RemoteProtocolError ''malformed result''))
      else if kind = Some (SStr ''refused'') then
        (if is_str (fld v ''reason'') then Inr (MReply (HandRefused executionId (get_str (fld v ''reason'')))) else Inl (RemoteProtocolError ''malformed refusal''))
      else Inl (RemoteProtocolError ''unknown message kind''))"

definition decode_message_value :: "store_value \<Rightarrow> (failure, remote_message) result" where
  "decode_message_value value =
     (let v = Some value in
      if isRecord v \<and> fld v ''kind'' = Some (SStr ''hello'') then decode_hello v
      else case (if isRecord v then decodeFloorMessage v else None) of
        Some r \<Rightarrow> r
      | None \<Rightarrow>
          if \<not> isRecord v \<or> \<not> isString (fld v ''executionId'') then Inl (RemoteProtocolError ''no execution ID'')
          else if fld v ''epoch'' \<noteq> None \<and> \<not> is_epoch_value (fld v ''epoch'') then Inl (RemoteProtocolError ''malformed epoch'')
          else decode_kind v)"

definition decodeRemoteMessage :: "json_parser \<Rightarrow> string \<Rightarrow> (failure, remote_message) result" where
  "decodeRemoteMessage parse payload =
     (case parse payload of Inl _ \<Rightarrow> Inl (RemoteProtocolError ''payload is not JSON'') | Inr value \<Rightarrow> decode_message_value value)"

section \<open>What may be sent\<close>

definition opt_epoch_ok :: "number option \<Rightarrow> bool" where
  "opt_epoch_ok e \<longleftrightarrow> (case e of None \<Rightarrow> True | Some n \<Rightarrow> isEpoch n)"

definition invoke_ok :: "remote_invoke \<Rightarrow> bool" where
  "invoke_ok r \<longleftrightarrow> ri_executionId r \<noteq> [] \<and> ri_batchId r \<noteq> [] \<and> is_safe_integer (ri_index r) \<and> \<not> num_lt (ri_index r) (Fin 0) \<and>
     ri_scopeId r \<noteq> [] \<and> ri_toolCallId r \<noteq> [] \<and> ri_name r \<noteq> [] \<and> opt_epoch_ok (ri_epoch r)"

definition file_ok :: "remote_file \<Rightarrow> bool" where
  "file_ok f \<longleftrightarrow> rf_executionId f \<noteq> [] \<and> rf_scopeId f \<noteq> [] \<and> rf_op f \<in> set DEVICE_FILE_OPS \<and> isRecord (Some (rf_args f)) \<and> opt_epoch_ok (rf_epoch f)"

fun hand_message_ok :: "hand_message \<Rightarrow> bool" where
  "hand_message_ok (HandSettled executionId result) \<longleftrightarrow> executionId \<noteq> [] \<and> result_ok (Some result)"
| "hand_message_ok (HandTerminal executionId _ _ _) \<longleftrightarrow> executionId \<noteq> []"
| "hand_message_ok (HandRefused executionId _) \<longleftrightarrow> executionId \<noteq> []"

fun message_ok :: "remote_message \<Rightarrow> bool" where
  "message_ok (MInvoke r) = invoke_ok r"
| "message_ok (MFile f) = file_ok f"
| "message_ok (MAbort executionId epoch) = (executionId \<noteq> [] \<and> opt_epoch_ok epoch)"
| "message_ok (MAck executionId epoch) = (executionId \<noteq> [] \<and> opt_epoch_ok epoch)"
| "message_ok (MReply m) = hand_message_ok m"
| "message_ok (MHello h) = (rh_instance h \<noteq> [] \<and> list_all (\<lambda>x. x \<noteq> []) (rh_ops h))"
| "message_ok (MFloor epoch) = isEpoch epoch"
| "message_ok (MFloorReply (FloorAckMessage floor0)) = isEpoch floor0"
| "message_ok (MFloorReply (FloorRefusedMessage _)) = True"

text \<open>What arrives of a message: a number that is not finite is null on the wire.\<close>

fun on_wire :: "remote_message \<Rightarrow> remote_message" where
  "on_wire (MInvoke r) = MInvoke (r\<lparr>ri_arguments := map_option json_normal (ri_arguments r)\<rparr>)"
| "on_wire (MFile f) = MFile (f\<lparr>rf_args := json_normal (rf_args f)\<rparr>)"
| "on_wire (MReply (HandSettled executionId result)) = MReply (HandSettled executionId (json_normal result))"
| "on_wire m = m"

section \<open>The two ends agree\<close>

lemma isRecord_normal [simp]: "isRecord (Some (json_normal v)) = isRecord (Some v)"
  by (cases v) simp_all

lemma fld_normal: "fld (Some (json_normal v)) k = map_option json_normal (fld (Some v) k)"
  by (cases v) (simp_all add: map_prod_def map_of_map_snd)

lemma result_normal: "result_ok (Some result) \<Longrightarrow> result_ok (Some (json_normal result))"
proof -
  assume r: "result_ok (Some result)"
  then obtain o' xs b where "result = SObj o'" "fld (Some result) ''content'' = Some (SList xs)" "fld (Some result) ''isError'' = Some (SBool b)"
    by (cases result) (auto simp: result_ok_def is_list_iff is_bool_iff)
  then show ?thesis unfolding result_ok_def fld_normal by simp
qed

lemma message_ok_on_wire: "message_ok m \<Longrightarrow> message_ok (on_wire m)"
  by (cases m rule: on_wire.cases) (simp_all add: invoke_ok_def file_ok_def result_normal)

lemma isEpoch_safe: "isEpoch e \<Longrightarrow> is_safe_integer e \<and> is_finite e"
  by (simp add: isEpoch_def is_safe_integer_finite)

lemmas protocol_simps = decode_message_value_def decode_hello_def decodeFloorMessage_def decode_kind_def scope_ok_def scope_value_def
  isString_def is_epoch_value_def epoch_of_def opt_field_def opt_epoch_ok_def Let_def

lemma decode_invoke_value: "invoke_ok r \<Longrightarrow> decode_message_value (json_normal (invoke_value r)) = Inr (on_wire (MInvoke r))"
  by (cases r; cases "ri_epoch r"; cases "ri_arguments r"; cases "ri_sessionRef r")
     (auto simp: invoke_ok_def invoke_value_def decode_invoke_def protocol_simps isEpoch_safe is_safe_integer_finite)

lemma decode_file_value: "file_ok f \<Longrightarrow> decode_message_value (json_normal (file_value f)) = Inr (on_wire (MFile f))"
  by (cases f; cases "rf_epoch f") (auto simp: file_ok_def file_value_def decode_file_def protocol_simps isEpoch_safe)

lemma refusal_name_of: "epoch_refusal_of (refusal_name r) = Some r"
  by (cases r) simp_all

lemma reason_name_of: "terminal_reason_of (reason_name r) = Some r"
  by (cases r) simp_all

lemma decode_reply_value: "hand_message_ok m \<Longrightarrow> decode_message_value (json_normal (hand_message_value m)) = Inr (on_wire (MReply m))"
  by (cases m) (auto simp: protocol_simps decode_terminal_def result_normal reason_name_of simp del: terminal_reason_of.simps)

lemma decode_other_value:
  "message_ok (MAbort k e) \<Longrightarrow> decode_message_value (json_normal (message_value (MAbort k e))) = Inr (MAbort k e)"
  "message_ok (MAck k e) \<Longrightarrow> decode_message_value (json_normal (message_value (MAck k e))) = Inr (MAck k e)"
  "message_ok (MHello h) \<Longrightarrow> decode_message_value (json_normal (message_value (MHello h))) = Inr (MHello h)"
  "message_ok (MFloor n) \<Longrightarrow> decode_message_value (json_normal (message_value (MFloor n))) = Inr (MFloor n)"
  "message_ok (MFloorReply a) \<Longrightarrow> decode_message_value (json_normal (message_value (MFloorReply a))) = Inr (MFloorReply a)"
proof -
  show "message_ok (MAbort k e) \<Longrightarrow> decode_message_value (json_normal (message_value (MAbort k e))) = Inr (MAbort k e)"
    "message_ok (MAck k e) \<Longrightarrow> decode_message_value (json_normal (message_value (MAck k e))) = Inr (MAck k e)"
    by (cases e; auto simp: protocol_simps isEpoch_safe)+
  show "message_ok (MHello h) \<Longrightarrow> decode_message_value (json_normal (message_value (MHello h))) = Inr (MHello h)"
    by (cases h) (auto simp: protocol_simps list_all_iff comp_def)
  show "message_ok (MFloor n) \<Longrightarrow> decode_message_value (json_normal (message_value (MFloor n))) = Inr (MFloor n)"
    by (auto simp: protocol_simps isEpoch_safe)
  show "message_ok (MFloorReply a) \<Longrightarrow> decode_message_value (json_normal (message_value (MFloorReply a))) = Inr (MFloorReply a)"
    by (cases a) (auto simp: protocol_simps isEpoch_safe refusal_name_of simp del: epoch_refusal_of.simps)
qed

lemma decode_encoded_value: "message_ok m \<Longrightarrow> decode_message_value (json_normal (message_value m)) = Inr (on_wire m)"
proof (cases m)
  case (MReply h)
  then show "message_ok m \<Longrightarrow> ?thesis" using decode_reply_value [of h] by simp
next
  case (MFloorReply a)
  then show "message_ok m \<Longrightarrow> ?thesis" using decode_other_value(5) [of a] by simp
qed (use decode_invoke_value decode_file_value decode_other_value(1-4) in auto)

text \<open>What one end sends, the other receives: every well-formed message, encoded as JSON text, is decoded to the same message,
  with the payloads of calls, file operations and results as JSON carries them.\<close>

theorem remote_message_roundtrip:
  assumes "message_ok m" "parse (encodeRemoteMessage num_text m) = Inr (json_normal (message_value m))"
  shows "decodeRemoteMessage parse (encodeRemoteMessage num_text m) = Inr (on_wire m) \<and> message_ok (on_wire m)"
  using assms by (simp add: decodeRemoteMessage_def decode_encoded_value message_ok_on_wire)





definition sample_message :: remote_message where
  "sample_message = MInvoke \<lparr>ri_epoch = Some (Fin 2), ri_executionId = ''e1'', ri_batchId = ''b1'', ri_index = Fin 0, ri_scopeId = ''s'', ri_scopeRoot = ''/w'',
     ri_toolCallId = ''t1'', ri_name = ''read'', ri_arguments = Some (SObj [(''path'', SStr ''a''), (''limit'', SNum PosInf)]), ri_sessionRef = None\<rparr>"

definition sample_wire :: json_parser where
  "sample_wire t = (if t = encodeRemoteMessage unary_text sample_message then Inr (json_normal (message_value sample_message)) else Inl (ErrorMessage ''syntax''))"

lemma sample_message_ok: "message_ok sample_message"
  by (simp add: sample_message_def invoke_ok_def opt_epoch_ok_def isEpoch_def max_safe_integer_def)

theorem remote_message_roundtrip_witness:
  "decodeRemoteMessage sample_wire (encodeRemoteMessage unary_text sample_message) = Inr (on_wire sample_message) \<and>
   on_wire sample_message \<noteq> sample_message"
proof -
  have "on_wire sample_message \<noteq> sample_message" by (simp add: sample_message_def)
  then show ?thesis using remote_message_roundtrip [of sample_message sample_wire unary_text] sample_message_ok by (simp add: sample_wire_def)
qed


end
