(* ===== verification/Remote_Link.thy ===== *)
theory Remote_Link
  imports Remote_Protocol Step_Trace
begin

text \<open>
  The session's end of the link to a hand (execution/remote-link.ts): the calls and file operations that wait, by execution id, what
  is sent for them and when, and how each of them ends. A continuation on the epoch gate's promise is kept in the state until it runs, so
  that anything may happen before it does. Messages arrive decoded; nested requests of planes are not among them.
\<close>

section \<open>State\<close>

datatype hand_reply =
    RSettled store_value
  | RTerminal end_reason bool bool
  | RRefused string
  | RAborted bool
  | RUnreachable string
  | RClosed
  | REpochRefused string

text \<open>What \<open>whenOpen\<close> will do: the first send of a message, or sending it again.\<close>

datatype link_go = GoDispatch remote_message | GoResend remote_message

text \<open>A continuation: the call it is for, its lane, and the promise it waits on or what that promise gave.\<close>

record link_wait =
  lw_id :: string
  lw_lane :: string
  lw_on :: "string option + nat"
  lw_go :: link_go

record session_link =
  sl_epoch :: "number option"
  sl_pending :: "remote_message obj"
  sl_sent :: "string list"
  sl_gate :: epoch_gate
  sl_waits :: "link_wait list"
  sl_sends :: "string list"
  sl_announced :: "remote_hello option"
  sl_waitedOut :: bool
  sl_helloWaiters :: "nat list"
  sl_asked :: nat

definition createHandLink :: "number option \<Rightarrow> session_link" where
  "createHandLink epoch = \<lparr>sl_epoch = epoch, sl_pending = [], sl_sent = [], sl_gate = new_gate, sl_waits = [], sl_sends = [],
     sl_announced = None, sl_waitedOut = False, sl_helloWaiters = [], sl_asked = 0\<rparr>"

datatype link_out =
    SSend string remote_message
  | SReply string hand_reply
  | SHello nat "remote_hello option"
  | SClosed

section \<open>Calls\<close>

fun message_id :: "remote_message \<Rightarrow> string" where
  "message_id (MInvoke r) = ri_executionId r"
| "message_id (MFile f) = rf_executionId f"
| "message_id _ = []"

fun message_scope :: "remote_message \<Rightarrow> string" where
  "message_scope (MInvoke r) = ri_scopeId r"
| "message_scope (MFile f) = rf_scopeId f"
| "message_scope _ = []"

text \<open>\<open>{...unstamped, ...stamp}\<close>.\<close>

fun stamped :: "number option \<Rightarrow> remote_message \<Rightarrow> remote_message" where
  "stamped (Some e) (MInvoke r) = MInvoke (r\<lparr>ri_epoch := Some e\<rparr>)"
| "stamped (Some e) (MFile f) = MFile (f\<lparr>rf_epoch := Some e\<rparr>)"
| "stamped _ m = m"

definition is_pending :: "session_link \<Rightarrow> string \<Rightarrow> bool" where
  "is_pending l executionId \<longleftrightarrow> map_of (sl_pending l) executionId \<noteq> None"

definition link_settle :: "string \<Rightarrow> hand_reply \<Rightarrow> session_link \<Rightarrow> link_out list \<times> session_link" where
  "link_settle executionId reply l =
     (if \<not> is_pending l executionId then ([], l)
      else ([SReply executionId reply], l\<lparr>sl_pending := obj_del executionId (sl_pending l), sl_sent := removeAll executionId (sl_sent l)\<rparr>))"

section \<open>The gate\<close>

text \<open>A promise of the gate is settled once its lane has a verdict; its continuations then have their value.\<close>

definition resolve_wait :: "epoch_gate \<Rightarrow> link_wait \<Rightarrow> link_wait" where
  "resolve_wait g w =
     (case lw_on w of
        Inl _ \<Rightarrow> w
      | Inr p \<Rightarrow> (case List.find (\<lambda>(lane, s). gl_decided s = p \<and> gl_verdict s \<noteq> None) (eg_lanes g) of
          Some (lane, s) \<Rightarrow> w\<lparr>lw_on := Inl (the (gl_verdict s))\<rparr>
        | None \<Rightarrow> w))"

text \<open>The gate after one of its operations; the floors it asks for are sent.\<close>

definition link_gate :: "epoch_gate \<Rightarrow> session_link \<Rightarrow> link_out list \<times> session_link" where
  "link_gate g l =
     (map (\<lambda>(lane, _). SSend lane (MFloor (the (sl_epoch l)))) (drop (length (eg_sent (sl_gate l))) (eg_sent g)),
      l\<lparr>sl_gate := g, sl_waits := map (resolve_wait g) (sl_waits l)\<rparr>)"

fun run_go :: "link_go \<Rightarrow> session_link \<Rightarrow> link_out list \<times> session_link" where
  "run_go (GoDispatch m) l =
     ([SSend (message_scope m) m], l\<lparr>sl_sent := List.insert (message_id m) (sl_sent l), sl_sends := sl_sends l @ [message_id m]\<rparr>)"
| "run_go (GoResend m) l = ([SSend (message_scope m) m], l)"

definition whenOpen :: "string \<Rightarrow> string \<Rightarrow> link_go \<Rightarrow> session_link \<Rightarrow> link_out list \<times> session_link" where
  "whenOpen lane executionId go l =
     (if sl_epoch l = None then run_go go l
      else case gate_open lane (sl_gate l) of
        (verdict, g) \<Rightarrow> (case link_gate g l of
          (out, l') \<Rightarrow> (out, l'\<lparr>sl_waits := sl_waits l' @ [\<lparr>lw_id = executionId, lw_lane = lane, lw_on = verdict, lw_go = go\<rparr>]\<rparr>)))"

text \<open>A continuation whose promise is settled runs.\<close>

definition link_opened :: "nat \<Rightarrow> session_link \<Rightarrow> link_out list \<times> session_link" where
  "link_opened i l =
     (if i < length (sl_waits l) then
        (let w = sl_waits l ! i; l' = l\<lparr>sl_waits := take i (sl_waits l) @ drop (Suc i) (sl_waits l)\<rparr> in
         case lw_on w of
           Inr _ \<Rightarrow> ([], l)
         | Inl refusal \<Rightarrow>
             if \<not> is_pending l (lw_id w) then ([], l')
             else (case refusal of None \<Rightarrow> run_go (lw_go w) l' | Some reason \<Rightarrow> link_settle (lw_id w) (REpochRefused reason) l'))
      else ([], l))"

section \<open>Frames\<close>

text \<open>A hand announced itself: the gate asks again, and a durable hand gets again what was sent and still waits.\<close>

fun resend_all :: "remote_message obj \<Rightarrow> session_link \<Rightarrow> link_out list \<times> session_link" where
  "resend_all [] l = ([], l)"
| "resend_all ((executionId, m) # rest) l =
     (if executionId \<notin> set (sl_sent l) then resend_all rest l
      else case whenOpen (message_scope m) executionId (GoResend m) l of
        (out, l') \<Rightarrow> (case resend_all rest l' of (outs, l'') \<Rightarrow> (out @ outs, l'')))"

definition link_hello :: "remote_hello \<Rightarrow> session_link \<Rightarrow> link_out list \<times> session_link" where
  "link_hello h l =
     (let waiters = map (\<lambda>n. SHello n (Some h)) (sl_helloWaiters l);
          l1 = l\<lparr>sl_announced := Some h, sl_helloWaiters := []\<rparr> in
      case (if sl_epoch l = None then ([], l1) else link_gate (gate_resend (sl_gate l1)) l1) of
        (floors, l2) \<Rightarrow>
          (case (if rh_durable h then resend_all (sl_pending l2) l2 else ([], l2)) of
             (sends, l3) \<Rightarrow> (waiters @ floors @ sends, l3)))"

definition then_ack :: "string \<Rightarrow> string \<Rightarrow> link_out list \<times> session_link \<Rightarrow> link_out list \<times> session_link" where
  "then_ack lane executionId r = (case r of (out, l) \<Rightarrow> (out @ [SSend lane (MAck executionId (sl_epoch l))], l))"

fun link_frame :: "string \<Rightarrow> remote_message \<Rightarrow> session_link \<Rightarrow> link_out list \<times> session_link" where
  "link_frame lane (MHello h) l = link_hello h l"
| "link_frame lane (MFloorReply m) l =
     (case sl_epoch l of None \<Rightarrow> ([], l) | Some e \<Rightarrow> link_gate (gate_answer e lane m (sl_gate l)) l)"
| "link_frame lane (MReply (HandSettled executionId result)) l = then_ack lane executionId (link_settle executionId (RSettled result) l)"
| "link_frame lane (MReply (HandTerminal executionId reason uncertain hooksRan)) l =
     then_ack lane executionId (link_settle executionId (RTerminal reason uncertain hooksRan) l)"
| "link_frame lane (MReply (HandRefused executionId reason)) l = link_settle executionId (RRefused reason) l"
| "link_frame lane _ l = ([], l)"

section \<open>Dispatch, abort, hello and close\<close>

definition link_dispatch :: "remote_message \<Rightarrow> bool \<Rightarrow> session_link \<Rightarrow> link_out list \<times> session_link" where
  "link_dispatch unstamped aborted l =
     (let message = stamped (sl_epoch l) unstamped; executionId = message_id message;
          l1 = l\<lparr>sl_pending := obj_put executionId message (sl_pending l)\<rparr> in
      if aborted then link_settle executionId (RAborted False) l1
      else whenOpen (message_scope message) executionId (GoDispatch message) l1)"

text \<open>The call's signal fires.\<close>

definition link_abort :: "string \<Rightarrow> session_link \<Rightarrow> link_out list \<times> session_link" where
  "link_abort executionId l =
     (case map_of (sl_pending l) executionId of
        None \<Rightarrow> ([], l)
      | Some m \<Rightarrow>
          (let reached = executionId \<in> set (sl_sent l) in
           case link_settle executionId (RAborted reached) l of
             (out, l') \<Rightarrow> ((if reached then [SSend (message_scope m) (MAbort executionId (sl_epoch l))] else []) @ out, l')))"

text \<open>The promise of a first send settles; when it fails, the call is over.\<close>

definition link_send_settled :: "string \<Rightarrow> string option \<Rightarrow> session_link \<Rightarrow> link_out list \<times> session_link" where
  "link_send_settled executionId failed l =
     (if executionId \<notin> set (sl_sends l) then ([], l)
      else let l' = l\<lparr>sl_sends := remove1 executionId (sl_sends l)\<rparr> in
        case failed of None \<Rightarrow> ([], l') | Some reason \<Rightarrow> link_settle executionId (RUnreachable reason) l')"

definition link_floor_failed :: "string \<Rightarrow> nat \<Rightarrow> string \<Rightarrow> session_link \<Rightarrow> link_out list \<times> session_link" where
  "link_floor_failed lane asked reason l =
     (if sl_epoch l = None then ([], l) else link_gate (send_failed lane asked reason (sl_gate l)) l)"

definition link_ask_hello :: "bool \<Rightarrow> session_link \<Rightarrow> link_out list \<times> session_link" where
  "link_ask_hello aborted l =
     (let n = sl_asked l; l1 = l\<lparr>sl_asked := n + 1\<rparr> in
      if sl_announced l \<noteq> None \<or> sl_waitedOut l \<or> aborted then ([SHello n (sl_announced l)], l1)
      else ([], l1\<lparr>sl_helloWaiters := sl_helloWaiters l @ [n]\<rparr>))"

definition link_hello_ends :: "nat \<Rightarrow> bool \<Rightarrow> session_link \<Rightarrow> link_out list \<times> session_link" where
  "link_hello_ends n timeout l =
     (if n \<notin> set (sl_helloWaiters l) then ([], l)
      else ([SHello n None], l\<lparr>sl_waitedOut := (sl_waitedOut l \<or> timeout), sl_helloWaiters := removeAll n (sl_helloWaiters l)\<rparr>))"

fun close_all :: "string list \<Rightarrow> session_link \<Rightarrow> link_out list \<times> session_link" where
  "close_all [] l = ([SClosed], l)"
| "close_all (executionId # rest) l =
     (case link_settle executionId RClosed l of (out, l') \<Rightarrow> (case close_all rest l' of (outs, l'') \<Rightarrow> (out @ outs, l'')))"

definition link_close :: "session_link \<Rightarrow> link_out list \<times> session_link" where
  "link_close l = close_all (map fst (sl_pending l)) l"

datatype link_event =
    SvDispatch remote_message bool
  | SvAbort string
  | SvFrame string remote_message
  | SvOpened nat
  | SvSendSettled string "string option"
  | SvFloorFailed string nat string
  | SvAskHello bool
  | SvHelloEnds nat bool
  | SvClose

fun link_step :: "link_event \<Rightarrow> session_link \<Rightarrow> link_out list \<times> session_link" where
  "link_step (SvDispatch m aborted) l = link_dispatch m aborted l"
| "link_step (SvAbort executionId) l = link_abort executionId l"
| "link_step (SvFrame lane m) l = link_frame lane m l"
| "link_step (SvOpened i) l = link_opened i l"
| "link_step (SvSendSettled executionId failed) l = link_send_settled executionId failed l"
| "link_step (SvFloorFailed lane asked reason) l = link_floor_failed lane asked reason l"
| "link_step (SvAskHello aborted) l = link_ask_hello aborted l"
| "link_step (SvHelloEnds n timeout) l = link_hello_ends n timeout l"
| "link_step SvClose l = link_close l"

end
