(* ===== verification/Link_Correct.thy ===== *)
theory Link_Correct
  imports Remote_Link
begin

text \<open>
  What the session's end of a link keeps over any run: every call it was given ends exactly once, a call is sent again only to a hand that has a
  record, and a session with an epoch sends a call on a lane only after the hand has acknowledged that very epoch there.
\<close>

section \<open>Replies\<close>

definition replies :: "string \<Rightarrow> link_out list \<Rightarrow> nat" where
  "replies k outs = length (filter (\<lambda>out. case out of SReply k' _ \<Rightarrow> k' = k | _ \<Rightarrow> False) outs)"

lemma replies_simps [simp]:
  "replies k [] = 0" "replies k (SReply k' r # outs) = (if k' = k then 1 else 0) + replies k outs" "replies k (SSend lane m # outs) = replies k outs"
  "replies k (SHello n h # outs) = replies k outs" "replies k (SClosed # outs) = replies k outs" "replies k (outs @ outs') = replies k outs + replies k outs'"
  by (simp_all add: replies_def)

lemma replies_none: "(\<And>k' r. SReply k' r \<notin> set outs) \<Longrightarrow> replies k outs = 0"
  by (auto simp: replies_def filter_empty_conv split: link_out.splits)

definition pend :: "string \<Rightarrow> session_link \<Rightarrow> nat" where
  "pend k l = (if is_pending l k then 1 else 0)"

lemma message_id_stamped [simp]: "message_id (stamped e m) = message_id m" "message_scope (stamped e m) = message_scope m"
  by (cases e; cases m; simp)+

text \<open>Operations that end no call.\<close>

definition quiet :: "session_link \<Rightarrow> link_out list \<times> session_link \<Rightarrow> bool" where
  "quiet l r \<longleftrightarrow> (\<forall>k. replies k (fst r) = 0) \<and> sl_pending (snd r) = sl_pending l"

lemma quiet_gate: "quiet l (link_gate g l)"
  by (auto simp: quiet_def link_gate_def intro!: replies_none)

lemma quiet_go: "quiet l (run_go go l)"
  by (cases go) (simp_all add: quiet_def)

lemma quiet_whenOpen: "quiet l (whenOpen lane k go l)"
  using quiet_go [of l go] by (auto simp: whenOpen_def quiet_def link_gate_def split: prod.splits intro!: replies_none)

lemma quiet_resend: "quiet l (resend_all ms l)"
proof (induction ms l rule: resend_all.induct)
  case (2 k m rest l)
  show ?case
  proof (cases "k \<in> set (sl_sent l)")
    case True
    obtain out l' where w: "whenOpen (message_scope m) k (GoResend m) l = (out, l')" by fastforce
    obtain outs l'' where r: "resend_all rest l' = (outs, l'')" by fastforce
    show ?thesis using True w r quiet_whenOpen [of l "message_scope m" k "GoResend m"] "2.IH"(2) [OF _ w [symmetric]] by (simp add: quiet_def)
  next
    case False
    then show ?thesis using "2.IH"(1) by (simp add: quiet_def)
  qed
qed (simp add: quiet_def)

lemma quiet_hello: "quiet l (link_hello h l)"
proof -
  let ?l1 = "l\<lparr>sl_announced := Some h, sl_helloWaiters := []\<rparr>"
  obtain floors l2 where g: "(if sl_epoch l = None then ([], ?l1) else link_gate (gate_resend (sl_gate ?l1)) ?l1) = (floors, l2)" by fastforce
  obtain sends l3 where r: "(if rh_durable h then resend_all (sl_pending l2) l2 else ([], l2)) = (sends, l3)" by fastforce
  have "quiet l (floors, l2)" using g quiet_gate [of ?l1] by (auto simp: quiet_def split: if_splits) (metis fst_conv snd_conv)+
  moreover have "quiet l2 (sends, l3)" using r quiet_resend [of l2 "sl_pending l2"] by (auto simp: quiet_def split: if_splits)
  moreover have "replies k (map (\<lambda>n. SHello n (Some h)) (sl_helloWaiters l)) = 0" for k by (auto intro!: replies_none)
  ultimately show ?thesis using g r by (simp add: link_hello_def quiet_def Let_def)
qed

text \<open>A call ends when it stops waiting.\<close>

lemma settle_replies: "link_settle k' reply l = (out, l') \<Longrightarrow> replies k out + pend k l' = pend k l"
  by (auto simp: link_settle_def pend_def is_pending_def split: if_splits)

lemma close_all_replies: "close_all ks l = (out, l') \<Longrightarrow> replies k out + pend k l' = pend k l \<and> (k \<in> set ks \<longrightarrow> pend k l' = 0) \<and> pend k l' \<le> pend k l"
proof (induction ks arbitrary: l out l')
  case (Cons k1 ks)
  obtain o1 l1 where s: "link_settle k1 RClosed l = (o1, l1)" by fastforce
  obtain o2 l2 where c: "close_all ks l1 = (o2, l2)" by fastforce
  have "pend k1 l1 = 0" using s by (auto simp: link_settle_def pend_def is_pending_def split: if_splits)
  then show ?case using Cons.IH [OF c] Cons.prems s c settle_replies [OF s, of k] by auto
qed simp

definition dispatches :: "string \<Rightarrow> link_event \<Rightarrow> nat" where
  "dispatches k e = (case e of SvDispatch m _ \<Rightarrow> if message_id m = k then 1 else 0 | _ \<Rightarrow> 0)"

lemma quiet_replies: "quiet l (out, l') \<Longrightarrow> replies k out + pend k l' = pend k l"
  by (simp add: quiet_def pend_def is_pending_def)

lemma then_ack_replies: "then_ack lane k' (link_settle k' r l) = (out, l') \<Longrightarrow> replies k out + pend k l' = pend k l"
  using settle_replies [of k' r l] by (auto simp: then_ack_def split: prod.splits)

lemma link_frame_replies: "link_frame lane m l = (out, l') \<Longrightarrow> replies k out + pend k l' = pend k l"
  using quiet_hello quiet_gate
  by (cases "(lane, m, l)" rule: link_frame.cases)
     (auto simp: then_ack_replies settle_replies split: option.splits intro!: quiet_replies, metis+)

lemma link_step_replies:
  assumes "link_step e l = (out, l')" "dispatches k e = 1 \<Longrightarrow> \<not> is_pending l k"
  shows "replies k out + pend k l' = pend k l + dispatches k e"
proof (cases e)
  case (SvDispatch m aborted)
  let ?m = "stamped (sl_epoch l) m" and ?k = "message_id m"
  let ?l1 = "l\<lparr>sl_pending := obj_put ?k ?m (sl_pending l)\<rparr>"
  have p: "pend k ?l1 = pend k l + dispatches k e" using assms(2) SvDispatch by (auto simp: pend_def is_pending_def dispatches_def)
  have "replies k out + pend k l' = pend k ?l1"
  proof (cases aborted)
    case True
    then show ?thesis using assms(1) SvDispatch settle_replies [of ?k "RAborted False" ?l1 out l' k] by (simp add: link_dispatch_def Let_def)
  next
    case False
    then have "quiet ?l1 (out, l')" using assms(1) SvDispatch quiet_whenOpen [of ?l1 "message_scope m" ?k "GoDispatch ?m"] by (simp add: link_dispatch_def Let_def)
    then show ?thesis by (rule quiet_replies)
  qed
  with p show ?thesis by simp
next
  case (SvAbort k')
  then show ?thesis using assms(1) settle_replies [of k' _ l _ _ k]
    by (auto simp: link_abort_def dispatches_def Let_def split: option.splits prod.splits if_splits)
next
  case (SvFrame lane m)
  then show ?thesis using assms(1) link_frame_replies by (simp add: dispatches_def)
next
  case (SvOpened i)
  have q: "quiet l' (run_go go l')" for go l' by (rule quiet_go)
  show ?thesis
  proof (cases "i < length (sl_waits l)")
    case True
    let ?l1 = "l\<lparr>sl_waits := take i (sl_waits l) @ drop (Suc i) (sl_waits l)\<rparr>"
    have p: "pend k ?l1 = pend k l" by (simp add: pend_def is_pending_def)
    show ?thesis using assms(1) SvOpened True p quiet_replies [of ?l1 out l' k] quiet_go [of ?l1 "lw_go (sl_waits l ! i)"]
        settle_replies [of "lw_id (sl_waits l ! i)" _ ?l1 out l' k]
      by (auto simp: link_opened_def dispatches_def Let_def split: sum.splits option.splits if_splits)
  next
    case False
    then show ?thesis using assms(1) SvOpened by (auto simp: link_opened_def dispatches_def)
  qed
next
  case (SvSendSettled k' failed)
  have p: "pend k (l\<lparr>sl_sends := x\<rparr>) = pend k l" for x by (simp add: pend_def is_pending_def)
  then show ?thesis using assms(1) SvSendSettled settle_replies [of k' _ "l\<lparr>sl_sends := remove1 k' (sl_sends l)\<rparr>" out l' k]
    by (auto simp: link_send_settled_def dispatches_def Let_def split: option.splits if_splits)
next
  case (SvFloorFailed lane asked reason)
  then show ?thesis using assms(1) quiet_gate [of l] quiet_replies [of l out l' k] by (auto simp: link_floor_failed_def dispatches_def split: if_splits) metis
next
  case (SvAskHello aborted)
  then show ?thesis using assms(1) by (auto simp: link_ask_hello_def dispatches_def pend_def is_pending_def Let_def split: if_splits)
next
  case (SvHelloEnds n timeout)
  then show ?thesis using assms(1) by (auto simp: link_hello_ends_def dispatches_def pend_def is_pending_def split: if_splits)
next
  case SvClose
  then show ?thesis using assms(1) close_all_replies [of "map fst (sl_pending l)" l out l' k] by (simp add: link_close_def dispatches_def)
qed

definition dispatched :: "link_event list \<Rightarrow> string list" where
  "dispatched es = concat (map (\<lambda>e. case e of SvDispatch m _ \<Rightarrow> [message_id m] | _ \<Rightarrow> []) es)"

lemma dispatched_simps [simp]:
  "dispatched [] = []" "dispatched (e # es) = (case e of SvDispatch m _ \<Rightarrow> [message_id m] | _ \<Rightarrow> []) @ dispatched es"
  "dispatched (es @ es') = dispatched es @ dispatched es'"
  by (simp_all add: dispatched_def)

lemma link_run_replies:
  "run_steps link_step es l = (outs, l') \<Longrightarrow> distinct (dispatched es) \<Longrightarrow> (\<And>k. k \<in> set (dispatched es) \<Longrightarrow> \<not> is_pending l k) \<Longrightarrow>
   replies k outs + pend k l' = pend k l + (if k \<in> set (dispatched es) then 1 else 0)"
proof (induction es arbitrary: l outs)
  case (Cons e es)
  obtain out l1 outs' where c: "link_step e l = (out, l1)" "run_steps link_step es l1 = (outs', l')" "outs = out @ outs'"
    by (rule run_steps_Cons [OF Cons.prems(1)])
  have s: "replies j out + pend j l1 = pend j l + dispatches j e" for j
    by (rule link_step_replies [OF c(1)]) (use Cons.prems(3) in \<open>auto simp: dispatches_def split: link_event.splits if_splits\<close>)
  have "\<not> is_pending l1 j" if "j \<in> set (dispatched es)" for j
  proof -
    have "dispatches j e = 0" using Cons.prems(2) that by (auto simp: dispatches_def split: link_event.splits)
    moreover have "pend j l = 0" using Cons.prems(3) that by (simp add: pend_def)
    ultimately show ?thesis using s [of j] by (auto simp: pend_def split: if_splits)
  qed
  from Cons.IH [OF c(2) _ this] Cons.prems(2) s [of k] c(3) show ?case
    by (auto simp: dispatches_def split: link_event.splits if_splits)
qed simp

text \<open>C18. Every call or file operation given to the link gets exactly one reply or still waits, whatever frames, aborts, failed sends and hand restarts
  come and in whatever order; closing the link leaves none waiting.\<close>

theorem link_replies_exactly_once:
  assumes "run_steps link_step es (createHandLink epoch) = (outs, l)" "distinct (dispatched es)"
  shows "replies k outs + pend k l = (if k \<in> set (dispatched es) then 1 else 0) \<and>
    (es \<noteq> [] \<longrightarrow> last es = SvClose \<longrightarrow> pend k l = 0)"
proof
  have "\<not> is_pending (createHandLink epoch) j" for j by (simp add: createHandLink_def is_pending_def)
  then show "replies k outs + pend k l = (if k \<in> set (dispatched es) then 1 else 0)"
    using link_run_replies [OF assms, of k] by (simp add: pend_def)
  show "es \<noteq> [] \<longrightarrow> last es = SvClose \<longrightarrow> pend k l = 0"
  proof (intro impI)
    assume "es \<noteq> []" "last es = SvClose"
    then obtain fs where es: "es = fs @ [SvClose]" by (metis append_butlast_last_id)
    obtain o1 l1 where "run_steps link_step fs (createHandLink epoch) = (o1, l1)" by fastforce
    then obtain out where c: "link_close l1 = (out, l)" using assms(1) by (auto simp: es run_steps_append split: prod.splits)
    show "pend k l = 0"
    proof (cases "k \<in> fst ` set (sl_pending l1)")
      case True
      then show ?thesis using close_all_replies [OF c [unfolded link_close_def], of k] by simp
    next
      case False
      then have "pend k l1 = 0" by (simp add: pend_def is_pending_def map_of_eq_None_iff)
      then show ?thesis using close_all_replies [OF c [unfolded link_close_def], of k] by simp
    qed
  qed
qed

section \<open>Sends\<close>

fun is_call :: "remote_message \<Rightarrow> bool" where
  "is_call (MInvoke _) = True"
| "is_call (MFile _) = True"
| "is_call _ = False"

definition sends_call :: "string \<Rightarrow> link_out \<Rightarrow> bool" where
  "sends_call k out = (case out of SSend _ m \<Rightarrow> is_call m \<and> message_id m = k | _ \<Rightarrow> False)"

abbreviation sends :: "string \<Rightarrow> link_out list \<Rightarrow> nat" where
  "sends k outs \<equiv> length (filter (sends_call k) outs)"

definition waits_for :: "string \<Rightarrow> session_link \<Rightarrow> nat" where
  "waits_for k l = length (filter (\<lambda>w. lw_id w = k) (sl_waits l))"

fun go_message :: "link_go \<Rightarrow> remote_message" where
  "go_message (GoDispatch m) = m"
| "go_message (GoResend m) = m"

text \<open>\<open>D\<close>: the messages given to \<open>dispatch\<close>. What waits, and what continuations will send, are such messages, stamped.\<close>

definition link_wf :: "remote_message set \<Rightarrow> session_link \<Rightarrow> bool" where
  "link_wf D l \<longleftrightarrow> obj_wf (sl_pending l) \<and>
     (\<forall>k m. (k, m) \<in> set (sl_pending l) \<longrightarrow> message_id m = k \<and> is_call m \<and> m \<in> stamped (sl_epoch l) ` D) \<and>
     (\<forall>w \<in> set (sl_waits l). message_id (go_message (lw_go w)) = lw_id w \<and> message_scope (go_message (lw_go w)) = lw_lane w \<and>
        is_call (go_message (lw_go w)) \<and> go_message (lw_go w) \<in> stamped (sl_epoch l) ` D)"

definition given :: "remote_message set \<Rightarrow> link_event \<Rightarrow> bool" where
  "given D e = (case e of SvDispatch m _ \<Rightarrow> is_call m \<and> m \<in> D | _ \<Rightarrow> True)"

definition durable_hello :: "link_event \<Rightarrow> nat" where
  "durable_hello e = (case e of SvFrame _ (MHello h) \<Rightarrow> if rh_durable h then 1 else 0 | _ \<Rightarrow> 0)"

lemma resolve_wait_same [simp]:
  "lw_id (resolve_wait g w) = lw_id w" "lw_lane (resolve_wait g w) = lw_lane w" "lw_go (resolve_wait g w) = lw_go w"
  by (auto simp: resolve_wait_def split: sum.splits option.splits)

lemma sends_floors: "link_gate g l = (out, l') \<Longrightarrow> sends k out = 0 \<and> waits_for k l' = waits_for k l \<and> sl_epoch l' = sl_epoch l"
  by (auto simp: link_gate_def sends_call_def waits_for_def filter_map comp_def case_prod_unfold)

lemma run_go_sends:
  assumes "run_go go l = (out, l')" "is_call (go_message go)"
  shows "sends k out = (if message_id (go_message go) = k then 1 else 0) \<and> waits_for k l' = waits_for k l"
  using assms by (cases go) (auto simp: sends_call_def waits_for_def)

lemma whenOpen_sends:
  assumes "whenOpen lane k' go l = (out, l')" "is_call (go_message go)" "message_id (go_message go) = k'"
  shows "sends k out + waits_for k l' = waits_for k l + (if k' = k then 1 else 0)"
proof (cases "sl_epoch l")
  case None
  then show ?thesis using assms run_go_sends [of go l out l' k] by (simp add: whenOpen_def)
next
  case (Some e)
  obtain v g where o: "gate_open lane (sl_gate l) = (v, g)" by fastforce
  obtain o1 l1 where g: "link_gate g l = (o1, l1)" by fastforce
  show ?thesis using assms Some o g sends_floors [OF g, of k] by (auto simp: whenOpen_def waits_for_def)
qed

lemma resend_sends:
  assumes "resend_all ms l = (out, l')" "obj_wf ms" "\<And>k m. (k, m) \<in> set ms \<Longrightarrow> message_id m = k \<and> is_call m"
  shows "sends k out + waits_for k l' \<le> waits_for k l + (if k \<in> fst ` set ms then 1 else 0)"
  using assms
proof (induction ms l arbitrary: out l' rule: resend_all.induct)
  case (2 k1 m rest l)
  show ?case
  proof (cases "k1 \<in> set (sl_sent l)")
    case True
    obtain o1 l1 where w: "whenOpen (message_scope m) k1 (GoResend m) l = (o1, l1)" by fastforce
    obtain o2 l2 where r: "resend_all rest l1 = (o2, l2)" by fastforce
    have "sends k o1 + waits_for k l1 = waits_for k l + (if k1 = k then 1 else 0)"
      by (rule whenOpen_sends [OF w]) (use "2.prems"(3) [of k1 m] in auto)
    moreover have "sends k o2 + waits_for k l2 \<le> waits_for k l1 + (if k \<in> fst ` set rest then 1 else 0)"
      by (rule "2.IH"(2) [OF _ w [symmetric] r]) (use True "2.prems" in auto)
    ultimately show ?thesis using "2.prems"(1,2) True w r by (auto split: if_splits)
  next
    case False
    then have "sends k out + waits_for k l' \<le> waits_for k l + (if k \<in> fst ` set rest then 1 else 0)"
      by (intro "2.IH"(1)) (use "2.prems" in auto)
    then show ?thesis by (auto split: if_splits)
  qed
qed (simp add: waits_for_def)

lemma settle_wf: "link_settle k reply l = (out, l') \<Longrightarrow> link_wf D l \<Longrightarrow> link_wf D l'"
  by (auto simp: link_settle_def link_wf_def obj_wf_del split: if_splits) (auto simp: obj_del_def)

lemma settle_sends: "link_settle k' reply l = (out, l') \<Longrightarrow> sends k out = 0 \<and> waits_for k l' = waits_for k l"
  by (auto simp: link_settle_def sends_call_def waits_for_def split: if_splits)

lemma link_gate_wf: "link_gate g l = (out, l') \<Longrightarrow> link_wf D l \<Longrightarrow> link_wf D l'"
  by (auto simp: link_gate_def link_wf_def)

lemma run_go_wf: "run_go go l = (out, l') \<Longrightarrow> link_wf D l \<Longrightarrow> link_wf D l'"
  by (cases go) (auto simp: link_wf_def)

lemma whenOpen_wf:
  assumes "whenOpen (message_scope (go_message go)) (message_id (go_message go)) go l = (out, l')" "link_wf D l"
    "is_call (go_message go)" "go_message go \<in> stamped (sl_epoch l) ` D"
  shows "link_wf D l' \<and> sl_epoch l' = sl_epoch l \<and> sl_pending l' = sl_pending l"
proof (cases "sl_epoch l")
  case None
  then show ?thesis using assms run_go_wf [of go l out l' D] by (cases go) (auto simp: whenOpen_def)
next
  case (Some e)
  obtain v g where o: "gate_open (message_scope (go_message go)) (sl_gate l) = (v, g)" by fastforce
  obtain o1 l1 where g: "link_gate g l = (o1, l1)" by fastforce
  have "sl_epoch l1 = sl_epoch l" "sl_pending l1 = sl_pending l" using g by (auto simp: link_gate_def)
  then show ?thesis using assms Some o g link_gate_wf [OF g assms(2)] by (auto simp: whenOpen_def link_wf_def)
qed

lemma resend_wf:
  assumes "resend_all ms l = (out, l')" "link_wf D l" "\<And>k m. (k, m) \<in> set ms \<Longrightarrow> message_id m = k \<and> is_call m \<and> m \<in> stamped (sl_epoch l) ` D"
  shows "link_wf D l'"
  using assms
proof (induction ms l arbitrary: out l' rule: resend_all.induct)
  case (2 k1 m rest l)
  have m: "message_id m = k1" "is_call m" "m \<in> stamped (sl_epoch l) ` D" using "2.prems"(3) [of k1 m] by auto
  show ?case
  proof (cases "k1 \<in> set (sl_sent l)")
    case True
    obtain o1 l1 where w: "whenOpen (message_scope m) k1 (GoResend m) l = (o1, l1)" by fastforce
    obtain o2 l2 where r: "resend_all rest l1 = (o2, l2)" by fastforce
    have l1: "link_wf D l1 \<and> sl_epoch l1 = sl_epoch l \<and> sl_pending l1 = sl_pending l"
      using whenOpen_wf [of "GoResend m" l o1 l1 D] w m "2.prems"(2) by simp
    have "link_wf D l2" by (rule "2.IH"(2) [OF _ w [symmetric] r]) (use True "2.prems"(3) l1 in auto)
    then show ?thesis using "2.prems"(1) True w r by simp
  next
    case False
    then have "resend_all rest l = (out, l')" using "2.prems"(1) by simp
    then show ?thesis by (rule "2.IH"(1) [OF False _ "2.prems"(2)]) (rule "2.prems"(3), simp)
  qed
qed simp

lemma hello_step:
  assumes "link_hello h l = (out, l')" "link_wf D l"
  shows "link_wf D l' \<and> sends k out + waits_for k l' \<le> waits_for k l + (if rh_durable h then 1 else 0)"
proof -
  let ?l1 = "l\<lparr>sl_announced := Some h, sl_helloWaiters := []\<rparr>"
  obtain floors l2 where g: "(if sl_epoch l = None then ([], ?l1) else link_gate (gate_resend (sl_gate ?l1)) ?l1) = (floors, l2)" by fastforce
  obtain o3 l3 where r: "(if rh_durable h then resend_all (sl_pending l2) l2 else ([], l2)) = (o3, l3)" by fastforce
  have o: "out = map (\<lambda>n. SHello n (Some h)) (sl_helloWaiters l) @ floors @ o3" "l' = l3" using assms(1) g r by (simp_all add: link_hello_def Let_def)
  have w1: "link_wf D ?l1" using assms(2) by (simp add: link_wf_def)
  have w2: "link_wf D l2" using g link_gate_wf [OF _ w1] w1 by (auto split: if_splits)
  have f: "sends k floors = 0 \<and> waits_for k l2 = waits_for k l"
  proof (cases "sl_epoch l")
    case None
    then show ?thesis using g by (auto simp: waits_for_def)
  next
    case (Some e)
    then have "link_gate (gate_resend (sl_gate ?l1)) ?l1 = (floors, l2)" using g by simp
    from sends_floors [OF this, of k] show ?thesis by (simp add: waits_for_def)
  qed
  have h: "filter (sends_call k) (map (\<lambda>n. SHello n (Some h)) ws) = []" for ws by (auto simp: filter_empty_conv sends_call_def)
  show ?thesis
  proof (cases "rh_durable h")
    case True
    then have r': "resend_all (sl_pending l2) l2 = (o3, l3)" using r by simp
    have p: "obj_wf (sl_pending l2)" "\<And>k m. (k, m) \<in> set (sl_pending l2) \<Longrightarrow> message_id m = k \<and> is_call m \<and> m \<in> stamped (sl_epoch l2) ` D"
      using w2 by (auto simp: link_wf_def)
    have "sends k o3 + waits_for k l3 \<le> waits_for k l2 + (if k \<in> fst ` set (sl_pending l2) then 1 else 0)"
      by (rule resend_sends [OF r' p(1)]) (use p(2) in blast)
    moreover have "link_wf D l3" by (rule resend_wf [OF r' w2 p(2)])
    ultimately show ?thesis using o f h True by (auto split: if_splits)
  next
    case False
    then show ?thesis using o f h r w2 by auto
  qed
qed

lemma close_all_step: "close_all ks l = (out, l') \<Longrightarrow> link_wf D l \<Longrightarrow> link_wf D l' \<and> sends k out + waits_for k l' = waits_for k l"
proof (induction ks arbitrary: l out l')
  case (Cons k1 ks)
  obtain o1 l1 where s: "link_settle k1 RClosed l = (o1, l1)" by fastforce
  obtain o2 l2 where c: "close_all ks l1 = (o2, l2)" by fastforce
  from Cons.IH [OF c settle_wf [OF s Cons.prems(2)]] settle_sends [OF s, of k] Cons.prems(1) s c show ?case by auto
qed (auto simp: sends_call_def)

lemma then_ack_step: "then_ack lane k' (link_settle k' r l) = (out, l') \<Longrightarrow> link_wf D l \<Longrightarrow> link_wf D l' \<and> sends k out + waits_for k l' = waits_for k l"
  using settle_sends [of k' r l _ _ k] settle_wf [of k' r l _ _ D] by (auto simp: then_ack_def sends_call_def split: prod.splits)

lemma settle_step: "link_settle k' r l = (out, l') \<Longrightarrow> link_wf D l \<Longrightarrow> link_wf D l' \<and> sends k out + waits_for k l' = waits_for k l"
  using settle_sends [of k' r l out l' k] settle_wf [of k' r l out l' D] by simp

lemma link_gate_step: "link_gate g l = (out, l') \<Longrightarrow> link_wf D l \<Longrightarrow> link_wf D l' \<and> sends k out + waits_for k l' = waits_for k l"
  using sends_floors [of g l out l' k] link_gate_wf [of g l out l' D] by simp

lemma frame_step:
  assumes "link_frame lane m l = (out, l')" "link_wf D l"
  shows "link_wf D l' \<and> sends k out + waits_for k l' \<le> waits_for k l + durable_hello (SvFrame lane m)"
proof (cases "(lane, m, l)" rule: link_frame.cases)
  case (1 a h b)
  then show ?thesis using assms hello_step [of h l out l' D k] by (simp add: durable_hello_def)
next
  case (2 a f b)
  then show ?thesis using assms link_gate_step [of _ l out l' D k] by (auto split: option.splits)
qed (use assms then_ack_step [of lane _ _ l out l' D k] settle_step [of _ _ l out l' D k] in \<open>auto simp: durable_hello_def split: prod.splits\<close>)

lemma opened_step:
  assumes "link_opened i l = (out, l')" "link_wf D l"
  shows "link_wf D l' \<and> sends k out + waits_for k l' \<le> waits_for k l"
proof (cases "i < length (sl_waits l)")
  case True
  let ?w = "sl_waits l ! i" and ?l1 = "l\<lparr>sl_waits := take i (sl_waits l) @ drop (Suc i) (sl_waits l)\<rparr>"
  have w: "message_id (go_message (lw_go ?w)) = lw_id ?w" "is_call (go_message (lw_go ?w))" using assms(2) True by (auto simp: link_wf_def)
  have l1: "link_wf D ?l1" using assms(2) by (auto simp: link_wf_def dest: in_set_takeD in_set_dropD)
  have d: "sl_waits l = take i (sl_waits l) @ ?w # drop (Suc i) (sl_waits l)" using True by (rule id_take_nth_drop)
  have c: "waits_for k l = waits_for k ?l1 + (if lw_id ?w = k then 1 else 0)"
    unfolding waits_for_def using arg_cong [OF d, of "\<lambda>ws. length (filter (\<lambda>w. lw_id w = k) ws)"] by simp
  show ?thesis using assms True c l1 run_go_sends [OF _ w(2), of ?l1 out l' k] run_go_wf [of "lw_go ?w" ?l1 out l' D]
      settle_step [of "lw_id ?w" _ ?l1 out l' D k] w(1)
    by (auto simp: link_opened_def Let_def split: sum.splits option.splits if_splits)
next
  case False
  then show ?thesis using assms by (auto simp: link_opened_def)
qed

lemma dispatch_step:
  assumes "link_dispatch m aborted l = (out, l')" "link_wf D l" "is_call m" "m \<in> D"
  shows "link_wf D l' \<and> sends k out + waits_for k l' \<le> waits_for k l + (if message_id m = k then 1 else 0)"
proof -
  let ?m = "stamped (sl_epoch l) m"
  let ?l1 = "l\<lparr>sl_pending := obj_put (message_id m) ?m (sl_pending l)\<rparr>"
  have c: "is_call ?m" using assms(3) by (cases "sl_epoch l"; cases m) auto
  have "(k', m') \<in> set (obj_put (message_id m) ?m (sl_pending l)) \<Longrightarrow> message_id m' = k' \<and> is_call m' \<and> m' \<in> stamped (sl_epoch l) ` D" for k' m'
    using set_obj_put_subset [of "message_id m" ?m "sl_pending l"] assms(2,4) c by (auto simp: link_wf_def)
  then have l1: "link_wf D ?l1" using assms(2) by (auto simp: link_wf_def)
  have s: "waits_for k ?l1 = waits_for k l" by (simp add: waits_for_def)
  show ?thesis
  proof (cases aborted)
    case True
    then show ?thesis using assms(1) settle_step [of "message_id m" _ ?l1 out l' D k] l1 s by (auto simp: link_dispatch_def Let_def)
  next
    case False
    then have o: "whenOpen (message_scope m) (message_id m) (GoDispatch ?m) ?l1 = (out, l')" using assms(1) by (simp add: link_dispatch_def Let_def)
    show ?thesis using whenOpen_sends [OF o, of k] whenOpen_wf [of "GoDispatch ?m" ?l1 out l' D] o l1 c s assms(4) by simp
  qed
qed

lemma link_step_sends:
  assumes "link_wf D l" "given D e" "link_step e l = (out, l')"
  shows "link_wf D l' \<and> sends k out + waits_for k l' \<le> waits_for k l + (dispatches k e + durable_hello e)"
proof (cases e)
  case (SvDispatch m aborted)
  then show ?thesis using assms dispatch_step [of m aborted l out l' D k] by (simp add: given_def dispatches_def)
next
  case (SvFrame lane m)
  then show ?thesis using assms frame_step [of lane m l out l' D k] by simp
next
  case (SvOpened i)
  then show ?thesis using assms opened_step [of i l out l' D k] by simp
next
  case (SvAbort k')
  then show ?thesis using assms settle_step [of k' _ l _ _ D k]
    by (auto simp: link_abort_def Let_def sends_call_def split: option.splits prod.splits if_splits)
next
  case (SvSendSettled k' failed)
  let ?l1 = "l\<lparr>sl_sends := remove1 k' (sl_sends l)\<rparr>"
  have "link_wf D ?l1" "waits_for k ?l1 = waits_for k l" using assms(1) by (simp_all add: link_wf_def waits_for_def)
  then show ?thesis using assms SvSendSettled settle_step [of k' _ ?l1 out l' D k]
    by (auto simp: link_send_settled_def Let_def split: option.splits if_splits)
next
  case (SvFloorFailed lane asked reason)
  then show ?thesis using assms link_gate_step [of _ l out l' D k] by (auto simp: link_floor_failed_def split: if_splits)
next
  case (SvAskHello aborted)
  then show ?thesis using assms by (auto simp: link_ask_hello_def link_wf_def waits_for_def sends_call_def Let_def split: if_splits)
next
  case (SvHelloEnds n timeout)
  then show ?thesis using assms by (auto simp: link_hello_ends_def link_wf_def waits_for_def sends_call_def split: if_splits)
next
  case SvClose
  then show ?thesis using assms close_all_step [of "map fst (sl_pending l)" l out l' D k] by (simp add: link_close_def)
qed

interpretation link_sends: counted link_step "link_wf D" "given D" "sends_call k" "waits_for k" "\<lambda>e. dispatches k e + durable_hello e" for D k
  by unfold_locales (use link_step_sends in blast)+

lemma link_wf_created: "link_wf D (createHandLink epoch)"
  by (simp add: link_wf_def createHandLink_def)

lemma dispatch_sum: "distinct (dispatched es) \<Longrightarrow> sum_list (map (dispatches k) es) \<le> (if k \<in> set (dispatched es) then 1 else 0)"
proof (induction es)
  case (Cons e es)
  show ?case
  proof (cases "\<exists>m a. e = SvDispatch m a \<and> message_id m = k")
    case True
    then have "k \<notin> set (dispatched es)" "dispatches k e = 1" "k \<in> set (dispatched (e # es))" using Cons.prems by (auto simp: dispatches_def)
    then show ?thesis using Cons by simp
  next
    case False
    then have e: "dispatches k e = 0" by (auto simp: dispatches_def split: link_event.splits)
    have "sum_list (map (dispatches k) es) \<le> (if k \<in> set (dispatched es) then 1 else 0)" using Cons by simp
    also have "\<dots> \<le> (if k \<in> set (dispatched (e # es)) then 1 else 0)" by simp
    finally show ?thesis using e by (metis add_0 list.simps(9) sum_list.Cons)
  qed
qed simp

text \<open>A call is sent again only on the announcement of a hand that has a record: a call is sent at most once plus once for
  every durable hello, so that a hand without a record never gets a call twice.\<close>

theorem resent_only_to_durable_hands:
  assumes "run_steps link_step es (createHandLink epoch) = (outs, l)" "distinct (dispatched es)"
    "list_all (\<lambda>e. case e of SvDispatch m _ \<Rightarrow> is_call m | _ \<Rightarrow> True) es"
  shows "sends k outs \<le> 1 + sum_list (map durable_hello es)"
proof -
  have "list_all (given UNIV) es" using assms(3) by (auto simp: list_all_iff given_def split: link_event.splits)
  from link_sends.count_run [OF link_wf_created this assms(1), of k] have "sends k outs \<le> sum_list (map (\<lambda>e. dispatches k e + durable_hello e) es)"
    by (simp add: waits_for_def createHandLink_def)
  moreover have "sum_list (map (dispatches k) es) \<le> 1" by (rule order_trans [OF dispatch_sum [OF assms(2)]]) simp
  ultimately show ?thesis unfolding sum_list_addf by linarith
qed

section \<open>The epoch of what is sent\<close>

text \<open>Every promise of the gate belongs to one lane, and a new one is none of the old.\<close>

definition prom_wf :: "epoch_gate \<Rightarrow> bool" where
  "prom_wf g \<longleftrightarrow> obj_wf (eg_lanes g) \<and> (\<forall>a s. (a, s) \<in> set (eg_lanes g) \<longrightarrow> gl_decided s < eg_promises g) \<and>
     (\<forall>a s b t. (a, s) \<in> set (eg_lanes g) \<longrightarrow> (b, t) \<in> set (eg_lanes g) \<longrightarrow> gl_decided s = gl_decided t \<longrightarrow> a = b)"

definition prom_le :: "epoch_gate \<Rightarrow> epoch_gate \<Rightarrow> bool" where
  "prom_le g g' \<longleftrightarrow> eg_promises g \<le> eg_promises g' \<and>
     (\<forall>a s'. (a, s') \<in> set (eg_lanes g') \<longrightarrow> eg_promises g \<le> gl_decided s' \<or> (\<exists>s. (a, s) \<in> set (eg_lanes g) \<and> gl_decided s = gl_decided s'))"

lemma prom_le_refl: "prom_le g g"
  by (auto simp: prom_le_def)

lemma prom_le_trans: "prom_le g g' \<Longrightarrow> prom_le g' g'' \<Longrightarrow> prom_le g g''"
  unfolding prom_le_def by (metis le_trans)

lemma obj_put_cases: "(a, s) \<in> set (obj_put k v o') \<Longrightarrow> obj_wf o' \<Longrightarrow> (a = k \<and> s = v) \<or> (a \<noteq> k \<and> (a, s) \<in> set o')"
  by (induction k v o' rule: obj_put.induct) (auto split: if_splits, force)

text \<open>One lane is put, with its own promise or a fresh one.\<close>

lemma prom_put:
  assumes "prom_wf g" "p = eg_promises g \<and> eg_promises g' = eg_promises g + 1 \<or> eg_promises g' = eg_promises g \<and> (\<exists>s. (lane, s) \<in> set (eg_lanes g) \<and> gl_decided s = p)"
    "eg_lanes g' = obj_put lane \<lparr>gl_decided = p, gl_verdict = v\<rparr> (eg_lanes g)"
  shows "prom_wf g' \<and> prom_le g g'"
proof -
  have wf: "obj_wf (eg_lanes g)" using assms(1) by (simp add: prom_wf_def)
  have c: "(a, s) \<in> set (eg_lanes g') \<Longrightarrow> (a = lane \<and> gl_decided s = p) \<or> (a \<noteq> lane \<and> (a, s) \<in> set (eg_lanes g))" for a s
    using obj_put_cases [of a s lane _ "eg_lanes g"] wf assms(3) by fastforce
  have p: "p < eg_promises g'" using assms(1,2) by (auto simp: prom_wf_def)
  have q: "a = lane" if "(a, s) \<in> set (eg_lanes g)" "gl_decided s = p" for a s
    using that assms(1,2) unfolding prom_wf_def by (metis less_irrefl)
  have "gl_decided s < eg_promises g'" if "(a, s) \<in> set (eg_lanes g)" for a s
    using that assms(1,2) by (auto simp: prom_wf_def less_SucI)
  moreover have "obj_wf (eg_lanes g')" using wf assms(3) by simp
  ultimately have "prom_wf g'" using c p q assms(1) unfolding prom_wf_def by metis
  moreover have "prom_le g g'" using c assms(2) unfolding prom_le_def by (metis le_add1 le_refl)
  ultimately show ?thesis ..
qed

lemma prom_decide: "prom_wf g \<Longrightarrow> prom_wf (gate_decide lane r g) \<and> prom_le g (gate_decide lane r g)"
proof (cases "map_of (eg_lanes g) lane")
  case None
  then show "prom_wf g \<Longrightarrow> ?thesis" by (simp add: gate_decide_def prom_le_refl)
next
  case (Some s)
  then show "prom_wf g \<Longrightarrow> ?thesis"
    by (intro prom_put [where p = "gl_decided s" and lane = lane and v = "Some r"]) (auto simp: gate_decide_def dest: map_of_SomeD intro: arg_cong [where f = "\<lambda>s. obj_put lane s (eg_lanes g)"])
qed

lemma prom_ask: "prom_wf g \<Longrightarrow> prom_wf (gate_ask lane g) \<and> prom_le g (gate_ask lane g)"
proof (cases "map_of (eg_lanes g) lane")
  case None
  then show "prom_wf g \<Longrightarrow> ?thesis" by (simp add: gate_ask_def prom_le_refl)
next
  case (Some s)
  show "prom_wf g \<Longrightarrow> ?thesis"
  proof (cases "gl_verdict s")
    case None
    then show "prom_wf g \<Longrightarrow> ?thesis" using Some by (simp add: gate_ask_def prom_wf_def prom_le_def) auto
  next
    case v: (Some r)
    then show "prom_wf g \<Longrightarrow> ?thesis" using Some
      by (intro prom_put [where p = "eg_promises g" and lane = lane and v = None]) (auto simp: gate_ask_def)
  qed
qed

lemma prom_open: "prom_wf g \<Longrightarrow> prom_wf (snd (gate_open lane g)) \<and> prom_le g (snd (gate_open lane g))"
proof (cases "map_of (eg_lanes g) lane")
  case None
  let ?g = "g\<lparr>eg_lanes := obj_put lane \<lparr>gl_decided = eg_promises g, gl_verdict = None\<rparr> (eg_lanes g), eg_promises := eg_promises g + 1\<rparr>"
  assume w: "prom_wf g"
  have "prom_wf ?g \<and> prom_le g ?g" by (rule prom_put [OF w, where p = "eg_promises g" and lane = lane and v = None]) auto
  then show ?thesis using None prom_ask [of ?g lane] prom_le_trans by (auto simp: gate_open_def Let_def)
next
  case (Some s)
  then show "prom_wf g \<Longrightarrow> ?thesis" by (simp add: gate_open_def prom_le_refl split: option.split)
qed

lemma prom_resend: "prom_wf g \<Longrightarrow> prom_wf (gate_resend g) \<and> prom_le g (gate_resend g)"
proof -
  have "prom_wf (foldl (\<lambda>g (lane, state). if gl_verdict state = None \<or> gl_verdict state = Some None then gate_ask lane g else g) g xs) \<and>
    prom_le g (foldl (\<lambda>g (lane, state). if gl_verdict state = None \<or> gl_verdict state = Some None then gate_ask lane g else g) g xs)" if "prom_wf g" for g xs
    using that
  proof (induction xs arbitrary: g)
    case (Cons x xs)
    obtain lane s where x: "x = (lane, s)" by (cases x)
    from prom_ask [OF Cons.prems, of lane] Cons.IH Cons.prems prom_le_trans show ?case unfolding x by (auto; blast)
  qed (simp add: prom_le_refl)
  then show "prom_wf g \<Longrightarrow> ?thesis" by (simp add: gate_resend_def)
qed

lemma prom_step: "prom_wf g \<Longrightarrow> prom_wf (gate_step e g ev) \<and> prom_le g (gate_step e g ev)"
  using prom_open prom_decide prom_resend prom_le_refl
  by (cases ev) (auto simp: gate_answer_def send_failed_def split: option.splits floor_message.splits)

text \<open>\<open>A\<close>: lanes on which the hand has acknowledged the session's epoch.\<close>

definition wait_ok :: "string set \<Rightarrow> epoch_gate \<Rightarrow> link_wait \<Rightarrow> bool" where
  "wait_ok A g w \<longleftrightarrow> (lw_on w = Inl None \<longrightarrow> lw_lane w \<in> A) \<and>
     (\<forall>p. lw_on w = Inr p \<longrightarrow> p < eg_promises g \<and> (\<forall>b s. (b, s) \<in> set (eg_lanes g) \<longrightarrow> gl_decided s = p \<longrightarrow> b = lw_lane w))"

definition gate_in :: "string set \<Rightarrow> epoch_gate \<Rightarrow> bool" where
  "gate_in A g \<longleftrightarrow> prom_wf g \<and> (\<forall>lane. lane_verdict g lane = Some None \<longrightarrow> lane \<in> A)"

definition open_inv :: "string set \<Rightarrow> number \<Rightarrow> session_link \<Rightarrow> bool" where
  "open_inv A ep l \<longleftrightarrow> sl_epoch l = Some ep \<and> gate_in A (sl_gate l) \<and> (\<forall>w \<in> set (sl_waits l). wait_ok A (sl_gate l) w)"

lemma wait_ok_le: "wait_ok A g w \<Longrightarrow> prom_le g g' \<Longrightarrow> wait_ok A g' w"
  unfolding wait_ok_def prom_le_def by (metis leD less_le_trans)

lemma wait_ok_resolved: "wait_ok A g w \<Longrightarrow> gate_in A g \<Longrightarrow> wait_ok A g (resolve_wait g w)"
proof (cases "lw_on w")
  case (Inr p)
  assume w: "wait_ok A g w" and g: "gate_in A g"
  show ?thesis
  proof (cases "List.find (\<lambda>(lane, s). gl_decided s = p \<and> gl_verdict s \<noteq> None) (eg_lanes g)")
    case None
    then show ?thesis using w Inr by (simp add: resolve_wait_def)
  next
    case (Some x)
    obtain b s where x: "x = (b, s)" by (cases x)
    then have f: "(b, s) \<in> set (eg_lanes g)" "gl_decided s = p" "gl_verdict s \<noteq> None" using Some by (auto simp: find_Some_iff) (metis nth_mem)
    then have "b = lw_lane w" using w Inr by (simp add: wait_ok_def)
    moreover have "lane_verdict g b = gl_verdict s" using f(1) g by (auto simp: gate_in_def prom_wf_def lane_verdict_def map_of_is_SomeI)
    ultimately show ?thesis using g f(3) Some x Inr by (auto simp: wait_ok_def resolve_wait_def gate_in_def)
  qed
qed (simp add: resolve_wait_def)

lemma link_gate_open:
  assumes "link_gate g l = (out, l')" "open_inv A ep l" "gate_in A g" "prom_le (sl_gate l) g"
  shows "open_inv A ep l'"
proof -
  have "wait_ok A g (resolve_wait g w)" if "w \<in> set (sl_waits l)" for w
    by (rule wait_ok_resolved [OF wait_ok_le [OF _ assms(4)] assms(3)]) (use assms(2) that in \<open>simp add: open_inv_def\<close>)
  with assms(1-3) show ?thesis by (auto simp: link_gate_def open_inv_def)
qed

lemma gate_in_step:
  assumes "gate_in A g" "\<And>lane a. ev = EvAnswer lane (FloorAckMessage a) \<Longrightarrow> num_eq a ep \<Longrightarrow> lane \<in> A"
  shows "gate_in A (gate_step ep g ev) \<and> prom_le g (gate_step ep g ev)"
proof -
  have "obj_wf (eg_lanes g)" using assms(1) by (simp add: gate_in_def prom_wf_def)
  from gate_step_verdict(2) [OF this] prom_step [of g ep ev] assms show ?thesis unfolding gate_in_def by blast
qed

lemma gate_open_wait:
  assumes "gate_open lane g = (v, g')" "gate_in A g"
  shows "wait_ok A g' \<lparr>lw_id = k, lw_lane = lane, lw_on = v, lw_go = go\<rparr>"
proof -
  have w: "prom_wf g'" using prom_open [of g lane] assms by (simp add: gate_in_def)
  have "\<exists>s. (lane, s) \<in> set (eg_lanes g') \<and> gl_decided s = p" if "v = Inr p" for p
  proof (cases "map_of (eg_lanes g) lane")
    case None
    let ?o = "obj_put lane \<lparr>gl_decided = eg_promises g, gl_verdict = None\<rparr> (eg_lanes g)"
    have "eg_lanes g' = ?o" "p = eg_promises g" using None assms(1) that by (auto simp: gate_open_def gate_ask_def Let_def)
    moreover have "(lane, \<lparr>gl_decided = eg_promises g, gl_verdict = None\<rparr>) \<in> set ?o" by (rule map_of_SomeD) simp
    ultimately show ?thesis by fastforce
  next
    case (Some s)
    then show ?thesis using assms(1) that by (auto simp: gate_open_def dest: map_of_SomeD split: option.splits)
  qed
  moreover have "lane \<in> A" if "v = Inl None"
  proof (cases "map_of (eg_lanes g) lane")
    case None
    then show ?thesis using assms(1) that by (simp add: gate_open_def Let_def)
  next
    case (Some s)
    then show ?thesis using assms that by (auto simp: gate_open_def gate_in_def lane_verdict_def split: option.splits)
  qed
  ultimately show ?thesis using w unfolding wait_ok_def prom_wf_def by (metis link_wait.select_convs(2,3))
qed

definition no_calls :: "link_out list \<Rightarrow> bool" where
  "no_calls out \<longleftrightarrow> (\<forall>lane m. SSend lane m \<in> set out \<longrightarrow> \<not> is_call m)"

lemma no_calls_append [simp]: "no_calls (a @ b) \<longleftrightarrow> no_calls a \<and> no_calls b"
  by (auto simp: no_calls_def)

lemma no_calls_gate: "link_gate g l = (out, l') \<Longrightarrow> no_calls out"
  by (auto simp: link_gate_def no_calls_def)

lemma no_calls_settle: "link_settle k r l = (out, l') \<Longrightarrow> no_calls out"
  by (auto simp: link_settle_def no_calls_def split: if_splits)

lemma whenOpen_open:
  assumes "whenOpen lane k go l = (out, l')" "open_inv A ep l"
  shows "open_inv A ep l' \<and> no_calls out"
proof -
  obtain v g where o: "gate_open lane (sl_gate l) = (v, g)" by fastforce
  obtain o1 l1 where g: "link_gate g l = (o1, l1)" by fastforce
  have gi: "gate_in A (sl_gate l)" using assms(2) by (simp add: open_inv_def)
  have s: "gate_in A g \<and> prom_le (sl_gate l) g" using gate_in_step [OF gi, of "EvOpen lane" ep] o by simp
  have l1: "open_inv A ep l1" by (rule link_gate_open [OF g assms(2)]) (use s in auto)
  have e: "sl_gate l1 = g" using g by (auto simp: link_gate_def)
  have "l' = l1\<lparr>sl_waits := sl_waits l1 @ [\<lparr>lw_id = k, lw_lane = lane, lw_on = v, lw_go = go\<rparr>]\<rparr>" "out = o1"
    using assms o g by (auto simp: whenOpen_def open_inv_def)
  then show ?thesis using l1 e gate_open_wait [OF o gi, of k go] no_calls_gate [OF g] by (auto simp: open_inv_def)
qed

lemma resend_open: "resend_all ms l = (out, l') \<Longrightarrow> open_inv A ep l \<Longrightarrow> open_inv A ep l' \<and> no_calls out"
proof (induction ms l arbitrary: out l' rule: resend_all.induct)
  case (2 k1 m rest l)
  show ?case
  proof (cases "k1 \<in> set (sl_sent l)")
    case True
    obtain o1 l1 where w: "whenOpen (message_scope m) k1 (GoResend m) l = (o1, l1)" by fastforce
    obtain o2 l2 where r: "resend_all rest l1 = (o2, l2)" by fastforce
    from whenOpen_open [OF w "2.prems"(2)] "2.IH"(2) [OF _ w [symmetric] r] "2.prems"(1) True w r show ?thesis by auto
  next
    case False
    then show ?thesis using "2.IH"(1) [OF False, of out l'] "2.prems" by simp
  qed
qed (simp add: no_calls_def)

lemma hello_open:
  assumes "link_hello h l = (out, l')" "open_inv A ep l"
  shows "open_inv A ep l' \<and> no_calls out"
proof -
  let ?l1 = "l\<lparr>sl_announced := Some h, sl_helloWaiters := []\<rparr>"
  obtain o2 l2 where g: "link_gate (gate_resend (sl_gate l)) ?l1 = (o2, l2)" by fastforce
  obtain o3 l3 where r: "(if rh_durable h then resend_all (sl_pending l2) l2 else ([], l2)) = (o3, l3)" by fastforce
  have e: "sl_epoch l = Some ep" "gate_in A (sl_gate l)" using assms(2) by (simp_all add: open_inv_def)
  have "open_inv A ep ?l1" using assms(2) by (simp add: open_inv_def)
  then have l2: "open_inv A ep l2" by (rule link_gate_open [OF g]) (use gate_in_step [OF e(2), of EvResend ep] in auto)
  have l3: "open_inv A ep l3 \<and> no_calls o3" using r l2 resend_open [of "sl_pending l2" l2 o3 l3 A ep] by (auto simp: no_calls_def split: if_splits)
  have "out = map (\<lambda>n. SHello n (Some h)) (sl_helloWaiters l) @ o2 @ o3" "l' = l3" using assms(1) g r e(1) by (auto simp: link_hello_def Let_def)
  moreover have "no_calls (map (\<lambda>n. SHello n (Some h)) (sl_helloWaiters l))" by (auto simp: no_calls_def)
  ultimately show ?thesis using l3 no_calls_gate [OF g] by simp
qed

lemma settle_open: "link_settle k r l = (out, l') \<Longrightarrow> open_inv A ep l \<Longrightarrow> open_inv A ep l'"
  by (auto simp: link_settle_def open_inv_def split: if_splits)

lemma close_all_open: "close_all ks l = (out, l') \<Longrightarrow> open_inv A ep l \<Longrightarrow> open_inv A ep l' \<and> no_calls out"
proof (induction ks arbitrary: l out)
  case (Cons k ks)
  obtain o1 l1 where s: "link_settle k RClosed l = (o1, l1)" by fastforce
  obtain o2 l2 where c: "close_all ks l1 = (o2, l2)" by fastforce
  have "l2 = l'" using Cons.prems(1) s c by simp
  from Cons.IH [OF c [unfolded this] settle_open [OF s Cons.prems(2)]] no_calls_settle [OF s] Cons.prems(1) s c show ?case by auto
qed (auto simp: no_calls_def)

text \<open>An ack of the session's epoch comes only on the lanes of \<open>A\<close>.\<close>

definition acks_in :: "string set \<Rightarrow> number \<Rightarrow> link_event \<Rightarrow> bool" where
  "acks_in A ep e = (\<forall>lane a. e = SvFrame lane (MFloorReply (FloorAckMessage a)) \<longrightarrow> num_eq a ep \<longrightarrow> lane \<in> A)"

lemma frame_open:
  assumes "link_frame lane m l = (out, l')" "open_inv A ep l" "acks_in A ep (SvFrame lane m)"
  shows "open_inv A ep l' \<and> no_calls out"
proof (cases "(lane, m, l)" rule: link_frame.cases)
  case (1 a h b)
  then show ?thesis using assms hello_open by simp
next
  case (2 b f c)
  have e: "sl_epoch l = Some ep" "gate_in A (sl_gate l)" using assms(2) by (simp_all add: open_inv_def)
  have o: "link_gate (gate_answer ep lane f (sl_gate l)) l = (out, l')" using 2 assms(1) e by simp
  have "open_inv A ep l'"
    by (rule link_gate_open [OF o assms(2)]) (use gate_in_step [OF e(2), of "EvAnswer lane f" ep] assms(3) 2 in \<open>auto simp: acks_in_def\<close>)
  then show ?thesis using no_calls_gate [OF o] by simp
qed (use assms settle_open [of _ _ l _ _ A ep] no_calls_settle [of _ _ l] in \<open>auto simp: then_ack_def no_calls_def split: prod.splits\<close>)

lemma opened_open:
  assumes "link_opened i l = (out, l')" "open_inv A ep l" "link_wf D l"
  shows "open_inv A ep l' \<and> (\<forall>lane m. SSend lane m \<in> set out \<longrightarrow> is_call m \<longrightarrow> lane \<in> A \<and> lane = message_scope m \<and> m \<in> stamped (Some ep) ` D)"
proof (cases "i < length (sl_waits l)")
  case True
  let ?w = "sl_waits l ! i" and ?l1 = "l\<lparr>sl_waits := take i (sl_waits l) @ drop (Suc i) (sl_waits l)\<rparr>"
  have w: "message_scope (go_message (lw_go ?w)) = lw_lane ?w" "go_message (lw_go ?w) \<in> stamped (Some ep) ` D" "wait_ok A (sl_gate l) ?w"
    using assms(2,3) True by (auto simp: link_wf_def open_inv_def)
  have l1: "open_inv A ep ?l1" using assms(2) by (auto simp: open_inv_def dest: in_set_takeD in_set_dropD)
  show ?thesis
  proof (cases "lw_on ?w = Inl None \<and> is_pending l (lw_id ?w)")
    case t: True
    then have "run_go (lw_go ?w) ?l1 = (out, l')" using assms(1) True by (simp add: link_opened_def Let_def)
    then show ?thesis using w t l1 by (cases "lw_go ?w") (auto simp: wait_ok_def open_inv_def)
  next
    case False
    then have "open_inv A ep l' \<and> no_calls out" using assms(1,2) True l1 settle_open [of "lw_id ?w" _ ?l1 out l' A ep] no_calls_settle [of "lw_id ?w" _ ?l1 out l']
      by (auto simp: link_opened_def Let_def no_calls_def split: sum.splits option.splits if_splits)
    then show ?thesis by (auto simp: no_calls_def)
  qed
next
  case False
  then show ?thesis using assms by (auto simp: link_opened_def)
qed

lemma link_step_open:
  assumes "open_inv A ep l" "link_wf D l" "acks_in A ep e" "link_step e l = (out, l')"
  shows "open_inv A ep l' \<and> (\<forall>lane m. SSend lane m \<in> set out \<longrightarrow> is_call m \<longrightarrow> lane \<in> A \<and> lane = message_scope m \<and> m \<in> stamped (Some ep) ` D)"
proof (cases "\<exists>i. e = SvOpened i")
  case True
  then show ?thesis using assms opened_open by auto
next
  case n: False
  have "open_inv A ep l' \<and> no_calls out"
  proof (cases e)
    case (SvDispatch m aborted)
    let ?l1 = "l\<lparr>sl_pending := obj_put (message_id m) (stamped (sl_epoch l) m) (sl_pending l)\<rparr>"
    have "open_inv A ep ?l1" using assms(1) by (simp add: open_inv_def)
    then show ?thesis using SvDispatch assms(4) settle_open [of "message_id m" _ ?l1 out l' A ep] no_calls_settle [of "message_id m" _ ?l1 out l']
        whenOpen_open [of "message_scope m" "message_id m" _ ?l1 out l' A ep] by (auto simp: link_dispatch_def Let_def split: if_splits)
  next
    case (SvAbort k)
    then show ?thesis using assms(1,4) settle_open [of k _ l _ _ A ep] no_calls_settle [of k _ l]
      by (auto simp: link_abort_def Let_def no_calls_def split: option.splits prod.splits if_splits)
  next
    case (SvFrame lane m)
    then show ?thesis using assms frame_open by simp
  next
    case (SvSendSettled k failed)
    let ?l1 = "l\<lparr>sl_sends := remove1 k (sl_sends l)\<rparr>"
    have "open_inv A ep ?l1" using assms(1) by (simp add: open_inv_def)
    then show ?thesis using SvSendSettled assms(1,4) settle_open [of k _ ?l1 out l' A ep] no_calls_settle [of k _ ?l1 out l']
      by (auto simp: link_send_settled_def Let_def no_calls_def split: option.splits if_splits)
  next
    case (SvFloorFailed lane asked reason)
    have e: "sl_epoch l = Some ep" "gate_in A (sl_gate l)" using assms(1) by (simp_all add: open_inv_def)
    have o: "link_gate (send_failed lane asked reason (sl_gate l)) l = (out, l')" using SvFloorFailed assms(4) e by (simp add: link_floor_failed_def)
    have "open_inv A ep l'" by (rule link_gate_open [OF o assms(1)]) (use gate_in_step [OF e(2), of "EvSendFailed lane asked reason" ep] in auto)
    then show ?thesis using no_calls_gate [OF o] by simp
  next
    case (SvAskHello aborted)
    then show ?thesis using assms(1,4) by (auto simp: link_ask_hello_def open_inv_def no_calls_def Let_def split: if_splits)
  next
    case (SvHelloEnds m timeout)
    then show ?thesis using assms(1,4) by (auto simp: link_hello_ends_def open_inv_def no_calls_def split: if_splits)
  next
    case SvClose
    then show ?thesis using assms(1,4) close_all_open by (simp add: link_close_def)
  qed (use n in auto)
  then show ?thesis by (auto simp: no_calls_def)
qed

interpretation link_open: kept_under link_step "\<lambda>l. open_inv A ep l \<and> link_wf D l" "\<lambda>e. acks_in A ep e \<and> given D e" for A ep D
  by unfold_locales (use link_step_open link_step_sends in blast)

lemma open_inv_created: "open_inv A ep (createHandLink (Some ep))"
  by (simp add: open_inv_def createHandLink_def gate_in_def prom_wf_def new_gate_def lane_verdict_def)

text \<open>C19. A session with an epoch sends a call only on a lane on which the hand has acknowledged exactly that epoch before, and what it sends
  is a message it was given before, for that scope, stamped with its epoch.\<close>

theorem calls_wait_for_own_floor:
  assumes "run_steps link_step es (createHandLink (Some ep)) = (outs, l)" "list_all (\<lambda>e. case e of SvDispatch m _ \<Rightarrow> is_call m | _ \<Rightarrow> True) es"
    "SSend lane m \<in> set outs" "is_call m"
  shows "\<exists>fs e gs outs1 l1. es = fs @ e # gs \<and> run_steps link_step fs (createHandLink (Some ep)) = (outs1, l1) \<and> SSend lane m \<in> set (fst (link_step e l1)) \<and>
    (\<exists>a. SvFrame lane (MFloorReply (FloorAckMessage a)) \<in> set (fs @ [e]) \<and> num_eq a ep) \<and>
    (\<exists>m0 aborted. SvDispatch m0 aborted \<in> set (fs @ [e]) \<and> m = stamped (Some ep) m0 \<and> lane = message_scope m0)"
proof -
  obtain fs e gs l1 out l2 outs1 outs2 where r: "es = fs @ e # gs" "run_steps link_step fs (createHandLink (Some ep)) = (outs1, l1)"
    "link_step e l1 = (out, l2)" "SSend lane m \<in> set out"
    using any_run.run_out [OF TrueI assms(1,3)] .
  let ?A = "{lane. \<exists>a. SvFrame lane (MFloorReply (FloorAckMessage a)) \<in> set (fs @ [e]) \<and> num_eq a ep}"
  let ?D = "{m. \<exists>a. SvDispatch m a \<in> set (fs @ [e])}"
  have g: "list_all (\<lambda>e. acks_in ?A ep e \<and> given ?D e) fs" using assms(2) r(1) by (auto simp: list_all_iff acks_in_def given_def split: link_event.splits) blast+
  have "open_inv ?A ep l1 \<and> link_wf ?D l1"
    by (rule link_open.kept_run [OF _ g r(2)]) (simp add: open_inv_created link_wf_created)
  moreover have "acks_in ?A ep e" by (auto simp: acks_in_def)
  ultimately have "lane \<in> ?A" "lane = message_scope m" "m \<in> stamped (Some ep) ` ?D" using link_step_open [OF _ _ _ r(3)] r(4) assms(4) by blast+
  with r show ?thesis by (intro exI [of _ fs] exI [of _ e] exI [of _ gs] exI [of _ outs1] exI [of _ l1]) auto
qed

section \<open>Runs\<close>

definition read_call :: "string \<Rightarrow> remote_message" where
  "read_call k = MInvoke \<lparr>ri_epoch = None, ri_executionId = k, ri_batchId = ''b'', ri_index = Fin 0, ri_scopeId = ''s'', ri_scopeRoot = ''/w'',
     ri_toolCallId = k, ri_name = ''read'', ri_arguments = None, ri_sessionRef = None\<rparr>"

definition link_events :: "link_event list" where
  "link_events = [SvDispatch (read_call ''e1'') False, SvFrame ''s'' (MFloorReply (FloorAckMessage (Fin 2))), SvOpened 0,
     SvFrame ''hand.control'' (MHello \<lparr>rh_instance = ''h2'', rh_durable = True, rh_ops = []\<rparr>),
     SvFrame ''s'' (MFloorReply (FloorAckMessage (Fin 2))), SvOpened 0, SvDispatch (read_call ''e2'') False,
     SvFrame ''s'' (MReply (HandSettled ''e1'' SNull)), SvFrame ''s'' (MReply (HandSettled ''e1'' SNull)), SvClose]"

definition link_outs :: "link_out list" where "link_outs = fst (run_steps link_step link_events (createHandLink (Some (Fin 2))))"
definition link_end :: session_link where "link_end = snd (run_steps link_step link_events (createHandLink (Some (Fin 2))))"

lemma link_events_run: "run_steps link_step link_events (createHandLink (Some (Fin 2))) = (link_outs, link_end)"
  by (simp add: link_outs_def link_end_def)

lemma link_events_distinct: "distinct (dispatched link_events)"
  by code_simp

lemma link_events_calls: "list_all (\<lambda>e. case e of SvDispatch m _ \<Rightarrow> is_call m | _ \<Rightarrow> True) link_events"
  by code_simp

theorem link_replies_exactly_once_witness: "replies ''e1'' link_outs = 1 \<and> replies ''e2'' link_outs = 1"
proof -
  have "''e1'' \<in> set (dispatched link_events)" "''e2'' \<in> set (dispatched link_events)" "link_events \<noteq> []" "last link_events = SvClose" by code_simp+
  with link_replies_exactly_once [OF link_events_run link_events_distinct, of "''e1''"]
    link_replies_exactly_once [OF link_events_run link_events_distinct, of "''e2''"] show ?thesis by auto
qed

theorem resent_only_to_durable_hands_witness: "sends ''e1'' link_outs = 2 \<and> sends ''e1'' link_outs \<le> 1 + sum_list (map durable_hello link_events)"
proof
  show "sends ''e1'' link_outs = 2" by code_simp
  show "sends ''e1'' link_outs \<le> 1 + sum_list (map durable_hello link_events)"
    by (rule resent_only_to_durable_hands [OF link_events_run link_events_distinct link_events_calls])
qed

theorem calls_wait_for_own_floor_witness:
  "\<exists>fs e gs. link_events = fs @ e # gs \<and> (\<exists>a. SvFrame ''s'' (MFloorReply (FloorAckMessage a)) \<in> set (fs @ [e]) \<and> num_eq a (Fin 2)) \<and>
     SSend ''s'' (stamped (Some (Fin 2)) (read_call ''e1'')) \<in> set link_outs"
proof -
  have s: "SSend ''s'' (stamped (Some (Fin 2)) (read_call ''e1'')) \<in> set link_outs" "is_call (stamped (Some (Fin 2)) (read_call ''e1''))" by code_simp+
  from calls_wait_for_own_floor [OF link_events_run link_events_calls s] s(1) show ?thesis by blast
qed

end
