(* ===== verification/Remote_System.thy ===== *)
theory Remote_System
  imports Executor_Correct Link_Correct
begin

text \<open>
  The session's end and the hand's end together: what the link sends travels on the lane of its scope and arrives in order, encoded and
  decoded as the protocol does it, and the hand's replies travel back. The lanes are what the reliable transport provides
  (Reliable_Transport: what a handler receives on a lane is a prefix of what was sent on it); a frame may stay on the way forever.
\<close>

section \<open>The two ends and their lanes\<close>

record remote_system =
  rs_link :: session_link
  rs_exec :: executor
  rs_up :: "string \<Rightarrow> remote_message list"
  rs_down :: "string \<Rightarrow> remote_message list"

definition new_system :: "number option \<Rightarrow> bool \<Rightarrow> remote_system" where
  "new_system epoch ledger = \<lparr>rs_link = createHandLink epoch, rs_exec = createRemoteExecutor ledger, rs_up = (\<lambda>_. []), rs_down = (\<lambda>_. [])\<rparr>"

text \<open>What the other end gets of a message: nothing when its decoder refuses it.\<close>

definition over_wire :: "remote_message \<Rightarrow> remote_message list" where
  "over_wire m = (case decode_message_value (json_normal (message_value m)) of Inr m' \<Rightarrow> [m'] | Inl _ \<Rightarrow> [])"

fun put_up :: "link_out list \<Rightarrow> (string \<Rightarrow> remote_message list) \<Rightarrow> string \<Rightarrow> remote_message list" where
  "put_up [] up = up"
| "put_up (SSend lane m # outs) up = put_up outs (up(lane := up lane @ over_wire m))"
| "put_up (_ # outs) up = put_up outs up"

fun put_down :: "exec_out list \<Rightarrow> (string \<Rightarrow> remote_message list) \<Rightarrow> string \<Rightarrow> remote_message list" where
  "put_down [] down = down"
| "put_down (XReply lane m # outs) down = put_down outs (down(lane := down lane @ over_wire (MReply m)))"
| "put_down (_ # outs) down = put_down outs down"

datatype system_out = RoLink link_out | RoHand exec_out

definition session_does :: "link_out list \<times> session_link \<Rightarrow> remote_system \<Rightarrow> system_out list \<times> remote_system" where
  "session_does r s = (case r of (out, l) \<Rightarrow> (map RoLink out, s\<lparr>rs_link := l, rs_up := put_up out (rs_up s)\<rparr>))"

definition hand_does :: "exec_out list \<times> executor \<Rightarrow> remote_system \<Rightarrow> system_out list \<times> remote_system" where
  "hand_does r s = (case r of (out, ex) \<Rightarrow> (map RoHand out, s\<lparr>rs_exec := ex, rs_down := put_down out (rs_down s)\<rparr>))"

text \<open>A frame at the hand (\<open>onFrame\<close> of the executor); \<open>floor0\<close> is what its fence answers to a floor.\<close>

fun hand_receives :: "(string \<Rightarrow> string \<Rightarrow> bool) \<Rightarrow> exec_view \<Rightarrow> floor_message \<Rightarrow> string \<Rightarrow> remote_message \<Rightarrow> remote_system \<Rightarrow> system_out list \<times> remote_system" where
  "hand_receives isSequential view floor0 lane (MInvoke r) s = hand_does (exec_step isSequential (XvInvoke view lane r None) (rs_exec s)) s"
| "hand_receives isSequential view floor0 lane (MFile f) s = hand_does (exec_step isSequential
     (XvInvoke view lane (fileCall (rf_executionId f) (rf_epoch f) (rf_scopeId f) (rf_scopeRoot f) (rf_op f) (rf_args f)) (Some (rf_op f))) (rs_exec s)) s"
| "hand_receives isSequential view floor0 lane (MAbort k epoch) s = hand_does (exec_step isSequential (XvAbort view lane k epoch) (rs_exec s)) s"
| "hand_receives isSequential view floor0 lane (MAck k epoch) s = hand_does (exec_step isSequential (XvAckFrame view lane k epoch) (rs_exec s)) s"
| "hand_receives isSequential view floor0 lane (MFloor epoch) s = ([], s\<lparr>rs_down := (rs_down s)(lane := rs_down s lane @ over_wire (MFloorReply floor0))\<rparr>)"
| "hand_receives isSequential view floor0 lane _ s = ([], s)"

datatype system_event =
    RvSession link_event
  | RvHand exec_event
  | RvUp string exec_view floor_message
  | RvDown string
  | RvHello remote_hello

text \<open>What a session does of itself is not the arrival of a frame, and it dispatches calls and file operations; what a hand does of itself
  is not the arrival of a frame either.\<close>

fun session_own :: "link_event \<Rightarrow> bool" where
  "session_own (SvFrame _ _) = False"
| "session_own (SvDispatch m _) = is_call m"
| "session_own _ = True"

fun hand_own :: "exec_event \<Rightarrow> bool" where
  "hand_own (XvInvoke _ _ _ _) = False"
| "hand_own (XvAbort _ _ _ _) = False"
| "hand_own (XvAckFrame _ _ _ _) = False"
| "hand_own _ = True"

fun system_step :: "(string \<Rightarrow> string \<Rightarrow> bool) \<Rightarrow> system_event \<Rightarrow> remote_system \<Rightarrow> system_out list \<times> remote_system" where
  "system_step isSequential (RvSession e) s = (if session_own e then session_does (link_step e (rs_link s)) s else ([], s))"
| "system_step isSequential (RvHand e) s = (if hand_own e then hand_does (exec_step isSequential e (rs_exec s)) s else ([], s))"
| "system_step isSequential (RvUp lane view floor0) s =
     (case rs_up s lane of
        [] \<Rightarrow> ([], s)
      | m # rest \<Rightarrow> hand_receives isSequential view floor0 lane m (s\<lparr>rs_up := (rs_up s)(lane := rest)\<rparr>))"
| "system_step isSequential (RvDown lane) s =
     (case rs_down s lane of
        [] \<Rightarrow> ([], s)
      | m # rest \<Rightarrow> session_does (link_step (SvFrame lane m) (rs_link s)) (s\<lparr>rs_down := (rs_down s)(lane := rest)\<rparr>))"
| "system_step isSequential (RvHello h) s =
     ([], s\<lparr>rs_down := (rs_down s)(HAND_CONTROL_LANE := rs_down s HAND_CONTROL_LANE @ over_wire (MHello h))\<rparr>)"

section \<open>What crosses the wire\<close>

lemma decoded_invoke: "decode_message_value (json_normal (invoke_value r)) = Inr m' \<Longrightarrow> m' = on_wire (MInvoke r)"
  by (cases r; cases "ri_epoch r"; cases "ri_arguments r"; cases "ri_sessionRef r")
     (auto simp: invoke_value_def decode_invoke_def protocol_simps split: if_splits)

lemma decoded_file: "decode_message_value (json_normal (file_value f)) = Inr m' \<Longrightarrow> m' = on_wire (MFile f)"
  by (cases f; cases "rf_epoch f") (auto simp: file_value_def decode_file_def protocol_simps split: if_splits)

lemma decoded_reply: "decode_message_value (json_normal (hand_message_value m)) = Inr m' \<Longrightarrow> m' = on_wire (MReply m)"
  by (cases m) (auto simp: protocol_simps decode_terminal_def reason_name_of simp del: terminal_reason_of.simps split: if_splits)

lemma decoded_other: "decode_message_value (json_normal (message_value m)) = Inr m' \<Longrightarrow> \<not> is_call m \<Longrightarrow> \<not> is_call m' \<and>
    ((\<exists>r. m = MReply r) \<or> (\<forall>r. m' \<noteq> MReply r))"
proof (cases m)
  case (MAbort k e)
  then show "decode_message_value (json_normal (message_value m)) = Inr m' \<Longrightarrow> ?thesis"
    by (cases e) (auto simp: protocol_simps split: if_splits)
next
  case (MAck k e)
  then show "decode_message_value (json_normal (message_value m)) = Inr m' \<Longrightarrow> ?thesis"
    by (cases e) (auto simp: protocol_simps split: if_splits)
next
  case (MReply r)
  then show "decode_message_value (json_normal (message_value m)) = Inr m' \<Longrightarrow> ?thesis" using decoded_reply [of r m'] by (cases r) auto
next
  case (MFloorReply f)
  then show "decode_message_value (json_normal (message_value m)) = Inr m' \<Longrightarrow> ?thesis"
    by (cases f) (auto simp: protocol_simps split: if_splits option.splits)
qed (auto simp: protocol_simps split: if_splits)

lemma over_wire_call: "m' \<in> set (over_wire m) \<Longrightarrow> is_call m' \<Longrightarrow> is_call m \<and> m' = on_wire m"
proof -
  assume w: "m' \<in> set (over_wire m)" "is_call m'"
  then have d: "decode_message_value (json_normal (message_value m)) = Inr m'" by (auto simp: over_wire_def split: sum.splits)
  then show ?thesis using w(2) decoded_other [OF d] decoded_invoke [of _ m'] decoded_file [of _ m'] by (cases m) auto
qed

lemma over_wire_reply: "MReply r' \<in> set (over_wire m) \<Longrightarrow> \<exists>r. m = MReply r \<and> MReply r' = on_wire (MReply r)"
proof -
  assume "MReply r' \<in> set (over_wire m)"
  then have d: "decode_message_value (json_normal (message_value m)) = Inr (MReply r')" by (auto simp: over_wire_def split: sum.splits)
  show ?thesis
  proof (cases "is_call m")
    case True
    then show ?thesis using d decoded_invoke [of _ "MReply r'"] decoded_file [of _ "MReply r'"] by (cases m) auto
  next
    case False
    then obtain r where "m = MReply r" using decoded_other [OF d] by blast
    then show ?thesis using d decoded_reply [of r "MReply r'"] by auto
  qed
qed

lemma in_put_up: "m \<in> set (put_up outs up lane) \<Longrightarrow> m \<in> set (up lane) \<or> (\<exists>m0. SSend lane m0 \<in> set outs \<and> m \<in> set (over_wire m0))"
  by (induction outs up rule: put_up.induct) (auto split: if_splits)

lemma in_put_down: "m \<in> set (put_down outs down lane) \<Longrightarrow> m \<in> set (down lane) \<or> (\<exists>r. XReply lane r \<in> set outs \<and> m \<in> set (over_wire (MReply r)))"
  by (induction outs down rule: put_down.induct) (auto split: if_splits)

section \<open>What the two ends do\<close>

text \<open>What the link sends of calls was dispatched, and a settled reply comes from a settled frame.\<close>

lemma whenOpen_calls:
  assumes "whenOpen lane k go l = (out, l')" "SSend lane' m \<in> set out" "is_call m"
  shows "m = go_message go"
proof (cases "sl_epoch l")
  case None
  then show ?thesis using assms by (cases go) (auto simp: whenOpen_def)
next
  case (Some e)
  obtain v g where o: "gate_open lane (sl_gate l) = (v, g)" by fastforce
  obtain o1 l1 where g: "link_gate g l = (o1, l1)" by fastforce
  then have "no_calls o1" by (rule no_calls_gate)
  then show ?thesis using assms Some o g by (auto simp: whenOpen_def no_calls_def)
qed

lemma resend_calls: "resend_all ms l = (out, l') \<Longrightarrow> SSend lane m \<in> set out \<Longrightarrow> is_call m \<Longrightarrow> m \<in> snd ` set ms"
proof (induction ms l arbitrary: out l' rule: resend_all.induct)
  case (2 k1 m1 rest l)
  show ?case
  proof (cases "k1 \<in> set (sl_sent l)")
    case True
    obtain o1 l1 where w: "whenOpen (message_scope m1) k1 (GoResend m1) l = (o1, l1)" by fastforce
    obtain o2 l2 where r: "resend_all rest l1 = (o2, l2)" by fastforce
    have "SSend lane m \<in> set o1 \<or> SSend lane m \<in> set o2" using "2.prems" True w r by auto
    then show ?thesis using whenOpen_calls [OF w _ "2.prems"(3)] "2.IH"(2) [OF _ w [symmetric] r _ "2.prems"(3)] True by auto
  next
    case False
    then show ?thesis using "2.IH"(1) [OF False, of out l'] "2.prems" by auto
  qed
qed simp

lemma hello_calls:
  assumes "link_hello h l = (out, l')" "SSend lane m \<in> set out" "is_call m"
  shows "m \<in> snd ` set (sl_pending l)"
proof -
  let ?l1 = "l\<lparr>sl_announced := Some h, sl_helloWaiters := []\<rparr>"
  obtain o2 l2 where g: "(if sl_epoch l = None then ([], ?l1) else link_gate (gate_resend (sl_gate ?l1)) ?l1) = (o2, l2)" by fastforce
  obtain o3 l3 where r: "(if rh_durable h then resend_all (sl_pending l2) l2 else ([], l2)) = (o3, l3)" by fastforce
  have "no_calls o2" using g no_calls_gate [of _ ?l1 o2 l2] by (auto simp: no_calls_def split: if_splits)
  moreover have "sl_pending l2 = sl_pending l" using g by (auto simp: link_gate_def split: if_splits)
  moreover have "out = map (\<lambda>n. SHello n (Some h)) (sl_helloWaiters l) @ o2 @ o3" using assms(1) g r by (simp add: link_hello_def Let_def)
  ultimately show ?thesis using assms(2,3) r resend_calls [of "sl_pending l2" l2 o3 l3 lane m] by (auto simp: no_calls_def split: if_splits)
qed

lemma link_step_calls:
  assumes "link_step e l = (out, l')" "link_wf D l" "given D e" "SSend lane m \<in> set out" "is_call m"
  shows "m \<in> stamped (sl_epoch l) ` D"
proof (cases e)
  case (SvDispatch m0 aborted)
  let ?l1 = "l\<lparr>sl_pending := obj_put (message_id m0) (stamped (sl_epoch l) m0) (sl_pending l)\<rparr>"
  have "m0 \<in> D" using assms(3) SvDispatch by (simp add: given_def)
  then show ?thesis using SvDispatch assms(1,4,5) no_calls_settle [of "message_id m0" _ ?l1 out l']
      whenOpen_calls [of "message_scope m0" "message_id m0" _ ?l1 out l' lane m] by (auto simp: link_dispatch_def no_calls_def Let_def split: if_splits)
next
  case (SvFrame b m0)
  have "\<exists>h. m0 = MHello h \<and> m \<in> snd ` set (sl_pending l)"
  proof (cases "(b, m0, l)" rule: link_frame.cases)
    case (1 a h c)
    then show ?thesis using SvFrame assms(1,4,5) hello_calls by auto
  next
    case (2 a f c)
    then show ?thesis using SvFrame assms(1,4,5) no_calls_gate [of _ l out l'] by (auto simp: no_calls_def split: option.splits)
  qed (use SvFrame assms(1,4,5) no_calls_settle [of _ _ l] in \<open>auto simp: then_ack_def no_calls_def split: prod.splits\<close>)
  then show ?thesis using assms(2) by (auto simp: link_wf_def)
next
  case (SvOpened i)
  have w: "go_message (lw_go (sl_waits l ! i)) \<in> stamped (sl_epoch l) ` D" if "i < length (sl_waits l)" using assms(2) that by (auto simp: link_wf_def)
  have "m = go_message (lw_go (sl_waits l ! i)) \<and> i < length (sl_waits l)"
    using SvOpened assms(1,4,5) no_calls_settle [of "lw_id (sl_waits l ! i)" _ "l\<lparr>sl_waits := take i (sl_waits l) @ drop (Suc i) (sl_waits l)\<rparr>" out l']
    by (cases "lw_go (sl_waits l ! i)") (auto simp: link_opened_def no_calls_def Let_def split: if_splits sum.splits option.splits)
  with w show ?thesis by simp
next
  case (SvAbort k)
  then show ?thesis using assms(1,4,5) no_calls_settle [of k _ l] by (auto simp: link_abort_def no_calls_def Let_def split: option.splits prod.splits if_splits)
next
  case (SvSendSettled k failed)
  then show ?thesis using assms(1,4,5) no_calls_settle [of k _ "l\<lparr>sl_sends := remove1 k (sl_sends l)\<rparr>" out l']
    by (auto simp: link_send_settled_def no_calls_def Let_def split: option.splits if_splits)
next
  case (SvFloorFailed b asked reason)
  then show ?thesis using assms(1,4,5) no_calls_gate [of _ l out l'] by (auto simp: link_floor_failed_def no_calls_def split: if_splits)
next
  case SvClose
  have "close_all ks l = (out, l') \<Longrightarrow> no_calls out" for ks
  proof (induction ks arbitrary: l out)
    case (Cons k ks)
    then show ?case using no_calls_settle [of k RClosed l] by (auto split: prod.splits)
  qed (auto simp: no_calls_def)
  then show ?thesis using SvClose assms(1,4,5) by (auto simp: link_close_def no_calls_def)
qed (use assms in \<open>auto simp: link_ask_hello_def link_hello_ends_def Let_def split: if_splits\<close>)

lemma epoch_simps [simp]:
  "sl_epoch (snd (link_settle k r l)) = sl_epoch l" "sl_epoch (snd (link_gate g l)) = sl_epoch l" "sl_epoch (snd (run_go go l)) = sl_epoch l"
  by (simp_all add: link_settle_def link_gate_def) (cases go; simp)

lemma epoch_whenOpen [simp]: "sl_epoch (snd (whenOpen lane k go l)) = sl_epoch l"
  by (simp add: whenOpen_def case_prod_unfold)

lemma epoch_resend [simp]: "sl_epoch (snd (resend_all ms l)) = sl_epoch l"
  by (induction ms arbitrary: l) (auto simp: case_prod_unfold)

lemma epoch_close [simp]: "sl_epoch (snd (close_all ks l)) = sl_epoch l"
  by (induction ks arbitrary: l) (auto simp: case_prod_unfold)

lemma epoch_hello [simp]: "sl_epoch (snd (link_hello h l)) = sl_epoch l"
  by (simp add: link_hello_def case_prod_unfold Let_def)

lemma epoch_frame [simp]: "sl_epoch (snd (link_frame lane m l)) = sl_epoch l"
  by (cases "(lane, m, l)" rule: link_frame.cases) (auto simp: then_ack_def case_prod_unfold split: option.splits)

lemma link_epoch_kept: "sl_epoch (snd (link_step e l)) = sl_epoch l"
  by (cases e) (auto simp: link_dispatch_def link_abort_def link_opened_def link_send_settled_def link_floor_failed_def link_ask_hello_def link_hello_ends_def
      link_close_def Let_def case_prod_unfold split: option.splits sum.splits)

lemma settled_reply:
  assumes "link_step e l = (out, l')" "SReply k (RSettled r) \<in> set out"
  shows "\<exists>lane. e = SvFrame lane (MReply (HandSettled k r))"
proof -
  have s: "SReply k (RSettled r) \<in> set (fst (link_settle k' r' l)) \<Longrightarrow> k' = k \<and> r' = RSettled r" for k' r' l
    by (auto simp: link_settle_def split: if_splits)
  have q: "SReply k (RSettled r) \<notin> set (fst x)" if "quiet l x" for l x
  proof
    assume "SReply k (RSettled r) \<in> set (fst x)"
    then have "filter (\<lambda>out. case out of SReply k' _ \<Rightarrow> k' = k | _ \<Rightarrow> False) (fst x) \<noteq> []" by (force simp: filter_empty_conv)
    with that show False by (simp add: quiet_def replies_def)
  qed
  have c: "SReply k (RSettled r) \<notin> set (fst (close_all ks l))" for ks l
    using s by (induction ks arbitrary: l) (auto simp: case_prod_unfold)
  have o: "SReply k (RSettled r) \<in> set (fst (link_step e l))" using assms by simp
  show ?thesis
  proof (cases e)
    case (SvFrame lane m)
    then show ?thesis
    proof (cases "(lane, m, l)" rule: link_frame.cases)
      case (1 b h d)
      then show ?thesis using o SvFrame q [OF quiet_hello] by simp
    next
      case (2 b h d)
      then show ?thesis using o SvFrame q [OF quiet_gate] by (auto split: option.splits)
    qed (use o SvFrame s in \<open>auto simp: then_ack_def case_prod_unfold\<close>)
  next
    case (SvDispatch m aborted)
    then show ?thesis using o s q [OF quiet_whenOpen] by (auto simp: link_dispatch_def Let_def split: if_splits)
  next
    case (SvOpened i)
    then show ?thesis using o s q [OF quiet_go] by (auto simp: link_opened_def Let_def split: if_splits sum.splits option.splits)
  next
    case (SvAbort k')
    then show ?thesis using o s by (auto simp: link_abort_def Let_def case_prod_unfold split: if_splits option.splits)
  next
    case (SvSendSettled k' failed)
    then show ?thesis using o s by (auto simp: link_send_settled_def Let_def split: if_splits option.splits)
  next
    case (SvFloorFailed lane asked reason)
    then show ?thesis using o q [OF quiet_gate] by (auto simp: link_floor_failed_def split: if_splits)
  next
    case SvClose
    then show ?thesis using o c by (simp add: link_close_def)
  qed (use o in \<open>auto simp: link_ask_hello_def link_hello_ends_def Let_def split: if_splits\<close>)
qed

text \<open>What the executor has taken it was sent, and without a ledger it settles a call only when that call is done.\<close>

lemma exec_step_calls:
  assumes "exec_step f e ex = (out, ex')" "p \<in> calls_of ex'"
  shows "p \<in> calls_of ex \<or> (\<exists>view lane. e = XvInvoke view lane (pc_call p) (pc_file p))"
proof (cases "\<exists>view lane call fl. e = XvInvoke view lane call fl")
  case True
  then obtain view lane call fl where e: "e = XvInvoke view lane call fl" by blast
  then show ?thesis using assms
    by (cases "map_of (ex_scopes ex) (ri_scopeId call)")
       (auto simp: exec_invoke_def stateOf_def calls_of_def call_core_def Let_def split: if_splits grant_verdict.splits)
next
  case False
  then have "calls_of ex' = calls_of ex" using exec_step_other [OF assms(1)] calls_of_go calls_of_accepted by blast
  then show ?thesis using assms(2) by simp
qed

text \<open>Without a ledger no call waits for one.\<close>

definition plain_inv :: "executor \<Rightarrow> bool" where
  "plain_inv ex \<longleftrightarrow> \<not> ex_ledger ex \<and> (\<forall>n < length (ex_jobs ex). xj_phase (ex_jobs ex ! n) \<noteq> JobSettles) \<and>
     (\<forall>i < length (ex_pending ex). pc_phase (ex_pending ex ! i) \<noteq> AwaitsLedger)"

lemma plain_set_job:
  assumes "plain_inv ex" "n < length (ex_jobs ex) \<Longrightarrow> xj_phase (f (ex_jobs ex ! n)) \<noteq> JobSettles"
  shows "plain_inv (set_job n f ex)"
  using assms by (auto simp: plain_inv_def set_job_def nth_update_if)

lemma plain_set_pending: "plain_inv ex \<Longrightarrow> ph \<noteq> AwaitsLedger \<Longrightarrow> plain_inv (set_pending i ph ex)"
  by (auto simp: plain_inv_def set_pending_def nth_update_if)

lemma plain_accept: "plain_inv ex \<Longrightarrow> plain_inv (exec_accept f p ex)"
  by (auto simp: plain_inv_def exec_accept_def Let_def nth_append)

lemma plain_running [simp]: "plain_inv (ex\<lparr>ex_running := r\<rparr>) = plain_inv ex" "plain_inv (ex\<lparr>ex_closed := c\<rparr>) = plain_inv ex"
  "plain_inv (ex\<lparr>ex_seen := x\<rparr>) = plain_inv ex"
  by (simp_all add: plain_inv_def)

lemma plain_result: "plain_inv ex \<Longrightarrow> plain_inv (snd (exec_result n result ex))"
proof -
  assume p: "plain_inv ex"
  then have "\<not> ex_ledger ex" by (simp add: plain_inv_def)
  then show ?thesis using p by (auto simp: exec_result_def Let_def intro!: plain_set_job)
qed

lemma plain_throws: "plain_inv ex \<Longrightarrow> plain_inv (snd (exec_throws view n message ex))"
  by (simp add: exec_throws_def Let_def plain_result)

lemma plain_abort_all: "plain_inv ex \<Longrightarrow> plain_inv (abort_all P ex)"
proof -
  have "plain_inv (foldl (\<lambda>ex (_, n). if P (ex_jobs ex ! n) then set_job n (\<lambda>j. j\<lparr>xj_aborted := True\<rparr>) ex else ex) ex r)" if "plain_inv ex" for r :: "nat obj" and ex
    using that
  proof (induction r arbitrary: ex)
    case (Cons a r)
    obtain k n where a: "a = (k, n)" by (cases a)
    have "plain_inv (set_job n (\<lambda>j. j\<lparr>xj_aborted := True\<rparr>) ex)" by (rule plain_set_job [OF Cons.prems]) (use Cons.prems in \<open>simp add: plain_inv_def\<close>)
    then show ?case using Cons unfolding a by simp
  qed simp
  then show "plain_inv ex \<Longrightarrow> plain_inv (abort_all P ex)" by (simp add: abort_all_def)
qed

lemma plain_step: "plain_inv ex \<Longrightarrow> plain_inv (snd (exec_step f e ex))"
proof (cases e)
  case (XvInvoke view lane call fl)
  then show "plain_inv ex \<Longrightarrow> ?thesis"
    by (cases "map_of (ex_scopes ex) (ri_scopeId call)")
       (auto simp: exec_invoke_def stateOf_def Let_def plain_inv_def nth_append split: grant_verdict.split)
next
  case (XvScope i)
  then show "plain_inv ex \<Longrightarrow> ?thesis" using plain_set_pending [of ex PendingGone i] plain_accept
    by (auto simp: exec_scope_settled_def Let_def plain_inv_def split: option.split sum.split)
next
  case (XvAdmitted i a)
  then show "plain_inv ex \<Longrightarrow> ?thesis" by (auto simp: exec_admitted_def plain_inv_def)
next
  case (XvStart view n)
  then show "plain_inv ex \<Longrightarrow> ?thesis" by (auto simp: exec_start_def Let_def plain_throws plain_result intro!: plain_set_job)
next
  case (XvEnds view n outcome)
  then show "plain_inv ex \<Longrightarrow> ?thesis" by (auto simp: exec_ends_def Let_def plain_throws plain_result split: sum.split)
next
  case (XvSettled n answer)
  then show "plain_inv ex \<Longrightarrow> ?thesis" by (auto simp: exec_settled_def plain_inv_def)
next
  case (XvAbort view lane k epoch)
  then show "plain_inv ex \<Longrightarrow> ?thesis" by (auto simp: exec_abort_def split: option.split intro!: plain_set_job) (simp add: plain_inv_def)
qed (auto simp: exec_opened_def exec_ack_def exec_replaced_def exec_close_def exec_forget_def plain_abort_all, auto simp: plain_inv_def)

lemma exec_result_settled:
  assumes "XReply lane (HandSettled k r) \<in> set (fst (exec_result n result ex))" "n < length (ex_jobs ex)"
  shows "call_id (job_call (snd (exec_result n result ex)) n) = k \<and> job_done (snd (exec_result n result ex)) n"
  using assms by (auto simp: exec_result_def job_done_def set_job_def Let_def split: if_splits)

lemma exec_settles_done:
  assumes "exec_step f e ex = (out, ex')" "plain_inv ex" "XReply lane (HandSettled k r) \<in> set out"
  shows "\<exists>n. call_id (job_call ex' n) = k \<and> job_done ex' n"
proof -
  have r: "\<exists>n. call_id (job_call ex' n) = k \<and> job_done ex' n" if "exec_result n result ex = (out, ex')" "n < length (ex_jobs ex)" for n result
    using exec_result_settled [of lane k r n result ex] that assms(3) by auto
  have t: "\<exists>n. call_id (job_call ex' n) = k \<and> job_done ex' n" if "exec_throws view n message ex = (out, ex')" "n < length (ex_jobs ex)" for view n message
    using that r by (auto simp: exec_throws_def Let_def split: if_splits)
  show ?thesis
  proof (cases e)
    case (XvStart view n)
    then show ?thesis using assms(1,3) r t by (auto simp: exec_start_def Let_def refuse_def split: if_splits)
  next
    case (XvEnds view n outcome)
    then show ?thesis using assms(1,3) r t by (auto simp: exec_ends_def Let_def split: if_splits sum.splits)
  qed (use assms in \<open>auto simp: plain_inv_def exec_invoke_def refuse_def exec_opened_def exec_scope_settled_def exec_admitted_def exec_settled_def exec_abort_def exec_ack_def
      exec_replaced_def exec_close_def exec_forget_def Let_def split: if_splits grant_verdict.splits prod.splits sum.splits option.splits\<close>)
qed

lemma jobs_stay_done:
  assumes "exec_step f e ex = (out, ex')" "job_done ex n"
  shows "job_done ex' n \<and> job_call ex' n = job_call ex n"
  using assms(1)
proof (cases rule: exec_step_cases)
  case go
  then show ?thesis using assms(2) go_jobs(2) [OF go, of n] by (auto simp: exec_go_def jobs_go_def job_done_def)
next
  case (added p)
  then show ?thesis using assms(2) added_jobs(1) [OF added] by (simp add: job_done_def)
next
  case (accepted i)
  obtain j where "ex_jobs ex' = ex_jobs ex @ [j]" using accepted_jobs [OF accepted] by blast
  then show ?thesis using assms(2) by (simp add: job_done_def nth_append)
qed

section \<open>The ends agree\<close>

definition dispatched_in :: "system_event set \<Rightarrow> remote_message set" where
  "dispatched_in E = {m. \<exists>aborted. RvSession (SvDispatch m aborted) \<in> E \<and> is_call m}"

text \<open>The call the executor makes of a message.\<close>

fun call_of :: "remote_message \<Rightarrow> remote_invoke \<times> string option" where
  "call_of (MInvoke r) = (r, None)"
| "call_of (MFile f) = (fileCall (rf_executionId f) (rf_epoch f) (rf_scopeId f) (rf_scopeRoot f) (rf_op f) (rf_args f), Some (rf_op f))"
| "call_of _ = undefined"

definition arrived :: "number option \<Rightarrow> system_event set \<Rightarrow> remote_message set" where
  "arrived epoch E = (\<lambda>m. on_wire (stamped epoch m)) ` dispatched_in E"

text \<open>A result on its way back, or taken by the session, was sent by the hand for that call.\<close>

definition from_hand :: "system_out set \<Rightarrow> string \<Rightarrow> store_value \<Rightarrow> bool" where
  "from_hand H k r \<longleftrightarrow> (\<exists>lane r0. RoHand (XReply lane (HandSettled k r0)) \<in> H \<and> r = json_normal r0)"

definition sys_inv :: "number option \<Rightarrow> system_event set \<Rightarrow> system_out set \<Rightarrow> remote_system \<Rightarrow> bool" where
  "sys_inv epoch E H s \<longleftrightarrow>
     sl_epoch (rs_link s) = epoch \<and> link_wf (dispatched_in E) (rs_link s) \<and>
     (\<forall>lane. \<forall>m \<in> set (rs_up s lane). is_call m \<longrightarrow> m \<in> arrived epoch E) \<and>
     (\<forall>p \<in> calls_of (rs_exec s). (pc_call p, pc_file p) \<in> call_of ` arrived epoch E) \<and>
     (\<forall>lane k r. MReply (HandSettled k r) \<in> set (rs_down s lane) \<longrightarrow> from_hand H k r) \<and>
     (\<forall>k r. RoLink (SReply k (RSettled r)) \<in> H \<longrightarrow> from_hand H k r) \<and>
     (plain_inv (rs_exec s) \<longrightarrow> (\<forall>lane k r. RoHand (XReply lane (HandSettled k r)) \<in> H \<longrightarrow>
        (\<exists>n. call_id (job_call (rs_exec s) n) = k \<and> job_done (rs_exec s) n)))"

lemma sys_invI:
  assumes "sl_epoch (rs_link s) = epoch" "link_wf (dispatched_in E) (rs_link s)"
    "\<And>lane m. m \<in> set (rs_up s lane) \<Longrightarrow> is_call m \<Longrightarrow> m \<in> arrived epoch E"
    "\<And>p. p \<in> calls_of (rs_exec s) \<Longrightarrow> (pc_call p, pc_file p) \<in> call_of ` arrived epoch E"
    "\<And>lane k r. MReply (HandSettled k r) \<in> set (rs_down s lane) \<Longrightarrow> from_hand H k r"
    "\<And>k r. RoLink (SReply k (RSettled r)) \<in> H \<Longrightarrow> from_hand H k r"
    "\<And>lane k r. plain_inv (rs_exec s) \<Longrightarrow> RoHand (XReply lane (HandSettled k r)) \<in> H \<Longrightarrow> \<exists>n. call_id (job_call (rs_exec s) n) = k \<and> job_done (rs_exec s) n"
  shows "sys_inv epoch E H s"
  using assms unfolding sys_inv_def by blast

lemma sys_invD:
  assumes "sys_inv epoch E H s"
  shows "sl_epoch (rs_link s) = epoch" "link_wf (dispatched_in E) (rs_link s)"
    "m \<in> set (rs_up s lane) \<Longrightarrow> is_call m \<Longrightarrow> m \<in> arrived epoch E"
    "p \<in> calls_of (rs_exec s) \<Longrightarrow> (pc_call p, pc_file p) \<in> call_of ` arrived epoch E"
    "MReply (HandSettled k r) \<in> set (rs_down s lane) \<Longrightarrow> from_hand H k r"
    "RoLink (SReply k (RSettled r)) \<in> H \<Longrightarrow> from_hand H k r"
    "plain_inv (rs_exec s) \<Longrightarrow> RoHand (XReply lane (HandSettled k r)) \<in> H \<Longrightarrow> \<exists>n. call_id (job_call (rs_exec s) n) = k \<and> job_done (rs_exec s) n"
  using assms unfolding sys_inv_def by blast+

lemma from_hand_mono: "from_hand H k r \<Longrightarrow> H \<subseteq> H' \<Longrightarrow> from_hand H' k r"
  unfolding from_hand_def by blast

lemma arrived_mono: "E \<subseteq> E' \<Longrightarrow> arrived epoch E \<subseteq> arrived epoch E'"
  unfolding arrived_def dispatched_in_def by blast

lemma link_wf_mono: "link_wf D l \<Longrightarrow> D \<subseteq> D' \<Longrightarrow> link_wf D' l"
  unfolding link_wf_def by (meson image_mono subsetD)

lemma sys_inv_more: "sys_inv epoch E H s \<Longrightarrow> E \<subseteq> E' \<Longrightarrow> sys_inv epoch E' H s"
proof -
  assume i: "sys_inv epoch E H s" and e: "E \<subseteq> E'"
  have d: "dispatched_in E \<subseteq> dispatched_in E'" using e unfolding dispatched_in_def by blast
  note a = arrived_mono [OF e, of epoch]
  from sys_invD [OF i] link_wf_mono [OF _ d] a show ?thesis by (intro sys_invI) blast+
qed

text \<open>Frames leave the lanes, or frames without a result are added to them.\<close>

lemma sys_inv_lanes:
  assumes "sys_inv epoch E H s" "rs_link s' = rs_link s" "rs_exec s' = rs_exec s" "\<And>lane. set (rs_up s' lane) \<subseteq> set (rs_up s lane)"
    "\<And>lane r. MReply r \<in> set (rs_down s' lane) \<Longrightarrow> MReply r \<in> set (rs_down s lane)"
  shows "sys_inv epoch E H s'"
  using assms unfolding sys_inv_def by (simp only: assms(2,3)) blast

text \<open>A step of the session.\<close>

lemma session_does_inv:
  assumes i: "sys_inv epoch E H s" and st: "link_step e (rs_link s) = (out, l)" and g: "given (dispatched_in E) e"
    and settled: "\<And>lane k r. e = SvFrame lane (MReply (HandSettled k r)) \<Longrightarrow> from_hand H k r"
  shows "sys_inv epoch E (H \<union> RoLink ` set out) (s\<lparr>rs_link := l, rs_up := put_up out (rs_up s)\<rparr>)"
proof (rule sys_invI)
  note d = sys_invD [OF i]
  let ?s = "s\<lparr>rs_link := l, rs_up := put_up out (rs_up s)\<rparr>" and ?H = "H \<union> RoLink ` set out"
  show "sl_epoch (rs_link ?s) = epoch" using link_epoch_kept [of e "rs_link s"] d(1) st by simp
  show "link_wf (dispatched_in E) (rs_link ?s)" using link_step_sends [OF d(2) g st] by simp
  show "m \<in> arrived epoch E" if m: "m \<in> set (rs_up ?s lane)" "is_call m" for lane m
  proof -
    have "m \<in> set (rs_up s lane) \<or> (\<exists>m0. SSend lane m0 \<in> set out \<and> m \<in> set (over_wire m0))" using in_put_up m(1) by auto
    then show ?thesis
    proof (elim disjE exE conjE)
      fix m0 assume o: "SSend lane m0 \<in> set out" "m \<in> set (over_wire m0)"
      have "is_call m0" "m = on_wire m0" using over_wire_call [OF o(2) m(2)] by auto
      then show ?thesis using link_step_calls [OF st d(2) g o(1)] d(1) by (auto simp: arrived_def)
    qed (use d(3) m(2) in blast)
  qed
  show "(pc_call p, pc_file p) \<in> call_of ` arrived epoch E" if "p \<in> calls_of (rs_exec ?s)" for p using d(4) that by simp
  show "from_hand ?H k r" if "MReply (HandSettled k r) \<in> set (rs_down ?s lane)" for lane k r
    using from_hand_mono [OF d(5)] that by simp
  show "from_hand ?H k r" if "RoLink (SReply k (RSettled r)) \<in> ?H" for k r
    using that d(6) settled settled_reply [OF st, of k r] from_hand_mono [of H k r ?H] by blast
  show "\<exists>n. call_id (job_call (rs_exec ?s) n) = k \<and> job_done (rs_exec ?s) n"
    if "plain_inv (rs_exec ?s)" "RoHand (XReply lane (HandSettled k r)) \<in> ?H" for lane k r
    using d(7) that by auto
qed

text \<open>A step of the hand.\<close>

lemma hand_does_inv:
  assumes i: "sys_inv epoch E H s" and st: "exec_step f e (rs_exec s) = (out, ex)" and plain: "plain_inv (rs_exec s) \<or> \<not> plain_inv ex"
    and call: "\<And>view lane call fl. e = XvInvoke view lane call fl \<Longrightarrow> (call, fl) \<in> call_of ` arrived epoch E"
  shows "sys_inv epoch E (H \<union> RoHand ` set out) (s\<lparr>rs_exec := ex, rs_down := put_down out (rs_down s)\<rparr>)"
proof (rule sys_invI)
  note d = sys_invD [OF i]
  let ?s = "s\<lparr>rs_exec := ex, rs_down := put_down out (rs_down s)\<rparr>" and ?H = "H \<union> RoHand ` set out"
  show "sl_epoch (rs_link ?s) = epoch" "link_wf (dispatched_in E) (rs_link ?s)" using d(1,2) by simp_all
  show "m \<in> arrived epoch E" if "m \<in> set (rs_up ?s lane)" "is_call m" for lane m using d(3) that by simp
  show "(pc_call p, pc_file p) \<in> call_of ` arrived epoch E" if "p \<in> calls_of (rs_exec ?s)" for p
    using exec_step_calls [OF st, of p] that d(4) [of p] call by auto
  show "from_hand ?H k r" if m: "MReply (HandSettled k r) \<in> set (rs_down ?s lane)" for lane k r
  proof -
    have "MReply (HandSettled k r) \<in> set (rs_down s lane) \<or> (\<exists>x. XReply lane x \<in> set out \<and> MReply (HandSettled k r) \<in> set (over_wire (MReply x)))"
      using in_put_down [of "MReply (HandSettled k r)" out "rs_down s" lane] m by simp
    then show ?thesis
    proof (elim disjE exE conjE)
      fix x assume x: "XReply lane x \<in> set out" "MReply (HandSettled k r) \<in> set (over_wire (MReply x))"
      from over_wire_reply [OF x(2)] have "MReply (HandSettled k r) = on_wire (MReply x)" by auto
      then obtain r0 where "x = HandSettled k r0" "r = json_normal r0" by (cases x) auto
      then show ?thesis using x(1) unfolding from_hand_def by blast
    qed (use d(5) from_hand_mono in blast)
  qed
  show "from_hand ?H k r" if "RoLink (SReply k (RSettled r)) \<in> ?H" for k r
    using that d(6) from_hand_mono [of H k r ?H] by blast
  show "\<exists>n. call_id (job_call (rs_exec ?s) n) = k \<and> job_done (rs_exec ?s) n"
    if p: "plain_inv (rs_exec ?s)" "RoHand (XReply lane (HandSettled k r)) \<in> ?H" for lane k r
  proof -
    have pl: "plain_inv (rs_exec s)" using plain p(1) by simp
    from p(2) show ?thesis
    proof
      assume "RoHand (XReply lane (HandSettled k r)) \<in> H"
      then obtain n where n: "call_id (job_call (rs_exec s) n) = k" "job_done (rs_exec s) n" using d(7) [OF pl] by blast
      from jobs_stay_done [OF st n(2)] n(1) show ?thesis by (intro exI [of _ n]) simp
    next
      assume "RoHand (XReply lane (HandSettled k r)) \<in> RoHand ` set out"
      then show ?thesis using exec_settles_done [OF st pl] by auto
    qed
  qed
qed

lemma exec_ledger_kept: "exec_step f e ex = (out, ex') \<Longrightarrow> ex_ledger ex' = ex_ledger ex"
  by (cases rule: exec_step_cases [of f e ex out ex']) (auto simp: exec_go_def call_added_def call_accepted_def)

definition plain_or_ledger :: "remote_system \<Rightarrow> bool" where
  "plain_or_ledger s \<longleftrightarrow> ex_ledger (rs_exec s) \<or> plain_inv (rs_exec s)"

lemma plain_or_ledger_step:
  assumes "plain_or_ledger s" "exec_step f e (rs_exec s) = (out, ex)"
  shows "plain_inv (rs_exec s) \<or> \<not> plain_inv ex" "ex_ledger ex \<or> plain_inv ex"
  using assms exec_ledger_kept [OF assms(2)] plain_step [of "rs_exec s" f e] by (auto simp: plain_or_ledger_def plain_inv_def)

lemma hand_does_hist:
  assumes "sys_inv epoch E H s" "plain_or_ledger s" "hand_does (exec_step f e (rs_exec s)) s = (out, s')"
    "\<And>view lane call fl. e = XvInvoke view lane call fl \<Longrightarrow> (call, fl) \<in> call_of ` arrived epoch E"
  shows "sys_inv epoch E (H \<union> set out) s' \<and> plain_or_ledger s'"
proof -
  obtain o1 ex where st: "exec_step f e (rs_exec s) = (o1, ex)" by fastforce
  have o: "out = map RoHand o1" "s' = s\<lparr>rs_exec := ex, rs_down := put_down o1 (rs_down s)\<rparr>" using assms(3) st by (simp_all add: hand_does_def)
  from hand_does_inv [OF assms(1) st plain_or_ledger_step(1) [OF assms(2) st] assms(4)] plain_or_ledger_step(2) [OF assms(2) st] o
  show ?thesis by (auto simp: plain_or_ledger_def)
qed

lemma hand_receives_hist:
  assumes "sys_inv epoch E H s" "plain_or_ledger s" "hand_receives f view floor0 lane m s = (out, s')" "is_call m \<Longrightarrow> m \<in> arrived epoch E"
  shows "sys_inv epoch E (H \<union> set out) s' \<and> plain_or_ledger s'"
proof (cases m)
  case (MInvoke r)
  then have "(r, None) \<in> call_of ` arrived epoch E" using assms(4) by force
  then show ?thesis using assms(3) MInvoke hand_does_hist [OF assms(1,2), of f "XvInvoke view lane r None" out s'] by simp
next
  case (MFile x)
  let ?call = "fileCall (rf_executionId x) (rf_epoch x) (rf_scopeId x) (rf_scopeRoot x) (rf_op x) (rf_args x)"
  have "(?call, Some (rf_op x)) \<in> call_of ` arrived epoch E" using assms(4) MFile by force
  then show ?thesis using assms(3) MFile hand_does_hist [OF assms(1,2), of f "XvInvoke view lane ?call (Some (rf_op x))" out s'] by simp
next
  case (MAbort k ep)
  then show ?thesis using assms(3) hand_does_hist [OF assms(1,2), of f "XvAbort view lane k ep" out s'] by simp
next
  case (MAck k ep)
  then show ?thesis using assms(3) hand_does_hist [OF assms(1,2), of f "XvAckFrame view lane k ep" out s'] by simp
next
  case (MFloor ep)
  have "MReply r \<notin> set (over_wire (MFloorReply floor0))" for r using over_wire_reply [of r "MFloorReply floor0"] by blast
  then have "sys_inv epoch E H (s\<lparr>rs_down := (rs_down s)(lane := rs_down s lane @ over_wire (MFloorReply floor0))\<rparr>)"
    by (intro sys_inv_lanes [OF assms(1)]) (auto split: if_splits)
  then show ?thesis using assms(2,3) MFloor by (auto simp: plain_or_ledger_def)
qed (use assms in auto)

lemma session_does_hist:
  assumes "sys_inv epoch E H s" "plain_or_ledger s" "session_does (link_step e (rs_link s)) s = (out, s')" "given (dispatched_in E) e"
    "\<And>lane k r. e = SvFrame lane (MReply (HandSettled k r)) \<Longrightarrow> from_hand H k r"
  shows "sys_inv epoch E (H \<union> set out) s' \<and> plain_or_ledger s'"
proof -
  obtain o1 l where st: "link_step e (rs_link s) = (o1, l)" by fastforce
  have o: "out = map RoLink o1" "s' = s\<lparr>rs_link := l, rs_up := put_up o1 (rs_up s)\<rparr>" using assms(3) st by (simp_all add: session_does_def)
  from session_does_inv [OF assms(1) st assms(4,5)] assms(2) o show ?thesis by (simp add: plain_or_ledger_def)
qed

lemma system_hist_step:
  assumes i: "sys_inv epoch E H s \<and> plain_or_ledger s" and st: "system_step f e s = (out, s')"
  shows "sys_inv epoch (insert e E) (H \<union> set out) s' \<and> plain_or_ledger s'"
proof -
  have inv: "sys_inv epoch (insert e E) H s" and p: "plain_or_ledger s" using i sys_inv_more [of epoch E H s "insert e E"] by auto
  note d = sys_invD [OF inv]
  show ?thesis
  proof (cases e)
    case (RvSession x)
    have g: "session_own x \<Longrightarrow> given (dispatched_in (insert e E)) x" using RvSession by (cases x) (auto simp: given_def dispatched_in_def)
    show ?thesis
    proof (cases "session_own x")
      case True
      have "from_hand H k r" if "x = SvFrame lane (MReply (HandSettled k r))" for lane k r using True that by simp
      then show ?thesis using st RvSession True session_does_hist [OF inv p _ g [OF True], of out s'] by simp
    qed (use st RvSession inv p in auto)
  next
    case (RvHand x)
    show ?thesis
    proof (cases "hand_own x")
      case True
      have "(call, fl) \<in> call_of ` arrived epoch (insert e E)" if "x = XvInvoke view lane call fl" for view lane call fl using True that by simp
      then show ?thesis using st RvHand True hand_does_hist [OF inv p, of f x out s'] by simp
    qed (use st RvHand inv p in auto)
  next
    case (RvUp lane view floor0)
    show ?thesis
    proof (cases "rs_up s lane")
      case (Cons m rest)
      let ?s = "s\<lparr>rs_up := (rs_up s)(lane := rest)\<rparr>"
      have "sys_inv epoch (insert e E) H ?s" by (rule sys_inv_lanes [OF inv]) (use Cons in auto)
      moreover have "plain_or_ledger ?s" using p by (simp add: plain_or_ledger_def)
      moreover have "is_call m \<Longrightarrow> m \<in> arrived epoch (insert e E)" using d(3) [of m lane] Cons by simp
      ultimately show ?thesis using st RvUp Cons hand_receives_hist [of epoch "insert e E" H ?s f view floor0 lane m out s'] by simp
    qed (use st RvUp inv p in auto)
  next
    case (RvDown lane)
    show ?thesis
    proof (cases "rs_down s lane")
      case (Cons m rest)
      let ?s = "s\<lparr>rs_down := (rs_down s)(lane := rest)\<rparr>"
      have "sys_inv epoch (insert e E) H ?s" by (rule sys_inv_lanes [OF inv]) (use Cons in \<open>auto split: if_splits\<close>)
      moreover have "plain_or_ledger ?s" using p by (simp add: plain_or_ledger_def)
      moreover have "m = MReply (HandSettled k r) \<Longrightarrow> from_hand H k r" for k r using d(5) [of k r lane] Cons by simp
      ultimately show ?thesis using st RvDown Cons session_does_hist [of epoch "insert e E" H ?s "SvFrame lane m" out s'] by (simp add: given_def)
    qed (use st RvDown inv p in auto)
  next
    case (RvHello h)
    have "MReply r \<notin> set (over_wire (MHello h))" for r using over_wire_reply [of r "MHello h"] by blast
    then have "sys_inv epoch (insert e E) H (s\<lparr>rs_down := (rs_down s)(HAND_CONTROL_LANE := rs_down s HAND_CONTROL_LANE @ over_wire (MHello h))\<rparr>)"
      by (intro sys_inv_lanes [OF inv]) (auto split: if_splits)
    then show ?thesis using st RvHello p by (auto simp: plain_or_ledger_def)
  qed
qed

interpretation two_ends: history_invariant "system_step isSequential" "\<lambda>E H s. sys_inv epoch E H s \<and> plain_or_ledger s" for isSequential epoch
  by unfold_locales (rule system_hist_step)

text \<open>What the hand's end does in a run of the two is a run of the executor.\<close>

definition hand_outs :: "system_out list \<Rightarrow> exec_out list" where
  "hand_outs outs = concat (map (\<lambda>out. case out of RoHand x \<Rightarrow> [x] | _ \<Rightarrow> []) outs)"

lemma hand_outs_simps [simp]: "hand_outs [] = []" "hand_outs (outs @ outs') = hand_outs outs @ hand_outs outs'" "hand_outs (map RoHand xs) = xs" "hand_outs (map RoLink ys) = []"
proof -
  show "hand_outs (map RoHand xs) = xs" by (induction xs) (simp_all add: hand_outs_def)
  show "hand_outs (map RoLink ys) = []" by (induction ys) (simp_all add: hand_outs_def)
qed (simp_all add: hand_outs_def)

lemma system_step_exec:
  assumes "system_step f e s = (out, s')"
  obtains es where "run_steps (exec_step f) es (rs_exec s) = (hand_outs out, rs_exec s')"
proof -
  have h: "\<exists>es. run_steps (exec_step f) es (rs_exec s) = (hand_outs out, rs_exec s')" if "hand_does (exec_step f x (rs_exec s)) s0 = (out, s')" "rs_exec s0 = rs_exec s" for x s0
    using that by (intro exI [of _ "[x]"]) (auto simp: hand_does_def split: prod.splits)
  have l: "\<exists>es. run_steps (exec_step f) es (rs_exec s) = (hand_outs out, rs_exec s')" if "session_does y s0 = (out, s')" "rs_exec s0 = rs_exec s" for y s0
    using that by (intro exI [of _ "[]"]) (auto simp: session_does_def split: prod.splits)
  have q: "\<exists>es. run_steps (exec_step f) es (rs_exec s) = (hand_outs out, rs_exec s')" if "out = []" "rs_exec s' = rs_exec s"
    using that by (intro exI [of _ "[]"]) simp
  have "\<exists>es. run_steps (exec_step f) es (rs_exec s) = (hand_outs out, rs_exec s')"
  proof (cases e)
    case (RvUp lane view floor0)
    show ?thesis
    proof (cases "rs_up s lane")
      case Nil
      then show ?thesis using assms RvUp q by auto
    next
      case (Cons m rest)
      then have "hand_receives f view floor0 lane m (s\<lparr>rs_up := (rs_up s)(lane := rest)\<rparr>) = (out, s')" using assms RvUp by simp
      then show ?thesis using h [of _ "s\<lparr>rs_up := (rs_up s)(lane := rest)\<rparr>"] q by (cases m) (auto simp del: exec_step.simps)
    qed
  next
    case (RvDown lane)
    then show ?thesis using assms q l by (cases "rs_down s lane") (auto simp del: link_step.simps)
  qed (use assms h [of _ s] l [of _ s] q in \<open>auto split: if_splits simp del: exec_step.simps link_step.simps\<close>)
  then show thesis using that by blast
qed

lemma system_run_exec:
  assumes "run_steps (system_step f) es s = (outs, s')"
  obtains es' where "run_steps (exec_step f) es' (rs_exec s) = (hand_outs outs, rs_exec s')"
  using assms
proof (induction es arbitrary: s outs thesis)
  case Nil
  then show ?case by (intro Nil.prems(1) [of "[]"]) simp
next
  case (Cons e es)
  obtain out s1 outs' where c: "system_step f e s = (out, s1)" "run_steps (system_step f) es s1 = (outs', s')" "outs = out @ outs'"
    by (rule run_steps_Cons [OF Cons.prems(2)])
  obtain es1 where a: "run_steps (exec_step f) es1 (rs_exec s) = (hand_outs out, rs_exec s1)" by (rule system_step_exec [OF c(1)])
  obtain es2 where b: "run_steps (exec_step f) es2 (rs_exec s1) = (hand_outs outs', rs_exec s')" by (rule Cons.IH [OF _ c(2)])
  show ?case by (rule Cons.prems(1) [of "es1 @ es2"]) (simp add: run_steps_append a b c(3))
qed

lemma call_of_id: "is_call m \<Longrightarrow> ri_executionId (fst (call_of (on_wire (stamped epoch m)))) = message_id m"
  by (cases m; cases epoch) (simp_all add: fileCall_def)

lemma sys_inv_new: "sys_inv epoch {} {} (new_system epoch ledger) \<and> plain_or_ledger (new_system epoch ledger)"
  by (auto simp: sys_inv_def new_system_def createHandLink_def link_wf_def createRemoteExecutor_def calls_of_def plain_or_ledger_def plain_inv_def)

text \<open>C17. A result the session takes for a call is the result of that call: the hand, without a ledger, sent it for the execution id when its
  call was done, the call it did is the one the session dispatched under that id, as the wire carries it, and its tool was run at most once.\<close>

theorem remote_result_is_the_calls:
  assumes "run_steps (system_step isSequential) es (new_system epoch False) = (outs, s)" "RoLink (SReply k (RSettled r)) \<in> set outs"
  shows "\<exists>lane r0 n m aborted. RoHand (XReply lane (HandSettled k r0)) \<in> set outs \<and> r = json_normal r0 \<and>
    job_done (rs_exec s) n \<and> call_id (job_call (rs_exec s) n) = k \<and>
    RvSession (SvDispatch m aborted) \<in> set es \<and> is_call m \<and> message_id m = k \<and>
    (pc_call (job_call (rs_exec s) n), pc_file (job_call (rs_exec s) n)) = call_of (on_wire (stamped epoch m)) \<and>
    length (filter (\<lambda>out. case out of XRun j \<Rightarrow> call_id (job_call (rs_exec s) j) = k | _ \<Rightarrow> False) (hand_outs outs)) \<le> 1"
proof -
  from two_ends.hist_run [OF sys_inv_new assms(1)] have inv: "sys_inv epoch (set es) (set outs) s" "plain_or_ledger s" by simp_all
  obtain es' where ex: "run_steps (exec_step isSequential) es' (createRemoteExecutor False) = (hand_outs outs, rs_exec s)"
    by (rule system_run_exec [OF assms(1)]) (simp add: new_system_def)
  have "\<not> ex_ledger (rs_exec s)" using exec_plain.inv_run [OF _ ex] by (simp add: createRemoteExecutor_def)
  then have p: "plain_inv (rs_exec s)" using inv(2) by (simp add: plain_or_ledger_def)
  obtain lane r0 where r: "RoHand (XReply lane (HandSettled k r0)) \<in> set outs" "r = json_normal r0"
    using sys_invD(6) [OF inv(1) assms(2)] unfolding from_hand_def by blast
  obtain n where n: "call_id (job_call (rs_exec s) n) = k" "job_done (rs_exec s) n" using sys_invD(7) [OF inv(1) p r(1)] by blast
  have "call_core (job_call (rs_exec s) n) \<in> calls_of (rs_exec s)" using n(2) by (auto simp: calls_of_def job_done_def)
  from sys_invD(4) [OF inv(1) this] obtain m where m: "m \<in> dispatched_in (set es)"
    "(pc_call (job_call (rs_exec s) n), pc_file (job_call (rs_exec s) n)) = call_of (on_wire (stamped epoch m))"
    by (auto simp: arrived_def call_core_def)
  then obtain aborted where a: "RvSession (SvDispatch m aborted) \<in> set es" "is_call m" by (auto simp: dispatched_in_def)
  have "message_id m = k" using call_of_id [OF a(2), of epoch] m(2) n(1) by (metis fst_conv)
  with r n m(2) a exec_once_per_id [OF ex] show ?thesis by blast
qed

definition remote_events :: "system_event list" where
  "remote_events = [RvSession (SvDispatch (read_call ''e1'') False), RvUp ''s'' any_view (FloorAckMessage (Fin 1)), RvHand (XvOpened 0 (Inr True)),
     RvHand (XvScope 0), RvHand (XvStart any_view 0), RvHand (XvEnds any_view 0 (Inr (SObj [(''content'', SList [SStr ''hi'']), (''details'', SNum PosInf)]))),
     RvDown ''s'']"

theorem remote_result_is_the_calls_witness:
  "\<exists>outs s. run_steps (system_step bash_only) remote_events (new_system None False) = (outs, s) \<and>
     RoLink (SReply ''e1'' (RSettled (SObj [(''content'', SList [SStr ''hi'']), (''details'', SNull), (''isError'', SBool False)]))) \<in> set outs \<and>
     (\<exists>n. job_done (rs_exec s) n \<and> call_id (job_call (rs_exec s) n) = ''e1'')"
proof -
  let ?r = "run_steps (system_step bash_only) remote_events (new_system None False)"
  have o: "RoLink (SReply ''e1'' (RSettled (SObj [(''content'', SList [SStr ''hi'']), (''details'', SNull), (''isError'', SBool False)]))) \<in> set (fst ?r)"
    by code_simp
  have r: "?r = (fst ?r, snd ?r)" by simp
  from remote_result_is_the_calls [OF r o] r o show ?thesis by metis
qed

end
