(* ===== verification/Plane_Requests.thy ===== *)
theory Plane_Requests
  imports Remote_Protocol Step_Trace
begin

text \<open>
  Nested requests from a call that runs on a hand back to the session that owns it (execution/plane.ts): the messages and their
  decoder, the session's server, which serves a request once and only while its parent is live, and the hand's client, whose requests all
  end with their parent. A served request and a waiting one are records of their own, referred to by number, as the code refers to them
  by object identity.
\<close>

section \<open>Messages\<close>

datatype plane_message =
    PlRequest string string string store_value
  | PlAbort string string
  | PlReply string string store_value
  | PlRefused string string string

fun plane_value :: "plane_message \<Rightarrow> store_value" where
  "plane_value (PlRequest parent child plane body) = SObj [(''kind'', SStr ''plane.request''), (''parent'', SStr parent), (''childRequestId'', SStr child),
     (''plane'', SStr plane), (''body'', body)]"
| "plane_value (PlAbort parent child) = SObj [(''kind'', SStr ''plane.abort''), (''parent'', SStr parent), (''childRequestId'', SStr child)]"
| "plane_value (PlReply parent child body) = SObj [(''kind'', SStr ''plane.reply''), (''parent'', SStr parent), (''childRequestId'', SStr child), (''body'', body)]"
| "plane_value (PlRefused parent child reason) = SObj [(''kind'', SStr ''plane.refused''), (''parent'', SStr parent), (''childRequestId'', SStr child),
     (''reason'', SStr reason)]"

definition encodePlaneMessage :: "(number \<Rightarrow> string) \<Rightarrow> plane_message \<Rightarrow> string" where
  "encodePlaneMessage num_text message = json_text num_text (plane_value message)"

definition decode_plane_value :: "store_value \<Rightarrow> plane_message option" where
  "decode_plane_value value =
     (let v = Some value; kind = fld v ''kind''; parent = fld v ''parent''; child = fld v ''childRequestId'' in
      if \<not> isRecord v \<or> kind \<notin> set (map (Some \<circ> SStr) [''plane.request'', ''plane.abort'', ''plane.reply'', ''plane.refused'']) then None
      else if \<not> isString parent \<or> \<not> isString child then None
      else if kind = Some (SStr ''plane.request'') then
        (if isString (fld v ''plane'') \<and> fld v ''body'' \<noteq> None
         then Some (PlRequest (get_str parent) (get_str child) (get_str (fld v ''plane'')) (the (fld v ''body''))) else None)
      else if kind = Some (SStr ''plane.abort'') then Some (PlAbort (get_str parent) (get_str child))
      else if kind = Some (SStr ''plane.reply'') then
        (if fld v ''body'' \<noteq> None then Some (PlReply (get_str parent) (get_str child) (the (fld v ''body''))) else None)
      else if is_str (fld v ''reason'') then Some (PlRefused (get_str parent) (get_str child) (get_str (fld v ''reason''))) else None)"

definition decodePlaneMessage :: "json_parser \<Rightarrow> string \<Rightarrow> plane_message option" where
  "decodePlaneMessage parse payload = (case parse payload of Inl _ \<Rightarrow> None | Inr value \<Rightarrow> decode_plane_value value)"

definition PlaneRefusedError :: "string \<Rightarrow> failure" where
  "PlaneRefusedError reason = ErrorMessage (''The brain refused this request: '' @ reason)"

section \<open>The session's server\<close>

text \<open>A request that was taken: where it came from, whether its signal fired, whether its handler still runs, and its answer.\<close>

record served_request =
  se_parent :: string
  se_child :: string
  se_lane :: string
  se_aborted :: bool
  se_running :: bool
  se_answer :: "plane_message option"

record plane_server =
  ps_entries :: "served_request list"
  ps_served :: "((string \<times> string) \<times> nat) list"

definition createPlaneServer :: plane_server where
  "createPlaneServer = \<lparr>ps_entries = [], ps_served = []\<rparr>"

datatype server_out = PoSend string plane_message | PoServe nat string string string store_value

definition set_entry :: "nat \<Rightarrow> (served_request \<Rightarrow> served_request) \<Rightarrow> plane_server \<Rightarrow> plane_server" where
  "set_entry n f s = s\<lparr>ps_entries := (ps_entries s)[n := f (ps_entries s ! n)]\<rparr>"

text \<open>\<open>serve\<close>; \<open>liveLane\<close> is the lane of a live parent that may host the plane, \<open>planes\<close> the planes with a handler.\<close>

definition plane_serve :: "(string \<Rightarrow> string option \<Rightarrow> string option) \<Rightarrow> string list \<Rightarrow> string \<Rightarrow> string \<Rightarrow> string \<Rightarrow> string \<Rightarrow> store_value \<Rightarrow>
    plane_server \<Rightarrow> server_out list \<times> plane_server" where
  "plane_serve liveLane planes lane parent child plane body s =
     (let refuse = (\<lambda>reason. [PoSend lane (PlRefused parent child reason)]) in
      case liveLane parent (Some plane) of
        None \<Rightarrow> (refuse ''parent_terminal'', s)
      | Some parentLane \<Rightarrow>
          if parentLane \<noteq> lane then (refuse ''scope_lane_mismatch'', s)
          else (case map_of (ps_served s) (parent, child) of
            Some n \<Rightarrow> ((case se_answer (ps_entries s ! n) of Some answer \<Rightarrow> [PoSend lane answer] | None \<Rightarrow> []), s)
          | None \<Rightarrow>
              if plane \<notin> set planes then (refuse ''plane_unavailable'', s)
              else ([PoServe (length (ps_entries s)) parent child plane body],
                    s\<lparr>ps_served := obj_put (parent, child) (length (ps_entries s)) (ps_served s),
                      ps_entries := ps_entries s @ [\<lparr>se_parent = parent, se_child = child, se_lane = lane, se_aborted = False, se_running = True, se_answer = None\<rparr>]\<rparr>)))"

definition server_receive :: "(string \<Rightarrow> string option \<Rightarrow> string option) \<Rightarrow> string list \<Rightarrow> string \<Rightarrow> plane_message \<Rightarrow> plane_server \<Rightarrow> server_out list \<times> plane_server" where
  "server_receive liveLane planes lane message s =
     (case message of
        PlRequest parent child plane body \<Rightarrow> plane_serve liveLane planes lane parent child plane body s
      | PlAbort parent child \<Rightarrow>
          if liveLane parent None = Some lane
          then (case map_of (ps_served s) (parent, child) of
                  Some n \<Rightarrow> ([], set_entry n (\<lambda>e. e\<lparr>se_aborted := True\<rparr>) s) | None \<Rightarrow> ([], s))
          else ([], s)
      | _ \<Rightarrow> ([], s))"

text \<open>The handler of a request ends; its answer is kept and sent while the request is still the one known under its id.\<close>

definition server_handled :: "nat \<Rightarrow> (string, store_value) result \<Rightarrow> plane_server \<Rightarrow> server_out list \<times> plane_server" where
  "server_handled n outcome s =
     (if n < length (ps_entries s) \<and> se_running (ps_entries s ! n) then
        (let e = ps_entries s ! n;
             answer = (case outcome of Inr body \<Rightarrow> PlReply (se_parent e) (se_child e) body
                       | Inl message \<Rightarrow> PlRefused (se_parent e) (se_child e) (''plane_failed: '' @ message)) in
         if map_of (ps_served s) (se_parent e, se_child e) \<noteq> Some n then ([], set_entry n (\<lambda>e. e\<lparr>se_running := False\<rparr>) s)
         else ([PoSend (se_lane e) answer], set_entry n (\<lambda>e. e\<lparr>se_running := False, se_answer := Some answer\<rparr>) s))
      else ([], s))"

text \<open>The parent call ends: its requests are forgotten and their signals fire.\<close>

definition server_parentEnded :: "string \<Rightarrow> plane_server \<Rightarrow> server_out list \<times> plane_server" where
  "server_parentEnded parent s =
     (let gone = filter (\<lambda>((p, _), _). p = parent) (ps_served s) in
      ([], foldl (\<lambda>s (_, n). set_entry n (\<lambda>e. e\<lparr>se_aborted := True\<rparr>) s)
             (s\<lparr>ps_served := filter (\<lambda>((p, _), _). p \<noteq> parent) (ps_served s)\<rparr>) gone))"

datatype server_event =
    PvReceive "string \<Rightarrow> string option \<Rightarrow> string option" "string list" string plane_message
  | PvHandled nat "(string, store_value) result"
  | PvEnded string

fun server_step :: "server_event \<Rightarrow> plane_server \<Rightarrow> server_out list \<times> plane_server" where
  "server_step (PvReceive liveLane planes lane message) s = server_receive liveLane planes lane message s"
| "server_step (PvHandled n outcome) s = server_handled n outcome s"
| "server_step (PvEnded parent) s = server_parentEnded parent s"

section \<open>The hand's client\<close>

text \<open>A waiting request: the number of its promise and the lane it was sent on.\<close>

record plane_client =
  pl_live :: "string list"
  pl_waiting :: "((string \<times> string) \<times> nat \<times> string) list"
  pl_asked :: nat

definition createPlaneClient :: plane_client where
  "createPlaneClient = \<lparr>pl_live = [], pl_waiting = [], pl_asked = 0\<rparr>"

datatype client_out = CoSend string plane_message | CoResolve nat string string store_value | CoReject nat string

definition client_requestFor :: "string \<Rightarrow> plane_client \<Rightarrow> client_out list \<times> plane_client" where
  "client_requestFor parent c = ([], c\<lparr>pl_live := List.insert parent (pl_live c)\<rparr>)"

text \<open>The function \<open>requestFor\<close> returns; \<open>aborted\<close>: one of the two signals has fired already, \<open>child\<close>: the id it mints.\<close>

definition client_request :: "string \<Rightarrow> string \<Rightarrow> string \<Rightarrow> store_value \<Rightarrow> bool \<Rightarrow> string \<Rightarrow> plane_client \<Rightarrow> client_out list \<times> plane_client" where
  "client_request parent lane plane body aborted child c =
     (let n = pl_asked c; c' = c\<lparr>pl_asked := n + 1\<rparr> in
      if parent \<notin> set (pl_live c) \<or> aborted then ([CoReject n ''parent_terminal''], c')
      else ([CoSend lane (PlRequest parent child plane body)], c'\<lparr>pl_waiting := obj_put (parent, child) (n, lane) (pl_waiting c)\<rparr>))"

definition client_abort :: "string \<Rightarrow> string \<Rightarrow> plane_client \<Rightarrow> client_out list \<times> plane_client" where
  "client_abort parent child c =
     (case map_of (pl_waiting c) (parent, child) of
        None \<Rightarrow> ([], c)
      | Some (n, lane) \<Rightarrow> ([CoSend lane (PlAbort parent child), CoReject n ''Operation aborted''], c\<lparr>pl_waiting := obj_del (parent, child) (pl_waiting c)\<rparr>))"

definition client_send_failed :: "string \<Rightarrow> string \<Rightarrow> string \<Rightarrow> plane_client \<Rightarrow> client_out list \<times> plane_client" where
  "client_send_failed parent child reason c =
     (case map_of (pl_waiting c) (parent, child) of
        None \<Rightarrow> ([], c)
      | Some (n, _) \<Rightarrow> ([CoReject n (''brain_unreachable: '' @ reason)], c\<lparr>pl_waiting := obj_del (parent, child) (pl_waiting c)\<rparr>))"

definition client_receive :: "plane_message \<Rightarrow> plane_client \<Rightarrow> client_out list \<times> plane_client" where
  "client_receive message c =
     (let answered = (\<lambda>parent child out. case map_of (pl_waiting c) (parent, child) of
          None \<Rightarrow> ([], c)
        | Some (n, _) \<Rightarrow> ([out n], c\<lparr>pl_waiting := obj_del (parent, child) (pl_waiting c)\<rparr>)) in
      case message of
        PlReply parent child body \<Rightarrow> answered parent child (\<lambda>n. CoResolve n parent child body)
      | PlRefused parent child reason \<Rightarrow> answered parent child (\<lambda>n. CoReject n reason)
      | _ \<Rightarrow> ([], c))"

definition client_parentEnded :: "string \<Rightarrow> plane_client \<Rightarrow> client_out list \<times> plane_client" where
  "client_parentEnded parent c =
     (map (\<lambda>(_, n, _). CoReject n ''parent_terminal'') (filter (\<lambda>((p, _), _). p = parent) (pl_waiting c)),
      c\<lparr>pl_live := removeAll parent (pl_live c), pl_waiting := filter (\<lambda>((p, _), _). p \<noteq> parent) (pl_waiting c)\<rparr>)"

datatype client_event =
    CvRequestFor string
  | CvRequest string string string store_value bool string
  | CvAbort string string
  | CvSendFailed string string string
  | CvReceive plane_message
  | CvEnded string

fun client_step :: "client_event \<Rightarrow> plane_client \<Rightarrow> client_out list \<times> plane_client" where
  "client_step (CvRequestFor parent) c = client_requestFor parent c"
| "client_step (CvRequest parent lane plane body aborted child) c = client_request parent lane plane body aborted child c"
| "client_step (CvAbort parent child) c = client_abort parent child c"
| "client_step (CvSendFailed parent child reason) c = client_send_failed parent child reason c"
| "client_step (CvReceive message) c = client_receive message c"
| "client_step (CvEnded parent) c = client_parentEnded parent c"

end
