(* ===== verification/Plane_Correct.thy ===== *)
theory Plane_Correct
  imports Plane_Requests Link_Correct
begin

text \<open>
  The session's link with its plane server (remote-link.ts, plane.ts): a nested request is admitted only while its parent waits on the link and is
  forgotten when the parent gets its reply. A request is served once, and every answer to it is what its handler returned. The hand's client
  settles every request exactly once.
\<close>

section \<open>The link and its plane server\<close>

record plane_link =
  pk_link :: session_link
  pk_server :: plane_server

text \<open>\<open>liveLane\<close> of the link: the lane of a waiting call, or of a waiting file operation that may host the plane.\<close>

definition plane_lane :: "string list \<Rightarrow> session_link \<Rightarrow> string \<Rightarrow> string option \<Rightarrow> string option" where
  "plane_lane filePlanes l executionId plane =
     (case map_of (sl_pending l) executionId of
        Some (MInvoke r) \<Rightarrow> Some (ri_scopeId r)
      | Some (MFile f) \<Rightarrow> (if (case plane of None \<Rightarrow> True | Some p \<Rightarrow> p \<in> set filePlanes) then Some (rf_scopeId f) else None)
      | _ \<Rightarrow> None)"

text \<open>\<open>settle\<close> ends the parent in the server before it resolves the reply.\<close>

definition ended_by :: "link_out list \<Rightarrow> string list" where
  "ended_by outs = concat (map (\<lambda>out. case out of SReply k _ \<Rightarrow> [k] | _ \<Rightarrow> []) outs)"

definition end_parents :: "string list \<Rightarrow> plane_server \<Rightarrow> plane_server" where
  "end_parents ks s = fold (\<lambda>k s. snd (server_parentEnded k s)) ks s"

datatype nested_event = NvLink link_event | NvPlane string plane_message | NvHandled nat "(string, store_value) result"

datatype nested_out = NoLink link_out | NoPlane server_out

fun nested_step :: "string list \<Rightarrow> string list \<Rightarrow> nested_event \<Rightarrow> plane_link \<Rightarrow> nested_out list \<times> plane_link" where
  "nested_step filePlanes planes (NvLink e) k =
     (case link_step e (pk_link k) of
        (out, l) \<Rightarrow> (map NoLink out, k\<lparr>pk_link := l, pk_server := end_parents (ended_by out) (pk_server k)\<rparr>))"
| "nested_step filePlanes planes (NvPlane lane message) k =
     (case server_receive (plane_lane filePlanes (pk_link k)) planes lane message (pk_server k) of
        (out, s) \<Rightarrow> (map NoPlane out, k\<lparr>pk_server := s\<rparr>))"
| "nested_step filePlanes planes (NvHandled n outcome) k =
     (case server_handled n outcome (pk_server k) of (out, s) \<Rightarrow> (map NoPlane out, k\<lparr>pk_server := s\<rparr>))"

definition new_plane_link :: "number option \<Rightarrow> plane_link" where
  "new_plane_link epoch = \<lparr>pk_link = createHandLink epoch, pk_server = createPlaneServer\<rparr>"

section \<open>Requests are served once\<close>

definition entry_key :: "served_request \<Rightarrow> string \<times> string" where
  "entry_key e = (se_parent e, se_child e)"

abbreviation entry_keys :: "plane_server \<Rightarrow> (string \<times> string) list" where
  "entry_keys s \<equiv> map entry_key (ps_entries s)"

text \<open>What an entry keeps when its signal fires.\<close>

definition entry_core :: "served_request \<Rightarrow> (string \<times> string) \<times> bool \<times> plane_message option" where
  "entry_core e = (entry_key e, se_running e, se_answer e)"

abbreviation entry_cores :: "plane_server \<Rightarrow> ((string \<times> string) \<times> bool \<times> plane_message option) list" where
  "entry_cores s \<equiv> map entry_core (ps_entries s)"

lemma map_update_same: "f y = f (xs ! n) \<Longrightarrow> map f (xs[n := y]) = map f xs"
  by (cases "n < length xs") (auto intro: nth_equalityI simp: nth_list_update)

lemma set_entry_served [simp]: "ps_served (set_entry n f s) = ps_served s"
  by (simp add: set_entry_def)

lemma set_entry_aborted [simp]: "entry_cores (set_entry n (\<lambda>e. e\<lparr>se_aborted := True\<rparr>) s) = entry_cores s"
  unfolding set_entry_def by (simp add: entry_core_def entry_key_def map_update_same)

lemma keys_of_cores: "entry_keys s = map fst (entry_cores s)"
  by (simp add: entry_core_def)

lemma parentEnded_entries: "entry_cores (snd (server_parentEnded p s)) = entry_cores s"
proof -
  have "entry_cores (foldl (\<lambda>s (_, n). set_entry n (\<lambda>e. e\<lparr>se_aborted := True\<rparr>) s) s0 gone) = entry_cores s0" for s0 and gone :: "((string \<times> string) \<times> nat) list"
    by (induction gone arbitrary: s0) (auto split: prod.splits)
  from this [of "s\<lparr>ps_served := x\<rparr>" for x] show ?thesis by (simp add: server_parentEnded_def)
qed

lemma parentEnded_served: "map_of (ps_served (snd (server_parentEnded p s))) k = (if fst k = p then None else map_of (ps_served s) k)"
proof -
  have "ps_served (foldl (\<lambda>s (_, n). set_entry n (\<lambda>e. e\<lparr>se_aborted := True\<rparr>) s) s0 gone) = ps_served s0" for s0 and gone :: "((string \<times> string) \<times> nat) list"
    by (induction gone arbitrary: s0) (auto split: prod.splits)
  moreover have "map_of (filter (\<lambda>((q, _), _). q \<noteq> p) xs) k = (if fst k = p then None else map_of xs k)" for xs :: "((string \<times> string) \<times> nat) list"
    by (induction xs) auto
  ultimately show ?thesis by (simp add: server_parentEnded_def)
qed

lemma end_parents_entries [simp]: "entry_cores (end_parents ks s) = entry_cores s"
  by (induction ks arbitrary: s) (simp_all add: end_parents_def parentEnded_entries)

lemma end_parents_keys [simp]: "entry_keys (end_parents ks s) = entry_keys s"
  by (simp only: keys_of_cores end_parents_entries)

lemma end_parents_served: "map_of (ps_served (end_parents ks s)) k = (if fst k \<in> set ks then None else map_of (ps_served s) k)"
  by (induction ks arbitrary: s) (simp_all add: end_parents_def parentEnded_served)

lemma ended_by_replies: "k \<in> set (ended_by outs) \<longleftrightarrow> replies k outs \<noteq> 0"
  by (induction outs) (auto simp: ended_by_def replies_def split: link_out.splits)

text \<open>\<open>live\<close>: the parents that wait on the link. A request known under its id has a live parent, and an entry that is not known any more a parent
  that is not live.\<close>

definition served_ok :: "(string \<Rightarrow> bool) \<Rightarrow> string set \<Rightarrow> plane_server \<Rightarrow> bool" where
  "served_ok live D s \<longleftrightarrow>
     (\<forall>k n. map_of (ps_served s) k = Some n \<longrightarrow> n < length (entry_keys s) \<and> entry_keys s ! n = k \<and> live (fst k)) \<and>
     (\<forall>n < length (entry_keys s). fst (entry_keys s ! n) \<in> D \<and>
        (map_of (ps_served s) (entry_keys s ! n) = Some n \<or> \<not> live (fst (entry_keys s ! n)))) \<and>
     distinct (entry_keys s)"

lemma served_okI:
  assumes "\<And>k n. map_of (ps_served s) k = Some n \<Longrightarrow> n < length (entry_keys s) \<and> entry_keys s ! n = k \<and> live (fst k)"
    "\<And>n. n < length (entry_keys s) \<Longrightarrow> fst (entry_keys s ! n) \<in> D \<and> (map_of (ps_served s) (entry_keys s ! n) = Some n \<or> \<not> live (fst (entry_keys s ! n)))"
    "distinct (entry_keys s)"
  shows "served_ok live D s"
  using assms unfolding served_ok_def by blast

lemma served_okD:
  assumes "served_ok live D s"
  shows "map_of (ps_served s) k = Some n \<Longrightarrow> n < length (entry_keys s) \<and> entry_keys s ! n = k \<and> live (fst k)"
    and "n < length (entry_keys s) \<Longrightarrow> fst (entry_keys s ! n) \<in> D"
    and "n < length (entry_keys s) \<Longrightarrow> map_of (ps_served s) (entry_keys s ! n) = Some n \<or> \<not> live (fst (entry_keys s ! n))"
    and "distinct (entry_keys s)"
  using assms unfolding served_ok_def by blast+

lemma served_ok_same: "entry_keys s' = entry_keys s \<Longrightarrow> ps_served s' = ps_served s \<Longrightarrow> served_ok live D s' = served_ok live D s"
  unfolding served_ok_def by simp

text \<open>The keys a link event brings.\<close>

definition brings_ids :: "nested_event \<Rightarrow> string list" where
  "brings_ids e = (case e of NvLink e' \<Rightarrow> dispatched [e'] | _ \<Rightarrow> [])"

lemma dispatches_in: "dispatches k e = (if k \<in> set (dispatched [e]) then 1 else 0)"
  by (auto simp: dispatches_def split: link_event.splits)

lemma served_ok_link:
  assumes "link_step e l = (out, l')" "distinct (D @ dispatched [e])" "\<And>k. is_pending l k \<Longrightarrow> k \<in> set D" "served_ok (is_pending l) (set D) s"
  shows "served_ok (is_pending l') (set (D @ dispatched [e])) (end_parents (ended_by out) s)"
    and "is_pending l' k \<Longrightarrow> k \<in> set (D @ dispatched [e])"
proof -
  have r: "replies k out + pend k l' = pend k l + dispatches k e" for k
    by (rule link_step_replies [OF assms(1)]) (use assms(2,3) in \<open>auto simp: dispatches_in split: if_splits\<close>)
  then show "is_pending l' k \<Longrightarrow> k \<in> set (D @ dispatched [e])"
    using assms(3) by (metis (no_types, lifting) One_nat_def Un_iff add_eq_0_iff_both_eq_0 add_is_1 dispatches_in pend_def set_append zero_neq_one)
  have d: "dispatches k e = 0" if "k \<in> set D" for k using assms(2) that by (auto simp: dispatches_in)
  have gone: "\<not> is_pending l' k" if "k \<in> set D" "k \<in> set (ended_by out) \<or> \<not> is_pending l k" for k
    using r [of k] d [OF that(1)] that(2) by (auto simp: ended_by_replies pend_def split: if_splits)
  have stays: "is_pending l' k" if "is_pending l k" "k \<notin> set (ended_by out)" for k
    using r [of k] that by (auto simp: ended_by_replies pend_def split: if_splits)
  have k: "entry_keys (end_parents (ended_by out) s) = entry_keys s" by (rule end_parents_keys)
  show "served_ok (is_pending l') (set (D @ dispatched [e])) (end_parents (ended_by out) s)"
  proof (rule served_okI)
    show "n < length (entry_keys (end_parents (ended_by out) s)) \<and> entry_keys (end_parents (ended_by out) s) ! n = k \<and> is_pending l' (fst k)"
      if "map_of (ps_served (end_parents (ended_by out) s)) k = Some n" for k n
      using that served_okD(1) [OF assms(4), of k n] stays unfolding k by (auto simp: end_parents_served split: if_splits)
    show "fst (entry_keys (end_parents (ended_by out) s) ! n) \<in> set (D @ dispatched [e]) \<and>
      (map_of (ps_served (end_parents (ended_by out) s)) (entry_keys (end_parents (ended_by out) s) ! n) = Some n \<or>
       \<not> is_pending l' (fst (entry_keys (end_parents (ended_by out) s) ! n)))" if n: "n < length (entry_keys (end_parents (ended_by out) s))" for n
    proof -
      note n' = n [unfolded k]
      show ?thesis using served_okD(2,3) [OF assms(4) n'] gone [of "fst (entry_keys s ! n)"] unfolding k by (auto simp: end_parents_served)
    qed
    show "distinct (entry_keys (end_parents (ended_by out) s))" using served_okD(4) [OF assms(4)] unfolding k .
  qed
qed

lemma served_ok_new:
  assumes "served_ok live D s" "map_of (ps_served s) (p, c) = None" "live p" "p \<in> D" "entry_key en = (p, c)"
  shows "served_ok live D (s\<lparr>ps_served := obj_put (p, c) (length (ps_entries s)) (ps_served s), ps_entries := ps_entries s @ [en]\<rparr>)"
proof -
  have "(p, c) \<notin> set (entry_keys s)"
    using served_okD(3) [OF assms(1)] assms(2,3) by (metis fst_conv in_set_conv_nth option.distinct(1))
  moreover have "n < length (ps_entries s) \<and> entry_key (ps_entries s ! n) = k \<and> live (fst k)" if "map_of (ps_served s) k = Some n" for k n
    using served_okD(1) [OF assms(1) that] by auto
  moreover have "fst (entry_keys s ! n) \<in> D \<and> (map_of (ps_served s) (entry_keys s ! n) = Some n \<or> \<not> live (fst (entry_keys s ! n)))"
    if "n < length (ps_entries s)" for n using served_okD(2,3) [OF assms(1)] that by simp
  moreover have "entry_keys s ! n \<noteq> (p, c)" if "n < length (ps_entries s)" for n using calculation(1) that by (metis length_map nth_mem)
  ultimately show ?thesis using assms(3-) served_okD(4) [OF assms(1)]
    by (intro served_okI) (auto simp: nth_append less_Suc_eq split: if_splits)
qed

lemma served_ok_receive:
  assumes "served_ok live D s" "\<And>p plane. lane_of p plane \<noteq> None \<Longrightarrow> live p" "\<And>p. live p \<Longrightarrow> p \<in> D"
    "server_receive lane_of planes lane m s = (out, s')"
  shows "served_ok live D s'"
proof (cases m)
  case (PlRequest p c plane body)
  then show ?thesis
    using assms(4) served_ok_new [OF assms(1), of p c] assms(1) assms(2) [of p "Some plane"] assms(3) [of p]
    by (auto simp: server_receive_def plane_serve_def entry_key_def Let_def split: option.splits if_splits)
next
  case (PlAbort p c)
  have "served_ok live D (set_entry n (\<lambda>e. e\<lparr>se_aborted := True\<rparr>) s)" for n
    by (subst served_ok_same [where s = s]) (simp_all add: keys_of_cores assms(1))
  then show ?thesis using assms(1,4) PlAbort by (auto simp: server_receive_def split: option.splits if_splits)
qed (use assms in \<open>auto simp: server_receive_def\<close>)

lemma served_ok_handled:
  assumes "served_ok live D s" "server_handled n outcome s = (out, s')"
  shows "served_ok live D s'"
proof -
  have "entry_keys s' = entry_keys s \<and> ps_served s' = ps_served s"
    using assms(2) by (auto simp: server_handled_def set_entry_def Let_def entry_key_def intro!: map_update_same split: if_splits)
  then show ?thesis using assms(1) served_ok_same by blast
qed

definition nested_inv :: "string list \<Rightarrow> plane_link \<Rightarrow> bool" where
  "nested_inv D k \<longleftrightarrow> (\<forall>p. is_pending (pk_link k) p \<longrightarrow> p \<in> set D) \<and> served_ok (is_pending (pk_link k)) (set D) (pk_server k)"

lemma plane_lane_pending: "plane_lane filePlanes l p plane \<noteq> None \<Longrightarrow> is_pending l p"
  by (auto simp: plane_lane_def is_pending_def split: option.splits)

interpretation nested_fresh: fresh_keys "nested_step filePlanes planes" brings_ids nested_inv for filePlanes planes
proof
  fix D k e out k'
  assume a: "nested_inv D k" "distinct (D @ brings_ids e)" "nested_step filePlanes planes e k = (out, k')"
  show "nested_inv (D @ brings_ids e) k'"
  proof (cases e)
    case (NvLink e')
    then obtain o' l where l: "link_step e' (pk_link k) = (o', l)" "k' = k\<lparr>pk_link := l, pk_server := end_parents (ended_by o') (pk_server k)\<rparr>"
      using a(3) by (auto split: prod.splits)
    have b: "brings_ids e = dispatched [e']" by (simp only: brings_ids_def NvLink nested_event.case)
    have "\<And>p. is_pending (pk_link k) p \<Longrightarrow> p \<in> set D" "served_ok (is_pending (pk_link k)) (set D) (pk_server k)" using a(1) by (simp_all add: nested_inv_def)
    note ok = served_ok_link [OF l(1) a(2) [unfolded b] this]
    show ?thesis unfolding b l(2) nested_inv_def by (intro conjI allI impI) (use ok in \<open>simp_all del: dispatched_simps\<close>)
  next
    case (NvPlane lane m)
    then show ?thesis using a plane_lane_pending served_ok_receive [of "is_pending (pk_link k)" "set D" "pk_server k" "plane_lane filePlanes (pk_link k)"]
      by (fastforce simp: nested_inv_def brings_ids_def split: prod.splits)
  next
    case (NvHandled n outcome)
    then show ?thesis using a served_ok_handled by (fastforce simp: nested_inv_def brings_ids_def split: prod.splits)
  qed
qed

text \<open>Every request that was served is an entry, in order.\<close>

definition serves :: "nested_out \<Rightarrow> (string \<times> string) list" where
  "serves out = (case out of NoPlane (PoServe _ p c _ _) \<Rightarrow> [(p, c)] | _ \<Rightarrow> [])"

lemma nested_step_serves:
  assumes "nested_step filePlanes planes e k = (out, k')"
  shows "entry_keys (pk_server k') = entry_keys (pk_server k) @ concat (map serves out)"
proof (cases e)
  case (NvLink e')
  then show ?thesis using assms by (auto simp: serves_def split: prod.splits)
next
  case (NvPlane lane m)
  then show ?thesis using assms
    by (cases m) (auto simp: server_receive_def plane_serve_def serves_def set_entry_def entry_key_def Let_def
      intro!: map_update_same split: prod.splits option.splits if_splits)
next
  case (NvHandled n outcome)
  then show ?thesis using assms
    by (auto simp: server_handled_def serves_def set_entry_def entry_key_def Let_def intro!: map_update_same split: prod.splits if_splits)
qed

text \<open>An entry was made for a request that came, and an answer of it is the outcome its handler had.\<close>

definition answer_of :: "served_request \<Rightarrow> (string, store_value) result \<Rightarrow> plane_message" where
  "answer_of e outcome = (case outcome of Inr body \<Rightarrow> PlReply (se_parent e) (se_child e) body
     | Inl message \<Rightarrow> PlRefused (se_parent e) (se_child e) (''plane_failed: '' @ message))"

lemma answer_of_updates [simp]: "answer_of (e\<lparr>se_running := r\<rparr>) = answer_of e" "answer_of (e\<lparr>se_answer := a\<rparr>) = answer_of e"
  by (simp_all add: answer_of_def fun_eq_iff split: sum.splits)

definition entry_hist :: "nested_event set \<Rightarrow> nested_out set \<Rightarrow> nat \<Rightarrow> served_request \<Rightarrow> bool" where
  "entry_hist E H n e \<longleftrightarrow>
     (\<exists>lane plane body. NvPlane lane (PlRequest (se_parent e) (se_child e) plane body) \<in> E \<and> NoPlane (PoServe n (se_parent e) (se_child e) plane body) \<in> H) \<and>
     (\<forall>answer. se_answer e = Some answer \<longrightarrow> \<not> se_running e \<and> (\<exists>outcome. NvHandled n outcome \<in> E \<and> answer = answer_of e outcome))"

definition nested_hist :: "nested_event set \<Rightarrow> nested_out set \<Rightarrow> plane_link \<Rightarrow> bool" where
  "nested_hist E H k \<longleftrightarrow>
     (\<forall>n < length (ps_entries (pk_server k)). entry_hist E H n (ps_entries (pk_server k) ! n)) \<and>
     (\<forall>key n. map_of (ps_served (pk_server k)) key = Some n \<longrightarrow> n < length (ps_entries (pk_server k))) \<and>
     (\<forall>lane p c body. NoPlane (PoSend lane (PlReply p c body)) \<in> H \<longrightarrow>
        (\<exists>n < length (ps_entries (pk_server k)). se_answer (ps_entries (pk_server k) ! n) = Some (PlReply p c body)))"

lemma entry_hist_mono: "entry_hist E H n e \<Longrightarrow> E \<subseteq> E' \<Longrightarrow> H \<subseteq> H' \<Longrightarrow> entry_hist E' H' n e"
  unfolding entry_hist_def by blast

lemma entry_hist_core:
  assumes "entry_core e = entry_core e'"
  shows "entry_hist E H n e = entry_hist E H n e'"
proof -
  have "answer_of e = answer_of e'" using assms by (simp add: answer_of_def entry_core_def entry_key_def fun_eq_iff split: sum.splits)
  then show ?thesis using assms by (simp add: entry_hist_def entry_core_def entry_key_def)
qed

lemma nested_histD:
  assumes "nested_hist E H k"
  shows "n < length (ps_entries (pk_server k)) \<Longrightarrow> entry_hist E H n (ps_entries (pk_server k) ! n)"
    and "map_of (ps_served (pk_server k)) key = Some n \<Longrightarrow> n < length (ps_entries (pk_server k))"
    and "NoPlane (PoSend lane (PlReply p c body)) \<in> H \<Longrightarrow>
      \<exists>n < length (ps_entries (pk_server k)). se_answer (ps_entries (pk_server k) ! n) = Some (PlReply p c body)"
  using assms unfolding nested_hist_def by blast+

lemma nested_hist_keep:
  assumes "nested_hist E H k" "entry_cores (pk_server k') = entry_cores (pk_server k)"
    "\<And>key n. map_of (ps_served (pk_server k')) key = Some n \<Longrightarrow> map_of (ps_served (pk_server k)) key = Some n"
    "\<And>lane p c body. NoPlane (PoSend lane (PlReply p c body)) \<in> set out \<Longrightarrow> \<exists>n < length (ps_entries (pk_server k)). se_answer (ps_entries (pk_server k) ! n) = Some (PlReply p c body)"
  shows "nested_hist (insert e E) (H \<union> set out) k'"
proof -
  have l: "length (ps_entries (pk_server k')) = length (ps_entries (pk_server k))" using assms(2) by (rule map_eq_imp_length_eq)
  have c: "entry_core (ps_entries (pk_server k') ! n) = entry_core (ps_entries (pk_server k) ! n)" if "n < length (ps_entries (pk_server k))" for n
    using arg_cong [OF assms(2), of "\<lambda>xs. xs ! n"] l that by simp
  have "entry_hist (insert e E) (H \<union> set out) n (ps_entries (pk_server k') ! n)" if "n < length (ps_entries (pk_server k))" for n
    using entry_hist_mono [OF nested_histD(1) [OF assms(1) that], of "insert e E" "H \<union> set out"]
    by (simp add: entry_hist_core [OF c [OF that]] subset_insertI)
  moreover have "se_answer (ps_entries (pk_server k') ! n) = se_answer (ps_entries (pk_server k) ! n)" if "n < length (ps_entries (pk_server k))" for n
    using c [OF that] by (simp add: entry_core_def)
  ultimately show ?thesis using assms(3,4) nested_histD(2,3) [OF assms(1)] l unfolding nested_hist_def by (metis Un_iff)
qed

lemma nested_hist_request:
  assumes "nested_hist E H k" "pk_server k' = (pk_server k)\<lparr>ps_served := served, ps_entries := ps_entries (pk_server k) @ [en]\<rparr>"
    "se_answer en = None" "out = [NoPlane (PoServe (length (ps_entries (pk_server k))) (se_parent en) (se_child en) plane body)]"
    "\<And>key n. map_of served key = Some n \<Longrightarrow> n < Suc (length (ps_entries (pk_server k)))"
  shows "nested_hist (insert (NvPlane lane (PlRequest (se_parent en) (se_child en) plane body)) E) (H \<union> set out) k'"
proof -
  let ?E = "insert (NvPlane lane (PlRequest (se_parent en) (se_child en) plane body)) E" and ?n = "length (ps_entries (pk_server k))"
  have old: "entry_hist ?E (H \<union> set out) n (ps_entries (pk_server k) ! n)" if "n < ?n" for n
    by (rule entry_hist_mono [OF nested_histD(1) [OF assms(1) that]]) auto
  have new: "entry_hist ?E (H \<union> set out) ?n en" using assms(3,4) by (auto simp: entry_hist_def)
  show ?thesis unfolding nested_hist_def
  proof (intro conjI allI impI)
    fix n assume "n < length (ps_entries (pk_server k'))"
    then show "entry_hist ?E (H \<union> set out) n (ps_entries (pk_server k') ! n)" using old new assms(2) by (auto simp: nth_append less_Suc_eq)
  next
    fix key n assume "map_of (ps_served (pk_server k')) key = Some n"
    then show "n < length (ps_entries (pk_server k'))" using assms(2,5) by simp
  next
    fix lane p c body assume "NoPlane (PoSend lane (PlReply p c body)) \<in> H \<union> set out"
    then have "NoPlane (PoSend lane (PlReply p c body)) \<in> H" using assms(4) by simp
    from nested_histD(3) [OF assms(1) this] obtain n where "n < ?n" "se_answer (ps_entries (pk_server k) ! n) = Some (PlReply p c body)" by blast
    then show "\<exists>n < length (ps_entries (pk_server k')). se_answer (ps_entries (pk_server k') ! n) = Some (PlReply p c body)"
      using assms(2) by (auto simp: nth_append intro!: exI [of _ n])
  qed
qed

lemma nested_hist_receive:
  assumes "nested_hist E H k" "nested_step filePlanes planes (NvPlane lane m) k = (out, k')"
  shows "nested_hist (insert (NvPlane lane m) E) (H \<union> set out) k'"
proof -
  let ?s = "pk_server k" and ?lane = "plane_lane filePlanes (pk_link k)"
  have same: "nested_hist (insert (NvPlane lane m) E) (H \<union> set out) k'" if "pk_server k' = ?s"
    "\<And>lane p c body. NoPlane (PoSend lane (PlReply p c body)) \<in> set out \<Longrightarrow> \<exists>n < length (ps_entries ?s). se_answer (ps_entries ?s ! n) = Some (PlReply p c body)"
    by (rule nested_hist_keep [OF assms(1)]) (use that in simp_all)
  show ?thesis
  proof (cases m)
    case (PlRequest p c plane body)
    show ?thesis
    proof (cases "?lane p (Some plane) = Some lane \<and> map_of (ps_served ?s) (p, c) = None \<and> plane \<in> set planes")
      case True
      let ?en = "\<lparr>se_parent = p, se_child = c, se_lane = lane, se_aborted = False, se_running = True, se_answer = None\<rparr>"
      have "nested_hist (insert (NvPlane lane (PlRequest (se_parent ?en) (se_child ?en) plane body)) E) (H \<union> set out) k'"
        by (rule nested_hist_request [OF assms(1), where served = "obj_put (p, c) (length (ps_entries ?s)) (ps_served ?s)"])
          (use assms PlRequest True in \<open>auto simp: server_receive_def plane_serve_def split: if_splits dest: nested_histD(2)\<close>)
      then show ?thesis by (simp add: PlRequest)
    next
      case False
      show ?thesis
        by (rule same) (use False assms PlRequest in \<open>auto simp: server_receive_def plane_serve_def Let_def split: option.splits if_splits prod.splits dest: nested_histD(2)\<close>)
    qed
  next
    case (PlAbort p c)
    show ?thesis by (rule nested_hist_keep [OF assms(1)])
      (use assms PlAbort in \<open>auto simp: server_receive_def split: option.splits if_splits prod.splits\<close>)
  qed (rule same; use assms in \<open>auto simp: server_receive_def split: prod.splits\<close>)+
qed

lemma nested_hist_handled:
  assumes "nested_hist E H k" "nested_step filePlanes planes (NvHandled n outcome) k = (out, k')"
  shows "nested_hist (insert (NvHandled n outcome) E) (H \<union> set out) k'"
proof -
  let ?s = "pk_server k" and ?E = "insert (NvHandled n outcome) E"
  let ?e = "ps_entries ?s ! n"
  show ?thesis
  proof (cases "n < length (ps_entries ?s) \<and> se_running ?e")
    case True
    let ?known = "map_of (ps_served ?s) (se_parent ?e, se_child ?e) = Some n"
    let ?e' = "if ?known then ?e\<lparr>se_running := False, se_answer := Some (answer_of ?e outcome)\<rparr> else ?e\<lparr>se_running := False\<rparr>"
    have k: "pk_server k' = ?s\<lparr>ps_entries := (ps_entries ?s)[n := ?e']\<rparr>"
      and o: "out = (if ?known then [NoPlane (PoSend (se_lane ?e) (answer_of ?e outcome))] else [])"
      using assms(2) True by (auto simp: server_handled_def set_entry_def answer_of_def Let_def split: if_splits)
    have none: "se_answer ?e = None" using nested_histD(1) [OF assms(1), of n] True by (cases "se_answer ?e") (auto simp: entry_hist_def)
    have old: "entry_hist ?E (H \<union> set out) i (ps_entries ?s ! i)" if "i < length (ps_entries ?s)" for i
      by (rule entry_hist_mono [OF nested_histD(1) [OF assms(1) that]]) auto
    then have new: "entry_hist ?E (H \<union> set out) n ?e'" using True none by (auto simp: entry_hist_def)
    have ans: "se_answer (ps_entries (pk_server k') ! i) = Some a" if "i < length (ps_entries ?s)" "se_answer (ps_entries ?s ! i) = Some a" for i a
      using that none True by (auto simp: k nth_list_update)
    show ?thesis unfolding nested_hist_def
    proof (intro conjI allI impI)
      fix i assume "i < length (ps_entries (pk_server k'))"
      then show "entry_hist ?E (H \<union> set out) i (ps_entries (pk_server k') ! i)" using old new True by (auto simp: k nth_list_update)
    next
      fix key i assume "map_of (ps_served (pk_server k')) key = Some i"
      then show "i < length (ps_entries (pk_server k'))" using nested_histD(2) [OF assms(1)] by (simp add: k)
    next
      fix lane p c body assume "NoPlane (PoSend lane (PlReply p c body)) \<in> H \<union> set out"
      then show "\<exists>i < length (ps_entries (pk_server k')). se_answer (ps_entries (pk_server k') ! i) = Some (PlReply p c body)"
      proof
        assume "NoPlane (PoSend lane (PlReply p c body)) \<in> H"
        from nested_histD(3) [OF assms(1) this] obtain i where "i < length (ps_entries ?s)" "se_answer (ps_entries ?s ! i) = Some (PlReply p c body)" by blast
        with ans show ?thesis by (auto simp: k)
      qed (use True in \<open>auto simp: k o split: if_splits\<close>)
    qed
  next
    case False
    then show ?thesis by (intro nested_hist_keep [OF assms(1)]) (use assms in \<open>auto simp: server_handled_def split: if_splits\<close>)
  qed
qed

interpretation nested_history: history_invariant "nested_step filePlanes planes" nested_hist for filePlanes planes
proof
  fix E H k e out k'
  assume a: "nested_hist E H k" "nested_step filePlanes planes e k = (out, k')"
  show "nested_hist (insert e E) (H \<union> set out) k'"
  proof (cases e)
    case (NvLink e')
    show ?thesis by (rule nested_hist_keep [OF a(1)]) (use a NvLink in \<open>auto simp: end_parents_served split: prod.splits if_splits\<close>)
  qed (use a nested_hist_receive nested_hist_handled in blast)+
qed

lemma nested_hist_new: "nested_hist {} {} (new_plane_link epoch)" "nested_inv [] (new_plane_link epoch)"
  by (simp_all add: nested_hist_def nested_inv_def served_ok_def new_plane_link_def createPlaneServer_def createHandLink_def is_pending_def)

text \<open>C20. While the link gives every call an execution id of its own, a nested request is served at most once, however often it arrives and whatever
  else happens on the link; every reply to it is what the handler of that one request returned, and all replies to it are the same.\<close>

theorem nested_requests_served_once:
  assumes "run_steps (nested_step filePlanes planes) es (new_plane_link epoch) = (outs, k)" "distinct (concat (map brings_ids es))"
  shows "distinct (concat (map serves outs)) \<and>
    (\<forall>lane p c body. NoPlane (PoSend lane (PlReply p c body)) \<in> set outs \<longrightarrow>
       (\<exists>n plane request lane'. NoPlane (PoServe n p c plane request) \<in> set outs \<and> NvPlane lane' (PlRequest p c plane request) \<in> set es \<and> NvHandled n (Inr body) \<in> set es)) \<and>
    (\<forall>lane lane' p c body body'. NoPlane (PoSend lane (PlReply p c body)) \<in> set outs \<longrightarrow> NoPlane (PoSend lane' (PlReply p c body')) \<in> set outs \<longrightarrow> body = body')"
proof -
  let ?es = "ps_entries (pk_server k)"
  have inv: "nested_inv (concat (map brings_ids es)) k"
    using nested_fresh.fresh_run [OF nested_hist_new(2) _ assms(1)] assms(2) by simp
  then have d: "distinct (entry_keys (pk_server k))" unfolding nested_inv_def by (blast dest: served_okD(4))
  have log: "entry_keys (pk_server k) = concat (map serves outs)"
    using run_steps_log [where noted = "\<lambda>k. entry_keys (pk_server k)" and said = serves, OF nested_step_serves assms(1)]
    by (simp add: new_plane_link_def createPlaneServer_def)
  have h: "nested_hist (set es) (set outs) k" using nested_history.hist_run [OF nested_hist_new(1) assms(1)] by simp
  have sent: "\<exists>n < length ?es. se_answer (?es ! n) = Some (PlReply p c body) \<and> entry_key (?es ! n) = (p, c) \<and>
      NvHandled n (Inr body) \<in> set es \<and> entry_hist (set es) (set outs) n (?es ! n)"
    if s: "NoPlane (PoSend lane (PlReply p c body)) \<in> set outs" for lane p c body
  proof -
    obtain n where n: "n < length ?es" "se_answer (?es ! n) = Some (PlReply p c body)" using nested_histD(3) [OF h s] by blast
    have e: "entry_hist (set es) (set outs) n (?es ! n)" by (rule nested_histD(1) [OF h n(1)])
    then obtain outcome where "NvHandled n outcome \<in> set es" "PlReply p c body = answer_of (?es ! n) outcome" using n(2) by (auto simp: entry_hist_def)
    then show ?thesis using n e by (auto simp: answer_of_def entry_key_def split: sum.splits)
  qed
  show ?thesis
  proof (intro conjI allI impI)
    show "distinct (concat (map serves outs))" using d by (simp add: log)
  next
    fix lane p c body assume "NoPlane (PoSend lane (PlReply p c body)) \<in> set outs"
    from sent [OF this] show "\<exists>n plane request lane'. NoPlane (PoServe n p c plane request) \<in> set outs \<and>
        NvPlane lane' (PlRequest p c plane request) \<in> set es \<and> NvHandled n (Inr body) \<in> set es"
      by (auto simp: entry_hist_def entry_key_def)
  next
    fix lane lane' p c body body'
    assume "NoPlane (PoSend lane (PlReply p c body)) \<in> set outs" "NoPlane (PoSend lane' (PlReply p c body')) \<in> set outs"
    then obtain n n' where n: "n < length ?es" "n' < length ?es" "se_answer (?es ! n) = Some (PlReply p c body)" "se_answer (?es ! n') = Some (PlReply p c body')"
      "entry_key (?es ! n) = (p, c)" "entry_key (?es ! n') = (p, c)" using sent by metis
    then have "n = n'" using d by (simp add: distinct_conv_nth) metis
    then show "body = body'" using n by simp
  qed
qed

section \<open>The hand's client settles every request once\<close>

definition settles :: "nat \<Rightarrow> client_out \<Rightarrow> bool" where
  "settles n out = (case out of CoResolve m _ _ _ \<Rightarrow> m = n | CoReject m _ \<Rightarrow> m = n | CoSend _ _ \<Rightarrow> False)"

definition waits_on :: "nat \<Rightarrow> plane_client \<Rightarrow> nat" where
  "waits_on n c = length (filter (\<lambda>(_, m, _). m = n) (pl_waiting c))"

definition requested :: "client_event \<Rightarrow> (string \<times> string) list" where
  "requested e = (case e of CvRequest p _ _ _ _ c \<Rightarrow> [(p, c)] | _ \<Rightarrow> [])"

text \<open>Requests so far, and those that wait: under ids of their own, with numbers below the count.\<close>

definition client_inv :: "(string \<times> string) list \<Rightarrow> plane_client \<Rightarrow> bool" where
  "client_inv D c \<longleftrightarrow> obj_wf (pl_waiting c) \<and> fst ` set (pl_waiting c) \<subseteq> set D \<and> pl_asked c = length D \<and>
     distinct (map (fst \<circ> snd) (pl_waiting c)) \<and> (\<forall>w \<in> set (pl_waiting c). fst (snd w) < pl_asked c)"

lemma filter_obj_del:
  "obj_wf w \<Longrightarrow> map_of w k = Some v \<Longrightarrow> length (filter P (obj_del k w)) + (if P (k, v) then 1 else 0) = length (filter P w)"
proof (induction w)
  case (Cons x w)
  have "obj_del k w = w" if "fst x = k" using Cons.prems(1) that by (auto simp: obj_del_def filter_id_conv) (metis fst_conv image_eqI)
  then show ?case using Cons by (cases x) (auto simp: obj_del_def)
qed simp

lemma client_inv_filter: "client_inv D c \<Longrightarrow> client_inv D (c\<lparr>pl_waiting := filter P (pl_waiting c)\<rparr>)"
  by (auto simp: client_inv_def obj_wf_filter distinct_map_filter)

lemma client_inv_del: "client_inv D c \<Longrightarrow> client_inv D (c\<lparr>pl_waiting := obj_del k (pl_waiting c)\<rparr>)"
  unfolding obj_del_def by (rule client_inv_filter)

lemma client_inv_live [simp]: "client_inv D (c\<lparr>pl_live := ps\<rparr>) = client_inv D c"
  by (simp add: client_inv_def)

lemma waits_on_del:
  assumes "client_inv D c" "map_of (pl_waiting c) k = Some (m, lane)"
  shows "waits_on n (c\<lparr>pl_waiting := obj_del k (pl_waiting c)\<rparr>) + (if m = n then 1 else 0) = waits_on n c"
  using filter_obj_del [of "pl_waiting c" k "(m, lane)" "\<lambda>(_, m, _). m = n"] assms by (simp add: waits_on_def client_inv_def)

text \<open>What a step settles is what stops waiting; a request starts to wait or is rejected.\<close>

definition client_counts :: "(string \<times> string) list \<Rightarrow> client_event \<Rightarrow> plane_client \<Rightarrow> client_out list \<times> plane_client \<Rightarrow> nat \<Rightarrow> bool" where
  "client_counts D e c r n \<longleftrightarrow> client_inv (D @ requested e) (snd r) \<and>
     length (filter (settles n) (fst r)) + waits_on n (snd r) = waits_on n c + (if requested e \<noteq> [] \<and> n = length D then 1 else 0)"

lemma client_request_counts:
  assumes "client_inv D c" "(p, child) \<notin> set D"
  shows "client_counts D (CvRequest p lane plane body aborted child) c (client_request p lane plane body aborted child c) n"
proof -
  have f: "(p, child) \<notin> fst ` set (pl_waiting c)" and m: "pl_asked c = length D" using assms by (auto simp: client_inv_def)
  have w: "obj_put (p, child) (length D, lane) (pl_waiting c) = pl_waiting c @ [((p, child), length D, lane)]" by (rule obj_put_fresh [OF f])
  have none: "filter (\<lambda>(_, m, _). m = length D) (pl_waiting c) = []" using assms(1) by (force simp: client_inv_def filter_empty_conv)
  have "distinct (map (fst \<circ> snd) (pl_waiting c) @ [length D])" using assms(1) by (auto simp: client_inv_def)
  then show ?thesis using assms f m none
    by (auto simp: client_counts_def client_request_def requested_def settles_def waits_on_def client_inv_def w Let_def less_Suc_eq)
qed

lemma client_ended_counts: "client_inv D c \<Longrightarrow> client_counts D (CvEnded p) c (client_parentEnded p c) n"
proof -
  assume a: "client_inv D c"
  have "length (filter (settles n) (map (\<lambda>(_, m, _). CoReject m x) (filter (\<lambda>((q, _), _). q = p) w))) + length (filter (\<lambda>(_, m, _). m = n) (filter (\<lambda>((q, _), _). q \<noteq> p) w)) =
      length (filter (\<lambda>(_, m, _). m = n) w)" for x and w :: "((string \<times> string) \<times> nat \<times> string) list"
    by (induction w) (auto simp: settles_def)
  then show ?thesis using client_inv_filter [of D "c\<lparr>pl_live := removeAll p (pl_live c)\<rparr>" "\<lambda>((q, _), _). q \<noteq> p"] a
    by (simp add: client_counts_def client_parentEnded_def requested_def waits_on_def)
qed

lemma client_step_counts:
  assumes "client_inv D c" "distinct (D @ requested e)"
  shows "client_counts D e c (client_step e c) n"
proof -
  have none: "client_counts D e c ([], c) n" if "requested e = []" using that assms(1) by (simp add: client_counts_def)
  have one: "client_counts D e c (out, c\<lparr>pl_waiting := obj_del k (pl_waiting c)\<rparr>) n"
    if "requested e = []" "map_of (pl_waiting c) k = Some (m, lane)" "length (filter (settles n) out) = (if m = n then 1 else 0)" for k m lane out
    using that waits_on_del [OF assms(1) that(2), of n] client_inv_del [OF assms(1)] by (simp add: client_counts_def)
  show ?thesis
  proof (cases e)
    case (CvRequestFor p)
    then show ?thesis using assms(1) by (simp add: client_counts_def client_requestFor_def requested_def waits_on_def)
  next
    case (CvRequest p lane plane body aborted child)
    then show ?thesis using client_request_counts [OF assms(1)] assms(2) by (simp add: requested_def)
  next
    case (CvAbort p child)
    then show ?thesis using none one by (auto simp: client_abort_def requested_def settles_def split: option.splits)
  next
    case (CvSendFailed p child reason)
    then show ?thesis using none one by (auto simp: client_send_failed_def requested_def settles_def split: option.splits)
  next
    case (CvReceive m)
    then show ?thesis using none one by (auto simp: client_receive_def requested_def settles_def Let_def split: option.splits plane_message.splits)
  next
    case (CvEnded p)
    then show ?thesis using client_ended_counts [OF assms(1)] by simp
  qed
qed

lemma client_run_counts:
  "client_inv D c \<Longrightarrow> distinct (D @ concat (map requested es)) \<Longrightarrow> run_steps client_step es c = (outs, c') \<Longrightarrow>
   client_inv (D @ concat (map requested es)) c' \<and>
   length (filter (settles n) outs) + waits_on n c' = waits_on n c + (if length D \<le> n \<and> n < length (D @ concat (map requested es)) then 1 else 0)"
proof (induction es arbitrary: D c outs)
  case (Cons e es)
  obtain out c1 outs' where s: "client_step e c = (out, c1)" "run_steps client_step es c1 = (outs', c')" "outs = out @ outs'"
    by (rule run_steps_Cons [OF Cons.prems(3)])
  have d: "distinct (D @ requested e)" "distinct ((D @ requested e) @ concat (map requested es))" using Cons.prems(2) by auto
  have one: "client_inv (D @ requested e) c1"
    "length (filter (settles n) out) + waits_on n c1 = waits_on n c + (if requested e \<noteq> [] \<and> n = length D then 1 else 0)"
    using client_step_counts [OF Cons.prems(1) d(1), of n] by (simp_all add: s(1) client_counts_def)
  have "length (requested e) = (if requested e \<noteq> [] then 1 else 0)" by (simp add: requested_def split: client_event.splits)
  then show ?case using Cons.IH [OF one(1) d(2) s(2)] one(2) s(3) by (auto split: if_splits)
qed simp

text \<open>Every request a call makes on the hand, counted in the order they are made, is settled exactly once or still waits, whatever
  replies, aborts and failed sends come and in whatever order; when the call ends, none of its requests is left waiting, and none made
  afterwards is sent.\<close>

theorem nested_requests_settle_once:
  assumes "run_steps client_step es createPlaneClient = (outs, c)" "distinct (concat (map requested es))"
  shows "length (filter (settles n) outs) + waits_on n c = (if n < length (concat (map requested es)) then 1 else 0) \<and>
    (\<forall>p. let c' = snd (client_step (CvEnded p) c) in p \<notin> fst ` fst ` set (pl_waiting c') \<and>
       (\<forall>lane plane body aborted child. fst (client_step (CvRequest p lane plane body aborted child) c') = [CoReject (pl_asked c') ''parent_terminal'']))"
proof
  have "client_inv [] createPlaneClient" by (simp add: client_inv_def createPlaneClient_def)
  from client_run_counts [OF this _ assms(1), of n] assms(2)
  show "length (filter (settles n) outs) + waits_on n c = (if n < length (concat (map requested es)) then 1 else 0)"
    by (simp add: waits_on_def createPlaneClient_def)
qed (auto simp: client_parentEnded_def client_request_def Let_def image_iff)

section \<open>Messages\<close>

fun plane_ok :: "plane_message \<Rightarrow> bool" where
  "plane_ok (PlRequest p c plane _) \<longleftrightarrow> p \<noteq> [] \<and> c \<noteq> [] \<and> plane \<noteq> []"
| "plane_ok (PlAbort p c) \<longleftrightarrow> p \<noteq> [] \<and> c \<noteq> []"
| "plane_ok (PlReply p c _) \<longleftrightarrow> p \<noteq> [] \<and> c \<noteq> []"
| "plane_ok (PlRefused p c _) \<longleftrightarrow> p \<noteq> [] \<and> c \<noteq> []"

text \<open>The two ends agree on plane messages, and what the decoder takes has its ids; a message of the remote protocol is not one.\<close>

lemma decode_plane_value_encoded: "plane_ok m \<Longrightarrow> decode_plane_value (plane_value m) = Some m"
  by (cases m) (simp_all add: decode_plane_value_def isString_def Let_def)

lemma decode_plane_value_ok: "decode_plane_value v = Some m \<Longrightarrow> plane_ok m"
  by (auto simp: decode_plane_value_def isString_def Let_def split: if_splits)

lemma decode_plane_remote: "decode_plane_value (message_value m) = None"
proof -
  have k: "decode_plane_value v = None" if "fld (Some v) ''kind'' \<notin> set (map (Some \<circ> SStr) [''plane.request'', ''plane.abort'', ''plane.reply'', ''plane.refused''])" for v
    using that by (simp add: decode_plane_value_def Let_def)
  show ?thesis
  proof (cases m rule: message_value.cases)
    case (5 h)
    then show ?thesis by (cases h) (simp_all add: k)
  qed (simp_all add: k invoke_value_def file_value_def)
qed

section \<open>Runs\<close>

definition nested_events :: "nested_event list" where
  "nested_events = [NvLink (SvDispatch (read_call ''e1'') False), NvPlane ''s'' (PlRequest ''e1'' ''c1'' ''model'' SNull), NvPlane ''s'' (PlRequest ''e1'' ''c1'' ''model'' SNull),
     NvHandled 0 (Inr (SBool True)), NvPlane ''s'' (PlRequest ''e1'' ''c1'' ''model'' SNull), NvLink (SvFrame ''s'' (MReply (HandSettled ''e1'' SNull))),
     NvPlane ''s'' (PlRequest ''e1'' ''c1'' ''model'' SNull)]"

definition nested_outs :: "nested_out list" where
  "nested_outs = fst (run_steps (nested_step [] [''model'']) nested_events (new_plane_link None))"

theorem nested_requests_served_once_witness:
  "concat (map serves nested_outs) = [(''e1'', ''c1'')] \<and> length (filter (\<lambda>out. out = NoPlane (PoSend ''s'' (PlReply ''e1'' ''c1'' (SBool True)))) nested_outs) = 2 \<and>
   NoPlane (PoSend ''s'' (PlRefused ''e1'' ''c1'' ''parent_terminal'')) \<in> set nested_outs \<and> distinct (concat (map serves nested_outs))"
proof (intro conjI)
  have "distinct (concat (map brings_ids nested_events))" by code_simp
  then show "distinct (concat (map serves nested_outs))"
    using nested_requests_served_once [of "[]" "[''model'']" nested_events None nested_outs "snd (run_steps (nested_step [] [''model'']) nested_events (new_plane_link None))"]
    by (simp add: nested_outs_def)
qed code_simp+

definition asking_events :: "client_event list" where
  "asking_events = [CvRequestFor ''e1'', CvRequest ''e1'' ''s'' ''model'' SNull False ''c1'', CvRequest ''e1'' ''s'' ''model'' SNull False ''c2'',
     CvReceive (PlReply ''e1'' ''c1'' SNull), CvReceive (PlReply ''e1'' ''c1'' SNull), CvEnded ''e1'']"

theorem nested_requests_settle_once_witness:
  "length (filter (settles 0) (fst (run_steps client_step asking_events createPlaneClient))) = 1 \<and>
   length (filter (settles 1) (fst (run_steps client_step asking_events createPlaneClient))) = 1"
proof -
  let ?r = "run_steps client_step asking_events createPlaneClient"
  have d: "distinct (concat (map requested asking_events))" by code_simp
  have "waits_on 0 (snd ?r) = 0" "waits_on 1 (snd ?r) = 0" "length (concat (map requested asking_events)) = 2" by code_simp+
  with nested_requests_settle_once [of asking_events "fst ?r" "snd ?r" 0] nested_requests_settle_once [of asking_events "fst ?r" "snd ?r" 1] d
  show ?thesis by (simp split: if_splits)
qed

end
