(* ===== verification/Plane_Model.thy ===== *)
theory Plane_Model
  imports Plane_Requests
begin

text \<open>
  The model plane (execution/plane-model.ts): the completion a hand's tool asks the session for, with the decoder that keeps the named fields only, the
  handler and the hand's client.
\<close>

section \<open>Requests\<close>

definition MODEL_PLANE :: string where "MODEL_PLANE = ''model''"

record model_context =
  mx_systemPrompt :: "string option"
  mx_messages :: "store_value list"
  mx_tools :: "store_value list option"

record model_options =
  mo_maxTokens :: "number option"
  mo_temperature :: "number option"
  mo_reasoning :: "string option"

record model_plane_request =
  mp_model :: "(string \<times> string) option"
  mp_context :: model_context
  mp_options :: "model_options option"

definition REASONING :: "string list" where
  "REASONING = [''minimal'', ''low'', ''medium'', ''high'', ''xhigh'', ''max'']"

definition refuse_request :: "string \<Rightarrow> failure" where
  "refuse_request detail = PlaneRefusedError (''malformed_request: '' @ detail)"

definition decodeModel :: "store_value option \<Rightarrow> (failure, (string \<times> string) option) result" where
  "decodeModel v =
     (if v = None then Inr None
      else if \<not> isRecord v \<or> \<not> is_str (fld v ''provider'') \<or> \<not> is_str (fld v ''id'') then Inl (refuse_request ''model'')
      else Inr (Some (get_str (fld v ''provider''), get_str (fld v ''id''))))"

definition decodeContext :: "store_value option \<Rightarrow> (failure, model_context) result" where
  "decodeContext v =
     (let systemPrompt = fld v ''systemPrompt''; tools = fld v ''tools'' in
      if \<not> isRecord v \<or> \<not> is_list (fld v ''messages'') then Inl (refuse_request ''context'')
      else if systemPrompt \<noteq> None \<and> \<not> is_str systemPrompt then Inl (refuse_request ''systemPrompt'')
      else if tools \<noteq> None \<and> \<not> is_list tools then Inl (refuse_request ''tools'')
      else Inr \<lparr>mx_systemPrompt = map_option (\<lambda>x. get_str (Some x)) systemPrompt, mx_messages = get_list (fld v ''messages''),
        mx_tools = map_option (\<lambda>x. get_list (Some x)) tools\<rparr>)"

definition max_tokens_ok :: "number \<Rightarrow> bool" where
  "max_tokens_ok n \<longleftrightarrow> is_safe_integer n \<and> \<not> num_le n (Fin 0)"

definition decodeOptions :: "store_value option \<Rightarrow> (failure, model_options option) result" where
  "decodeOptions v =
     (let maxTokens = fld v ''maxTokens''; temperature = fld v ''temperature''; reasoning = fld v ''reasoning'' in
      if v = None then Inr None
      else if \<not> isRecord v then Inl (refuse_request ''options'')
      else if maxTokens \<noteq> None \<and> (\<not> is_num maxTokens \<or> \<not> max_tokens_ok (get_num maxTokens)) then Inl (refuse_request ''maxTokens'')
      else if temperature \<noteq> None \<and> (\<not> is_num temperature \<or> \<not> is_finite (get_num temperature)) then Inl (refuse_request ''temperature'')
      else if reasoning \<noteq> None \<and> (\<not> is_str reasoning \<or> get_str reasoning \<notin> set REASONING) then Inl (refuse_request ''reasoning'')
      else Inr (Some \<lparr>mo_maxTokens = map_option (\<lambda>x. get_num (Some x)) maxTokens, mo_temperature = map_option (\<lambda>x. get_num (Some x)) temperature,
        mo_reasoning = map_option (\<lambda>x. get_str (Some x)) reasoning\<rparr>))"

definition decodeModelPlaneRequest :: "store_value \<Rightarrow> (failure, model_plane_request) result" where
  "decodeModelPlaneRequest body =
     (if \<not> isRecord (Some body) then Inl (refuse_request ''body'')
      else case decodeModel (fld (Some body) ''model'') of
        Inl e \<Rightarrow> Inl e
      | Inr model \<Rightarrow> (case decodeOptions (fld (Some body) ''options'') of
          Inl e \<Rightarrow> Inl e
        | Inr options \<Rightarrow> (case decodeContext (fld (Some body) ''context'') of
            Inl e \<Rightarrow> Inl e
          | Inr context \<Rightarrow> Inr \<lparr>mp_model = model, mp_context = context, mp_options = options\<rparr>)))"

text \<open>The handler; \<open>completion\<close> is the session's own completion.\<close>

definition serveModelPlane :: "(model_plane_request \<Rightarrow> (failure, store_value) result) \<Rightarrow> store_value \<Rightarrow> (failure, store_value) result" where
  "serveModelPlane completion body =
     (case decodeModelPlaneRequest body of
        Inl e \<Rightarrow> Inl e
      | Inr request \<Rightarrow> (case completion request of Inl e \<Rightarrow> Inl e | Inr message \<Rightarrow> Inr (json_normal message)))"

definition context_value :: "model_context \<Rightarrow> store_value" where
  "context_value c = SObj (opt_field ''systemPrompt'' (map_option SStr (mx_systemPrompt c)) @ [(''messages'', SList (mx_messages c))] @
     opt_field ''tools'' (map_option SList (mx_tools c)))"

definition options_value :: "model_options \<Rightarrow> store_value" where
  "options_value p = SObj (opt_field ''maxTokens'' (map_option SNum (mo_maxTokens p)) @ opt_field ''temperature'' (map_option SNum (mo_temperature p)) @
     opt_field ''reasoning'' (map_option SStr (mo_reasoning p)))"

definition model_request_value :: "model_plane_request \<Rightarrow> store_value" where
  "model_request_value r = SObj (opt_field ''model'' (map_option (\<lambda>(p, i). SObj [(''provider'', SStr p), (''id'', SStr i)]) (mp_model r)) @
     [(''context'', context_value (mp_context r))] @ opt_field ''options'' (map_option options_value (mp_options r)))"

definition model_plane_complete :: "(string \<Rightarrow> store_value \<Rightarrow> (failure, store_value) result) \<Rightarrow> model_plane_request \<Rightarrow> (failure, store_value) result" where
  "model_plane_complete nested request =
     (case nested MODEL_PLANE (json_normal (model_request_value request)) of
        Inl e \<Rightarrow> Inl e
      | Inr reply \<Rightarrow>
          if \<not> isRecord (Some reply) \<or> fld (Some reply) ''role'' \<noteq> Some (SStr ''assistant'') \<or> \<not> is_list (fld (Some reply) ''content'')
          then Inl (PlaneRefusedError ''malformed_reply'') else Inr reply)"

section \<open>What the session takes from a request\<close>

definition options_ok :: "model_options \<Rightarrow> bool" where
  "options_ok p \<longleftrightarrow> pred_option max_tokens_ok (mo_maxTokens p) \<and> pred_option is_finite (mo_temperature p) \<and> pred_option (\<lambda>x. x \<in> set REASONING) (mo_reasoning p)"

definition context_normal :: "model_context \<Rightarrow> model_context" where
  "context_normal c = c\<lparr>mx_messages := map json_normal (mx_messages c), mx_tools := map_option (map json_normal) (mx_tools c)\<rparr>"

lemma max_tokens_finite: "max_tokens_ok n \<Longrightarrow> is_finite n"
  by (cases n) (auto simp: max_tokens_ok_def)

lemma decode_context_value: "decodeContext (Some (json_normal (context_value c))) = Inr (context_normal c)"
  by (cases "mx_systemPrompt c"; cases "mx_tools c") (simp_all add: decodeContext_def context_value_def context_normal_def opt_field_def Let_def)

lemma decode_options_value:
  assumes "options_ok p"
  shows "decodeOptions (Some (json_normal (options_value p))) = Inr (Some p)"
  using assms max_tokens_finite
  by (cases "mo_maxTokens p"; cases "mo_temperature p"; cases "mo_reasoning p") (simp_all add: decodeOptions_def options_value_def options_ok_def opt_field_def Let_def)

text \<open>A request arrives as it was sent, with its messages and tools as JSON carries them.\<close>

lemma model_request_roundtrip:
  assumes "pred_option options_ok (mp_options r)"
  shows "decodeModelPlaneRequest (json_normal (model_request_value r)) = Inr (r\<lparr>mp_context := context_normal (mp_context r)\<rparr>)"
  using assms decode_options_value decode_context_value [of "mp_context r"]
  by (cases "mp_model r"; cases "mp_options r")
     (auto simp: decodeModelPlaneRequest_def model_request_value_def opt_field_def decodeModel_def decodeOptions_def Let_def split: prod.splits)

text \<open>Nothing but the named fields reaches the session: the body may be replaced by one with these fields only, and the values in them are checked.\<close>

lemma decode_options_ok: "decodeOptions v = Inr (Some p) \<Longrightarrow> options_ok p"
  by (auto simp: decodeOptions_def options_ok_def Let_def pred_option_def split: if_splits option.splits)

lemma decode_request_ok: "decodeModelPlaneRequest body = Inr r \<Longrightarrow> pred_option options_ok (mp_options r)"
  by (auto simp: decodeModelPlaneRequest_def pred_option_def dest: decode_options_ok split: if_splits sum.splits)

lemma decode_request_value: "pred_option options_ok (mp_options r) \<Longrightarrow> decodeModelPlaneRequest (model_request_value r) = Inr r"
proof -
  assume ok: "pred_option options_ok (mp_options r)"
  have "decodeContext (Some (context_value c)) = Inr c" for c
    by (cases "mx_systemPrompt c"; cases "mx_tools c") (simp_all add: decodeContext_def context_value_def opt_field_def Let_def)
  moreover have "decodeOptions (Some (options_value p)) = Inr (Some p)" if "options_ok p" for p
    using that by (cases "mo_maxTokens p"; cases "mo_temperature p"; cases "mo_reasoning p") (simp_all add: decodeOptions_def options_value_def options_ok_def opt_field_def Let_def)
  ultimately show ?thesis using ok
    by (cases "mp_model r"; cases "mp_options r")
       (auto simp: decodeModelPlaneRequest_def model_request_value_def opt_field_def decodeModel_def decodeOptions_def [of None] Let_def split: prod.splits)
qed

lemma model_plane_named_fields_only:
  assumes "decodeModelPlaneRequest body = Inr r"
  shows "serveModelPlane completion body = serveModelPlane completion (model_request_value r)"
  using assms decode_request_value [OF decode_request_ok [OF assms]] by (simp add: serveModelPlane_def)

end
