(* ===== verification/Remote_Host.thy ===== *)
theory Remote_Host
  imports Remote_Link
begin

text \<open>
  The tool host that runs a batch of calls on a hand (execution/remote-tool-host.ts): what a reply of the link becomes as a tool
  result, and \<open>execute\<close>, which dispatches the calls in order, all at once or one after the other, and turns their results into messages in
  the order of the calls. The process is cut where it awaits: the start event of a call, the outcomes, and their end.
\<close>

section \<open>Results\<close>

datatype hand_placement = SplitLocal | CrossMachine

definition TOOL_RESULT_PLACEHOLDER :: string where
  "TOOL_RESULT_PLACEHOLDER = ''Tool output unavailable (context compacted)''"

definition text_result :: "string \<Rightarrow> store_value obj \<Rightarrow> bool \<Rightarrow> store_value" where
  "text_result message details isError = SObj [(''content'', SList [SObj [(''type'', SStr ''text''), (''text'', SStr message)]]),
     (''details'', SObj details), (''isError'', SBool isError)]"

definition errorResult :: "string \<Rightarrow> store_value" where
  "errorResult message = text_result message [] True"

definition terminalResult :: "hand_placement \<Rightarrow> end_reason \<Rightarrow> bool \<Rightarrow> bool \<Rightarrow> store_value" where
  "terminalResult placement reason uncertain hooksRan =
     (case placement of
        SplitLocal \<Rightarrow> text_result TOOL_RESULT_PLACEHOLDER [] False
      | CrossMachine \<Rightarrow>
          text_result (''The tool call ended without a result ('' @ reason_name reason @ '') and was not run again. '' @
              (if uncertain then ''Its effects are uncertain.'' else ''It had no effect.''))
            [(''outcome'', SStr (reason_name reason)), (''uncertain'', SBool uncertain), (''hooksRan'', SBool hooksRan)] True)"

fun resultOf :: "hand_placement \<Rightarrow> hand_reply \<Rightarrow> store_value" where
  "resultOf placement (RSettled result) = result"
| "resultOf placement (RTerminal reason uncertain hooksRan) = terminalResult placement reason uncertain hooksRan"
| "resultOf placement (RRefused reason) = errorResult (''The hand refused this tool call: '' @ reason)"
| "resultOf placement (RAborted sent) = errorResult (if sent then ''Tool execution aborted'' else ''Operation aborted'')"
| "resultOf placement (RUnreachable reason) = errorResult (''The hand is unreachable: '' @ reason)"
| "resultOf placement RClosed = errorResult ''The hand link was closed before the call settled''"
| "resultOf placement (REpochRefused reason) = errorResult (''The hand refused this session's epoch: '' @ reason)"

section \<open>A batch\<close>

record tool_call =
  tc_id :: string
  tc_name :: string
  tc_arguments :: "store_value option"

record host_call =
  hc_scopeId :: string
  hc_scopeRoot :: string
  hc_calls :: "tool_call list"
  hc_sequential :: bool
  hc_sessionRef :: "string option"
  hc_placement :: hand_placement
  hc_batchId :: string

record tool_message =
  tm_toolCallId :: string
  tm_toolName :: string
  tm_content :: "store_value option"
  tm_details :: "store_value option"
  tm_added :: "store_value list"
  tm_isError :: bool

datatype host_phase = HbStarting | HbAwaiting | HbAll | HbDone "tool_message list" bool

text \<open>How far the loop is, the outcomes of the calls dispatched so far, and where it waits.\<close>

record host_batch =
  hb_ids :: "string list"
  hb_outcomes :: "store_value option list"
  hb_phase :: host_phase









datatype host_event = HvStarted string | HvOutcome nat hand_reply bool


section \<open>Results come in the order of the calls\<close>

text \<open>\<open>E\<close>: the events of the run.\<close>

definition cut_short :: "host_call \<Rightarrow> host_event set \<Rightarrow> host_batch \<Rightarrow> bool" where
  "cut_short c E b \<longleftrightarrow> length (hb_ids b) = length (hc_calls c) \<or> (hc_sequential c \<and> (\<exists>i r. HvOutcome i r True \<in> E))"

definition outcomes_ok :: "host_call \<Rightarrow> host_event set \<Rightarrow> host_batch \<Rightarrow> bool" where
  "outcomes_ok c E b \<longleftrightarrow> length (hb_outcomes b) = length (hb_ids b) \<and> length (hb_ids b) \<le> length (hc_calls c) \<and>
     (\<forall>i < length (hb_outcomes b). \<forall>r. hb_outcomes b ! i = Some r \<longrightarrow> (\<exists>reply a. HvOutcome i reply a \<in> E \<and> r = resultOf (hc_placement c) reply)) \<and>
     (hc_sequential c \<longrightarrow> (\<forall>i. Suc i < length (hb_outcomes b) \<longrightarrow> hb_outcomes b ! i \<noteq> None))"

definition all_there :: "host_batch \<Rightarrow> bool" where
  "all_there b \<longleftrightarrow> list_all (\<lambda>r. r \<noteq> None) (hb_outcomes b)"



lemma outcomes_ok_phase [simp]: "outcomes_ok c E (b\<lparr>hb_phase := ph\<rparr>) = outcomes_ok c E b"
  "cut_short c E (b\<lparr>hb_phase := ph\<rparr>) = cut_short c E b" "all_there (b\<lparr>hb_phase := ph\<rparr>) = all_there b"
  by (simp_all add: outcomes_ok_def cut_short_def all_there_def)











end
