(* ===== verification/Split_Host.thy ===== *)
theory Split_Host
  imports Remote_Host Batch_Plan Plane_Requests
begin

text \<open>
  The tool host of a split session (execution/plane-session.ts): which tools run where the loop runs, the session plane a hand's tool asks, and the batch
  of calls for both sides, cut into stages, run, and put together again in the order of the model. The two hosts answer through the
  arguments: what they emit, in which order, and their results.
\<close>

section \<open>The session plane\<close>

definition SESSION_PLANE :: string where "SESSION_PLANE = ''session''"

text \<open>\<open>isRecord\<close> of this file: an object that is not an array.\<close>

fun is_object :: "store_value option \<Rightarrow> bool" where
  "is_object (Some (SObj _)) = True"
| "is_object _ = False"

record session_plane_request =
  sp_tool :: string
  sp_arguments :: store_value

definition decodeSessionPlaneRequest :: "store_value \<Rightarrow> (failure, session_plane_request) result" where
  "decodeSessionPlaneRequest body =
     (if \<not> is_object (Some body) \<or> \<not> isString (fld (Some body) ''tool'') then Inl (PlaneRefusedError ''malformed_request: tool'')
      else if \<not> is_object (fld (Some body) ''arguments'') then Inl (PlaneRefusedError ''malformed_request: arguments'')
      else Inr \<lparr>sp_tool = get_str (fld (Some body) ''tool''), sp_arguments = the (fld (Some body) ''arguments'')\<rparr>)"

text \<open>\<open>runs\<close> of a tool: declared for the brain, for a hand, or not declared.\<close>

datatype runs_on = RunsBrain | RunsHand

definition loopSideToolNames :: "(string \<times> runs_on option) list \<Rightarrow> string set" where
  "loopSideToolNames tools = set (map fst (filter (\<lambda>(_, runs). runs = Some RunsBrain) tools))"

text \<open>The handler of the plane; \<open>run\<close> is the session's own tool run.\<close>

definition serveSessionPlane :: "string set \<Rightarrow> (session_plane_request \<Rightarrow> (failure, store_value) result) \<Rightarrow> store_value \<Rightarrow> (failure, store_value) result" where
  "serveSessionPlane loopSide run body =
     (case decodeSessionPlaneRequest body of
        Inl e \<Rightarrow> Inl e
      | Inr request \<Rightarrow>
          if sp_tool request \<notin> loopSide then Inl (ErrorMessage (''not_loop_side: '' @ sp_tool request))
          else (case run request of Inl e \<Rightarrow> Inl e | Inr result \<Rightarrow> Inr (json_normal result)))"

definition request_body :: "session_plane_request \<Rightarrow> store_value" where
  "request_body request = SObj [(''tool'', SStr (sp_tool request)), (''arguments'', sp_arguments request)]"

text \<open>The hand's client of the plane; \<open>nested\<close> is the running call's nested request.\<close>

definition session_plane_call :: "(string \<Rightarrow> store_value \<Rightarrow> (failure, store_value) result) \<Rightarrow> session_plane_request \<Rightarrow> (failure, store_value) result" where
  "session_plane_call nested request =
     (case nested SESSION_PLANE (json_normal (request_body request)) of
        Inl e \<Rightarrow> Inl e
      | Inr reply \<Rightarrow> if \<not> is_object (Some reply) \<or> \<not> is_list (fld (Some reply) ''content'') then Inl (PlaneRefusedError ''malformed_reply'') else Inr reply)"

section \<open>Stages\<close>

datatype side = LoopSide | HandSide

record segment =
  sg_side :: side
  sg_calls :: "tool_call list"

text \<open>A stage lists its segments by their number; the segment objects are shared by \<open>stages\<close> and \<open>segments\<close>.\<close>

record staging =
  st_stages :: "nat list list"
  st_segments :: "segment list"
  st_owner :: "nat list"
  st_open :: bool

definition stage_call :: "(tool_call \<Rightarrow> side) \<Rightarrow> (tool_call \<Rightarrow> bool) \<Rightarrow> bool \<Rightarrow> tool_call \<Rightarrow> staging \<Rightarrow> staging" where
  "stage_call sideOf isSequential parallel call st =
     (let side = sideOf call;
          barrier = (parallel \<and> isSequential call);
          segments = st_segments st;
          joinable = (st_open st \<and> \<not> barrier \<and> st_stages st \<noteq> [] \<and>
            (parallel \<or> (case last (st_stages st) of [] \<Rightarrow> False | n # _ \<Rightarrow> sg_side (segments ! n) = side)));
          stages = (if joinable then st_stages st else st_stages st @ [[]]);
          current = last stages in
      case List.find (\<lambda>n. sg_side (segments ! n) = side) current of
        Some n \<Rightarrow> st\<lparr>st_stages := stages, st_segments := segments[n := (segments ! n)\<lparr>sg_calls := sg_calls (segments ! n) @ [call]\<rparr>],
            st_owner := st_owner st @ [n], st_open := \<not> barrier\<rparr>
      | None \<Rightarrow> st\<lparr>st_stages := butlast stages @ [current @ [length segments]], st_segments := segments @ [\<lparr>sg_side = side, sg_calls = [call]\<rparr>],
            st_owner := st_owner st @ [length segments], st_open := \<not> barrier\<rparr>)"

definition stagesOf :: "tool_call list \<Rightarrow> (tool_call \<Rightarrow> side) \<Rightarrow> (tool_call \<Rightarrow> bool) \<Rightarrow> bool \<Rightarrow> staging" where
  "stagesOf calls sideOf isSequential parallel =
     foldl (\<lambda>st call. stage_call sideOf isSequential parallel call st) \<lparr>st_stages = [], st_segments = [], st_owner = [], st_open = False\<rparr> calls"

section \<open>Results by call id\<close>









section \<open>A batch\<close>










section \<open>Stages keep the order of the batch\<close>

definition own_calls :: "nat \<Rightarrow> (tool_call \<times> nat) list \<Rightarrow> tool_call list" where
  "own_calls n cs = map fst (filter (\<lambda>(_, m). m = n) cs)"

lemma own_calls_simps [simp]: "own_calls n [] = []" "own_calls n ((c, m) # cs) = (if m = n then c # own_calls n cs else own_calls n cs)"
  "own_calls n (cs @ ds) = own_calls n cs @ own_calls n ds"
  by (simp_all add: own_calls_def)

text \<open>Every call is in exactly one segment, of its own side; the segments are numbered in the order of the stages.\<close>

definition staging_ok :: "(tool_call \<Rightarrow> side) \<Rightarrow> tool_call list \<Rightarrow> staging \<Rightarrow> bool" where
  "staging_ok sideOf calls st \<longleftrightarrow> length (st_owner st) = length calls \<and> set (st_owner st) \<subseteq> {..<length (st_segments st)} \<and>
     concat (st_stages st) = [0..<length (st_segments st)] \<and>
     (\<forall>n < length (st_segments st). sg_calls (st_segments st ! n) = own_calls n (zip calls (st_owner st)) \<and>
        (\<forall>c \<in> set (sg_calls (st_segments st ! n)). sideOf c = sg_side (st_segments st ! n)))"

lemma stagesOf_snoc: "stagesOf (calls @ [c]) sideOf isSequential parallel = stage_call sideOf isSequential parallel c (stagesOf calls sideOf isSequential parallel)"
  by (simp add: stagesOf_def)

lemma concat_last_snoc: "xs \<noteq> [] \<Longrightarrow> concat (butlast xs @ [last xs @ ys]) = concat xs @ ys"
  by (induction xs) auto

text \<open>The two things that can happen to a call: it joins a segment of the last stage, or it starts one, in the last stage or in a new one.\<close>

definition joins :: "(tool_call \<Rightarrow> side) \<Rightarrow> (tool_call \<Rightarrow> bool) \<Rightarrow> bool \<Rightarrow> tool_call \<Rightarrow> staging \<Rightarrow> bool" where
  "joins sideOf isSequential parallel call st \<longleftrightarrow> st_open st \<and> \<not> (parallel \<and> isSequential call) \<and> st_stages st \<noteq> [] \<and>
     (parallel \<or> (case last (st_stages st) of [] \<Rightarrow> False | n # _ \<Rightarrow> sg_side (st_segments st ! n) = sideOf call))"

lemma stage_call_cases:
  obtains (joined) n where "joins sideOf isSequential parallel call st" "n \<in> set (last (st_stages st))" "sg_side (st_segments st ! n) = sideOf call"
      "stage_call sideOf isSequential parallel call st = st\<lparr>st_segments := (st_segments st)[n := (st_segments st ! n)\<lparr>sg_calls := sg_calls (st_segments st ! n) @ [call]\<rparr>],
         st_owner := st_owner st @ [n], st_open := \<not> (parallel \<and> isSequential call)\<rparr>"
  | (started) stages where "stages = (if joins sideOf isSequential parallel call st then st_stages st else st_stages st @ [[]])"
      "stage_call sideOf isSequential parallel call st = st\<lparr>st_stages := butlast stages @ [last stages @ [length (st_segments st)]],
         st_segments := st_segments st @ [\<lparr>sg_side = sideOf call, sg_calls = [call]\<rparr>],
         st_owner := st_owner st @ [length (st_segments st)], st_open := \<not> (parallel \<and> isSequential call)\<rparr>"
proof (cases "List.find (\<lambda>n. sg_side (st_segments st ! n) = sideOf call) (last (if joins sideOf isSequential parallel call st then st_stages st else st_stages st @ [[]]))")
  case None
  show thesis
    by (rule started [OF refl]) (use None in \<open>simp add: stage_call_def joins_def Let_def split: if_splits\<close>)
next
  case (Some n)
  then have j: "joins sideOf isSequential parallel call st" by (auto split: if_splits)
  with Some have "n \<in> set (last (st_stages st))" "sg_side (st_segments st ! n) = sideOf call" by (auto simp: find_Some_iff)
  then show thesis
    by (rule joined [OF j]) (use Some j in \<open>auto simp: stage_call_def joins_def Let_def\<close>)
qed

lemma staging_ok_stages: "staging_ok sideOf calls st \<Longrightarrow> st_stages st \<noteq> [] \<Longrightarrow> n \<in> set (last (st_stages st)) \<Longrightarrow> n < length (st_segments st)"
proof -
  assume a: "staging_ok sideOf calls st" "st_stages st \<noteq> []" "n \<in> set (last (st_stages st))"
  then have "n \<in> set (concat (st_stages st))" by auto
  also have "concat (st_stages st) = [0..<length (st_segments st)]" using a(1) by (simp add: staging_ok_def)
  finally show ?thesis by simp
qed

lemma own_calls_none: "set ns \<subseteq> {..<m} \<Longrightarrow> own_calls m (zip cs ns) = []"
  by (auto simp: own_calls_def filter_empty_conv dest!: set_zip_rightD)

lemma stage_call_ok:
  assumes "staging_ok sideOf calls st"
  shows "staging_ok sideOf (calls @ [c]) (stage_call sideOf isSequential parallel c st)"
proof (cases rule: stage_call_cases [of sideOf isSequential parallel c st])
  case (joined n)
  have "n < length (st_segments st)" using staging_ok_stages [OF assms _ joined(2)] joined(1) by (simp add: joins_def)
  then show ?thesis using assms joined(3) unfolding joined(4) staging_ok_def by (auto simp: nth_list_update)
next
  case (started stages)
  have "stages \<noteq> []" "concat stages = concat (st_stages st)" using started(1) by (auto simp: joins_def)
  then have "concat (butlast stages @ [last stages @ [length (st_segments st)]]) = concat (st_stages st) @ [length (st_segments st)]"
    using concat_last_snoc by metis
  moreover have "own_calls (length (st_segments st)) (zip calls (st_owner st)) = []" using assms by (auto simp: staging_ok_def intro: own_calls_none)
  ultimately show ?thesis using assms unfolding started(2) staging_ok_def by (auto simp: nth_append less_Suc_eq)
qed

lemma stagesOf_ok: "staging_ok sideOf calls (stagesOf calls sideOf isSequential parallel)"
proof (induction calls rule: rev_induct)
  case Nil
  show ?case by (simp add: stagesOf_def staging_ok_def)
next
  case (snoc c calls)
  then show ?case unfolding stagesOf_snoc by (rule stage_call_ok)
qed

text \<open>The stage of a segment.\<close>

definition in_stage :: "nat list list \<Rightarrow> nat \<Rightarrow> nat \<Rightarrow> bool" where
  "in_stage stages t n \<longleftrightarrow> t < length stages \<and> n \<in> set (stages ! t)"

lemma in_stage_unique: "distinct (concat stages) \<Longrightarrow> in_stage stages t n \<Longrightarrow> in_stage stages u n \<Longrightarrow> t = u"
proof (induction stages arbitrary: t u)
  case (Cons x xs)
  then show ?case by (cases t; cases u) (auto simp: in_stage_def, (metis UN_I disjoint_iff nth_mem)+)
qed (simp add: in_stage_def)

lemma in_stage_exists: "n \<in> set (concat stages) \<Longrightarrow> \<exists>t. in_stage stages t n"
  by (simp add: in_stage_def) (metis in_set_conv_nth)

lemma in_stage_last: "stages \<noteq> [] \<Longrightarrow> n \<in> set (last stages) \<Longrightarrow> in_stage stages (length stages - 1) n"
  by (simp add: in_stage_def last_conv_nth)

lemma in_stage_grown:
  assumes "stages \<noteq> []" "n \<noteq> m"
  shows "in_stage (butlast stages @ [last stages @ [m]]) t n \<longleftrightarrow> in_stage stages t n"
proof -
  have "stages = butlast stages @ [last stages]" using assms(1) by simp
  then obtain xs x where s: "stages = xs @ [x]" by blast
  show ?thesis using assms(2) by (auto simp: s in_stage_def nth_append less_Suc_eq)
qed

lemma in_stage_new: "in_stage (stages @ [[]]) t n \<longleftrightarrow> in_stage stages t n"
  by (auto simp: in_stage_def nth_append less_Suc_eq)

text \<open>After some calls of a parallel batch: the last call is in the last stage, and a call is in a later stage than an earlier one exactly when
  it has to wait for it.\<close>

abbreviation call_stage :: "staging \<Rightarrow> nat \<Rightarrow> nat \<Rightarrow> bool" where
  "call_stage st i t \<equiv> in_stage (st_stages st) t (st_owner st ! i)"

definition stages_ordered :: "bool list \<Rightarrow> staging \<Rightarrow> bool" where
  "stages_ordered ss st \<longleftrightarrow>
     (ss \<noteq> [] \<longrightarrow> call_stage st (length ss - 1) (length (st_stages st) - 1)) \<and> (st_open st \<longleftrightarrow> ss \<noteq> [] \<and> \<not> last ss) \<and>
     (\<forall>i j t u. j < i \<and> i < length ss \<and> call_stage st i t \<and> call_stage st j u \<longrightarrow> u \<le> t \<and> (u < t \<longleftrightarrow> waits ss i j))"

lemma stages_orderedD:
  assumes "stages_ordered ss st"
  shows "ss \<noteq> [] \<Longrightarrow> call_stage st (length ss - 1) (length (st_stages st) - 1)"
    and "st_open st \<longleftrightarrow> ss \<noteq> [] \<and> \<not> last ss"
    and "j < i \<Longrightarrow> i < length ss \<Longrightarrow> call_stage st i t \<Longrightarrow> call_stage st j u \<Longrightarrow> u \<le> t \<and> (u < t \<longleftrightarrow> waits ss i j)"
  using assms unfolding stages_ordered_def by blast+

lemma waits_append:
  assumes "i < length ss"
  shows "waits (ss @ [s]) i j = waits ss i j"
proof -
  have "(ss @ [s]) ! k = ss ! k" if "k \<le> i" for k using assms that by (simp add: nth_append)
  then show ?thesis unfolding waits_def by (metis order.strict_implies_order order_refl)
qed

lemma waits_last: "waits (ss @ [s]) (length ss) j \<longleftrightarrow> j < length ss \<and> (s \<or> (\<exists>k. j \<le> k \<and> k < length ss \<and> ss ! k))"
proof -
  have "(ss @ [s]) ! k = ss ! k" if "k < length ss" for k using that by (simp add: nth_append)
  then show ?thesis unfolding waits_def by (metis nth_append_length)
qed

lemma stages_ordered_step:
  assumes ord: "stages_ordered ss st" and ok: "staging_ok sideOf calls st" "length ss = length calls"
    and new: "distinct (concat stages')" "in_stage stages' (length stages' - 1) n'"
    and old: "\<And>t n. n < length (st_segments st) \<Longrightarrow> in_stage stages' t n \<longleftrightarrow> in_stage (st_stages st) t n"
    and len: "length stages' = (if st_open st \<and> \<not> s then length (st_stages st) else Suc (length (st_stages st)))"
    and st': "st_stages st' = stages'" "st_owner st' = st_owner st @ [n']" "st_open st' \<longleftrightarrow> \<not> s"
  shows "stages_ordered (ss @ [s]) st'"
proof -
  have own: "st_owner st ! i < length (st_segments st)" if "i < length ss" for i using ok that by (auto simp: staging_ok_def subset_iff)
  have lo: "length (st_owner st) = length ss" using ok by (simp add: staging_ok_def)
  have dist: "distinct (concat (st_stages st))" using ok(1) by (simp add: staging_ok_def)
  have sub: "call_stage st' i t \<longleftrightarrow> call_stage st i t" if "i < length ss" for i t
    using old [OF own [OF that]] that by (simp add: st' nth_append lo)
  have top: "call_stage st' (length ss) t \<longleftrightarrow> t = length stages' - 1" for t
    using new in_stage_unique [OF new(1)] by (auto simp: st' nth_append lo)
  have last: "u \<le> length stages' - 1 \<and> (u < length stages' - 1 \<longleftrightarrow> waits (ss @ [s]) (length ss) j)"
    if j: "j < length ss" and u: "call_stage st j u" for j u
  proof (cases "st_open st \<and> \<not> s")
    case True
    let ?m = "length ss - 1"
    have "ss \<noteq> []" using j by auto
    then have m: "call_stage st ?m (length (st_stages st) - 1)" "\<not> ss ! ?m" using stages_orderedD(1,2) [OF ord] True by (simp_all add: last_conv_nth)
    have "k < length ss \<longleftrightarrow> k < ?m \<or> k = ?m" for k using j by auto
    then have e: "(\<exists>k. j \<le> k \<and> k < length ss \<and> ss ! k) \<longleftrightarrow> (\<exists>k. j \<le> k \<and> k < ?m \<and> ss ! k)" using m(2) by metis
    have f: "(\<exists>k. j \<le> k \<and> k < ?m \<and> ss ! k) \<Longrightarrow> j < ?m" by (elim exE conjE) (rule le_less_trans)
    have "waits (ss @ [s]) (length ss) j \<longleftrightarrow> (\<exists>k. j \<le> k \<and> k < ?m \<and> ss ! k)" unfolding waits_last e using j True by simp
    moreover have "waits ss ?m j \<longleftrightarrow> j < ?m \<and> (\<exists>k. j \<le> k \<and> k < ?m \<and> ss ! k)" unfolding waits_def using m(2) by simp
    ultimately have w: "waits (ss @ [s]) (length ss) j \<longleftrightarrow> j < ?m \<and> waits ss ?m j" using f by blast
    show ?thesis
    proof (cases "j = ?m")
      case True': True
      then have "u = length (st_stages st) - 1" using in_stage_unique [OF dist u] m(1) by simp
      then show ?thesis using w len True True' by simp
    next
      case False
      then have "j < ?m" "?m < length ss" using j by simp_all
      from stages_orderedD(3) [OF ord this m(1) u] have "u \<le> length (st_stages st) - 1 \<and> (u < length (st_stages st) - 1 \<longleftrightarrow> waits ss ?m j)" .
      then show ?thesis using w len True \<open>j < ?m\<close> by simp
    qed
  next
    case False
    then have "s \<or> ss ! (length ss - 1)" using stages_orderedD(2) [OF ord] j last_conv_nth [of ss] by fastforce
    moreover have "j \<le> length ss - 1" "length ss - 1 < length ss" using j by simp_all
    ultimately have "waits (ss @ [s]) (length ss) j" using j unfolding waits_last by blast
    then show ?thesis using u len False by (auto simp: in_stage_def)
  qed
  show ?thesis unfolding stages_ordered_def
  proof (intro conjI allI impI)
    show "call_stage st' (length (ss @ [s]) - 1) (length (st_stages st') - 1)" using top by (simp add: st')
    show "st_open st' \<longleftrightarrow> ss @ [s] \<noteq> [] \<and> \<not> last (ss @ [s])" by (simp add: st')
  next
    fix i j t u assume a: "j < i \<and> i < length (ss @ [s]) \<and> call_stage st' i t \<and> call_stage st' j u"
    have "u \<le> t \<and> (u < t \<longleftrightarrow> waits (ss @ [s]) i j)"
    proof (cases "i = length ss")
      case True
      then show ?thesis using a last [of j u] top [of t] sub [of j u] by simp
    next
      case False
      then have "i < length ss" "j < length ss" using a by auto
      then show ?thesis using a sub [of i t] sub [of j u] stages_orderedD(3) [OF ord, of j i t u] waits_append [of i ss s j] by blast
    qed
    then show "u \<le> t" "u < t \<longleftrightarrow> waits (ss @ [s]) i j" by blast+
  qed
qed

lemma stage_call_ordered:
  assumes "stages_ordered (map isSequential calls) st" "staging_ok sideOf calls st"
  shows "stages_ordered (map isSequential (calls @ [c])) (stage_call sideOf isSequential True c st)"
proof -
  have ok': "staging_ok sideOf (calls @ [c]) (stage_call sideOf isSequential True c st)" by (rule stage_call_ok [OF assms(2)])
  then have dist: "distinct (concat (st_stages (stage_call sideOf isSequential True c st)))" by (simp add: staging_ok_def)
  have ne: "st_stages st \<noteq> []" if "st_open st"
    using that stages_orderedD(1,2) [OF assms(1)] by (auto simp: in_stage_def)
  have "stages_ordered (map isSequential calls @ [isSequential c]) (stage_call sideOf isSequential True c st)"
  proof (cases rule: stage_call_cases [of sideOf isSequential True c st])
    case (joined n)
    show ?thesis
      by (rule stages_ordered_step [OF assms, of "st_stages st" n])
        (use joined dist in_stage_last in \<open>auto simp: joins_def\<close>)
  next
    case (started stages)
    have s: "stages \<noteq> []" using started(1) by (auto simp: joins_def)
    show ?thesis
    proof (rule stages_ordered_step [OF assms])
      show "distinct (concat (butlast stages @ [last stages @ [length (st_segments st)]]))" using dist by (simp add: started(2))
      show "in_stage (butlast stages @ [last stages @ [length (st_segments st)]]) (length (butlast stages @ [last stages @ [length (st_segments st)]]) - 1) (length (st_segments st))"
        by (rule in_stage_last) simp_all
      show "in_stage (butlast stages @ [last stages @ [length (st_segments st)]]) t n = in_stage (st_stages st) t n" if "n < length (st_segments st)" for t n
        using that in_stage_grown [OF s, of n "length (st_segments st)" t] in_stage_new started(1) by (auto split: if_splits)
      show "length (butlast stages @ [last stages @ [length (st_segments st)]]) = (if st_open st \<and> \<not> isSequential c then length (st_stages st) else Suc (length (st_stages st)))"
        using started(1) ne s by (auto simp: joins_def split: if_splits)
    qed (simp_all add: started(2))
  qed
  then show ?thesis by simp
qed

lemma stagesOf_ordered: "stages_ordered (map isSequential calls) (stagesOf calls sideOf isSequential True)"
proof (induction calls rule: rev_induct)
  case Nil
  show ?case by (simp add: stagesOf_def stages_ordered_def)
next
  case (snoc c calls)
  then show ?case unfolding stagesOf_snoc by (rule stage_call_ordered [OF _ stagesOf_ok])
qed

text \<open>The dependencies of a batch, and what they amount to.\<close>

definition dependency :: "bool list \<Rightarrow> (nat \<times> nat) set" where
  "dependency ss = {(i, j). i < length ss \<and> j \<in> set (fst (batchDependencies ss ! i))}"

lemma dependency_waits: "i < length ss \<Longrightarrow> (i, j) \<in> (dependency ss)\<^sup>+ \<longleftrightarrow> waits ss i j"
proof
  assume "(i, j) \<in> (dependency ss)\<^sup>+"
  then show "waits ss i j"
  proof (induction rule: trancl_induct)
    case (base j)
    then show ?case using batchDependencies_spec(2) by (auto simp: dependency_def depends_def waits_def)
  next
    case (step j k)
    then have "depends ss j k" using batchDependencies_spec(2) by (auto simp: dependency_def)
    then show ?case using step.IH unfolding depends_def waits_def by (meson dual_order.strict_trans less_imp_le order.trans order_refl)
  qed
next
  assume "i < length ss" "waits ss i j"
  then show "(i, j) \<in> (dependency ss)\<^sup>+"
  proof (induction i arbitrary: j rule: less_induct)
    case (less i)
    have "\<forall>j. waits ss i j \<longrightarrow> (i, j) \<in> (dependency ss)\<^sup>+"
    proof (subst depends_waits [symmetric], intro allI impI conjI)
      fix d assume "depends ss i d"
      then show d: "(i, d) \<in> (dependency ss)\<^sup>+" using batchDependencies_spec(2) [OF less.prems(1)] less.prems(1) by (auto simp: dependency_def)
      fix j assume "waits ss d j"
      then have "(d, j) \<in> (dependency ss)\<^sup>+" using less.IH [of d j] \<open>depends ss i d\<close> less.prems(1) by (simp add: depends_def)
      with d show "(i, j) \<in> (dependency ss)\<^sup>+" by (rule trancl_trans)
    qed
    then show ?case using less.prems(2) by blast
  qed
qed

text \<open>C22. A parallel batch of a split session keeps the dependency order of the loop: every call is in one stage, in a segment of its own side, and a
  call is in an earlier stage than another exactly when the other depends on it, directly or through others.\<close>

theorem split_stages_follow_dependencies:
  assumes "i < length calls" "j < length calls" "st = stagesOf calls sideOf isSequential True"
  shows "\<exists>t u. call_stage st i t \<and> call_stage st j u \<and> (\<forall>t'. call_stage st i t' \<longrightarrow> t' = t) \<and>
    calls ! i \<in> set (sg_calls (st_segments st ! (st_owner st ! i))) \<and> sg_side (st_segments st ! (st_owner st ! i)) = sideOf (calls ! i) \<and>
    (u < t \<longleftrightarrow> (i, j) \<in> (dependency (map isSequential calls))\<^sup>+)"
proof -
  have ok: "staging_ok sideOf calls st" and ord: "stages_ordered (map isSequential calls) st" using stagesOf_ok stagesOf_ordered assms(3) by auto
  have c: "concat (st_stages st) = [0..<length (st_segments st)]" using ok by (simp add: staging_ok_def)
  have own: "st_owner st ! k < length (st_segments st)" if "k < length calls" for k using ok that by (auto simp: staging_ok_def subset_iff)
  have ex: "\<exists>t. call_stage st k t" if "k < length calls" for k
    by (rule in_stage_exists) (simp only: c set_upt atLeastLessThan_iff own [OF that] zero_le)
  have uniq: "t = t'" if "call_stage st k t" "call_stage st k t'" for k t t' by (rule in_stage_unique [OF _ that]) (simp add: c)
  obtain t u where tu: "call_stage st i t" "call_stage st j u" using ex assms(1,2) by blast
  have "(calls ! i, st_owner st ! i) \<in> set (zip calls (st_owner st))" using assms(1) ok by (auto simp: staging_ok_def set_zip)
  then have "calls ! i \<in> set (own_calls (st_owner st ! i) (zip calls (st_owner st)))" by (force simp: own_calls_def)
  moreover have "sg_calls (st_segments st ! (st_owner st ! i)) = own_calls (st_owner st ! i) (zip calls (st_owner st))" using ok own [OF assms(1)] by (simp add: staging_ok_def)
  ultimately have "calls ! i \<in> set (sg_calls (st_segments st ! (st_owner st ! i)))" by simp
  moreover from this have "sg_side (st_segments st ! (st_owner st ! i)) = sideOf (calls ! i)" using ok own [OF assms(1)] by (auto simp: staging_ok_def)
  moreover have "u < t \<longleftrightarrow> waits (map isSequential calls) i j"
  proof (cases "j < i")
    case True
    then show ?thesis using stages_orderedD(3) [OF ord True _ tu] assms(1) by simp
  next
    case False
    have "t \<le> u"
    proof (cases "i = j")
      case True
      then show ?thesis using uniq tu by blast
    next
      case False': False
      then have "i < j" using False by simp
      then show ?thesis using stages_orderedD(3) [OF ord _ _ tu(2,1)] assms(2) by simp
    qed
    then show ?thesis using False by (simp add: waits_def)
  qed
  ultimately show ?thesis using tu uniq dependency_waits [of i "map isSequential calls" j] assms(1) by (intro exI [of _ t] exI [of _ u]) auto
qed

section \<open>Results in the order of the calls\<close>













definition initial :: "'a list \<Rightarrow> 'a list \<Rightarrow> bool" where
  "initial xs ys \<longleftrightarrow> take (length xs) ys = xs"

lemma initial_simps [simp]: "initial [] ys" "initial (x # xs) (y # ys) \<longleftrightarrow> x = y \<and> initial xs ys" "\<not> initial (x # xs) []"
  by (auto simp: initial_def)
























section \<open>Session plane requests\<close>

text \<open>A request the hand's client sends is read back as it was, the plane runs nothing but loop-side tools, and with the plane on the other end the client gets the tool's result.\<close>

lemma is_object_normal [simp]: "is_object (Some (json_normal v)) = is_object (Some v)"
  by (cases v) simp_all

lemma session_plane_request_roundtrip:
  assumes "sp_tool request \<noteq> []" "is_object (Some (sp_arguments request))"
  shows "decodeSessionPlaneRequest (json_normal (request_body request)) = Inr (request\<lparr>sp_arguments := json_normal (sp_arguments request)\<rparr>)"
  using assms by (simp add: decodeSessionPlaneRequest_def request_body_def isString_def)

lemma session_plane_only_loop_side:
  "serveSessionPlane loopSide run body = Inr v \<Longrightarrow> \<exists>request result. decodeSessionPlaneRequest body = Inr request \<and> sp_tool request \<in> loopSide \<and> run request = Inr result \<and> v = json_normal result"
  by (auto simp: serveSessionPlane_def split: sum.splits if_splits)

lemma session_plane_call_served:
  assumes "sp_tool request \<noteq> []" "is_object (Some (sp_arguments request))" "sp_tool request \<in> loopSide"
    "run (request\<lparr>sp_arguments := json_normal (sp_arguments request)\<rparr>) = Inr result" "is_object (Some result)" "is_list (fld (Some (json_normal result)) ''content'')"
  shows "session_plane_call (\<lambda>plane body. serveSessionPlane loopSide run body) request = Inr (json_normal result)"
  using assms session_plane_request_roundtrip [OF assms(1,2)] by (simp add: session_plane_call_def serveSessionPlane_def)

section \<open>A mixed batch\<close>

definition mixed_calls :: "tool_call list" where
  "mixed_calls = [\<lparr>tc_id = ''t1'', tc_name = ''read'', tc_arguments = None\<rparr>, \<lparr>tc_id = ''t1'', tc_name = ''todo'', tc_arguments = None\<rparr>,
     \<lparr>tc_id = ''t2'', tc_name = ''bash'', tc_arguments = None\<rparr>]"

definition mixed_side :: "tool_call \<Rightarrow> side" where
  "mixed_side c = (if tc_name c = ''todo'' then LoopSide else HandSide)"

definition bash_last :: "tool_call \<Rightarrow> bool" where
  "bash_last c = (tc_name c = ''bash'')"



theorem split_stages_follow_dependencies_witness:
  "let st = stagesOf mixed_calls mixed_side bash_last True in
   \<exists>t u. call_stage st 2 t \<and> call_stage st 0 u \<and> u < t"
proof -
  let ?st = "stagesOf mixed_calls mixed_side bash_last True"
  have l: "2 < length mixed_calls" "0 < length mixed_calls" "2 < length (map bash_last mixed_calls)" by code_simp+
  have "0 \<in> set (fst (batchDependencies (map bash_last mixed_calls) ! 2))" by code_simp
  then have "(2, 0) \<in> (dependency (map bash_last mixed_calls))\<^sup>+" using l(3) by (auto simp: dependency_def)
  with split_stages_follow_dependencies [OF l(1,2) refl, of mixed_side bash_last] show ?thesis unfolding Let_def by blast
qed




end
