(* ===== verification/Loop_Hooks.thy ===== *)
theory Loop_Hooks
  imports Remote_Protocol Step_Trace
begin

text \<open>
  Loop hooks run on the user's machine while the loop runs elsewhere (execution/loop-hook-host-protocol.ts, loop-hook-host.ts, loop-hook-host-hand.ts): the
  messages, the loop host with its waiting calls, a hand process that may be killed and replaced, and both on one lane that outlives the process.
\<close>

section \<open>Messages\<close>

datatype hook_message =
    HkCall string string store_value
  | HkHello string
  | HkStarted string string
  | HkReply string store_value
  | HkFailed string string

fun hook_value :: "hook_message \<Rightarrow> store_value" where
  "hook_value (HkCall callId event payload) = SObj [(''kind'', SStr ''hook.call''), (''callId'', SStr callId), (''event'', SStr event), (''payload'', payload)]"
| "hook_value (HkHello i) = SObj [(''kind'', SStr ''hook.hello''), (''instance'', SStr i)]"
| "hook_value (HkStarted callId i) = SObj [(''kind'', SStr ''hook.started''), (''callId'', SStr callId), (''instance'', SStr i)]"
| "hook_value (HkReply callId result) = SObj [(''kind'', SStr ''hook.reply''), (''callId'', SStr callId), (''result'', result)]"
| "hook_value (HkFailed callId error) = SObj [(''kind'', SStr ''hook.failed''), (''callId'', SStr callId), (''error'', SStr error)]"

definition encodeLoopHookMessage :: "(number \<Rightarrow> string) \<Rightarrow> hook_message \<Rightarrow> string" where
  "encodeLoopHookMessage num_text message = json_text num_text (hook_value message)"

definition decode_hook_value :: "store_value \<Rightarrow> hook_message option" where
  "decode_hook_value value =
     (let v = Some value; kind = fld v ''kind''; callId = fld v ''callId'' in
      if \<not> isRecord v \<or> kind \<notin> set (map (Some \<circ> SStr) [''hook.call'', ''hook.hello'', ''hook.started'', ''hook.reply'', ''hook.failed'']) then None
      else if kind = Some (SStr ''hook.call'') then
        (if isString callId \<and> isString (fld v ''event'') \<and> fld v ''payload'' \<noteq> None
         then Some (HkCall (get_str callId) (get_str (fld v ''event'')) (the (fld v ''payload''))) else None)
      else if kind = Some (SStr ''hook.hello'') then
        (if isString (fld v ''instance'') then Some (HkHello (get_str (fld v ''instance''))) else None)
      else if kind = Some (SStr ''hook.started'') then
        (if isString callId \<and> isString (fld v ''instance'') then Some (HkStarted (get_str callId) (get_str (fld v ''instance''))) else None)
      else if kind = Some (SStr ''hook.reply'') then
        (if isString callId \<and> fld v ''result'' \<noteq> None then Some (HkReply (get_str callId) (the (fld v ''result''))) else None)
      else if isString callId \<and> is_str (fld v ''error'') then Some (HkFailed (get_str callId) (get_str (fld v ''error''))) else None)"

definition decodeLoopHookMessage :: "json_parser \<Rightarrow> string \<Rightarrow> hook_message option" where
  "decodeLoopHookMessage parse payload = (case parse payload of Inl _ \<Rightarrow> None | Inr value \<Rightarrow> decode_hook_value value)"

section \<open>The loop host\<close>

record hook_waiter =
  hw_event :: string
  hw_payload :: store_value
  hw_startedBy :: "string option"

record hook_host =
  hk_pending :: "hook_waiter obj"
  hk_closed :: bool

definition createLoopHookHost :: hook_host where
  "createLoopHookHost = \<lparr>hk_pending = [], hk_closed = False\<rparr>"

datatype hook_out =
    KoSend hook_message
  | KoResolve string store_value
  | KoReject string string
  | KoRun string string string store_value

definition hook_settle :: "string \<Rightarrow> hook_out \<Rightarrow> hook_host \<Rightarrow> hook_out list \<times> hook_host" where
  "hook_settle callId finish h =
     (case map_of (hk_pending h) callId of None \<Rightarrow> ([], h) | Some _ \<Rightarrow> ([finish], h\<lparr>hk_pending := obj_del callId (hk_pending h)\<rparr>))"

definition LoopHookRestartedError :: "string \<Rightarrow> string" where
  "LoopHookRestartedError event = ''The user's machine restarted while it ran the '' @ event @ '' hooks; they were not run again and may have run.''"

text \<open>The loop over the waiting calls when a hand process announces itself.\<close>

fun hello_loop :: "string \<Rightarrow> hook_waiter obj \<Rightarrow> hook_host \<Rightarrow> hook_out list \<times> hook_host" where
  "hello_loop inst [] h = ([], h)"
| "hello_loop inst ((callId, w) # ws) h =
     (case (case hw_startedBy w of
              None \<Rightarrow> ([KoSend (HkCall callId (hw_event w) (hw_payload w))], h)
            | Some i \<Rightarrow> if i = inst then ([], h) else hook_settle callId (KoReject callId (LoopHookRestartedError (hw_event w))) h) of
        (out, h') \<Rightarrow> (case hello_loop inst ws h' of (outs, h'') \<Rightarrow> (out @ outs, h'')))"

fun hook_frame :: "hook_message \<Rightarrow> hook_host \<Rightarrow> hook_out list \<times> hook_host" where
  "hook_frame (HkStarted callId i) h =
     ([], (case map_of (hk_pending h) callId of None \<Rightarrow> h | Some w \<Rightarrow> h\<lparr>hk_pending := obj_put callId (w\<lparr>hw_startedBy := Some i\<rparr>) (hk_pending h)\<rparr>))"
| "hook_frame (HkReply callId result) h = hook_settle callId (KoResolve callId result) h"
| "hook_frame (HkFailed callId error) h = hook_settle callId (KoReject callId error) h"
| "hook_frame (HkHello i) h = hello_loop i (hk_pending h) h"
| "hook_frame (HkCall _ _ _) h = ([], h)"

definition hook_run :: "string \<Rightarrow> store_value \<Rightarrow> bool \<Rightarrow> string \<Rightarrow> hook_host \<Rightarrow> hook_out list \<times> hook_host" where
  "hook_run event payload aborted callId h =
     (if hk_closed h then ([KoReject callId ''The loop-hook link is closed''], h)
      else if aborted then ([KoReject callId ''Operation aborted''], h)
      else ([KoSend (HkCall callId event payload)],
            h\<lparr>hk_pending := obj_put callId \<lparr>hw_event = event, hw_payload = payload, hw_startedBy = None\<rparr> (hk_pending h)\<rparr>))"

definition hook_abort :: "string \<Rightarrow> hook_host \<Rightarrow> hook_out list \<times> hook_host" where
  "hook_abort callId h = hook_settle callId (KoReject callId ''Operation aborted'') h"

definition hook_send_failed :: "string \<Rightarrow> string \<Rightarrow> hook_host \<Rightarrow> hook_out list \<times> hook_host" where
  "hook_send_failed callId reason h = hook_settle callId (KoReject callId (''The link to the user's machine closed: '' @ reason)) h"

definition hook_close :: "hook_host \<Rightarrow> hook_out list \<times> hook_host" where
  "hook_close h =
     (map (\<lambda>(callId, _). KoReject callId ''The loop-hook link was closed before the hooks ran'') (hk_pending h), h\<lparr>hk_closed := True, hk_pending := []\<rparr>)"

section \<open>A hand process\<close>

text \<open>The calls it took with their answers, those whose \<open>started\<close> is being sent, and those whose hooks run.\<close>

record hook_hand =
  hd_instance :: string
  hd_answers :: "hook_message option obj"
  hd_starting :: "(string \<times> string \<times> store_value) list"
  hd_running :: "string list"
  hd_dead :: bool

definition serveLoopHooks :: "string \<Rightarrow> hook_hand" where
  "serveLoopHooks inst = \<lparr>hd_instance = inst, hd_answers = [], hd_starting = [], hd_running = [], hd_dead = False\<rparr>"

fun hand_frame :: "hook_message \<Rightarrow> hook_hand \<Rightarrow> hook_message list \<times> hook_hand" where
  "hand_frame (HkCall callId event payload) p =
     (if hd_dead p then ([], p)
      else case map_of (hd_answers p) callId of
        Some answer \<Rightarrow> ((case answer of Some m \<Rightarrow> [m] | None \<Rightarrow> []), p)
      | None \<Rightarrow> ([], p\<lparr>hd_answers := obj_put callId None (hd_answers p), hd_starting := hd_starting p @ [(callId, event, payload)]\<rparr>))"
| "hand_frame _ p = ([], p)"

text \<open>The send of \<open>started\<close> has ended; only then, and in a process that still lives, the hooks run.\<close>

definition hand_started :: "string \<Rightarrow> bool \<Rightarrow> hook_hand \<Rightarrow> hook_message list \<times> hook_out list \<times> hook_hand" where
  "hand_started callId sent p =
     (case map_of (hd_starting p) callId of
        None \<Rightarrow> ([], [], p)
      | Some (event, payload) \<Rightarrow>
          let p' = p\<lparr>hd_starting := obj_del callId (hd_starting p)\<rparr> in
          if \<not> sent then ([], [], p')
          else if hd_dead p then ([HkStarted callId (hd_instance p)], [], p')
          else ([HkStarted callId (hd_instance p)], [KoRun (hd_instance p) callId event payload], p'\<lparr>hd_running := hd_running p @ [callId]\<rparr>))"

definition hand_ran :: "string \<Rightarrow> (string, store_value) result \<Rightarrow> hook_hand \<Rightarrow> hook_message list \<times> hook_hand" where
  "hand_ran callId outcome p =
     (if callId \<notin> set (hd_running p) then ([], p)
      else
        (let p' = p\<lparr>hd_running := remove1 callId (hd_running p)\<rparr>;
             answer = (case outcome of Inr result \<Rightarrow> HkReply callId result | Inl error \<Rightarrow> HkFailed callId error) in
         if hd_dead p then ([], p') else ([answer], p'\<lparr>hd_answers := obj_put callId (Some answer) (hd_answers p)\<rparr>)))"

section \<open>Both ends\<close>

text \<open>The lanes belong to the endpoints and outlive a hand process. \<open>hs_ran\<close> records the calls whose hooks were run.\<close>

record hook_system =
  hs_host :: hook_host
  hs_hand :: hook_hand
  hs_up :: "hook_message list"
  hs_down :: "hook_message list"
  hs_ran :: "string list"

definition new_hook_system :: "string \<Rightarrow> hook_system" where
  "new_hook_system inst = \<lparr>hs_host = createLoopHookHost, hs_hand = serveLoopHooks inst, hs_up = [], hs_down = [HkHello inst], hs_ran = []\<rparr>"

definition sent_by :: "hook_out list \<Rightarrow> hook_message list" where
  "sent_by outs = concat (map (\<lambda>out. case out of KoSend m \<Rightarrow> [m] | _ \<Rightarrow> []) outs)"

definition host_does :: "hook_out list \<times> hook_host \<Rightarrow> hook_system \<Rightarrow> hook_out list \<times> hook_system" where
  "host_does r s = (fst r, s\<lparr>hs_host := snd r, hs_up := hs_up s @ sent_by (fst r)\<rparr>)"

text \<open>\<open>YvRestart\<close>: the hand process is replaced; sends of \<open>started\<close> the dead process had begun may still go out before the announcement of the new one.\<close>

datatype hook_event =
    YvRun string store_value bool string
  | YvAbort string
  | YvSendFailed string string
  | YvClose
  | YvToHost
  | YvToHand
  | YvStarted string bool
  | YvRan string "(string, store_value) result"
  | YvKill
  | YvRestart string "string list"

fun hook_step :: "hook_event \<Rightarrow> hook_system \<Rightarrow> hook_out list \<times> hook_system" where
  "hook_step (YvRun event payload aborted callId) s = host_does (hook_run event payload aborted callId (hs_host s)) s"
| "hook_step (YvAbort callId) s = host_does (hook_abort callId (hs_host s)) s"
| "hook_step (YvSendFailed callId reason) s = host_does (hook_send_failed callId reason (hs_host s)) s"
| "hook_step YvClose s = host_does (hook_close (hs_host s)) s"
| "hook_step YvToHost s = (case hs_down s of [] \<Rightarrow> ([], s) | m # rest \<Rightarrow> host_does (hook_frame m (hs_host s)) (s\<lparr>hs_down := rest\<rparr>))"
| "hook_step YvToHand s =
     (case hs_up s of [] \<Rightarrow> ([], s)
      | m # rest \<Rightarrow> (case hand_frame m (hs_hand s) of (sent, p) \<Rightarrow> ([], s\<lparr>hs_up := rest, hs_hand := p, hs_down := hs_down s @ sent\<rparr>)))"
| "hook_step (YvStarted callId sent) s =
     (case hand_started callId sent (hs_hand s) of
        (ms, out, p) \<Rightarrow> (out, s\<lparr>hs_hand := p, hs_down := hs_down s @ ms, hs_ran := hs_ran s @ (if out = [] then [] else [callId])\<rparr>))"
| "hook_step (YvRan callId outcome) s = (case hand_ran callId outcome (hs_hand s) of (ms, p) \<Rightarrow> ([], s\<lparr>hs_hand := p, hs_down := hs_down s @ ms\<rparr>))"
| "hook_step YvKill s = ([], s\<lparr>hs_hand := (hs_hand s)\<lparr>hd_dead := True\<rparr>\<rparr>)"
| "hook_step (YvRestart inst late) s =
     ([], s\<lparr>hs_hand := serveLoopHooks inst,
        hs_down := hs_down s @ map (\<lambda>k. HkStarted k (hd_instance (hs_hand s))) (filter (\<lambda>k. map_of (hd_starting (hs_hand s)) k \<noteq> None) late) @ [HkHello inst]\<rparr>)"

end
