(* ===== verification/Hooks_Correct.thy ===== *)
theory Hooks_Correct
  imports Loop_Hooks
begin

text \<open>
  Loop hooks over kills and replacements of the hand process: the hooks of a call run once when the processes are replaced quietly, and a run in which they run twice when they are
  not; every call is settled once, with what its hooks returned.
\<close>

section \<open>Messages are read back\<close>

fun hook_ok :: "hook_message \<Rightarrow> bool" where
  "hook_ok (HkCall k event _) \<longleftrightarrow> k \<noteq> [] \<and> event \<noteq> []"
| "hook_ok (HkHello i) \<longleftrightarrow> i \<noteq> []"
| "hook_ok (HkStarted k i) \<longleftrightarrow> k \<noteq> [] \<and> i \<noteq> []"
| "hook_ok (HkReply k _) \<longleftrightarrow> k \<noteq> []"
| "hook_ok (HkFailed k _) \<longleftrightarrow> k \<noteq> []"

lemma decode_hook_value_encoded: "hook_ok m \<Longrightarrow> decode_hook_value (hook_value m) = Some m"
  by (cases m) (simp_all add: decode_hook_value_def isString_def Let_def)

lemma decode_hook_value_ok: "decode_hook_value v = Some m \<Longrightarrow> hook_ok m"
  by (auto simp: decode_hook_value_def isString_def Let_def split: if_splits)

section \<open>Hooks run once\<close>

fun is_hello :: "hook_message \<Rightarrow> bool" where
  "is_hello (HkHello _) = True"
| "is_hello _ = False"

definition calls_in :: "hook_message list \<Rightarrow> string set" where
  "calls_in ms = {k. \<exists>event payload. HkCall k event payload \<in> set ms}"

definition started_in :: "hook_message list \<Rightarrow> string set" where
  "started_in ms = {k. \<exists>i. HkStarted k i \<in> set ms}"

lemma in_append [simp]: "calls_in (xs @ ys) = calls_in xs \<union> calls_in ys" "started_in (xs @ ys) = started_in xs \<union> started_in ys"
  by (auto simp: calls_in_def started_in_def)

lemma in_simps [simp]: "calls_in [] = {}" "started_in [] = {}" "calls_in (m # ms) = (case m of HkCall k _ _ \<Rightarrow> {k} | _ \<Rightarrow> {}) \<union> calls_in ms"
  "started_in (m # ms) = (case m of HkStarted k _ \<Rightarrow> {k} | _ \<Rightarrow> {}) \<union> started_in ms"
  by (auto simp: calls_in_def started_in_def split: hook_message.splits)

text \<open>The messages the loop host reads before it reads an announcement.\<close>

abbreviation before_hello :: "hook_message list \<Rightarrow> hook_message list" where
  "before_hello \<equiv> takeWhile (\<lambda>m. \<not> is_hello m)"

lemma before_hello_append: "k \<in> started_in (before_hello xs) \<Longrightarrow> k \<in> started_in (before_hello (xs @ ys))"
  by (induction xs) auto

lemma before_hello_sub: "k \<in> started_in (before_hello xs) \<Longrightarrow> k \<in> started_in xs"
  by (auto simp: started_in_def dest: set_takeWhileD)

text \<open>The host will not send the call again.\<close>

definition host_knows :: "hook_host \<Rightarrow> string \<Rightarrow> bool" where
  "host_knows h k \<longleftrightarrow> (case map_of (hk_pending h) k of None \<Rightarrow> True | Some w \<Rightarrow> hw_startedBy w \<noteq> None)"

text \<open>A call that was run is not run again: the process has it, or no copy of it is on its way and the host will learn that it was started before it reads an announcement.\<close>

definition hook_safe :: "hook_system \<Rightarrow> string \<Rightarrow> bool" where
  "hook_safe s k \<longleftrightarrow> k \<notin> fst ` set (hd_starting (hs_hand s)) \<and>
     (map_of (hd_answers (hs_hand s)) k \<noteq> None \<and> (host_knows (hs_host s) k \<or> k \<in> started_in (hs_down s)) \<or>
      k \<notin> calls_in (hs_up s) \<and> (host_knows (hs_host s) k \<or> k \<in> started_in (before_hello (hs_down s))))"

definition hook_inv :: "string set \<Rightarrow> hook_system \<Rightarrow> bool" where
  "hook_inv D s \<longleftrightarrow> distinct (hs_ran s) \<and> (\<forall>k \<in> set (hs_ran s). hook_safe s k) \<and>
     obj_wf (hk_pending (hs_host s)) \<and> obj_wf (hd_starting (hs_hand s)) \<and> (\<forall>k \<in> fst ` set (hd_starting (hs_hand s)). map_of (hd_answers (hs_hand s)) k \<noteq> None) \<and>
     fst ` set (hk_pending (hs_host s)) \<subseteq> D \<and> calls_in (hs_up s) \<subseteq> D \<and> fst ` set (hd_starting (hs_hand s)) \<subseteq> D \<and> set (hs_ran s) \<subseteq> D"

lemma hook_invI:
  assumes "distinct (hs_ran s)" "\<And>k. k \<in> set (hs_ran s) \<Longrightarrow> hook_safe s k" "obj_wf (hk_pending (hs_host s))" "obj_wf (hd_starting (hs_hand s))"
    "\<And>k. k \<in> fst ` set (hd_starting (hs_hand s)) \<Longrightarrow> map_of (hd_answers (hs_hand s)) k \<noteq> None"
    "fst ` set (hk_pending (hs_host s)) \<subseteq> D" "calls_in (hs_up s) \<subseteq> D" "fst ` set (hd_starting (hs_hand s)) \<subseteq> D" "set (hs_ran s) \<subseteq> D"
  shows "hook_inv D s"
  unfolding hook_inv_def by (intro conjI ballI assms)

lemma hook_invD:
  assumes "hook_inv D s"
  shows "distinct (hs_ran s)" "k \<in> set (hs_ran s) \<Longrightarrow> hook_safe s k" "obj_wf (hk_pending (hs_host s))" "obj_wf (hd_starting (hs_hand s))"
    "k \<in> fst ` set (hd_starting (hs_hand s)) \<Longrightarrow> map_of (hd_answers (hs_hand s)) k \<noteq> None"
    "fst ` set (hk_pending (hs_host s)) \<subseteq> D" "calls_in (hs_up s) \<subseteq> D" "fst ` set (hd_starting (hs_hand s)) \<subseteq> D" "set (hs_ran s) \<subseteq> D"
  using assms by (auto simp: hook_inv_def)

text \<open>What the host does with its waiting calls: a call stays as it is, is marked as started, or is dropped; the calls it sends are new or not known to be started.\<close>

definition host_keeps :: "hook_host \<Rightarrow> hook_out list \<times> hook_host \<Rightarrow> bool" where
  "host_keeps h r \<longleftrightarrow> (\<forall>k. host_knows h k \<longrightarrow> host_knows (snd r) k \<and> k \<notin> calls_in (sent_by (fst r))) \<and>
     calls_in (sent_by (fst r)) \<subseteq> fst ` set (hk_pending h) \<and> fst ` set (hk_pending (snd r)) \<subseteq> fst ` set (hk_pending h) \<and> obj_wf (hk_pending (snd r))"

lemma sent_by_simps [simp]: "sent_by [] = []" "sent_by (xs @ ys) = sent_by xs @ sent_by ys" "sent_by (KoSend m # outs) = m # sent_by outs"
  "sent_by (KoResolve k r # outs) = sent_by outs" "sent_by (KoReject k r' # outs) = sent_by outs"
  by (simp_all add: sent_by_def)

lemma settle_keeps:
  assumes "obj_wf (hk_pending h)" "finish = KoResolve k r \<or> finish = KoReject k e"
  shows "host_keeps h (hook_settle k finish h)"
  using assms by (auto simp: host_keeps_def hook_settle_def host_knows_def split: option.splits if_splits)

lemma host_keeps_trans:
  assumes "host_keeps h (out, h1)" "host_keeps h1 (outs, h2)"
  shows "host_keeps h (out @ outs, h2)"
  using assms unfolding host_keeps_def fst_conv snd_conv sent_by_simps in_append by blast

lemma hello_loop_keeps:
  "obj_wf (hk_pending h) \<Longrightarrow> set ws \<subseteq> set (hk_pending h0) \<Longrightarrow> obj_wf (hk_pending h0) \<Longrightarrow> obj_wf ws \<Longrightarrow>
   (\<And>k. k \<in> fst ` set ws \<Longrightarrow> map_of (hk_pending h) k = map_of (hk_pending h0) k) \<Longrightarrow> host_keeps h (hello_loop inst ws h)"
proof (induction ws arbitrary: h)
  case Nil
  then show ?case by (simp add: host_keeps_def)
next
  case (Cons x ws)
  obtain k w where x: "x = (k, w)" by fastforce
  let ?r = "case hw_startedBy w of None \<Rightarrow> ([KoSend (HkCall k (hw_event w) (hw_payload w))], h)
    | Some i \<Rightarrow> if i = inst then ([], h) else hook_settle k (KoReject k (LoopHookRestartedError (hw_event w))) h"
  have w: "map_of (hk_pending h) k = Some w" using Cons.prems(2,3,5) x by (auto intro: map_of_is_SomeI)
  then have kin: "k \<in> fst ` set (hk_pending h)" by (force dest: map_of_SomeD)
  have keep: "host_keeps h ?r"
  proof (cases "hw_startedBy w")
    case None
    then show ?thesis using w kin Cons.prems(1) by (auto simp: host_keeps_def host_knows_def)
  next
    case (Some i)
    then show ?thesis using settle_keeps [OF Cons.prems(1)] Cons.prems(1) by (auto simp: host_keeps_def)
  qed
  obtain out h1 where r: "?r = (out, h1)" by fastforce
  have "map_of (hk_pending h1) j = map_of (hk_pending h) j" if "j \<noteq> k" for j
    using r that by (auto simp: hook_settle_def split: option.splits if_splits)
  then have same: "map_of (hk_pending h1) j = map_of (hk_pending h0) j" if "j \<in> fst ` set ws" for j
    using that Cons.prems(4,5) x by (metis distinct.simps(2) fst_conv image_insert insertI2 list.set(2) list.set_map list.simps(9))
  have wf: "obj_wf (hk_pending h1)" using keep r by (simp add: host_keeps_def)
  have "set ws \<subseteq> set (hk_pending h0)" "obj_wf ws" using Cons.prems(2,4) by simp_all
  from Cons.IH [OF wf this(1) Cons.prems(3) this(2) same] have ih: "host_keeps h1 (hello_loop inst ws h1)" .
  obtain outs h2 where t: "hello_loop inst ws h1 = (outs, h2)" by fastforce
  have k1: "host_keeps h (out, h1)" using keep unfolding r .
  have k2: "host_keeps h1 (outs, h2)" using ih unfolding t .
  have "hello_loop inst (x # ws) h = (out @ outs, h2)" using r t by (simp only: x hello_loop.simps prod.case)
  then show ?case using host_keeps_trans [OF k1 k2] by simp
qed

lemma hook_frame_keeps: "obj_wf (hk_pending h) \<Longrightarrow> host_keeps h (hook_frame m h)"
proof (induction m h rule: hook_frame.induct)
  case (1 k i h)
  show ?case
  proof (cases "map_of (hk_pending h) k")
    case None
    then show ?thesis using 1 by (simp add: host_keeps_def)
  next
    case (Some w)
    then have "k \<in> fst ` set (hk_pending h)" by (force dest: map_of_SomeD)
    then show ?thesis using 1 Some by (auto simp: host_keeps_def host_knows_def)
  qed
next
  case (4 i h)
  then show ?case using hello_loop_keeps [of h "hk_pending h" h i] by simp
next
  case (5 k event payload h)
  then show ?case by (simp add: host_keeps_def)
qed (use settle_keeps in auto)

lemma host_own_keeps:
  "obj_wf (hk_pending h) \<Longrightarrow> host_keeps h (hook_abort k h)"
  "obj_wf (hk_pending h) \<Longrightarrow> host_keeps h (hook_send_failed k reason h)"
  "obj_wf (hk_pending h) \<Longrightarrow> host_keeps h (hook_close h)"
proof -
  have "sent_by (map (\<lambda>(k, _). KoReject k x) ws) = []" for x and ws :: "hook_waiter obj" by (induction ws) auto
  then show "obj_wf (hk_pending h) \<Longrightarrow> host_keeps h (hook_close h)" by (simp add: host_keeps_def hook_close_def host_knows_def)
qed (simp_all add: hook_abort_def hook_send_failed_def settle_keeps)

text \<open>A step of the host keeps a call safe if it keeps what the host knows, and the host learns what it reads before an announcement.\<close>

lemma hook_inv_host:
  assumes "hook_inv D s" "host_keeps (hs_host s) r" "s' = s\<lparr>hs_host := snd r, hs_up := hs_up s @ sent_by (fst r), hs_down := down\<rparr>"
    and down: "\<And>k. k \<in> started_in (hs_down s) \<Longrightarrow> k \<in> started_in down \<or> host_knows (snd r) k"
      "\<And>k. k \<in> started_in (before_hello (hs_down s)) \<Longrightarrow> (k \<in> started_in (before_hello down) \<or> host_knows (snd r) k) \<and> k \<notin> calls_in (sent_by (fst r))"
  shows "hook_inv D s'"
proof (rule hook_invI)
  fix k assume "k \<in> set (hs_ran s')"
  then have "hook_safe s k" using hook_invD(2) [OF assms(1)] by (simp add: assms(3))
  moreover have "host_knows (hs_host s) k \<Longrightarrow> host_knows (snd r) k \<and> k \<notin> calls_in (sent_by (fst r))" using assms(2) by (simp add: host_keeps_def)
  ultimately show "hook_safe s' k" using down [of k] unfolding hook_safe_def assms(3) by auto
next
  show "obj_wf (hk_pending (hs_host s'))" using assms(2) by (simp add: host_keeps_def assms(3))
  have sub: "fst ` set (hk_pending (snd r)) \<subseteq> fst ` set (hk_pending (hs_host s))" "calls_in (sent_by (fst r)) \<subseteq> fst ` set (hk_pending (hs_host s))"
    using assms(2) by (simp_all add: host_keeps_def)
  show "fst ` set (hk_pending (hs_host s')) \<subseteq> D" using subset_trans [OF sub(1) hook_invD(6) [OF assms(1)]] by (simp add: assms(3))
  show "calls_in (hs_up s') \<subseteq> D" using subset_trans [OF sub(2) hook_invD(6) [OF assms(1)]] hook_invD(7) [OF assms(1)] by (simp add: assms(3))
qed (use hook_invD [OF assms(1)] in \<open>simp_all add: assms(3)\<close>)

lemma hook_inv_frame:
  assumes "hook_inv D s" "hs_down s = m # rest"
  shows "hook_inv D (snd (host_does (hook_frame m (hs_host s)) (s\<lparr>hs_down := rest\<rparr>)))"
proof (rule hook_inv_host [OF assms(1) hook_frame_keeps [OF hook_invD(3) [OF assms(1)]]])
  have knows: "host_knows (snd (hook_frame (HkStarted k i) h)) k" for k i h by (auto simp: host_knows_def split: option.splits)
  have quiet: "sent_by (fst (hook_frame m h)) = []" if "\<not> is_hello m" for h using that by (cases m) (auto simp: hook_settle_def split: option.splits)
  show "k \<in> started_in rest \<or> host_knows (snd (hook_frame m (hs_host s))) k" if "k \<in> started_in (hs_down s)" for k
    using that assms(2) knows by (cases m) auto
  show "(k \<in> started_in (before_hello rest) \<or> host_knows (snd (hook_frame m (hs_host s))) k) \<and> k \<notin> calls_in (sent_by (fst (hook_frame m (hs_host s))))"
    if "k \<in> started_in (before_hello (hs_down s))" for k
    using that assms(2) knows quiet by (cases m) auto
qed (simp add: host_does_def)

lemma hook_inv_own:
  assumes "hook_inv D s" "host_keeps (hs_host s) r" "sent_by (fst r) = []"
  shows "hook_inv D (snd (host_does r s))"
  by (rule hook_inv_host [OF assms(1,2), where down = "hs_down s"]) (simp_all add: host_does_def assms(3))

lemma hook_inv_run:
  assumes "hook_inv D s" "callId \<notin> D"
  shows "hook_inv (insert callId D) (snd (host_does (hook_run event payload aborted callId (hs_host s)) s))"
proof (cases "hk_closed (hs_host s) \<or> aborted")
  case True
  then have "snd (host_does (hook_run event payload aborted callId (hs_host s)) s) = s" by (auto simp: host_does_def hook_run_def)
  then show ?thesis using hook_invD [OF assms(1)] by (auto intro!: hook_invI)
next
  case False
  let ?s = "snd (host_does (hook_run event payload aborted callId (hs_host s)) s)"
  have s: "?s = s\<lparr>hs_host := (hs_host s)\<lparr>hk_pending := obj_put callId \<lparr>hw_event = event, hw_payload = payload, hw_startedBy = None\<rparr> (hk_pending (hs_host s))\<rparr>,
      hs_up := hs_up s @ [HkCall callId event payload]\<rparr>" using False by (simp add: host_does_def hook_run_def)
  show ?thesis unfolding s
  proof (rule hook_invI)
    fix k assume "k \<in> set (hs_ran (s\<lparr>hs_host := (hs_host s)\<lparr>hk_pending := obj_put callId \<lparr>hw_event = event, hw_payload = payload, hw_startedBy = None\<rparr> (hk_pending (hs_host s))\<rparr>,
      hs_up := hs_up s @ [HkCall callId event payload]\<rparr>))"
    then have "hook_safe s k" "k \<noteq> callId" using hook_invD(2,9) [OF assms(1)] assms(2) by auto
    then show "hook_safe (s\<lparr>hs_host := (hs_host s)\<lparr>hk_pending := obj_put callId \<lparr>hw_event = event, hw_payload = payload, hw_startedBy = None\<rparr> (hk_pending (hs_host s))\<rparr>,
      hs_up := hs_up s @ [HkCall callId event payload]\<rparr>) k" by (auto simp: hook_safe_def host_knows_def)
  qed (use hook_invD [OF assms(1)] in auto)
qed

lemma hook_inv_hand:
  assumes "hook_inv D s" "s' = s\<lparr>hs_hand := p, hs_down := hs_down s @ ms\<rparr>" "hd_starting p = hd_starting (hs_hand s)"
    "\<And>k. map_of (hd_answers (hs_hand s)) k \<noteq> None \<Longrightarrow> map_of (hd_answers p) k \<noteq> None"
  shows "hook_inv D s'"
proof (rule hook_invI)
  fix k assume "k \<in> set (hs_ran s')"
  then have "hook_safe s k" using hook_invD(2) [OF assms(1)] by (simp add: assms(2))
  then show "hook_safe s' k" using assms(4) [of k] before_hello_append [of k "hs_down s" ms] by (auto simp: hook_safe_def assms(2,3))
next
  fix k assume "k \<in> fst ` set (hd_starting (hs_hand s'))"
  then show "map_of (hd_answers (hs_hand s')) k \<noteq> None" using hook_invD(5) [OF assms(1)] assms(4) by (simp add: assms(2,3))
qed (use hook_invD [OF assms(1)] in \<open>simp_all add: assms(2,3)\<close>)

lemma hook_inv_take:
  assumes "hook_inv D s" "hs_up s = m # rest"
  shows "hook_inv D (snd (hook_step YvToHand s))"
proof -
  let ?p = "hs_hand s"
  have up: "hook_inv D (s\<lparr>hs_up := rest\<rparr>)"
    by (rule hook_invI) (use hook_invD [OF assms(1)] assms(2) in \<open>auto simp: hook_safe_def\<close>)
  show ?thesis
  proof (cases "\<exists>k event payload. m = HkCall k event payload \<and> \<not> hd_dead ?p \<and> map_of (hd_answers ?p) k = None")
    case True
    then obtain k event payload where m: "m = HkCall k event payload" "\<not> hd_dead ?p" "map_of (hd_answers ?p) k = None" by blast
    have kD: "k \<in> D" using hook_invD(7) [OF assms(1)] assms(2) m(1) by auto
    have fresh: "k \<notin> fst ` set (hd_starting ?p)" using hook_invD(5) [OF assms(1)] m(3) by blast
    have other: "k \<notin> set (hs_ran s)" using hook_invD(2) [OF assms(1), of k] assms(2) m by (auto simp: hook_safe_def)
    have s': "snd (hook_step YvToHand s) = s\<lparr>hs_up := rest, hs_hand := ?p\<lparr>hd_answers := obj_put k None (hd_answers ?p), hd_starting := hd_starting ?p @ [(k, event, payload)]\<rparr>\<rparr>"
      using assms(2) m by simp
    show ?thesis unfolding s'
      by (rule hook_invI) (use hook_invD [OF up] other kD fresh in \<open>auto simp: hook_safe_def\<close>)
  next
    case False
    have "snd (hand_frame m ?p) = ?p" using False by (cases m) (auto split: option.splits)
    then obtain ms where ms: "hand_frame m ?p = (ms, ?p)" by (metis prod.collapse)
    show ?thesis using hook_inv_hand [OF up, where p = ?p and ms = ms] by (simp add: assms(2) ms)
  qed
qed

lemma hook_inv_started:
  assumes "hook_inv D s"
  shows "hook_inv D (snd (hook_step (YvStarted k sent) s))"
proof (cases "map_of (hd_starting (hs_hand s)) k")
  case None
  then show ?thesis using assms by (simp add: hand_started_def)
next
  case (Some v)
  let ?p = "hs_hand s"
  have kin: "k \<in> fst ` set (hd_starting ?p)" using Some by (force dest: map_of_SomeD)
  have old: "k \<notin> set (hs_ran s)" using hook_invD(2) [OF assms, of k] kin by (auto simp: hook_safe_def)
  have kD: "k \<in> D" "map_of (hd_answers ?p) k \<noteq> None" using hook_invD(5,8) [OF assms] kin by blast+
  have del: "hook_inv D (s\<lparr>hs_hand := ?p\<lparr>hd_starting := obj_del k (hd_starting ?p)\<rparr>\<rparr>)"
    by (rule hook_invI) (use hook_invD [OF assms] in \<open>auto simp: hook_safe_def\<close>)
  show ?thesis
  proof (cases "sent \<and> \<not> hd_dead ?p")
    case True
    obtain event payload where v: "v = (event, payload)" by fastforce
    define s1 where "s1 = s\<lparr>hs_hand := ?p\<lparr>hd_starting := obj_del k (hd_starting ?p), hd_running := hd_running ?p @ [k]\<rparr>,
        hs_down := hs_down s @ [HkStarted k (hd_instance ?p)], hs_ran := hs_ran s @ [k]\<rparr>"
    have s': "snd (hook_step (YvStarted k sent) s) = s1" using True Some v by (simp add: hand_started_def Let_def s1_def)
    show ?thesis unfolding s'
    proof (rule hook_invI)
      fix j assume "j \<in> set (hs_ran s1)"
      then have "j = k \<or> hook_safe (s\<lparr>hs_hand := ?p\<lparr>hd_starting := obj_del k (hd_starting ?p)\<rparr>\<rparr>) j" using hook_invD(2) [OF del, of j] by (auto simp: s1_def)
      then show "hook_safe s1 j" using kD(2) before_hello_append [of j "hs_down s"] by (auto simp: s1_def hook_safe_def)
    qed (use hook_invD [OF del] old kD in \<open>auto simp: s1_def\<close>)
  next
    case False
    show ?thesis using hook_inv_hand [OF del refl, where ms = "if sent then [HkStarted k (hd_instance ?p)] else []" and p = "?p\<lparr>hd_starting := obj_del k (hd_starting ?p)\<rparr>"] False Some
      by (auto simp: hand_started_def Let_def split: if_splits prod.splits)
  qed
qed

text \<open>A restart is quiet when the announcement of the process before has been read, and no call it took is on its way to it again.\<close>

definition quiet_restart :: "hook_system \<Rightarrow> bool" where
  "quiet_restart s \<longleftrightarrow> list_all (\<lambda>m. \<not> is_hello m) (hs_down s) \<and>
     list_all (\<lambda>m. case m of HkCall k _ _ \<Rightarrow> map_of (hd_answers (hs_hand s)) k = None | _ \<Rightarrow> True) (hs_up s)"

fun restarts_quiet :: "hook_event list \<Rightarrow> hook_system \<Rightarrow> bool" where
  "restarts_quiet [] s = True"
| "restarts_quiet (e # es) s = ((case e of YvRestart _ _ \<Rightarrow> quiet_restart s | _ \<Rightarrow> True) \<and> restarts_quiet es (snd (hook_step e s)))"

lemma hook_inv_restart:
  assumes "hook_inv D s" "quiet_restart s"
  shows "hook_inv D (snd (hook_step (YvRestart i late) s))"
proof -
  have down: "before_hello (hs_down s) = hs_down s" using assms(2) by (simp add: quiet_restart_def takeWhile_eq_all_conv list_all_iff)
  have up: "map_of (hd_answers (hs_hand s)) k = None" if "k \<in> calls_in (hs_up s)" for k
    using assms(2) that by (force simp: quiet_restart_def calls_in_def list_all_iff)
  have "hook_safe (snd (hook_step (YvRestart i late) s)) k" if "k \<in> set (hs_ran s)" for k
  proof -
    have "hook_safe s k" by (rule hook_invD(2) [OF assms(1) that])
    then have "k \<notin> calls_in (hs_up s) \<and> (host_knows (hs_host s) k \<or> k \<in> started_in (before_hello (hs_down s)))" using up [of k] unfolding hook_safe_def down by auto
    then show ?thesis using before_hello_append [of k "hs_down s"] by (auto simp: hook_safe_def serveLoopHooks_def)
  qed
  then show ?thesis using hook_invD [OF assms(1)] by (intro hook_invI) (simp_all add: serveLoopHooks_def)
qed

definition hook_ids :: "hook_event \<Rightarrow> string list" where
  "hook_ids e = (case e of YvRun _ _ _ k \<Rightarrow> [k] | _ \<Rightarrow> [])"

lemma hook_inv_step:
  assumes "hook_inv D s" "set (hook_ids e) \<inter> D = {}" "case e of YvRestart _ _ \<Rightarrow> quiet_restart s | _ \<Rightarrow> True"
  shows "hook_inv (D \<union> set (hook_ids e)) (snd (hook_step e s))"
proof (cases e)
  case (YvRun event payload aborted k)
  then show ?thesis using hook_inv_run [OF assms(1)] assms(2) by (simp add: hook_ids_def)
next
  case (YvRan k outcome)
  obtain ms p where r: "hand_ran k outcome (hs_hand s) = (ms, p)" by fastforce
  then have "hd_starting p = hd_starting (hs_hand s)" "map_of (hd_answers (hs_hand s)) j \<noteq> None \<Longrightarrow> map_of (hd_answers p) j \<noteq> None" for j
    by (auto simp: hand_ran_def Let_def split: if_splits)
  then show ?thesis using hook_inv_hand [OF assms(1) refl, of p ms] YvRan r by (simp add: hook_ids_def)
next
  case YvToHost
  then show ?thesis using assms(1) hook_inv_frame [OF assms(1)] by (auto simp: hook_ids_def split: list.splits)
next
  case YvToHand
  then show ?thesis using assms(1) hook_inv_take [OF assms(1)] by (cases "hs_up s") (simp_all add: hook_ids_def)
next
  case YvKill
  then show ?thesis using hook_inv_hand [OF assms(1), where ms = "[]" and p = "(hs_hand s)\<lparr>hd_dead := True\<rparr>"] by (simp add: hook_ids_def)
next
  case (YvAbort k)
  have "sent_by (fst (hook_abort k (hs_host s))) = []" by (simp add: hook_abort_def hook_settle_def split: option.splits)
  then show ?thesis using hook_inv_own [OF assms(1) host_own_keeps(1) [OF hook_invD(3) [OF assms(1)]]] YvAbort by (simp add: hook_ids_def)
next
  case (YvSendFailed k reason)
  have "sent_by (fst (hook_send_failed k reason (hs_host s))) = []" by (simp add: hook_send_failed_def hook_settle_def split: option.splits)
  then show ?thesis using hook_inv_own [OF assms(1) host_own_keeps(2) [OF hook_invD(3) [OF assms(1)]]] YvSendFailed by (simp add: hook_ids_def)
next
  case YvClose
  have "sent_by (map (\<lambda>(k, _). KoReject k x) ws) = []" for x and ws :: "hook_waiter obj" by (induction ws) auto
  then have "sent_by (fst (hook_close (hs_host s))) = []" by (simp add: hook_close_def)
  then show ?thesis using hook_inv_own [OF assms(1) host_own_keeps(3) [OF hook_invD(3) [OF assms(1)]]] YvClose by (simp add: hook_ids_def)
next
  case (YvStarted k sent)
  then show ?thesis using hook_inv_started [OF assms(1)] by (simp add: hook_ids_def del: hook_step.simps)
next
  case (YvRestart i late)
  then show ?thesis using hook_inv_restart [OF assms(1)] assms(3) by (simp add: hook_ids_def del: hook_step.simps)
qed

lemma hook_inv_runs:
  "hook_inv D s \<Longrightarrow> distinct (concat (map hook_ids es)) \<Longrightarrow> set (concat (map hook_ids es)) \<inter> D = {} \<Longrightarrow> restarts_quiet es s \<Longrightarrow>
   hook_inv (D \<union> set (concat (map hook_ids es))) (snd (run_steps hook_step es s))"
proof (induction es arbitrary: D s)
  case (Cons e es)
  have "hook_inv (D \<union> set (hook_ids e)) (snd (hook_step e s))"
    by (rule hook_inv_step [OF Cons.prems(1)]) (use Cons.prems(3,4) in auto)
  moreover have "set (concat (map hook_ids es)) \<inter> (D \<union> set (hook_ids e)) = {}" "distinct (concat (map hook_ids es))" "restarts_quiet es (snd (hook_step e s))"
    using Cons.prems(2-4) by auto
  ultimately have "hook_inv (D \<union> set (hook_ids e) \<union> set (concat (map hook_ids es))) (snd (run_steps hook_step es (snd (hook_step e s))))" using Cons.IH by blast
  then show ?case by (auto simp: Un_assoc split: prod.splits)
qed simp

definition ran_of :: "hook_out \<Rightarrow> string list" where
  "ran_of out = (case out of KoRun _ k _ _ \<Rightarrow> [k] | _ \<Rightarrow> [])"

lemma ran_of_none: "(\<And>i k event payload. KoRun i k event payload \<notin> set outs) \<Longrightarrow> concat (map ran_of outs) = []"
  by (auto simp: ran_of_def split: hook_out.splits)

lemma host_runs_none: "KoRun i k event payload \<notin> set (fst (hook_frame m h))" "KoRun i k event payload \<notin> set (fst (hook_run event' payload' aborted callId h))"
  "KoRun i k event payload \<notin> set (fst (hook_abort callId h))" "KoRun i k event payload \<notin> set (fst (hook_send_failed callId reason h))"
  "KoRun i k event payload \<notin> set (fst (hook_close h))"
proof -
  have "KoRun i k event payload \<notin> set (fst (hello_loop inst ws h))" for inst ws h
  proof (induction ws arbitrary: h)
    case (Cons x ws)
    then show ?case by (cases x) (auto simp: hook_settle_def split: option.splits prod.splits if_splits, (metis fst_conv)+)
  qed simp
  then show "KoRun i k event payload \<notin> set (fst (hook_frame m h))" by (cases m) (auto simp: hook_settle_def split: option.splits)
qed (auto simp: hook_run_def hook_abort_def hook_send_failed_def hook_close_def hook_settle_def split: option.splits)

lemma hook_step_ran: "hook_step e s = (out, s') \<Longrightarrow> hs_ran s' = hs_ran s @ concat (map ran_of out)"
  by (cases e) (auto simp: host_does_def host_runs_none ran_of_none hand_started_def Let_def ran_of_def [of "KoRun _ _ _ _"]
    split: list.splits option.splits prod.splits if_splits)

text \<open>C23. The hooks of a call run at most once, over any number of hand processes, kills and replacements, aborts and failed sends, provided that every process is replaced only
  after the loop host has read its announcement and when no call it took is on its way to it again.\<close>

theorem loop_hooks_run_once:
  assumes "run_steps hook_step es (new_hook_system inst) = (outs, s)" "distinct (concat (map hook_ids es))" "restarts_quiet es (new_hook_system inst)"
  shows "distinct (concat (map ran_of outs)) \<and> set (concat (map ran_of outs)) \<subseteq> set (concat (map hook_ids es))"
proof -
  have "hook_inv {} (new_hook_system inst)"
    by (rule hook_invI) (simp_all add: new_hook_system_def createLoopHookHost_def serveLoopHooks_def)
  from hook_inv_runs [OF this assms(2) _ assms(3)] assms(1) have "hook_inv (set (concat (map hook_ids es))) s" by simp
  moreover have "hs_ran s = concat (map ran_of outs)"
    using run_steps_log [where noted = hs_ran and said = ran_of, OF hook_step_ran assms(1)] by (simp add: new_hook_system_def)
  ultimately show ?thesis using hook_invD(1,9) by metis
qed

section \<open>Every call is settled once, with what its hooks gave\<close>

definition hook_settles :: "string \<Rightarrow> hook_out \<Rightarrow> bool" where
  "hook_settles k out = (case out of KoResolve j _ \<Rightarrow> j = k | KoReject j _ \<Rightarrow> j = k | _ \<Rightarrow> False)"

lemma hook_settles_simps [simp]: "hook_settles k (KoResolve j r) = (j = k)" "hook_settles k (KoReject j e) = (j = k)" "\<not> hook_settles k (KoSend m)"
  "\<not> hook_settles k (KoRun i j event payload)"
  by (simp_all add: hook_settles_def)

definition waiting_for :: "string \<Rightarrow> hook_host \<Rightarrow> nat" where
  "waiting_for k h = (if map_of (hk_pending h) k = None then 0 else 1)"

definition settled_evenly :: "string \<Rightarrow> hook_host \<Rightarrow> hook_out list \<times> hook_host \<Rightarrow> bool" where
  "settled_evenly k h r \<longleftrightarrow> length (filter (hook_settles k) (fst r)) + waiting_for k (snd r) = waiting_for k h"

lemma settle_evenly: "finish = KoResolve j r \<or> finish = KoReject j e \<Longrightarrow> settled_evenly k h (hook_settle j finish h)"
  by (auto simp: settled_evenly_def hook_settle_def waiting_for_def split: option.splits)

lemma hello_evenly: "settled_evenly k h (hello_loop inst ws h)"
proof (induction ws arbitrary: h)
  case (Cons x ws)
  obtain j w where x: "x = (j, w)" by fastforce
  let ?r = "case hw_startedBy w of None \<Rightarrow> ([KoSend (HkCall j (hw_event w) (hw_payload w))], h)
    | Some i \<Rightarrow> if i = inst then ([], h) else hook_settle j (KoReject j (LoopHookRestartedError (hw_event w))) h"
  have e: "settled_evenly k h ?r" using settle_evenly [of "KoReject j (LoopHookRestartedError (hw_event w))" j]
    by (auto simp: settled_evenly_def split: option.splits)
  obtain out h1 where r: "?r = (out, h1)" by fastforce
  obtain outs h2 where t: "hello_loop inst ws h1 = (outs, h2)" by fastforce
  have "hello_loop inst (x # ws) h = (out @ outs, h2)" using r t by (simp only: x hello_loop.simps prod.case)
  moreover have "settled_evenly k h (out, h1)" using e unfolding r .
  moreover have "settled_evenly k h1 (outs, h2)" using Cons.IH [of h1] unfolding t .
  ultimately show ?case by (simp add: settled_evenly_def)
qed (simp add: settled_evenly_def)

lemma close_evenly: "obj_wf (hk_pending h) \<Longrightarrow> settled_evenly k h (hook_close h)"
proof -
  assume "obj_wf (hk_pending h)"
  moreover have "obj_wf ws \<Longrightarrow> length (filter (hook_settles k) (map (\<lambda>(j, _). KoReject j x) ws)) = (if map_of ws k = None then 0 else 1)" for x and ws :: "hook_waiter obj"
  proof (induction ws)
    case (Cons y ws)
    obtain j w where y: "y = (j, w)" by fastforce
    have "map_of ws k = None" if "j = k" using Cons.prems that by (simp add: y map_of_eq_None_iff)
    then show ?case using Cons.IH Cons.prems by (auto simp: y filter_map)
  qed simp
  ultimately show ?thesis by (simp add: settled_evenly_def hook_close_def waiting_for_def)
qed

lemma frame_evenly: "settled_evenly k h (hook_frame m h)"
  by (cases m) (auto simp: settle_evenly hello_evenly, auto simp: settled_evenly_def waiting_for_def split: option.splits)

text \<open>Where things come from: \<open>E\<close> the steps and \<open>H\<close> the answers so far.\<close>

definition asked_in :: "hook_event set \<Rightarrow> string \<Rightarrow> string \<Rightarrow> store_value \<Rightarrow> bool" where
  "asked_in E k event payload \<longleftrightarrow> (\<exists>aborted. YvRun event payload aborted k \<in> E)"

definition ran_in :: "hook_event set \<Rightarrow> hook_out set \<Rightarrow> string \<Rightarrow> bool" where
  "ran_in E H k \<longleftrightarrow> (\<exists>i event payload. KoRun i k event payload \<in> H \<and> asked_in E k event payload)"

definition message_from :: "hook_event set \<Rightarrow> hook_out set \<Rightarrow> hook_message \<Rightarrow> bool" where
  "message_from E H m = (case m of HkCall k event payload \<Rightarrow> asked_in E k event payload | HkReply k r \<Rightarrow> ran_in E H k \<and> YvRan k (Inr r) \<in> E | _ \<Rightarrow> True)"

definition hook_hist :: "hook_event set \<Rightarrow> hook_out set \<Rightarrow> hook_system \<Rightarrow> bool" where
  "hook_hist E H s \<longleftrightarrow>
     (\<forall>m \<in> set (hs_up s) \<union> set (hs_down s). message_from E H m) \<and> (\<forall>k m. (k, Some m) \<in> set (hd_answers (hs_hand s)) \<longrightarrow> message_from E H m) \<and>
     (\<forall>(k, w) \<in> set (hk_pending (hs_host s)). asked_in E k (hw_event w) (hw_payload w)) \<and>
     (\<forall>(k, event, payload) \<in> set (hd_starting (hs_hand s)). asked_in E k event payload) \<and>
     (\<forall>k \<in> set (hd_running (hs_hand s)). ran_in E H k) \<and> (\<forall>k r. KoResolve k r \<in> H \<longrightarrow> ran_in E H k \<and> YvRan k (Inr r) \<in> E)"

lemma from_mono:
  "asked_in E k event payload \<Longrightarrow> asked_in (insert e E) k event payload" "ran_in E H k \<Longrightarrow> ran_in (insert e E) (H \<union> H') k"
  "message_from E H m \<Longrightarrow> message_from (insert e E) (H \<union> H') m"
  by (auto simp: asked_in_def ran_in_def message_from_def split: hook_message.splits)

lemma hook_hist_mono: "hook_hist E H s \<Longrightarrow> (\<And>k r. KoResolve k r \<in> H' \<Longrightarrow> ran_in E H k \<and> YvRan k (Inr r) \<in> E) \<Longrightarrow> hook_hist (insert e E) (H \<union> H') s"
  unfolding hook_hist_def by (auto 0 3 intro: from_mono)

text \<open>A step of the host: the calls it sends are those that wait, and it resolves only with the reply it read.\<close>

definition host_from :: "hook_message option \<Rightarrow> hook_host \<Rightarrow> hook_out list \<times> hook_host \<Rightarrow> bool" where
  "host_from m h r \<longleftrightarrow>
     (\<forall>(k, w') \<in> set (hk_pending (snd r)). \<exists>w. (k, w) \<in> set (hk_pending h) \<and> hw_event w' = hw_event w \<and> hw_payload w' = hw_payload w) \<and>
     (\<forall>m' \<in> set (sent_by (fst r)). \<exists>(k, w) \<in> set (hk_pending h). m' = HkCall k (hw_event w) (hw_payload w)) \<and>
     (\<forall>k r'. KoResolve k r' \<in> set (fst r) \<longrightarrow> m = Some (HkReply k r'))"

lemma host_from_settle: "finish = KoReject k e \<or> finish = KoResolve k r \<and> m = Some (HkReply k r) \<Longrightarrow> host_from m h (hook_settle k finish h)"
  by (auto simp: host_from_def hook_settle_def obj_del_def split: option.splits)

lemma host_from_hello:
  "set ws \<subseteq> set (hk_pending h0) \<Longrightarrow> set (hk_pending h) \<subseteq> set (hk_pending h0) \<Longrightarrow> host_from None h0 (hello_loop inst ws h)"
proof (induction ws arbitrary: h)
  case (Cons x ws)
  obtain k w where x: "x = (k, w)" by fastforce
  let ?r = "case hw_startedBy w of None \<Rightarrow> ([KoSend (HkCall k (hw_event w) (hw_payload w))], h)
    | Some i \<Rightarrow> if i = inst then ([], h) else hook_settle k (KoReject k (LoopHookRestartedError (hw_event w))) h"
  obtain out h1 where r: "?r = (out, h1)" by fastforce
  have sub: "set (hk_pending h1) \<subseteq> set (hk_pending h)" using r by (auto simp: hook_settle_def obj_del_def split: option.splits if_splits)
  have o: "\<And>k' r'. KoResolve k' r' \<notin> set out" "\<And>m'. m' \<in> set (sent_by out) \<Longrightarrow> m' = HkCall k (hw_event w) (hw_payload w)"
    using r by (auto simp: hook_settle_def split: option.splits if_splits)
  obtain outs h2 where t: "hello_loop inst ws h1 = (outs, h2)" by fastforce
  have "host_from None h0 (outs, h2)" using Cons.IH [of h1] Cons.prems sub unfolding t by auto
  moreover have "hello_loop inst (x # ws) h = (out @ outs, h2)" using r t by (simp only: x hello_loop.simps prod.case)
  moreover have "(k, w) \<in> set (hk_pending h0)" using Cons.prems(1) x by simp
  ultimately show ?case using o unfolding host_from_def by fastforce
qed (fastforce simp: host_from_def)

lemma host_from_frame: "host_from (Some m) h (hook_frame m h)"
proof (cases m)
  case (HkStarted k i)
  show ?thesis
  proof (cases "map_of (hk_pending h) k")
    case None
    then show ?thesis by (auto simp: HkStarted host_from_def)
  next
    case (Some w)
    have "\<exists>w0. (j, w0) \<in> set (hk_pending h) \<and> hw_event w' = hw_event w0 \<and> hw_payload w' = hw_payload w0"
      if "(j, w') \<in> set (obj_put k (w\<lparr>hw_startedBy := Some i\<rparr>) (hk_pending h))" for j w'
    proof -
      have "(j, w') = (k, w\<lparr>hw_startedBy := Some i\<rparr>) \<or> (j, w') \<in> set (hk_pending h)"
        using subsetD [OF set_obj_put_subset that] by blast
      then show ?thesis using map_of_SomeD [OF Some] by auto
    qed
    then show ?thesis using Some by (auto simp: HkStarted host_from_def)
  qed
next
  case (HkHello i)
  have "host_from None h (hello_loop i (hk_pending h) h)" by (rule host_from_hello) simp_all
  then show ?thesis by (simp add: HkHello host_from_def)
qed (auto simp: host_from_settle, auto simp: host_from_def)

lemma hook_hist_host:
  assumes "hook_hist E H s" "host_from m (hs_host s) r" "\<And>m'. m = Some m' \<Longrightarrow> message_from E H m'" "set down \<subseteq> set (hs_down s)"
  shows "hook_hist (insert e E) (H \<union> set (fst r)) (s\<lparr>hs_host := snd r, hs_up := hs_up s @ sent_by (fst r), hs_down := down\<rparr>)"
proof -
  have p: "asked_in E k (hw_event w) (hw_payload w)" if "(k, w) \<in> set (hk_pending (hs_host s))" for k w using assms(1) that by (auto simp: hook_hist_def)
  have "hook_hist E H (s\<lparr>hs_host := snd r, hs_up := hs_up s @ sent_by (fst r), hs_down := down\<rparr>)"
    unfolding hook_hist_def
  proof (intro conjI)
    show "\<forall>m \<in> set (hs_up (s\<lparr>hs_host := snd r, hs_up := hs_up s @ sent_by (fst r), hs_down := down\<rparr>)) \<union> set (hs_down (s\<lparr>hs_host := snd r, hs_up := hs_up s @ sent_by (fst r), hs_down := down\<rparr>)).
        message_from E H m"
      using assms(1,2,4) p unfolding hook_hist_def host_from_def by (fastforce simp: message_from_def)
    show "\<forall>(k, w) \<in> set (hk_pending (hs_host (s\<lparr>hs_host := snd r, hs_up := hs_up s @ sent_by (fst r), hs_down := down\<rparr>))). asked_in E k (hw_event w) (hw_payload w)"
      using assms(2) p unfolding host_from_def by fastforce
  qed (use assms(1) in \<open>simp_all add: hook_hist_def\<close>)
  moreover have "ran_in E H k \<and> YvRan k (Inr r') \<in> E" if "KoResolve k r' \<in> set (fst r)" for k r'
    using assms(2,3) that unfolding host_from_def by (fastforce simp: message_from_def)
  ultimately show ?thesis by (rule hook_hist_mono)
qed

lemma hook_hist_frame:
  assumes "hook_hist E H s" "hs_down s = m # rest"
  shows "hook_hist (insert e E) (H \<union> set (fst (hook_frame m (hs_host s)))) (snd (host_does (hook_frame m (hs_host s)) (s\<lparr>hs_down := rest\<rparr>)))"
proof -
  have m: "message_from E H m" using assms by (simp add: hook_hist_def)
  have eq: "snd (host_does (hook_frame m (hs_host s)) (s\<lparr>hs_down := rest\<rparr>)) =
      s\<lparr>hs_host := snd (hook_frame m (hs_host s)), hs_up := hs_up s @ sent_by (fst (hook_frame m (hs_host s))), hs_down := rest\<rparr>" by (simp add: host_does_def)
  show ?thesis unfolding eq by (rule hook_hist_host [OF assms(1) host_from_frame]) (use m assms(2) in auto)
qed

lemma hook_hist_own:
  assumes "hook_hist E H s" "host_from None (hs_host s) r"
  shows "hook_hist (insert e E) (H \<union> set (fst r)) (snd (host_does r s))"
  using hook_hist_host [OF assms, of "hs_down s" e] by (simp add: host_does_def)

lemma hook_hist_run:
  assumes "hook_hist E H s"
  shows "hook_hist (insert (YvRun event payload aborted k) E) (H \<union> set (fst (hook_run event payload aborted k (hs_host s)))) (snd (host_does (hook_run event payload aborted k (hs_host s)) s))"
proof -
  let ?e = "YvRun event payload aborted k"
  have new: "asked_in (insert ?e E) k event payload" by (auto simp: asked_in_def)
  have "hook_hist (insert ?e E) (H \<union> set (fst (hook_run event payload aborted k (hs_host s)))) s"
    by (rule hook_hist_mono [OF assms]) (auto simp: hook_run_def split: if_splits)
  then show ?thesis using new set_obj_put_subset [of k _ "hk_pending (hs_host s)"]
    by (fastforce simp: hook_hist_def host_does_def hook_run_def message_from_def split: if_splits)
qed

lemma hook_hist_hand:
  assumes "hook_hist E H s" "s' = s\<lparr>hs_up := up, hs_hand := p, hs_down := hs_down s @ ms, hs_ran := ran'\<rparr>" "set up \<subseteq> set (hs_up s)"
    "\<And>k r. KoResolve k r \<notin> set out"
    "\<And>m. m \<in> set ms \<Longrightarrow> message_from (insert e E) (H \<union> set out) m"
    "\<And>k m. (k, Some m) \<in> set (hd_answers p) \<Longrightarrow> message_from (insert e E) (H \<union> set out) m"
    "\<And>k event payload. (k, event, payload) \<in> set (hd_starting p) \<Longrightarrow> asked_in (insert e E) k event payload"
    "\<And>k. k \<in> set (hd_running p) \<Longrightarrow> ran_in (insert e E) (H \<union> set out) k"
  shows "hook_hist (insert e E) (H \<union> set out) s'"
proof -
  have "hook_hist (insert e E) (H \<union> set out) s" by (rule hook_hist_mono [OF assms(1)]) (use assms(4) in blast)
  then show ?thesis using assms(3,5-8) unfolding hook_hist_def assms(2) by auto
qed

lemma hook_histD:
  assumes "hook_hist E H s"
  shows "m \<in> set (hs_up s) \<Longrightarrow> message_from E H m" "(k, Some m) \<in> set (hd_answers (hs_hand s)) \<Longrightarrow> message_from E H m"
    "(k, event, payload) \<in> set (hd_starting (hs_hand s)) \<Longrightarrow> asked_in E k event payload" "k \<in> set (hd_running (hs_hand s)) \<Longrightarrow> ran_in E H k"
    "KoResolve k r \<in> H \<Longrightarrow> ran_in E H k \<and> YvRan k (Inr r) \<in> E"
  using assms unfolding hook_hist_def by auto

lemma hook_hist_take:
  assumes "hook_hist E H s" "hs_up s = m # rest"
  shows "hook_hist (insert e E) H (snd (hook_step YvToHand s))"
proof -
  obtain ms p where f: "hand_frame m (hs_hand s) = (ms, p)" by fastforce
  have m: "message_from E H m" using hook_histD(1) [OF assms(1)] assms(2) by simp
  note d = hook_histD(2-4) [OF assms(1)] and mono = from_mono(1) [of E _ _ _ e] from_mono(2,3) [of E H _ e "{}", simplified]
  have ms: "\<And>m'. m' \<in> set ms \<Longrightarrow> \<exists>k. (k, Some m') \<in> set (hd_answers (hs_hand s))" and r: "hd_running p = hd_running (hs_hand s)"
    and a: "\<And>k m'. (k, Some m') \<in> set (hd_answers p) \<Longrightarrow> (k, Some m') \<in> set (hd_answers (hs_hand s))"
    and st: "\<And>k event payload. (k, event, payload) \<in> set (hd_starting p) \<Longrightarrow> (k, event, payload) \<in> set (hd_starting (hs_hand s)) \<or> m = HkCall k event payload"
    using f by (cases m; auto split: if_splits option.splits dest: map_of_SomeD dest!: subsetD [OF set_obj_put_subset])+
  have "hook_hist (insert e E) (H \<union> set []) (s\<lparr>hs_up := rest, hs_hand := p, hs_down := hs_down s @ ms, hs_ran := hs_ran s\<rparr>)"
  proof (rule hook_hist_hand [OF assms(1) refl])
    show "asked_in (insert e E) k event payload" if "(k, event, payload) \<in> set (hd_starting p)" for k event payload
      using st [OF that] d(2) m mono(1) by (auto simp: message_from_def)
    show "message_from (insert e E) (H \<union> set []) m'" if "m' \<in> set ms" for m' using ms [OF that] d(1) mono(3) by auto
    show "message_from (insert e E) (H \<union> set []) m'" if "(k, Some m') \<in> set (hd_answers p)" for k m' using mono(3) [OF d(1) [OF a [OF that]]] by simp
    show "ran_in (insert e E) (H \<union> set []) k" if "k \<in> set (hd_running p)" for k using mono(2) [OF d(3)] that r by simp
  qed (use assms(2) in auto)
  then show ?thesis using assms(2) f by simp
qed

lemma hook_hist_started:
  assumes "hook_hist E H s" "hook_step (YvStarted k sent) s = (out, s')"
  shows "hook_hist (insert (YvStarted k sent) E) (H \<union> set out) s'"
proof -
  let ?e = "YvStarted k sent"
  obtain ms p where f: "hand_started k sent (hs_hand s) = (ms, out, p)" and s': "s' = s\<lparr>hs_hand := p, hs_down := hs_down s @ ms, hs_ran := hs_ran s @ (if out = [] then [] else [k])\<rparr>"
    using assms(2) by (auto split: prod.splits)
  note d = hook_histD(2-4) [OF assms(1)] and mono = from_mono(1) [of E _ _ _ ?e] from_mono(2,3) [of E H _ ?e "set out"]
  have ms: "\<And>m. m \<in> set ms \<Longrightarrow> m = HkStarted k (hd_instance (hs_hand s))" and a: "hd_answers p = hd_answers (hs_hand s)"
    and st: "set (hd_starting p) \<subseteq> set (hd_starting (hs_hand s))" and o: "\<And>k r. KoResolve k r \<notin> set out"
    using f by (auto simp: hand_started_def obj_del_def Let_def split: option.splits if_splits prod.splits)
  have r: "j \<in> set (hd_running (hs_hand s)) \<or> (\<exists>i event payload. KoRun i j event payload \<in> set out \<and> (j, event, payload) \<in> set (hd_starting (hs_hand s)))"
    if "j \<in> set (hd_running p)" for j
    using f that by (auto simp: hand_started_def Let_def split: option.splits if_splits prod.splits dest: map_of_SomeD)
  have "hook_hist (insert ?e E) (H \<union> set out) (s\<lparr>hs_up := hs_up s, hs_hand := p, hs_down := hs_down s @ ms, hs_ran := hs_ran s @ (if out = [] then [] else [k])\<rparr>)"
  proof (rule hook_hist_hand [OF assms(1) refl])
    show "ran_in (insert ?e E) (H \<union> set out) j" if "j \<in> set (hd_running p)" for j
      using r [OF that]
    proof
      assume "\<exists>i event payload. KoRun i j event payload \<in> set out \<and> (j, event, payload) \<in> set (hd_starting (hs_hand s))"
      then show ?thesis using d(2) mono(1) unfolding ran_in_def by blast
    qed (use d(3) mono(2) in blast)
    show "message_from (insert ?e E) (H \<union> set out) m" if "m \<in> set ms" for m using ms [OF that] by (simp add: message_from_def)
    show "message_from (insert ?e E) (H \<union> set out) m" if "(j, Some m) \<in> set (hd_answers p)" for j m using mono(3) [OF d(1)] that a by simp
    show "asked_in (insert ?e E) j event payload" if "(j, event, payload) \<in> set (hd_starting p)" for j event payload using mono(1) [OF d(2)] that st by blast
  qed (use o in auto)
  then show ?thesis by (simp add: s')
qed

lemma hook_hist_ran:
  assumes "hook_hist E H s"
  shows "hook_hist (insert (YvRan k outcome) E) H (snd (hook_step (YvRan k outcome) s))"
proof -
  let ?e = "YvRan k outcome"
  obtain ms p where f: "hand_ran k outcome (hs_hand s) = (ms, p)" by fastforce
  note d = hook_histD(2-4) [OF assms(1)] and mono = from_mono(1) [of E _ _ _ ?e] from_mono(2,3) [of E H _ ?e "{}", simplified]
  have new: "message_from (insert ?e E) H (case outcome of Inr result \<Rightarrow> HkReply k result | Inl error \<Rightarrow> HkFailed k error)" if "k \<in> set (hd_running (hs_hand s))"
    using mono(2) [OF d(3) [OF that]] by (auto simp: message_from_def split: sum.splits)
  have ms: "\<And>m. m \<in> set ms \<Longrightarrow> k \<in> set (hd_running (hs_hand s)) \<and> m = (case outcome of Inr result \<Rightarrow> HkReply k result | Inl error \<Rightarrow> HkFailed k error)"
    and a: "\<And>j m. (j, Some m) \<in> set (hd_answers p) \<Longrightarrow> (j, Some m) \<in> set (hd_answers (hs_hand s)) \<or> m \<in> set ms"
    and st: "hd_starting p = hd_starting (hs_hand s)" and r: "set (hd_running p) \<subseteq> set (hd_running (hs_hand s))"
    using f by (auto simp: hand_ran_def Let_def split: if_splits dest!: subsetD [OF set_obj_put_subset] subsetD [OF set_remove1_subset])
  have "hook_hist (insert ?e E) (H \<union> set []) (s\<lparr>hs_up := hs_up s, hs_hand := p, hs_down := hs_down s @ ms, hs_ran := hs_ran s\<rparr>)"
  proof (rule hook_hist_hand [OF assms(1) refl])
    show m: "message_from (insert ?e E) (H \<union> set []) m" if "m \<in> set ms" for m using ms [OF that] new by simp
    show "message_from (insert ?e E) (H \<union> set []) m" if "(j, Some m) \<in> set (hd_answers p)" for j m using a [OF that] m d(1) mono(3) by auto
    show "asked_in (insert ?e E) j event payload" if "(j, event, payload) \<in> set (hd_starting p)" for j event payload using mono(1) [OF d(2)] that st by simp
    show "ran_in (insert ?e E) (H \<union> set []) j" if "j \<in> set (hd_running p)" for j using mono(2) [OF d(3)] that r by auto
  qed simp_all
  then show ?thesis using f by simp
qed

lemma host_from_own: "host_from None h (hook_abort k h)" "host_from None h (hook_send_failed k reason h)" "host_from None h (hook_close h)"
proof -
  have "sent_by (map (\<lambda>(k, _). KoReject k x) ws) = []" for x and ws :: "hook_waiter obj" by (induction ws) auto
  then show "host_from None h (hook_close h)" by (auto simp: host_from_def hook_close_def)
qed (simp_all add: hook_abort_def hook_send_failed_def host_from_settle)

lemma hook_hist_restart:
  assumes "hook_hist E H s"
  shows "hook_hist (insert e E) H (snd (hook_step (YvRestart i late) s))"
proof -
  have "hook_hist (insert e E) (H \<union> {}) s" by (rule hook_hist_mono [OF assms]) simp
  then show ?thesis by (auto simp: hook_hist_def serveLoopHooks_def message_from_def)
qed

interpretation hook_origin: history_invariant hook_step hook_hist
proof
  fix E H s e out s'
  assume a: "hook_hist E H s" "hook_step e s = (out, s')"
  have same: "hook_hist (insert e E) H s" using hook_hist_mono [OF a(1), of "{}" e] by simp
  show "hook_hist (insert e E) (H \<union> set out) s'"
  proof (cases e)
    case (YvRun event payload aborted k)
    then show ?thesis using hook_hist_run [OF a(1), of event payload aborted k] a(2) by (auto simp: host_does_def)
  next
    case (YvAbort k)
    then show ?thesis using hook_hist_own [OF a(1) host_from_own(1), of e k] a(2) by (auto simp: host_does_def)
  next
    case (YvSendFailed k reason)
    then show ?thesis using hook_hist_own [OF a(1) host_from_own(2), of e k reason] a(2) by (auto simp: host_does_def)
  next
    case YvClose
    then show ?thesis using hook_hist_own [OF a(1) host_from_own(3), of e] a(2) by (auto simp: host_does_def)
  next
    case YvToHost
    then show ?thesis using hook_hist_frame [OF a(1), of _ _ e] same a(2) by (cases "hs_down s") (auto simp: host_does_def)
  next
    case YvToHand
    then show ?thesis using hook_hist_take [OF a(1), of _ _ e] same a(2) by (cases "hs_up s") (auto split: prod.splits)
  next
    case (YvStarted k sent)
    then show ?thesis using hook_hist_started [OF a(1)] a(2) by blast
  next
    case (YvRan k outcome)
    then show ?thesis using hook_hist_ran [OF a(1), of k outcome] a(2) by (auto split: prod.splits)
  next
    case YvKill
    then show ?thesis using same a(2) by (auto simp: hook_hist_def)
  next
    case (YvRestart i late)
    then show ?thesis using hook_hist_restart [OF a(1), of e i late] a(2) by auto
  qed
qed

lemma hook_step_evenly:
  assumes "hook_step e s = (out, s')" "obj_wf (hk_pending (hs_host s))" "k \<in> set (hook_ids e) \<Longrightarrow> waiting_for k (hs_host s) = 0"
  shows "length (filter (hook_settles k) out) + waiting_for k (hs_host s') = waiting_for k (hs_host s) + (if k \<in> set (hook_ids e) then 1 else 0)"
    and "obj_wf (hk_pending (hs_host s'))"
proof -
  have even: "length (filter (hook_settles k) out) + waiting_for k (hs_host s') = waiting_for k (hs_host s)" if "settled_evenly k (hs_host s) r" "out = fst r" "hs_host s' = snd r" for r
    using that by (simp add: settled_evenly_def)
  show "length (filter (hook_settles k) out) + waiting_for k (hs_host s') = waiting_for k (hs_host s) + (if k \<in> set (hook_ids e) then 1 else 0)"
  proof (cases e)
    case (YvRun event payload aborted j)
    then show ?thesis using assms(1,3) by (auto simp: host_does_def hook_run_def hook_ids_def waiting_for_def split: if_splits)
  next
    case YvToHost
    then show ?thesis
    proof (cases "hs_down s")
      case (Cons m rest)
      then show ?thesis using assms(1) even [OF frame_evenly, of m] YvToHost by (auto simp: host_does_def hook_ids_def)
    qed (use assms(1) in \<open>simp add: hook_ids_def\<close>)
  next
    case (YvAbort j)
    have "settled_evenly k (hs_host s) (hook_abort j (hs_host s))" unfolding hook_abort_def by (rule settle_evenly) simp
    then show ?thesis using assms(1) even YvAbort by (auto simp: host_does_def hook_ids_def)
  next
    case (YvSendFailed j reason)
    have "settled_evenly k (hs_host s) (hook_send_failed j reason (hs_host s))" unfolding hook_send_failed_def by (rule settle_evenly) simp
    then show ?thesis using assms(1) even YvSendFailed by (auto simp: host_does_def hook_ids_def)
  next
    case YvClose
    then show ?thesis using assms(1) even [OF close_evenly [OF assms(2)]] by (auto simp: host_does_def hook_ids_def)
  qed (use assms(1) in \<open>auto simp: hook_ids_def hand_started_def Let_def split: list.splits option.splits prod.splits if_splits\<close>)
  have keep: "obj_wf (hk_pending (hs_host s'))" if "host_keeps (hs_host s) r" "hs_host s' = snd r" for r using that by (simp add: host_keeps_def)
  note keeps = keep [OF host_own_keeps(1) [OF assms(2)]] keep [OF host_own_keeps(2) [OF assms(2)]] keep [OF host_own_keeps(3) [OF assms(2)]]
  show "obj_wf (hk_pending (hs_host s'))"
  proof (cases e)
    case YvToHost
    then show ?thesis using assms(1,2) keep [OF hook_frame_keeps [OF assms(2)]] by (cases "hs_down s") (auto simp: host_does_def)
  next
    case (YvRun event payload aborted j)
    then show ?thesis using assms(1,2) by (auto simp: host_does_def hook_run_def split: if_splits)
  qed (use assms(1,2) keeps in \<open>auto simp: host_does_def split: list.splits prod.splits\<close>)
qed

lemma hook_run_evenly:
  "run_steps hook_step es s = (outs, s') \<Longrightarrow> obj_wf (hk_pending (hs_host s)) \<Longrightarrow> distinct (concat (map hook_ids es)) \<Longrightarrow>
   (\<And>j. j \<in> set (concat (map hook_ids es)) \<Longrightarrow> waiting_for j (hs_host s) = 0) \<Longrightarrow>
   length (filter (hook_settles k) outs) + waiting_for k (hs_host s') = waiting_for k (hs_host s) + (if k \<in> set (concat (map hook_ids es)) then 1 else 0)"
proof (induction es arbitrary: s outs)
  case (Cons e es)
  obtain out s1 outs' where c: "hook_step e s = (out, s1)" "run_steps hook_step es s1 = (outs', s')" "outs = out @ outs'"
    by (rule run_steps_Cons [OF Cons.prems(1)])
  have one: "length (filter (hook_settles j) out) + waiting_for j (hs_host s1) = waiting_for j (hs_host s) + (if j \<in> set (hook_ids e) then 1 else 0)" for j
    by (rule hook_step_evenly(1) [OF c(1) Cons.prems(2)]) (use Cons.prems(4) in simp)
  have wf: "obj_wf (hk_pending (hs_host s1))" by (rule hook_step_evenly(2) [OF c(1) Cons.prems(2), of k]) (use Cons.prems(4) in simp)
  have "waiting_for j (hs_host s1) = 0" if "j \<in> set (concat (map hook_ids es))" for j
  proof -
    have "waiting_for j (hs_host s) = 0" "j \<notin> set (hook_ids e)" using Cons.prems(3,4) that by auto
    then show ?thesis using one [of j] by simp
  qed
  from Cons.IH [OF c(2) wf _ this] Cons.prems(3)
  have rest: "length (filter (hook_settles k) outs') + waiting_for k (hs_host s') = waiting_for k (hs_host s1) + (if k \<in> set (concat (map hook_ids es)) then 1 else 0)"
    by simp
  have "k \<notin> set (hook_ids e) \<or> k \<notin> set (concat (map hook_ids es))" using Cons.prems(3) by auto
  then show ?case using rest one [of k] c(3) by (cases "k \<in> set (hook_ids e)") (simp_all split: if_splits)
qed simp

text \<open>C40. Every call for the user's hooks is settled exactly once or still waits, over any number of hand processes and whatever is aborted, fails or is closed; and a call that gets a
  result gets what its hooks returned: some process ran them for the event and payload of this call, and this is what that run gave.\<close>

theorem loop_hook_calls_settle:
  assumes "run_steps hook_step es (new_hook_system inst) = (outs, s)" "distinct (concat (map hook_ids es))"
  shows "length (filter (hook_settles k) outs) + waiting_for k (hs_host s) = (if k \<in> set (concat (map hook_ids es)) then 1 else 0) \<and>
    (KoResolve k r \<in> set outs \<longrightarrow>
      (\<exists>i event payload aborted. YvRun event payload aborted k \<in> set es \<and> KoRun i k event payload \<in> set outs \<and> YvRan k (Inr r) \<in> set es))"
proof
  show "length (filter (hook_settles k) outs) + waiting_for k (hs_host s) = (if k \<in> set (concat (map hook_ids es)) then 1 else 0)"
    using hook_run_evenly [OF assms(1) _ assms(2), of k] by (simp add: new_hook_system_def createLoopHookHost_def waiting_for_def)
  have "hook_hist {} {} (new_hook_system inst)"
    by (simp add: hook_hist_def new_hook_system_def createLoopHookHost_def serveLoopHooks_def message_from_def)
  from hook_origin.hist_run [OF this assms(1)] have "hook_hist (set es) (set outs) s" by simp
  from hook_histD(5) [OF this] show "KoResolve k r \<in> set outs \<longrightarrow>
      (\<exists>i event payload aborted. YvRun event payload aborted k \<in> set es \<and> KoRun i k event payload \<in> set outs \<and> YvRan k (Inr r) \<in> set es)"
    unfolding ran_in_def asked_in_def by blast
qed

section \<open>Runs\<close>

definition hook_events :: "hook_event list" where
  "hook_events = [YvToHost, YvRun ''context'' SNull False ''k1'', YvToHand, YvStarted ''k1'' True, YvKill, YvRun ''context'' SNull False ''k2'', YvRestart ''p2'' [],
     YvToHand, YvStarted ''k2'' True, YvToHost, YvToHost]"

theorem loop_hooks_run_once_witness:
  "concat (map ran_of (fst (run_steps hook_step hook_events (new_hook_system ''p1'')))) = [''k1'', ''k2''] \<and>
   distinct (concat (map ran_of (fst (run_steps hook_step hook_events (new_hook_system ''p1'')))))"
proof
  show "concat (map ran_of (fst (run_steps hook_step hook_events (new_hook_system ''p1'')))) = [''k1'', ''k2'']" by code_simp
  have "distinct (concat (map hook_ids hook_events))" "restarts_quiet hook_events (new_hook_system ''p1'')" by code_simp+
  then show "distinct (concat (map ran_of (fst (run_steps hook_step hook_events (new_hook_system ''p1'')))))"
    using loop_hooks_run_once [of hook_events "''p1''" "fst (run_steps hook_step hook_events (new_hook_system ''p1''))" "snd (run_steps hook_step hook_events (new_hook_system ''p1''))"] by simp
qed

text \<open>The condition is needed. A call made before the first announcement is read is sent a second time when it is; if the process took the first copy and is replaced before it reads
  the second, the next process runs the hooks again, although the host had learnt that they were started.\<close>

definition racing_events :: "hook_event list" where
  "racing_events = [YvRun ''context'' SNull False ''k1'', YvToHand, YvStarted ''k1'' True, YvToHost, YvToHost, YvKill, YvRestart ''p2'' [], YvToHand, YvStarted ''k1'' True]"

lemma hooks_run_twice:
  "concat (map ran_of (fst (run_steps hook_step racing_events (new_hook_system ''p1'')))) = [''k1'', ''k1''] \<and>
   map_option hw_startedBy (map_of (hk_pending (hs_host (snd (run_steps hook_step racing_events (new_hook_system ''p1''))))) ''k1'') = Some (Some ''p1'')"
  by code_simp

definition answered_events :: "hook_event list" where
  "answered_events = [YvToHost, YvRun ''context'' SNull False ''k1'', YvToHand, YvStarted ''k1'' True, YvRan ''k1'' (Inr (SBool True)), YvToHost, YvToHost, YvToHost, YvClose]"

theorem loop_hook_calls_settle_witness:
  "length (filter (hook_settles ''k1'') (fst (run_steps hook_step answered_events (new_hook_system ''p1'')))) = 1 \<and>
   (\<exists>i. KoRun i ''k1'' ''context'' SNull \<in> set (fst (run_steps hook_step answered_events (new_hook_system ''p1''))))"
proof -
  let ?r = "run_steps hook_step answered_events (new_hook_system ''p1'')"
  have f: "distinct (concat (map hook_ids answered_events))" "waiting_for ''k1'' (hs_host (snd ?r)) = 0" "''k1'' \<in> set (concat (map hook_ids answered_events))"
    "KoResolve ''k1'' (SBool True) \<in> set (fst ?r)" by code_simp+
  from loop_hook_calls_settle [of answered_events "''p1''" "fst ?r" "snd ?r" "''k1''" "SBool True"] f show ?thesis by (auto simp: answered_events_def)
qed

end
